(* ===== verification/Prelude.thy ===== *)
theory Prelude
  imports Main "HOL-Library.Monad_Syntax" "HOL-Library.Multiset" "HOL-Library.Word"
begin

text \<open>
  Shared vocabulary of the development: addresses and the allocator that stands for
  \<open>malloc\<close>, the values of \<open>errno\<close> the programs set, C strings, and a few general
  facts on lists, maps and the option monad. In the whole development \<open>None\<close> as the
  result of an operation means undefined behaviour of the C code (a null or dangling
  dereference, a double free, an index out of bounds), never an error the code reports.
\<close>

section \<open>Lemma collections\<close>

named_theorems c_defs \<open>definitions that are unfolded when an operation is evaluated\<close>
named_theorems bind_simps \<open>how a successful monadic run decomposes\<close>

lemma bind_eq_SomeD [bind_simps]:
  "(Option.bind m f = Some y) = (\<exists>x. m = Some x \<and> f x = Some y)"
  by (cases m) auto

section \<open>Addresses, errno and malloc\<close>

type_synonym addr = nat

datatype errno = NoError | EINVAL | ENOMEM

text \<open>
  The allocator: a fresh address for every call, and the outcomes of the calls to come
  (\<open>False\<close> is a \<open>malloc\<close> that returns \<open>NULL\<close>). When the list is used up every
  further call succeeds; since a run makes finitely many calls, every pattern of failures
  is one such list. The record is extended by the state of the component that allocates.
\<close>

record alloc =
  next_addr :: addr
  mallocs :: "bool list"

definition malloc :: "'a alloc_scheme \<Rightarrow> addr option \<times> 'a alloc_scheme" where
  "malloc m =
     (case mallocs m of
        [] \<Rightarrow> (Some (next_addr m), m\<lparr>next_addr := Suc (next_addr m)\<rparr>)
      | ok # rest \<Rightarrow>
          (if ok
           then (Some (next_addr m), m\<lparr>next_addr := Suc (next_addr m), mallocs := rest\<rparr>)
           else (None, m\<lparr>mallocs := rest\<rparr>)))"

lemma malloc_cases:
  obtains (fail) ms where "malloc m = (None, m\<lparr>mallocs := ms\<rparr>)" and "False \<in> set (mallocs m)"
      and "set ms \<subseteq> set (mallocs m)"
  | (ok) ms where "malloc m = (Some (next_addr m), m\<lparr>next_addr := Suc (next_addr m), mallocs := ms\<rparr>)"
      and "set ms \<subseteq> set (mallocs m)"
proof (cases "mallocs m")
  case Nil
  then have "malloc m = (Some (next_addr m),
      m\<lparr>next_addr := Suc (next_addr m), mallocs := mallocs m\<rparr>)"
    by (simp add: malloc_def)
  then show thesis by (rule ok) simp
next
  case (Cons b ms)
  then show thesis
    by (cases b) (auto simp: malloc_def intro: ok [of ms] fail [of ms])
qed

section \<open>C characters\<close>

text \<open>A C string is the list of its bytes before the terminating zero.\<close>

definition prefixes_of :: "'a list \<Rightarrow> 'a list set" where
  "prefixes_of s = {take n s |n. n \<le> length s}"

lemma prefixes_of_iff: "u \<in> prefixes_of s \<longleftrightarrow> (\<exists>v. s = u @ v)"
proof
  assume "u \<in> prefixes_of s"
  then obtain n where "u = take n s" by (auto simp: prefixes_of_def)
  then have "s = u @ drop n s" by simp
  then show "\<exists>v. s = u @ v" ..
next
  assume "\<exists>v. s = u @ v"
  then obtain v where s: "s = u @ v" ..
  then have "u = take (length u) s" and "length u \<le> length s" by simp_all
  then show "u \<in> prefixes_of s" unfolding prefixes_of_def by blast
qed

section \<open>Maps\<close>

lemma map_upd_None_iff [simp]: "(m(a \<mapsto> b)) c = None \<longleftrightarrow> c \<noteq> a \<and> m c = None"
  by simp

end
