(* ===== verification/Seq_Trie.thy ===== *)
theory Seq_Trie
  imports Prelude
begin

text \<open>
  \<open>I year/computer-architecture-and-operating-systems/project1/seq.c\<close>: a set of words over
  the digits 0, 1, 2, kept as a tree with three children per node, with an equivalence
  relation on the words. Equivalent words share an \<open>a_class\<close> object, which counts its
  nodes and owns the name of the class.

  Tree nodes are owned by exactly one parent, so the tree is a datatype, and a node pointer
  into it is the position of the node (the word that leads to it). Classes and their name
  strings are shared and mutated through several pointers, so they live in an explicit
  store. Every node carries its address: the store records which node addresses are
  allocated, so that freeing a node twice is \<open>None\<close>, and a node that is never freed can be
  seen. The counter of a class, an \<open>int\<close> in the code, is bounded by the number of nodes in
  memory and is an unbounded \<open>int\<close> here.
\<close>

section \<open>Data\<close>

record a_class =
  counter :: int
  str :: "addr option"

datatype seq =
    NoNode
  | Node (naddr: addr) (seq_w: int) (lchild: seq) (mchild: seq) (rchild: seq)
      (seq_class: "addr option")
  where
    "lchild NoNode = NoNode"
  | "mchild NoNode = NoNode"
  | "rchild NoNode = NoNode"
  | "seq_class NoNode = None"

record store = alloc +
  nodes :: "addr set"
  classes :: "addr \<rightharpoonup> a_class"
  strs :: "addr \<rightharpoonup> string"
  errno :: errno

section \<open>Pointers into the tree\<close>

fun child :: "char \<Rightarrow> seq \<Rightarrow> seq" where
  "child c p =
     (if c = CHR ''0'' then lchild p
      else if c = CHR ''1'' then mchild p
      else if c = CHR ''2'' then rchild p
      else NoNode)"

fun set_child :: "char \<Rightarrow> seq \<Rightarrow> seq \<Rightarrow> seq" where
  "set_child c q NoNode = NoNode"
| "set_child c q (Node a w l m r k) =
     (if c = CHR ''0'' then Node a w q m r k
      else if c = CHR ''1'' then Node a w l q r k
      else if c = CHR ''2'' then Node a w l m q k
      else Node a w l m r k)"

fun set_class :: "addr option \<Rightarrow> seq \<Rightarrow> seq" where
  "set_class k NoNode = NoNode"
| "set_class k (Node a w l m r _) = Node a w l m r k"

fun subtree_at :: "string \<Rightarrow> seq \<Rightarrow> seq" where
  "subtree_at [] p = p"
| "subtree_at (c # cs) p = subtree_at cs (child c p)"

fun modify_at :: "string \<Rightarrow> (seq \<Rightarrow> seq) \<Rightarrow> seq \<Rightarrow> seq" where
  "modify_at [] f p = f p"
| "modify_at (c # cs) f p = set_child c (modify_at cs f (child c p)) p"

section \<open>Allocation and release\<close>

definition class_new :: "addr \<Rightarrow> store \<Rightarrow> addr option \<times> store" where
  "class_new s st =
     (case malloc st of
        (None, st') \<Rightarrow> (None, st'\<lparr>errno := ENOMEM\<rparr>)
      | (Some a, st') \<Rightarrow>
          (Some a, st'\<lparr>classes := (classes st')(a \<mapsto> \<lparr>counter = 1, str = Some s\<rparr>)\<rparr>))"

definition seq_new :: "store \<Rightarrow> seq \<times> store" where
  "seq_new st =
     (case malloc st of
        (None, st') \<Rightarrow> (NoNode, st'\<lparr>errno := ENOMEM\<rparr>)
      | (Some a, st') \<Rightarrow>
          (Node a (-1) NoNode NoNode NoNode None, st'\<lparr>nodes := insert a (nodes st')\<rparr>))"

definition free_node :: "addr \<Rightarrow> store \<Rightarrow> store option" where
  "free_node a st = (if a \<in> nodes st then Some (st\<lparr>nodes := nodes st - {a}\<rparr>) else None)"

definition free_class :: "addr \<Rightarrow> store \<Rightarrow> store option" where
  "free_class a st =
     (if classes st a = None then None else Some (st\<lparr>classes := (classes st)(a := None)\<rparr>))"

definition free_str :: "addr option \<Rightarrow> store \<Rightarrow> store option" where
  "free_str p st =
     (case p of
        None \<Rightarrow> Some st
      | Some a \<Rightarrow>
          (if strs st a = None then None else Some (st\<lparr>strs := (strs st)(a := None)\<rparr>)))"

text \<open>What \<open>seq_delete_all\<close> and \<open>seq_class_remove\<close> do with the class of a node.\<close>

definition class_release :: "addr option \<Rightarrow> store \<Rightarrow> store option" where
  "class_release p st =
     (case p of
        None \<Rightarrow> Some st
      | Some c \<Rightarrow>
          do {
            k \<leftarrow> classes st c;
            if counter k = 1 then do { st1 \<leftarrow> free_str (str k) st; free_class c st1 }
            else if counter k > 1
              then Some (st\<lparr>classes := (classes st)(c \<mapsto> k\<lparr>counter := counter k - 1\<rparr>)\<rparr>)
            else Some st
          })"

fun seq_delete_all :: "seq \<Rightarrow> store \<Rightarrow> store option" where
  "seq_delete_all NoNode st = Some st"
| "seq_delete_all (Node a w l m r k) st =
     do {
       st1 \<leftarrow> seq_delete_all l st;
       st2 \<leftarrow> seq_delete_all m st1;
       st3 \<leftarrow> seq_delete_all r st2;
       st4 \<leftarrow> class_release k st3;
       free_node a st4
     }"

definition seq_delete :: "seq \<Rightarrow> store \<Rightarrow> store option" where
  "seq_delete p st = (if p \<noteq> NoNode then seq_delete_all p st else Some st)"

section \<open>Checking and walking\<close>

definition digit :: "char \<Rightarrow> bool" where
  "digit c \<longleftrightarrow> c = CHR ''0'' \<or> c = CHR ''1'' \<or> c = CHR ''2''"

fun seq_bad_loop :: "string \<Rightarrow> string" where
  "seq_bad_loop [] = []"
| "seq_bad_loop (c # s) =
     (if c = CHR ''0'' \<or> c = CHR ''1'' \<or> c = CHR ''2'' then seq_bad_loop s else c # s)"

definition seq_bad :: "string option \<Rightarrow> int" where
  "seq_bad s =
     (case s of
        None \<Rightarrow> -1
      | Some u \<Rightarrow> if u = [] then -1 else if seq_bad_loop u \<noteq> [] then -1 else 1)"

text \<open>
  The loop of \<open>seq_walk\<close>: the string from index \<open>i\<close> on, the node \<open>p\<close> and its
  position \<open>h\<close>, and \<open>*l\<close>. The result is the final position, \<open>stop\<close> and \<open>*l\<close>.
\<close>

fun seq_walk_loop :: "nat \<Rightarrow> string \<Rightarrow> seq \<Rightarrow> string \<Rightarrow> nat \<Rightarrow> string \<times> bool \<times> nat" where
  "seq_walk_loop step [] p h l = (h, False, l)"
| "seq_walk_loop step (c # s) p h l =
     (if length (c # s) \<le> step then (h, False, l)
      else if c = CHR ''0'' then
        (if lchild p \<noteq> NoNode then seq_walk_loop step s (lchild p) (h @ [c]) (l + 1)
         else (h, True, l + 1))
      else if c = CHR ''1'' then
        (if mchild p \<noteq> NoNode then seq_walk_loop step s (mchild p) (h @ [c]) (l + 1)
         else (h, True, l + 1))
      else if c = CHR ''2'' then
        (if rchild p \<noteq> NoNode then seq_walk_loop step s (rchild p) (h @ [c]) (l + 1)
         else (h, True, l + 1))
      else seq_walk_loop step s p h (l + 1))"

text \<open>
  \<open>seq_walk\<close>: \<open>with_l\<close> says whether the caller passes a counter (which every caller
  starts at 0). The result is the position of the node (\<open>None\<close> for \<open>NULL\<close>) and the
  counter.
\<close>

definition seq_walk :: "seq \<Rightarrow> string \<Rightarrow> nat \<Rightarrow> bool \<Rightarrow> string option \<times> nat" where
  "seq_walk p s step with_l =
     (let (h, stop, l) = seq_walk_loop step s p [] 0 in
      if \<not> stop \<and> step = 0 \<and> with_l then (None, l)
      else if step = 1 \<and> stop then (None, l)
      else if stop \<and> \<not> with_l then (None, l)
      else (Some h, l))"

section \<open>Adding and removing words\<close>

definition digit_val :: "char \<Rightarrow> int" where
  "digit_val c = (if c = CHR ''0'' then 0 else if c = CHR ''1'' then 1 else 2)"

text \<open>
  \<open>seq_add_new (p, s)\<close> for the node at position \<open>h\<close> of the tree \<open>t\<close> and the
  character \<open>c = *s\<close>; the first component is the return value.
\<close>

definition seq_add_new :: "seq \<Rightarrow> string \<Rightarrow> char \<Rightarrow> store \<Rightarrow> int \<times> seq \<times> store" where
  "seq_add_new t h c st =
     (case malloc st of
        (None, st') \<Rightarrow> (-1, t, st')
      | (Some a, st') \<Rightarrow>
          (1, modify_at h (set_child c (Node a (digit_val c) NoNode NoNode NoNode None)) t,
           st'\<lparr>nodes := insert a (nodes st')\<rparr>))"

fun seq_add_delete :: "seq \<Rightarrow> store \<Rightarrow> store option" where
  "seq_add_delete NoNode st = Some st"
| "seq_add_delete (Node a w l m r k) st =
     do {
       st1 \<leftarrow> seq_add_delete l st;
       st2 \<leftarrow> seq_add_delete m st1;
       st3 \<leftarrow> seq_add_delete r st2;
       free_node a st3
     }"

text \<open>
  The loop of \<open>seq_add\<close> from the node at \<open>h\<close> over the rest of the string; it stops
  with \<open>False\<close> at the first failing allocation.
\<close>

fun seq_add_loop :: "seq \<Rightarrow> string \<Rightarrow> string \<Rightarrow> store \<Rightarrow> bool \<times> seq \<times> store" where
  "seq_add_loop t h [] st = (True, t, st)"
| "seq_add_loop t h (c # s) st =
     (case seq_add_new t h c st of
        (check, t1, st1) \<Rightarrow>
          if check = -1 then (False, t1, st1) else seq_add_loop t1 (h @ [c]) s st1)"

definition seq_add :: "seq \<Rightarrow> string option \<Rightarrow> store \<Rightarrow> (int \<times> seq \<times> store) option" where
  "seq_add p s st =
     (if p = NoNode \<or> seq_bad s = -1 then Some (-1, p, st\<lparr>errno := EINVAL\<rparr>)
      else
        (let u = the s; (h, l) = seq_walk p u 0 True in
         case h of
           None \<Rightarrow> Some (0, p, st)
         | Some h2 \<Rightarrow>
             (let j = l - 1 in
              case seq_add_loop p h2 (drop j u) st of
                (True, p', st') \<Rightarrow> Some (1, p', st')
              | (False, p', st') \<Rightarrow>
                  do {
                    st2 \<leftarrow> seq_add_delete (child (u ! j) (subtree_at h2 p'))
                             (st'\<lparr>errno := ENOMEM\<rparr>);
                    Some (-1, modify_at h2 (set_child (u ! j) NoNode) p', st2)
                  })))"

fun seq_class_remove :: "seq \<Rightarrow> store \<Rightarrow> store option" where
  "seq_class_remove NoNode st = Some st"
| "seq_class_remove (Node a w l m r k) st =
     do {
       st1 \<leftarrow> class_release k st;
       st2 \<leftarrow> seq_class_remove l st1;
       st3 \<leftarrow> seq_class_remove m st2;
       st4 \<leftarrow> seq_class_remove r st3;
       free_node a st4
     }"

definition seq_remove :: "seq \<Rightarrow> string option \<Rightarrow> store \<Rightarrow> (int \<times> seq \<times> store) option" where
  "seq_remove p s st =
     (if p = NoNode \<or> seq_bad s = -1 then Some (-1, p, st\<lparr>errno := EINVAL\<rparr>)
      else
        (let u = the s; (h1, l) = seq_walk p u 1 True in
         case h1 of
           None \<Rightarrow> Some (0, p, st)
         | Some h \<Rightarrow>
             (let c = u ! l; h2 = child c (subtree_at h p) in
              if h2 = NoNode then Some (0, p, st)
              else
                do {
                  st' \<leftarrow> seq_class_remove h2 st;
                  Some (1, modify_at h (set_child c NoNode) p, st')
                })))"

definition seq_valid :: "seq \<Rightarrow> string option \<Rightarrow> store \<Rightarrow> int \<times> store" where
  "seq_valid p s st =
     (if p = NoNode \<or> seq_bad s = -1 then (-1, st\<lparr>errno := EINVAL\<rparr>)
      else case fst (seq_walk p (the s) 0 False) of
             None \<Rightarrow> (0, st)
           | Some _ \<Rightarrow> (1, st))"

section \<open>Classes and names\<close>

definition class_str :: "addr \<Rightarrow> store \<Rightarrow> (addr \<times> string) option" where
  "class_str c st = do { k \<leftarrow> classes st c; a \<leftarrow> str k; x \<leftarrow> strs st a; Some (a, x) }"

definition seq_set_name ::
    "seq \<Rightarrow> string option \<Rightarrow> string option \<Rightarrow> store \<Rightarrow> (int \<times> seq \<times> store) option" where
  "seq_set_name p s n st =
     (if p = NoNode \<or> seq_bad s = -1 \<or> n = None \<or> n = Some []
      then Some (-1, p, st\<lparr>errno := EINVAL\<rparr>)
      else
        (case malloc st of
           (None, st0) \<Rightarrow> Some (-1, p, st0\<lparr>errno := ENOMEM\<rparr>)
         | (Some n_copy, st0) \<Rightarrow>
             (let st1 = st0\<lparr>strs := (strs st0)(n_copy \<mapsto> the n)\<rparr> in
              case fst (seq_walk p (the s) 0 False) of
                None \<Rightarrow> do { st2 \<leftarrow> free_str (Some n_copy) st1; Some (0, p, st2) }
              | Some h \<Rightarrow>
                  (case seq_class (subtree_at h p) of
                     None \<Rightarrow>
                       (case class_new n_copy st1 of
                          (None, st2) \<Rightarrow>
                            do {
                              st3 \<leftarrow> free_str (Some n_copy) (st2\<lparr>errno := ENOMEM\<rparr>);
                              Some (-1, p, st3)
                            }
                        | (Some c, st2) \<Rightarrow> Some (1, modify_at h (set_class (Some c)) p, st2))
                   | Some c \<Rightarrow>
                       do {
                         (b, old) \<leftarrow> class_str c st1;
                         if the n = old
                         then do { st2 \<leftarrow> free_str (Some n_copy) st1; Some (0, p, st2) }
                         else
                           do {
                             k \<leftarrow> classes st1 c;
                             st2 \<leftarrow> free_str (Some b)
                               (st1\<lparr>classes := (classes st1)(c \<mapsto> k\<lparr>str := Some n_copy\<rparr>)\<rparr>);
                             Some (1, p, st2)
                           }
                       }))))"

text \<open>The pointer \<open>seq_get_name\<close> returns; \<open>strs\<close> holds what it points to.\<close>

definition seq_get_name ::
    "seq \<Rightarrow> string option \<Rightarrow> store \<Rightarrow> (addr option \<times> store) option" where
  "seq_get_name p s st =
     (if p = NoNode \<or> seq_bad s = -1 then Some (None, st\<lparr>errno := EINVAL\<rparr>)
      else
        (case fst (seq_walk p (the s) 0 False) of
           None \<Rightarrow> Some (None, st\<lparr>errno := NoError\<rparr>)
         | Some h \<Rightarrow>
             (case seq_class (subtree_at h p) of
                None \<Rightarrow> Some (None, st\<lparr>errno := NoError\<rparr>)
              | Some c \<Rightarrow>
                  do {
                    (a, x) \<leftarrow> class_str c st;
                    if x \<noteq> [] then Some (Some a, st)
                    else Some (None, st\<lparr>errno := NoError\<rparr>)
                  })))"

fun class_change :: "seq \<Rightarrow> addr \<Rightarrow> addr \<Rightarrow> store \<Rightarrow> (seq \<times> store) option" where
  "class_change NoNode old new st = Some (NoNode, st)"
| "class_change (Node a w l m r k) old new st =
     do {
       (k', st1) \<leftarrow>
         (if k = Some old then
            do {
              ko \<leftarrow> classes st old;
              let cs = (classes st)(old \<mapsto> ko\<lparr>str := None\<rparr>);
              kn \<leftarrow> cs new;
              Some (Some new,
                    st\<lparr>classes := cs(new \<mapsto> kn\<lparr>counter := counter kn + 1\<rparr>)\<rparr>)
            }
          else Some (k, st));
       (l', st2) \<leftarrow> class_change l old new st1;
       (m', st3) \<leftarrow> class_change m old new st2;
       (r', st4) \<leftarrow> class_change r old new st3;
       Some (Node a w l' m' r' k', st4)
     }"

definition set_counter :: "addr \<Rightarrow> int \<Rightarrow> store \<Rightarrow> store option" where
  "set_counter c n st =
     do {
       k \<leftarrow> classes st c;
       Some (st\<lparr>classes := (classes st)(c \<mapsto> k\<lparr>counter := n\<rparr>)\<rparr>)
     }"

text \<open>\<open>h1->class = h2->class; (h1->class->counter)++\<close> for the node at \<open>h\<close>.\<close>

definition share_class :: "string \<Rightarrow> addr \<Rightarrow> seq \<Rightarrow> store \<Rightarrow> (int \<times> seq \<times> store) option" where
  "share_class h c p st =
     do {
       k \<leftarrow> classes st c;
       st' \<leftarrow> set_counter c (counter k + 1) st;
       Some (1, modify_at h (set_class (Some c)) p, st')
     }"

text \<open>Both nodes without a class: a new class with an empty name for the two.\<close>

definition equiv_fresh :: "string \<Rightarrow> string \<Rightarrow> seq \<Rightarrow> store \<Rightarrow> (int \<times> seq \<times> store) option" where
  "equiv_fresh h1 h2 p st =
     (case malloc st of
        (None, st1) \<Rightarrow> Some (-1, p, st1\<lparr>errno := ENOMEM\<rparr>)
      | (Some s, st1) \<Rightarrow>
          (case class_new s (st1\<lparr>strs := (strs st1)(s \<mapsto> [])\<rparr>) of
             (None, st2) \<Rightarrow>
               do {
                 st3 \<leftarrow> free_str (Some s) (st2\<lparr>errno := ENOMEM\<rparr>);
                 Some (-1, p, st3)
               }
           | (Some c, st2) \<Rightarrow>
               do {
                 st3 \<leftarrow> set_counter c 2 st2;
                 Some (1, modify_at h2 (set_class (Some c))
                            (modify_at h1 (set_class (Some c)) p), st3)
               }))"

text \<open>Two classes with equal names: a new class that keeps the first class's string.\<close>

definition equiv_same_name ::
    "addr \<Rightarrow> addr \<Rightarrow> addr \<Rightarrow> seq \<Rightarrow> store \<Rightarrow> (int \<times> seq \<times> store) option" where
  "equiv_same_name c1 c2 a1 p st =
     (case class_new a1 st of
        (None, st1) \<Rightarrow> Some (-1, p, st1\<lparr>errno := ENOMEM\<rparr>)
      | (Some c3, st1) \<Rightarrow>
          do {
            st2 \<leftarrow> set_counter c3 0 st1;
            (p1, st3) \<leftarrow> class_change p c1 c3 st2;
            (p2, st4) \<leftarrow> class_change p1 c2 c3 st3;
            st5 \<leftarrow> free_class c1 st4;
            st6 \<leftarrow> free_class c2 st5;
            Some (1, p2, st6)
          })"

text \<open>Two classes with different names: a new class with the concatenated name.\<close>

definition equiv_two_names ::
    "addr \<Rightarrow> addr \<Rightarrow> addr \<Rightarrow> addr \<Rightarrow> string \<Rightarrow> seq \<Rightarrow> store \<Rightarrow> (int \<times> seq \<times> store) option" where
  "equiv_two_names c1 c2 s1 s2 name p st =
     (case malloc st of
        (None, st1) \<Rightarrow> Some (-1, p, st1\<lparr>errno := ENOMEM\<rparr>)
      | (Some s, st1) \<Rightarrow>
          (case class_new s (st1\<lparr>strs := (strs st1)(s \<mapsto> name)\<rparr>) of
             (None, st2) \<Rightarrow>
               do {
                 st3 \<leftarrow> free_str (Some s) (st2\<lparr>errno := ENOMEM\<rparr>);
                 Some (-1, p, st3)
               }
           | (Some c, st2) \<Rightarrow>
               do {
                 st3 \<leftarrow> set_counter c 0 st2;
                 (p1, st4) \<leftarrow> class_change p c1 c st3;
                 (p2, st5) \<leftarrow> class_change p1 c2 c st4;
                 st6 \<leftarrow> free_str (Some s1) st5;
                 st7 \<leftarrow> free_str (Some s2) st6;
                 st8 \<leftarrow> free_class c1 st7;
                 st9 \<leftarrow> free_class c2 st8;
                 Some (1, p2, st9)
               }))"

definition seq_equiv ::
    "seq \<Rightarrow> string option \<Rightarrow> string option \<Rightarrow> store \<Rightarrow> (int \<times> seq \<times> store) option" where
  "seq_equiv p s1 s2 st =
     (if p = NoNode \<or> seq_bad s1 = -1 \<or> seq_bad s2 = -1
      then Some (-1, p, st\<lparr>errno := EINVAL\<rparr>)
      else if the s1 = the s2 then Some (0, p, st)
      else
        (case (fst (seq_walk p (the s1) 0 False), fst (seq_walk p (the s2) 0 False)) of
           (Some h1, Some h2) \<Rightarrow>
             (case (seq_class (subtree_at h1 p), seq_class (subtree_at h2 p)) of
                (None, Some c2) \<Rightarrow> share_class h1 c2 p st
              | (Some c1, None) \<Rightarrow> share_class h2 c1 p st
              | (None, None) \<Rightarrow> equiv_fresh h1 h2 p st
              | (Some c1, Some c2) \<Rightarrow>
                  (if c1 = c2 then Some (0, p, st)
                   else
                     do {
                       (a1, x1) \<leftarrow> class_str c1 st;
                       (a2, x2) \<leftarrow> class_str c2 st;
                       if x1 = x2 then equiv_same_name c1 c2 a1 p st
                       else equiv_two_names c1 c2 a1 a2 (x1 @ x2) p st
                     }))
         | _ \<Rightarrow> Some (0, p, st)))"

lemmas seq_defs [c_defs] =
  class_new_def seq_new_def free_node_def free_class_def free_str_def class_release_def
  seq_delete_def seq_bad_def seq_walk_def digit_val_def seq_add_new_def seq_add_def
  seq_remove_def seq_valid_def class_str_def seq_set_name_def seq_get_name_def
  set_counter_def share_class_def equiv_fresh_def equiv_same_name_def
  equiv_two_names_def seq_equiv_def malloc_def

end
