(* ===== verification/Seq_Tree.thy ===== *)
theory Seq_Tree
  imports Seq_Trie
begin

text \<open>
  The tree of \<open>seq.c\<close> by itself: which words are present, what a write through a node
  pointer does to the words, the classes and the addresses of the tree, and where
  \<open>seq_walk\<close> ends.
\<close>

section \<open>Words, addresses and class references of a tree\<close>

definition live :: "string \<Rightarrow> seq \<Rightarrow> bool" where
  "live w t \<longleftrightarrow> subtree_at w t \<noteq> NoNode"

definition class_at :: "string \<Rightarrow> seq \<Rightarrow> addr option" where
  "class_at w t = seq_class (subtree_at w t)"

fun addrs :: "seq \<Rightarrow> addr multiset" where
  "addrs NoNode = {#}"
| "addrs (Node a w l m r k) = {#a#} + addrs l + addrs m + addrs r"

fun occ :: "addr \<Rightarrow> seq \<Rightarrow> nat" where
  "occ c NoNode = 0"
| "occ c (Node a w l m r k) = (if k = Some c then 1 else 0) + occ c l + occ c m + occ c r"

lemma digit_cases [consumes 1, case_names zero one two]:
  assumes "digit c"
  obtains "c = CHR ''0''" | "c = CHR ''1''" | "c = CHR ''2''"
  using assms by (auto simp: digit_def)

lemma child_NoNode [simp]: "child c NoNode = NoNode"
  by simp

lemma subtree_at_NoNode [simp]: "subtree_at w NoNode = NoNode"
  by (induction w) (simp_all del: child.simps)

lemma child_not_digit [simp]: "\<not> digit c \<Longrightarrow> child c p = NoNode"
  by (auto simp: digit_def)

lemma child_set_child [simp]:
  "t \<noteq> NoNode \<Longrightarrow> digit c \<Longrightarrow> child d (set_child c q t) = (if d = c then q else child d t)"
  by (cases t) (auto elim!: digit_cases)

lemma set_child_NoNode_iff [simp]: "set_child c q t = NoNode \<longleftrightarrow> t = NoNode"
  by (cases t) auto

lemma set_child_set_child [simp]: "set_child c q (set_child c q' t) = set_child c q t"
  by (cases t) auto

lemma set_child_same: "digit c \<Longrightarrow> child c t = q \<Longrightarrow> set_child c q t = t"
  by (cases t) (auto elim!: digit_cases)

lemma seq_class_set_child [simp]: "seq_class (set_child c q t) = seq_class t"
  by (cases t) auto

lemma child_set_class [simp]: "child d (set_class k t) = child d t"
  by (cases t) auto

lemma set_class_NoNode_iff [simp]: "set_class k t = NoNode \<longleftrightarrow> t = NoNode"
  by (cases t) auto

lemma seq_class_set_class [simp]: "t \<noteq> NoNode \<Longrightarrow> seq_class (set_class k t) = k"
  by (cases t) auto

declare child.simps [simp del]

lemma live_Nil [simp]: "live [] t \<longleftrightarrow> t \<noteq> NoNode"
  by (simp add: live_def)

lemma live_NoNode [simp]: "\<not> live w NoNode"
  by (simp add: live_def)

lemma live_Cons [simp]: "live (c # w) t \<longleftrightarrow> live w (child c t)"
  by (simp add: live_def)

lemma class_at_Nil [simp]: "class_at [] t = seq_class t"
  by (simp add: class_at_def)

lemma class_at_Cons [simp]: "class_at (c # w) t = class_at w (child c t)"
  by (simp add: class_at_def)

lemma subtree_at_append: "subtree_at (u @ v) t = subtree_at v (subtree_at u t)"
  by (induction u arbitrary: t) auto

lemma live_append: "live (u @ v) t \<longleftrightarrow> live v (subtree_at u t)"
  by (simp add: live_def subtree_at_append)

lemma live_prefix: "live (u @ v) t \<Longrightarrow> live u t"
  by (auto simp: live_def subtree_at_append)

lemma live_Cons_digit: "live (c # w) t \<Longrightarrow> digit c"
  by (rule ccontr) simp

lemma live_childD: "live w (child c t) \<Longrightarrow> digit c \<and> t \<noteq> NoNode"
  by (metis child_NoNode child_not_digit live_NoNode)

lemma live_digits: "live w t \<Longrightarrow> \<forall>c\<in>set w. digit c"
  by (induction w arbitrary: t) (auto dest: live_childD)

lemma live_not_NoNode: "live w t \<Longrightarrow> t \<noteq> NoNode"
  by auto

lemma live_induct [consumes 1, case_names Nil Cons]:
  assumes "live h t"
    and "\<And>t. t \<noteq> NoNode \<Longrightarrow> P [] t"
    and "\<And>d h t. digit d \<Longrightarrow> t \<noteq> NoNode \<Longrightarrow> live h (child d t) \<Longrightarrow> P h (child d t) \<Longrightarrow> P (d # h) t"
  shows "P h t"
  using assms(1)
proof (induction h arbitrary: t)
  case Nil
  then show ?case using assms(2) by simp
next
  case (Cons d h)
  then have "live h (child d t)" by simp
  with Cons.IH live_childD show ?case by (blast intro: assms(3))
qed

lemma class_at_live: "class_at w t = Some c \<Longrightarrow> live w t"
  by (cases "subtree_at w t") (auto simp: class_at_def live_def)

section \<open>Writes through a node pointer\<close>

lemma subtree_at_modify_at [simp]:
  "live h t \<Longrightarrow> subtree_at h (modify_at h f t) = f (subtree_at h t)"
  by (induction rule: live_induct) simp_all

lemma modify_at_append: "live h t \<Longrightarrow> modify_at (h @ g) f t = modify_at h (modify_at g f) t"
  by (induction h arbitrary: t) auto

lemma modify_at_modify_at: "live h t \<Longrightarrow>
    modify_at h f (modify_at h g t) = modify_at h (\<lambda>p. f (g p)) t"
  by (induction rule: live_induct) simp_all

lemma modify_at_id: "live h t \<Longrightarrow> f (subtree_at h t) = subtree_at h t \<Longrightarrow> modify_at h f t = t"
  by (induction rule: live_induct) (simp_all add: set_child_same)

lemma modify_at_not_NoNode: "live h t \<Longrightarrow> f (subtree_at h t) \<noteq> NoNode \<Longrightarrow> modify_at h f t \<noteq> NoNode"
  by (cases h) auto

text \<open>A write at \<open>h\<close> that keeps a node there changes only what lies at or below \<open>h\<close>.\<close>

lemma live_modify_at:
  assumes "live h t" and "f (subtree_at h t) \<noteq> NoNode"
  shows "live w (modify_at h f t) \<longleftrightarrow>
    (if \<exists>v. w = h @ v then live (drop (length h) w) (f (subtree_at h t)) else live w t)"
  using assms
proof (induction arbitrary: w rule: live_induct)
  case Nil
  then show ?case by simp
next
  case (Cons d h t)
  then show ?case by (cases w) auto
qed

lemma class_at_modify_at:
  assumes "live h t" and "f (subtree_at h t) \<noteq> NoNode"
  shows "class_at w (modify_at h f t) =
    (if \<exists>v. w = h @ v then class_at (drop (length h) w) (f (subtree_at h t)) else class_at w t)"
  using assms
proof (induction arbitrary: w rule: live_induct)
  case Nil
  then show ?case by simp
next
  case (Cons d h t)
  then show ?case by (cases w) auto
qed

section \<open>Sums over a tree\<close>

text \<open>
  The number of references to a class and the multiset of node addresses are both sums
  over the nodes; a write changes such a sum by what it changes below the pointer.
\<close>

locale tree_sum =
  fixes sum_of :: "seq \<Rightarrow> 'a::cancel_comm_monoid_add"
    and item :: "addr \<Rightarrow> addr option \<Rightarrow> 'a"
  assumes sum_NoNode: "sum_of NoNode = 0"
    and sum_Node: "sum_of (Node a w l m r k) = item a k + sum_of l + sum_of m + sum_of r"
begin

lemma set_child_sum:
  assumes "t \<noteq> NoNode" and "digit c"
  shows "sum_of (set_child c q t) + sum_of (child c t) = sum_of t + sum_of q"
  using assms(2,1)
  by (cases c rule: digit_cases; cases t) (simp_all add: sum_Node child.simps ac_simps)

lemma modify_at_sum:
  assumes "live h t"
  shows "sum_of (modify_at h f t) + sum_of (subtree_at h t) = sum_of t + sum_of (f (subtree_at h t))"
  using assms
proof (induction h arbitrary: t)
  case Nil
  then show ?case by (simp add: ac_simps)
next
  case (Cons d h)
  then have d: "digit d" "t \<noteq> NoNode" and h: "live h (child d t)"
    by (auto dest: live_childD)
  let ?q = "modify_at h f (child d t)" and ?s = "sum_of (subtree_at h (child d t))"
  have "sum_of (set_child d ?q t) + ?s + sum_of (child d t)
      = sum_of (set_child d ?q t) + sum_of (child d t) + ?s" by (simp add: ac_simps)
  also have "\<dots> = sum_of t + (sum_of ?q + ?s)"
    using set_child_sum [OF d(2,1)] by (simp add: ac_simps)
  also have "\<dots> = sum_of t + sum_of (f (subtree_at h (child d t))) + sum_of (child d t)"
    using Cons.IH [OF h] by (simp add: ac_simps)
  finally show ?case by simp
qed

lemma modify_child_sum:
  assumes "live h t" and "digit c"
  shows "sum_of (modify_at h (set_child c q) t) + sum_of (child c (subtree_at h t))
    = sum_of t + sum_of q"
proof -
  let ?p = "subtree_at h t"
  have "?p \<noteq> NoNode" using assms(1) by (simp add: live_def)
  note p = set_child_sum [OF this assms(2), of q]
  have "sum_of (modify_at h (set_child c q) t) + sum_of (child c ?p) + sum_of ?p
      = sum_of t + sum_of q + sum_of ?p"
    using modify_at_sum [OF assms(1), of "set_child c q"] p by (metis add.assoc add.commute)
  then show ?thesis by simp
qed

lemma subtree_sum: "live h t \<Longrightarrow> \<exists>x. sum_of t = sum_of (subtree_at h t) + x"
  using modify_at_sum [of h t "\<lambda>_. NoNode"] by (metis add.commute add.left_neutral sum_NoNode)

end

interpretation occs: tree_sum "occ c" "\<lambda>a k. if k = Some c then 1 else 0" for c
  by unfold_locales simp_all

interpretation addrs: tree_sum addrs "\<lambda>a k. {#a#}"
  by unfold_locales simp_all

section \<open>Where \<open>seq_walk\<close> ends\<close>

lemma walk_step:
  assumes "digit c" and "\<not> length (c # s) \<le> step"
  shows "seq_walk_loop step (c # s) p h l =
    (if child c p \<noteq> NoNode then seq_walk_loop step s (child c p) (h @ [c]) (l + 1)
     else (h, True, l + 1))"
  using assms by (cases c rule: digit_cases) (simp_all add: child.simps)

lemma walk_last: "length (c # s) \<le> step \<Longrightarrow> seq_walk_loop step (c # s) p h l = (h, False, l)"
  by simp

declare seq_walk_loop.simps(2) [simp del]

lemma walk_found:
  assumes "live s p"
  shows "seq_walk_loop 0 s p h l = (h @ s, False, l + length s)"
  using assms by (induction arbitrary: h l rule: live_induct) (auto simp: walk_step)

lemma walk_stops:
  assumes "\<forall>c\<in>set s. digit c" and "p \<noteq> NoNode" and "\<not> live s p"
  shows "\<exists>k<length s. live (take k s) p \<and> \<not> live (take (Suc k) s) p \<and>
    seq_walk_loop 0 s p h l = (h @ take k s, True, l + k + 1)"
  using assms
proof (induction s arbitrary: p h l)
  case Nil
  then show ?case by simp
next
  case (Cons c s)
  show ?case
  proof (cases "child c p = NoNode")
    case True
    with Cons.prems show ?thesis by (intro exI [of _ 0]) (simp add: walk_step)
  next
    case False
    with Cons.prems Cons.IH [of "child c p" "h @ [c]" "l + 1"] obtain k where
      "k < length s" "live (take k s) (child c p)" "\<not> live (take (Suc k) s) (child c p)"
      "seq_walk_loop 0 s (child c p) (h @ [c]) (l + 1) = (h @ c # take k s, True, l + 1 + k + 1)"
      by auto
    with False Cons.prems show ?thesis
      by (intro exI [of _ "Suc k"]) (simp add: walk_step)
  qed
qed

lemma walk_butlast:
  assumes "\<forall>c\<in>set u. digit c"
  shows "seq_walk_loop (Suc 0) (u @ [c]) p h l = seq_walk_loop 0 u p h l"
  using assms by (induction u arbitrary: p h l) (simp_all add: walk_step walk_last)

lemma seq_bad_loop_digits: "seq_bad_loop s = [] \<longleftrightarrow> (\<forall>c\<in>set s. digit c)"
  by (induction s) (auto simp: digit_def)

text \<open>\<open>seq_bad\<close> accepts exactly the nonempty words over the three digits.\<close>

definition word :: "string option \<Rightarrow> bool" where
  "word s \<longleftrightarrow> (\<exists>u. s = Some u \<and> u \<noteq> [] \<and> (\<forall>c\<in>set u. digit c))"

lemma seq_bad_word: "seq_bad s = -1 \<longleftrightarrow> \<not> word s"
  by (auto simp: seq_bad_def word_def seq_bad_loop_digits split: option.splits)

lemma word_Some [simp]: "word (Some u) \<longleftrightarrow> u \<noteq> [] \<and> (\<forall>c\<in>set u. digit c)"
  by (simp add: word_def)

lemma seq_walk_plain:
  assumes "\<forall>c\<in>set s. digit c" and "p \<noteq> NoNode"
  shows "fst (seq_walk p s 0 False) = (if live s p then Some s else None)"
  using walk_found [of s p "[]" 0] walk_stops [OF assms, of "[]" 0]
  by (auto simp: seq_walk_def)

lemma seq_walk_add_found:
  assumes "live s p"
  shows "seq_walk p s 0 True = (None, length s)"
  using walk_found [OF assms, of "[]" 0] by (simp add: seq_walk_def)

lemma seq_walk_add_missing:
  assumes "\<forall>c\<in>set s. digit c" and "p \<noteq> NoNode" and "\<not> live s p"
  obtains k where "k < length s" and "live (take k s) p" and "\<not> live (take (Suc k) s) p"
    and "seq_walk p s 0 True = (Some (take k s), Suc k)"
proof -
  from walk_stops [OF assms, of "[]" 0] obtain k where
    "k < length s" "live (take k s) p" "\<not> live (take (Suc k) s) p"
    "seq_walk_loop 0 s p [] 0 = (take k s, True, k + 1)" by auto
  then show thesis by (intro that [of k]) (simp_all add: seq_walk_def)
qed

lemma seq_walk_remove:
  assumes "\<forall>c\<in>set u. digit c" and "p \<noteq> NoNode"
  shows "fst (seq_walk p (u @ [c]) 1 True) = (if live u p then Some u else None)"
    and "live u p \<Longrightarrow> snd (seq_walk p (u @ [c]) 1 True) = length u"
  using walk_found [of u p "[]" 0] walk_stops [OF assms, of "[]" 0] walk_butlast [OF assms(1)]
  by (auto simp: seq_walk_def)

end
