(* ===== verification/Seq_Store.thy ===== *)
theory Seq_Store
  imports Seq_Tree
begin

text \<open>
  The store of \<open>seq.c\<close>: the invariant that ties the counters of the classes to the
  nodes that refer to them, and what releasing a subtree, building a chain of new nodes and
  moving all nodes of a class to another class do to it.
\<close>

section \<open>Reference counts\<close>

text \<open>
  \<open>cls_ok f st\<close>: every class \<open>c\<close> that is allocated is referred to \<open>f c > 0\<close> times, its
  counter says so, and it owns an allocated string that no other class points to.
\<close>

definition cls_ok :: "(addr \<Rightarrow> nat) \<Rightarrow> store \<Rightarrow> bool" where
  "cls_ok f st \<longleftrightarrow>
     (\<forall>c. classes st c = None \<longleftrightarrow> f c = 0) \<and>
     (\<forall>c k. classes st c = Some k \<longrightarrow>
        counter k = int (f c) \<and> (\<exists>a. str k = Some a \<and> strs st a \<noteq> None)) \<and>
     (\<forall>c c' k k'. classes st c = Some k \<and> classes st c' = Some k' \<and> str k = str k' \<longrightarrow> c = c')"

definition owned :: "store \<Rightarrow> addr set" where
  "owned st = {a. \<exists>c k. classes st c = Some k \<and> str k = Some a}"

definition leaked_strs :: "store \<Rightarrow> addr set" where
  "leaked_strs st = dom (strs st) - owned st"

definition store_fresh :: "store \<Rightarrow> bool" where
  "store_fresh st \<longleftrightarrow>
     (\<forall>a. a \<in> nodes st \<or> classes st a \<noteq> None \<or> strs st a \<noteq> None \<longrightarrow> a < next_addr st)"

lemma cls_okD:
  assumes "cls_ok f st"
  shows "classes st c = None \<longleftrightarrow> f c = 0"
    and "classes st c = Some k \<Longrightarrow> counter k = int (f c)"
    and "classes st c = Some k \<Longrightarrow> \<exists>a x. str k = Some a \<and> strs st a = Some x"
    and "classes st c = Some k \<Longrightarrow> classes st c' = Some k' \<Longrightarrow> str k = str k' \<Longrightarrow> c = c'"
  using assms unfolding cls_ok_def by (blast, blast, force, blast)

lemma cls_okI:
  assumes "\<And>c. classes st c = None \<longleftrightarrow> f c = 0"
    and "\<And>c k. classes st c = Some k \<Longrightarrow> counter k = int (f c)"
    and "\<And>c k. classes st c = Some k \<Longrightarrow> \<exists>a x. str k = Some a \<and> strs st a = Some x"
    and "\<And>c k c' k'. classes st c = Some k \<Longrightarrow> classes st c' = Some k' \<Longrightarrow> str k = str k' \<Longrightarrow> c = c'"
  shows "cls_ok f st"
  unfolding cls_ok_def using assms by blast

lemma cls_ok_class:
  assumes "cls_ok f st" and "f c > 0"
  obtains k a x where "classes st c = Some k" and "counter k = int (f c)"
    and "str k = Some a" and "strs st a = Some x" and "class_str c st = Some (a, x)"
proof -
  from cls_okD(1) [OF assms(1), of c] assms(2) obtain k where k: "classes st c = Some k"
    by (cases "classes st c") auto
  with cls_okD(2,3) [OF assms(1) k] that show thesis
    by (auto simp: class_str_def)
qed

section \<open>Releasing the nodes of a subtree\<close>

text \<open>What releasing references does: \<open>f\<close> are the references that remain.\<close>

definition released :: "(addr \<Rightarrow> nat) \<Rightarrow> store \<Rightarrow> store \<Rightarrow> bool" where
  "released f st st' \<longleftrightarrow>
     cls_ok f st' \<and> leaked_strs st' = leaked_strs st \<and>
     next_addr st' = next_addr st \<and> mallocs st' = mallocs st \<and> errno st' = errno st \<and>
     dom (classes st') \<subseteq> dom (classes st) \<and> dom (strs st') \<subseteq> dom (strs st) \<and>
     (\<forall>c. f c > 0 \<longrightarrow> class_str c st' = class_str c st)"

lemma released_trans: "released f st st1 \<Longrightarrow> released g st1 st2 \<Longrightarrow> (\<And>c. g c \<le> f c) \<Longrightarrow> released g st st2"
  unfolding released_def by (metis (no_types, lifting) dual_order.strict_trans1 subset_trans)

lemma released_nodes [simp]:
  "released f st (st'\<lparr>nodes := ns\<rparr>) \<longleftrightarrow> released f st st'"
  "released f (st\<lparr>nodes := ns\<rparr>) st' \<longleftrightarrow> released f st st'"
  by (simp_all add: released_def cls_ok_def leaked_strs_def owned_def class_str_def)

text \<open>Setting a counter, and dropping the last reference.\<close>

lemma upd_class_Some:
  "((classes st)(c \<mapsto> k)) d = Some kd \<longleftrightarrow> (if d = c then kd = k else classes st d = Some kd)"
  by auto

lemma cls_ok_counter:
  assumes ok: "cls_ok f st" and k: "classes st c = Some k" and n: "n > 0"
  shows "cls_ok (f(c := n)) (st\<lparr>classes := (classes st)(c \<mapsto> k\<lparr>counter := int n\<rparr>)\<rparr>)"
proof (rule cls_okI)
  note D = cls_okD [OF ok]
  fix d
  show "classes (st\<lparr>classes := (classes st)(c \<mapsto> k\<lparr>counter := int n\<rparr>)\<rparr>) d = None \<longleftrightarrow> (f(c := n)) d = 0"
    using D(1) [of d] n by simp
  fix kd
  assume kd: "classes (st\<lparr>classes := (classes st)(c \<mapsto> k\<lparr>counter := int n\<rparr>)\<rparr>) d = Some kd"
  show "counter kd = int ((f(c := n)) d)"
    using kd D(2) [of d kd] by (cases "d = c") auto
  show "\<exists>a x. str kd = Some a \<and> strs (st\<lparr>classes := (classes st)(c \<mapsto> k\<lparr>counter := int n\<rparr>)\<rparr>) a = Some x"
    using kd D(3) [of d kd] D(3) [OF k] by (cases "d = c") auto
  fix e ke
  assume ke: "classes (st\<lparr>classes := (classes st)(c \<mapsto> k\<lparr>counter := int n\<rparr>)\<rparr>) e = Some ke"
    and eq: "str kd = str ke"
  have "\<exists>k0. classes st x = Some k0 \<and> str k0 = str k1"
    if "classes (st\<lparr>classes := (classes st)(c \<mapsto> k\<lparr>counter := int n\<rparr>)\<rparr>) x = Some k1" for x k1
    using that k by (cases "x = c") auto
  from this [OF kd] this [OF ke] eq D(4) show "d = e" by metis
qed

lemma owned_counter: "classes st c = Some k \<Longrightarrow>
    owned (st\<lparr>classes := (classes st)(c \<mapsto> k\<lparr>counter := n\<rparr>)\<rparr>) = owned st"
proof -
  assume k: "classes st c = Some k"
  let ?st' = "st\<lparr>classes := (classes st)(c \<mapsto> k\<lparr>counter := n\<rparr>)\<rparr>"
  have "(\<exists>d kd. classes ?st' d = Some kd \<and> str kd = Some a) \<longleftrightarrow>
      (\<exists>d kd. classes st d = Some kd \<and> str kd = Some a)" (is "?L \<longleftrightarrow> ?R") for a
  proof
    assume ?L
    then obtain d kd where "classes ?st' d = Some kd" "str kd = Some a" by blast
    with k show ?R by (intro exI [of _ d]) (cases "d = c"; auto)
  next
    assume ?R
    then obtain d kd where "classes st d = Some kd" "str kd = Some a" by blast
    with k show ?L by (intro exI [of _ d]) (cases "d = c"; simp)
  qed
  then show "owned ?st' = owned st" by (simp add: owned_def)
qed

lemma class_str_counter: "classes st c = Some k \<Longrightarrow>
    class_str d (st\<lparr>classes := (classes st)(c \<mapsto> k\<lparr>counter := n\<rparr>)\<rparr>) = class_str d st"
  by (cases "d = c") (simp_all add: class_str_def)

lemma cls_ok_drop:
  assumes ok: "cls_ok f st" and k: "classes st c = Some k" and a: "str k = Some a"
  defines "st' \<equiv> st\<lparr>strs := (strs st)(a := None), classes := (classes st)(c := None)\<rparr>"
  shows "cls_ok (f(c := 0)) st'" and "leaked_strs st' = leaked_strs st"
    and "d \<noteq> c \<Longrightarrow> class_str d st' = class_str d st"
proof -
  note D = cls_okD [OF ok]
  have other: "str kd \<noteq> Some a" if "classes st d = Some kd" "d \<noteq> c" for d kd
    using D(4) [OF k that(1)] that(2) a by auto
  show "cls_ok (f(c := 0)) st'"
  proof (rule cls_okI)
    fix d show "classes st' d = None \<longleftrightarrow> (f(c := 0)) d = 0"
      using D(1) [of d] by (simp add: st'_def)
    fix kd assume "classes st' d = Some kd"
    then have kd: "classes st d = Some kd" "d \<noteq> c" by (auto simp: st'_def split: if_splits)
    then show "counter kd = int ((f(c := 0)) d)" using D(2) by simp
    from D(3) [OF kd(1)] other [OF kd] show "\<exists>b x. str kd = Some b \<and> strs st' b = Some x"
      by (force simp: st'_def)
    fix e ke assume "classes st' e = Some ke" "str kd = str ke"
    then show "d = e" using kd D(4) [of d kd e ke] by (auto simp: st'_def split: if_splits)
  qed
  have "owned st' = owned st - {a}"
  proof (intro set_eqI iffI)
    fix b assume "b \<in> owned st'"
    then obtain d kd where "classes st d = Some kd" "d \<noteq> c" "str kd = Some b"
      by (auto simp: owned_def st'_def split: if_splits)
    with other show "b \<in> owned st - {a}" by (auto simp: owned_def)
  next
    fix b assume "b \<in> owned st - {a}"
    then obtain d kd where "classes st d = Some kd" "str kd = Some b" "b \<noteq> a"
      by (auto simp: owned_def)
    moreover from this k a have "d \<noteq> c" by auto
    ultimately show "b \<in> owned st'" by (auto simp: owned_def st'_def)
  qed
  moreover have "a \<in> owned st" using k a by (auto simp: owned_def)
  ultimately show "leaked_strs st' = leaked_strs st"
    by (auto simp: leaked_strs_def st'_def split: if_splits)
  assume "d \<noteq> c"
  show "class_str d st' = class_str d st"
  proof (cases "classes st d")
    case (Some kd)
    with other [OF Some \<open>d \<noteq> c\<close>] D(3) [OF Some] \<open>d \<noteq> c\<close> show ?thesis
      by (auto simp: class_str_def st'_def)
  qed (simp add: class_str_def st'_def)
qed

lemma class_release_ok:
  assumes ok: "cls_ok (\<lambda>x. f x + (if k = Some x then 1 else 0)) st"
  shows "\<exists>st'. class_release k st = Some st' \<and> released f st st' \<and> nodes st' = nodes st"
proof (cases k)
  case None
  with ok show ?thesis by (simp add: class_release_def released_def)
next
  case (Some c)
  let ?g = "\<lambda>x. f x + (if k = Some x then 1 else 0)"
  from Some have "?g c > 0" by simp
  then obtain kc a x where kc: "classes st c = Some kc" "counter kc = int (?g c)"
      "str kc = Some a" "strs st a = Some x"
    using cls_ok_class [OF ok] by metis
  have f: "f = ?g(c := f c)" using Some by auto
  show ?thesis
  proof (cases "f c = 0")
    case True
    let ?st' = "st\<lparr>strs := (strs st)(a := None), classes := (classes st)(c := None)\<rparr>"
    have run: "class_release k st = Some ?st'"
      using Some kc True by (simp add: class_release_def free_str_def free_class_def)
    note drop = cls_ok_drop [OF ok kc(1,3)]
    have "cls_ok f ?st'" using drop(1) f True by simp
    moreover have "class_str d ?st' = class_str d st" if "f d > 0" for d
    proof (rule drop(3))
      show "d \<noteq> c" using True that by auto
    qed
    ultimately have "released f st ?st'"
      unfolding released_def using drop(2) by auto
    with run show ?thesis by auto
  next
    case False
    let ?st' = "st\<lparr>classes := (classes st)(c \<mapsto> kc\<lparr>counter := int (f c)\<rparr>)\<rparr>"
    have run: "class_release k st = Some ?st'"
      using Some kc False by (simp add: class_release_def)
    have "?g(c := f c) = f" using f by (rule sym)
    then have "cls_ok f ?st'" using cls_ok_counter [OF ok kc(1), of "f c"] False by simp
    then have "released f st ?st'"
      unfolding released_def
      using owned_counter [OF kc(1)] class_str_counter [OF kc(1)] kc(1)
      by (auto simp: leaked_strs_def)
    with run show ?thesis by auto
  qed
qed

lemma free_node_ok: "a \<in> nodes st \<Longrightarrow> free_node a st = Some (st\<lparr>nodes := nodes st - {a}\<rparr>)"
  by (simp add: free_node_def)

text \<open>
  Both deallocations of a whole tree release one reference per node and free every node;
  \<open>f\<close> counts the references from elsewhere.
\<close>

definition distinct_addrs :: "seq \<Rightarrow> bool" where
  "distinct_addrs t \<longleftrightarrow> (\<forall>a. count (addrs t) a \<le> 1)"

lemma distinct_addrs_Node:
  assumes "distinct_addrs (Node a w l m r k)"
  shows "distinct_addrs l" "distinct_addrs m" "distinct_addrs r"
    and "a \<notin># addrs l" "a \<notin># addrs m" "a \<notin># addrs r"
    and "set_mset (addrs l) \<inter> set_mset (addrs m) = {}"
    and "set_mset (addrs l) \<inter> set_mset (addrs r) = {}"
    and "set_mset (addrs m) \<inter> set_mset (addrs r) = {}"
proof -
  have D: "count {#a#} b + count (addrs l) b + count (addrs m) b + count (addrs r) b \<le> 1" for b
    using assms unfolding distinct_addrs_def addrs.simps by (metis count_union)
  show "distinct_addrs l" "distinct_addrs m" "distinct_addrs r"
    unfolding distinct_addrs_def using D by (meson add_leD1 add_leD2)+
  show "a \<notin># addrs l" "a \<notin># addrs m" "a \<notin># addrs r"
    using D [of a] by (simp_all add: count_eq_zero_iff)
  have both: "b \<in># addrs x \<Longrightarrow> b \<in># addrs y \<Longrightarrow> \<not> count (addrs x) b + count (addrs y) b \<le> 1" for b x y
    by (simp add: count_greater_zero_iff [symmetric] del: count_greater_zero_iff)
  have "count (addrs l) b + count (addrs m) b \<le> 1" "count (addrs l) b + count (addrs r) b \<le> 1"
    "count (addrs m) b + count (addrs r) b \<le> 1" for b
    using D [of b] by simp_all
  with both show "set_mset (addrs l) \<inter> set_mset (addrs m) = {}"
    and "set_mset (addrs l) \<inter> set_mset (addrs r) = {}"
    and "set_mset (addrs m) \<inter> set_mset (addrs r) = {}"
    by (meson disjoint_iff)+
qed

text \<open>
  \<open>frees g ns refs\<close>: the action \<open>g\<close> succeeds wherever the nodes \<open>ns\<close> are allocated,
  frees exactly them, and gives up \<open>refs c\<close> of the references to each class \<open>c\<close>. Such
  actions compose, which proves both recursive deallocations.
\<close>

definition frees :: "(store \<Rightarrow> store option) \<Rightarrow> addr set \<Rightarrow> (addr \<Rightarrow> nat) \<Rightarrow> bool" where
  "frees g ns refs \<longleftrightarrow>
     (\<forall>f st. cls_ok (\<lambda>c. f c + refs c) st \<and> ns \<subseteq> nodes st \<longrightarrow>
        (\<exists>st'. g st = Some st' \<and> released f st st' \<and> nodes st' = nodes st - ns))"

lemma freesD:
  assumes "frees g ns refs" and "cls_ok (\<lambda>c. f c + refs c) st" and "ns \<subseteq> nodes st"
  obtains st' where "g st = Some st'" "released f st st'" "nodes st' = nodes st - ns"
  using assms unfolding frees_def by blast

lemma frees_bind:
  assumes g: "frees g ns refs" and h: "frees h ms refs'" and disj: "ns \<inter> ms = {}"
  shows "frees (\<lambda>st. g st \<bind> h) (ns \<union> ms) (\<lambda>c. refs c + refs' c)"
  unfolding frees_def
proof (intro allI impI)
  fix f st
  assume "cls_ok (\<lambda>c. f c + (refs c + refs' c)) st \<and> ns \<union> ms \<subseteq> nodes st"
  then have ok: "cls_ok (\<lambda>c. (f c + refs' c) + refs c) st" and N: "ns \<subseteq> nodes st" "ms \<subseteq> nodes st"
    by (simp_all add: ac_simps)
  from freesD [OF g ok N(1)] obtain st1 where
    1: "g st = Some st1" "released (\<lambda>c. f c + refs' c) st st1" "nodes st1 = nodes st - ns" by blast
  moreover from 1 N disj have "cls_ok (\<lambda>c. f c + refs' c) st1" "ms \<subseteq> nodes st1"
    by (auto simp: released_def)
  from freesD [OF h this] obtain st2 where
    2: "h st1 = Some st2" "released f st1 st2" "nodes st2 = nodes st1 - ms" by blast
  moreover from 1(2) 2(2) have "released f st st2" by (rule released_trans) simp
  ultimately show "\<exists>st'. g st \<bind> h = Some st' \<and> released f st st' \<and> nodes st' = nodes st - (ns \<union> ms)"
    by auto
qed

lemma frees_Some: "frees Some {} (\<lambda>_. 0)"
  by (simp add: frees_def released_def)

lemma frees_class: "frees (class_release k) {} (\<lambda>c. if k = Some c then 1 else 0)"
  unfolding frees_def using class_release_ok by auto

lemma frees_node: "frees (free_node a) {a} (\<lambda>_. 0)"
  by (auto simp: frees_def released_def free_node_ok cls_ok_def leaked_strs_def owned_def class_str_def)

lemma frees_cong: "frees g ns refs \<Longrightarrow> g = g' \<Longrightarrow> ns = ns' \<Longrightarrow> refs = refs' \<Longrightarrow> frees g' ns' refs'"
  by simp

lemma frees_delete_all:
  "distinct_addrs t \<Longrightarrow> frees (seq_delete_all t) (set_mset (addrs t)) (\<lambda>c. occ c t)"
proof (induction t)
  case NoNode
  have "seq_delete_all NoNode = Some" by auto
  then show ?case using frees_Some by simp
next
  case (Node a w l m r k)
  note d = distinct_addrs_Node [OF Node.prems]
  note IH = Node.IH(1) [OF d(1)] Node.IH(2) [OF d(2)] Node.IH(3) [OF d(3)]
  show ?case
    by (rule frees_cong [OF frees_bind [OF frees_bind [OF frees_bind [OF frees_bind
            [OF IH(1) IH(2)] IH(3)] frees_class [of k]] frees_node [of a]]])
      (use d in \<open>auto simp: fun_eq_iff\<close>)
qed

lemma frees_class_remove:
  "distinct_addrs t \<Longrightarrow> frees (seq_class_remove t) (set_mset (addrs t)) (\<lambda>c. occ c t)"
proof (induction t)
  case NoNode
  have "seq_class_remove NoNode = Some" by auto
  then show ?case using frees_Some by simp
next
  case (Node a w l m r k)
  note d = distinct_addrs_Node [OF Node.prems]
  note IH = Node.IH(1) [OF d(1)] Node.IH(2) [OF d(2)] Node.IH(3) [OF d(3)]
  show ?case
    by (rule frees_cong [OF frees_bind [OF frees_bind [OF frees_bind [OF frees_bind
            [OF frees_class [of k] IH(1)] IH(2)] IH(3)] frees_node [of a]]])
      (use d in \<open>auto simp: fun_eq_iff\<close>)
qed

text \<open>\<open>seq_add_delete\<close> frees nodes only.\<close>

lemma seq_add_delete_ok:
  assumes "distinct_addrs t" and "set_mset (addrs t) \<subseteq> nodes st"
  shows "seq_add_delete t st = Some (st\<lparr>nodes := nodes st - set_mset (addrs t)\<rparr>)"
  using assms
proof (induction t arbitrary: st)
  case NoNode
  then show ?case by simp
next
  case (Node a w l m r k)
  note d = distinct_addrs_Node [OF Node.prems(1)]
  have "set_mset (addrs l) \<subseteq> nodes st"
    and "set_mset (addrs m) \<subseteq> nodes st - set_mset (addrs l)"
    and "set_mset (addrs r) \<subseteq> nodes st - set_mset (addrs l) - set_mset (addrs m)"
    and "a \<in> nodes st - set_mset (addrs l) - set_mset (addrs m) - set_mset (addrs r)"
    using Node.prems(2) d by auto
  with Node.IH d show ?case
    by (simp add: free_node_ok) (rule arg_cong [where f = "\<lambda>ns. st\<lparr>nodes := ns\<rparr>"], auto)
qed

section \<open>A chain of new nodes\<close>

lemma modify_at_cong:
  "live h t \<Longrightarrow> f (subtree_at h t) = g (subtree_at h t) \<Longrightarrow> modify_at h f t = modify_at h g t"
  by (induction rule: live_induct) simp_all

lemma occ_class_at: "class_at w t = Some c \<Longrightarrow> occ c t > 0"
proof (induction w arbitrary: t)
  case Nil
  then show ?case by (cases t) auto
next
  case (Cons d w)
  then have "live w (child d t)" by (simp add: class_at_live)
  then have "digit d" "t \<noteq> NoNode" by (auto dest: live_childD)
  moreover have "occ c (child d t) > 0" using Cons by simp
  ultimately show ?case by (cases t; cases d rule: digit_cases) (auto simp: child.simps)
qed

lemma occ_zero_class_at: "\<forall>c. occ c t = 0 \<Longrightarrow> class_at w t = None"
  using occ_class_at by (metis less_irrefl option.exhaust)

lemma class_at_occ: "occ c t > 0 \<Longrightarrow> \<exists>w. class_at w t = Some c"
proof (induction t)
  case (Node a w l m r k)
  then consider "k = Some c" | "occ c l > 0" | "occ c m > 0" | "occ c r > 0" by fastforce
  then show ?case
  proof cases
    case 1
    then show ?thesis by (intro exI [of _ "[]"]) simp
  next
    case 2
    then obtain w where "class_at w l = Some c" using Node.IH(1) by blast
    then show ?thesis by (intro exI [of _ "CHR ''0'' # w"]) (simp add: child.simps)
  next
    case 3
    then obtain w where "class_at w m = Some c" using Node.IH(2) by blast
    then show ?thesis by (intro exI [of _ "CHR ''1'' # w"]) (simp add: child.simps)
  next
    case 4
    then obtain w where "class_at w r = Some c" using Node.IH(3) by blast
    then show ?thesis by (intro exI [of _ "CHR ''2'' # w"]) (simp add: child.simps)
  qed
qed simp

definition fresh_chain :: "store \<Rightarrow> store \<Rightarrow> seq \<Rightarrow> bool" where
  "fresh_chain st st' q \<longleftrightarrow>
     distinct_addrs q \<and> (\<forall>a. a \<in># addrs q \<longrightarrow> next_addr st \<le> a \<and> a < next_addr st') \<and>
     (\<forall>c. occ c q = 0) \<and> nodes st' = nodes st \<union> set_mset (addrs q) \<and>
     next_addr st \<le> next_addr st' \<and> classes st' = classes st \<and> strs st' = strs st \<and>
     errno st' = errno st"

abbreviation leaf :: "addr \<Rightarrow> char \<Rightarrow> seq" where
  "leaf a c \<equiv> Node a (digit_val c) NoNode NoNode NoNode None"

lemma child_leaf [simp]: "child d (leaf a c) = NoNode"
  by (simp add: child.simps)

lemma prefixes_of_Nil [simp]: "prefixes_of [] = {[]}"
  by (auto simp: prefixes_of_def)

lemma prefixes_of_Cons: "w \<in> prefixes_of (d # s) \<longleftrightarrow> w = [] \<or> (\<exists>v. w = d # v \<and> v \<in> prefixes_of s)"
  by (cases w) (auto simp: prefixes_of_iff)

lemma live_leaf_child:
  assumes "digit d"
  shows "live w (set_child d q (leaf a c)) \<longleftrightarrow> w = [] \<or> (\<exists>v. w = d # v \<and> live v q)"
  using assms by (cases d rule: digit_cases; cases w) (auto simp: child.simps)

lemma live_leaf [simp]: "live w (leaf a c) \<longleftrightarrow> w = []"
  by (cases w) (auto simp: child.simps)

lemma seq_add_loop_spec:
  assumes "live h t" and "\<forall>x\<in>set (c # s). digit x" and "child c (subtree_at h t) = NoNode"
  shows "\<exists>ok q st'. seq_add_loop t h (c # s) st = (ok, modify_at h (set_child c q) t, st') \<and>
    fresh_chain st st' q \<and> (ok \<longrightarrow> (\<forall>w. live w q \<longleftrightarrow> w \<in> prefixes_of s)) \<and>
    (False \<notin> set (mallocs st) \<longrightarrow> ok)"
  using assms
proof (induction s arbitrary: h t c st)
  case (Cons d s)
  note c = Cons.prems(3) and dig = Cons.prems(2)
  show ?case
  proof (cases rule: malloc_cases [of st])
    case (fail ms)
    have "modify_at h (set_child c NoNode) t = t"
      using Cons.prems by (intro modify_at_id) (auto intro: set_child_same)
    then show ?thesis using fail
      by (intro exI [of _ False] exI [of _ NoNode] exI [of _ "st\<lparr>mallocs := ms\<rparr>"])
        (simp add: seq_add_new_def fresh_chain_def distinct_addrs_def)
  next
    case (ok ms)
    let ?a = "next_addr st"
    let ?st1 = "st\<lparr>next_addr := Suc ?a, mallocs := ms, nodes := insert ?a (nodes st)\<rparr>"
    let ?t1 = "modify_at h (set_child c (leaf ?a c)) t"
    have t1: "live (h @ [c]) ?t1" "child d (subtree_at (h @ [c]) ?t1) = NoNode"
      using Cons.prems(1) dig by (simp_all add: live_append subtree_at_append live_def)
    from Cons.IH [OF t1(1) _ t1(2), of ?st1] dig obtain ok' q st' where
      IH: "seq_add_loop ?t1 (h @ [c]) (d # s) ?st1 = (ok', modify_at (h @ [c]) (set_child d q) ?t1, st')"
        "fresh_chain ?st1 st' q" "ok' \<Longrightarrow> \<forall>w. live w q \<longleftrightarrow> w \<in> prefixes_of s"
        "False \<notin> set ms \<Longrightarrow> ok'" by auto
    let ?q = "set_child d q (leaf ?a c)"
    have "modify_at (h @ [c]) (set_child d q) ?t1 = modify_at h (modify_at [c] (set_child d q)) ?t1"
      using t1(1) by (intro modify_at_append) (rule live_prefix)
    also have "\<dots> = modify_at h (set_child c ?q) t"
      unfolding modify_at_modify_at [OF Cons.prems(1)]
      using Cons.prems(1) dig
      by (intro modify_at_cong) (simp_all add: live_def del: set_child.simps)
    finally have tree: "modify_at (h @ [c]) (set_child d q) ?t1 = modify_at h (set_child c ?q) t" .
    have digd: "digit d" using dig by simp
    have q: "addrs ?q = {#?a#} + addrs q" "occ x ?q = occ x q" for x
      using addrs.set_child_sum [of "leaf ?a c" d q] occs.set_child_sum [of "leaf ?a c" d x q] digd
      by (auto simp: child.simps elim!: digit_cases)
    have "fresh_chain st st' ?q"
      using IH(2) unfolding fresh_chain_def q distinct_addrs_def
      by (auto simp: count_eq_zero_iff)
    moreover have "ok' \<longrightarrow> (\<forall>w. live w ?q \<longleftrightarrow> w \<in> prefixes_of (d # s))"
      using IH(3) digd by (simp add: live_leaf_child prefixes_of_Cons del: set_child.simps)
    moreover have "seq_add_loop t h (c # d # s) st = (ok', modify_at h (set_child c ?q) t, st')"
      using ok IH(1) tree by (simp add: seq_add_new_def)
    ultimately show ?thesis using IH(4) ok(2) by blast
  qed
next
  case Nil
  show ?case
  proof (cases rule: malloc_cases [of st])
    case (fail ms)
    have "modify_at h (set_child c NoNode) t = t"
      using Nil.prems by (intro modify_at_id) (auto intro: set_child_same)
    then show ?thesis using fail
      by (intro exI [of _ False] exI [of _ NoNode] exI [of _ "st\<lparr>mallocs := ms\<rparr>"])
        (simp add: seq_add_new_def fresh_chain_def distinct_addrs_def)
  next
    case (ok ms)
    then show ?thesis
      by (intro exI [of _ True] exI [of _ "leaf (next_addr st) c"] exI)
        (auto simp: seq_add_new_def fresh_chain_def distinct_addrs_def)
  qed
qed

section \<open>Moving the nodes of one class to another\<close>

fun subst_class :: "addr \<Rightarrow> addr \<Rightarrow> seq \<Rightarrow> seq" where
  "subst_class old new NoNode = NoNode"
| "subst_class old new (Node a w l m r k) =
     Node a w (subst_class old new l) (subst_class old new m) (subst_class old new r)
       (if k = Some old then Some new else k)"

lemma subst_class_NoNode_iff [simp]: "subst_class old new t = NoNode \<longleftrightarrow> t = NoNode"
  by (cases t) auto

lemma child_subst_class [simp]: "child d (subst_class old new t) = subst_class old new (child d t)"
  by (cases t) (auto simp: child.simps)

lemma seq_class_subst_class [simp]:
  "seq_class (subst_class old new t) = (if seq_class t = Some old then Some new else seq_class t)"
  by (cases t) auto

lemma live_subst_class [simp]: "live w (subst_class old new t) \<longleftrightarrow> live w t"
  by (induction w arbitrary: t) auto

lemma class_at_subst_class [simp]:
  "class_at w (subst_class old new t) = (if class_at w t = Some old then Some new else class_at w t)"
  by (induction w arbitrary: t) auto

lemma addrs_subst_class [simp]: "addrs (subst_class old new t) = addrs t"
  by (induction t) auto

lemma occ_subst_class [simp]:
  "old \<noteq> new \<Longrightarrow> occ c (subst_class old new t) =
    (if c = old then 0 else if c = new then occ old t + occ new t else occ c t)"
  by (induction t) auto

definition moved :: "addr \<Rightarrow> addr \<Rightarrow> nat \<Rightarrow> (addr \<rightharpoonup> a_class) \<Rightarrow> (addr \<rightharpoonup> a_class)" where
  "moved old new n cs =
     (if n = 0 then cs
      else cs(old := map_option (\<lambda>k. k\<lparr>str := None\<rparr>) (cs old),
              new := map_option (\<lambda>k. k\<lparr>counter := counter k + int n\<rparr>) (cs new)))"

lemma moved_0 [simp]: "moved old new 0 cs = cs"
  by (simp add: moved_def)

lemma moved_dom [simp]: "moved old new n cs d = None \<longleftrightarrow> cs d = None"
  by (simp add: moved_def)

lemma moved_moved: "old \<noteq> new \<Longrightarrow> moved old new n (moved old new m cs) = moved old new (m + n) cs"
  by (auto simp: moved_def fun_eq_iff option.map_comp comp_def add.assoc)

lemma class_change_ok:
  assumes "old \<noteq> new" and "classes st old \<noteq> None" and "classes st new \<noteq> None"
  shows "class_change t old new st =
    Some (subst_class old new t, st\<lparr>classes := moved old new (occ old t) (classes st)\<rparr>)"
  using assms(2,3)
proof (induction t arbitrary: st)
  case NoNode
  then show ?case by simp
next
  case (Node a w l m r k)
  let ?n = "if k = Some old then 1 else 0 :: nat"
  have head: "(if k = Some old then
       do {
         ko \<leftarrow> classes st old;
         let cs = (classes st)(old \<mapsto> ko\<lparr>str := None\<rparr>);
         kn \<leftarrow> cs new;
         Some (Some new, st\<lparr>classes := cs(new \<mapsto> kn\<lparr>counter := counter kn + 1\<rparr>)\<rparr>)
       }
     else Some (k, st)) =
     Some (if k = Some old then Some new else k, st\<lparr>classes := moved old new ?n (classes st)\<rparr>)"
    using Node.prems assms(1) by (auto simp: moved_def)
  show ?case
    using Node.IH Node.prems
    by (simp add: head moved_moved [OF assms(1)] ac_simps del: not_None_eq)
qed

end
