(* ===== verification/Seq_Correct.thy ===== *)
theory Seq_Correct
  imports Seq_Store
begin

text \<open>
  The operations of \<open>seq.c\<close>: each is memory safe and keeps the invariant, what it does to
  the set of words, to the equivalence and to the names, and what it leaves allocated.
\<close>

section \<open>The invariant and the abstract view\<close>

definition seq_inv :: "seq \<Rightarrow> store \<Rightarrow> bool" where
  "seq_inv t st \<longleftrightarrow>
     t \<noteq> NoNode \<and> distinct_addrs t \<and> set_mset (addrs t) \<subseteq> nodes st \<and>
     cls_ok (\<lambda>c. occ c t) st \<and> store_fresh st"

definition no_leak :: "seq \<Rightarrow> store \<Rightarrow> bool" where
  "no_leak t st \<longleftrightarrow> nodes st = set_mset (addrs t) \<and> leaked_strs st = {}"

definition name_at :: "string \<Rightarrow> seq \<Rightarrow> store \<Rightarrow> string option" where
  "name_at w t st = do { c \<leftarrow> class_at w t; (a, x) \<leftarrow> class_str c st; Some x }"

definition same_class :: "seq \<Rightarrow> string \<Rightarrow> string \<Rightarrow> bool" where
  "same_class t u v \<longleftrightarrow> u = v \<or> (class_at u t \<noteq> None \<and> class_at u t = class_at v t)"

lemma seq_invD:
  assumes "seq_inv t st"
  shows "t \<noteq> NoNode" "distinct_addrs t" "set_mset (addrs t) \<subseteq> nodes st"
    "cls_ok (\<lambda>c. occ c t) st" "store_fresh st"
  using assms by (auto simp: seq_inv_def)

lemma cls_ok_cong: "classes st = classes st' \<Longrightarrow> strs st = strs st' \<Longrightarrow> cls_ok f st = cls_ok f st'"
  by (simp add: cls_ok_def)

lemma leaked_cong: "classes st = classes st' \<Longrightarrow> strs st = strs st' \<Longrightarrow> leaked_strs st = leaked_strs st'"
  by (simp add: leaked_strs_def owned_def)

lemma class_str_cong: "classes st = classes st' \<Longrightarrow> strs st = strs st' \<Longrightarrow> class_str c st = class_str c st'"
  by (simp add: class_str_def)

lemma name_at_cong:
  assumes "class_at w t = class_at w t'"
    and "\<And>c. class_at w t = Some c \<Longrightarrow> class_str c st = class_str c st'"
  shows "name_at w t st = name_at w t' st'"
  using assms by (cases "class_at w t'") (auto simp: name_at_def)

section \<open>Adding a word\<close>

lemma distinct_addrs_add:
  assumes "distinct_addrs p" and "distinct_addrs q" and "set_mset (addrs p) \<inter> set_mset (addrs q) = {}"
    and "addrs t = addrs p + addrs q"
  shows "distinct_addrs t"
proof -
  have "count (addrs p) a = 0 \<or> count (addrs q) a = 0" for a
    using assms(3) by (metis count_inI disjoint_iff)
  then show ?thesis
    using assms(1,2,4) unfolding distinct_addrs_def by (metis add_0 add.right_neutral count_union)
qed

lemma prefixes_of_append: "h @ v \<in> prefixes_of (h @ s) \<longleftrightarrow> v \<in> prefixes_of s"
  by (simp add: prefixes_of_iff)

lemma prefix_of_either:
  assumes "w \<in> prefixes_of (h @ s)"
  shows "(\<exists>v. w = h @ v) \<or> (\<exists>u. h = w @ u)"
  using assms by (auto simp: prefixes_of_iff append_eq_append_conv2)

lemma live_new_chain:
  assumes "live h t" and "digit c" and "child c (subtree_at h t) = NoNode"
    and q: "\<And>v. live v q \<longleftrightarrow> v \<in> prefixes_of s"
  shows "live w (modify_at h (set_child c q) t) \<longleftrightarrow> live w t \<or> w \<in> prefixes_of (h @ c # s)"
proof (cases "\<exists>v. w = h @ v")
  case True
  then obtain v where w: "w = h @ v" by blast
  have p: "subtree_at h t \<noteq> NoNode" using assms(1) by (simp add: live_def)
  have "live w (modify_at h (set_child c q) t) \<longleftrightarrow> live v (set_child c q (subtree_at h t))"
    using p w by (simp add: live_modify_at [OF assms(1)])
  also have "\<dots> \<longleftrightarrow> live v (subtree_at h t) \<or> v \<in> prefixes_of (c # s)"
    using p assms(2,3) q by (cases v) (auto simp: prefixes_of_Cons)
  also have "\<dots> \<longleftrightarrow> live w t \<or> w \<in> prefixes_of (h @ c # s)"
    by (simp add: w live_append prefixes_of_append)
  finally show ?thesis .
next
  case False
  have "subtree_at h t \<noteq> NoNode" using assms(1) by (simp add: live_def)
  then have "live w (modify_at h (set_child c q) t) \<longleftrightarrow> live w t"
    using False by (simp add: live_modify_at [OF assms(1)])
  moreover have "live w t" if "w \<in> prefixes_of (h @ c # s)"
    using prefix_of_either [OF that] False assms(1) live_prefix by blast
  ultimately show ?thesis by blast
qed

lemma class_at_new_chain:
  assumes "live h t" and "digit c" and "child c (subtree_at h t) = NoNode"
    and "\<And>v. class_at v q = None"
  shows "class_at w (modify_at h (set_child c q) t) = class_at w t"
proof -
  have p: "subtree_at h t \<noteq> NoNode" using assms(1) by (simp add: live_def)
  show ?thesis
  proof (cases "\<exists>v. w = h @ v")
    case True
    then obtain v where w: "w = h @ v" by blast
    have "class_at w (modify_at h (set_child c q) t) = class_at v (set_child c q (subtree_at h t))"
      using p w by (simp add: class_at_modify_at [OF assms(1)])
    also have "\<dots> = class_at v (subtree_at h t)"
      using p assms(2-4) by (cases v) (auto simp: class_at_def)
    finally show ?thesis by (simp add: w class_at_def subtree_at_append)
  next
    case False
    with p show ?thesis by (simp add: class_at_modify_at [OF assms(1)])
  qed
qed

lemma seq_add_ok:
  assumes inv: "seq_inv t st" and s: "word (Some s)"
  shows "\<exists>r t' st'. seq_add t (Some s) st = Some (r, t', st') \<and> seq_inv t' st' \<and>
    classes st' = classes st \<and> strs st' = strs st \<and>
    nodes st' - set_mset (addrs t') = nodes st - set_mset (addrs t) \<and>
    (if live s t then r = 0 \<and> t' = t \<and> st' = st
     else if r = 1 then (\<forall>w. live w t' \<longleftrightarrow> live w t \<or> w \<in> prefixes_of s) \<and>
       (\<forall>w. class_at w t' = class_at w t)
     else r = -1 \<and> t' = t \<and> nodes st' = nodes st \<and> errno st' = ENOMEM \<and> False \<in> set (mallocs st))"
proof (cases "live s t")
  case True
  with s have "seq_bad (Some s) \<noteq> -1" by (simp add: seq_bad_word)
  with True inv show ?thesis
    by (simp add: seq_add_def seq_walk_add_found seq_inv_def)
next
  case False
  note I = seq_invD [OF inv]
  from s have bad: "seq_bad (Some s) \<noteq> -1" by (simp add: seq_bad_word)
  from s have dig: "\<forall>c\<in>set s. digit c" by simp
  from seq_walk_add_missing [OF dig I(1) False] obtain k where
    k: "k < length s" "live (take k s) t" "\<not> live (take (Suc k) s) t"
      "seq_walk t s 0 True = (Some (take k s), Suc k)" .
  let ?h = "take k s" and ?c = "s ! k"
  have split: "drop k s = ?c # drop (Suc k) s" and c: "digit ?c"
    using k(1) dig by (simp_all add: Cons_nth_drop_Suc)
  have miss: "child ?c (subtree_at ?h t) = NoNode"
    using k(3) by (simp add: take_Suc_conv_app_nth [OF k(1)] subtree_at_append live_def)
  have "\<forall>x\<in>set (?c # drop (Suc k) s). digit x"
    using dig c by (auto dest: in_set_dropD)
  from seq_add_loop_spec [OF k(2) this miss, of st] obtain ok q st1 where
    loop: "seq_add_loop t ?h (?c # drop (Suc k) s) st = (ok, modify_at ?h (set_child ?c q) t, st1)"
    and fresh: "fresh_chain st st1 q"
    and words: "ok \<Longrightarrow> \<forall>w. live w q \<longleftrightarrow> w \<in> prefixes_of (drop (Suc k) s)"
    and oks: "False \<notin> set (mallocs st) \<Longrightarrow> ok" by blast
  let ?t1 = "modify_at ?h (set_child ?c q) t"
  have at: "subtree_at ?h t \<noteq> NoNode" using k(2) by (simp add: live_def)
  have adr: "addrs ?t1 = addrs t + addrs q" and occ1: "occ x ?t1 = occ x t" for x
    using addrs.modify_child_sum [OF k(2) c, of q] occs.modify_child_sum [OF k(2) c, of x q]
      miss fresh by (simp_all add: fresh_chain_def)
  have new: "set_mset (addrs q) \<inter> nodes st = {}"
    using fresh I(5) by (fastforce simp: fresh_chain_def store_fresh_def)
  show ?thesis
  proof (cases ok)
    case True
    have run: "seq_add t (Some s) st = Some (1, ?t1, st1)"
      using bad I(1) k(4) loop True by (simp add: seq_add_def split)
    have "?t1 \<noteq> NoNode" using k(2) at by (intro modify_at_not_NoNode) auto
    moreover have "distinct_addrs ?t1"
      using distinct_addrs_add [OF I(2) _ _ adr] fresh new I(3) by (auto simp: fresh_chain_def)
    moreover have "store_fresh st1"
      using I(5) fresh by (fastforce simp: store_fresh_def fresh_chain_def)
    moreover have "cls_ok (\<lambda>c. occ c ?t1) st1"
      using I(4) fresh cls_ok_cong [of st st1] by (simp add: occ1 fresh_chain_def)
    ultimately have inv1: "seq_inv ?t1 st1"
      using I(3) fresh by (auto simp: seq_inv_def adr fresh_chain_def)
    have whole: "s = ?h @ ?c # drop (Suc k) s" using id_take_nth_drop [OF k(1)] .
    have "live w ?t1 \<longleftrightarrow> live w t \<or> w \<in> prefixes_of s" for w
      using live_new_chain [OF k(2) c miss, of q "drop (Suc k) s" w] words True whole by metis
    moreover have "class_at w ?t1 = class_at w t" for w
      using fresh by (intro class_at_new_chain [OF k(2) c miss] occ_zero_class_at)
        (simp add: fresh_chain_def)
    moreover have "nodes st1 - set_mset (addrs ?t1) = nodes st - set_mset (addrs t)"
      using fresh new by (auto simp: adr fresh_chain_def)
    ultimately show ?thesis
      using run inv1 fresh \<open>\<not> live s t\<close> by (auto simp: fresh_chain_def)
  next
    case False
    let ?st2 = "st1\<lparr>errno := ENOMEM, nodes := nodes st\<rparr>"
    have q: "child ?c (subtree_at ?h ?t1) = q"
      using k(2) c at by simp
    have del: "seq_add_delete q (st1\<lparr>errno := ENOMEM\<rparr>) = Some ?st2"
      using fresh new by (subst seq_add_delete_ok) (auto simp: fresh_chain_def intro: arg_cong)
    have undo: "modify_at ?h (set_child ?c NoNode) ?t1 = t"
      unfolding modify_at_modify_at [OF k(2)] using k(2) c miss at
      by (intro modify_at_id) (simp_all add: set_child_same)
    have run: "seq_add t (Some s) st = Some (-1, t, ?st2)"
      using bad I(1) k(4) loop False q del undo by (simp add: seq_add_def split)
    have "store_fresh ?st2"
      using I(5) fresh by (fastforce simp: store_fresh_def fresh_chain_def)
    then have "seq_inv t ?st2"
      using I fresh cls_ok_cong [of st ?st2] by (simp add: seq_inv_def fresh_chain_def)
    with run fresh \<open>\<not> live s t\<close> False oks show ?thesis by (auto simp: fresh_chain_def)
  qed
qed

section \<open>Removing words\<close>

lemma distinct_addrs_split:
  assumes "distinct_addrs t" and "addrs t = addrs p + addrs q"
  shows "distinct_addrs p" and "distinct_addrs q" and "set_mset (addrs p) \<inter> set_mset (addrs q) = {}"
proof -
  have D: "count (addrs p) a + count (addrs q) a \<le> 1" for a
    using assms by (simp add: distinct_addrs_def)
  show "distinct_addrs p" "distinct_addrs q"
    unfolding distinct_addrs_def using D by (meson add_leD1 add_leD2)+
  show "set_mset (addrs p) \<inter> set_mset (addrs q) = {}"
  proof (rule ccontr)
    assume "set_mset (addrs p) \<inter> set_mset (addrs q) \<noteq> {}"
    then obtain a where "a \<in># addrs p" "a \<in># addrs q" by blast
    then have "count (addrs p) a > 0" "count (addrs q) a > 0" by simp_all
    with D [of a] show False by linarith
  qed
qed

lemma live_cut:
  assumes "live h t" and "digit c"
  shows "live w (modify_at h (set_child c NoNode) t) \<longleftrightarrow> live w t \<and> \<not> (\<exists>v. w = h @ c # v)"
    and "live w (modify_at h (set_child c NoNode) t) \<Longrightarrow>
      class_at w (modify_at h (set_child c NoNode) t) = class_at w t"
proof -
  have p: "subtree_at h t \<noteq> NoNode" using assms(1) by (simp add: live_def)
  have both: "(live w (modify_at h (set_child c NoNode) t) \<longleftrightarrow> live w t \<and> \<not> (\<exists>v. w = h @ c # v)) \<and>
    (live w (modify_at h (set_child c NoNode) t) \<longrightarrow>
      class_at w (modify_at h (set_child c NoNode) t) = class_at w t)"
  proof (cases "\<exists>v. w = h @ v")
    case True
    then obtain v where "w = h @ v" by blast
    with p assms show ?thesis
      by (cases v) (auto simp: live_modify_at [OF assms(1)] class_at_modify_at [OF assms(1)]
          live_append class_at_def subtree_at_append)
  next
    case False
    with p show ?thesis
      by (auto simp: live_modify_at [OF assms(1)] class_at_modify_at [OF assms(1)])
  qed
  then show "live w (modify_at h (set_child c NoNode) t) \<longleftrightarrow> live w t \<and> \<not> (\<exists>v. w = h @ c # v)"
    by blast
  from both show "live w (modify_at h (set_child c NoNode) t) \<Longrightarrow>
      class_at w (modify_at h (set_child c NoNode) t) = class_at w t" by blast
qed

lemma seq_remove_ok:
  assumes inv: "seq_inv t st" and s: "word (Some s)"
  shows "\<exists>r t' st'. seq_remove t (Some s) st = Some (r, t', st') \<and> seq_inv t' st' \<and>
    leaked_strs st' = leaked_strs st \<and>
    nodes st' - set_mset (addrs t') = nodes st - set_mset (addrs t) \<and>
    (if live s t then
       r = 1 \<and> (\<forall>w. live w t' \<longleftrightarrow> live w t \<and> s \<notin> prefixes_of w) \<and>
       (\<forall>w. live w t' \<longrightarrow> class_at w t' = class_at w t \<and> name_at w t' st' = name_at w t st)
     else r = 0 \<and> t' = t \<and> st' = st)"
proof -
  note I = seq_invD [OF inv]
  from s obtain u c where sc: "s = u @ [c]" and dig: "\<forall>x\<in>set u. digit x" and c: "digit c"
    by (cases s rule: rev_cases) auto
  from s have bad: "seq_bad (Some (u @ [c])) \<noteq> -1" by (simp add: seq_bad_word sc)
  let ?h2 = "child c (subtree_at u t)"
  have lv: "live s t \<longleftrightarrow> live u t \<and> ?h2 \<noteq> NoNode"
    by (auto simp: sc subtree_at_append live_def)
  show ?thesis
  proof (cases "live s t")
    case False
    then have "seq_remove t (Some s) st = Some (0, t, st)"
      using bad I(1) seq_walk_remove [OF dig I(1), of c] lv
      by (cases "seq_walk t (u @ [c]) 1 True"; cases "live u t") (auto simp: seq_remove_def sc)
    with inv False show ?thesis by simp
  next
    case True
    with lv have u: "live u t" and h2: "?h2 \<noteq> NoNode" by auto
    let ?t' = "modify_at u (set_child c NoNode) t"
    have adr: "addrs t = addrs ?t' + addrs ?h2" and occ: "occ x t = occ x ?t' + occ x ?h2" for x
      using addrs.modify_child_sum [OF u c, of NoNode] occs.modify_child_sum [OF u c, of x NoNode]
      by simp_all
    note D = distinct_addrs_split [OF I(2) adr]
    have "cls_ok (\<lambda>x. occ x ?t' + occ x ?h2) st" and "set_mset (addrs ?h2) \<subseteq> nodes st"
      using I(3,4) by (simp_all add: occ adr)
    from freesD [OF frees_class_remove [OF D(2)] this] obtain st' where
      run: "seq_class_remove ?h2 st = Some st'" and rel: "released (\<lambda>x. occ x ?t') st st'"
      and ns: "nodes st' = nodes st - set_mset (addrs ?h2)" by blast
    have "seq_walk t (u @ [c]) 1 True = (Some u, length u)"
      using seq_walk_remove [OF dig I(1), of c] u
      by (cases "seq_walk t (u @ [c]) 1 True") auto
    then have ret: "seq_remove t (Some s) st = Some (1, ?t', st')"
      using bad I(1) run h2 by (simp add: seq_remove_def sc)
    have "store_fresh st'"
      using I(5) rel ns unfolding store_fresh_def released_def by (metis DiffD1 domIff subset_iff)
    moreover have "?t' \<noteq> NoNode"
      using u I(1) by (intro modify_at_not_NoNode) (auto simp: live_def)
    ultimately have inv': "seq_inv ?t' st'"
      using D rel ns I(3) by (auto simp: seq_inv_def released_def adr)
    have "live w ?t' \<longleftrightarrow> live w t \<and> s \<notin> prefixes_of w" for w
      by (simp add: live_cut(1) [OF u c] prefixes_of_iff sc)
    moreover have "class_at w ?t' = class_at w t \<and> name_at w ?t' st' = name_at w t st"
      if "live w ?t'" for w
    proof (intro conjI name_at_cong)
      show eq: "class_at w ?t' = class_at w t" by (rule live_cut(2) [OF u c that])
      then show "class_at w ?t' = class_at w t" .
      fix x assume "class_at w ?t' = Some x"
      then have "occ x ?t' > 0" by (rule occ_class_at)
      then show "class_str x st' = class_str x st" using rel by (simp add: released_def)
    qed
    moreover have "nodes st' - set_mset (addrs ?t') = nodes st - set_mset (addrs t)"
      by (auto simp: ns adr)
    ultimately show ?thesis
      using ret inv' rel True by (simp add: released_def)
  qed
qed

section \<open>Deleting everything\<close>

lemma seq_delete_ok:
  assumes inv: "seq_inv t st"
  shows "\<exists>st'. seq_delete t st = Some st' \<and> classes st' = Map.empty \<and>
    nodes st' = nodes st - set_mset (addrs t) \<and> dom (strs st') = leaked_strs st"
proof -
  note I = seq_invD [OF inv]
  from I(4) have "cls_ok (\<lambda>c. 0 + occ c t) st" by simp
  from freesD [OF frees_delete_all [OF I(2)] this I(3)] obtain st' where
    st': "seq_delete_all t st = Some st'" "released (\<lambda>c. 0) st st'"
      "nodes st' = nodes st - set_mset (addrs t)" by blast
  then have cls: "classes st' = Map.empty"
    by (auto simp: released_def cls_ok_def fun_eq_iff)
  then have "leaked_strs st' = dom (strs st')" by (simp add: leaked_strs_def owned_def)
  with st' cls I(1) show ?thesis by (simp add: seq_delete_def released_def)
qed

section \<open>New, renamed and merged classes in the store\<close>

lemma owned_allocated: "cls_ok f st \<Longrightarrow> a \<in> owned st \<Longrightarrow> strs st a \<noteq> None"
  unfolding owned_def using cls_okD(3) by fastforce

lemma cls_ok_add:
  fixes x :: string
  assumes ok: "cls_ok f st" and c: "f c = 0" and a: "a \<notin> owned st" and n: "n > 0"
  defines "st' \<equiv> st\<lparr>strs := (strs st)(a \<mapsto> x),
      classes := (classes st)(c \<mapsto> \<lparr>counter = int n, str = Some a\<rparr>)\<rparr>"
  shows "cls_ok (f(c := n)) st'" and "leaked_strs st' = leaked_strs st - {a}"
    and "class_str d st' = (if d = c then Some (a, x) else class_str d st)"
proof -
  note D = cls_okD [OF ok]
  have none: "classes st c = None" using D(1) c by simp
  have other: "str k \<noteq> Some a" if "classes st d = Some k" for d k
    using a that by (auto simp: owned_def)
  have cs: "classes st' d = Some k \<longleftrightarrow>
      (if d = c then k = \<lparr>counter = int n, str = Some a\<rparr> else classes st d = Some k)" for d k
    by (auto simp: st'_def)
  show "cls_ok (f(c := n)) st'"
  proof (rule cls_okI)
    fix d show "classes st' d = None \<longleftrightarrow> (f(c := n)) d = 0"
      using D(1) [of d] n by (simp add: st'_def)
    fix k assume k: "classes st' d = Some k"
    then show "counter k = int ((f(c := n)) d)" using D(2) [of d k] by (auto simp: cs split: if_splits)
    show "\<exists>b y. str k = Some b \<and> strs st' b = Some y"
    proof (cases "d = c")
      case True
      with k have "str k = Some a" by (auto simp: cs)
      then show ?thesis by (simp add: st'_def)
    next
      case False
      with k have "classes st d = Some k" by (simp add: cs)
      from D(3) [OF this] show ?thesis by (auto simp: st'_def)
    qed
    fix e ke assume "classes st' e = Some ke" "str k = str ke"
    with k other show "d = e"
      using D(4) [of d k e ke] by (cases "d = c"; cases "e = c") (auto simp: cs)
  qed
  have "owned st' = insert a (owned st)"
  proof (intro set_eqI iffI)
    fix b assume "b \<in> insert a (owned st)"
    then consider "b = a" | d k where "classes st d = Some k" "str k = Some b"
      by (auto simp: owned_def)
    then show "b \<in> owned st'"
    proof cases
      case 1
      then show ?thesis
        unfolding owned_def by (auto simp: cs intro!: exI [of _ c])
    next
      case 2
      with none have "classes st' d = Some k" by (auto simp: cs)
      with 2 show ?thesis by (auto simp: owned_def)
    qed
  qed (auto simp: owned_def cs split: if_splits)
  then show "leaked_strs st' = leaked_strs st - {a}" by (auto simp: leaked_strs_def st'_def)
  show "class_str d st' = (if d = c then Some (a, x) else class_str d st)"
  proof (cases "classes st d")
    case (Some k)
    with none D(3) [OF Some] other [OF Some] show ?thesis by (auto simp: class_str_def st'_def)
  qed (simp add: class_str_def st'_def)
qed

lemma cls_ok_forget:
  assumes ok: "cls_ok f st" and k: "classes st c = Some k" and a: "str k = Some a"
  defines "st' \<equiv> st\<lparr>classes := (classes st)(c := None)\<rparr>"
  shows "cls_ok (f(c := 0)) st'" and "leaked_strs st' = insert a (leaked_strs st)"
    and "d \<noteq> c \<Longrightarrow> class_str d st' = class_str d st" and "owned st' = owned st - {a}"
proof -
  note D = cls_okD [OF ok]
  have cs: "classes st' d = Some kd \<longleftrightarrow> d \<noteq> c \<and> classes st d = Some kd" for d kd
    by (auto simp: st'_def)
  show "cls_ok (f(c := 0)) st'"
  proof (rule cls_okI)
    fix d show "classes st' d = None \<longleftrightarrow> (f(c := 0)) d = 0"
      using D(1) [of d] by (simp add: st'_def)
    fix kd assume kd: "classes st' d = Some kd"
    then show "counter kd = int ((f(c := 0)) d)" using D(2) [of d kd] by (simp add: cs)
    show "\<exists>b y. str kd = Some b \<and> strs st' b = Some y"
      using D(3) [of d kd] kd by (simp add: cs) (simp add: st'_def)
    fix e ke assume "classes st' e = Some ke" "str kd = str ke"
    then show "d = e" using D(4) [of d kd e ke] kd by (simp add: cs)
  qed
  show own: "owned st' = owned st - {a}"
  proof (intro set_eqI iffI)
    fix b assume "b \<in> owned st'"
    then obtain d kd where "d \<noteq> c" "classes st d = Some kd" "str kd = Some b"
      by (auto simp: owned_def cs)
    with D(4) [OF k] a show "b \<in> owned st - {a}" by (auto simp: owned_def)
  next
    fix b assume "b \<in> owned st - {a}"
    then obtain d kd where "classes st d = Some kd" "str kd = Some b" "b \<noteq> a"
      by (auto simp: owned_def)
    moreover from this k a have "d \<noteq> c" by auto
    ultimately show "b \<in> owned st'" by (auto simp: owned_def cs)
  qed
  have "a \<in> dom (strs st)" using D(3) [OF k] a by auto
  with own show "leaked_strs st' = insert a (leaked_strs st)"
    by (auto simp: leaked_strs_def st'_def)
  show "d \<noteq> c \<Longrightarrow> class_str d st' = class_str d st" by (simp add: class_str_def st'_def)
qed

lemma cls_ok_rename:
  fixes x :: string
  assumes ok: "cls_ok f st" and k: "classes st c = Some k" and b: "str k = Some b"
    and a: "strs st a = None"
  defines "st' \<equiv> st\<lparr>strs := (strs st)(a \<mapsto> x, b := None),
      classes := (classes st)(c \<mapsto> k\<lparr>str := Some a\<rparr>)\<rparr>"
  shows "cls_ok f st'" and "leaked_strs st' = leaked_strs st"
    and "class_str d st' = (if d = c then Some (a, x) else class_str d st)"
proof -
  have fc: "f c > 0" "counter k = int (f c)" using cls_okD(1,2) [OF ok, of c] k by auto
  have ab: "a \<noteq> b" using cls_okD(3) [OF ok k] b a by auto
  let ?st1 = "st\<lparr>strs := (strs st)(b := None), classes := (classes st)(c := None)\<rparr>"
  note drop = cls_ok_drop [OF ok k b]
  have a1: "a \<notin> owned ?st1"
    using owned_allocated [OF drop(1), of a] a ab by auto
  have eq: "st' = ?st1\<lparr>strs := (strs ?st1)(a \<mapsto> x),
      classes := (classes ?st1)(c \<mapsto> \<lparr>counter = int (f c), str = Some a\<rparr>)\<rparr>"
    using ab fc(2) by (simp add: st'_def fun_upd_twist)
      (metis a_class.surjective a_class.update_convs(2) old.unit.exhaust)
  have fc0: "(f(c := 0)) c = 0" by simp
  note add = cls_ok_add [OF drop(1) fc0 a1 fc(1), where x = x]
  have "(f(c := 0))(c := f c) = f" by simp
  with add(1) show "cls_ok f st'" unfolding eq by metis
  have "a \<notin> leaked_strs st" using a by (auto simp: leaked_strs_def)
  with add(2) drop(2) show "leaked_strs st' = leaked_strs st"
    unfolding eq by simp
  show "class_str d st' = (if d = c then Some (a, x) else class_str d st)"
    using add(3) drop(3) unfolding eq by simp
qed

end
