(* ===== verification/Seq_Names.thy ===== *)
theory Seq_Names
  imports Seq_Correct
begin

text \<open>
  Names and equivalence in \<open>seq.c\<close>: \<open>seq_set_name\<close>, \<open>seq_get_name\<close> and \<open>seq_equiv\<close>.
\<close>

section \<open>Setting the class of one node\<close>

lemma class_at_append: "class_at (u @ v) t = class_at v (subtree_at u t)"
  by (simp add: class_at_def subtree_at_append)

lemma set_class_at:
  assumes "live h t"
  shows "live w (modify_at h (set_class k) t) \<longleftrightarrow> live w t"
    and "class_at w (modify_at h (set_class k) t) = (if w = h then k else class_at w t)"
proof -
  have p: "subtree_at h t \<noteq> NoNode" using assms by (simp add: live_def)
  have same: "live v (set_class k p) \<longleftrightarrow> live v p"
    "class_at v (set_class k p) = (if v = [] \<and> p \<noteq> NoNode then k else class_at v p)" for v p
    by (cases v; cases "p = NoNode"; simp)+
  show "live w (modify_at h (set_class k) t) \<longleftrightarrow> live w t"
    using p by (auto simp: live_modify_at [OF assms] same live_append)
  show "class_at w (modify_at h (set_class k) t) = (if w = h then k else class_at w t)"
    using p by (auto simp: class_at_modify_at [OF assms] same class_at_append)
qed

lemma set_class_addrs: "live h t \<Longrightarrow> addrs (modify_at h (set_class k) t) = addrs t"
proof -
  assume h: "live h t"
  have "addrs (set_class k p) = addrs p" for p by (cases p) auto
  with addrs.modify_at_sum [OF h, of "set_class k"] show ?thesis by simp
qed

lemma set_class_occ:
  assumes "live h t" and "class_at h t = None"
  shows "occ c (modify_at h (set_class (Some d)) t) = occ c t + (if c = d then 1 else 0)"
proof -
  have "occ c (set_class (Some d) p) = occ c p + (if c = d then 1 else 0)"
    if "p \<noteq> NoNode" "seq_class p = None" for p
    using that by (cases p) auto
  with occs.modify_at_sum [OF assms(1), of c "set_class (Some d)"] assms
  show ?thesis by (simp add: live_def class_at_def)
qed

lemma set_class_distinct: "live h t \<Longrightarrow> distinct_addrs (modify_at h (set_class k) t) = distinct_addrs t"
  by (simp add: distinct_addrs_def set_class_addrs)

lemma set_class_NoNode: "live h t \<Longrightarrow> modify_at h (set_class k) t \<noteq> NoNode"
  by (intro modify_at_not_NoNode) (auto simp: live_def)

lemma class_at_subtree: "seq_class (subtree_at h t) = class_at h t"
  by (simp add: class_at_def)

lemma name_at_eq: "name_at w t st =
    (case class_at w t of None \<Rightarrow> None | Some c \<Rightarrow> map_option snd (class_str c st))"
  by (cases "class_at w t"; cases "class_str (the (class_at w t)) st") (auto simp: name_at_def)

section \<open>The fresh addresses of a store\<close>

lemma fresh_addr:
  assumes "store_fresh st" and "a \<ge> next_addr st"
  shows "a \<notin> nodes st" and "classes st a = None" and "strs st a = None"
  using assms by (auto simp: store_fresh_def not_less [symmetric])

lemma fresh_not_owned:
  assumes "cls_ok f st" and "store_fresh st" and "a \<ge> next_addr st"
  shows "a \<notin> owned st"
  using owned_allocated [OF assms(1)] fresh_addr(3) [OF assms(2,3)] by blast

lemma fresh_occ:
  assumes "seq_inv t st" and "c \<ge> next_addr st"
  shows "occ c t = 0"
  using seq_invD(4,5) [OF assms(1)] fresh_addr(2) [OF _ assms(2)] cls_okD(1) by blast

section \<open>\<open>seq_set_name\<close> and \<open>seq_get_name\<close>\<close>

text \<open>What stays in every outcome of \<open>seq_set_name\<close> and \<open>seq_equiv\<close>.\<close>

definition kept :: "seq \<Rightarrow> store \<Rightarrow> seq \<Rightarrow> store \<Rightarrow> bool" where
  "kept t st t' st' \<longleftrightarrow>
     seq_inv t' st' \<and> nodes st' = nodes st \<and> addrs t' = addrs t \<and> (\<forall>w. live w t' \<longleftrightarrow> live w t)"

definition unchanged :: "seq \<Rightarrow> store \<Rightarrow> seq \<Rightarrow> store \<Rightarrow> bool" where
  "unchanged t st t' st' \<longleftrightarrow>
     t' = t \<and> classes st' = classes st \<and> strs st' = strs st \<and> nodes st' = nodes st \<and>
     next_addr st \<le> next_addr st'"

lemma unchanged_kept: "seq_inv t st \<Longrightarrow> unchanged t st t' st' \<Longrightarrow>
    kept t st t' st' \<and> leaked_strs st' = leaked_strs st \<and> name_at w t' st' = name_at w t st"
  using cls_ok_cong [of st st'] leaked_cong [of st st'] class_str_cong [of st st']
  by (fastforce simp: unchanged_def kept_def seq_inv_def store_fresh_def name_at_eq split: option.split)

definition named :: "seq \<Rightarrow> store \<Rightarrow> seq \<Rightarrow> store \<Rightarrow> string \<Rightarrow> string \<Rightarrow> bool" where
  "named t st t' st' s n \<longleftrightarrow>
     (\<forall>u v. same_class t' u v \<longleftrightarrow> same_class t u v) \<and>
     (\<forall>w. name_at w t' st' = (if same_class t s w then Some n else name_at w t st))"

lemma seq_set_name_ok:
  assumes inv: "seq_inv t st" and s: "word (Some s)" and n: "n \<noteq> []"
  shows "\<exists>r t' st'. seq_set_name t (Some s) (Some n) st = Some (r, t', st') \<and>
    kept t st t' st' \<and> leaked_strs st' = leaked_strs st \<and>
    (if r = -1 then unchanged t st t' st' \<and> errno st' = ENOMEM \<and> False \<in> set (mallocs st)
     else if live s t
       then (r = 0 \<longleftrightarrow> name_at s t st = Some n) \<and> (r = 0 \<or> r = 1) \<and> named t st t' st' s n
     else r = 0 \<and> unchanged t st t' st')"
proof -
  note I = seq_invD [OF inv]
  from s have bad: "seq_bad (Some s) \<noteq> -1" by (simp add: seq_bad_word)
  from s have dig: "\<forall>c\<in>set s. digit c" by simp
  show ?thesis
  proof (cases rule: malloc_cases [of st])
    case (fail ms)
    have "seq_set_name t (Some s) (Some n) st = Some (-1, t, st\<lparr>mallocs := ms, errno := ENOMEM\<rparr>)"
      using fail(1) bad I(1) n by (simp add: seq_set_name_def)
    moreover have "unchanged t st t (st\<lparr>mallocs := ms, errno := ENOMEM\<rparr>)"
      by (simp add: unchanged_def)
    ultimately show ?thesis using unchanged_kept [OF inv] fail(2) by fastforce
  next
    case (ok ms)
    let ?a = "next_addr st"
    let ?st0 = "st\<lparr>next_addr := Suc ?a, mallocs := ms\<rparr>"
    let ?st1 = "?st0\<lparr>strs := (strs st)(?a \<mapsto> n)\<rparr>"
    have a: "strs st ?a = None" using fresh_addr(3) [OF I(5)] by simp
    have undo: "(strs st)(?a := None) = strs st" using a by auto
    have free: "free_str (Some ?a) (?st1\<lparr>mallocs := ms', errno := e\<rparr>) = Some (?st0\<lparr>mallocs := ms', errno := e\<rparr>)"
      for ms' e by (simp add: free_str_def undo)
    have free1: "free_str (Some ?a) ?st1 = Some ?st0"
      by (simp add: free_str_def undo)
    have walk: "fst (seq_walk t s 0 False) = (if live s t then Some s else None)"
      by (rule seq_walk_plain [OF dig I(1)])
    show ?thesis
    proof (cases "live s t")
      case False
      have "seq_set_name t (Some s) (Some n) st = Some (0, t, ?st0)"
        using ok(1) bad I(1) n free1 False walk
        by (simp add: seq_set_name_def)
      moreover have "unchanged t st t ?st0" by (simp add: unchanged_def)
      ultimately show ?thesis using unchanged_kept [OF inv] False by fastforce
    next
      case live: True
      show ?thesis
      proof (cases "class_at s t")
        case None
        show ?thesis
        proof (cases rule: malloc_cases [of ?st1])
          case (fail ms')
          have "seq_set_name t (Some s) (Some n) st = Some (-1, t, ?st0\<lparr>mallocs := ms', errno := ENOMEM\<rparr>)"
            using ok(1) bad I(1) n live walk None fail(1) free [of ENOMEM ms']
            by (simp add: seq_set_name_def class_at_subtree class_new_def)
          moreover have "unchanged t st t (?st0\<lparr>mallocs := ms', errno := ENOMEM\<rparr>)"
            by (simp add: unchanged_def)
          ultimately show ?thesis using unchanged_kept [OF inv] fail(2) ok(2) by fastforce
        next
          case ok2: (ok ms')
          let ?c = "Suc ?a"
          let ?t' = "modify_at s (set_class (Some ?c)) t"
          let ?st2 = "?st1\<lparr>next_addr := Suc ?c, mallocs := ms',
              classes := (classes st)(?c \<mapsto> \<lparr>counter = 1, str = Some ?a\<rparr>)\<rparr>"
          have ret: "seq_set_name t (Some s) (Some n) st = Some (1, ?t', ?st2)"
            using ok(1) bad I(1) n live walk None ok2(1)
            by (simp add: seq_set_name_def class_at_subtree class_new_def)
          have c0: "occ ?c t = 0" using fresh_occ [OF inv] by simp
          note add = cls_ok_add [OF I(4) c0 fresh_not_owned [OF I(4,5) order_refl] zero_less_one, where x = n]
          let ?st3 = "st\<lparr>strs := (strs st)(?a \<mapsto> n),
              classes := (classes st)(?c \<mapsto> \<lparr>counter = int 1, str = Some ?a\<rparr>)\<rparr>"
          have same: "classes ?st2 = classes ?st3" "strs ?st2 = strs ?st3" by simp_all
          have no_c: "class_at w t \<noteq> Some ?c" for w using occ_class_at [of w t ?c] c0 by auto
          have "cls_ok (\<lambda>x. occ x ?t') ?st2"
          proof -
            have "(\<lambda>x. occ x ?t') = (\<lambda>x. occ x t)(?c := 1)"
              using c0 by (auto simp: set_class_occ [OF live None])
            with add(1) cls_ok_cong [OF same] show ?thesis by metis
          qed
          then have "kept t st ?t' ?st2"
            using I live by (auto simp: kept_def seq_inv_def set_class_distinct set_class_addrs
                set_class_NoNode set_class_at store_fresh_def)
          moreover have "?a \<notin> leaked_strs st" using a by (auto simp: leaked_strs_def)
          then have "leaked_strs ?st2 = leaked_strs st"
            using add(2) leaked_cong [OF same] by (metis Diff_empty Diff_insert0)
          moreover have "named t st ?t' ?st2 s n"
          proof -
            have "class_str d ?st2 = (if d = ?c then Some (?a, n) else class_str d st)" for d
              using add(3) [of d] class_str_cong [OF same] by metis
            then show ?thesis
              using None by (auto simp: named_def same_class_def name_at_eq no_c no_c [symmetric]
                  set_class_at [OF live] split: option.split)
          qed
          moreover have "name_at s t st = None" using None by (simp add: name_at_eq)
          ultimately show ?thesis using ret live by auto
        qed
      next
        case (Some c)
        then have "occ c t > 0" by (rule occ_class_at)
        then obtain k b old where k: "classes st c = Some k" "str k = Some b" "strs st b = Some old"
            "class_str c st = Some (b, old)"
          using cls_ok_class [OF I(4)] by metis
        then have ab: "?a \<noteq> b" using a by auto
        then have str1: "class_str c ?st1 = Some (b, old)" using k by (simp add: class_str_def)
        have nm: "name_at w t st = Some old" if "class_at w t = Some c" for w
          using that k(4) by (simp add: name_at_eq)
        show ?thesis
        proof (cases "n = old")
          case True
          have "seq_set_name t (Some s) (Some n) st = Some (0, t, ?st0)"
            using ok(1) bad I(1) n live walk Some free1 str1 True
            by (simp add: seq_set_name_def class_at_subtree)
          moreover have un: "unchanged t st t ?st0" by (simp add: unchanged_def)
          moreover have "named t st t ?st0 s n"
            using unchanged_kept [OF inv un] Some nm True
            by (auto simp: named_def same_class_def)
          ultimately show ?thesis using unchanged_kept [OF inv un] nm [OF Some] True live by auto
        next
          case False
          let ?st2 = "?st0\<lparr>strs := (strs st)(?a \<mapsto> n, b := None),
              classes := (classes st)(c \<mapsto> k\<lparr>str := Some ?a\<rparr>)\<rparr>"
          have ret: "seq_set_name t (Some s) (Some n) st = Some (1, t, ?st2)"
            using ok(1) bad I(1) n live walk Some str1 False k(1,3) ab
            by (simp add: seq_set_name_def class_at_subtree free_str_def)
          note ren = cls_ok_rename [OF I(4) k(1,2) a, where x = n]
          let ?st3 = "st\<lparr>strs := (strs st)(?a \<mapsto> n, b := None),
              classes := (classes st)(c \<mapsto> k\<lparr>str := Some ?a\<rparr>)\<rparr>"
          have same: "classes ?st2 = classes ?st3" "strs ?st2 = strs ?st3" by simp_all
          have "cls_ok (\<lambda>x. occ x t) ?st2" using ren(1) cls_ok_cong [OF same] by metis
          then have "kept t st t ?st2"
            using I k(1) by (auto simp: kept_def seq_inv_def store_fresh_def)
          moreover have "leaked_strs ?st2 = leaked_strs st"
            using ren(2) leaked_cong [OF same] by metis
          moreover have "named t st t ?st2 s n"
          proof -
            have "class_str d ?st2 = (if d = c then Some (?a, n) else class_str d st)" for d
              using ren(3) [of d] class_str_cong [OF same] by metis
            then show ?thesis
              using Some by (auto simp: named_def same_class_def name_at_eq split: option.split)
          qed
          ultimately show ?thesis using ret live nm [OF Some] False by auto
        qed
      qed
    qed
  qed
qed

lemma seq_get_name_ok:
  assumes inv: "seq_inv t st" and s: "word (Some s)"
  shows "case name_at s t st of
      None \<Rightarrow> seq_get_name t (Some s) st = Some (None, st\<lparr>errno := NoError\<rparr>)
    | Some x \<Rightarrow>
        if x = [] then seq_get_name t (Some s) st = Some (None, st\<lparr>errno := NoError\<rparr>)
        else \<exists>a. seq_get_name t (Some s) st = Some (Some a, st) \<and> strs st a = Some x"
proof -
  note I = seq_invD [OF inv]
  from s have bad: "seq_bad (Some s) \<noteq> -1" and dig: "\<forall>c\<in>set s. digit c"
    by (simp_all add: seq_bad_word)
  have walk: "fst (seq_walk t s 0 False) = (if live s t then Some s else None)"
    by (rule seq_walk_plain [OF dig I(1)])
  show ?thesis
  proof (cases "class_at s t")
    case None
    with bad I(1) walk show ?thesis
      by (auto simp: seq_get_name_def name_at_eq class_at_subtree)
  next
    case (Some c)
    from cls_ok_class [OF I(4) occ_class_at [OF Some]] obtain a x where
      "strs st a = Some x" "class_str c st = Some (a, x)" by metis
    with Some bad I(1) walk class_at_live [OF Some] show ?thesis
      by (simp add: seq_get_name_def name_at_eq class_at_subtree)
  qed
qed

end
