(* ===== verification/Seq_Equiv.thy ===== *)
theory Seq_Equiv
  imports Seq_Names
begin

text \<open>
  \<open>seq_equiv\<close>: two words become equivalent. The classes of the two words, with all their
  words, become one class; its name is the common name when the two are equal and the
  concatenation otherwise. When both words have a class and the names are equal, the string
  of the second class is left allocated with no pointer to it.
\<close>

section \<open>What a merge means\<close>

definition merged_name :: "string option \<Rightarrow> string option \<Rightarrow> string" where
  "merged_name n1 n2 =
     (let x1 = (case n1 of None \<Rightarrow> [] | Some x \<Rightarrow> x);
          x2 = (case n2 of None \<Rightarrow> [] | Some x \<Rightarrow> x)
      in if x1 = x2 then x1 else x1 @ x2)"

definition in_merge :: "seq \<Rightarrow> string \<Rightarrow> string \<Rightarrow> string \<Rightarrow> bool" where
  "in_merge t s1 s2 w \<longleftrightarrow> same_class t s1 w \<or> same_class t s2 w"

definition merged :: "seq \<Rightarrow> store \<Rightarrow> seq \<Rightarrow> store \<Rightarrow> string \<Rightarrow> string \<Rightarrow> bool" where
  "merged t st t' st' s1 s2 \<longleftrightarrow>
     (\<forall>u v. same_class t' u v \<longleftrightarrow>
        same_class t u v \<or> (in_merge t s1 s2 u \<and> in_merge t s1 s2 v)) \<and>
     (\<forall>w. name_at w t' st' =
        (if in_merge t s1 s2 w then Some (merged_name (name_at s1 t st) (name_at s2 t st))
         else name_at w t st))"

text \<open>The classes after a merge, seen from the words, are enough.\<close>

lemma mergedI:
  assumes cls: "\<And>w. class_at w t' = (if in_merge t s1 s2 w then Some c else class_at w t)"
    and own: "\<And>w. class_at w t = Some c \<Longrightarrow> in_merge t s1 s2 w"
    and name: "class_str c st' = Some (a, merged_name (name_at s1 t st) (name_at s2 t st))"
    and rest: "\<And>w d. class_at w t = Some d \<Longrightarrow> \<not> in_merge t s1 s2 w \<Longrightarrow> class_str d st' = class_str d st"
  shows "merged t st t' st' s1 s2"
  unfolding merged_def
proof (intro conjI allI)
  fix u v
  have closed: "in_merge t s1 s2 v" if "in_merge t s1 s2 u" "same_class t u v" for u v
    using that by (auto simp: in_merge_def same_class_def)
  have sym: "same_class t u v \<Longrightarrow> same_class t v u" for u v
    by (simp add: same_class_def) metis
  show "same_class t' u v \<longleftrightarrow> same_class t u v \<or> (in_merge t s1 s2 u \<and> in_merge t s1 s2 v)"
  proof (cases "in_merge t s1 s2 u"; cases "in_merge t s1 s2 v")
    assume "in_merge t s1 s2 u" "\<not> in_merge t s1 s2 v"
    with closed own cls show ?thesis by (auto simp: same_class_def)
  next
    assume "\<not> in_merge t s1 s2 u" "in_merge t s1 s2 v"
    with closed [OF _ sym] own cls show ?thesis by (auto simp: same_class_def)
  qed (auto simp: same_class_def cls)
next
  fix w
  show "name_at w t' st' = (if in_merge t s1 s2 w
      then Some (merged_name (name_at s1 t st) (name_at s2 t st)) else name_at w t st)"
    using rest [of w] name by (auto simp: name_at_eq cls split: option.split)
qed

section \<open>The two class changes of a merge\<close>

lemma merge_classes:
  assumes "c1 \<noteq> c2" "c \<noteq> c1" "c \<noteq> c2" "n1 > 0" "n2 > 0"
  shows "(moved c2 c n2 (moved c1 c n1 (cs(c \<mapsto> \<lparr>counter = 0, str = sa\<rparr>))))(c1 := None, c2 := None)
    = (cs(c1 := None, c2 := None))(c \<mapsto> \<lparr>counter = int (n1 + n2), str = sa\<rparr>)"
  using assms by (auto simp: moved_def fun_eq_iff)

lemma occ_merge:
  assumes "c1 \<noteq> c2" "c \<noteq> c1" "c \<noteq> c2" "occ c t = 0"
  shows "(\<lambda>x. occ x (subst_class c2 c (subst_class c1 c t))) =
    ((\<lambda>x. occ x t)(c1 := 0, c2 := 0))(c := occ c1 t + occ c2 t)"
  using assms by (auto simp: fun_eq_iff)

lemma class_at_merge:
  assumes "c1 \<noteq> c2" "c \<noteq> c1" "c \<noteq> c2" "class_at s1 t = Some c1" "class_at s2 t = Some c2"
  shows "class_at w (subst_class c2 c (subst_class c1 c t)) =
    (if in_merge t s1 s2 w then Some c else class_at w t)"
  using assms by (auto simp: in_merge_def same_class_def)

lemma class_changes:
  assumes "c1 \<noteq> c2" "c \<noteq> c1" "c \<noteq> c2"
    and "classes st c = Some \<lparr>counter = i, str = sa\<rparr>" and "classes st c1 \<noteq> None" "classes st c2 \<noteq> None"
  shows "do {
      st2 \<leftarrow> set_counter c 0 st;
      (p1, st3) \<leftarrow> class_change t c1 c st2;
      (p2, st4) \<leftarrow> class_change p1 c2 c st3;
      f p2 st4
    } = f (subst_class c2 c (subst_class c1 c t))
          (st\<lparr>classes := moved c2 c (occ c2 t) (moved c1 c (occ c1 t)
             ((classes st)(c \<mapsto> \<lparr>counter = 0, str = sa\<rparr>)))\<rparr>)"
proof -
  let ?st2 = "st\<lparr>classes := (classes st)(c \<mapsto> \<lparr>counter = 0, str = sa\<rparr>)\<rparr>"
  have 0: "set_counter c 0 st = Some ?st2"
    using assms(4) by (simp add: set_counter_def)
  let ?cs3 = "moved c1 c (occ c1 t) ((classes st)(c \<mapsto> \<lparr>counter = 0, str = sa\<rparr>))"
  have 1: "class_change t c1 c ?st2 = Some (subst_class c1 c t, st\<lparr>classes := ?cs3\<rparr>)"
    using assms by (subst class_change_ok) (auto simp del: not_None_eq)
  have 2: "class_change (subst_class c1 c t) c2 c (st\<lparr>classes := ?cs3\<rparr>)
      = Some (subst_class c2 c (subst_class c1 c t),
          st\<lparr>classes := moved c2 c (occ c2 t) ?cs3\<rparr>)"
    using assms by (subst class_change_ok) (auto simp del: not_None_eq)
  show ?thesis by (simp add: 0 1 2)
qed

section \<open>The branches of \<open>seq_equiv\<close>\<close>

text \<open>
  The outcome of a branch that runs the merge: an allocation failure changes nothing, and
  otherwise the classes are merged, with the strings \<open>lost\<close> left without an owner.
\<close>

definition equiv_outcome ::
    "addr set \<Rightarrow> seq \<Rightarrow> store \<Rightarrow> string \<Rightarrow> string \<Rightarrow> (int \<times> seq \<times> store) option \<Rightarrow> bool" where
  "equiv_outcome lost t st s1 s2 res \<longleftrightarrow>
     (\<exists>r t' st'. res = Some (r, t', st') \<and> kept t st t' st' \<and>
        (if r = -1 then unchanged t st t' st' \<and> errno st' = ENOMEM \<and> False \<in> set (mallocs st)
         else r = 1 \<and> merged t st t' st' s1 s2 \<and> leaked_strs st' = leaked_strs st \<union> lost))"

lemma equiv_outcome_fail:
  assumes "seq_inv t st" and "unchanged t st t st'" and "errno st' = ENOMEM"
    and "False \<in> set (mallocs st)"
  shows "equiv_outcome lost t st s1 s2 (Some (-1, t, st'))"
  using unchanged_kept [OF assms(1,2)] assms(2-4) by (simp add: equiv_outcome_def)

lemma in_merge_share:
  assumes "class_at h t = None" and "class_at s t = Some c"
  shows "same_class t h w \<or> same_class t s w \<longleftrightarrow> w = h \<or> class_at w t = Some c"
  using assms by (auto simp: same_class_def)

lemma share_class_ok:
  assumes inv: "seq_inv t st" and h: "live h t" "class_at h t = None"
    and c: "class_at s t = Some c" and sides: "s1 = h \<and> s2 = s \<or> s1 = s \<and> s2 = h"
  shows "equiv_outcome {} t st s1 s2 (share_class h c t st)"
proof -
  note I = seq_invD [OF inv]
  obtain k a x where k: "classes st c = Some k" "counter k = int (occ c t)"
      "class_str c st = Some (a, x)"
    using cls_ok_class [OF I(4) occ_class_at [OF c]] by metis
  let ?t' = "modify_at h (set_class (Some c)) t"
  let ?st' = "st\<lparr>classes := (classes st)(c \<mapsto> k\<lparr>counter := int (occ c t + 1)\<rparr>)\<rparr>"
  have run: "share_class h c t st = Some (1, ?t', ?st')"
    using k by (simp add: share_class_def set_counter_def add.commute)
  have "(\<lambda>y. occ y ?t') = (\<lambda>y. occ y t)(c := occ c t + 1)"
    by (auto simp: set_class_occ [OF h])
  then have "cls_ok (\<lambda>y. occ y ?t') ?st'"
    using cls_ok_counter [OF I(4) k(1), of "occ c t + 1"] by simp
  then have "kept t st ?t' ?st'"
    using I h k(1) by (auto simp: kept_def seq_inv_def set_class_distinct set_class_addrs
        set_class_NoNode set_class_at store_fresh_def)
  moreover have "merged t st ?t' ?st' s1 s2"
  proof (rule mergedI)
    have in_m: "in_merge t s1 s2 w \<longleftrightarrow> w = h \<or> class_at w t = Some c" for w
      using sides in_merge_share [OF h(2) c, of w] by (auto simp: in_merge_def)
    fix w
    show "class_at w ?t' = (if in_merge t s1 s2 w then Some c else class_at w t)"
      using h(2) c by (auto simp: set_class_at [OF h(1)] in_m)
    show "class_at w t = Some c \<Longrightarrow> in_merge t s1 s2 w" by (simp add: in_m)
    have "merged_name (name_at s1 t st) (name_at s2 t st) = x"
      using sides h(2) c k(3) by (auto simp: merged_name_def name_at_eq)
    then show "class_str c ?st' = Some (a, merged_name (name_at s1 t st) (name_at s2 t st))"
      using k(3) class_str_counter [OF k(1)] by simp
    show "class_str d ?st' = class_str d st" for d
      by (rule class_str_counter [OF k(1)])
  qed
  moreover have "leaked_strs ?st' = leaked_strs st"
    using owned_counter [OF k(1)] by (simp add: leaked_strs_def)
  ultimately show ?thesis using run by (simp add: equiv_outcome_def)
qed

lemma equiv_fresh_ok:
  assumes inv: "seq_inv t st" and h: "live s1 t" "live s2 t" "s1 \<noteq> s2"
    and none: "class_at s1 t = None" "class_at s2 t = None"
  shows "equiv_outcome {} t st s1 s2 (equiv_fresh s1 s2 t st)"
proof (cases rule: malloc_cases [of st])
  case (fail ms)
  then show ?thesis
    by (simp add: equiv_fresh_def) (rule equiv_outcome_fail [OF inv], auto simp: unchanged_def)
next
  note I = seq_invD [OF inv]
  case (ok ms)
  let ?a = "next_addr st" and ?c = "Suc (next_addr st)"
  let ?st1 = "st\<lparr>next_addr := ?c, mallocs := ms, strs := (strs st)(?a \<mapsto> [])\<rparr>"
  have a: "strs st ?a = None" using fresh_addr(3) [OF I(5)] by simp
  then have undo: "(strs st)(?a := None) = strs st" by auto
  show ?thesis
  proof (cases rule: malloc_cases [of ?st1])
    case (fail ms')
    have "equiv_fresh s1 s2 t st =
        Some (-1, t, st\<lparr>next_addr := ?c, mallocs := ms', errno := ENOMEM\<rparr>)"
      using ok(1) fail(1) by (simp add: equiv_fresh_def class_new_def free_str_def undo)
    moreover have "unchanged t st t (st\<lparr>next_addr := ?c, mallocs := ms', errno := ENOMEM\<rparr>)"
      by (simp add: unchanged_def)
    ultimately show ?thesis
      using equiv_outcome_fail [OF inv] fail(2) ok(2) by (auto simp: subset_iff)
  next
    case ok2: (ok ms')
    let ?t1 = "modify_at s1 (set_class (Some ?c)) t"
    let ?t' = "modify_at s2 (set_class (Some ?c)) ?t1"
    let ?st3 = "st\<lparr>strs := (strs st)(?a \<mapsto> []),
        classes := (classes st)(?c \<mapsto> \<lparr>counter = int 2, str = Some ?a\<rparr>)\<rparr>"
    let ?st' = "?st3\<lparr>next_addr := Suc ?c, mallocs := ms'\<rparr>"
    have run: "equiv_fresh s1 s2 t st = Some (1, ?t', ?st')"
      using ok(1) ok2(1) by (simp add: equiv_fresh_def class_new_def set_counter_def)
    have c0: "occ ?c t = 0" using fresh_occ [OF inv] by simp
    have no_c: "class_at w t \<noteq> Some ?c" for w using occ_class_at [of w t ?c] c0 by auto
    note add = cls_ok_add [OF I(4) c0 fresh_not_owned [OF I(4,5) order_refl], of 2, where x = "[]"]
    have same: "classes ?st' = classes ?st3" "strs ?st' = strs ?st3" by simp_all
    have h2: "live s2 ?t1" "class_at s2 ?t1 = None"
      using h none by (simp_all add: set_class_at [OF h(1)])
    have "(\<lambda>y. occ y ?t') = (\<lambda>y. occ y t)(?c := 2)"
      using c0 by (auto simp: set_class_occ [OF h2] set_class_occ [OF h(1) none(1)])
    then have "cls_ok (\<lambda>y. occ y ?t') ?st'"
      using add(1) cls_ok_cong [OF same] by simp
    then have "kept t st ?t' ?st'"
      using I h h2 by (auto simp: kept_def seq_inv_def set_class_distinct set_class_addrs
          set_class_NoNode set_class_at store_fresh_def)
    moreover have "merged t st ?t' ?st' s1 s2"
    proof (rule mergedI)
      fix w d
      show "class_at w ?t' = (if in_merge t s1 s2 w then Some ?c else class_at w t)"
      proof -
        have "in_merge t s1 s2 w \<longleftrightarrow> w = s1 \<or> w = s2"
          using none by (auto simp: in_merge_def same_class_def)
        then show ?thesis by (simp add: set_class_at [OF h2(1)] set_class_at [OF h(1)])
      qed
      show "class_at w t = Some ?c \<Longrightarrow> in_merge t s1 s2 w" using no_c by simp
      show "class_str ?c ?st' = Some (?a, merged_name (name_at s1 t st) (name_at s2 t st))"
        using none add(3) [of ?c] class_str_cong [OF same, of ?c]
        by (simp add: merged_name_def name_at_eq)
      show "class_at w t = Some d \<Longrightarrow> class_str d ?st' = class_str d st"
        using no_c [of w] add(3) [of d] class_str_cong [OF same, of d] by auto
    qed
    moreover have "leaked_strs ?st' = leaked_strs st"
    proof -
      have "?a \<notin> leaked_strs st" using a by (auto simp: leaked_strs_def)
      then show ?thesis
        using add(2) leaked_cong [OF same] by (metis Diff_empty Diff_insert0 zero_less_numeral)
    qed
    ultimately show ?thesis using run by (simp add: equiv_outcome_def)
  qed
qed

text \<open>The shape of the store after a merge of two classes into the new class \<open>c\<close>.\<close>

lemma merged_two:
  assumes inv: "seq_inv t st" and c12: "class_at s1 t = Some c1" "class_at s2 t = Some c2" "c1 \<noteq> c2"
    and c: "occ c t = 0"
    and ok': "cls_ok ((\<lambda>x. occ x t)(c1 := 0, c2 := 0, c := occ c1 t + occ c2 t)) st'"
    and name: "class_str c st' = Some (a, merged_name (name_at s1 t st) (name_at s2 t st))"
    and rest: "\<And>d. d \<noteq> c1 \<Longrightarrow> d \<noteq> c2 \<Longrightarrow> d \<noteq> c \<Longrightarrow> class_str d st' = class_str d st"
    and nodes: "nodes st' = nodes st" and fresh: "store_fresh st'"
  shows "kept t st (subst_class c2 c (subst_class c1 c t)) st' \<and>
    merged t st (subst_class c2 c (subst_class c1 c t)) st' s1 s2"
proof -
  note I = seq_invD [OF inv]
  have ne: "c \<noteq> c1" "c \<noteq> c2"
    using occ_class_at [OF c12(1)] occ_class_at [OF c12(2)] c by auto
  have no_c: "class_at w t \<noteq> Some c" for w using occ_class_at [of w t c] c by auto
  let ?t' = "subst_class c2 c (subst_class c1 c t)"
  have "cls_ok (\<lambda>x. occ x ?t') st'"
    using ok' by (simp add: occ_merge [OF c12(3) ne c])
  then have "kept t st ?t' st'"
    using I nodes fresh by (simp add: kept_def seq_inv_def distinct_addrs_def)
  moreover have "merged t st ?t' st' s1 s2"
  proof (rule mergedI)
    fix w d
    show "class_at w ?t' = (if in_merge t s1 s2 w then Some c else class_at w t)"
      by (rule class_at_merge [OF c12(3) ne c12(1,2)])
    show "class_at w t = Some c \<Longrightarrow> in_merge t s1 s2 w" using no_c by simp
    show "class_str c st' = Some (a, merged_name (name_at s1 t st) (name_at s2 t st))" by (rule name)
    assume "class_at w t = Some d" "\<not> in_merge t s1 s2 w"
    with c12 no_c [of w] show "class_str d st' = class_str d st"
      by (intro rest) (auto simp: in_merge_def same_class_def)
  qed
  ultimately show ?thesis ..
qed

lemma two_classes:
  assumes "seq_inv t st" and "class_at s1 t = Some c1" "class_at s2 t = Some c2" "c1 \<noteq> c2"
  obtains k1 a1 x1 k2 a2 x2 where
    "classes st c1 = Some k1" "str k1 = Some a1" "strs st a1 = Some x1"
    "classes st c2 = Some k2" "str k2 = Some a2" "strs st a2 = Some x2" "a1 \<noteq> a2"
    "class_str c1 st = Some (a1, x1)" "class_str c2 st = Some (a2, x2)"
    "name_at s1 t st = Some x1" "name_at s2 t st = Some x2"
proof -
  note ok = seq_invD(4) [OF assms(1)]
  obtain k1 a1 x1 where 1: "classes st c1 = Some k1" "str k1 = Some a1" "strs st a1 = Some x1"
      "class_str c1 st = Some (a1, x1)"
    using cls_ok_class [OF ok occ_class_at [OF assms(2)]] by metis
  obtain k2 a2 x2 where 2: "classes st c2 = Some k2" "str k2 = Some a2" "strs st a2 = Some x2"
      "class_str c2 st = Some (a2, x2)"
    using cls_ok_class [OF ok occ_class_at [OF assms(3)]] by metis
  have "a1 \<noteq> a2" using cls_okD(4) [OF ok 1(1) 2(1)] 1(2) 2(2) assms(4) by auto
  with 1 2 assms(2,3) that show thesis by (simp add: name_at_eq)
qed

lemma equiv_same_name_ok:
  assumes inv: "seq_inv t st" and c12: "class_at s1 t = Some c1" "class_at s2 t = Some c2" "c1 \<noteq> c2"
    and s1: "class_str c1 st = Some (a1, x)" and s2: "class_str c2 st = Some (a2, x)"
  shows "equiv_outcome {a2} t st s1 s2 (equiv_same_name c1 c2 a1 t st)"
proof -
  note I = seq_invD [OF inv]
  obtain k1 k2 where k: "classes st c1 = Some k1" "str k1 = Some a1" "strs st a1 = Some x"
    "classes st c2 = Some k2" "str k2 = Some a2" "a1 \<noteq> a2"
    "name_at s1 t st = Some x" "name_at s2 t st = Some x"
    using two_classes [OF inv c12] s1 s2 by (metis option.inject prod.inject)
  let ?c = "next_addr st"
  have c0: "occ ?c t = 0" using fresh_occ [OF inv] by simp
  have ne: "?c \<noteq> c1" "?c \<noteq> c2" using k fresh_addr(2) [OF I(5), of ?c] by auto
  have n: "occ c1 t > 0" "occ c2 t > 0" using occ_class_at c12 by blast+
  show ?thesis
  proof (cases rule: malloc_cases [of st])
    case (fail ms)
    then show ?thesis
      by (simp add: equiv_same_name_def class_new_def)
        (rule equiv_outcome_fail [OF inv], auto simp: unchanged_def)
  next
    case (ok ms)
    let ?n = "occ c1 t + occ c2 t"
    let ?st1 = "st\<lparr>classes := (classes st)(c2 := None)\<rparr>"
    let ?st2 = "?st1\<lparr>classes := (classes ?st1)(c1 := None)\<rparr>"
    let ?st3 = "?st2\<lparr>strs := (strs ?st2)(a1 \<mapsto> x),
        classes := (classes ?st2)(?c \<mapsto> \<lparr>counter = int ?n, str = Some a1\<rparr>)\<rparr>"
    let ?st' = "st\<lparr>next_addr := Suc ?c, mallocs := ms, classes := (classes st)
        (c1 := None, c2 := None, ?c \<mapsto> \<lparr>counter = int ?n, str = Some a1\<rparr>)\<rparr>"
    let ?t' = "subst_class c2 ?c (subst_class c1 ?c t)"
    note f1 = cls_ok_forget [OF I(4) k(4,5)]
    have k1: "classes ?st1 c1 = Some k1" using k(1) c12(3) by simp
    note f2 = cls_ok_forget [OF f1(1) k1 k(2)]
    have own: "a1 \<notin> owned ?st2" using f2(4) by simp
    have z: "((\<lambda>y. occ y t)(c2 := 0, c1 := 0)) ?c = 0" using ne c0 by simp
    note add = cls_ok_add [OF f2(1) z own, of ?n, where x = x]
    have same: "classes ?st' = classes ?st3" "strs ?st' = strs ?st3"
      using c12(3) k(3) by (auto simp: fun_eq_iff)
    have run: "equiv_same_name c1 c2 a1 t st = Some (1, ?t', ?st')"
    proof -
      let ?sta = "st\<lparr>next_addr := Suc ?c, mallocs := ms,
          classes := (classes st)(?c \<mapsto> \<lparr>counter = 1, str = Some a1\<rparr>)\<rparr>"
      have new: "class_new a1 st = (Some ?c, ?sta)" using ok(1) by (simp add: class_new_def)
      have "classes ?sta ?c = Some \<lparr>counter = 1, str = Some a1\<rparr>"
        "classes ?sta c1 \<noteq> None" "classes ?sta c2 \<noteq> None" using k ne by auto
      note ch = class_changes [OF c12(3) ne this]
      have fin: "(classes st)(c1 := None, c2 := None, ?c \<mapsto> \<lparr>counter = int ?n, str = Some a1\<rparr>) =
          (moved c2 ?c (occ c2 t) (moved c1 ?c (occ c1 t)
            ((classes ?sta)(?c \<mapsto> \<lparr>counter = 0, str = Some a1\<rparr>))))(c1 := None, c2 := None)"
        using merge_classes [OF c12(3) ne n, of "classes st" "Some a1"] by simp
      show ?thesis
        unfolding equiv_same_name_def new prod.case option.case ch fin
        using k ne c12(3) by (simp add: free_class_def)
    qed
    have "(\<lambda>y. occ y t)(c1 := 0, c2 := 0, ?c := ?n) = ((\<lambda>y. occ y t)(c2 := 0, c1 := 0))(?c := ?n)"
      by auto
    then have okc: "cls_ok ((\<lambda>y. occ y t)(c1 := 0, c2 := 0, ?c := ?n)) ?st'"
      using add(1) n cls_ok_cong [OF same] by (metis add_gr_0)
    have "class_str ?c ?st' = Some (a1, merged_name (name_at s1 t st) (name_at s2 t st))"
      using add(3) [of ?c] n class_str_cong [OF same, of ?c] k(7,8) by (simp add: merged_name_def)
    moreover have "class_str d ?st' = class_str d st" if "d \<noteq> c1" "d \<noteq> c2" "d \<noteq> ?c" for d
      using add(3) [of d] n f2(3) [of d] f1(3) [of d] that class_str_cong [OF same, of d] by simp
    moreover have "store_fresh ?st'"
      using I(5) k by (auto simp: store_fresh_def less_Suc_eq)
    ultimately have "kept t st ?t' ?st' \<and> merged t st ?t' ?st' s1 s2"
      using okc by (intro merged_two [OF inv c12 c0]) auto
    moreover have "leaked_strs ?st' = leaked_strs st \<union> {a2}"
    proof -
      have "leaked_strs ?st' = insert a1 (insert a2 (leaked_strs st)) - {a1}"
        using add(2) n f2(2) f1(2) leaked_cong [OF same] by simp
      moreover have "a1 \<notin> leaked_strs st"
        using k by (auto simp: leaked_strs_def owned_def)
      ultimately show ?thesis using k(6) by auto
    qed
    ultimately show ?thesis using run by (simp add: equiv_outcome_def)
  qed
qed

lemma equiv_two_names_ok:
  assumes inv: "seq_inv t st" and c12: "class_at s1 t = Some c1" "class_at s2 t = Some c2" "c1 \<noteq> c2"
    and x1: "class_str c1 st = Some (a1, x1)" and x2: "class_str c2 st = Some (a2, x2)"
    and neq: "x1 \<noteq> x2"
  shows "equiv_outcome {} t st s1 s2 (equiv_two_names c1 c2 a1 a2 (x1 @ x2) t st)"
proof -
  note I = seq_invD [OF inv]
  obtain k1 k2 where k: "classes st c1 = Some k1" "str k1 = Some a1" "strs st a1 = Some x1"
    "classes st c2 = Some k2" "str k2 = Some a2" "strs st a2 = Some x2" "a1 \<noteq> a2"
    "name_at s1 t st = Some x1" "name_at s2 t st = Some x2"
    using two_classes [OF inv c12] x1 x2 by (metis option.inject prod.inject)
  let ?s = "next_addr st" and ?c = "Suc (next_addr st)"
  have c0: "occ ?c t = 0" using fresh_occ [OF inv] by simp
  have ne: "?c \<noteq> c1" "?c \<noteq> c2" using k fresh_addr(2) [OF I(5), of ?c] by auto
  have sn: "strs st ?s = None" using fresh_addr(3) [OF I(5), of ?s] by simp
  then have sa: "?s \<noteq> a1" "?s \<noteq> a2" and undo: "(strs st)(?s := None) = strs st" using k by auto
  have n: "occ c1 t > 0" "occ c2 t > 0" using occ_class_at c12 by blast+
  show ?thesis
  proof (cases rule: malloc_cases [of st])
    case (fail ms)
    then show ?thesis
      by (simp add: equiv_two_names_def)
        (rule equiv_outcome_fail [OF inv], auto simp: unchanged_def)
  next
    case (ok ms)
    let ?st0 = "st\<lparr>next_addr := ?c, mallocs := ms, strs := (strs st)(?s \<mapsto> x1 @ x2)\<rparr>"
    show ?thesis
    proof (cases rule: malloc_cases [of ?st0])
      case (fail ms')
      have "equiv_two_names c1 c2 a1 a2 (x1 @ x2) t st =
          Some (-1, t, st\<lparr>next_addr := ?c, mallocs := ms', errno := ENOMEM\<rparr>)"
        using ok(1) fail(1) by (simp add: equiv_two_names_def class_new_def free_str_def undo)
      moreover have "unchanged t st t (st\<lparr>next_addr := ?c, mallocs := ms', errno := ENOMEM\<rparr>)"
        by (simp add: unchanged_def)
      ultimately show ?thesis
        using equiv_outcome_fail [OF inv] fail(2) ok(2) by (auto simp: subset_iff)
    next
      case ok2: (ok ms')
      let ?n = "occ c1 t + occ c2 t"
      let ?st1 = "st\<lparr>strs := (strs st)(a2 := None), classes := (classes st)(c2 := None)\<rparr>"
      let ?st2 = "?st1\<lparr>strs := (strs ?st1)(a1 := None), classes := (classes ?st1)(c1 := None)\<rparr>"
      let ?st3 = "?st2\<lparr>strs := (strs ?st2)(?s \<mapsto> x1 @ x2),
          classes := (classes ?st2)(?c \<mapsto> \<lparr>counter = int ?n, str = Some ?s\<rparr>)\<rparr>"
      let ?st' = "st\<lparr>next_addr := Suc ?c, mallocs := ms',
          strs := (strs st)(?s \<mapsto> x1 @ x2, a1 := None, a2 := None),
          classes := (classes st)(c1 := None, c2 := None, ?c \<mapsto> \<lparr>counter = int ?n, str = Some ?s\<rparr>)\<rparr>"
      let ?t' = "subst_class c2 ?c (subst_class c1 ?c t)"
      note d1 = cls_ok_drop [OF I(4) k(4,5)]
      have k1: "classes ?st1 c1 = Some k1" using k(1) c12(3) by simp
      note d2 = cls_ok_drop [OF d1(1) k1 k(2)]
      have own: "?s \<notin> owned ?st2"
        using owned_allocated [OF d2(1), of ?s] sn sa by (auto split: if_splits)
      have z: "((\<lambda>y. occ y t)(c2 := 0, c1 := 0)) ?c = 0" using ne c0 by simp
      note add = cls_ok_add [OF d2(1) z own, of ?n, where x = "x1 @ x2"]
      have same: "classes ?st' = classes ?st3" "strs ?st' = strs ?st3"
        using c12(3) sa k(7) by (auto simp: fun_eq_iff)
      have run: "equiv_two_names c1 c2 a1 a2 (x1 @ x2) t st = Some (1, ?t', ?st')"
      proof -
        let ?sta = "?st0\<lparr>next_addr := Suc ?c, mallocs := ms',
            classes := (classes st)(?c \<mapsto> \<lparr>counter = 1, str = Some ?s\<rparr>)\<rparr>"
        have m: "malloc st = (Some ?s, st\<lparr>next_addr := ?c, mallocs := ms\<rparr>)" by (rule ok(1))
        have new: "class_new ?s (st\<lparr>next_addr := ?c, mallocs := ms,
            strs := (strs (st\<lparr>next_addr := ?c, mallocs := ms\<rparr>))(?s \<mapsto> x1 @ x2)\<rparr>) = (Some ?c, ?sta)"
          using ok2(1) by (simp add: class_new_def)
        have "classes ?sta ?c = Some \<lparr>counter = 1, str = Some ?s\<rparr>"
          "classes ?sta c1 \<noteq> None" "classes ?sta c2 \<noteq> None" using k ne by auto
        note ch = class_changes [OF c12(3) ne this]
        have fin: "(classes st)(c1 := None, c2 := None, ?c \<mapsto> \<lparr>counter = int ?n, str = Some ?s\<rparr>) =
            (moved c2 ?c (occ c2 t) (moved c1 ?c (occ c1 t)
              ((classes ?sta)(?c \<mapsto> \<lparr>counter = 0, str = Some ?s\<rparr>))))(c1 := None, c2 := None)"
          using merge_classes [OF c12(3) ne n, of "classes st" "Some ?s"] by simp
        show ?thesis
          unfolding equiv_two_names_def m prod.case option.case new ch fin
          using k ne c12(3) sa by (simp add: free_class_def free_str_def)
      qed
      have "(\<lambda>y. occ y t)(c1 := 0, c2 := 0, ?c := ?n) = ((\<lambda>y. occ y t)(c2 := 0, c1 := 0))(?c := ?n)"
        by auto
      then have okc: "cls_ok ((\<lambda>y. occ y t)(c1 := 0, c2 := 0, ?c := ?n)) ?st'"
        using add(1) n cls_ok_cong [OF same] by (metis add_gr_0)
      have "class_str ?c ?st' = Some (?s, merged_name (name_at s1 t st) (name_at s2 t st))"
        using add(3) [of ?c] n class_str_cong [OF same, of ?c] k(8,9) neq by (simp add: merged_name_def)
      moreover have "class_str d ?st' = class_str d st" if "d \<noteq> c1" "d \<noteq> c2" "d \<noteq> ?c" for d
        using add(3) [of d] n d2(3) [of d] d1(3) [of d] that class_str_cong [OF same, of d] by simp
      moreover have "store_fresh ?st'"
        using I(5) by (auto simp: store_fresh_def less_Suc_eq)
      ultimately have "kept t st ?t' ?st' \<and> merged t st ?t' ?st' s1 s2"
        using okc by (intro merged_two [OF inv c12 c0]) auto
      moreover have "leaked_strs ?st' = leaked_strs st"
      proof -
        have "?s \<notin> leaked_strs st" using sn by (auto simp: leaked_strs_def)
        then show ?thesis
          using add(2) n d2(2) d1(2) leaked_cong [OF same] by simp
      qed
      ultimately show ?thesis using run by (simp add: equiv_outcome_def)
    qed
  qed
qed

section \<open>\<open>seq_equiv\<close>\<close>

text \<open>The string whose last pointer a merge of two equally named classes overwrites.\<close>

definition lost_str :: "seq \<Rightarrow> store \<Rightarrow> string \<Rightarrow> string \<Rightarrow> addr set" where
  "lost_str t st s1 s2 =
     (case (name_at s1 t st, name_at s2 t st, class_at s2 t) of
        (Some x1, Some x2, Some c2) \<Rightarrow>
          (if x1 = x2 then set_option (map_option fst (class_str c2 st)) else {})
      | _ \<Rightarrow> {})"

lemma seq_equiv_ok:
  assumes inv: "seq_inv t st" and s1: "word (Some s1)" and s2: "word (Some s2)"
  shows "if live s1 t \<and> live s2 t \<and> \<not> same_class t s1 s2
    then equiv_outcome (lost_str t st s1 s2) t st s1 s2 (seq_equiv t (Some s1) (Some s2) st)
    else seq_equiv t (Some s1) (Some s2) st = Some (0, t, st)"
proof -
  note I = seq_invD [OF inv]
  from s1 s2 have bad: "seq_bad (Some s1) \<noteq> -1" "seq_bad (Some s2) \<noteq> -1"
    and dig: "\<forall>c\<in>set s1. digit c" "\<forall>c\<in>set s2. digit c"
    by (simp_all add: seq_bad_word)
  note walk = seq_walk_plain [OF dig(1) I(1)] seq_walk_plain [OF dig(2) I(1)]
  note eq = seq_equiv_def [of t "Some s1" "Some s2" st]
  show ?thesis
  proof (cases "s1 = s2 \<or> \<not> live s1 t \<or> \<not> live s2 t")
    case True
    then have "seq_equiv t (Some s1) (Some s2) st = Some (0, t, st)"
      using bad I(1) by (auto simp: eq walk)
    with True show ?thesis by (auto simp: same_class_def)
  next
    case False
    then have lv: "live s1 t" "live s2 t" "s1 \<noteq> s2" by auto
    consider (nn) "class_at s1 t = None" "class_at s2 t = None"
      | (n2) c where "class_at s1 t = None" "class_at s2 t = Some c"
      | (n1) c where "class_at s1 t = Some c" "class_at s2 t = None"
      | (eq) c where "class_at s1 t = Some c" "class_at s2 t = Some c"
      | (two) c1 c2 where "class_at s1 t = Some c1" "class_at s2 t = Some c2" "c1 \<noteq> c2"
      by (cases "class_at s1 t"; cases "class_at s2 t") auto
    then show ?thesis
    proof cases
      case nn
      then have "lost_str t st s1 s2 = {}" by (simp add: lost_str_def name_at_eq)
      with nn equiv_fresh_ok [OF inv lv nn] lv bad I(1) show ?thesis
        by (simp add: eq class_at_subtree walk same_class_def)
    next
      case n2
      then have "lost_str t st s1 s2 = {}" by (simp add: lost_str_def name_at_eq)
      with n2 share_class_ok [OF inv lv(1) n2(1,2), of s1 s2] lv bad I(1) show ?thesis
        by (simp add: eq class_at_subtree walk same_class_def)
    next
      case n1
      then have "lost_str t st s1 s2 = {}"
        by (auto simp: lost_str_def name_at_eq split: option.split)
      with n1 share_class_ok [OF inv lv(2) n1(2,1), of s1 s2] lv bad I(1) show ?thesis
        by (simp add: eq class_at_subtree walk same_class_def)
    next
      case eq
      then show ?thesis using lv bad I(1)
        by (simp add: seq_equiv_def class_at_subtree walk same_class_def)
    next
      case two
      obtain a1 x1 a2 x2 where cs: "class_str c1 st = Some (a1, x1)" "class_str c2 st = Some (a2, x2)"
          "name_at s1 t st = Some x1" "name_at s2 t st = Some x2"
        using two_classes [OF inv two] by metis
      then have lost: "lost_str t st s1 s2 = (if x1 = x2 then {a2} else {})"
        using two by (simp add: lost_str_def)
      show ?thesis
      proof (cases "x1 = x2")
        case True
        with equiv_same_name_ok [OF inv two] cs lost lv two bad I(1) show ?thesis
          by (simp add: eq class_at_subtree walk same_class_def)
      next
        case False
        with equiv_two_names_ok [OF inv two] cs lost lv two bad I(1) show ?thesis
          by (simp add: eq class_at_subtree walk same_class_def)
      qed
    qed
  qed
qed

end
