(* ===== verification/Seq_Props.thy ===== *)
theory Seq_Props
  imports Seq_Equiv
begin

text \<open>
  The properties of \<open>seq.c\<close>: runs of calls of the interface, and the contract of each
  operation.
\<close>

section \<open>Runs of the interface\<close>

datatype seq_call =
    Add "string option"
  | Remove "string option"
  | Valid "string option"
  | SetName "string option" "string option"
  | GetName "string option"
  | Equiv "string option" "string option"

fun seq_exec :: "seq_call \<Rightarrow> seq \<times> store \<Rightarrow> (seq \<times> store) option" where
  "seq_exec (Add s) (t, st) = map_option snd (seq_add t s st)"
| "seq_exec (Remove s) (t, st) = map_option snd (seq_remove t s st)"
| "seq_exec (Valid s) (t, st) = Some (t, snd (seq_valid t s st))"
| "seq_exec (SetName s n) (t, st) = map_option snd (seq_set_name t s n st)"
| "seq_exec (GetName s) (t, st) = map_option (\<lambda>r. (t, snd r)) (seq_get_name t s st)"
| "seq_exec (Equiv s1 s2) (t, st) = map_option snd (seq_equiv t s1 s2 st)"

fun seq_run :: "seq_call list \<Rightarrow> seq \<times> store \<Rightarrow> (seq \<times> store) option" where
  "seq_run [] x = Some x"
| "seq_run (c # cs) x = do { y \<leftarrow> seq_exec c x; seq_run cs y }"

text \<open>An empty heap whose next allocations have the outcomes \<open>ms\<close>.\<close>

definition empty_store :: "bool list \<Rightarrow> store" where
  "empty_store ms = \<lparr>next_addr = 1, mallocs = ms, nodes = {}, classes = Map.empty,
     strs = Map.empty, errno = NoError\<rparr>"

text \<open>The strings a call leaves without an owner.\<close>

fun call_lost :: "seq_call \<Rightarrow> seq \<times> store \<Rightarrow> addr set" where
  "call_lost (Equiv (Some s1) (Some s2)) (t, st) =
     (if word (Some s1) \<and> word (Some s2) \<and> live s1 t \<and> live s2 t \<and> \<not> same_class t s1 s2
      then lost_str t st s1 s2 else {})"
| "call_lost _ _ = {}"

definition node_leak :: "seq \<Rightarrow> store \<Rightarrow> addr set" where
  "node_leak t st = nodes st - set_mset (addrs t)"

definition seq_good :: "seq \<times> store \<Rightarrow> bool" where
  "seq_good x \<longleftrightarrow> fst x = NoNode \<or> seq_inv (fst x) (snd x)"

text \<open>One call: it does not fail, it keeps the invariant, and it leaks at most \<open>call_lost\<close>.\<close>

definition call_ok :: "seq_call \<Rightarrow> seq \<times> store \<Rightarrow> bool" where
  "call_ok c x \<longleftrightarrow>
     (\<exists>t' st'. seq_exec c x = Some (t', st') \<and> seq_inv t' st' \<and>
        node_leak t' st' = node_leak (fst x) (snd x) \<and>
        leaked_strs st' \<subseteq> leaked_strs (snd x) \<union> call_lost c x)"

lemma seq_inv_errno: "seq_inv t (st\<lparr>errno := e\<rparr>) \<longleftrightarrow> seq_inv t st"
  by (simp add: seq_inv_def store_fresh_def cls_ok_def)

lemma call_ok_same:
  assumes "seq_inv t st" and "seq_exec c (t, st) = Some (t, st\<lparr>errno := e\<rparr>) \<or> seq_exec c (t, st) = Some (t, st)"
  shows "call_ok c (t, st)"
  using assms by (auto simp: call_ok_def seq_inv_errno node_leak_def leaked_strs_def owned_def)

lemma not_word_cases:
  obtains "word s" | "seq_bad s = -1"
  using seq_bad_word by blast

lemma kept_call:
  assumes "seq_exec c (t, st) = Some (t', st')" and "kept t st t' st'"
    and "leaked_strs st' \<subseteq> leaked_strs st \<union> call_lost c (t, st)"
  shows "call_ok c (t, st)"
  using assms by (auto simp: call_ok_def kept_def node_leak_def)

lemma call_ok_all:
  assumes inv: "seq_inv t st"
  shows "call_ok c (t, st)"
proof (cases c)
  case (Add s)
  show ?thesis
  proof (cases s rule: not_word_cases)
    case 1
    then obtain u where u: "s = Some u" "word (Some u)" by (auto simp: word_def)
    from seq_add_ok [OF inv u(2)] obtain r t' st' where
      "seq_add t (Some u) st = Some (r, t', st')" "seq_inv t' st'" "classes st' = classes st"
      "strs st' = strs st" "nodes st' - set_mset (addrs t') = nodes st - set_mset (addrs t)" by blast
    with Add u leaked_cong [of st' st] show ?thesis by (auto simp: call_ok_def node_leak_def)
  qed (auto simp: Add seq_add_def intro!: call_ok_same [OF inv])
next
  case (Remove s)
  show ?thesis
  proof (cases s rule: not_word_cases)
    case 1
    then obtain u where u: "s = Some u" "word (Some u)" by (auto simp: word_def)
    from seq_remove_ok [OF inv u(2)] Remove u show ?thesis
      by (auto simp: call_ok_def node_leak_def)
  qed (auto simp: Remove seq_remove_def intro!: call_ok_same [OF inv])
next
  case (Valid s)
  then show ?thesis
    by (auto simp: seq_valid_def split: option.split intro!: call_ok_same [OF inv])
next
  case (SetName s n)
  show ?thesis
  proof (cases "word s \<and> n \<noteq> None \<and> n \<noteq> Some []")
    case True
    then obtain u m where u: "s = Some u" "word (Some u)" "n = Some m" "m \<noteq> []"
      by (auto simp: word_def)
    from seq_set_name_ok [OF inv u(2,4)] obtain r t' st' where
      "seq_set_name t (Some u) (Some m) st = Some (r, t', st')" "kept t st t' st'"
      "leaked_strs st' = leaked_strs st" by blast
    with SetName u show ?thesis by (intro kept_call) auto
  next
    case False
    then show ?thesis
      by (auto simp: SetName seq_set_name_def seq_bad_word intro!: call_ok_same [OF inv])
  qed
next
  case (GetName s)
  show ?thesis
  proof (cases s rule: not_word_cases)
    case 1
    then obtain u where u: "s = Some u" "word (Some u)" by (auto simp: word_def)
    from seq_get_name_ok [OF inv u(2)] show ?thesis
      by (auto simp: GetName u split: option.splits if_splits intro!: call_ok_same [OF inv])
  qed (auto simp: GetName seq_get_name_def intro!: call_ok_same [OF inv])
next
  case (Equiv s1 s2)
  show ?thesis
  proof (cases "word s1 \<and> word s2")
    case True
    then obtain u1 u2 where u: "s1 = Some u1" "word (Some u1)" "s2 = Some u2" "word (Some u2)"
      by (auto simp: word_def)
    show ?thesis
    proof (cases "live u1 t \<and> live u2 t \<and> \<not> same_class t u1 u2")
      case True
      with seq_equiv_ok [OF inv u(2,4)]
      have "equiv_outcome (lost_str t st u1 u2) t st u1 u2 (seq_equiv t (Some u1) (Some u2) st)"
        by simp
      then obtain r t' st' where o: "seq_equiv t (Some u1) (Some u2) st = Some (r, t', st')"
          "kept t st t' st'" "r = -1 \<longrightarrow> unchanged t st t' st'"
          "r \<noteq> -1 \<longrightarrow> leaked_strs st' = leaked_strs st \<union> lost_str t st u1 u2"
        by (auto simp: equiv_outcome_def split: if_splits)
      have "leaked_strs st' \<subseteq> leaked_strs st \<union> lost_str t st u1 u2"
        using o(3,4) leaked_cong [of st' st] by (cases "r = -1") (auto simp: unchanged_def)
      with o True u show ?thesis by (intro kept_call) (auto simp: Equiv)
    next
      case False
      with seq_equiv_ok [OF inv u(2,4)] have "seq_equiv t (Some u1) (Some u2) st = Some (0, t, st)"
        by (auto split: if_splits)
      then show ?thesis by (auto simp: Equiv u intro!: call_ok_same [OF inv])
    qed
  next
    case False
    then show ?thesis
      by (auto simp: Equiv seq_equiv_def seq_bad_word intro!: call_ok_same [OF inv])
  qed
qed

lemma seq_exec_NoNode: "seq_exec c (NoNode, st) = Some (NoNode, st\<lparr>errno := EINVAL\<rparr>)"
  by (cases c) (simp_all add: seq_add_def seq_remove_def seq_valid_def seq_set_name_def
      seq_get_name_def seq_equiv_def)

lemma seq_exec_good: "seq_good x \<Longrightarrow> \<exists>y. seq_exec c x = Some y \<and> seq_good y"
proof (cases x)
  case (Pair t st)
  assume "seq_good x"
  then show ?thesis
    using call_ok_all [of t st c] seq_exec_NoNode [of c st] Pair
    by (fastforce simp: seq_good_def call_ok_def)
qed

lemma seq_run_good: "seq_good x \<Longrightarrow> \<exists>y. seq_run cs x = Some y \<and> seq_good y"
proof (induction cs arbitrary: x)
  case (Cons c cs)
  from seq_exec_good [OF Cons.prems] obtain y where "seq_exec c x = Some y" "seq_good y" by blast
  with Cons.IH show ?case by simp
qed simp

lemma seq_new_good: "seq_good (seq_new (empty_store ms))"
proof (cases rule: malloc_cases [of "empty_store ms"])
  case (ok ms')
  then show ?thesis
    by (simp add: seq_new_def seq_good_def seq_inv_def empty_store_def distinct_addrs_def
        cls_ok_def store_fresh_def)
qed (simp add: seq_new_def seq_good_def)

text \<open>Runs in which no call loses a string.\<close>

fun careful :: "seq_call list \<Rightarrow> seq \<times> store \<Rightarrow> bool" where
  "careful [] x = True"
| "careful (c # cs) x =
     (call_lost c x = {} \<and> (case seq_exec c x of None \<Rightarrow> False | Some y \<Rightarrow> careful cs y))"

definition tidy :: "seq \<times> store \<Rightarrow> bool" where
  "tidy x \<longleftrightarrow> seq_good x \<and> node_leak (fst x) (snd x) = {} \<and> leaked_strs (snd x) = {} \<and>
     (fst x = NoNode \<longrightarrow> classes (snd x) = Map.empty)"

lemma tidy_step:
  assumes "tidy x" and "call_lost c x = {}" and "seq_exec c x = Some y"
  shows "tidy y"
proof (cases x)
  case (Pair t st)
  show ?thesis
  proof (cases "t = NoNode")
    case True
    with assms Pair show ?thesis
      by (auto simp: tidy_def seq_good_def seq_exec_NoNode node_leak_def leaked_strs_def owned_def)
  next
    case False
    with assms(1) Pair have "seq_inv t st" by (simp add: tidy_def seq_good_def)
    from call_ok_all [OF this, of c] assms Pair show ?thesis
      by (auto simp: call_ok_def tidy_def seq_good_def seq_inv_def)
  qed
qed

lemma tidy_run: "tidy x \<Longrightarrow> careful cs x \<Longrightarrow> \<exists>y. seq_run cs x = Some y \<and> tidy y"
proof (induction cs arbitrary: x)
  case (Cons c cs)
  then obtain y where "seq_exec c x = Some y" "careful cs y" "call_lost c x = {}"
    by (auto split: option.splits)
  with Cons tidy_step [of x c y] show ?case by auto
qed simp

lemma tidy_new: "tidy (seq_new (empty_store ms))"
proof (cases rule: malloc_cases [of "empty_store ms"])
  case (ok ms')
  with seq_new_good [of ms] show ?thesis
    by (simp add: tidy_def seq_new_def node_leak_def leaked_strs_def empty_store_def)
next
  case (fail ms')
  with seq_new_good [of ms] show ?thesis
    by (simp add: tidy_def seq_new_def node_leak_def leaked_strs_def empty_store_def)
qed

lemma tidy_delete:
  assumes "tidy (t, st)"
  shows "\<exists>st'. seq_delete t st = Some st' \<and> nodes st' = {} \<and> classes st' = Map.empty \<and> strs st' = Map.empty"
proof (cases "t = NoNode")
  case True
  with assms show ?thesis
    by (auto simp: tidy_def seq_delete_def node_leak_def leaked_strs_def owned_def)
next
  case False
  with assms have "seq_inv t st" by (simp add: tidy_def seq_good_def)
  from seq_delete_ok [OF this] assms show ?thesis
    by (auto simp: tidy_def node_leak_def)
qed

section \<open>A concrete set for the witnesses\<close>

definition ex_t :: seq where
  "ex_t = Node 1 (-1) (Node 2 0 NoNode NoNode NoNode (Some 5))
     (Node 3 1 NoNode NoNode NoNode (Some 7)) NoNode None"

definition ex_st :: store where
  "ex_st = \<lparr>next_addr = 9, mallocs = [], nodes = {1, 2, 3},
     classes = [5 \<mapsto> \<lparr>counter = 1, str = Some 6\<rparr>, 7 \<mapsto> \<lparr>counter = 1, str = Some 8\<rparr>],
     strs = [6 \<mapsto> ''a'', 8 \<mapsto> ''b''], errno = NoError\<rparr>"

lemma ex_inv: "seq_inv ex_t ex_st" "seq_inv ex_t (ex_st\<lparr>mallocs := ms\<rparr>)"
  by (auto simp: seq_inv_def ex_t_def ex_st_def distinct_addrs_def cls_ok_def store_fresh_def
      split: if_splits)

lemma ex_words: "live ''0'' ex_t" "live ''1'' ex_t" "\<not> live ''01'' ex_t" "\<not> same_class ex_t ''0'' ''1''"
  by (simp_all add: ex_t_def live_def child.simps same_class_def)

lemmas ex_defs = ex_t_def ex_st_def empty_store_def child.simps digit_def seq_walk_loop.simps
  same_class_def live_def class_at_def name_at_def

section \<open>Properties\<close>

text \<open>C25: Memory safety of the whole library. Starting from an empty heap and \<open>seq_new\<close>, any
  sequence of calls with any arguments (null pointers, malformed words, empty names), under
  any pattern of failing allocations, runs without a null or dangling dereference and without
  a double free, and ends in a state in which every class counter equals the number of nodes
  that refer to the class.\<close>

theorem seq_run_safe:
  "\<exists>t st. seq_run cs (seq_new (empty_store ms)) = Some (t, st) \<and>
     (t = NoNode \<or> seq_inv t st)"
  using seq_run_good [OF seq_new_good] by (fastforce simp: seq_good_def)

text \<open>C29: Adding a word. On a well-formed set \<open>seq_add\<close> always returns. A word that is present
  gives 0, and any other gives 1 unless an allocation fails. Either way the set becomes the
  old one with the word and all its prefixes, and every class and name stays as it was.\<close>

theorem seq_add_spec:
  assumes "seq_inv t st" and "word (Some s)"
  shows "\<exists>r t' st'. seq_add t (Some s) st = Some (r, t', st') \<and> seq_inv t' st' \<and>
    (if r = -1 then \<not> live s t \<and> False \<in> set (mallocs st)
     else r = (if live s t then 0 else 1) \<and>
       (\<forall>w. (live w t' \<longleftrightarrow> live w t \<or> w \<in> prefixes_of s) \<and>
          class_at w t' = class_at w t \<and> name_at w t' st' = name_at w t st))"
proof -
  from seq_add_ok [OF assms] obtain r t' st' where
    run: "seq_add t (Some s) st = Some (r, t', st')" and inv: "seq_inv t' st'"
    and eq: "classes st' = classes st" "strs st' = strs st"
    and out: "if live s t then r = 0 \<and> t' = t \<and> st' = st
      else if r = 1 then (\<forall>w. live w t' \<longleftrightarrow> live w t \<or> w \<in> prefixes_of s) \<and>
        (\<forall>w. class_at w t' = class_at w t)
      else r = -1 \<and> t' = t \<and> nodes st' = nodes st \<and> errno st' = ENOMEM \<and> False \<in> set (mallocs st)"
    by blast
  have "if r = -1 then \<not> live s t \<and> False \<in> set (mallocs st)
     else r = (if live s t then 0 else 1) \<and>
       (\<forall>w. (live w t' \<longleftrightarrow> live w t \<or> w \<in> prefixes_of s) \<and>
          class_at w t' = class_at w t \<and> name_at w t' st' = name_at w t st)"
  proof (cases "live s t")
    case True
    with out have "r = 0" "t' = t" "st' = st" by simp_all
    moreover have "live w t" if "w \<in> prefixes_of s" for w
      using True that live_prefix [of w _ t] by (auto simp: prefixes_of_iff)
    ultimately show ?thesis using True by auto
  next
    case False
    show ?thesis
    proof (cases "r = 1")
      case True
      with out False have "\<forall>w. live w t' \<longleftrightarrow> live w t \<or> w \<in> prefixes_of s"
        "\<And>w. class_at w t' = class_at w t" by simp_all
      moreover have "class_str c st' = class_str c st" for c
        using eq by (simp add: class_str_def)
      with calculation(2) have "name_at w t' st' = name_at w t st" for w
        by (simp add: name_at_eq split: option.split)
      ultimately show ?thesis using True False by simp
    next
      case r: False
      with out False have "r = -1" "False \<in> set (mallocs st)" by simp_all
      with False show ?thesis by simp
    qed
  qed
  with run inv show ?thesis by blast
qed

theorem seq_add_spec_witness:
  "\<exists>t' st'. seq_add ex_t (Some ''01'') ex_st = Some (1, t', st') \<and> live ''01'' t' \<and> name_at ''1'' t' st' = Some ''b''"
proof -
  have w: "word (Some ''01'')" by (simp add: digit_def)
  have "False \<notin> set (mallocs ex_st)" by (simp add: ex_st_def)
  with seq_add_spec [OF ex_inv(1) w] ex_words(3) obtain t' st' where
    run: "seq_add ex_t (Some ''01'') ex_st = Some (1, t', st')" and
    "\<forall>w. (live w t' \<longleftrightarrow> live w ex_t \<or> w \<in> prefixes_of ''01'') \<and>
       name_at w t' st' = name_at w ex_t ex_st"
    by (auto split: if_splits)
  then have "live ''01'' t'" "name_at ''1'' t' st' = name_at ''1'' ex_t ex_st"
    by (auto simp: prefixes_of_iff)
  with run show ?thesis by (simp add: ex_defs class_str_def)
qed

text \<open>C31: Adding is atomic. When an allocation fails in the middle of the new path,
  \<open>seq_add\<close> reports \<open>ENOMEM\<close> and removes exactly the nodes it had created: the tree and the
  allocated memory are those of before the call.\<close>

theorem seq_add_atomic:
  assumes "seq_inv t st" and "word (Some s)" and "seq_add t (Some s) st = Some (-1, t', st')"
  shows "t' = t \<and> nodes st' = nodes st \<and> classes st' = classes st \<and> strs st' = strs st \<and>
    errno st' = ENOMEM"
  using seq_add_ok [OF assms(1,2)] assms(3) by (auto split: if_splits)

theorem seq_add_atomic_witness:
  "\<exists>st'. seq_add ex_t (Some ''0120'') (ex_st\<lparr>mallocs := [True, True, False]\<rparr>) = Some (-1, ex_t, st') \<and>
     nodes st' = {1, 2, 3}"
proof -
  obtain t' st' where run: "seq_add ex_t (Some ''0120'') (ex_st\<lparr>mallocs := [True, True, False]\<rparr>) = Some (-1, t', st')"
    by (simp add: c_defs ex_defs insert_commute)
  have "word (Some ''0120'')" by (simp add: digit_def)
  from seq_add_atomic [OF ex_inv(2) this run] run show ?thesis by (simp add: ex_st_def)
qed

text \<open>C26: Removing a word. \<open>seq_remove\<close> always returns: 1 when the word is in the set, and then
  exactly the words that start with it are gone while the remaining words keep their classes and
  names; 0 when it is not, and then nothing changes. Every freed node belonged to the removed
  subtree, so no memory of the set is lost.\<close>

theorem seq_remove_spec:
  assumes "seq_inv t st" and "word (Some s)"
  shows "\<exists>r t' st'. seq_remove t (Some s) st = Some (r, t', st') \<and> seq_inv t' st' \<and>
    leaked_strs st' = leaked_strs st \<and>
    nodes st' - set_mset (addrs t') = nodes st - set_mset (addrs t) \<and>
    (if live s t then r = 1 \<and>
       (\<forall>w. (live w t' \<longleftrightarrow> live w t \<and> s \<notin> prefixes_of w) \<and>
         (live w t' \<longrightarrow> class_at w t' = class_at w t \<and> name_at w t' st' = name_at w t st))
     else r = 0 \<and> t' = t \<and> st' = st)"
  using seq_remove_ok [OF assms] by (elim exE conjE) (simp split: if_splits)

theorem seq_remove_spec_witness:
  "\<exists>t' st'. seq_remove ex_t (Some ''0'') ex_st = Some (1, t', st') \<and> \<not> live ''0'' t' \<and>
     live ''1'' t' \<and> name_at ''1'' t' st' = Some ''b''"
proof -
  have "word (Some ''0'')" by (simp add: digit_def)
  from seq_remove_spec [OF ex_inv(1) this] ex_words obtain r t' st' where
    run: "seq_remove ex_t (Some ''0'') ex_st = Some (r, t', st')" "r = 1"
    and spec: "\<forall>w. (live w t' \<longleftrightarrow> live w ex_t \<and> ''0'' \<notin> prefixes_of w) \<and>
      (live w t' \<longrightarrow> class_at w t' = class_at w ex_t \<and> name_at w t' st' = name_at w ex_t ex_st)"
    by auto
  from spec [rule_format, of "''1''"] ex_words have "live ''1'' t'" "name_at ''1'' t' st' = name_at ''1'' ex_t ex_st"
    by (simp_all add: prefixes_of_iff)
  with run spec [rule_format, of "''0''"] show ?thesis
    by (simp add: ex_defs class_str_def prefixes_of_iff)
qed

text \<open>C33: Naming round trip. After a call of \<open>seq_set_name\<close> on a word of the set that did not
  run out of memory, \<open>seq_get_name\<close> of every word of the same equivalence class returns a
  pointer to that name, and the names of all other words are unchanged.\<close>

theorem seq_name_roundtrip:
  assumes "seq_inv t st" and "word (Some s)" and "n \<noteq> []" and "live s t" and "False \<notin> set (mallocs st)"
  shows "\<exists>r t' st'. seq_set_name t (Some s) (Some n) st = Some (r, t', st') \<and>
    (r = 0 \<longleftrightarrow> name_at s t st = Some n) \<and> (r = 0 \<or> r = 1) \<and>
    (\<forall>w. word (Some w) \<longrightarrow> same_class t s w \<longrightarrow>
      (\<exists>a. seq_get_name t' (Some w) st' = Some (Some a, st') \<and> strs st' a = Some n)) \<and>
    (\<forall>w. \<not> same_class t s w \<longrightarrow> name_at w t' st' = name_at w t st)"
proof -
  from seq_set_name_ok [OF assms(1-3)] assms(4,5) obtain r t' st' where
    run: "seq_set_name t (Some s) (Some n) st = Some (r, t', st')" and k: "kept t st t' st'"
    and r: "(r = 0 \<longleftrightarrow> name_at s t st = Some n) \<and> (r = 0 \<or> r = 1)" and nm: "named t st t' st' s n"
    by (auto split: if_splits)
  have "\<exists>a. seq_get_name t' (Some w) st' = Some (Some a, st') \<and> strs st' a = Some n"
    if "word (Some w)" "same_class t s w" for w
    using seq_get_name_ok [of t' st' w] that k nm assms(3) by (auto simp: kept_def named_def)
  with run r nm show ?thesis by (auto simp: named_def)
qed

theorem seq_name_roundtrip_witness:
  "\<exists>r t' st' a. seq_set_name ex_t (Some ''0'') (Some ''c'') ex_st = Some (r, t', st') \<and>
     seq_get_name t' (Some ''0'') st' = Some (Some a, st') \<and> strs st' a = Some ''c''"
proof -
  have w: "word (Some ''0'')" by (simp add: digit_def)
  have m: "False \<notin> set (mallocs ex_st)" by (simp add: ex_st_def)
  have s: "same_class ex_t ''0'' ''0''" by (simp add: same_class_def)
  from seq_name_roundtrip [OF ex_inv(1) w _ ex_words(1) m, of "''c''"] w s show ?thesis
    by (metis list.distinct(1))
qed

text \<open>C27: Merging classes. \<open>seq_equiv\<close> of two words of the set in different classes either
  reports exhausted memory and changes nothing, or returns 1 and makes exactly the two classes
  one, named by the common name, the only name, or the concatenation of the two names; no other
  word changes class or name. Words already equivalent, or missing from the set, give 0 and no
  change.\<close>

theorem seq_equiv_spec:
  assumes "seq_inv t st" and "word (Some s1)" and "word (Some s2)"
  shows "\<exists>r t' st'. seq_equiv t (Some s1) (Some s2) st = Some (r, t', st') \<and> seq_inv t' st' \<and>
    (\<forall>w. live w t' \<longleftrightarrow> live w t) \<and>
    (if \<not> live s1 t \<or> \<not> live s2 t \<or> same_class t s1 s2 then r = 0 \<and> t' = t \<and> st' = st
     else if r = -1 then unchanged t st t' st' \<and> errno st' = ENOMEM \<and> False \<in> set (mallocs st)
     else r = 1 \<and> merged t st t' st' s1 s2)"
proof (cases "live s1 t \<and> live s2 t \<and> \<not> same_class t s1 s2")
  case True
  with seq_equiv_ok [OF assms] have
    "equiv_outcome (lost_str t st s1 s2) t st s1 s2 (seq_equiv t (Some s1) (Some s2) st)" by simp
  then obtain r t' st' where run: "seq_equiv t (Some s1) (Some s2) st = Some (r, t', st')"
    and k: "kept t st t' st'"
    and o: "if r = -1 then unchanged t st t' st' \<and> errno st' = ENOMEM \<and> False \<in> set (mallocs st)
      else r = 1 \<and> merged t st t' st' s1 s2 \<and> leaked_strs st' = leaked_strs st \<union> lost_str t st s1 s2"
    unfolding equiv_outcome_def by blast
  from k have "seq_inv t' st'" "\<forall>w. live w t' \<longleftrightarrow> live w t" by (simp_all add: kept_def)
  with run o True show ?thesis by (intro exI conjI) (assumption | simp split: if_splits)+
next
  case False
  with seq_equiv_ok [OF assms] assms(1) show ?thesis by (simp split: if_splits)
qed

theorem seq_equiv_spec_witness:
  "\<exists>t' st'. seq_equiv ex_t (Some ''0'') (Some ''1'') ex_st = Some (1, t', st') \<and>
     same_class t' ''0'' ''1'' \<and> name_at ''1'' t' st' = Some ''ab''"
proof -
  have w: "word (Some ''0'')" "word (Some ''1'')" by (simp_all add: digit_def)
  have m: "False \<notin> set (mallocs ex_st)" by (simp add: ex_st_def)
  from seq_equiv_spec [OF ex_inv(1) w] ex_words m obtain t' st' where
    run: "seq_equiv ex_t (Some ''0'') (Some ''1'') ex_st = Some (1, t', st')"
    and mg: "merged ex_t ex_st t' st' ''0'' ''1''"
    by (auto split: if_splits)
  from mg have cls: "\<And>u v. same_class t' u v \<longleftrightarrow>
      same_class ex_t u v \<or> (in_merge ex_t ''0'' ''1'' u \<and> in_merge ex_t ''0'' ''1'' v)"
    and nm: "\<And>w. name_at w t' st' = (if in_merge ex_t ''0'' ''1'' w
      then Some (merged_name (name_at ''0'' ex_t ex_st) (name_at ''1'' ex_t ex_st)) else name_at w ex_t ex_st)"
    by (auto simp: merged_def)
  have "in_merge ex_t ''0'' ''1'' ''0''" "in_merge ex_t ''0'' ''1'' ''1''"
    by (simp_all only: in_merge_def same_class_def simp_thms)
  from cls nm this have "same_class t' ''0'' ''1''"
    "name_at ''1'' t' st' = Some (merged_name (name_at ''0'' ex_t ex_st) (name_at ''1'' ex_t ex_st))"
    by simp_all
  moreover have "merged_name (name_at ''0'' ex_t ex_st) (name_at ''1'' ex_t ex_st) = ''ab''"
    by (simp add: ex_defs class_str_def merged_name_def)
  ultimately show ?thesis using run by auto
qed

text \<open>No leak. After any sequence of calls in which no \<open>seq_equiv\<close> merges two classes with
  equal names, \<open>seq_delete\<close> does not fail and leaves no node, no class and no string
  allocated.\<close>

theorem seq_delete_frees_all:
  assumes "careful cs (seq_new (empty_store ms))"
  shows "\<exists>t st st'. seq_run cs (seq_new (empty_store ms)) = Some (t, st) \<and>
    seq_delete t st = Some st' \<and> nodes st' = {} \<and> classes st' = Map.empty \<and> strs st' = Map.empty"
  using tidy_run [OF tidy_new assms] tidy_delete by fastforce

theorem seq_delete_frees_all_witness:
  "\<exists>t st st'. seq_run [Add (Some ''01''), SetName (Some ''0'') (Some ''a''), Equiv (Some ''0'') (Some ''01'')]
     (seq_new (empty_store [])) = Some (t, st) \<and> seq_delete t st = Some st' \<and> nodes st' = {} \<and>
     classes st' = Map.empty \<and> strs st' = Map.empty"
proof -
  have "careful [Add (Some ''01''), SetName (Some ''0'') (Some ''a''), Equiv (Some ''0'') (Some ''01'')]
     (seq_new (empty_store []))"
    by (simp add: c_defs ex_defs lost_str_def)
  from seq_delete_frees_all [OF this] show ?thesis .
qed

text \<open>The leak of \<open>seq_equiv\<close>. When the two merged classes have equal names, the string of
  the second class is never freed: after adding 0 and 1, naming both ''a'', merging
  them and deleting the whole set, one copy of the name is still allocated and nothing points
  to it.\<close>

lemma seq_equiv_equal_names_leak:
  "map_option (\<lambda>(t, st). map_option (\<lambda>st'. (nodes st', strs st' 6)) (seq_delete t st))
     (seq_run [Add (Some ''0''), Add (Some ''1''), SetName (Some ''0'') (Some ''a''),
        SetName (Some ''1'') (Some ''a''), Equiv (Some ''0'') (Some ''1'')] (seq_new (empty_store [])))
   = Some (Some ({}, Some ''a''))"
  by (simp add: c_defs ex_defs) auto

end
