(* ===== verification/Stdio.thy ===== *)
theory Stdio
  imports Prelude
begin

text \<open>
  The part of C's standard input and output the programs use. The characters still to be read
  are a string; \<open>getchar\<close> returns their codes as an \<open>int\<close> and -1 at the end of the input;
  \<open>scanf_d\<close> is \<open>scanf\<close> with the format \<open>%d\<close> and \<open>printf_d\<close> the text of \<open>printf\<close> with it.
  A conversion that finds no number gives \<open>NoConv\<close> (the variable keeps its value), and a
  number outside \<open>int\<close> is undefined behaviour.
\<close>

definition int_min :: int where "int_min = -2147483648"
definition int_max :: int where "int_max = 2147483647"

definition is_int :: "int \<Rightarrow> bool" where
  "is_int x \<longleftrightarrow> int_min \<le> x \<and> x \<le> int_max"

fun getchar :: "string \<Rightarrow> int \<times> string" where
  "getchar [] = (-1, [])"
| "getchar (c # cs) = (of_char c, cs)"

definition ungetc :: "int \<Rightarrow> string \<Rightarrow> string" where
  "ungetc c s = (if c = -1 then s else char_of (nat c) # s)"

abbreviation code :: "char \<Rightarrow> int" where
  "code c \<equiv> of_char c"

lemma code_nat: "code c = int (of_char c)"
  by (simp add: of_char_def horner_sum_bit_eq_take_bit)

lemma code_nonneg [simp]: "0 \<le> code c" "code c \<noteq> -1"
  using code_nat [of c] by simp_all

lemma ungetc_code [simp]: "ungetc (code c) s = c # s"
  using code_nat [of c] by (simp add: ungetc_def)

section \<open>Decimal numbers\<close>

definition is_digit :: "char \<Rightarrow> bool" where
  "is_digit c \<longleftrightarrow> 48 \<le> code c \<and> code c \<le> 57"

definition is_space :: "char \<Rightarrow> bool" where
  "is_space c \<longleftrightarrow> code c = 32 \<or> (9 \<le> code c \<and> code c \<le> 13)"

fun dec :: "nat \<Rightarrow> string" where
  "dec n = (if n < 10 then [char_of (48 + n)] else dec (n div 10) @ [char_of (48 + n mod 10)])"

declare dec.simps [simp del]

definition printf_d :: "int \<Rightarrow> string" where
  "printf_d x = (if x < 0 then CHR ''-'' # dec (nat (- x)) else dec (nat x))"

definition digits_val :: "string \<Rightarrow> int" where
  "digits_val ds = foldl (\<lambda>v c. 10 * v + (code c - 48)) 0 ds"

definition scanf_d :: "string \<Rightarrow> (int option \<times> string) option" where
  "scanf_d s =
     (let s1 = dropWhile is_space s;
          neg = (s1 \<noteq> [] \<and> hd s1 = CHR ''-'');
          s2 = (if s1 \<noteq> [] \<and> hd s1 \<in> {CHR ''-'', CHR ''+''} then tl s1 else s1);
          ds = takeWhile is_digit s2;
          v = (if neg then - digits_val ds else digits_val ds)
      in if ds = [] then Some (None, s2)
         else if is_int v then Some (Some v, dropWhile is_digit s2) else None)"

text \<open>A number that was printed is read back, whatever follows it.\<close>

lemma dec_digit: "d < 10 \<Longrightarrow> is_digit (char_of (48 + d :: nat))"
  by (simp add: is_digit_def code_nat)

lemma dec_digits: "\<forall>c\<in>set (dec n). is_digit c"
proof (induction n rule: dec.induct)
  case (1 n)
  show ?case
    by (subst dec.simps) (use 1 dec_digit [of n] dec_digit [of "n mod 10"] in auto)
qed

lemma dec_nonempty [simp]: "dec n \<noteq> []"
  by (subst dec.simps) simp

lemma digits_val_snoc: "digits_val (ds @ [c]) = 10 * digits_val ds + (code c - 48)"
  by (simp add: digits_val_def)

lemma digits_val_dec: "digits_val (dec n) = int n"
proof (induction n rule: dec.induct)
  case (1 n)
  show ?case
  proof (cases "n < 10")
    case True
    then show ?thesis by (simp add: dec.simps [of n] digits_val_def code_nat)
  next
    case False
    have "int n = int (10 * (n div 10) + n mod 10)" by simp
    then have "10 * int (n div 10) + int (n mod 10) = int n"
      unfolding of_nat_add of_nat_mult by simp
    with False show ?thesis
      by (simp add: dec.simps [of n] digits_val_snoc code_nat 1)
  qed
qed

lemma digit_not_space: "is_digit c \<Longrightarrow> \<not> is_space c"
  by (auto simp: is_digit_def is_space_def)

lemma digit_not_sign: "is_digit c \<Longrightarrow> c \<noteq> CHR ''-'' \<and> c \<noteq> CHR ''+''"
  by (auto simp: is_digit_def)

definition stops :: "string \<Rightarrow> bool" where
  "stops rest \<longleftrightarrow> rest = [] \<or> \<not> is_digit (hd rest)"

lemma stops_simps [simp]: "stops []" "stops (c # s) \<longleftrightarrow> \<not> is_digit c"
  by (simp_all add: stops_def)

lemma while_digits:
  assumes "\<forall>c\<in>set ds. is_digit c" and "stops rest"
  shows "takeWhile is_digit (ds @ rest) = ds \<and> dropWhile is_digit (ds @ rest) = rest"
  using assms by (cases rest) auto

lemma scanf_printf:
  assumes "is_int x" and "stops rest"
  shows "scanf_d (printf_d x @ rest) = Some (Some x, rest)"
proof (cases "x < 0")
  case True
  have "\<not> is_space CHR ''-''" by (simp add: is_space_def)
  with True assms while_digits [OF dec_digits assms(2), of "nat (- x)"] show ?thesis
    by (simp add: scanf_d_def printf_d_def digits_val_dec Let_def)
next
  case False
  obtain c ds where d: "dec (nat x) = c # ds" by (cases "dec (nat x)") auto
  with dec_digits [of "nat x"] have "is_digit c" by simp
  with digit_not_space digit_not_sign have "\<not> is_space c" "c \<noteq> CHR ''-''" "c \<noteq> CHR ''+''" by auto
  with False assms while_digits [OF dec_digits assms(2), of "nat x"] d digits_val_dec [of "nat x"]
  show ?thesis by (simp add: scanf_d_def printf_d_def Let_def)
qed

text \<open>The first character of a printed number, and that it is not one of the separators.\<close>

lemma printf_head:
  obtains c cs where "printf_d x = c # cs" and "\<not> is_space c" and "is_digit c \<or> c = CHR ''-''"
proof -
  obtain d ds where d: "dec (nat \<bar>x\<bar>) = d # ds" by (cases "dec (nat \<bar>x\<bar>)") auto
  with dec_digits [of "nat \<bar>x\<bar>"] have dd: "is_digit d" by simp
  show thesis
  proof (cases "x < 0")
    case True
    then show thesis by (intro that [of "CHR ''-''" "dec (nat (- x))"]) (simp_all add: printf_d_def is_space_def)
  next
    case False
    with d dd digit_not_space show thesis by (intro that [of d ds]) (simp_all add: printf_d_def)
  qed
qed

lemmas stdio_defs [c_defs] =
  is_int_def int_min_def int_max_def is_digit_def is_space_def scanf_d_def digits_val_def
  printf_d_def ungetc_def char_of_def bit_0

end
