(* ===== verification/Life.thy ===== *)
theory Life
  imports Stdio
begin

text \<open>
  The program \<open>GameOfLife.c\<close>: the list of cells and every operation on it. The linked list is
  the list of its cells in order. A cursor into the list is \<open>None\<close> for the null pointer and
  otherwise the index of the cell it points to; an operation that frees cells moves the index
  with its cell. In \<open>zywi_sasiedzi\<close> the value -1 marks a dead neighbour of a live cell.
  Coordinates are unbounded integers with the overflow checks of the arithmetic that the code
  does on them in \<open>nowa_generacja_lista\<close>; \<open>malloc\<close> is taken to succeed.
\<close>

section \<open>The list of cells\<close>

record cell =
  nr_kolumny :: int
  nr_wiersza :: int
  zywi_sasiedzi :: int

definition na_polu :: "int \<Rightarrow> int \<Rightarrow> cell \<Rightarrow> bool" where
  "na_polu i j c \<longleftrightarrow> nr_wiersza c = i \<and> nr_kolumny c = j"

definition komorka :: "int \<Rightarrow> int \<Rightarrow> int \<Rightarrow> cell" where
  "komorka i j k = \<lparr>nr_kolumny = j, nr_wiersza = i, zywi_sasiedzi = k\<rparr>"

fun sprawdzaj_czy_w_liscie :: "cell list \<Rightarrow> int \<Rightarrow> int \<Rightarrow> int" where
  "sprawdzaj_czy_w_liscie [] i j = 0"
| "sprawdzaj_czy_w_liscie (c # l) i j =
     (if nr_wiersza c \<noteq> i \<or> nr_kolumny c \<noteq> j then sprawdzaj_czy_w_liscie l i j else 1)"

fun wstaw_na_koniec :: "cell list \<Rightarrow> int \<Rightarrow> int \<Rightarrow> int \<Rightarrow> cell list" where
  "wstaw_na_koniec [] i j k = [komorka i j k]"
| "wstaw_na_koniec (c # l) i j k = c # wstaw_na_koniec l i j k"

definition sasiad :: "int \<Rightarrow> int \<Rightarrow> cell \<Rightarrow> bool" where
  "sasiad i j c \<longleftrightarrow>
     (nr_wiersza c = i - 1 \<and> nr_kolumny c = j - 1) \<or> (nr_wiersza c = i - 1 \<and> nr_kolumny c = j) \<or>
     (nr_wiersza c = i - 1 \<and> nr_kolumny c = j + 1) \<or> (nr_wiersza c = i \<and> nr_kolumny c = j - 1) \<or>
     (nr_wiersza c = i \<and> nr_kolumny c = j + 1) \<or> (nr_wiersza c = i + 1 \<and> nr_kolumny c = j - 1) \<or>
     (nr_wiersza c = i + 1 \<and> nr_kolumny c = j) \<or> (nr_wiersza c = i + 1 \<and> nr_kolumny c = j + 1)"

fun zliczanie_zywych_sasiadow :: "cell list \<Rightarrow> int \<Rightarrow> int \<Rightarrow> int" where
  "zliczanie_zywych_sasiadow [] i j = 0"
| "zliczanie_zywych_sasiadow (c # l) i j =
     (if sasiad i j c \<and> zywi_sasiedzi c \<noteq> -1 then 1 else 0) + zliczanie_zywych_sasiadow l i j"

text \<open>The loop keeps the value of the last cell at the place.\<close>

fun martwa_loop :: "cell list \<Rightarrow> int \<Rightarrow> int \<Rightarrow> int \<Rightarrow> int" where
  "martwa_loop [] i j m = m"
| "martwa_loop (c # l) i j m =
     martwa_loop l i j (if nr_wiersza c = i \<and> nr_kolumny c = j then zywi_sasiedzi c else m)"

definition sprawdz_czy_martwa :: "cell list \<Rightarrow> int \<Rightarrow> int \<Rightarrow> int" where
  "sprawdz_czy_martwa l i j = martwa_loop l i j 0"

fun dodaj_zywych_sasiadow :: "cell list \<Rightarrow> int \<Rightarrow> int \<Rightarrow> int \<Rightarrow> cell list" where
  "dodaj_zywych_sasiadow [] i j n = []"
| "dodaj_zywych_sasiadow (c # l) i j n =
     (if nr_wiersza c = i \<and> nr_kolumny c = j then c\<lparr>zywi_sasiedzi := n\<rparr> # l
      else c # dodaj_zywych_sasiadow l i j n)"

fun usun_zywe_komorki :: "cell list \<Rightarrow> cell list" where
  "usun_zywe_komorki [] = []"
| "usun_zywe_komorki (c # l) =
     (if (zywi_sasiedzi c < 2 \<and> zywi_sasiedzi c \<noteq> -1) \<or> zywi_sasiedzi c > 3
      then usun_zywe_komorki l
      else if zywi_sasiedzi c = -1 then c\<lparr>zywi_sasiedzi := 3\<rparr> # usun_zywe_komorki l
      else c # usun_zywe_komorki l)"

fun usun_wszystkie_wskazane :: "cell list \<Rightarrow> int \<Rightarrow> int \<Rightarrow> cell list" where
  "usun_wszystkie_wskazane [] i j = []"
| "usun_wszystkie_wskazane (c # l) i j =
     (if nr_wiersza c = i \<and> nr_kolumny c = j then usun_wszystkie_wskazane l i j
      else c # usun_wszystkie_wskazane l i j)"

fun zliczanie :: "cell list \<Rightarrow> nat" where
  "zliczanie [] = 0"
| "zliczanie (c # l) = Suc (zliczanie l)"

section \<open>One generation\<close>

text \<open>The two nested loops that append the dead cells around \<open>(i, j)\<close>.\<close>

definition dodaj_martwa :: "int \<Rightarrow> int \<Rightarrow> cell list \<Rightarrow> cell list" where
  "dodaj_martwa w k l = (if sprawdzaj_czy_w_liscie l w k = 0 then wstaw_na_koniec l w k (-1) else l)"

definition dodaj_martwych :: "int \<Rightarrow> int \<Rightarrow> cell list \<Rightarrow> cell list" where
  "dodaj_martwych i j l = fold (\<lambda>w. fold (dodaj_martwa w) [j - 1..j + 1]) [i - 1..i + 1] l"

definition nast :: "cell list \<Rightarrow> nat \<Rightarrow> nat option" where
  "nast l p = (if Suc p < length l then Some (Suc p) else None)"

text \<open>Where the cursor is after the cells at \<open>(i, j)\<close> were freed; freeing the cell it points
  to is undefined behaviour, since both loops go on through it.\<close>

definition usun_kursor :: "cell list \<Rightarrow> nat option \<Rightarrow> int \<Rightarrow> int \<Rightarrow> nat option option" where
  "usun_kursor l pom i j =
     (case pom of
        None \<Rightarrow> Some None
      | Some p \<Rightarrow>
          if na_polu i j (l ! p) then None
          else Some (Some (length (usun_wszystkie_wskazane (take p l) i j))))"

text \<open>The end of both loop bodies, for the cell at \<open>(i, j)\<close> with the cursor already moved on.\<close>

definition ocen_komorke :: "int \<Rightarrow> int \<Rightarrow> nat option \<Rightarrow> cell list \<Rightarrow> (cell list \<times> nat option) option" where
  "ocen_komorke i j pom l =
     (if \<not> (is_int (i - 1) \<and> is_int (i + 1) \<and> is_int (j - 1) \<and> is_int (j + 1)) then None
      else
        (let zywi = zliczanie_zywych_sasiadow l i j;
             martwa = sprawdz_czy_martwa l i j;
             l1 = (if martwa \<noteq> -1 then dodaj_zywych_sasiadow l i j zywi else l)
         in if martwa = -1 \<and> zywi \<noteq> 3
            then map_option (\<lambda>pom'. (usun_wszystkie_wskazane l1 i j, pom')) (usun_kursor l1 pom i j)
            else Some (l1, pom)))"

text \<open>The first loop runs over the \<open>n\<close> cells that are left of those counted before it; the
  row and column loops also compute \<open>i + 2\<close> and \<open>j + 2\<close> when they end.\<close>

fun pierwsza_petla :: "nat \<Rightarrow> nat option \<Rightarrow> cell list \<Rightarrow> (cell list \<times> nat option) option" where
  "pierwsza_petla (Suc n) (Some p) l =
     (let i = nr_wiersza (l ! p); j = nr_kolumny (l ! p); pom = nast l p
      in if \<not> (is_int (i - 1) \<and> is_int (i + 2) \<and> is_int (j - 1) \<and> is_int (j + 2)) then None
         else do {
           (l', pom') \<leftarrow> ocen_komorke i j pom (dodaj_martwych i j l);
           pierwsza_petla n pom' l'
         })"
| "pierwsza_petla n pom l = Some (l, pom)"

lemma usun_length: "length (usun_wszystkie_wskazane l i j) \<le> length l"
  by (induction l) auto

lemma usun_take: "usun_wszystkie_wskazane l i j =
    usun_wszystkie_wskazane (take p l) i j @ usun_wszystkie_wskazane (drop p l) i j"
proof (induction l arbitrary: p)
  case (Cons c l)
  show ?case using Cons [of "p - 1"] by (cases p) auto
qed simp

lemma dodaj_length [simp]: "length (dodaj_zywych_sasiadow l i j n) = length l"
  by (induction l) auto

lemma dodaj_na_polu: "p < length l \<Longrightarrow>
    nr_wiersza (dodaj_zywych_sasiadow l i j n ! p) = nr_wiersza (l ! p) \<and>
    nr_kolumny (dodaj_zywych_sasiadow l i j n ! p) = nr_kolumny (l ! p)"
  by (induction l arbitrary: p) (auto simp: nth_Cons split: nat.split)

text \<open>Every round leaves fewer cells behind the cursor.\<close>

lemma ocen_maleje:
  assumes "ocen_komorke i j pom l = Some (l', Some q)" and "pom = Some p" and "p < length l"
  shows "q < length l' \<and> length l' - q \<le> length l - p"
proof -
  define l1 where "l1 = (if sprawdz_czy_martwa l i j \<noteq> -1
    then dodaj_zywych_sasiadow l i j (zliczanie_zywych_sasiadow l i j) else l)"
  have len: "length l1 = length l" by (simp add: l1_def)
  show ?thesis
  proof (cases "sprawdz_czy_martwa l i j = -1 \<and> zliczanie_zywych_sasiadow l i j \<noteq> 3")
    case True
    with assms have q: "q = length (usun_wszystkie_wskazane (take p l) i j)"
      and l': "l' = usun_wszystkie_wskazane l i j" and n: "\<not> na_polu i j (l ! p)"
      by (auto simp: ocen_komorke_def usun_kursor_def Let_def split: if_splits)
    have d: "drop p l = l ! p # drop (Suc p) l" using assms(3) by (rule Cons_nth_drop_Suc [symmetric])
    have "length l' = q + length (usun_wszystkie_wskazane (drop p l) i j)"
      unfolding l' q by (subst usun_take [of l i j p]) simp
    moreover have "0 < length (usun_wszystkie_wskazane (drop p l) i j)"
      using n by (auto simp: d na_polu_def)
    ultimately show ?thesis using usun_length [of "drop p l" i j] by simp
  next
    case False
    with assms show ?thesis by (auto simp: ocen_komorke_def Let_def split: if_splits)
  qed
qed

lemma ocen_none:
  assumes "ocen_komorke i j None l = Some (l', q)"
  shows "q = None"
  using assms by (auto simp: ocen_komorke_def usun_kursor_def Let_def split: if_splits)

function druga_petla :: "nat option \<Rightarrow> cell list \<Rightarrow> cell list option" where
  "druga_petla None l = Some l"
| "druga_petla (Some p) l =
     (if p < length l
      then
        (case ocen_komorke (nr_wiersza (l ! p)) (nr_kolumny (l ! p)) (nast l p) l of
           None \<Rightarrow> None
         | Some (l', pom') \<Rightarrow> druga_petla pom' l')
      else None)"
  by pat_completeness auto
termination
proof (relation "measure (\<lambda>(pom, l). case pom of None \<Rightarrow> 0 | Some p \<Rightarrow> Suc (length l - p))")
  fix p :: nat and l :: "cell list" and x l' and pom' :: "nat option"
  assume a: "p < length l" "ocen_komorke (nr_wiersza (l ! p)) (nr_kolumny (l ! p)) (nast l p) l = Some x"
    "(l', pom') = x"
  show "((pom', l'), Some p, l)
    \<in> measure (\<lambda>(pom, l). case pom of None \<Rightarrow> 0 | Some p \<Rightarrow> Suc (length l - p))"
  proof (cases pom')
    case (Some q)
    with a have o: "ocen_komorke (nr_wiersza (l ! p)) (nr_kolumny (l ! p)) (nast l p) l = Some (l', Some q)"
      by simp
    have "nast l p \<noteq> None"
    proof
      assume "nast l p = None"
      with o have "ocen_komorke (nr_wiersza (l ! p)) (nr_kolumny (l ! p)) None l = Some (l', Some q)" by simp
      from ocen_none [OF this] show False by simp
    qed
    then have "nast l p = Some (Suc p)" "Suc p < length l" by (auto simp: nast_def split: if_splits)
    with ocen_maleje [OF o this] have "length l' - q < length l - p" by linarith
    with Some show ?thesis by simp
  qed simp
qed simp

definition pierwszy :: "cell list \<Rightarrow> nat option" where
  "pierwszy l = (if l = [] then None else Some 0)"

definition nowa_generacja_lista :: "cell list \<Rightarrow> cell list option" where
  "nowa_generacja_lista l =
     do {
       (l1, pom) \<leftarrow> pierwsza_petla (zliczanie l) (pierwszy l) l;
       l2 \<leftarrow> druga_petla pom l1;
       Some (usun_zywe_komorki l2)
     }"

end
