(* ===== verification/Life_Gen.thy ===== *)
theory Life_Gen
  imports Life
begin

text \<open>
  One generation of \<open>GameOfLife.c\<close> against the rule of the game: the two loops of
  \<open>nowa_generacja_lista\<close> are followed cell by cell, from the list of live cells to the list
  of the next live cells.
\<close>

section \<open>Places and the rule\<close>

type_synonym pole = "int \<times> int"

definition pole :: "cell \<Rightarrow> pole" where
  "pole c = (nr_wiersza c, nr_kolumny c)"

abbreviation pola :: "cell list \<Rightarrow> pole set" where
  "pola l \<equiv> pole ` set l"

definition kwadrat :: "pole \<Rightarrow> pole set" where
  "kwadrat p = {fst p - 1..fst p + 1} \<times> {snd p - 1..snd p + 1}"

definition wokol :: "pole \<Rightarrow> pole set" where
  "wokol p = kwadrat p - {p}"

definition nastepne :: "pole set \<Rightarrow> pole set" where
  "nastepne S = {p. (p \<in> S \<and> card (wokol p \<inter> S) \<in> {2, 3}) \<or> (p \<notin> S \<and> card (wokol p \<inter> S) = 3)}"

definition dobra :: "cell list \<Rightarrow> bool" where
  "dobra l \<longleftrightarrow> distinct (map pole l) \<and> (\<forall>c\<in>set l. zywi_sasiedzi c \<noteq> -1)"

definition bezpieczna :: "cell list \<Rightarrow> bool" where
  "bezpieczna l \<longleftrightarrow>
     (\<forall>c\<in>set l. int_min + 2 \<le> nr_wiersza c \<and> nr_wiersza c \<le> int_max - 2 \<and>
        int_min + 2 \<le> nr_kolumny c \<and> nr_kolumny c \<le> int_max - 2)"

lemma pole_simps [simp]:
  "pole (komorka i j k) = (i, j)" "zywi_sasiedzi (komorka i j k) = k"
  "pole (c\<lparr>zywi_sasiedzi := n\<rparr>) = pole c"
  by (simp_all add: pole_def komorka_def)

lemma kwadrat_self [simp]: "p \<in> kwadrat p"
  by (cases p) (simp add: kwadrat_def)

lemma wokol_sym: "p \<in> wokol q \<longleftrightarrow> q \<in> wokol p"
  by (cases p; cases q) (auto simp: wokol_def kwadrat_def)

lemma finite_wokol [simp]: "finite (wokol p)"
  by (simp add: wokol_def kwadrat_def)

section \<open>The operations on the list\<close>

lemma w_liscie: "sprawdzaj_czy_w_liscie l i j = (if (i, j) \<in> pola l then 1 else 0)"
  by (induction l) (auto simp: pole_def)

lemma wstaw_append: "wstaw_na_koniec l i j k = l @ [komorka i j k]"
  by (induction l) auto

lemma zliczanie_length: "zliczanie l = length l"
  by (induction l) auto

lemma usun_filter: "usun_wszystkie_wskazane l i j = filter (\<lambda>c. pole c \<noteq> (i, j)) l"
  by (induction l) (auto simp: pole_def)

lemma sasiad_wokol: "sasiad i j c \<longleftrightarrow> pole c \<in> wokol (i, j)"
  unfolding sasiad_def wokol_def kwadrat_def pole_def mem_Times_iff Diff_iff singleton_iff
    atLeastAtMost_iff fst_conv snd_conv prod.inject by presburger

definition zywe_pola :: "cell list \<Rightarrow> pole set" where
  "zywe_pola l = pole ` {c \<in> set l. zywi_sasiedzi c \<noteq> -1}"

lemma zywe_pola_simps [simp]:
  "zywe_pola [] = {}"
  "zywe_pola (c # l) = (if zywi_sasiedzi c \<noteq> -1 then {pole c} else {}) \<union> zywe_pola l"
  "zywe_pola (l @ l') = zywe_pola l \<union> zywe_pola l'"
  by (auto simp: zywe_pola_def)

lemma zywe_sub: "zywe_pola l \<subseteq> pola l"
  by (auto simp: zywe_pola_def)

text \<open>The counter of live neighbours, on a list without repetitions.\<close>

lemma zywi_card:
  "distinct (map pole l) \<Longrightarrow> zliczanie_zywych_sasiadow l i j = int (card (wokol (i, j) \<inter> zywe_pola l))"
proof (induction l)
  case (Cons c l)
  show ?case
  proof (cases "sasiad i j c \<and> zywi_sasiedzi c \<noteq> -1")
    case True
    then have "wokol (i, j) \<inter> zywe_pola (c # l) = insert (pole c) (wokol (i, j) \<inter> zywe_pola l)"
      by (auto simp: sasiad_wokol)
    moreover have "pole c \<notin> wokol (i, j) \<inter> zywe_pola l"
      using Cons.prems zywe_sub [of l] by auto
    ultimately show ?thesis using Cons True by simp
  next
    case False
    then have "wokol (i, j) \<inter> zywe_pola (c # l) = wokol (i, j) \<inter> zywe_pola l"
      by (auto simp: sasiad_wokol)
    with Cons False show ?thesis by simp
  qed
qed simp

lemma martwa_brak: "(i, j) \<notin> pola l \<Longrightarrow> martwa_loop l i j m = m"
  by (induction l arbitrary: m) (auto simp: pole_def)

lemma martwa_append: "martwa_loop (xs @ ys) i j m = martwa_loop ys i j (martwa_loop xs i j m)"
  by (induction xs arbitrary: m) auto

text \<open>Reading and updating the one cell at a place.\<close>

lemma martwa_komorka:
  assumes "distinct (map pole (xs @ c # ys))" and "pole c = (i, j)"
  shows "sprawdz_czy_martwa (xs @ c # ys) i j = zywi_sasiedzi c"
  using assms martwa_brak [of i j ys] by (auto simp: sprawdz_czy_martwa_def martwa_append pole_def)

lemma dodaj_komorka:
  assumes "(i, j) \<notin> pola xs" and "pole c = (i, j)"
  shows "dodaj_zywych_sasiadow (xs @ c # ys) i j n = xs @ c\<lparr>zywi_sasiedzi := n\<rparr> # ys"
  using assms by (induction xs) (auto simp: pole_def)

lemma usun_komorka:
  assumes "distinct (map pole (xs @ c # ys))" and "pole c = (i, j)"
  shows "usun_wszystkie_wskazane (xs @ c # ys) i j = xs @ ys"
proof -
  have "filter (\<lambda>d. pole d \<noteq> (i, j)) xs = xs" and "filter (\<lambda>d. pole d \<noteq> (i, j)) ys = ys"
    using assms by (auto simp: filter_id_conv image_iff)
  with assms(2) show ?thesis by (simp add: usun_filter)
qed

section \<open>Appending the dead neighbours\<close>

definition rozszerza :: "pole set \<Rightarrow> cell list \<Rightarrow> cell list \<Rightarrow> bool" where
  "rozszerza D l l' \<longleftrightarrow>
     (\<exists>ds. l' = l @ ds \<and> (\<forall>d\<in>set ds. zywi_sasiedzi d = -1)) \<and>
     (distinct (map pole l) \<longrightarrow> distinct (map pole l')) \<and> pola l' = pola l \<union> D"

lemma rozszerza_trans: "rozszerza D l l' \<Longrightarrow> rozszerza E l' l'' \<Longrightarrow> rozszerza (D \<union> E) l l''"
  unfolding rozszerza_def by (elim conjE exE) auto

lemma rozszerza_fold:
  assumes "\<And>x l. rozszerza (F x) l (f x l)"
  shows "rozszerza (\<Union>x\<in>set xs. F x) l (fold f xs l)"
proof (induction xs arbitrary: l)
  case Nil
  show ?case by (simp add: rozszerza_def)
next
  case (Cons x xs)
  from rozszerza_trans [OF assms Cons] show ?case by simp
qed

lemma rozszerza_martwa: "rozszerza {(w, k)} l (dodaj_martwa w k l)"
  by (auto simp: rozszerza_def dodaj_martwa_def w_liscie wstaw_append)

lemma rozszerza_martwych: "rozszerza (kwadrat (i, j)) l (dodaj_martwych i j l)"
proof -
  have "rozszerza (\<Union>w\<in>set [i - 1..i + 1]. \<Union>k\<in>set [j - 1..j + 1]. {(w, k)}) l (dodaj_martwych i j l)"
    unfolding dodaj_martwych_def by (intro rozszerza_fold rozszerza_martwa)
  moreover have "(\<Union>w\<in>set [i - 1..i + 1]. \<Union>k\<in>set [j - 1..j + 1]. {(w, k)}) = kwadrat (i, j)"
    by (auto simp: kwadrat_def)
  ultimately show ?thesis by simp
qed

section \<open>The first loop\<close>

text \<open>\<open>ocen S\<close> is a live cell once its neighbours are counted; \<open>martwe_ok\<close> describes the dead
  cells after the cells at the places \<open>T\<close> were handled.\<close>

definition ocen :: "pole set \<Rightarrow> cell \<Rightarrow> cell" where
  "ocen S c = c\<lparr>zywi_sasiedzi := int (card (wokol (pole c) \<inter> S))\<rparr>"

lemma ocen_simps [simp]: "pole (ocen S c) = pole c" "zywi_sasiedzi (ocen S c) \<noteq> -1"
  by (simp_all add: ocen_def)

definition martwe_ok :: "pole set \<Rightarrow> pole set \<Rightarrow> cell list \<Rightarrow> bool" where
  "martwe_ok S T ds \<longleftrightarrow> distinct (map pole ds) \<and> (\<forall>d\<in>set ds. zywi_sasiedzi d = -1) \<and>
     pola ds = (\<Union>p\<in>T. kwadrat p) - S"

lemma distinct_pola_append:
  "distinct (map pole (l @ l')) \<longleftrightarrow> distinct (map pole l) \<and> distinct (map pole l') \<and> pola l \<inter> pola l' = {}"
  by auto

lemma zywe_martwe: "\<forall>d\<in>set ds. zywi_sasiedzi d = -1 \<Longrightarrow> zywe_pola ds = {}"
  by (auto simp: zywe_pola_def)

lemma zywe_zywe: "\<forall>d\<in>set ds. zywi_sasiedzi d \<noteq> -1 \<Longrightarrow> zywe_pola ds = pola ds"
  by (auto simp: zywe_pola_def)

lemma suma_bez: "S \<union> D \<union> E = S \<union> D \<union> K \<Longrightarrow> (D \<union> E) \<inter> S = {} \<Longrightarrow> D = U - S \<Longrightarrow> D \<union> E = (K \<union> U) - S"
  by blast

lemma martwe_dodaj:
  assumes m: "martwe_ok S T ds" and l: "pola l = S" "distinct (map pole l)" and p: "(i, j) \<in> S"
  shows "\<exists>ds'. dodaj_martwych i j (l @ ds) = l @ ds' \<and> martwe_ok S (insert (i, j) T) ds'"
proof -
  from rozszerza_martwych [of i j "l @ ds"] obtain es where
    es: "dodaj_martwych i j (l @ ds) = (l @ ds) @ es" "\<forall>d\<in>set es. zywi_sasiedzi d = -1"
    and dist: "distinct (map pole (l @ ds)) \<longrightarrow> distinct (map pole ((l @ ds) @ es))"
    and pola: "pola ((l @ ds) @ es) = pola (l @ ds) \<union> kwadrat (i, j)"
    unfolding rozszerza_def by metis
  from m l have dl: "distinct (map pole (l @ ds))" by (auto simp: martwe_ok_def)
  with dist have dd: "distinct (map pole ((l @ ds) @ es))" by simp
  have disj: "pola (ds @ es) \<inter> pola l = {}" using dd by auto
  have "pola (ds @ es) = (\<Union>p\<in>insert (i, j) T. kwadrat p) - S"
  proof -
    have ds: "pola ds = (\<Union>p\<in>T. kwadrat p) - S" using m by (simp add: martwe_ok_def)
    have "S \<union> pola ds \<union> pola es = S \<union> pola ds \<union> kwadrat (i, j)" "(pola ds \<union> pola es) \<inter> S = {}"
      using pola disj l(1) by (simp_all add: image_Un Un_assoc)
    from suma_bez [OF this ds] show ?thesis by (simp add: image_Un)
  qed
  moreover have "\<forall>d\<in>set (ds @ es). zywi_sasiedzi d = -1" using es(2) m by (auto simp: martwe_ok_def)
  moreover have "distinct (map pole (ds @ es))" using dd by simp
  ultimately have "martwe_ok S (insert (i, j) T) (ds @ es)" by (simp add: martwe_ok_def)
  with es(1) show ?thesis by (intro exI [of _ "ds @ es"]) simp
qed

text \<open>The body on the live cell \<open>c\<close>, with the live cells before it already counted.\<close>

lemma ocen_zywa:
  assumes dist: "distinct (map pole (map (ocen S) A @ c # B @ ds))"
    and live: "zywi_sasiedzi c \<noteq> -1" "\<forall>b\<in>set B. zywi_sasiedzi b \<noteq> -1"
    and dead: "\<forall>d\<in>set ds. zywi_sasiedzi d = -1" and S: "S = pola (A @ c # B)"
    and c: "pole c = (i, j)" and ints: "is_int (i - 1)" "is_int (i + 1)" "is_int (j - 1)" "is_int (j + 1)"
  shows "ocen_komorke i j pom (map (ocen S) A @ c # B @ ds) = Some (map (ocen S) (A @ [c]) @ B @ ds, pom)"
proof -
  let ?l = "map (ocen S) A @ c # B @ ds"
  have pA: "pola (map (ocen S) A) = pola A" by (simp add: image_image)
  have zA: "zywe_pola (map (ocen S) A) = pola (map (ocen S) A)" by (rule zywe_zywe) auto
  have "zywe_pola ?l = S"
    using live dead zywe_zywe [of B] zywe_martwe [of ds] pA zA by (auto simp: S)
  with zywi_card [OF dist] have cnt: "zliczanie_zywych_sasiadow ?l i j = int (card (wokol (i, j) \<inter> S))"
    by simp
  have m: "sprawdz_czy_martwa ?l i j = zywi_sasiedzi c"
    using martwa_komorka [OF dist c] by simp
  have "(i, j) \<notin> pola (map (ocen S) A)" using dist c by auto
  from dodaj_komorka [OF this c] have
    "dodaj_zywych_sasiadow ?l i j n = map (ocen S) A @ c\<lparr>zywi_sasiedzi := n\<rparr> # B @ ds" for n .
  with m cnt live c ints show ?thesis
    by (simp add: ocen_komorke_def Let_def) (simp add: ocen_def)
qed

text \<open>The loop from the cells \<open>B\<close> on: \<open>ds0\<close> are the dead cells when the cursor leaves the
  last live cell.\<close>

lemma pierwsza_od:
  assumes "B \<noteq> []" and "dobra (A @ B)" and "bezpieczna (A @ B)" and "S = pola (A @ B)"
    and "martwe_ok S (pola A) ds"
  shows "\<exists>ds0 ds'. pierwsza_petla (length B) (Some (length A)) (map (ocen S) A @ B @ ds) =
      Some (map (ocen S) (A @ B) @ ds', if ds0 = [] then None else Some (length (A @ B))) \<and>
    martwe_ok S (pola (A @ butlast B)) ds0 \<and> martwe_ok S S ds'"
  using assms
proof (induction B arbitrary: A ds)
  case (Cons c B)
  obtain i j where c: "pole c = (i, j)" by (cases "pole c")
  let ?l = "map (ocen S) A @ c # B @ ds"
  have l_p: "?l ! length A = c" by (simp add: nth_append)
  have ij: "nr_wiersza c = i" "nr_kolumny c = j" using c by (auto simp: pole_def)
  have ints: "is_int (i - 1)" "is_int (i + 1)" "is_int (i + 2)" "is_int (j - 1)" "is_int (j + 1)" "is_int (j + 2)"
    using Cons.prems(3) ij by (auto simp: bezpieczna_def is_int_def)
  have live: "zywi_sasiedzi c \<noteq> -1" "\<forall>b\<in>set B. zywi_sasiedzi b \<noteq> -1"
    using Cons.prems(2) by (auto simp: dobra_def)
  have pS: "pola (map (ocen S) A @ c # B) = S" by (simp add: Cons.prems(4) image_image image_Un)
  have dl: "distinct (map pole (map (ocen S) A @ c # B))"
    using Cons.prems(2) by (simp add: dobra_def comp_def)
  have "(i, j) \<in> S" using c by (force simp: Cons.prems(4))
  from martwe_dodaj [OF Cons.prems(5) pS dl this] obtain ds1 where
    ds1: "dodaj_martwych i j ?l = map (ocen S) A @ c # B @ ds1" "martwe_ok S (insert (i, j) (pola A)) ds1"
    by auto
  have dist: "distinct (map pole (map (ocen S) A @ c # B @ ds1))"
  proof -
    have "pola ds1 \<inter> S = {}" "distinct (map pole ds1)" using ds1(2) by (auto simp: martwe_ok_def)
    with dl pS have "distinct (map pole ((map (ocen S) A @ c # B) @ ds1))"
      unfolding distinct_pola_append [of "map (ocen S) A @ c # B"] by (simp only: Int_commute simp_thms)
    then show ?thesis by simp
  qed
  have dead: "\<forall>d\<in>set ds1. zywi_sasiedzi d = -1" using ds1(2) by (simp add: martwe_ok_def)
  note body = ocen_zywa [OF dist live dead Cons.prems(4) c ints(1,2,4,5)]
  have step: "pierwsza_petla (length (c # B)) (Some (length A)) (map (ocen S) A @ (c # B) @ ds) =
      pierwsza_petla (length B) (nast ?l (length A)) (map (ocen S) (A @ [c]) @ B @ ds1)"
    using l_p ij ints ds1(1) body by simp
  have ds1': "martwe_ok S (pola (A @ [c])) ds1" using ds1(2) c by simp
  show ?case
  proof (cases "B = []")
    case True
    have "nast ?l (length A) = (if ds = [] then None else Some (length (A @ [c])))"
      using True by (simp add: nast_def)
    then have "pierwsza_petla (length (c # B)) (Some (length A)) (map (ocen S) A @ (c # B) @ ds) =
        Some (map (ocen S) (A @ c # B) @ ds1, if ds = [] then None else Some (length (A @ c # B)))"
      unfolding step by (simp add: True)
    moreover have "martwe_ok S (pola (A @ butlast (c # B))) ds" using True Cons.prems(5) by simp
    moreover have "martwe_ok S S ds1" using True ds1' Cons.prems(4) by simp
    ultimately show ?thesis by blast
  next
    case False
    then have n: "nast ?l (length A) = Some (length (A @ [c]))" by (simp add: nast_def)
    have eqs: "A @ c # B = (A @ [c]) @ B" by simp
    from Cons.IH [OF False _ _ _ ds1'] Cons.prems(2-4) obtain ds0 ds' where
      IH: "pierwsza_petla (length B) (Some (length (A @ [c]))) (map (ocen S) (A @ [c]) @ B @ ds1) =
        Some (map (ocen S) ((A @ [c]) @ B) @ ds', if ds0 = [] then None else Some (length ((A @ [c]) @ B)))"
      "martwe_ok S (pola ((A @ [c]) @ butlast B)) ds0" "martwe_ok S S ds'"
      unfolding eqs by blast
    have "pierwsza_petla (length (c # B)) (Some (length A)) (map (ocen S) A @ (c # B) @ ds) =
        Some (map (ocen S) (A @ c # B) @ ds', if ds0 = [] then None else Some (length (A @ c # B)))"
      unfolding step n eqs by (rule IH(1))
    moreover have "martwe_ok S (pola (A @ butlast (c # B))) ds0" using False IH(2) by simp
    ultimately show ?thesis using IH(3) by blast
  qed
qed simp

section \<open>The second loop\<close>

lemma druga_od:
  assumes "distinct (map pole (A @ ds))" and "\<forall>d\<in>set ds. zywi_sasiedzi d = -1"
    and "zywe_pola A = S"
    and "\<forall>d\<in>set ds. is_int (nr_wiersza d - 1) \<and> is_int (nr_wiersza d + 1) \<and>
      is_int (nr_kolumny d - 1) \<and> is_int (nr_kolumny d + 1)"
  shows "druga_petla (if ds = [] then None else Some (length A)) (A @ ds) =
    Some (A @ filter (\<lambda>d. card (wokol (pole d) \<inter> S) = 3) ds)"
  using assms
proof (induction ds arbitrary: A)
  case (Cons d ds)
  obtain i j where d: "pole d = (i, j)" by (cases "pole d")
  have ij: "nr_wiersza d = i" "nr_kolumny d = j" using d by (auto simp: pole_def)
  have ints: "is_int (i - 1)" "is_int (i + 1)" "is_int (j - 1)" "is_int (j + 1)"
    using Cons.prems(4) ij by auto
  let ?l = "A @ d # ds"
  have "zywe_pola ?l = S" using Cons.prems(2,3) zywe_martwe [of "d # ds"] by simp
  with zywi_card [OF Cons.prems(1)]
  have cnt: "zliczanie_zywych_sasiadow ?l i j = int (card (wokol (i, j) \<inter> S))" by simp
  have m: "sprawdz_czy_martwa ?l i j = -1"
    using martwa_komorka [OF Cons.prems(1) d] Cons.prems(2) by simp
  have nast: "nast ?l (length A) = (if ds = [] then None else Some (length (A @ [d])))"
    by (simp add: nast_def)
  show ?case
  proof (cases "card (wokol (pole d) \<inter> S) = 3")
    case True
    have "ocen_komorke i j pom ?l = Some (?l, pom)" for pom
      using True m cnt d ints by (simp add: ocen_komorke_def)
    moreover have "druga_petla (if ds = [] then None else Some (length (A @ [d]))) ((A @ [d]) @ ds) =
        Some ((A @ [d]) @ filter (\<lambda>d. card (wokol (pole d) \<inter> S) = 3) ds)"
      by (rule Cons.IH) (use Cons.prems in auto)
    ultimately show ?thesis using True ij nast by simp
  next
    case False
    have cursor: "usun_kursor ?l (nast ?l (length A)) i j = Some (if ds = [] then None else Some (length A))"
    proof (cases ds)
      case (Cons e es)
      then have "\<not> na_polu i j e" using Cons.prems(1) d by (auto simp: na_polu_def pole_def)
      moreover have "usun_wszystkie_wskazane (A @ [d]) i j = A"
        using usun_komorka [of A d "[]"] d Cons.prems(1) by simp
      ultimately show ?thesis using Cons by (simp add: nast_def usun_kursor_def nth_append)
    qed (simp add: nast_def usun_kursor_def)
    have "ocen_komorke i j (nast ?l (length A)) ?l =
        Some (A @ ds, if ds = [] then None else Some (length A))"
      using False m cnt d ints cursor usun_komorka [OF Cons.prems(1) d]
      by (simp add: ocen_komorke_def)
    moreover have "druga_petla (if ds = [] then None else Some (length A)) (A @ ds) =
        Some (A @ filter (\<lambda>d. card (wokol (pole d) \<inter> S) = 3) ds)"
      by (rule Cons.IH) (use Cons.prems in auto)
    ultimately show ?thesis using False ij by simp
  qed
qed simp

section \<open>The whole generation\<close>

text \<open>The row after the last row of two or more cells is not full, so the first of two loops
  appends a dead cell before it reaches the last live one.\<close>

lemma martwe_niepuste:
  assumes "martwe_ok (pola L) (pola (butlast L)) ds" and "2 \<le> length L"
  shows "ds \<noteq> []"
proof
  assume "ds = []"
  with assms(1) have sub: "(\<Union>p\<in>pola (butlast L). kwadrat p) \<subseteq> pola L" by (simp add: martwe_ok_def)
  let ?B = "butlast L"
  from assms(2) have "?B \<noteq> []" by (cases L rule: rev_cases) auto
  then have "nr_wiersza ` set ?B \<noteq> {}" by simp
  then have "Max (nr_wiersza ` set ?B) \<in> nr_wiersza ` set ?B" by (intro Max_in) simp_all
  then obtain b where b: "b \<in> set ?B" "nr_wiersza b = Max (nr_wiersza ` set ?B)" by auto
  have top: "nr_wiersza c \<le> nr_wiersza b" if "c \<in> set ?B" for c using that b(2) by simp
  have "L = ?B @ [last L]" using assms(2) by (cases L rule: rev_cases) auto
  then have L: "pola L = insert (pole (last L)) (pola ?B)" by (metis list.set(2) set_append image_insert
      image_Un Un_insert_right sup_bot.right_neutral list.set(1))
  have "(nr_wiersza b + 1, nr_kolumny b + k) = pole (last L)" if "k \<in> {0, 1}" for k
  proof -
    have "(nr_wiersza b + 1, nr_kolumny b + k) \<in> kwadrat (pole b)"
      using that by (auto simp: kwadrat_def pole_def)
    with sub b(1) have "(nr_wiersza b + 1, nr_kolumny b + k) \<in> pola L" by blast
    moreover have "(nr_wiersza b + 1, nr_kolumny b + k) \<notin> pola ?B"
      using top by (fastforce simp: pole_def)
    ultimately show ?thesis using L by blast
  qed
  from this [of 0] this [of 1] show False by (simp add: pole_def)
qed

lemma martwe_int:
  assumes "bezpieczna L" and "martwe_ok (pola L) (pola L) ds" and "d \<in> set ds"
  shows "is_int (nr_wiersza d - 1) \<and> is_int (nr_wiersza d + 1) \<and>
    is_int (nr_kolumny d - 1) \<and> is_int (nr_kolumny d + 1)"
proof -
  from assms(2,3) have "pole d \<in> (\<Union>p\<in>pola L. kwadrat p)" unfolding martwe_ok_def by blast
  then obtain c where "c \<in> set L" "pole d \<in> kwadrat (pole c)" by blast
  with assms(1) show ?thesis by (auto simp: bezpieczna_def kwadrat_def pole_def is_int_def)
qed

definition rodzi_sie :: "pole set \<Rightarrow> cell \<Rightarrow> bool" where
  "rodzi_sie S d \<longleftrightarrow> card (wokol (pole d) \<inter> S) = 3"

lemma generacja:
  assumes "dobra L" and "bezpieczna L" and "L \<noteq> []"
  shows "\<exists>ds. martwe_ok (pola L) (pola L) ds \<and> nowa_generacja_lista L =
    Some (usun_zywe_komorki (map (ocen (pola L)) L @
      (if length L = 1 then ds else filter (rodzi_sie (pola L)) ds)))"
proof -
  let ?S = "pola L"
  have "martwe_ok ?S (pola []) []" by (simp add: martwe_ok_def)
  from pierwsza_od [OF assms(3) _ _ _ this] assms(1,2) obtain ds0 ds where
    run: "pierwsza_petla (length L) (Some 0) L =
      Some (map (ocen ?S) L @ ds, if ds0 = [] then None else Some (length L))"
    and ds0: "martwe_ok ?S (pola (butlast L)) ds0" and ds: "martwe_ok ?S ?S ds"
    unfolding append_Nil list.map(1) list.size(3) append_Nil2 by blast
  have start: "nowa_generacja_lista L =
      map_option usun_zywe_komorki (druga_petla (if ds0 = [] then None else Some (length L)) (map (ocen ?S) L @ ds))"
    using run assms(3)
    by (simp add: nowa_generacja_lista_def zliczanie_length pierwszy_def map_conv_bind_option comp_def)
  show ?thesis
  proof (cases "length L = 1")
    case True
    then have "butlast L = []" by (cases L) auto
    with ds0 have "ds0 = []" by (simp add: martwe_ok_def)
    with start ds True show ?thesis by (intro exI [of _ ds]) simp
  next
    case False
    with assms(3) have two: "2 \<le> length L" by (cases L) (auto simp: Suc_le_eq)
    from martwe_niepuste [OF ds0 two] have nz: "ds0 \<noteq> []" .
    have dsn: "ds \<noteq> []"
    proof -
      have "(\<Union>p\<in>pola (butlast L). kwadrat p) \<subseteq> (\<Union>p\<in>?S. kwadrat p)"
        by (intro UN_mono image_mono) (auto dest: in_set_butlastD)
      from Diff_mono [OF this subset_refl [of ?S]] have "pola ds0 \<subseteq> pola ds"
        using ds0 ds unfolding martwe_ok_def by (simp only:)
      with nz show ?thesis by auto
    qed
    have "distinct (map pole (map (ocen ?S) L @ ds))"
      using assms(1) ds by (auto simp: dobra_def martwe_ok_def comp_def)
    moreover have "zywe_pola (map (ocen ?S) L) = ?S"
      by (subst zywe_zywe) (simp_all add: image_image)
    moreover have "\<forall>d\<in>set ds. zywi_sasiedzi d = -1" using ds by (simp add: martwe_ok_def)
    ultimately have "druga_petla (if ds = [] then None else Some (length (map (ocen ?S) L))) (map (ocen ?S) L @ ds) =
        Some (map (ocen ?S) L @ filter (\<lambda>d. card (wokol (pole d) \<inter> ?S) = 3) ds)"
      using martwe_int [OF assms(2) ds] by (intro druga_od) auto
    moreover have "(\<lambda>d. card (wokol (pole d) \<inter> ?S) = 3) = rodzi_sie ?S"
      by (simp add: rodzi_sie_def fun_eq_iff)
    ultimately have "druga_petla (Some (length L)) (map (ocen ?S) L @ ds) =
        Some (map (ocen ?S) L @ filter (rodzi_sie ?S) ds)" using dsn by simp
    with start nz ds False show ?thesis by (intro exI [of _ ds]) simp
  qed
qed

lemma usun_zywe_pola:
  "pola (usun_zywe_komorki l) = pole ` {c \<in> set l. zywi_sasiedzi c \<in> {-1, 2, 3}}"
proof (induction l)
  case (Cons c l)
  have "{d \<in> set (c # l). zywi_sasiedzi d \<in> {-1, 2, 3}} =
      (if zywi_sasiedzi c \<in> {-1, 2, 3} then {c} else {}) \<union> {d \<in> set l. zywi_sasiedzi d \<in> {-1, 2, 3}}"
    by auto
  with Cons show ?case by (auto simp: image_Un)
qed simp

lemma usun_zywe_dobra:
  assumes "distinct (map pole l)"
  shows "dobra (usun_zywe_komorki l)"
proof -
  have sub: "pola (usun_zywe_komorki l') \<subseteq> pola l'" for l' by (auto simp: usun_zywe_pola)
  have "distinct (map pole (usun_zywe_komorki l))" using assms
  proof (induction l)
    case (Cons c l)
    then have "pole c \<notin> pola (usun_zywe_komorki l)" using sub [of l] by auto
    with Cons show ?case by simp
  qed simp
  moreover have "\<forall>c\<in>set (usun_zywe_komorki l). zywi_sasiedzi c \<noteq> -1"
    by (induction l) auto
  ultimately show ?thesis by (simp add: dobra_def)
qed

lemma int_dwa_trzy: "int n \<in> {-1, 2, 3} \<longleftrightarrow> n \<in> {2, 3}"
  by auto

lemma nastepne_eq:
  assumes "martwe_ok S S ds"
  shows "{p \<in> S. card (wokol p \<inter> S) \<in> {2, 3}} \<union> {p \<in> pola ds. card (wokol p \<inter> S) = 3} = nastepne S"
proof -
  have "p \<in> pola ds" if "p \<notin> S" "card (wokol p \<inter> S) = 3" for p
  proof -
    from that(2) have "wokol p \<inter> S \<noteq> {}" by auto
    then obtain q where "q \<in> S" "p \<in> wokol q" using wokol_sym by blast
    with that(1) assms show ?thesis by (auto simp: martwe_ok_def wokol_def)
  qed
  moreover have "pola ds \<inter> S = {}" using assms by (auto simp: martwe_ok_def)
  ultimately show ?thesis by (auto simp: nastepne_def)
qed

text \<open>What the generation makes of the live cells and of the dead cells that are left.\<close>

lemma generacja_pola:
  assumes "martwe_ok (pola L) (pola L) ds" and "dobra L" and "set es \<subseteq> set ds" and "distinct es"
  shows "dobra (usun_zywe_komorki (map (ocen (pola L)) L @ es))"
    and "pola (usun_zywe_komorki (map (ocen (pola L)) L @ es)) =
      {p \<in> pola L. card (wokol p \<inter> pola L) \<in> {2, 3}} \<union> pola es"
proof -
  let ?S = "pola L"
  have inj: "inj_on pole (set ds)" "pola ds \<inter> ?S = {}" "\<forall>d\<in>set ds. zywi_sasiedzi d = -1"
    using assms(1) by (auto simp: martwe_ok_def distinct_map)
  have "distinct (map pole es)"
    using assms(3,4) inj(1) by (simp add: distinct_map inj_on_subset)
  moreover have "distinct (map pole (map (ocen ?S) L))" using assms(2) by (simp add: dobra_def comp_def)
  moreover have "pola (map (ocen ?S) L) \<inter> pola es = {}"
    using inj(2) assms(3) by (auto simp: image_image)
  ultimately show "dobra (usun_zywe_komorki (map (ocen ?S) L @ es))"
    by (intro usun_zywe_dobra) (simp only: distinct_pola_append simp_thms)
  have "{c \<in> set (map (ocen ?S) L @ es). zywi_sasiedzi c \<in> {-1, 2, 3}} =
      ocen ?S ` {c \<in> set L. card (wokol (pole c) \<inter> ?S) \<in> {2, 3}} \<union> set es"
  proof -
    have "{c \<in> set (map (ocen ?S) L). zywi_sasiedzi c \<in> {-1, 2, 3}} =
        ocen ?S ` {c \<in> set L. zywi_sasiedzi (ocen ?S c) \<in> {-1, 2, 3}}" by auto
    moreover have "{c \<in> set es. zywi_sasiedzi c \<in> {-1, 2, 3}} = set es"
      using assms(3) inj(3) by auto
    moreover have "{c \<in> set (map (ocen ?S) L @ es). zywi_sasiedzi c \<in> {-1, 2, 3}} =
        {c \<in> set (map (ocen ?S) L). zywi_sasiedzi c \<in> {-1, 2, 3}} \<union> {c \<in> set es. zywi_sasiedzi c \<in> {-1, 2, 3}}"
      by auto
    ultimately show ?thesis unfolding int_dwa_trzy ocen_def cell.simps by simp
  qed
  then show "pola (usun_zywe_komorki (map (ocen ?S) L @ es)) =
      {p \<in> ?S. card (wokol p \<inter> ?S) \<in> {2, 3}} \<union> pola es"
    unfolding usun_zywe_pola by (auto simp: image_Un image_image)
qed

lemma generacja_reguly:
  assumes "dobra l" and "bezpieczna l" and "length l \<noteq> 1"
  shows "\<exists>l'. nowa_generacja_lista l = Some l' \<and> dobra l' \<and> pola l' = nastepne (pola l)"
proof (cases "l = []")
  case True
  then show ?thesis
    by (simp add: nowa_generacja_lista_def pierwszy_def dobra_def nastepne_def)
next
  case False
  from generacja [OF assms(1,2) this] assms(3) obtain ds where
    ds: "martwe_ok (pola l) (pola l) ds" and
    run: "nowa_generacja_lista l =
      Some (usun_zywe_komorki (map (ocen (pola l)) l @ filter (rodzi_sie (pola l)) ds))" by auto
  have "distinct (filter (rodzi_sie (pola l)) ds)" "set (filter (rodzi_sie (pola l)) ds) \<subseteq> set ds"
    using ds by (auto simp: martwe_ok_def distinct_map)
  note g = generacja_pola [OF ds assms(1) this(2,1)]
  have "pola (filter (rodzi_sie (pola l)) ds) = {p \<in> pola ds. card (wokol p \<inter> pola l) = 3}"
    by (auto simp: rodzi_sie_def)
  with run g nastepne_eq [OF ds] show ?thesis by simp
qed

lemma generacja_jednej:
  assumes "zywi_sasiedzi c \<noteq> -1" and "bezpieczna [c]"
  shows "\<exists>l'. nowa_generacja_lista [c] = Some l' \<and> dobra l' \<and> pola l' = wokol (pole c)"
proof -
  have good: "dobra [c]" using assms(1) by (simp add: dobra_def)
  from generacja [OF this assms(2)] obtain ds where
    ds: "martwe_ok (pola [c]) (pola [c]) ds" and
    run: "nowa_generacja_lista [c] = Some (usun_zywe_komorki (map (ocen (pola [c])) [c] @ ds))" by auto
  have "distinct ds" using ds by (simp add: martwe_ok_def distinct_map)
  note g = generacja_pola [OF ds good subset_refl this]
  have "wokol (pole c) \<inter> pola [c] = {}" by (simp add: wokol_def)
  moreover have "pola ds = wokol (pole c)" using ds by (simp add: martwe_ok_def wokol_def)
  ultimately have "{p \<in> pola [c]. card (wokol p \<inter> pola [c]) \<in> {2, 3}} \<union> pola ds = wokol (pole c)"
    by auto
  with run g show ?thesis by simp
qed

end
