(* ===== verification/Life_Play.thy ===== *)
theory Life_Play
  imports Life_Gen
begin

text \<open>
  The input and output of \<open>GameOfLife.c\<close>: reading the first generation, sorting and dumping
  the list, drawing the window, and the loop over the player's commands. A loop that reads
  may run for ever at the end of the input, so those are partial functions; \<open>None\<close> is then
  a run that does not end, or undefined behaviour.
\<close>

section \<open>Reading a generation\<close>

partial_function (option) wczytaj_wiersz ::
    "int \<Rightarrow> int \<Rightarrow> cell list \<Rightarrow> string \<Rightarrow> (cell list \<times> string) option" where
  "wczytaj_wiersz c k l s =
     (if k = 10 then Some (l, s)
      else
        do {
          (k1, s1) \<leftarrow> (if k = 32
             then map_option (\<lambda>(x, s1). (case x of None \<Rightarrow> k | Some y \<Rightarrow> y, s1)) (scanf_d s)
             else Some (k, s));
          let (k2, s2) = getchar s1 in wczytaj_wiersz c k2 (wstaw_na_koniec l c k1 0) s2
        })"

partial_function (option) wczytaj_loop ::
    "int \<Rightarrow> cell list \<Rightarrow> string \<Rightarrow> (cell list \<times> string) option" where
  "wczytaj_loop c l s =
     (if c = 10 then Some (l, s)
      else
        do {
          (x, s1) \<leftarrow> scanf_d (ungetc c s);
          let c1 = (case x of None \<Rightarrow> c | Some y \<Rightarrow> y);
          let (k, s2) = getchar s1;
          (l1, s3) \<leftarrow> wczytaj_wiersz c1 k l s2;
          let (c2, s4) = getchar s3;
          let (c3, s5) = getchar s4;
          if c3 = 10 then Some (l1, s5) else wczytaj_loop c3 l1 s5
        })"

definition wczytaj :: "cell list \<Rightarrow> string \<Rightarrow> (cell list \<times> string) option" where
  "wczytaj l s =
     (let (c, s1) = getchar s; (c, s2) = getchar s1 in wczytaj_loop c l s2)"

section \<open>Sorting and dumping\<close>

text \<open>The index of the smallest cell behind the cursor: \<open>m\<close> is the smallest so far, at
  \<open>im\<close>, and \<open>k\<close> the index of the next cell.\<close>

fun min_wiersz :: "cell \<Rightarrow> nat \<Rightarrow> nat \<Rightarrow> cell list \<Rightarrow> nat" where
  "min_wiersz m im k [] = im"
| "min_wiersz m im k (c # l) =
     (if nr_wiersza m > nr_wiersza c then min_wiersz c k (Suc k) l else min_wiersz m im (Suc k) l)"

fun min_kolumna :: "int \<Rightarrow> cell \<Rightarrow> nat \<Rightarrow> nat \<Rightarrow> cell list \<Rightarrow> nat" where
  "min_kolumna x m im k [] = im"
| "min_kolumna x m im k (c # l) =
     (if nr_wiersza c = x
      then (if nr_kolumny m > nr_kolumny c then min_kolumna x c k (Suc k) l
            else min_kolumna x m im (Suc k) l)
      else im)"

text \<open>Exchanging the coordinates, and only the column, of the cell under the cursor and of
  the cell at \<open>q\<close>.\<close>

definition zamien_pola :: "nat \<Rightarrow> cell list \<Rightarrow> cell list" where
  "zamien_pola q l =
     (let a = l ! 0; b = l ! q; l1 = l[0 := a\<lparr>nr_wiersza := nr_wiersza b, nr_kolumny := nr_kolumny b\<rparr>]
      in l1[q := (l1 ! q)\<lparr>nr_wiersza := nr_wiersza a, nr_kolumny := nr_kolumny a\<rparr>])"

definition zamien_kolumny :: "nat \<Rightarrow> cell list \<Rightarrow> cell list" where
  "zamien_kolumny q l =
     (let y = nr_kolumny (l ! 0); l1 = l[0 := (l ! 0)\<lparr>nr_kolumny := nr_kolumny (l ! q)\<rparr>]
      in l1[q := (l1 ! q)\<lparr>nr_kolumny := y\<rparr>])"

lemma length_zamien [simp]:
  "length (zamien_pola q l) = length l" "length (zamien_kolumny q l) = length l"
  by (simp_all add: zamien_pola_def zamien_kolumny_def Let_def)

function posortuj_liste_wiersze :: "cell list \<Rightarrow> cell list" where
  "posortuj_liste_wiersze l =
     (case l of
        [] \<Rightarrow> []
      | c # r \<Rightarrow>
          (let l1 = zamien_pola (min_wiersz c 0 1 r) l in hd l1 # posortuj_liste_wiersze (tl l1)))"
  by pat_completeness auto
termination by (relation "measure length") auto

function posortuj_liste_kolumny :: "cell list \<Rightarrow> cell list" where
  "posortuj_liste_kolumny l =
     (case l of
        [] \<Rightarrow> []
      | c # r \<Rightarrow>
          (let l1 = zamien_kolumny (min_kolumna (nr_wiersza c) c 0 1 r) l
           in hd l1 # posortuj_liste_kolumny (tl l1)))"
  by pat_completeness auto
termination by (relation "measure length") auto

declare posortuj_liste_wiersze.simps [simp del] posortuj_liste_kolumny.simps [simp del]

text \<open>The loop that prints the cells after the one in row \<open>a\<close>.\<close>

fun zrzut_dalej :: "int \<Rightarrow> cell list \<Rightarrow> string" where
  "zrzut_dalej a [] = []"
| "zrzut_dalej a (c # l) =
     (if a = nr_wiersza c then '' '' @ printf_d (nr_kolumny c)
      else CHR 0x0A # ''/'' @ printf_d (nr_wiersza c) @ '' '' @ printf_d (nr_kolumny c)) @
     zrzut_dalej (nr_wiersza c) l"

definition zrzut_aktualnej_generacji :: "cell list \<Rightarrow> string \<times> cell list" where
  "zrzut_aktualnej_generacji l =
     (let l1 = posortuj_liste_kolumny (posortuj_liste_wiersze l)
      in ((case l1 of
             [] \<Rightarrow> []
           | c # r \<Rightarrow> ''/'' @ printf_d (nr_wiersza c) @ '' '' @ printf_d (nr_kolumny c) @
               zrzut_dalej (nr_wiersza c) r @ [CHR 0x0A]) @
          ''/'' @ [CHR 0x0A], l1))"

section \<open>Drawing the window\<close>

definition WIERSZE :: nat where "WIERSZE = 22"
definition KOLUMNY :: nat where "KOLUMNY = 80"

definition wypelnij :: "string list" where
  "wypelnij = replicate WIERSZE (replicate KOLUMNY CHR ''.'')"

definition drukuj :: "string list \<Rightarrow> string" where
  "drukuj a = concat (map (\<lambda>r. r @ [CHR 0x0A]) a) @ replicate KOLUMNY CHR ''='' @ [CHR 0x0A]"

text \<open>\<open>a[w][k] = '0'\<close>, undefined out of the bounds of the array.\<close>

definition postaw :: "int \<Rightarrow> int \<Rightarrow> string list \<Rightarrow> string list option" where
  "postaw w k a =
     (if 0 \<le> w \<and> w < int WIERSZE \<and> 0 \<le> k \<and> k < int KOLUMNY
      then Some (a[nat w := (a ! nat w)[nat k := CHR ''0'']]) else None)"

text \<open>
  The condition under which a cell is drawn, in the order of the code; \<open>i + WIERSZE\<close> and
  \<open>j + KOLUMNY\<close> are sums of \<open>int\<close>, so that a window at the limit overflows when it is compared
  with a cell that is not before it.
\<close>

definition w_oknie :: "cell \<Rightarrow> int \<Rightarrow> int \<Rightarrow> bool option" where
  "w_oknie c i j =
     (if nr_wiersza c < i then Some False
      else if \<not> is_int (i + int WIERSZE) then None
      else if nr_wiersza c > i + int WIERSZE - 1 then Some False
      else if nr_kolumny c < j then Some False
      else if \<not> is_int (j + int KOLUMNY) then None
      else Some (nr_kolumny c \<le> j + int KOLUMNY - 1))"

fun rysuj :: "cell list \<Rightarrow> int \<Rightarrow> int \<Rightarrow> string list \<Rightarrow> string list option" where
  "rysuj [] i j a = Some a"
| "rysuj (c # l) i j a =
     do {
       widac \<leftarrow> w_oknie c i j;
       a1 \<leftarrow> (if widac then postaw (nr_wiersza c - i) (nr_kolumny c - j) a else Some a);
       rysuj l i j a1
     }"

definition drukowanie_generacji :: "cell list \<Rightarrow> int \<Rightarrow> int \<Rightarrow> string option" where
  "drukowanie_generacji l i j = map_option drukuj (rysuj l i j wypelnij)"

section \<open>The commands of the player\<close>

fun generacje :: "nat \<Rightarrow> cell list \<Rightarrow> cell list option" where
  "generacje 0 l = Some l"
| "generacje (Suc n) l = do { l1 \<leftarrow> nowa_generacja_lista l; generacje n l1 }"

text \<open>The loop of \<open>graj\<close>: \<open>c\<close> is the character just read, \<open>w\<close> and \<open>k\<close> the window, \<open>out\<close> what
  was printed. \<open>a\<close> and \<open>b\<close> are uninitialised when \<open>scanf\<close> finds no number.\<close>

partial_function (option) graj_loop ::
    "int \<Rightarrow> int \<Rightarrow> int \<Rightarrow> cell list \<Rightarrow> string \<Rightarrow> string \<Rightarrow> (cell list \<times> string \<times> string) option" where
  "graj_loop c w k l s out =
     (if c = 46 then Some (l, s, out)
      else if c = 10 then
        do {
          l1 \<leftarrow> nowa_generacja_lista l;
          d \<leftarrow> drukowanie_generacji l1 w k;
          let (c1, s1) = getchar s;
          graj_loop c1 w k l1 s1 (out @ d)
        }
      else
        do {
          (x, s1) \<leftarrow> scanf_d (ungetc c s);
          a \<leftarrow> x;
          let (c1, s2) = getchar s1;
          if c1 = 32 then
            do {
              (y, s3) \<leftarrow> scanf_d s2;
              b \<leftarrow> y;
              d \<leftarrow> drukowanie_generacji l a b;
              let (c2, s4) = getchar s3;
              let (c3, s5) = getchar s4;
              graj_loop c3 a b l s5 (out @ d)
            }
          else if a = 1 then
            do {
              l1 \<leftarrow> nowa_generacja_lista l;
              d \<leftarrow> drukowanie_generacji l1 w k;
              let (c2, s3) = getchar s2;
              graj_loop c2 w k l1 s3 (out @ d)
            }
          else if a = 0 then
            do {
              let (z, l1) = zrzut_aktualnej_generacji l;
              d \<leftarrow> drukowanie_generacji l1 w k;
              let (c2, s3) = getchar s2;
              graj_loop c2 w k l1 s3 (out @ z @ d)
            }
          else
            do {
              l1 \<leftarrow> generacje (nat a) l;
              d \<leftarrow> drukowanie_generacji l1 w k;
              let (c2, s3) = getchar s2;
              graj_loop c2 w k l1 s3 (out @ d)
            }
        })"

declare wczytaj_wiersz.simps [code] wczytaj_loop.simps [code] graj_loop.simps [code]

definition graj :: "cell list \<Rightarrow> string \<Rightarrow> (cell list \<times> string \<times> string) option" where
  "graj l s =
     do {
       d \<leftarrow> drukowanie_generacji l 1 1;
       let (c, s1) = getchar s;
       graj_loop c 1 1 l s1 d
     }"

text \<open>\<open>main\<close>: the cells that are freed at the end, the input left and the output.\<close>

definition main :: "string \<Rightarrow> (cell list \<times> string \<times> string) option" where
  "main s = do { (l, s1) \<leftarrow> wczytaj [] s; graj l s1 }"

end
