(* ===== verification/Life_Text.thy ===== *)
theory Life_Text
  imports Life_Play
begin

text \<open>
  Correctness of the input and output of \<open>GameOfLife.c\<close>: the two selection sorts, the dump
  that reads back as the generation, the window, and the commands.
\<close>

section \<open>The sorts\<close>

definition przed :: "pole \<Rightarrow> pole \<Rightarrow> bool" where
  "przed p q \<longleftrightarrow> fst p < fst q \<or> (fst p = fst q \<and> snd p \<le> snd q)"

lemma min_wiersz_ok:
  assumes "drop k L = l" and "im < k" and "L ! im = m" and "k \<le> length L"
  shows "min_wiersz m im k l < length L \<and>
    (\<forall>c\<in>insert m (set l). nr_wiersza (L ! min_wiersz m im k l) \<le> nr_wiersza c)"
  using assms
proof (induction m im k l rule: min_wiersz.induct)
  case (2 m im k c l)
  then have c: "L ! k = c" "drop (Suc k) L = l" "k < length L"
    by (auto simp: drop_Suc tl_drop [symmetric] intro: nth_via_drop) (metis drop_all linorder_not_less list.distinct(1))
  show ?case using 2 c by (fastforce split: if_splits)
qed auto

lemma min_kolumna_ok:
  assumes "drop k L = l" and "im < k" and "L ! im = m" and "k \<le> length L" and "nr_wiersza m = x"
  shows "min_kolumna x m im k l < length L \<and> nr_wiersza (L ! min_kolumna x m im k l) = x \<and>
    (\<forall>c\<in>insert m (set (takeWhile (\<lambda>c. nr_wiersza c = x) l)).
       nr_kolumny (L ! min_kolumna x m im k l) \<le> nr_kolumny c)"
  using assms
proof (induction x m im k l rule: min_kolumna.induct)
  case (2 x m im k c l)
  then have c: "L ! k = c" "drop (Suc k) L = l" "k < length L"
    by (auto simp: drop_Suc tl_drop [symmetric] intro: nth_via_drop) (metis drop_all linorder_not_less list.distinct(1))
  show ?case using 2 c by (fastforce split: if_splits)
qed auto

lemma zamien_pola_map:
  assumes "q < length l"
  shows "map pole (zamien_pola q l) = (map pole l)[0 := map pole l ! q, q := map pole l ! 0]"
    and "map zywi_sasiedzi (zamien_pola q l) = map zywi_sasiedzi l"
proof -
  have "0 < length l" using assms by linarith
  with assms show "map pole (zamien_pola q l) = (map pole l)[0 := map pole l ! q, q := map pole l ! 0]"
    by (auto simp: zamien_pola_def Let_def map_update pole_def nth_list_update)
  show "map zywi_sasiedzi (zamien_pola q l) = map zywi_sasiedzi l"
    using assms \<open>0 < length l\<close>
    by (intro nth_equalityI) (auto simp: zamien_pola_def Let_def nth_list_update)
qed

lemma zamien_kolumny_pola:
  assumes "q < length l" and "nr_wiersza (l ! q) = nr_wiersza (l ! 0)"
  shows "zamien_kolumny q l = zamien_pola q l"
proof -
  have "0 < length l" using assms by linarith
  with assms show ?thesis
    by (intro nth_equalityI)
      (auto simp: zamien_pola_def zamien_kolumny_def Let_def nth_list_update)
qed

lemma zamien_mset:
  assumes "q < length l"
  shows "mset (map pole (zamien_pola q l)) = mset (map pole l)"
proof -
  have "0 < length (map pole l)" and "q < length (map pole l)" using assms by auto
  from mset_swap [OF this(2,1)] show ?thesis by (simp add: zamien_pola_map [OF assms])
qed

text \<open>One round of a sort: the least cell comes to the front and the rest is the same.\<close>

lemma runda:
  assumes "q < length l" and "zamien_pola q l = h # t"
  shows "pole h = pole (l ! q)" and "pola (h # t) = pola l" and "mset (map pole (h # t)) = mset (map pole l)"
    and "map zywi_sasiedzi (h # t) = map zywi_sasiedzi l"
proof -
  have "l \<noteq> []" using assms(1) by auto
  have "map pole (zamien_pola q l) ! 0 = pole (l ! q)"
    unfolding zamien_pola_map(1) [OF assms(1)]
    using assms(1) \<open>l \<noteq> []\<close> by (cases "q = 0") (auto simp: nth_list_update)
  with assms(2) show "pole h = pole (l ! q)" by simp
  show m: "mset (map pole (h # t)) = mset (map pole l)" using zamien_mset [OF assms(1)] assms(2) by simp
  from arg_cong [OF m, of set_mset] show "pola (h # t) = pola l" by simp
  show "map zywi_sasiedzi (h # t) = map zywi_sasiedzi l" using zamien_pola_map(2) [OF assms(1)] assms(2) by simp
qed

lemma sort_wiersze:
  "mset (map pole (posortuj_liste_wiersze l)) = mset (map pole l) \<and>
   map zywi_sasiedzi (posortuj_liste_wiersze l) = map zywi_sasiedzi l \<and>
   sorted_wrt (\<lambda>p q. fst p \<le> fst q) (map pole (posortuj_liste_wiersze l))"
proof (induction l rule: posortuj_liste_wiersze.induct)
  case (1 l)
  show ?case
  proof (cases l)
    case (Cons c r)
    define q where "q = min_wiersz c 0 1 r"
    from min_wiersz_ok [of 1 l r 0 c] Cons
    have q: "q < length l" "\<forall>x\<in>set l. nr_wiersza (l ! q) \<le> nr_wiersza x" by (auto simp: q_def)
    obtain h t where ht: "zamien_pola q l = h # t" using q(1) length_zamien(1) [of q l]
      by (cases "zamien_pola q l") auto
    note r = runda [OF q(1) ht]
    from 1 [OF Cons refl] Cons ht q_def have IH:
      "mset (map pole (posortuj_liste_wiersze t)) = mset (map pole t)"
      "map zywi_sasiedzi (posortuj_liste_wiersze t) = map zywi_sasiedzi t"
      "sorted_wrt (\<lambda>p q. fst p \<le> fst q) (map pole (posortuj_liste_wiersze t))" by simp_all
    have eq: "posortuj_liste_wiersze l = h # posortuj_liste_wiersze t"
      using Cons ht by (subst posortuj_liste_wiersze.simps) (simp add: q_def)
    have "pola (posortuj_liste_wiersze t) = pola t" using arg_cong [OF IH(1), of set_mset] by simp
    also have "\<dots> \<subseteq> pola l" using r(2) by auto
    finally have "\<forall>p\<in>pola (posortuj_liste_wiersze t). fst (pole h) \<le> fst p"
      using q(2) r(1) by (auto simp: pole_def)
    with IH r show ?thesis by (simp add: eq)
  qed (simp add: posortuj_liste_wiersze.simps)
qed

lemma takeWhile_sorted:
  assumes "sorted_wrt (\<lambda>p q. fst p \<le> fst q) (map pole (c # r))" and "e \<in> set r"
    and "nr_wiersza e = nr_wiersza c"
  shows "e \<in> set (takeWhile (\<lambda>d. nr_wiersza d = nr_wiersza c) r)"
  using assms by (induction r) (auto simp: pole_def intro: antisym)

lemma przed_refl [simp]: "przed p p"
  by (simp add: przed_def)

lemma sort_kolumny:
  assumes "sorted_wrt (\<lambda>p q. fst p \<le> fst q) (map pole l)"
  shows "mset (map pole (posortuj_liste_kolumny l)) = mset (map pole l) \<and>
   map zywi_sasiedzi (posortuj_liste_kolumny l) = map zywi_sasiedzi l \<and>
   sorted_wrt przed (map pole (posortuj_liste_kolumny l))"
  using assms
proof (induction l rule: posortuj_liste_kolumny.induct)
  case (1 l)
  show ?case
  proof (cases l)
    case (Cons c r)
    define q where "q = min_kolumna (nr_wiersza c) c 0 1 r"
    from min_kolumna_ok [of 1 l r 0 c "nr_wiersza c"] Cons
    have q: "q < length l" "nr_wiersza (l ! q) = nr_wiersza (l ! 0)" and
      least: "\<forall>e\<in>insert c (set (takeWhile (\<lambda>d. nr_wiersza d = nr_wiersza c) r)). nr_kolumny (l ! q) \<le> nr_kolumny e"
      by (auto simp: q_def)
    note swap = zamien_kolumny_pola [OF q]
    obtain h t where ht: "zamien_pola q l = h # t" using q(1) length_zamien(1) [of q l]
      by (cases "zamien_pola q l") auto
    note rd = runda [OF q(1) ht]
    have rows: "map fst (map pole (h # t)) = map fst (map pole l)"
    proof -
      let ?ws = "map fst (map pole l)"
      have i: "0 < length l" using Cons by simp
      have "map fst (map pole (h # t)) = ?ws[0 := fst (pole (l ! q)), q := fst (pole (l ! 0))]"
        using arg_cong [OF zamien_pola_map(1) [OF q(1)], of "map fst"] i q(1) ht by (simp add: map_update)
      moreover have "fst (pole (l ! q)) = ?ws ! 0" "fst (pole (l ! 0)) = ?ws ! q"
        using q i by (simp_all add: pole_def)
      ultimately show ?thesis by (simp only: list_update_id)
    qed
    have sorted: "sorted_wrt (\<lambda>p q. fst p \<le> fst q) (map pole (h # t))"
    proof -
      have "sorted_wrt (\<le>) (map fst (map pole l))" using 1(2) by (simp only: sorted_wrt_map)
      then have "sorted_wrt (\<le>) (map fst (map pole (h # t)))" by (simp only: rows)
      then show ?thesis by (simp only: sorted_wrt_map)
    qed
    with 1(1) [OF Cons refl] swap ht Cons q_def have IH:
      "mset (map pole (posortuj_liste_kolumny t)) = mset (map pole t)"
      "map zywi_sasiedzi (posortuj_liste_kolumny t) = map zywi_sasiedzi t"
      "sorted_wrt przed (map pole (posortuj_liste_kolumny t))" by simp_all
    have eq: "posortuj_liste_kolumny l = h # posortuj_liste_kolumny t"
      using Cons ht swap by (subst posortuj_liste_kolumny.simps) (simp add: q_def)
    have "przed (pole h) p" if "p \<in> pola l" for p
    proof -
      from that obtain e where e: "e \<in> set l" "p = pole e" by auto
      show ?thesis
      proof (cases "nr_wiersza e = nr_wiersza c")
        case True
        then have "e \<in> insert c (set (takeWhile (\<lambda>d. nr_wiersza d = nr_wiersza c) r))"
          using takeWhile_sorted [of c r e] 1(2) Cons e(1) by auto
        with least e(2) True rd(1) q(2) Cons show ?thesis by (auto simp: przed_def pole_def)
      next
        case False
        with 1(2) Cons e(1) have "nr_wiersza c < nr_wiersza e" by (auto simp: pole_def)
        with rd(1) q(2) Cons e(2) show ?thesis by (auto simp: przed_def pole_def)
      qed
    qed
    moreover have "pola (posortuj_liste_kolumny t) = pola t" using arg_cong [OF IH(1), of set_mset] by simp
    moreover have "pola t \<subseteq> pola l" using rd(2) by auto
    ultimately have "\<forall>p\<in>pola (posortuj_liste_kolumny t). przed (pole h) p" by blast
    with IH rd show ?thesis by (simp add: eq)
  qed (simp add: posortuj_liste_kolumny.simps)
qed

definition posortowana :: "cell list \<Rightarrow> cell list" where
  "posortowana l = posortuj_liste_kolumny (posortuj_liste_wiersze l)"

lemma posortowana_ok:
  "mset (map pole (posortowana l)) = mset (map pole l)"
  "map zywi_sasiedzi (posortowana l) = map zywi_sasiedzi l"
  "sorted_wrt przed (map pole (posortowana l))"
  using sort_wiersze [of l] sort_kolumny [of "posortuj_liste_wiersze l"]
  by (simp_all add: posortowana_def)

lemma posortowana_pola: "pola (posortowana l) = pola l"
  using arg_cong [OF posortowana_ok(1) [of l], of set_mset] by simp

section \<open>A dump is read back\<close>

definition swieza :: "cell \<Rightarrow> cell" where
  "swieza c = komorka (nr_wiersza c) (nr_kolumny c) 0"

definition w_int :: "cell list \<Rightarrow> bool" where
  "w_int l \<longleftrightarrow> (\<forall>c\<in>set l. is_int (nr_wiersza c) \<and> is_int (nr_kolumny c))"

abbreviation nl :: char where "nl \<equiv> CHR 0x0A"

lemma codes [simp]:
  "code nl = 10" "code CHR '' '' = 32" "code CHR ''/'' = 47" "code CHR ''.'' = 46"
  "\<not> is_digit nl" "\<not> is_digit CHR '' ''" "\<not> is_digit CHR ''/''"
  by (simp_all add: is_digit_def)

text \<open>What \<open>wczytaj_loop\<close> does once it has the number of the row.\<close>

definition reszta_wiersza :: "int \<Rightarrow> cell list \<Rightarrow> string \<Rightarrow> (cell list \<times> string) option" where
  "reszta_wiersza a l s =
     (let (k, s2) = getchar s
      in do {
        (l1, s3) \<leftarrow> wczytaj_wiersz a k l s2;
        let (c2, s4) = getchar s3;
        let (c3, s5) = getchar s4;
        if c3 = 10 then Some (l1, s5) else wczytaj_loop c3 l1 s5
      })"

lemma printf_first:
  obtains ch cs where "printf_d x = ch # cs" and "code ch \<noteq> 10" and "code ch \<noteq> 46" and "code ch \<noteq> 32"
proof -
  obtain ch cs where c: "printf_d x = ch # cs" "\<not> is_space ch" "is_digit ch \<or> ch = CHR ''-''"
    by (rule printf_head)
  then show thesis by (intro that [of ch cs]) (auto simp: is_space_def is_digit_def)
qed

lemma wczytaj_numer:
  assumes "is_int a" and "stops s"
  shows "(case getchar (printf_d a @ s) of (c, s1) \<Rightarrow>
      c \<noteq> 10 \<and> wczytaj_loop c l s1 = reszta_wiersza a l s)"
proof -
  obtain ch cs where c: "printf_d a = ch # cs" "code ch \<noteq> 10" by (rule printf_first)
  have "scanf_d (ch # cs @ s) = Some (Some a, s)" using scanf_printf [OF assms] c(1) by simp
  with c show ?thesis
    by (subst wczytaj_loop.simps) (simp add: reszta_wiersza_def Let_def)
qed

lemma reszta_kolumna:
  assumes "is_int k" and "stops s"
  shows "reszta_wiersza a l ('' '' @ printf_d k @ s) = reszta_wiersza a (l @ [komorka a k 0]) s"
  using scanf_printf [OF assms]
  by (simp add: reszta_wiersza_def wczytaj_wiersz.simps [of a 32] wstaw_append split: prod.split)

lemma reszta_koniec:
  "reszta_wiersza a l (nl # CHR ''/'' # s) = (case getchar s of (c, s1) \<Rightarrow>
     if c = 10 then Some (l, s1) else wczytaj_loop c l s1)"
  by (simp add: reszta_wiersza_def wczytaj_wiersz.simps [of a 10])

lemma stops_dalej: "stops (zrzut_dalej a l @ nl # s)"
  by (cases l) auto

lemma reszta_dalej:
  assumes "w_int r"
  shows "reszta_wiersza a l (zrzut_dalej a r @ nl # ''/'' @ nl # s) = Some (l @ map swieza r, s)"
  using assms
proof (induction r arbitrary: a l)
  case Nil
  show ?case by (simp add: reszta_koniec)
next
  case (Cons c r)
  have ints: "is_int (nr_wiersza c)" "is_int (nr_kolumny c)" and w: "w_int r"
    using Cons.prems by (auto simp: w_int_def)
  let ?T = "zrzut_dalej (nr_wiersza c) r @ nl # ''/'' @ nl # s"
  have T: "stops ?T" using stops_dalej by auto
  have col: "reszta_wiersza (nr_wiersza c) l ('' '' @ printf_d (nr_kolumny c) @ ?T) =
      Some (l @ map swieza (c # r), s)"
    using reszta_kolumna [OF ints(2) T] Cons.IH [OF w] by (simp add: swieza_def)
  show ?case
  proof (cases "a = nr_wiersza c")
    case True
    with col show ?thesis by simp
  next
    case False
    have "stops ('' '' @ printf_d (nr_kolumny c) @ ?T)" by simp
    from wczytaj_numer [OF ints(1) this, of l] col False show ?thesis
      by (simp add: reszta_koniec split: prod.splits)
  qed
qed

lemma zrzut_eq: "zrzut_aktualnej_generacji l =
  ((case posortowana l of [] \<Rightarrow> []
    | c # r \<Rightarrow> ''/'' @ printf_d (nr_wiersza c) @ '' '' @ printf_d (nr_kolumny c) @
        zrzut_dalej (nr_wiersza c) r @ [nl]) @ ''/'' @ [nl], posortowana l)"
  by (simp add: zrzut_aktualnej_generacji_def posortowana_def Let_def)

lemma zrzut_wczytaj:
  assumes "w_int l"
  shows "wczytaj [] (fst (zrzut_aktualnej_generacji l) @ s) = Some (map swieza (posortowana l), s)"
proof -
  have "w_int (posortowana l)" using assms posortowana_pola [of l] unfolding w_int_def
    by (metis (no_types, lifting) imageE image_eqI pole_def prod.inject)
  then show ?thesis
  proof (cases "posortowana l")
    case Nil
    then show ?thesis by (simp add: zrzut_eq wczytaj_def wczytaj_loop.simps)
  next
    case (Cons c r)
    assume "w_int (posortowana l)"
    with Cons have ints: "is_int (nr_wiersza c)" "is_int (nr_kolumny c)" and w: "w_int r"
      by (auto simp: w_int_def)
    let ?T = "zrzut_dalej (nr_wiersza c) r @ nl # ''/'' @ nl # s"
    have T: "stops ?T" using stops_dalej by auto
    have "stops ('' '' @ printf_d (nr_kolumny c) @ ?T)" by simp
    from wczytaj_numer [OF ints(1) this, of "[]"] reszta_kolumna [OF ints(2) T, of "nr_wiersza c" "[]"]
      reszta_dalej [OF w, of "nr_wiersza c"] Cons
    show ?thesis by (simp add: zrzut_eq wczytaj_def swieza_def split: prod.splits)
  qed
qed

end
