(* ===== verification/Life_Props.thy ===== *)
theory Life_Props
  imports Life_Text
begin

text \<open>
  The window and the commands of \<open>GameOfLife.c\<close>, and the properties of the program.
\<close>

section \<open>The window\<close>

definition siatka :: "(nat \<Rightarrow> nat \<Rightarrow> char) \<Rightarrow> string list" where
  "siatka f = map (\<lambda>r. map (f r) [0..<KOLUMNY]) [0..<WIERSZE]"

lemma siatka_update:
  assumes "r < WIERSZE" and "k < KOLUMNY"
  shows "(siatka f)[r := (siatka f ! r)[k := x]] = siatka (\<lambda>r' k'. if r' = r \<and> k' = k then x else f r' k')"
  using assms
  by (intro nth_equalityI) (auto simp: siatka_def nth_list_update intro!: nth_equalityI)

lemma rysuj_ok:
  "rysuj l i j (siatka f) =
     (if \<exists>c\<in>set l. w_oknie c i j = None then None
      else Some (siatka (\<lambda>r k. if (i + int r, j + int k) \<in> pola l then CHR ''0'' else f r k)))"
proof (induction l arbitrary: f)
  case (Cons c l)
  show ?case
  proof (cases "w_oknie c i j")
    case (Some widac)
    show ?thesis
    proof (cases widac)
      case True
      then have in_window: "nr_wiersza c \<ge> i" "nr_wiersza c \<le> i + int WIERSZE - 1" "nr_kolumny c \<ge> j"
          "nr_kolumny c \<le> j + int KOLUMNY - 1"
        using Some by (auto simp: w_oknie_def split: if_splits)
      define r k where "r = nat (nr_wiersza c - i)" and "k = nat (nr_kolumny c - j)"
      from in_window have rk: "r < WIERSZE" "k < KOLUMNY" "nr_wiersza c - i = int r" "nr_kolumny c - j = int k"
        by (auto simp: r_def k_def)
      have "postaw (nr_wiersza c - i) (nr_kolumny c - j) (siatka f) =
          Some (siatka (\<lambda>r' k'. if r' = r \<and> k' = k then CHR ''0'' else f r' k'))"
        using rk siatka_update [OF rk(1,2)] by (simp add: postaw_def)
      moreover have "(i + int r', j + int k') = pole c \<longleftrightarrow> r' = r \<and> k' = k" for r' k'
        using rk by (auto simp: pole_def)
      ultimately show ?thesis using Some True Cons
        by (auto simp: siatka_def)
    next
      case False
      then have "\<not> (nr_wiersza c \<ge> i \<and> nr_wiersza c \<le> i + int WIERSZE - 1 \<and>
          nr_kolumny c \<ge> j \<and> nr_kolumny c \<le> j + int KOLUMNY - 1)"
        using Some by (auto simp: w_oknie_def split: if_splits)
      then have "siatka (\<lambda>r k. if (i + int r, j + int k) \<in> pola (c # l) then CHR ''0'' else f r k) =
          siatka (\<lambda>r k. if (i + int r, j + int k) \<in> pola l then CHR ''0'' else f r k)"
        by (auto simp: siatka_def pole_def)
      then show ?thesis using Some False Cons by simp
    qed
  qed simp
qed simp

lemma wypelnij_siatka: "wypelnij = siatka (\<lambda>r k. CHR ''.'')"
  by (intro nth_equalityI) (auto simp: wypelnij_def siatka_def intro!: nth_equalityI)

lemma drukowanie_ok:
  "drukowanie_generacji l i j =
     (if \<exists>c\<in>set l. w_oknie c i j = None then None
      else Some (drukuj (siatka (\<lambda>r k. if (i + int r, j + int k) \<in> pola l then CHR ''0'' else CHR ''.''))))"
  by (simp add: drukowanie_generacji_def wypelnij_siatka rysuj_ok)

lemma w_oknie_None:
  "w_oknie c i j = None \<longleftrightarrow> nr_wiersza c \<ge> i \<and> (\<not> is_int (i + int WIERSZE) \<or>
     nr_wiersza c < i + int WIERSZE \<and> nr_kolumny c \<ge> j \<and> \<not> is_int (j + int KOLUMNY))"
  by (auto simp: w_oknie_def)

section \<open>The commands\<close>

text \<open>A command of the player, how it is typed, and what it does to the window \<open>(w, k)\<close>, the
  cells and the output.\<close>

datatype komenda = Nastepna | Okno int int | Zrzut | Skok int

fun zapis :: "komenda \<Rightarrow> string" where
  "zapis Nastepna = [nl]"
| "zapis (Okno a b) = printf_d a @ '' '' @ printf_d b @ [nl]"
| "zapis Zrzut = ''0'' @ [nl]"
| "zapis (Skok n) = printf_d n @ [nl]"

fun poprawna :: "komenda \<Rightarrow> bool" where
  "poprawna (Okno a b) \<longleftrightarrow> is_int a \<and> is_int b"
| "poprawna (Skok n) \<longleftrightarrow> is_int n \<and> n \<noteq> 0"
| "poprawna _ \<longleftrightarrow> True"

type_synonym stan_gry = "int \<times> int \<times> cell list \<times> string"

definition pokaz :: "int \<Rightarrow> int \<Rightarrow> cell list \<Rightarrow> string \<Rightarrow> stan_gry option" where
  "pokaz w k l out = do { d \<leftarrow> drukowanie_generacji l w k; Some (w, k, l, out @ d) }"

fun wykonaj_komende :: "komenda \<Rightarrow> stan_gry \<Rightarrow> stan_gry option" where
  "wykonaj_komende Nastepna (w, k, l, out) = do { l1 \<leftarrow> nowa_generacja_lista l; pokaz w k l1 out }"
| "wykonaj_komende (Okno a b) (w, k, l, out) = pokaz a b l out"
| "wykonaj_komende Zrzut (w, k, l, out) =
     (let (z, l1) = zrzut_aktualnej_generacji l in pokaz w k l1 (out @ z))"
| "wykonaj_komende (Skok n) (w, k, l, out) = do { l1 \<leftarrow> generacje (nat n) l; pokaz w k l1 out }"

fun wykonaj_komendy :: "komenda list \<Rightarrow> stan_gry \<Rightarrow> stan_gry option" where
  "wykonaj_komendy [] x = Some x"
| "wykonaj_komendy (c # cs) x = do { y \<leftarrow> wykonaj_komende c x; wykonaj_komendy cs y }"

definition petla :: "string \<Rightarrow> stan_gry \<Rightarrow> (cell list \<times> string \<times> string) option" where
  "petla s x = (case (getchar s, x) of ((c, s1), (w, k, l, out)) \<Rightarrow> graj_loop c w k l s1 out)"

lemma petla_kropka: "petla (CHR ''.'' # s) (w, k, l, out) = Some (l, s, out)"
  by (simp add: petla_def graj_loop.simps)

lemma petla_nowa: "petla (nl # s) (w, k, l, out) =
    do { x \<leftarrow> wykonaj_komende Nastepna (w, k, l, out); petla s x }"
  by (cases "nowa_generacja_lista l"; cases "getchar s")
    (simp_all add: petla_def graj_loop.simps [of 10] pokaz_def split_beta)

text \<open>A number at the start of a command.\<close>

lemma petla_liczba:
  assumes "is_int a" and "stops s"
  shows "petla (printf_d a @ s) (w, k, l, out) =
    (let (c1, s2) = getchar s
     in if c1 = 32 then
          do {
            (y, s3) \<leftarrow> scanf_d s2;
            b \<leftarrow> y;
            x \<leftarrow> pokaz a b l out;
            petla (snd (getchar s3)) x
          }
        else if a = 1 then do { x \<leftarrow> wykonaj_komende Nastepna (w, k, l, out); petla s2 x }
        else if a = 0 then do { x \<leftarrow> wykonaj_komende Zrzut (w, k, l, out); petla s2 x }
        else do { x \<leftarrow> wykonaj_komende (Skok a) (w, k, l, out); petla s2 x })"
proof -
  obtain ch cs where c: "printf_d a = ch # cs" "code ch \<noteq> 10" "code ch \<noteq> 46" by (rule printf_first)
  have "scanf_d (ch # cs @ s) = Some (Some a, s)" using scanf_printf [OF assms] c(1) by simp
  with c show ?thesis
    by (simp add: petla_def graj_loop.simps [of "code ch"] pokaz_def Let_def split_beta
        cong: if_cong)
qed

lemma petla_komenda:
  assumes "poprawna c"
  shows "petla (zapis c @ s) x = do { y \<leftarrow> wykonaj_komende c x; petla s y }"
proof (cases x)
  case (fields w k l out)
  show ?thesis
  proof (cases c)
    case Nastepna
    with fields petla_nowa show ?thesis by simp
  next
    case (Okno a b)
    with assms have "is_int a" "is_int b" by simp_all
    with petla_liczba [of a "CHR '' '' # printf_d b @ nl # s"] scanf_printf [of b "nl # s"] fields Okno
    show ?thesis by simp
  next
    case Zrzut
    have "printf_d 0 = ''0''" by (simp add: printf_d_def dec.simps char_of_def bit_0)
    moreover have "is_int 0" by (simp add: is_int_def int_min_def int_max_def)
    ultimately show ?thesis using petla_liczba [of 0 "nl # s"] fields Zrzut by simp
  next
    case (Skok n)
    with assms have "is_int n" "n \<noteq> 0" by simp_all
    with petla_liczba [of n "nl # s"] fields Skok show ?thesis by (cases "n = 1") simp_all
  qed
qed

lemma petla_komendy:
  assumes "\<forall>c\<in>set cs. poprawna c"
  shows "petla (concat (map zapis cs) @ CHR ''.'' # s) x =
    do { (w, k, l, out) \<leftarrow> wykonaj_komendy cs x; Some (l, s, out) }"
  using assms
proof (induction cs arbitrary: x)
  case Nil
  show ?case by (cases x) (simp add: petla_kropka)
next
  case (Cons c cs)
  then show ?case by (simp add: petla_komenda)
qed

section \<open>Many generations\<close>

definition zasieg :: "nat \<Rightarrow> pole set \<Rightarrow> bool" where
  "zasieg m S \<longleftrightarrow>
     (\<forall>p\<in>S. int_min + int m \<le> fst p \<and> fst p \<le> int_max - int m \<and>
        int_min + int m \<le> snd p \<and> snd p \<le> int_max - int m)"

lemma bezpieczna_zasieg: "zasieg (m + 2) (pola l) \<Longrightarrow> bezpieczna l"
  by (force simp: zasieg_def bezpieczna_def pole_def)

lemma nastepne_blisko: "p \<in> nastepne S \<Longrightarrow> \<exists>q\<in>S. p \<in> kwadrat q"
proof -
  assume p: "p \<in> nastepne S"
  then consider "p \<in> S" | "wokol p \<inter> S \<noteq> {}" by (force simp: nastepne_def)
  then show "\<exists>q\<in>S. p \<in> kwadrat q"
  proof cases
    case 2
    then obtain q where "q \<in> S" "p \<in> wokol q" using wokol_sym by blast
    then show ?thesis by (auto simp: wokol_def)
  qed (use kwadrat_self in blast)
qed

lemma zasieg_nastepne: "zasieg (Suc m) S \<Longrightarrow> zasieg m (nastepne S)"
  by (fastforce simp: zasieg_def kwadrat_def dest: nastepne_blisko)

lemma card_pola: "dobra l \<Longrightarrow> card (pola l) = length l"
  using distinct_card [of "map pole l"] by (simp add: dobra_def)

lemma generacje_ok:
  assumes "dobra l" and "zasieg (n + 2) (pola l)" and "\<forall>m<n. card ((nastepne ^^ m) (pola l)) \<noteq> 1"
  shows "\<exists>l'. generacje n l = Some l' \<and> dobra l' \<and> pola l' = (nastepne ^^ n) (pola l)"
  using assms
proof (induction n arbitrary: l)
  case (Suc n)
  from Suc.prems(3) have "length l \<noteq> 1" using card_pola [OF Suc.prems(1)] by (auto dest: spec [of _ 0])
  moreover have "bezpieczna l" using Suc.prems(2) bezpieczna_zasieg [of "Suc n"] by simp
  ultimately obtain l1 where l1: "nowa_generacja_lista l = Some l1" "dobra l1" "pola l1 = nastepne (pola l)"
    using generacja_reguly [OF Suc.prems(1)] by blast
  have "zasieg (n + 2) (pola l1)" using zasieg_nastepne Suc.prems(2) l1(3) by simp
  moreover have "\<forall>m<n. card ((nastepne ^^ m) (pola l1)) \<noteq> 1"
    using Suc.prems(3) l1(3) by (metis Suc_mono funpow_swap1 funpow.simps(2) comp_apply)
  ultimately obtain l' where "generacje n l1 = Some l'" "dobra l'" "pola l' = (nastepne ^^ n) (pola l1)"
    using Suc.IH [OF l1(2)] by blast
  with l1 show ?case by (simp add: funpow_swap1)
qed simp

section \<open>Properties\<close>

definition blok :: "cell list" where
  "blok = [komorka 1 1 0, komorka 1 2 0, komorka 1 3 0]"

lemma blok_ok: "dobra blok" "zasieg 100 (pola blok)" "bezpieczna blok" "length blok \<noteq> 1" "w_int blok"
  by (simp_all add: blok_def dobra_def zasieg_def bezpieczna_def w_int_def komorka_def is_int_def
      int_min_def int_max_def pole_def)

text \<open>C8: One generation is the rule of the game. From a list of live cells without repetitions
  that is not a single cell and whose cells are two places or more away from the limits of \<open>int\<close> (so that
  no coordinate of a neighbour overflows), \<open>nowa_generacja_lista\<close> ends and gives again such a list, whose
  places are exactly those that live on (two or three live neighbours) or are born (three). This
  covers the growing list under the cursor, the dead cells freed on the way, and the last pass
  that turns the dead marks into live cells.\<close>

theorem nowa_generacja_reguly:
  assumes "dobra l" and "bezpieczna l" and "length l \<noteq> 1"
  shows "\<exists>l'. nowa_generacja_lista l = Some l' \<and> dobra l' \<and> pola l' = nastepne (pola l)"
  by (rule generacja_reguly [OF assms])

theorem nowa_generacja_reguly_witness:
  "\<exists>l'. nowa_generacja_lista [komorka 1 1 0, komorka 1 2 0, komorka 1 3 0] = Some l' \<and> dobra l' \<and>
     pola l' = nastepne {(1, 1), (1, 2), (1, 3)}"
  using nowa_generacja_reguly [OF blok_ok(1,3,4)] by (simp add: blok_def)

text \<open>A single live cell breaks the rule. For one cell the cursor is null before the dead
  neighbours are appended, so none of them is examined: the eight neighbours all come to life,
  although by the rule the next generation is empty.\<close>

theorem nowa_generacja_jednej:
  assumes "k \<noteq> -1" and "bezpieczna [komorka i j k]"
  shows "(\<exists>l'. nowa_generacja_lista [komorka i j k] = Some l' \<and> pola l' = wokol (i, j)) \<and>
    nastepne (pola [komorka i j k]) = {}"
proof -
  have "card (wokol p \<inter> {q}) \<le> 1" for p q :: pole
    by (rule order_trans [OF card_mono [of "{q}"]]) auto
  then have "card (wokol p \<inter> {(i, j)}) \<notin> {2, 3}" for p
    using le_less_trans [of "card (wokol p \<inter> {(i, j)})" 1 2] by fastforce
  then have "nastepne (pola [komorka i j k]) = {}" by (auto simp: nastepne_def)
  with generacja_jednej [of "komorka i j k"] assms show ?thesis by auto
qed

theorem nowa_generacja_jednej_witness:
  "\<exists>l'. nowa_generacja_lista [komorka 5 7 0] = Some l' \<and> pola l' = wokol (5, 7)"
proof -
  have "bezpieczna [komorka 5 7 0]"
    by (simp add: bezpieczna_def komorka_def int_min_def int_max_def)
  from nowa_generacja_jednej [OF _ this] show ?thesis by simp
qed

text \<open>Many generations. The command that skips \<open>n\<close> generations gives the \<open>n\<close>-fold rule,
  as long as no generation on the way is a single cell and the cells stay \<open>n + 2\<close> places away
  from the limits of \<open>int\<close>.\<close>

theorem generacje_reguly:
  assumes "dobra l" and "zasieg (n + 2) (pola l)" and "\<forall>m<n. card ((nastepne ^^ m) (pola l)) \<noteq> 1"
  shows "\<exists>l'. generacje n l = Some l' \<and> dobra l' \<and> pola l' = (nastepne ^^ n) (pola l)"
  by (rule generacje_ok [OF assms])

theorem generacje_reguly_witness:
  "\<exists>l'. generacje 1 [komorka 1 1 0, komorka 1 2 0, komorka 1 3 0] = Some l' \<and> dobra l' \<and>
     pola l' = nastepne {(1, 1), (1, 2), (1, 3)}"
proof -
  have "zasieg (1 + 2) (pola blok)" by (simp add: zasieg_def blok_def int_min_def int_max_def)
  moreover have "\<forall>m<1. card ((nastepne ^^ m) (pola blok)) \<noteq> 1" by (simp add: blok_def)
  ultimately show ?thesis using generacje_reguly [OF blok_ok(1), of 1] by (simp add: blok_def)
qed

text \<open>C34: A dump reads back. \<open>zrzut_aktualnej_generacji\<close> sorts the list by row and column without
  changing its cells, and \<open>wczytaj\<close> of the text it prints ends, consumes exactly that text, and
  gives the same cells in the same order.\<close>

theorem zrzut_wczytaj_roundtrip:
  assumes "w_int l"
  shows "\<exists>txt l'. zrzut_aktualnej_generacji l = (txt, l') \<and> sorted_wrt przed (map pole l') \<and>
    mset (map pole l') = mset (map pole l) \<and> map zywi_sasiedzi l' = map zywi_sasiedzi l \<and>
    wczytaj [] (txt @ s) = Some (map swieza l', s)"
  using posortowana_ok [of l] zrzut_wczytaj [OF assms, of s]
  by (intro exI [of _ "fst (zrzut_aktualnej_generacji l)"] exI [of _ "posortowana l"])
    (simp add: zrzut_eq)

theorem zrzut_wczytaj_roundtrip_witness:
  "\<exists>txt l'. zrzut_aktualnej_generacji [komorka 2 1 0, komorka 1 3 0] = (txt, l') \<and>
     wczytaj [] (txt @ ''x'') = Some (map swieza l', ''x'')"
proof -
  have "w_int [komorka 2 1 0, komorka 1 3 0]"
    by (simp add: w_int_def komorka_def is_int_def int_min_def int_max_def)
  from zrzut_wczytaj_roundtrip [OF this, of "''x''"] show ?thesis by blast
qed

text \<open>C36: The window. \<open>drukowanie_generacji\<close> never writes outside its array. The character at
  row \<open>r\<close> and column \<open>k\<close> of what it draws is 0 exactly when there is a cell at that place of the window.
  It overflows \<open>int\<close>, and then gives no picture, exactly for a window less than 22 rows or 80 columns from the
  limit of \<open>int\<close> and a cell that is not above it and, for the columns, in its rows and not left of it.\<close>

theorem drukowanie_okno:
  "(drukowanie_generacji l i j = None \<longleftrightarrow>
      (\<exists>c\<in>set l. nr_wiersza c \<ge> i \<and> (\<not> is_int (i + int WIERSZE) \<or>
         nr_wiersza c < i + int WIERSZE \<and> nr_kolumny c \<ge> j \<and> \<not> is_int (j + int KOLUMNY)))) \<and>
   (\<forall>obraz. drukowanie_generacji l i j = Some obraz \<longrightarrow> (\<exists>a. obraz = drukuj a \<and> length a = WIERSZE \<and>
       (\<forall>r<WIERSZE. length (a ! r) = KOLUMNY \<and>
         (\<forall>k<KOLUMNY. a ! r ! k = (if (i + int r, j + int k) \<in> pola l then CHR ''0'' else CHR ''.'')))))"
proof (intro conjI allI impI)
  show "drukowanie_generacji l i j = None \<longleftrightarrow>
      (\<exists>c\<in>set l. nr_wiersza c \<ge> i \<and> (\<not> is_int (i + int WIERSZE) \<or>
         nr_wiersza c < i + int WIERSZE \<and> nr_kolumny c \<ge> j \<and> \<not> is_int (j + int KOLUMNY)))"
    unfolding w_oknie_None [symmetric] by (simp add: drukowanie_ok)
next
  fix obraz assume "drukowanie_generacji l i j = Some obraz"
  then have "obraz = drukuj (siatka (\<lambda>r k. if (i + int r, j + int k) \<in> pola l then CHR ''0'' else CHR ''.''))"
    by (simp add: drukowanie_ok split: if_splits)
  then show "\<exists>a. obraz = drukuj a \<and> length a = WIERSZE \<and>
       (\<forall>r<WIERSZE. length (a ! r) = KOLUMNY \<and>
         (\<forall>k<KOLUMNY. a ! r ! k = (if (i + int r, j + int k) \<in> pola l then CHR ''0'' else CHR ''.'')))"
    by (intro exI) (auto simp: siatka_def)
qed

theorem drukowanie_okno_witness:
  "(\<exists>a. drukowanie_generacji [komorka 3 4 0] 1 1 = Some (drukuj a) \<and> a ! 2 ! 3 = CHR ''0'') \<and>
   drukowanie_generacji [komorka int_max 4 0] int_max 1 = None"
proof
  have ok: "drukowanie_generacji [komorka 3 4 0] 1 1 \<noteq> None"
    by (simp add: drukowanie_ok w_oknie_None komorka_def is_int_def int_min_def int_max_def WIERSZE_def KOLUMNY_def)
  then obtain a where a: "drukowanie_generacji [komorka 3 4 0] 1 1 = Some (drukuj a)" and
    "\<forall>r<WIERSZE. length (a ! r) = KOLUMNY \<and>
        (\<forall>k<KOLUMNY. a ! r ! k = (if (1 + int r, 1 + int k) \<in> pola [komorka 3 4 0] then CHR ''0'' else CHR ''.''))"
    using drukowanie_okno [of "[komorka 3 4 0]" 1 1] by blast
  from this(2) have "a ! 2 ! 3 = CHR ''0''"
    by (simp add: WIERSZE_def KOLUMNY_def)
  with a show "\<exists>a. drukowanie_generacji [komorka 3 4 0] 1 1 = Some (drukuj a) \<and> a ! 2 ! 3 = CHR ''0''" by blast
  show "drukowanie_generacji [komorka int_max 4 0] int_max 1 = None"
    by (simp add: drukowanie_ok w_oknie_None komorka_def is_int_def int_min_def int_max_def WIERSZE_def)
qed

text \<open>C35: The commands. For every sequence of well-formed commands as the player types them,
  ended by a dot, \<open>graj\<close> ends exactly when their execution does, consumes the input up to
  the dot, and its cells and output are those of executing the commands one after another.\<close>

theorem graj_komendy:
  assumes "\<forall>c\<in>set cs. poprawna c"
  shows "graj l (concat (map zapis cs) @ CHR ''.'' # s) =
    do {
      x \<leftarrow> pokaz 1 1 l [];
      (w, k, l', out) \<leftarrow> wykonaj_komendy cs x;
      Some (l', s, out)
    }"
proof (cases "drukowanie_generacji l 1 1")
  case None
  then show ?thesis by (simp add: graj_def pokaz_def)
next
  case (Some d)
  with petla_komendy [OF assms, of s "(1, 1, l, d)"] show ?thesis
    by (simp add: graj_def petla_def pokaz_def split_beta)
qed

theorem graj_komendy_witness:
  "graj [] (zapis (Skok 3) @ zapis (Okno (-2) 5) @ ''.x'') =
    do { x \<leftarrow> pokaz 1 1 [] []; (w, k, l', out) \<leftarrow> wykonaj_komendy [Skok 3, Okno (-2) 5] x; Some (l', ''x'', out) }"
proof -
  have "\<forall>c\<in>set [Skok 3, Okno (-2) 5]. poprawna c"
    by (simp add: is_int_def int_min_def int_max_def)
  from graj_komendy [OF this, of "[]" "''x''"] show ?thesis by simp
qed

end
