(* ===== verification/SameGame.thy ===== *)
theory SameGame
  imports Stdio
begin

text \<open>
  The program \<open>SameGame.c\<close>. A board is the list of its rows; the row and column indices the
  code keeps non-negative by its own tests are natural numbers. \<open>usun_grupe\<close> may recurse for
  ever (it does on an empty field next to an empty field), so it is a partial function, with
  \<open>None\<close> also for an index out of the board.
\<close>

definition WIERSZE_sg :: nat where "WIERSZE_sg = 10"
definition KOLUMNY_sg :: nat where "KOLUMNY_sg = 15"
definition PUSTE :: char where "PUSTE = CHR ''.''"

type_synonym plansza = "char list list"

definition pole_planszy :: "plansza \<Rightarrow> nat \<Rightarrow> nat \<Rightarrow> char" where
  "pole_planszy a w k = a ! w ! k"

definition wpisz :: "nat \<Rightarrow> nat \<Rightarrow> char \<Rightarrow> plansza \<Rightarrow> plansza" where
  "wpisz w k x a = a[w := (a ! w)[k := x]]"

section \<open>Reading and printing the board\<close>

definition znak :: "int \<Rightarrow> char" where
  "znak c = char_of (nat (c mod 256))"

text \<open>The inner loop reads the \<open>m\<close> characters that are left of a row; \<open>c\<close> is the one already
  read.\<close>

fun czytaj_wiersz :: "nat \<Rightarrow> int \<Rightarrow> string \<Rightarrow> string \<times> int \<times> string" where
  "czytaj_wiersz 0 c s = ([], c, s)"
| "czytaj_wiersz (Suc m) c s =
     (let (c1, s1) = getchar s; (r, c2, s2) = czytaj_wiersz m c1 s1 in (znak c # r, c2, s2))"

fun czytaj_wiersze :: "nat \<Rightarrow> int \<Rightarrow> string \<Rightarrow> plansza \<times> string" where
  "czytaj_wiersze 0 c s = ([], s)"
| "czytaj_wiersze (Suc n) c s =
     (let (r, c1, s1) = czytaj_wiersz KOLUMNY_sg c s;
          (c2, s2) = (if 0 < n then getchar s1 else (c1, s1));
          (a, s3) = czytaj_wiersze n c2 s2
      in (r # a, s3))"

definition czytaj_plansze :: "nat \<Rightarrow> string \<Rightarrow> plansza \<times> string" where
  "czytaj_plansze n s = (let (c, s1) = getchar s in czytaj_wiersze n c s1)"

definition pisz_plansze :: "plansza \<Rightarrow> nat \<Rightarrow> string" where
  "pisz_plansze a n = concat (map (\<lambda>w. map (pole_planszy a w) [0..<KOLUMNY_sg] @ [CHR 0x0A]) [0..<n])"

section \<open>The group of a field\<close>

definition sprawdz_czy_grupa :: "plansza \<Rightarrow> nat \<Rightarrow> nat \<Rightarrow> nat \<Rightarrow> int" where
  "sprawdz_czy_grupa a n w k =
     (if (k + 1 < KOLUMNY_sg \<and> pole_planszy a w k = pole_planszy a w (k + 1)) \<or>
         (w + 1 < n \<and> pole_planszy a w k = pole_planszy a (w + 1) k) \<or>
         (1 \<le> k \<and> pole_planszy a w k = pole_planszy a w (k - 1)) \<or>
         (1 \<le> w \<and> pole_planszy a w k = pole_planszy a (w - 1) k)
      then 1 else 0)"

partial_function (option) usun_grupe ::
    "plansza \<Rightarrow> nat \<Rightarrow> nat \<Rightarrow> nat \<Rightarrow> char \<Rightarrow> plansza option" where
  "usun_grupe a n w k klocek =
     (if \<not> (w < n \<and> k < KOLUMNY_sg) then None
      else
        do {
          let a0 = wpisz w k PUSTE a;
          a1 \<leftarrow> (if w + 1 < n \<and> pole_planszy a0 (w + 1) k = klocek
                then usun_grupe a0 n (w + 1) k klocek else Some a0);
          a2 \<leftarrow> (if 1 \<le> w \<and> pole_planszy a1 (w - 1) k = klocek
                then usun_grupe a1 n (w - 1) k klocek else Some a1);
          a3 \<leftarrow> (if k + 1 < KOLUMNY_sg \<and> pole_planszy a2 w (k + 1) = klocek
                then usun_grupe a2 n w (k + 1) klocek else Some a2);
          (if 1 \<le> k \<and> pole_planszy a3 w (k - 1) = klocek
           then usun_grupe a3 n w (k - 1) klocek else Some a3)
        })"

declare usun_grupe.simps [code]

section \<open>Gravity\<close>

definition zamien :: "nat \<times> nat \<Rightarrow> nat \<times> nat \<Rightarrow> plansza \<Rightarrow> plansza" where
  "zamien x y a =
     (let z = pole_planszy a (fst x) (snd x); a1 = wpisz (fst x) (snd x) (pole_planszy a (fst y) (snd y)) a
      in wpisz (fst y) (snd y) z a1)"

text \<open>The loop that looks for the lowest empty field of the run of empty fields upwards.\<close>

fun w_gore :: "plansza \<Rightarrow> nat \<Rightarrow> nat \<Rightarrow> nat" where
  "w_gore a k 0 = 0"
| "w_gore a k (Suc w) = (if pole_planszy a w k = PUSTE then w_gore a k w else Suc w)"

fun dol_kolumny :: "nat \<Rightarrow> nat \<Rightarrow> plansza \<Rightarrow> plansza" where
  "dol_kolumny k 0 a = a"
| "dol_kolumny k (Suc v) a =
     dol_kolumny k v
       (if pole_planszy a (Suc v) k = PUSTE
        then (let nowe_w = w_gore a k (Suc v)
              in if nowe_w \<noteq> 0 then zamien (Suc v, k) (nowe_w - 1, k) a else a)
        else a)"

definition przesun_w_dol :: "plansza \<Rightarrow> nat \<Rightarrow> plansza" where
  "przesun_w_dol a n = fold (\<lambda>k. dol_kolumny k (n - 1)) [0..<KOLUMNY_sg] a"

text \<open>The loop that looks right for the end of the run of empty columns; \<open>m\<close> bounds the steps
  that are left to the last column.\<close>

fun w_prawo :: "plansza \<Rightarrow> nat \<Rightarrow> nat \<Rightarrow> nat \<Rightarrow> nat" where
  "w_prawo a w 0 k = k"
| "w_prawo a w (Suc m) k = (if pole_planszy a w (k + 1) = PUSTE then w_prawo a w m (k + 1) else k)"

definition lewo_krok :: "nat \<Rightarrow> nat \<Rightarrow> plansza \<Rightarrow> plansza" where
  "lewo_krok n k a =
     (if pole_planszy a (n - 1) k = PUSTE
      then
        (let nowe_k = w_prawo a (n - 1) (KOLUMNY_sg - 1 - k) k
         in if nowe_k \<noteq> KOLUMNY_sg - 1
            then fold (\<lambda>i. zamien (i, k) (i, nowe_k + 1)) [0..<n] a else a)
      else a)"

definition przesun_w_lewo :: "plansza \<Rightarrow> nat \<Rightarrow> plansza" where
  "przesun_w_lewo a n = fold (lewo_krok n) [0..<KOLUMNY_sg - 1] a"

definition porzadkuj_plansze :: "plansza \<Rightarrow> nat \<Rightarrow> plansza" where
  "porzadkuj_plansze a n = przesun_w_lewo (przesun_w_dol a n) n"

section \<open>The program\<close>

text \<open>The output for the move at row \<open>w\<close> and column \<open>k\<close>.\<close>

definition wykonaj :: "nat \<Rightarrow> int \<Rightarrow> int \<Rightarrow> string \<Rightarrow> string option" where
  "wykonaj n w k s =
     (let (a, s1) = czytaj_plansze n s
      in if \<not> (0 \<le> w \<and> w < int n \<and> 0 \<le> k \<and> k < int KOLUMNY_sg) then None
         else if pole_planszy a (nat w) (nat k) = CHR ''.'' then Some (pisz_plansze a n)
         else if sprawdz_czy_grupa a n (nat w) (nat k) = 0 then Some (pisz_plansze a n)
         else
           do {
             a1 \<leftarrow> usun_grupe a n (nat w) (nat k) (pole_planszy a (nat w) (nat k));
             Some (pisz_plansze (porzadkuj_plansze a1 n) n)
           })"

definition atoi :: "string \<Rightarrow> int option" where
  "atoi s = map_option (\<lambda>(x, r). case x of None \<Rightarrow> 0 | Some v \<Rightarrow> v) (scanf_d s)"

text \<open>\<open>main\<close> on the arguments after the program's name; \<open>assert\<close> aborts unless there are two.\<close>

definition main_sg :: "string list \<Rightarrow> string \<Rightarrow> string option" where
  "main_sg args s =
     (case args of
        [x, y] \<Rightarrow> do { w \<leftarrow> atoi x; k \<leftarrow> atoi y; wykonaj WIERSZE_sg w k s }
      | _ \<Rightarrow> None)"

end
