(* ===== verification/SameGame_Group.thy ===== *)
theory SameGame_Group
  imports SameGame
begin

text \<open>
  The recursive removal of a group in \<open>SameGame.c\<close>: it ends, and what it empties is the
  connected set of fields of the same kind.
\<close>

declare split_paired_All [simp del] split_paired_Ex [simp del]

section \<open>Connected sets of fields\<close>

type_synonym miejsce = "nat \<times> nat"

definition obok :: "(miejsce \<times> miejsce) set" where
  "obok = {((w, k), (w', k')). (w' = w + 1 \<and> k' = k) \<or> (w = w' + 1 \<and> k' = k) \<or>
     (w' = w \<and> k' = k + 1) \<or> (w' = w \<and> k = k' + 1)}"

definition osiag :: "miejsce set \<Rightarrow> miejsce \<Rightarrow> miejsce set" where
  "osiag S p = (obok \<inter> UNIV \<times> S)\<^sup>* `` {p}"

definition zamkniety :: "miejsce set \<Rightarrow> miejsce set \<Rightarrow> bool" where
  "zamkniety S U \<longleftrightarrow> U \<subseteq> S \<and> (\<forall>x y. x \<in> U \<longrightarrow> y \<in> S \<longrightarrow> (x, y) \<in> obok \<longrightarrow> y \<in> U)"

lemma osiag_self [simp]: "p \<in> osiag S p"
  by (simp add: osiag_def)

lemma osiag_step: "x \<in> osiag S p \<Longrightarrow> y \<in> S \<Longrightarrow> (x, y) \<in> obok \<Longrightarrow> y \<in> osiag S p"
  by (auto simp: osiag_def intro: rtrancl_into_rtrancl)

lemma osiag_induct [consumes 1, case_names start step]:
  assumes "y \<in> osiag S p" and "P p"
    and "\<And>x y. x \<in> osiag S p \<Longrightarrow> P x \<Longrightarrow> y \<in> S \<Longrightarrow> (x, y) \<in> obok \<Longrightarrow> P y"
  shows "P y"
proof -
  from assms(1) have "(p, y) \<in> (obok \<inter> UNIV \<times> S)\<^sup>*" by (simp add: osiag_def)
  then show ?thesis
    by (induction rule: rtrancl_induct) (use assms(2,3) in \<open>auto simp: osiag_def\<close>)
qed

lemma osiag_sub: "p \<in> S \<Longrightarrow> osiag S p \<subseteq> S"
proof
  fix y assume "p \<in> S" "y \<in> osiag S p"
  from this(2,1) show "y \<in> S" by (induction rule: osiag_induct) auto
qed

lemma osiag_zamkniety: "p \<in> S \<Longrightarrow> zamkniety S (osiag S p)"
  using osiag_sub by (auto simp: zamkniety_def intro: osiag_step)

lemma zamkniety_Un: "zamkniety S U \<Longrightarrow> zamkniety S V \<Longrightarrow> zamkniety S (U \<union> V)"
  by (auto simp: zamkniety_def)

lemma osiag_w_zamknietym:
  assumes "zamkniety S U" and "p \<in> U"
  shows "osiag S p \<subseteq> U"
proof
  fix y assume "y \<in> osiag S p"
  then show "y \<in> U" by (induction rule: osiag_induct) (use assms in \<open>auto simp: zamkniety_def\<close>)
qed

lemma osiag_mono: "S \<subseteq> T \<Longrightarrow> osiag S p \<subseteq> osiag T p"
proof
  fix y assume "S \<subseteq> T" "y \<in> osiag S p"
  from this(2,1) show "y \<in> osiag T p"
    by (induction rule: osiag_induct) (auto intro: osiag_step)
qed

text \<open>Leaving out a closed set that was already removed loses nothing.\<close>

lemma osiag_bez:
  assumes "zamkniety S U" and "q \<in> S"
  shows "U \<union> (if q \<in> S - U then osiag (S - U) q else {}) = U \<union> osiag S q"
proof (cases "q \<in> U")
  case True
  from osiag_w_zamknietym [OF assms(1) this] True show ?thesis by auto
next
  case False
  have "y \<in> U \<union> osiag (S - U) q" if "y \<in> osiag S q" for y
    using that
  proof (induction rule: osiag_induct)
    case (step x y)
    show ?case
    proof (cases "x \<in> U \<or> y \<in> U")
      case True
      then show ?thesis
      proof
        assume "x \<in> U"
        with step.hyps(2,3) assms(1) show ?thesis unfolding zamkniety_def by blast
      qed simp
    next
      case no: False
      with step.hyps step.IH have "x \<in> osiag (S - U) q" "y \<in> S - U" by auto
      from osiag_step [OF this step.hyps(3)] show ?thesis by blast
    qed
  qed simp
  moreover have "osiag (S - U) q \<subseteq> osiag S q" by (intro osiag_mono) auto
  ultimately show ?thesis using False assms(2) by auto
qed

text \<open>The reachable set is the start and what its neighbours reach without it.\<close>

lemma osiag_sasiedzi:
  assumes "p \<in> S"
  shows "osiag S p = insert p (\<Union>q\<in>{q \<in> S - {p}. (p, q) \<in> obok}. osiag (S - {p}) q)" (is "_ = ?R")
proof
  show "osiag S p \<subseteq> ?R"
  proof
    fix y assume "y \<in> osiag S p"
    then show "y \<in> ?R"
    proof (induction rule: osiag_induct)
      case (step x y)
      show ?case
      proof (cases "y = p")
        case False
        with step.hyps(2) have y: "y \<in> S - {p}" by simp
        from step.IH consider "x = p" | q where "q \<in> S - {p}" "(p, q) \<in> obok" "x \<in> osiag (S - {p}) q"
          by blast
        then show ?thesis
        proof cases
          case 1
          with step.hyps(3) y osiag_self [of y "S - {p}"] show ?thesis by blast
        next
          case 2
          from osiag_step [OF this(3) y step.hyps(3)] 2(1,2) show ?thesis by blast
        qed
      qed simp
    qed simp
  qed
  have "osiag (S - {p}) q \<subseteq> osiag S p" if "q \<in> S" "(p, q) \<in> obok" for q
  proof
    fix y assume "y \<in> osiag (S - {p}) q"
    then show "y \<in> osiag S p"
    proof (induction rule: osiag_induct)
      case start
      from osiag_step [OF osiag_self that] show ?case .
    next
      case (step x y)
      from step.hyps(2) have "y \<in> S" by simp
      from osiag_step [OF step.IH this step.hyps(3)] show ?case .
    qed
  qed
  then show "?R \<subseteq> osiag S p" by auto
qed

section \<open>Boards\<close>

definition wymiary :: "nat \<Rightarrow> plansza \<Rightarrow> bool" where
  "wymiary n a \<longleftrightarrow> length a = n \<and> (\<forall>r\<in>set a. length r = KOLUMNY_sg)"

definition plansza_z :: "nat \<Rightarrow> (nat \<Rightarrow> nat \<Rightarrow> char) \<Rightarrow> plansza" where
  "plansza_z n f = map (\<lambda>w. map (f w) [0..<KOLUMNY_sg]) [0..<n]"

definition pola_koloru :: "nat \<Rightarrow> char \<Rightarrow> plansza \<Rightarrow> miejsce set" where
  "pola_koloru n x a = {(w, k). w < n \<and> k < KOLUMNY_sg \<and> pole_planszy a w k = x}"

definition wymaz :: "nat \<Rightarrow> miejsce set \<Rightarrow> plansza \<Rightarrow> plansza" where
  "wymaz n U a = plansza_z n (\<lambda>w k. if (w, k) \<in> U then PUSTE else pole_planszy a w k)"

lemma plansza_z_simps [simp]:
  "wymiary n (plansza_z n f)"
  "w < n \<Longrightarrow> k < KOLUMNY_sg \<Longrightarrow> pole_planszy (plansza_z n f) w k = f w k"
  by (auto simp: wymiary_def plansza_z_def pole_planszy_def)

lemma plansza_eqI:
  assumes "wymiary n a" and "wymiary n b"
    and "\<And>w k. w < n \<Longrightarrow> k < KOLUMNY_sg \<Longrightarrow> pole_planszy a w k = pole_planszy b w k"
  shows "a = b"
  using assms by (intro nth_equalityI) (auto simp: wymiary_def pole_planszy_def intro!: nth_equalityI)

lemma wpisz_ok:
  assumes "wymiary n a" and "w < n" and "k < KOLUMNY_sg"
  shows "wymiary n (wpisz w k x a)"
    and "pole_planszy (wpisz w k x a) w' k' = (if w' = w \<and> k' = k then x else pole_planszy a w' k')"
proof -
  have "length (a ! w) = KOLUMNY_sg" using assms by (auto simp: wymiary_def)
  then show "pole_planszy (wpisz w k x a) w' k' = (if w' = w \<and> k' = k then x else pole_planszy a w' k')"
    using assms by (auto simp: wymiary_def pole_planszy_def wpisz_def nth_list_update)
  show "wymiary n (wpisz w k x a)"
    using assms set_update_subset_insert [of a w "(a ! w)[k := x]"]
    by (auto simp: wymiary_def wpisz_def subset_iff)
qed

lemma wymaz_simps [simp]:
  "wymiary n (wymaz n U a)"
  "wymaz n V (wymaz n U a) = wymaz n (U \<union> V) a"
  by (auto simp: wymaz_def intro!: plansza_eqI [of n])

lemma wpisz_wymaz:
  assumes "wymiary n a" and "w < n" and "k < KOLUMNY_sg"
  shows "wpisz w k PUSTE a = wymaz n {(w, k)} a"
  using wpisz_ok [OF assms] by (intro plansza_eqI [of n]) (auto simp: wymaz_def)

lemma wymaz_pusty: "wymiary n a \<Longrightarrow> wymaz n {} a = a"
  by (intro plansza_eqI [of n]) (auto simp: wymaz_def)

lemma pola_wymaz: "x \<noteq> PUSTE \<Longrightarrow> pola_koloru n x (wymaz n U a) = pola_koloru n x a - U"
  by (auto simp: pola_koloru_def wymaz_def split: if_splits)

lemma finite_pola [simp]: "finite (pola_koloru n x a)"
  by (rule finite_subset [of _ "{..<n} \<times> {..<KOLUMNY_sg}"]) (auto simp: pola_koloru_def)

section \<open>The removal\<close>

text \<open>One of the four tests of a call: \<open>U\<close> is what was removed after the start \<open>p\<close>, and \<open>q\<close> the
  neighbour that is tried, if it is there at all (\<open>b\<close>).\<close>

definition usuwa :: "nat \<Rightarrow> char \<Rightarrow> miejsce set \<Rightarrow> bool" where
  "usuwa n x S0 \<longleftrightarrow>
     (\<forall>a w k. wymiary n a \<longrightarrow> pola_koloru n x a \<subseteq> S0 \<longrightarrow> (w, k) \<in> pola_koloru n x a \<longrightarrow>
        usun_grupe a n w k x = Some (wymaz n (osiag (pola_koloru n x a) (w, k)) a))"

lemma usun_sasiada:
  assumes IH: "usuwa n x S0"
    and x: "x \<noteq> PUSTE" and S0: "S0 = pola_koloru n x a - {p}" and U: "zamkniety S0 U"
    and b: "b \<Longrightarrow> w < n \<and> k < KOLUMNY_sg" and ai: "ai = wymaz n (insert p U) a"
  shows "\<exists>V. (if b \<and> pole_planszy ai w k = x then usun_grupe ai n w k x else Some ai) =
      Some (wymaz n (insert p V) a) \<and> zamkniety S0 V \<and>
      V = U \<union> (if b \<and> (w, k) \<in> S0 then osiag S0 (w, k) else {})"
proof -
  have S: "pola_koloru n x ai = S0 - U" using x by (auto simp: ai S0 pola_wymaz)
  have w: "wymiary n ai" by (simp add: ai)
  have test: "b \<and> pole_planszy ai w k = x \<longleftrightarrow> b \<and> (w, k) \<in> S0 - U"
    unfolding S [symmetric] using b by (auto simp: pola_koloru_def)
  have zamk: "zamkniety S0 (U \<union> osiag S0 (w, k))" if "(w, k) \<in> S0"
    using that U by (intro zamkniety_Un osiag_zamkniety)
  show ?thesis
  proof (cases "b \<and> (w, k) \<in> S0 - U")
    case True
    with S have "pola_koloru n x ai \<subseteq> S0" "(w, k) \<in> pola_koloru n x ai" by blast+
    with IH w S have "usun_grupe ai n w k x = Some (wymaz n (osiag (S0 - U) (w, k)) ai)"
      unfolding usuwa_def by metis
    also have "wymaz n (osiag (S0 - U) (w, k)) ai = wymaz n (insert p (U \<union> osiag (S0 - U) (w, k))) a"
      by (simp add: ai)
    also have "U \<union> osiag (S0 - U) (w, k) = U \<union> osiag S0 (w, k)"
      using osiag_bez [OF U, of "(w, k)"] True by simp
    finally have run: "usun_grupe ai n w k x = Some (wymaz n (insert p (U \<union> osiag S0 (w, k))) a)" .
    have c: "b \<and> pole_planszy ai w k = x" "b \<and> (w, k) \<in> S0" "(w, k) \<in> S0" using True test by blast+
    show ?thesis
      by (rule exI [of _ "U \<union> osiag S0 (w, k)"]) (simp only: c run zamk if_True simp_thms)
  next
    case False
    have "osiag S0 (w, k) \<subseteq> U" if "b \<and> (w, k) \<in> S0"
      using that False osiag_w_zamknietym [OF U] by blast
    then have "U = U \<union> (if b \<and> (w, k) \<in> S0 then osiag S0 (w, k) else {})" by auto
    moreover have "(if b \<and> pole_planszy ai w k = x then usun_grupe ai n w k x else Some ai) =
        Some (wymaz n (insert p U) a)"
    proof -
      from False test have "\<not> (b \<and> pole_planszy ai w k = x)" by blast
      then show ?thesis by (simp only: if_False ai)
    qed
    ultimately show ?thesis using U by (intro exI [of _ U]) simp
  qed
qed

lemma usun_grupe_ok:
  assumes "wymiary n a" and "x \<noteq> PUSTE" and "(w, k) \<in> pola_koloru n x a"
  shows "usun_grupe a n w k x = Some (wymaz n (osiag (pola_koloru n x a) (w, k)) a)"
  using assms
proof (induction "card (pola_koloru n x a)" arbitrary: a w k rule: less_induct)
  case less
  let ?S = "pola_koloru n x a" and ?p = "(w, k)"
  define S0 where "S0 = ?S - {?p}"
  have wk: "w < n" "k < KOLUMNY_sg" using less.prems(3) by (auto simp: pola_koloru_def)
  have IH: "usuwa n x S0"
    unfolding usuwa_def
  proof (intro allI impI)
    fix a' w' k'
    assume that: "wymiary n a'" "pola_koloru n x a' \<subseteq> S0" "(w', k') \<in> pola_koloru n x a'"
    have "pola_koloru n x a' \<subset> ?S" using that(2) less.prems(3) by (auto simp: S0_def)
    then have "card (pola_koloru n x a') < card ?S" by (rule psubset_card_mono [OF finite_pola])
    from less.hyps [OF this that(1) less.prems(2) that(3)]
    show "usun_grupe a' n w' k' x = Some (wymaz n (osiag (pola_koloru n x a') (w', k')) a')" .
  qed
  note krok = usun_sasiada [OF IH less.prems(2) S0_def]
  have a0: "wpisz w k PUSTE a = wymaz n (insert ?p {}) a"
    using wpisz_wymaz [OF less.prems(1) wk] by simp
  obtain V1 where V1: "zamkniety S0 V1" "V1 = {} \<union> (if w + 1 < n \<and> (w + 1, k) \<in> S0 then osiag S0 (w + 1, k) else {})"
    and run1: "(if w + 1 < n \<and> pole_planszy (wpisz w k PUSTE a) (w + 1) k = x
      then usun_grupe (wpisz w k PUSTE a) n (w + 1) k x else Some (wpisz w k PUSTE a)) = Some (wymaz n (insert ?p V1) a)"
  proof -
    have "zamkniety S0 {}" by (simp add: zamkniety_def)
    from krok [OF this _ a0, of "w + 1 < n" "w + 1" k] wk(2) that show thesis by blast
  qed
  obtain V2 where V2: "zamkniety S0 V2" "V2 = V1 \<union> (if 1 \<le> w \<and> (w - 1, k) \<in> S0 then osiag S0 (w - 1, k) else {})"
    and run2: "(if 1 \<le> w \<and> pole_planszy (wymaz n (insert ?p V1) a) (w - 1) k = x
      then usun_grupe (wymaz n (insert ?p V1) a) n (w - 1) k x else Some (wymaz n (insert ?p V1) a)) =
        Some (wymaz n (insert ?p V2) a)"
    using krok [OF V1(1) _ refl, of "1 \<le> w" "w - 1" k] wk less_imp_diff_less by blast
  obtain V3 where V3: "zamkniety S0 V3" "V3 = V2 \<union> (if k + 1 < KOLUMNY_sg \<and> (w, k + 1) \<in> S0 then osiag S0 (w, k + 1) else {})"
    and run3: "(if k + 1 < KOLUMNY_sg \<and> pole_planszy (wymaz n (insert ?p V2) a) w (k + 1) = x
      then usun_grupe (wymaz n (insert ?p V2) a) n w (k + 1) x else Some (wymaz n (insert ?p V2) a)) =
        Some (wymaz n (insert ?p V3) a)"
    using krok [OF V2(1) _ refl, of "k + 1 < KOLUMNY_sg" w "k + 1"] wk by blast
  obtain V4 where V4: "zamkniety S0 V4" "V4 = V3 \<union> (if 1 \<le> k \<and> (w, k - 1) \<in> S0 then osiag S0 (w, k - 1) else {})"
    and run4: "(if 1 \<le> k \<and> pole_planszy (wymaz n (insert ?p V3) a) w (k - 1) = x
      then usun_grupe (wymaz n (insert ?p V3) a) n w (k - 1) x else Some (wymaz n (insert ?p V3) a)) =
        Some (wymaz n (insert ?p V4) a)"
    using krok [OF V3(1) _ refl, of "1 \<le> k" w "k - 1"] wk less_imp_diff_less by blast
  have "usun_grupe a n w k x = Some (wymaz n (insert ?p V4) a)"
    by (subst usun_grupe.simps)
      (simp only: Let_def run1 run2 run3 run4 Option.bind.bind_lunit wk simp_thms if_False not_True_eq_False)
  moreover have "insert ?p V4 = osiag ?S ?p"
  proof -
    have q: "(?p, (w', k')) \<in> obok \<longleftrightarrow> (w', k') = (w + 1, k) \<or> (1 \<le> w \<and> (w', k') = (w - 1, k)) \<or>
        (w', k') = (w, k + 1) \<or> (1 \<le> k \<and> (w', k') = (w, k - 1))" for w' k'
      by (auto simp: obok_def)
    have bound: "(w', k') \<in> S0 \<Longrightarrow> w' < n \<and> k' < KOLUMNY_sg" for w' k'
      by (auto simp: S0_def pola_koloru_def)
    have "V4 = (\<Union>q\<in>{q \<in> S0. (?p, q) \<in> obok}. osiag S0 q)"
      unfolding V4(2) V3(2) V2(2) V1(2) using bound by (auto simp: q split: if_splits)
    then show ?thesis unfolding osiag_sasiedzi [OF less.prems(3)] S0_def by simp
  qed
  ultimately show ?case by simp
qed

end
