(* ===== verification/SameGame_Props.thy ===== *)
theory SameGame_Props
  imports SameGame_Group
begin

text \<open>
  Gravity, the closing of empty columns, and input and output in \<open>SameGame.c\<close>, and the
  properties of the program. A board is seen here as the list of its columns.
\<close>

section \<open>Columns\<close>

definition kolumna :: "nat \<Rightarrow> nat \<Rightarrow> plansza \<Rightarrow> string" where
  "kolumna n k a = map (\<lambda>w. pole_planszy a w k) [0..<n]"

definition kolumny :: "nat \<Rightarrow> plansza \<Rightarrow> string list" where
  "kolumny n a = map (\<lambda>k. kolumna n k a) [0..<KOLUMNY_sg]"

text \<open>A column after its blocks have fallen.\<close>

definition opada :: "string \<Rightarrow> string" where
  "opada c = (let f = filter (\<lambda>x. x \<noteq> PUSTE) c in replicate (length c - length f) PUSTE @ f)"

lemma kolumna_simps [simp]:
  "length (kolumna n k a) = n" "w < n \<Longrightarrow> kolumna n k a ! w = pole_planszy a w k"
  "length (kolumny n a) = KOLUMNY_sg" "k < KOLUMNY_sg \<Longrightarrow> kolumny n a ! k = kolumna n k a"
  by (simp_all add: kolumna_def kolumny_def)

lemma zamien_ok:
  assumes "wymiary n a" and "w < n" and "k < KOLUMNY_sg" and "w' < n" and "k' < KOLUMNY_sg"
  shows "wymiary n (zamien (w, k) (w', k') a)"
    and "pole_planszy (zamien (w, k) (w', k') a) i j =
      (if i = w' \<and> j = k' then pole_planszy a w k
       else if i = w \<and> j = k then pole_planszy a w' k' else pole_planszy a i j)"
  using wpisz_ok [OF assms(1-3)] wpisz_ok [OF _ assms(4,5)] by (simp_all add: zamien_def Let_def)

lemma opada_length [simp]: "length (opada c) = length c"
  by (simp add: opada_def Let_def)

lemma opada_snoc: "x \<noteq> PUSTE \<Longrightarrow> opada (c @ [x]) = opada c @ [x]"
  by (simp add: opada_def Let_def)

lemma opada_eq:
  "length c = length d \<Longrightarrow> filter (\<lambda>x. x \<noteq> PUSTE) c = filter (\<lambda>x. x \<noteq> PUSTE) d \<Longrightarrow> opada c = opada d"
  by (simp add: opada_def)

lemma opada_puste: "\<forall>x\<in>set c. x = PUSTE \<Longrightarrow> opada c = c"
  by (simp add: opada_def Let_def replicate_length_same)

section \<open>Gravity\<close>

lemma w_gore_ok:
  "w_gore a k w \<le> w \<and> (\<forall>j. w_gore a k w \<le> j \<and> j < w \<longrightarrow> pole_planszy a j k = PUSTE) \<and>
   (w_gore a k w \<noteq> 0 \<longrightarrow> pole_planszy a (w_gore a k w - 1) k \<noteq> PUSTE)"
  by (induction w) (auto simp: less_Suc_eq)

lemma opada_zamiana:
  assumes "m < Suc v" and "Suc v < length c" and "\<forall>j. m < j \<and> j \<le> Suc v \<longrightarrow> c ! j = PUSTE" and "c ! m \<noteq> PUSTE"
    and d: "d = c[Suc v := c ! m, m := PUSTE]"
  shows "opada (take (Suc v) d) @ drop (Suc v) d = opada (take (Suc (Suc v)) c) @ drop (Suc (Suc v)) c"
proof -
  let ?P = "take m c"
  have t1: "take (Suc v) d = ?P @ PUSTE # drop (Suc m) (take (Suc v) c)"
  proof -
    have "take (Suc v) d = (take (Suc v) c)[m := PUSTE]" by (simp add: d take_update_swap list_update_beyond)
    also have "\<dots> = take m (take (Suc v) c) @ PUSTE # drop (Suc m) (take (Suc v) c)"
      using assms(1,2) by (intro upd_conv_take_nth_drop) simp
    finally show ?thesis using assms(1) by (simp add: min_def)
  qed
  have t2: "take (Suc (Suc v)) c = ?P @ c ! m # drop (Suc m) (take (Suc (Suc v)) c)"
    using id_take_nth_drop [of m "take (Suc (Suc v)) c"] assms(1,2) by simp
  have "filter (\<lambda>x. x \<noteq> PUSTE) (drop (Suc m) (take (Suc (Suc v)) c)) = []"
    using assms(2,3) by (auto simp: filter_empty_conv in_set_conv_nth)
  moreover have "filter (\<lambda>x. x \<noteq> PUSTE) (drop (Suc m) (take (Suc v) c)) = []"
    using assms(2,3) by (auto simp: filter_empty_conv in_set_conv_nth)
  ultimately have f: "filter (\<lambda>x. x \<noteq> PUSTE) (take (Suc v) d @ [c ! m]) = filter (\<lambda>x. x \<noteq> PUSTE) ?P @ [c ! m]"
    "filter (\<lambda>x. x \<noteq> PUSTE) (take (Suc (Suc v)) c) = filter (\<lambda>x. x \<noteq> PUSTE) ?P @ [c ! m]"
    using assms(4) arg_cong [OF t1, of "filter (\<lambda>x. x \<noteq> PUSTE)"] arg_cong [OF t2, of "filter (\<lambda>x. x \<noteq> PUSTE)"]
    by simp_all
  have "filter (\<lambda>x. x \<noteq> PUSTE) (take (Suc v) d @ [c ! m]) = filter (\<lambda>x. x \<noteq> PUSTE) (take (Suc (Suc v)) c)"
    by (rule trans [OF f(1) f(2) [symmetric]])
  moreover have "length (take (Suc v) d @ [c ! m]) = length (take (Suc (Suc v)) c)"
    using assms(2) by (simp add: d)
  ultimately have "opada (take (Suc v) d @ [c ! m]) = opada (take (Suc (Suc v)) c)" by (intro opada_eq)
  moreover have "drop (Suc v) d = c ! m # drop (Suc (Suc v)) c"
    using assms(1,2) Cons_nth_drop_Suc [of "Suc v" d] by (simp add: d)
  ultimately show ?thesis using assms(4) by (simp add: opada_snoc)
qed

lemma opada_bez_zmian:
  assumes "Suc v < length c" and "c ! Suc v \<noteq> PUSTE"
  shows "opada (take (Suc v) c) @ drop (Suc v) c = opada (take (Suc (Suc v)) c) @ drop (Suc (Suc v)) c"
proof -
  have "take (Suc (Suc v)) c = take (Suc v) c @ [c ! Suc v]" using assms(1) by (rule take_Suc_conv_app_nth)
  with assms show ?thesis by (simp add: opada_snoc Cons_nth_drop_Suc)
qed

lemma dol_kolumny_ok:
  assumes "wymiary n a" and "k < KOLUMNY_sg" and "v < n"
  shows "wymiary n (dol_kolumny k v a) \<and>
    (\<forall>k'<KOLUMNY_sg. k' \<noteq> k \<longrightarrow> kolumna n k' (dol_kolumny k v a) = kolumna n k' a) \<and>
    kolumna n k (dol_kolumny k v a) = opada (take (Suc v) (kolumna n k a)) @ drop (Suc v) (kolumna n k a)"
  using assms
proof (induction v arbitrary: a)
  case 0
  then have "take (Suc 0) (kolumna n k a) = [kolumna n k a ! 0]" by (simp add: take_Suc_conv_app_nth)
  then have "opada (take (Suc 0) (kolumna n k a)) = take (Suc 0) (kolumna n k a)" by (simp add: opada_def)
  with 0 show ?case by (simp add: append_take_drop_id)
next
  case (Suc v)
  let ?c = "kolumna n k a"
  have len: "Suc v < length ?c" using Suc.prems(3) by simp
  define b where "b = (if pole_planszy a (Suc v) k = PUSTE
    then (let nowe_w = w_gore a k (Suc v)
          in if nowe_w \<noteq> 0 then zamien (Suc v, k) (nowe_w - 1, k) a else a)
    else a)"
  have "wymiary n b \<and> (\<forall>k'. k' \<noteq> k \<longrightarrow> kolumna n k' b = kolumna n k' a) \<and>
    opada (take (Suc v) (kolumna n k b)) @ drop (Suc v) (kolumna n k b) =
    opada (take (Suc (Suc v)) ?c) @ drop (Suc (Suc v)) ?c"
  proof (cases "pole_planszy a (Suc v) k = PUSTE")
    case False
    then have "b = a" by (simp add: b_def)
    with opada_bez_zmian [OF len] False Suc.prems show ?thesis by simp
  next
    case True
    define m where "m = w_gore a k (Suc v)"
    from w_gore_ok [of a k "Suc v", folded m_def]
    have m: "m \<le> Suc v" "m \<noteq> 0 \<Longrightarrow> pole_planszy a (m - 1) k \<noteq> PUSTE"
      and run: "\<And>j. m \<le> j \<Longrightarrow> j < Suc v \<Longrightarrow> pole_planszy a j k = PUSTE" by blast+
    have puste_j: "pole_planszy a j k = PUSTE" if "m \<le> j" "j \<le> Suc v" for j
      using run [of j] True that by (cases "j = Suc v") auto
    show ?thesis
    proof (cases "m = 0")
      case m0: True
      have puste: "\<forall>x\<in>set (take u ?c). x = PUSTE" if "u \<le> Suc (Suc v)" for u
        using m0 puste_j that Suc.prems(3) by (auto simp: in_set_conv_nth)
      have "b = a" using True m0 by (simp add: b_def m_def)
      moreover have "opada (take (Suc (Suc v)) ?c) = take (Suc (Suc v)) ?c"
        by (rule opada_puste [OF puste]) simp
      moreover have "opada (take (Suc v) ?c) = take (Suc v) ?c"
        by (rule opada_puste [OF puste]) simp
      ultimately show ?thesis using Suc.prems(1) by (simp only: append_take_drop_id simp_thms)
    next
      case False
      have b: "b = zamien (Suc v, k) (m - 1, k) a" using True False by (simp add: b_def m_def Let_def)
      have bounds: "Suc v < n" "m - 1 < n" using Suc.prems(3) m(1) by auto
      note z = zamien_ok [OF Suc.prems(1) bounds(1) Suc.prems(2) bounds(2) Suc.prems(2)]
      have other: "kolumna n k' b = kolumna n k' a" if "k' \<noteq> k" for k'
        using that by (simp add: kolumna_def b z(2) del: One_nat_def)
      have col: "kolumna n k b = ?c[Suc v := ?c ! (m - 1), m - 1 := PUSTE]"
      proof (rule nth_equalityI)
        fix i assume "i < length (kolumna n k b)"
        then show "kolumna n k b ! i = ?c[Suc v := ?c ! (m - 1), m - 1 := PUSTE] ! i"
          using bounds True by (simp add: b z(2) nth_list_update del: One_nat_def)
      qed simp
      have "opada (take (Suc v) (kolumna n k b)) @ drop (Suc v) (kolumna n k b) =
          opada (take (Suc (Suc v)) ?c) @ drop (Suc (Suc v)) ?c"
        by (rule opada_zamiana [OF _ len _ _ col]) (use m puste_j False bounds in auto)
      with z(1) other b show ?thesis by blast
    qed
  qed
  moreover have "dol_kolumny k (Suc v) a = dol_kolumny k v b" by (simp add: b_def)
  ultimately show ?case using Suc.IH [of b, OF _ Suc.prems(2)] Suc.prems(3)
    by (metis Suc_lessD)
qed

lemma przesun_fold:
  assumes "wymiary n a" and "0 < n" and "distinct ks" and "set ks \<subseteq> {..<KOLUMNY_sg}"
  shows "wymiary n (fold (\<lambda>k. dol_kolumny k (n - 1)) ks a) \<and>
    (\<forall>k<KOLUMNY_sg. kolumna n k (fold (\<lambda>k. dol_kolumny k (n - 1)) ks a) =
      (if k \<in> set ks then opada (kolumna n k a) else kolumna n k a))"
  using assms
proof (induction ks arbitrary: a)
  case (Cons k ks)
  have k: "k < KOLUMNY_sg" "n - 1 < n" using Cons.prems by auto
  note d = dol_kolumny_ok [OF Cons.prems(1) k]
  from d have w: "wymiary n (dol_kolumny k (n - 1) a)" by blast
  from d Cons.prems(2) have col: "kolumna n k (dol_kolumny k (n - 1) a) = opada (kolumna n k a)" by simp
  from Cons.IH [OF w] Cons.prems d col show ?case by auto
qed simp

lemma przesun_w_dol_ok:
  assumes "wymiary n a" and "0 < n"
  shows "wymiary n (przesun_w_dol a n)"
    and "kolumny n (przesun_w_dol a n) = map opada (kolumny n a)"
proof -
  have "set [0..<KOLUMNY_sg] \<subseteq> {..<KOLUMNY_sg}" by auto
  note f = przesun_fold [OF assms distinct_upt this]
  then show "wymiary n (przesun_w_dol a n)" by (simp add: przesun_w_dol_def)
  show "kolumny n (przesun_w_dol a n) = map opada (kolumny n a)"
    by (rule nth_equalityI) (use f in \<open>auto simp: przesun_w_dol_def\<close>)
qed

section \<open>Closing the empty columns\<close>

lemma w_prawo_ok:
  "k \<le> w_prawo a w m k \<and> w_prawo a w m k \<le> k + m \<and>
   (\<forall>j. k < j \<and> j \<le> w_prawo a w m k \<longrightarrow> pole_planszy a w j = PUSTE) \<and>
   (w_prawo a w m k \<noteq> k + m \<longrightarrow> pole_planszy a w (w_prawo a w m k + 1) \<noteq> PUSTE)"
proof (induction m arbitrary: k)
  case (Suc m)
  show ?case
  proof (cases "pole_planszy a w (k + 1) = PUSTE")
    case True
    then have eq: "w_prawo a w (Suc m) k = w_prawo a w m (k + 1)" by simp
    have "pole_planszy a w j = PUSTE" if "k < j" "j \<le> w_prawo a w m (k + 1)" for j
      using Suc.IH [of "k + 1"] that True by (cases "j = k + 1") auto
    with Suc.IH [of "k + 1"] show ?thesis unfolding eq by simp
  qed (auto dest: leD)
qed (auto dest: leD)

lemma zamien_kolumny_ok:
  assumes "wymiary n a" and "k < KOLUMNY_sg" and "q < KOLUMNY_sg" and "m \<le> n"
  shows "wymiary n (fold (\<lambda>i. zamien (i, k) (i, q)) [0..<m] a) \<and>
    (\<forall>w j. pole_planszy (fold (\<lambda>i. zamien (i, k) (i, q)) [0..<m] a) w j =
      (if w < m \<and> j = q then pole_planszy a w k
       else if w < m \<and> j = k then pole_planszy a w q else pole_planszy a w j))"
  using assms(4)
proof (induction m)
  case (Suc m)
  then have "m < n" by simp
  note z = zamien_ok [OF _ this assms(2) this assms(3)]
  from Suc z show ?case by (auto simp: less_Suc_eq)
qed (use assms in simp)

text \<open>A column is empty when its lowest field is.\<close>

definition pusta :: "string \<Rightarrow> bool" where
  "pusta c \<longleftrightarrow> last c = PUSTE"

lemma pusta_kolumna: "0 < n \<Longrightarrow> pusta (kolumna n k a) \<longleftrightarrow> pole_planszy a (n - 1) k = PUSTE"
  by (simp add: pusta_def kolumna_def last_map)

definition na_lewo :: "nat \<Rightarrow> string list \<Rightarrow> bool" where
  "na_lewo k cs \<longleftrightarrow> (\<forall>i j. i < k \<and> i < j \<and> j < length cs \<and> pusta (cs ! i) \<longrightarrow> pusta (cs ! j))"

lemma filter_zamiana:
  assumes "i < j" and "j < length cs" and "\<forall>m. i \<le> m \<and> m < j \<longrightarrow> \<not> P (cs ! m)"
  shows "filter P (cs[i := cs ! j, j := cs ! i]) = filter P cs"
proof -
  define A M B where "A = take i cs" and "M = take (j - Suc i) (drop (Suc i) cs)" and "B = drop (Suc j) cs"
  have cs: "cs = A @ cs ! i # M @ cs ! j # B"
  proof -
    have "cs = A @ cs ! i # drop (Suc i) cs" using assms unfolding A_def by (intro id_take_nth_drop) simp
    moreover have "drop (Suc i) cs = M @ cs ! j # B"
      using id_take_nth_drop [of "j - Suc i" "drop (Suc i) cs"] assms by (simp add: M_def B_def)
    ultimately show ?thesis by simp
  qed
  have len: "length A = i" "length M = j - Suc i" using assms by (simp_all add: A_def M_def)
  have "cs[i := cs ! j, j := cs ! i] = A @ cs ! j # M @ cs ! i # B"
  proof -
    have ij: "i = length A" "j = length A + Suc (length M)" using len assms(1) by simp_all
    have "(A @ x # M @ y # B)[i := y, j := x] = A @ y # M @ x # B" for x y
      unfolding ij by (simp add: list_update_append)
    then show ?thesis using cs by metis
  qed
  moreover have "\<forall>x\<in>set M. \<not> P x"
    using assms len by (auto simp: in_set_conv_nth M_def)
  then have "filter P M = []" by (simp add: filter_empty_conv)
  moreover have "\<not> P (cs ! i)" using assms by simp
  ultimately show ?thesis by (subst (3) cs) simp
qed

lemma lewo_krok_ok:
  assumes "wymiary n a" and "0 < n" and "k < KOLUMNY_sg - 1" and "na_lewo k (kolumny n a)"
  shows "wymiary n (lewo_krok n k a) \<and> na_lewo (Suc k) (kolumny n (lewo_krok n k a)) \<and>
    filter (\<lambda>c. \<not> pusta c) (kolumny n (lewo_krok n k a)) = filter (\<lambda>c. \<not> pusta c) (kolumny n a) \<and>
    set (kolumny n (lewo_krok n k a)) = set (kolumny n a)"
proof (cases "pole_planszy a (n - 1) k = PUSTE")
  case False
  have "na_lewo (Suc k) (kolumny n a)"
    using assms False pusta_kolumna [OF assms(2), of k a] by (auto simp: na_lewo_def less_Suc_eq)
  with False assms(1) show ?thesis by (simp add: lewo_krok_def)
next
  case True
  let ?cs = "kolumny n a"
  define r where "r = w_prawo a (n - 1) (KOLUMNY_sg - 1 - k) k"
  from w_prawo_ok [of k a "n - 1" "KOLUMNY_sg - 1 - k", folded r_def] assms(3)
  have r: "k \<le> r" "r \<le> KOLUMNY_sg - 1" "r \<noteq> KOLUMNY_sg - 1 \<Longrightarrow> pole_planszy a (n - 1) (r + 1) \<noteq> PUSTE"
    and run: "\<And>j. k < j \<Longrightarrow> j \<le> r \<Longrightarrow> pole_planszy a (n - 1) j = PUSTE" by auto
  have puste: "pusta (?cs ! j)" if "k \<le> j" "j \<le> r" for j
    using run [of j] True that r(2) assms(2,3) pusta_kolumna [OF assms(2), of j a] by (cases "j = k") auto
  show ?thesis
  proof (cases "r = KOLUMNY_sg - 1")
    case last: True
    have "na_lewo (Suc k) ?cs"
      using puste assms(4) last by (auto simp: na_lewo_def less_Suc_eq)
    with True last assms(1) show ?thesis by (simp add: lewo_krok_def r_def Let_def)
  next
    case False
    define b where "b = fold (\<lambda>i. zamien (i, k) (i, r + 1)) [0..<n] a"
    have eq: "lewo_krok n k a = b" using True False by (simp add: lewo_krok_def r_def b_def Let_def)
    have bounds: "k < KOLUMNY_sg" "r + 1 < KOLUMNY_sg" using r False assms(3) by auto
    note z = zamien_kolumny_ok [OF assms(1) bounds order_refl, folded b_def]
    have cs: "kolumny n b = ?cs[k := ?cs ! (r + 1), r + 1 := ?cs ! k]"
      using z bounds by (intro nth_equalityI) (auto simp: nth_list_update kolumna_def)
    have full: "\<not> pusta (?cs ! (r + 1))"
      using r(3) False bounds pusta_kolumna [OF assms(2), of "r + 1" a] by simp
    have "filter (\<lambda>c. \<not> pusta c) (kolumny n b) = filter (\<lambda>c. \<not> pusta c) ?cs"
      unfolding cs using puste bounds r(1) by (intro filter_zamiana) auto
    moreover have "set (kolumny n b) = set ?cs"
      unfolding cs using bounds r(1) by (metis kolumna_simps(3) set_swap)
    moreover have "na_lewo (Suc k) (kolumny n b)"
      unfolding na_lewo_def
    proof (intro allI impI)
      fix i j
      assume ij: "i < Suc k \<and> i < j \<and> j < length (kolumny n b) \<and> pusta (kolumny n b ! i)"
      have "i \<noteq> k" using ij full bounds r(1) by (auto simp: cs nth_list_update)
      with ij have i: "i < k" "pusta (?cs ! i)" using r(1) by (auto simp: cs nth_list_update)
      with assms(4) [unfolded na_lewo_def, rule_format, of i "r + 1"] bounds r(1)
      have "pusta (?cs ! (r + 1))" by simp
      with full show "pusta (kolumny n b ! j)" by simp
    qed
    ultimately show ?thesis using z eq by simp
  qed
qed

lemma na_lewo_filter:
  assumes "na_lewo (length cs - 1) cs"
  shows "cs = filter (\<lambda>c. \<not> pusta c) cs @ filter pusta cs"
  using assms
proof (induction cs)
  case (Cons c cs)
  show ?case
  proof (cases "pusta c")
    case False
    have "na_lewo (length cs - 1) cs"
      unfolding na_lewo_def
    proof (intro allI impI)
      fix i j assume "i < length cs - 1 \<and> i < j \<and> j < length cs \<and> pusta (cs ! i)"
      with Cons.prems [unfolded na_lewo_def, rule_format, of "Suc i" "Suc j"] show "pusta (cs ! j)" by simp
    qed
    with Cons.IH False show ?thesis by simp
  next
    case True
    have "pusta x" if "x \<in> set cs" for x
    proof -
      from that obtain j where "j < length cs" "x = cs ! j" by (auto simp: in_set_conv_nth)
      with Cons.prems [unfolded na_lewo_def, rule_format, of 0 "Suc j"] True show ?thesis by fastforce
    qed
    with True show ?thesis by (simp add: filter_empty_conv filter_id_conv)
  qed
qed simp

lemma przesun_w_lewo_ok:
  assumes "wymiary n a" and "0 < n"
  shows "wymiary n (przesun_w_lewo a n) \<and>
    filter (\<lambda>c. \<not> pusta c) (kolumny n (przesun_w_lewo a n)) = filter (\<lambda>c. \<not> pusta c) (kolumny n a) \<and>
    set (kolumny n (przesun_w_lewo a n)) = set (kolumny n a) \<and>
    na_lewo (KOLUMNY_sg - 1) (kolumny n (przesun_w_lewo a n))"
proof -
  have "wymiary n (fold (lewo_krok n) [0..<m] a) \<and> na_lewo m (kolumny n (fold (lewo_krok n) [0..<m] a)) \<and>
    filter (\<lambda>c. \<not> pusta c) (kolumny n (fold (lewo_krok n) [0..<m] a)) = filter (\<lambda>c. \<not> pusta c) (kolumny n a) \<and>
    set (kolumny n (fold (lewo_krok n) [0..<m] a)) = set (kolumny n a)" if "m \<le> KOLUMNY_sg - 1" for m
    using that
  proof (induction m)
    case 0
    then show ?case using assms(1) by (simp add: na_lewo_def)
  next
    case (Suc m)
    then have "m < KOLUMNY_sg - 1" by simp
    from lewo_krok_ok [OF _ assms(2) this] Suc show ?case by simp
  qed
  from this [of "KOLUMNY_sg - 1"] show ?thesis by (simp add: przesun_w_lewo_def)
qed

lemma pusta_opada:
  assumes "c \<noteq> []" and "pusta (opada c)"
  shows "opada c = replicate (length c) PUSTE"
proof -
  let ?f = "filter (\<lambda>x. x \<noteq> PUSTE) c"
  have "?f = []"
  proof (rule ccontr)
    assume f: "?f \<noteq> []"
    with assms(2) have "last ?f = PUSTE" by (simp add: pusta_def opada_def Let_def)
    moreover have "last ?f \<in> set ?f" using f by (rule last_in_set)
    then have "last ?f \<noteq> PUSTE" unfolding set_filter by blast
    ultimately show False by simp
  qed
  then show ?thesis by (simp add: opada_def)
qed

text \<open>The tidy board: the columns that still hold blocks, fallen, from the left, and empty columns
  after them.\<close>

definition uporzadkowane :: "nat \<Rightarrow> string list \<Rightarrow> string list" where
  "uporzadkowane n cs =
     (let f = filter (\<lambda>c. \<not> pusta c) (map opada cs)
      in f @ replicate (length cs - length f) (replicate n PUSTE))"

lemma porzadkuj_ok:
  assumes "wymiary n a" and "0 < n"
  shows "wymiary n (porzadkuj_plansze a n)"
    and "kolumny n (porzadkuj_plansze a n) = uporzadkowane n (kolumny n a)"
proof -
  note d = przesun_w_dol_ok [OF assms]
  note l = przesun_w_lewo_ok [OF d(1) assms(2), unfolded d(2)]
  from l show "wymiary n (porzadkuj_plansze a n)" by (simp add: porzadkuj_plansze_def)
  define cs where "cs = kolumny n (porzadkuj_plansze a n)"
  let ?f = "filter (\<lambda>c. \<not> pusta c) (map opada (kolumny n a))"
  have len: "length cs = KOLUMNY_sg" by (simp add: cs_def)
  have f: "filter (\<lambda>c. \<not> pusta c) cs = ?f" and set: "set cs = set (map opada (kolumny n a))"
    and na: "na_lewo (length cs - 1) cs"
    using l by (simp_all add: cs_def porzadkuj_plansze_def)
  have "x = replicate n PUSTE" if "x \<in> set cs" "pusta x" for x
  proof -
    from that(1) set obtain k where "x = opada (kolumna n k a)" by (auto simp: kolumny_def)
    with pusta_opada [of "kolumna n k a"] that(2) assms(2) show ?thesis
      by (metis kolumna_simps(1) length_greater_0_conv)
  qed
  then have "filter pusta cs = replicate (length (filter pusta cs)) (replicate n PUSTE)"
    by (intro replicate_length_same [symmetric]) auto
  moreover have "length (filter pusta cs) = length cs - length ?f"
    using sum_length_filter_compl [of pusta cs] f by simp
  ultimately have "filter pusta cs = replicate (length cs - length ?f) (replicate n PUSTE)" by simp
  with na_lewo_filter [OF na] f len show "kolumny n (porzadkuj_plansze a n) = uporzadkowane n (kolumny n a)"
    by (simp add: uporzadkowane_def cs_def [symmetric])
qed

section \<open>Input and output\<close>

lemma znak_code [simp]: "znak (code c) = c"
proof -
  have "znak (code c) = char_of (nat (code c))" by (simp add: znak_def)
  then show ?thesis by (simp add: code_nat)
qed

lemma czytaj_wiersz_ok:
  "czytaj_wiersz (length r) (fst (getchar (r @ s))) (snd (getchar (r @ s))) = (r, getchar s)"
proof (induction r)
  case Nil
  then show ?case by simp
next
  case (Cons c r)
  then show ?case by (simp add: split_beta)
qed

lemma czytaj_wiersze_ok:
  assumes "\<forall>r\<in>set a. length r = KOLUMNY_sg" and "a \<noteq> []"
  shows "czytaj_wiersze (length a) (fst (getchar (concat (map (\<lambda>r. r @ [CHR 0x0A]) a) @ s)))
      (snd (getchar (concat (map (\<lambda>r. r @ [CHR 0x0A]) a) @ s))) = (a, s)"
  using assms
proof (induction a)
  case (Cons r a)
  let ?t = "concat (map (\<lambda>r. r @ [CHR 0x0A]) a) @ s"
  have "length r = KOLUMNY_sg" using Cons.prems by simp
  with czytaj_wiersz_ok [of r "CHR 0x0A # ?t"]
  have row: "czytaj_wiersz KOLUMNY_sg (fst (getchar (r @ CHR 0x0A # ?t))) (snd (getchar (r @ CHR 0x0A # ?t))) =
      (r, code (CHR 0x0A), ?t)" by simp
  show ?case
  proof (cases "a = []")
    case True
    with row show ?thesis by (simp add: split_beta)
  next
    case False
    with Cons row show ?thesis by (simp add: split_beta)
  qed
qed simp

lemma pisz_eq:
  assumes "wymiary n a"
  shows "pisz_plansze a n = concat (map (\<lambda>r. r @ [CHR 0x0A]) a)"
proof -
  have "map (pole_planszy a w) [0..<KOLUMNY_sg] = a ! w" if "w < n" for w
    using assms that by (intro nth_equalityI) (auto simp: wymiary_def pole_planszy_def)
  then have "map (\<lambda>w. map (pole_planszy a w) [0..<KOLUMNY_sg] @ [CHR 0x0A]) [0..<n] =
      map (\<lambda>w. (a ! w) @ [CHR 0x0A]) [0..<n]" by simp
  also have "\<dots> = map (\<lambda>r. r @ [CHR 0x0A]) a"
    using assms by (intro nth_equalityI) (auto simp: wymiary_def)
  finally show ?thesis by (simp add: pisz_plansze_def)
qed

lemma czytaj_pisz:
  assumes "wymiary n a" and "0 < n"
  shows "czytaj_plansze n (pisz_plansze a n @ s) = (a, s)"
proof -
  have "a \<noteq> []" "\<forall>r\<in>set a. length r = KOLUMNY_sg" "length a = n" using assms by (auto simp: wymiary_def)
  with czytaj_wiersze_ok [of a s] show ?thesis
    by (simp add: czytaj_plansze_def pisz_eq [OF assms(1)] split_beta)
qed

section \<open>The move\<close>

lemma grupa_sama:
  assumes "w < n" and "k < KOLUMNY_sg"
  shows "sprawdz_czy_grupa a n w k = 0 \<longleftrightarrow> osiag (pola_koloru n (pole_planszy a w k) a) (w, k) = {(w, k)}"
    (is "_ \<longleftrightarrow> osiag ?S ?p = _")
proof -
  have p: "?p \<in> ?S" using assms by (simp add: pola_koloru_def)
  have sasiad: "sprawdz_czy_grupa a n w k = 0 \<longleftrightarrow> (\<forall>q\<in>?S. (?p, q) \<notin> obok)"
  proof -
    have q: "(?p, q) \<in> obok \<longleftrightarrow> q = (w + 1, k) \<or> (1 \<le> w \<and> q = (w - 1, k)) \<or> q = (w, k + 1) \<or>
        (1 \<le> k \<and> q = (w, k - 1))" for q
      by (cases q) (auto simp: obok_def)
    have m: "(i, j) \<in> ?S \<longleftrightarrow> i < n \<and> j < KOLUMNY_sg \<and> pole_planszy a w k = pole_planszy a i j" for i j
      unfolding pola_koloru_def by auto
    have "sprawdz_czy_grupa a n w k = 0 \<longleftrightarrow> \<not> ((w, k + 1) \<in> ?S \<or> (w + 1, k) \<in> ?S \<or>
        (1 \<le> k \<and> (w, k - 1) \<in> ?S) \<or> (1 \<le> w \<and> (w - 1, k) \<in> ?S))"
      unfolding sprawdz_czy_grupa_def m using assms by auto
    also have "\<dots> \<longleftrightarrow> (\<forall>q\<in>?S. (?p, q) \<notin> obok)" unfolding q by blast
    finally show ?thesis .
  qed
  also have "\<dots> \<longleftrightarrow> osiag ?S ?p = {?p}"
  proof
    assume "\<forall>q\<in>?S. (?p, q) \<notin> obok"
    then have none: "{q \<in> ?S - {?p}. (?p, q) \<in> obok} = {}" by blast
    show "osiag ?S ?p = {?p}" unfolding osiag_sasiedzi [OF p] none by simp
  next
    assume one: "osiag ?S ?p = {?p}"
    show "\<forall>q\<in>?S. (?p, q) \<notin> obok"
    proof (intro ballI notI)
      fix q assume q: "q \<in> ?S" "(?p, q) \<in> obok"
      from osiag_step [OF osiag_self q] one have "q = ?p" by simp
      with q(2) show False by (simp add: obok_def)
    qed
  qed
  finally show ?thesis .
qed

text \<open>The board after the move at a field: nothing happens on an empty field or a group of one.\<close>

definition po_ruchu :: "nat \<Rightarrow> nat \<Rightarrow> nat \<Rightarrow> plansza \<Rightarrow> plansza" where
  "po_ruchu n w k a =
     (let g = osiag (pola_koloru n (pole_planszy a w k) a) (w, k)
      in if pole_planszy a w k = PUSTE \<or> g = {(w, k)} then a else porzadkuj_plansze (wymaz n g a) n)"

lemma wykonaj_ok:
  assumes "wymiary n a" and "w < n" and "k < KOLUMNY_sg"
  shows "wykonaj n (int w) (int k) (pisz_plansze a n @ s) = Some (pisz_plansze (po_ruchu n w k a) n)"
proof -
  have n: "0 < n" using assms(2) by simp
  have "(w, k) \<in> pola_koloru n (pole_planszy a w k) a" using assms by (simp add: pola_koloru_def)
  from usun_grupe_ok [OF assms(1) _ this] grupa_sama [OF assms(2,3)] czytaj_pisz [OF assms(1) n, of s] assms(2,3)
  show ?thesis by (simp add: wykonaj_def po_ruchu_def PUSTE_def Let_def)
qed

section \<open>Properties\<close>

definition mala :: plansza where
  "mala = [''112.11111111111'', ''1321.1111111111'']"

lemma mala_ok: "wymiary 2 mala"
  by (simp add: mala_def wymiary_def KOLUMNY_sg_def)

text \<open>C37: Removing a group. For every field that is not empty, \<open>usun_grupe\<close> ends, and it empties
  exactly the fields connected to it through fields of the same kind.\<close>

theorem usun_grupe_spojna:
  assumes "wymiary n a" and "x \<noteq> PUSTE" and "(w, k) \<in> pola_koloru n x a"
  shows "\<exists>a'. usun_grupe a n w k x = Some a' \<and> wymiary n a' \<and>
    (\<forall>i<n. \<forall>j<KOLUMNY_sg. pole_planszy a' i j =
       (if (i, j) \<in> osiag (pola_koloru n x a) (w, k) then PUSTE else pole_planszy a i j))"
  using usun_grupe_ok [OF assms]
  by (intro exI [of _ "wymaz n (osiag (pola_koloru n x a) (w, k)) a"]) (simp add: wymaz_def)

theorem usun_grupe_spojna_witness:
  "\<exists>a'. usun_grupe mala 2 0 0 CHR ''1'' = Some a' \<and> wymiary 2 a' \<and> pole_planszy a' 0 2 = CHR ''2''"
proof -
  have "CHR ''1'' \<noteq> PUSTE" "(0, 0) \<in> pola_koloru 2 (CHR ''1'') mala"
    by (simp_all add: PUSTE_def pola_koloru_def mala_def pole_planszy_def KOLUMNY_sg_def)
  from usun_grupe_spojna [OF mala_ok this] obtain a' where a': "usun_grupe mala 2 0 0 CHR ''1'' = Some a'" "wymiary 2 a'"
    and f: "\<forall>i<2. \<forall>j<KOLUMNY_sg. pole_planszy a' i j =
       (if (i, j) \<in> osiag (pola_koloru 2 (CHR ''1'') mala) (0, 0) then PUSTE else pole_planszy mala i j)" by blast
  have "(0, 2) \<notin> osiag (pola_koloru 2 (CHR ''1'') mala) (0, 0)"
  proof
    assume "(0, 2) \<in> osiag (pola_koloru 2 (CHR ''1'') mala) (0, 0)"
    moreover have "osiag (pola_koloru 2 (CHR ''1'') mala) (0, 0) \<subseteq> pola_koloru 2 (CHR ''1'') mala"
      by (rule osiag_sub) (simp add: pola_koloru_def mala_def pole_planszy_def KOLUMNY_sg_def)
    ultimately show False by (auto simp: pola_koloru_def mala_def pole_planszy_def)
  qed
  with f have "pole_planszy a' 0 2 = CHR ''2''"
    by (simp add: KOLUMNY_sg_def mala_def pole_planszy_def)
  with a' show ?thesis by blast
qed

text \<open>C38: Tidying. After \<open>porzadkuj_plansze\<close> every column has its blocks at the bottom in their old
  order, the columns that still have blocks stand at the left in their old order, and all the
  other columns are empty. The shape of the board is kept.\<close>

theorem porzadkuj_kolumny:
  assumes "wymiary n a" and "0 < n"
  shows "wymiary n (porzadkuj_plansze a n) \<and>
    kolumny n (porzadkuj_plansze a n) = uporzadkowane n (kolumny n a)"
  using porzadkuj_ok [OF assms] by simp

theorem porzadkuj_kolumny_witness:
  "kolumny 2 (porzadkuj_plansze mala 2) = uporzadkowane 2 (kolumny 2 mala)"
proof -
  have "0 < (2::nat)" by simp
  from porzadkuj_kolumny [OF mala_ok this] show ?thesis by blast
qed

text \<open>A board that was printed is read back, and reading it consumes exactly its text.\<close>

theorem plansza_roundtrip:
  assumes "wymiary n a" and "0 < n"
  shows "czytaj_plansze n (pisz_plansze a n @ s) = (a, s)"
  by (rule czytaj_pisz [OF assms])

theorem plansza_roundtrip_witness:
  "czytaj_plansze 2 (pisz_plansze mala 2 @ ''x'') = (mala, ''x'')"
  using plansza_roundtrip [OF mala_ok, of "''x''"] by simp

text \<open>The program. On the text of a board and a field of it, \<open>wykonaj\<close> ends and prints the
  board after the move: unchanged for an empty field or a group of one, and otherwise without
  the group and tidied.\<close>

theorem wykonaj_ruch:
  assumes "wymiary n a" and "w < n" and "k < KOLUMNY_sg"
  shows "wykonaj n (int w) (int k) (pisz_plansze a n @ s) = Some (pisz_plansze (po_ruchu n w k a) n)"
  by (rule wykonaj_ok [OF assms])

theorem wykonaj_ruch_witness:
  "wykonaj 2 0 3 (pisz_plansze mala 2) = Some (pisz_plansze mala 2)"
proof -
  have "0 < (2::nat)" "3 < KOLUMNY_sg" by (simp_all add: KOLUMNY_sg_def)
  from wykonaj_ruch [OF mala_ok this, of "[]"] show ?thesis
    by (simp add: po_ruchu_def mala_def pole_planszy_def PUSTE_def)
qed

end
