(* ===== verification/Poset.thy ===== *)
theory Poset
  imports Stdio
begin

text \<open>
  The module \<open>poset.cc\<close> of partially ordered sets of strings: its global state, the square
  array of relations of each poset, the diagnostic messages and the nine functions of the
  interface. \<open>None\<close> as a \<open>char const *\<close> is the null pointer. \<open>debug\<close> is an argument of every
  operation, since it is fixed when the module is compiled; the messages go to \<open>cerr\<close>.
  An array of relations always has as many rows and columns as the poset has elements
  (part of the invariant proved later), so the indices used here are in range.
\<close>

section \<open>State\<close>

definition RELATION :: int where "RELATION = 1"
definition NO_RELATION :: int where "NO_RELATION = -1"
definition REL_TRANSITIVITY :: int where "REL_TRANSITIVITY = 2"

type_synonym relacje = "int list list"
type_synonym poset_t = "string list \<times> relacje"

record posets =
  allPosets :: "nat \<rightharpoonup> poset_t"
  availableIDs :: "nat list"
  nextID :: nat
  cerr :: string

definition posets_init :: posets where
  "posets_init = \<lparr>allPosets = Map.empty, availableIDs = [], nextID = 0, cerr = []\<rparr>"

definition rel_at :: "relacje \<Rightarrow> nat \<Rightarrow> nat \<Rightarrow> int" where
  "rel_at a i j = a ! i ! j"

definition set_rel :: "nat \<Rightarrow> nat \<Rightarrow> int \<Rightarrow> relacje \<Rightarrow> relacje" where
  "set_rel i j x a = a[i := (a ! i)[j := x]]"

text \<open>\<open>x == RELATION || x == REL_TRANSITIVITY\<close>.\<close>

definition related :: "relacje \<Rightarrow> nat \<Rightarrow> nat \<Rightarrow> bool" where
  "related a i j \<longleftrightarrow> rel_at a i j = RELATION \<or> rel_at a i j = REL_TRANSITIVITY"

section \<open>Helpers on the relations\<close>

definition somethingIsBetweenTwoElem :: "relacje \<Rightarrow> nat \<Rightarrow> nat \<Rightarrow> bool" where
  "somethingIsBetweenTwoElem a idx1 idx2 =
     list_ex (\<lambda>i. i \<noteq> idx1 \<and> i \<noteq> idx2 \<and> related a idx1 i \<and> related a i idx2) [0..<length a]"

definition changeRelationForSmallerElem :: "nat \<Rightarrow> nat \<Rightarrow> nat \<Rightarrow> relacje \<Rightarrow> relacje" where
  "changeRelationForSmallerElem cur del n a =
     fold (\<lambda>j a. if related a del j \<and> rel_at a cur j = REL_TRANSITIVITY
                 then set_rel cur j RELATION a else a) [0..<n] a"

definition changeRelationForLargerElem :: "nat \<Rightarrow> nat \<Rightarrow> nat \<Rightarrow> relacje \<Rightarrow> relacje" where
  "changeRelationForLargerElem cur del n a =
     fold (\<lambda>j a. if related a j del \<and> rel_at a j cur = REL_TRANSITIVITY
                 then set_rel j cur RELATION a else a) [0..<n] a"

text \<open>The loop over the elements from index \<open>i\<close> on; the result is \<open>idx\<close> and \<open>exist\<close>.\<close>

fun find_elem :: "string list \<Rightarrow> string \<Rightarrow> nat \<Rightarrow> nat \<times> bool" where
  "find_elem [] value i = (0, False)"
| "find_elem (s # v) value i = (if s = value then (i, True) else find_elem v value (Suc i))"

definition checkIfElemExistInVecOfStr :: "string list \<Rightarrow> string \<Rightarrow> nat \<times> bool" where
  "checkIfElemExistInVecOfStr v value = find_elem v value 0"

definition transitivity_inner :: "nat \<Rightarrow> nat \<Rightarrow> nat \<Rightarrow> relacje \<Rightarrow> relacje" where
  "transitivity_inner i index2 j a =
     (if related a index2 j \<and> rel_at a i j = NO_RELATION then set_rel i j REL_TRANSITIVITY a else a)"

definition transitivity_step :: "nat \<Rightarrow> nat \<Rightarrow> nat \<Rightarrow> nat \<Rightarrow> relacje \<Rightarrow> relacje" where
  "transitivity_step n index1 index2 i a =
     (if i \<noteq> index1 \<and> i \<noteq> index2 then
        (if related a i index1 \<and> rel_at a i index2 = NO_RELATION then
           fold (transitivity_inner i index2) [0..<n] (set_rel i index2 REL_TRANSITIVITY a)
         else if rel_at a index1 i = NO_RELATION \<and> related a index2 i then
           set_rel index1 i REL_TRANSITIVITY a
         else a)
      else a)"

definition addTransitivityRelations :: "nat \<Rightarrow> nat \<Rightarrow> relacje \<Rightarrow> relacje" where
  "addTransitivityRelations index1 index2 a =
     fold (transitivity_step (length a) index1 index2) [0..<length a] a"

section \<open>Diagnostic messages\<close>

abbreviation quote :: string where "quote \<equiv> [CHR 0x22]"
abbreviation newline :: string where "newline \<equiv> [CHR 0x0A]"

definition getStrErr :: "string option \<Rightarrow> string" where
  "getStrErr val = (case val of None \<Rightarrow> ''NULL'' | Some s \<Rightarrow> quote @ s @ quote)"

definition getPairErr :: "string \<Rightarrow> string \<Rightarrow> string" where
  "getPairErr s1 s2 = (if s2 \<noteq> [] then ''('' @ s1 @ '', '' @ s2 @ '')'' else ''('' @ s1 @ '')'')"

definition getPosetIdErr :: "nat \<Rightarrow> string" where
  "getPosetIdErr pid = '': poset '' @ dec pid"

definition lastExprErr :: "string \<Rightarrow> string" where
  "lastExprErr s = '' '' @ s @ newline"

definition invalidValErr :: "string \<Rightarrow> string" where
  "invalidValErr type = '': invalid '' @ type @ '' (NULL)'' @ newline"

definition commaElemErr :: "string \<Rightarrow> string" where
  "commaElemErr s = '', '' @ s @ '' ''"

definition relationErr :: "string \<Rightarrow> nat \<Rightarrow> string option \<Rightarrow> string option \<Rightarrow> string" where
  "relationErr fName pid value1 value2 =
     fName @ getPosetIdErr pid @ commaElemErr ''relation'' @ getPairErr (getStrErr value1) (getStrErr value2)"

text \<open>Writing to \<open>cerr\<close> under \<open>if constexpr (debug)\<close>.\<close>

definition say :: "bool \<Rightarrow> string \<Rightarrow> posets \<Rightarrow> posets" where
  "say debug msg st = (if debug then st\<lparr>cerr := cerr st @ msg\<rparr> else st)"

definition posetNotExistErr :: "bool \<Rightarrow> string \<Rightarrow> nat \<Rightarrow> posets \<Rightarrow> posets" where
  "posetNotExistErr debug fName pid = say debug (fName @ getPosetIdErr pid @ lastExprErr ''does not exist'')"

definition elemNotExistErr :: "bool \<Rightarrow> string \<Rightarrow> nat \<Rightarrow> string option \<Rightarrow> posets \<Rightarrow> posets" where
  "elemNotExistErr debug fName pid value =
     say debug (fName @ getPosetIdErr pid @ commaElemErr ''element'' @ getStrErr value @ lastExprErr ''does not exist'')"

definition elemExistErr :: "bool \<Rightarrow> string \<Rightarrow> nat \<Rightarrow> string option \<Rightarrow> posets \<Rightarrow> posets" where
  "elemExistErr debug fName pid value =
     say debug (fName @ getPosetIdErr pid @ commaElemErr ''element'' @ getStrErr value @ '' already exists'' @ newline)"

definition oneValueNullErr :: "bool \<Rightarrow> string \<Rightarrow> posets \<Rightarrow> posets" where
  "oneValueNullErr debug fName = say debug (fName @ invalidValErr ''value'')"

definition twoValueNullErr :: "bool \<Rightarrow> string \<Rightarrow> string option \<Rightarrow> string option \<Rightarrow> posets \<Rightarrow> posets" where
  "twoValueNullErr debug fName value1 value2 st =
     (let st1 = (if value1 = None then say debug (fName @ invalidValErr ''value1'') st else st)
      in if value2 = None then say debug (fName @ invalidValErr ''value2'') st1 else st1)"

definition threeArgFuncNameErr :: "bool \<Rightarrow> string \<Rightarrow> nat \<Rightarrow> string option \<Rightarrow> string option \<Rightarrow> posets \<Rightarrow> posets" where
  "threeArgFuncNameErr debug fName pid value1 value2 =
     say debug (fName @ getPairErr (dec pid) (getStrErr value1 @ '', '' @ getStrErr value2) @ newline)"

definition twoArgFuncNameErr :: "bool \<Rightarrow> string \<Rightarrow> nat \<Rightarrow> string option \<Rightarrow> posets \<Rightarrow> posets" where
  "twoArgFuncNameErr debug fName pid value = say debug (fName @ getPairErr (dec pid) (getStrErr value) @ newline)"

definition oneArgFuncNameErr :: "bool \<Rightarrow> string \<Rightarrow> nat \<Rightarrow> posets \<Rightarrow> posets" where
  "oneArgFuncNameErr debug fName pid =
     (if fName = ''poset_new'' then say debug (fName @ ''()'' @ newline)
      else say debug (fName @ getPairErr (dec pid) [] @ newline))"

definition insertedErr :: "bool \<Rightarrow> string \<Rightarrow> nat \<Rightarrow> string option \<Rightarrow> posets \<Rightarrow> posets" where
  "insertedErr debug fName pid value =
     say debug (fName @ getPosetIdErr pid @ commaElemErr ''element'' @ getStrErr value @ '' inserted'' @ newline)"

definition containsErr :: "bool \<Rightarrow> string \<Rightarrow> nat \<Rightarrow> nat \<Rightarrow> posets \<Rightarrow> posets" where
  "containsErr debug fName pid n =
     say debug (fName @ getPosetIdErr pid @ '' contains '' @ dec n @ '' element(s)'' @ newline)"

definition elemRemovedErr :: "bool \<Rightarrow> string \<Rightarrow> nat \<Rightarrow> string option \<Rightarrow> posets \<Rightarrow> posets" where
  "elemRemovedErr debug fName pid value =
     say debug (fName @ getPosetIdErr pid @ commaElemErr ''element'' @ getStrErr value @ '' removed'' @ newline)"

definition isRelationAddedErr ::
    "bool \<Rightarrow> int \<Rightarrow> string \<Rightarrow> nat \<Rightarrow> string option \<Rightarrow> string option \<Rightarrow> posets \<Rightarrow> posets" where
  "isRelationAddedErr debug isAdded fName pid value1 value2 st =
     (if isAdded = NO_RELATION
      then say debug (relationErr fName pid value1 value2 @ lastExprErr ''cannot be added'') st
      else if isAdded = RELATION
      then say debug (relationErr fName pid value1 value2 @ lastExprErr ''added'') st
      else st)"

definition isRelationDeletedErr ::
    "bool \<Rightarrow> bool \<Rightarrow> string \<Rightarrow> nat \<Rightarrow> string option \<Rightarrow> string option \<Rightarrow> posets \<Rightarrow> posets" where
  "isRelationDeletedErr debug isDeleted fName pid value1 value2 =
     say debug (relationErr fName pid value1 value2 @
       lastExprErr (if isDeleted then ''deleted'' else ''cannot be deleted''))"

definition relationExistsErr ::
    "bool \<Rightarrow> bool \<Rightarrow> string \<Rightarrow> nat \<Rightarrow> string option \<Rightarrow> string option \<Rightarrow> posets \<Rightarrow> posets" where
  "relationExistsErr debug exists fName pid value1 value2 =
     say debug (relationErr fName pid value1 value2 @
       lastExprErr (if exists then ''exists'' else ''does not exist''))"

definition stateOfPosetErr :: "bool \<Rightarrow> string \<Rightarrow> nat \<Rightarrow> posets \<Rightarrow> posets" where
  "stateOfPosetErr debug fName pid =
     say debug (fName @ getPosetIdErr pid @
       lastExprErr (if fName = ''poset_new'' then ''created''
         else if fName = ''poset_clear'' then ''cleared'' else ''deleted''))"

section \<open>The interface\<close>

definition poset_new :: "bool \<Rightarrow> posets \<Rightarrow> nat \<times> posets" where
  "poset_new debug st =
     (let st1 = oneArgFuncNameErr debug ''poset_new'' 0 st;
          (pid, st2) = (case availableIDs st1 of
             x # q \<Rightarrow> (x, st1\<lparr>availableIDs := q\<rparr>)
           | [] \<Rightarrow> (nextID st1, st1\<lparr>nextID := nextID st1 + 1\<rparr>));
          st3 = (if allPosets st2 pid = None then st2\<lparr>allPosets := (allPosets st2)(pid \<mapsto> ([], []))\<rparr> else st2)
      in (pid, stateOfPosetErr debug ''poset_new'' pid st3))"

definition poset_delete :: "bool \<Rightarrow> nat \<Rightarrow> posets \<Rightarrow> posets" where
  "poset_delete debug pid st =
     (let st1 = oneArgFuncNameErr debug ''poset_delete'' pid st
      in case allPosets st1 pid of
           Some _ \<Rightarrow>
             stateOfPosetErr debug ''poset_delete'' pid
               (st1\<lparr>availableIDs := availableIDs st1 @ [pid], allPosets := (allPosets st1)(pid := None)\<rparr>)
         | None \<Rightarrow> posetNotExistErr debug ''poset_delete'' pid st1)"

definition poset_size :: "bool \<Rightarrow> nat \<Rightarrow> posets \<Rightarrow> nat \<times> posets" where
  "poset_size debug pid st =
     (let st1 = oneArgFuncNameErr debug ''poset_size'' pid st
      in case allPosets st1 pid of
           Some (v, a) \<Rightarrow> (length v, containsErr debug ''poset_size'' pid (length v) st1)
         | None \<Rightarrow> (0, posetNotExistErr debug ''poset_size'' pid st1))"

text \<open>The new row, the new column and the reflexive entry.\<close>

definition insert_rel :: "relacje \<Rightarrow> relacje" where
  "insert_rel a =
     (let p1 = a @ [replicate (length a) NO_RELATION];
          p2 = map (\<lambda>row. row @ [NO_RELATION]) p1
      in set_rel (length p2 - 1) (length p2 - 1) RELATION p2)"

definition poset_insert :: "bool \<Rightarrow> nat \<Rightarrow> string option \<Rightarrow> posets \<Rightarrow> bool \<times> posets" where
  "poset_insert debug pid value st =
     (let st1 = twoArgFuncNameErr debug ''poset_insert'' pid value st
      in case value of
           None \<Rightarrow> (False, oneValueNullErr debug ''poset_insert'' st1)
         | Some x \<Rightarrow>
             (case allPosets st1 pid of
                Some (v, a) \<Rightarrow>
                  (if list_ex (\<lambda>s. s = x) v then (False, elemExistErr debug ''poset_insert'' pid value st1)
                   else
                     (True, insertedErr debug ''poset_insert'' pid value
                        (st1\<lparr>allPosets := (allPosets st1)(pid \<mapsto> (v @ [x], insert_rel a))\<rparr>)))
              | None \<Rightarrow> (False, posetNotExistErr debug ''poset_insert'' pid st1)))"

definition erase_at :: "nat \<Rightarrow> 'a list \<Rightarrow> 'a list" where
  "erase_at i xs = take i xs @ drop (Suc i) xs"

definition change_step :: "nat \<Rightarrow> nat \<Rightarrow> nat \<Rightarrow> relacje \<Rightarrow> relacje" where
  "change_step n idx i a =
     (if i \<noteq> idx then
        (if related a i idx then changeRelationForSmallerElem i idx n a
         else if related a idx i then changeRelationForLargerElem i idx n a
         else a)
      else a)"

definition remove_rel :: "nat \<Rightarrow> relacje \<Rightarrow> relacje" where
  "remove_rel idx a = erase_at idx (map (erase_at idx) (fold (change_step (length a) idx) [0..<length a] a))"

definition poset_remove :: "bool \<Rightarrow> nat \<Rightarrow> string option \<Rightarrow> posets \<Rightarrow> bool \<times> posets" where
  "poset_remove debug pid value st =
     (let st1 = twoArgFuncNameErr debug ''poset_remove'' pid value st
      in case value of
           None \<Rightarrow> (False, oneValueNullErr debug ''poset_remove'' st1)
         | Some x \<Rightarrow>
             (case allPosets st1 pid of
                Some (v, a) \<Rightarrow>
                  (let (idx, exist) = checkIfElemExistInVecOfStr v x
                   in if exist
                      then (True, elemRemovedErr debug ''poset_remove'' pid value
                              (st1\<lparr>allPosets := (allPosets st1)(pid \<mapsto> (erase_at idx v, remove_rel idx a))\<rparr>))
                      else (False, elemNotExistErr debug ''poset_remove'' pid value st1))
              | None \<Rightarrow> (False, posetNotExistErr debug ''poset_remove'' pid st1)))"

definition poset_add :: "bool \<Rightarrow> nat \<Rightarrow> string option \<Rightarrow> string option \<Rightarrow> posets \<Rightarrow> bool \<times> posets" where
  "poset_add debug pid value1 value2 st =
     (let st1 = threeArgFuncNameErr debug ''poset_add'' pid value1 value2 st
      in case (value1, value2) of
           (Some x, Some y) \<Rightarrow>
             (case allPosets st1 pid of
                Some (v, a) \<Rightarrow>
                  (let (index1, found1) = checkIfElemExistInVecOfStr v x;
                       (index2, found2) = checkIfElemExistInVecOfStr v y
                   in if \<not> found1 \<or> \<not> found2
                      then (False, elemNotExistErr debug ''poset_add'' pid (if \<not> found1 then value1 else value2) st1)
                      else if related a index1 index2 \<or> related a index2 index1
                      then (False, isRelationAddedErr debug NO_RELATION ''poset_add'' pid value1 value2 st1)
                      else
                        (True, isRelationAddedErr debug RELATION ''poset_add'' pid value1 value2
                           (st1\<lparr>allPosets := (allPosets st1)(pid \<mapsto>
                              (v, addTransitivityRelations index1 index2 (set_rel index1 index2 RELATION a)))\<rparr>)))
              | None \<Rightarrow> (False, posetNotExistErr debug ''poset_add'' pid st1))
         | _ \<Rightarrow> (False, twoValueNullErr debug ''poset_add'' value1 value2 st1))"

definition poset_del :: "bool \<Rightarrow> nat \<Rightarrow> string option \<Rightarrow> string option \<Rightarrow> posets \<Rightarrow> bool \<times> posets" where
  "poset_del debug pid value1 value2 st =
     (let st1 = threeArgFuncNameErr debug ''poset_del'' pid value1 value2 st
      in case (value1, value2) of
           (Some x, Some y) \<Rightarrow>
             (case allPosets st1 pid of
                Some (v, a) \<Rightarrow>
                  (let (index1, found1) = checkIfElemExistInVecOfStr v x;
                       (index2, found2) = checkIfElemExistInVecOfStr v y
                   in if \<not> found1 \<or> \<not> found2
                      then (False, elemNotExistErr debug ''poset_del'' pid (if \<not> found1 then value1 else value2) st1)
                      else if index1 = index2
                      then (False, isRelationDeletedErr debug False ''poset_del'' pid value1 value2 st1)
                      else if related a index1 index2 \<and> \<not> somethingIsBetweenTwoElem a index1 index2
                      then
                        (True, isRelationDeletedErr debug True ''poset_del'' pid value1 value2
                           (st1\<lparr>allPosets := (allPosets st1)(pid \<mapsto>
                              (v, set_rel index2 index1 NO_RELATION (set_rel index1 index2 NO_RELATION a)))\<rparr>))
                      else (False, isRelationDeletedErr debug False ''poset_del'' pid value1 value2 st1))
              | None \<Rightarrow> (False, posetNotExistErr debug ''poset_del'' pid st1))
         | _ \<Rightarrow> (False, twoValueNullErr debug ''poset_del'' value1 value2 st1))"

definition poset_test :: "bool \<Rightarrow> nat \<Rightarrow> string option \<Rightarrow> string option \<Rightarrow> posets \<Rightarrow> bool \<times> posets" where
  "poset_test debug pid value1 value2 st =
     (let st1 = threeArgFuncNameErr debug ''poset_test'' pid value1 value2 st
      in case (value1, value2) of
           (Some x, Some y) \<Rightarrow>
             (case allPosets st1 pid of
                Some (v, a) \<Rightarrow>
                  (let (index1, found1) = checkIfElemExistInVecOfStr v x;
                       (index2, found2) = checkIfElemExistInVecOfStr v y
                   in if \<not> found1 \<or> \<not> found2
                      then (False, elemNotExistErr debug ''poset_test'' pid (if \<not> found1 then value1 else value2) st1)
                      else if related a index1 index2
                      then (True, relationExistsErr debug True ''poset_test'' pid value1 value2 st1)
                      else (False, relationExistsErr debug False ''poset_test'' pid value1 value2 st1))
              | None \<Rightarrow> (False, posetNotExistErr debug ''poset_test'' pid st1))
         | _ \<Rightarrow> (False, twoValueNullErr debug ''poset_test'' value1 value2 st1))"

definition poset_clear :: "bool \<Rightarrow> nat \<Rightarrow> posets \<Rightarrow> posets" where
  "poset_clear debug pid st =
     (let st1 = oneArgFuncNameErr debug ''poset_clear'' pid st
      in case allPosets st1 pid of
           Some _ \<Rightarrow>
             stateOfPosetErr debug ''poset_clear'' pid
               (st1\<lparr>allPosets := (allPosets st1)(pid \<mapsto> ([], []))\<rparr>)
         | None \<Rightarrow> posetNotExistErr debug ''poset_clear'' pid st1)"

text \<open>The messages only extend \<open>cerr\<close>.\<close>

lemmas poset_msgs =
  posetNotExistErr_def elemNotExistErr_def elemExistErr_def oneValueNullErr_def twoValueNullErr_def
  threeArgFuncNameErr_def twoArgFuncNameErr_def oneArgFuncNameErr_def insertedErr_def containsErr_def
  elemRemovedErr_def isRelationAddedErr_def isRelationDeletedErr_def relationExistsErr_def stateOfPosetErr_def

lemmas poset_ops =
  poset_new_def poset_delete_def poset_size_def poset_insert_def poset_remove_def poset_add_def
  poset_del_def poset_test_def poset_clear_def

end
