(* ===== verification/Poset_Order.thy ===== *)
theory Poset_Order
  imports Poset
begin

text \<open>
  What the helpers of \<open>poset.cc\<close> do to the array of relations: each is described by the
  relation \<open>related\<close> of its result, first on indices.
\<close>

section \<open>Square arrays\<close>

definition matrix :: "nat \<Rightarrow> relacje \<Rightarrow> bool" where
  "matrix n a \<longleftrightarrow> length a = n \<and> (\<forall>r\<in>set a. length r = n) \<and>
     (\<forall>i<n. \<forall>j<n. rel_at a i j \<in> {NO_RELATION, RELATION, REL_TRANSITIVITY})"

lemmas codes_def = RELATION_def NO_RELATION_def REL_TRANSITIVITY_def

lemma matrix_length: "matrix n a \<Longrightarrow> length a = n"
  by (simp add: matrix_def)

lemma no_relation_iff: "matrix n a \<Longrightarrow> i < n \<Longrightarrow> j < n \<Longrightarrow> rel_at a i j = NO_RELATION \<longleftrightarrow> \<not> related a i j"
  by (auto simp: matrix_def related_def codes_def)

lemma set_rel_at:
  assumes "matrix n a" and "i < n" and "j < n"
  shows "rel_at (set_rel i j x a) p q = (if p = i \<and> q = j then x else rel_at a p q)"
proof -
  have "length (a ! i) = n" using assms by (auto simp: matrix_def)
  with assms show ?thesis by (auto simp: matrix_def rel_at_def set_rel_def nth_list_update)
qed

lemma set_rel_matrix:
  assumes "matrix n a" and "i < n" and "j < n" and "x \<in> {NO_RELATION, RELATION, REL_TRANSITIVITY}"
  shows "matrix n (set_rel i j x a)"
proof -
  have "\<forall>r\<in>set (set_rel i j x a). length r = n"
    using assms set_update_subset_insert [of a i "(a ! i)[j := x]"]
    by (auto simp: matrix_def set_rel_def subset_iff)
  moreover have "length (set_rel i j x a) = n" using assms(1) by (simp add: set_rel_def matrix_def)
  ultimately show ?thesis using assms set_rel_at [OF assms(1-3)] by (simp add: matrix_def)
qed

lemma set_rel_related:
  assumes "matrix n a" and "i < n" and "j < n"
  shows "related (set_rel i j x a) p q = (if p = i \<and> q = j then x = RELATION \<or> x = REL_TRANSITIVITY else related a p q)"
  by (simp add: related_def set_rel_at [OF assms])

text \<open>A step that keeps the shape, and the relation that a sequence of them adds.\<close>

lemma fold_matrix:
  assumes "\<And>j a. j \<in> set xs \<Longrightarrow> matrix n a \<Longrightarrow> matrix n (f j a)" and "matrix n a"
  shows "matrix n (fold f xs a)"
  using assms by (induction xs arbitrary: a) auto

lemma fold_related_same:
  assumes "\<And>j a. j \<in> set xs \<Longrightarrow> matrix n a \<Longrightarrow> matrix n (f j a) \<and> (\<forall>p q. related (f j a) p q = related a p q)"
    and "matrix n a"
  shows "matrix n (fold f xs a) \<and> (\<forall>p q. related (fold f xs a) p q = related a p q)"
  using assms
proof (induction xs arbitrary: a)
  case (Cons x xs)
  then have "matrix n (f x a)" "\<forall>p q. related (f x a) p q = related a p q" by auto
  with Cons.IH [of "f x a"] Cons.prems(1) show ?case by simp
qed simp

section \<open>Removing an element\<close>

lemma set_relation_same:
  assumes "matrix n a" and "i < n" and "j < n" and "rel_at a i j = REL_TRANSITIVITY"
  shows "matrix n (set_rel i j RELATION a) \<and> (\<forall>p q. related (set_rel i j RELATION a) p q = related a p q)"
  using set_rel_matrix [OF assms(1-3)] set_rel_related [OF assms(1-3)] assms(4) by (auto simp: related_def)

lemma change_same:
  assumes "matrix n a" and "i < n"
  shows "matrix n (changeRelationForSmallerElem i idx n a) \<and>
      (\<forall>p q. related (changeRelationForSmallerElem i idx n a) p q = related a p q)"
    and "matrix n (changeRelationForLargerElem i idx n a) \<and>
      (\<forall>p q. related (changeRelationForLargerElem i idx n a) p q = related a p q)"
  unfolding changeRelationForSmallerElem_def changeRelationForLargerElem_def
  by (intro fold_related_same; use assms set_relation_same in \<open>simp split: if_split\<close>)+

lemma change_step_same:
  "matrix n a \<Longrightarrow> i < n \<Longrightarrow>
     matrix n (change_step n idx i a) \<and> (\<forall>p q. related (change_step n idx i a) p q = related a p q)"
  using change_same by (simp add: change_step_def)

definition skip :: "nat \<Rightarrow> nat \<Rightarrow> nat" where
  "skip idx i = (if i < idx then i else Suc i)"

lemma erase_at_nth: "idx < length xs \<Longrightarrow> i < length xs - 1 \<Longrightarrow> erase_at idx xs ! i = xs ! skip idx i"
  by (auto simp: erase_at_def skip_def nth_append min_def)

lemma erase_at_length: "idx < length xs \<Longrightarrow> length (erase_at idx xs) = length xs - 1"
  by (simp add: erase_at_def min_def)

lemma erase_at_set: "set (erase_at idx xs) \<subseteq> set xs"
  unfolding erase_at_def by (auto dest: in_set_takeD in_set_dropD)

lemma skip_less: "idx < n \<Longrightarrow> i < n - 1 \<Longrightarrow> skip idx i < n"
  by (auto simp: skip_def)

lemma remove_rel_ok:
  assumes "matrix n a" and "idx < n"
  shows "matrix (n - 1) (remove_rel idx a)"
    and "i < n - 1 \<Longrightarrow> j < n - 1 \<Longrightarrow> related (remove_rel idx a) i j = related a (skip idx i) (skip idx j)"
proof -
  define b where "b = fold (change_step (length a) idx) [0..<length a] a"
  have b: "matrix n b" "\<And>p q. related b p q = related a p q"
    using fold_related_same [of "[0..<n]" n "change_step n idx" a] change_step_same assms(1)
    by (auto simp: b_def matrix_length)
  have at: "rel_at (remove_rel idx a) i j = rel_at b (skip idx i) (skip idx j)" if "i < n - 1" "j < n - 1" for i j
  proof -
    have len: "length b = n" "length (b ! skip idx i) = n"
      using b(1) skip_less [OF assms(2) that(1)] by (auto simp: matrix_def)
    have "erase_at idx (map (erase_at idx) b) ! i = erase_at idx (b ! skip idx i)"
      using that assms(2) len(1) skip_less by (simp add: erase_at_nth)
    with that assms(2) len show ?thesis
      by (simp add: remove_rel_def b_def [symmetric] rel_at_def erase_at_nth)
  qed
  have "length (remove_rel idx a) = n - 1"
    using b(1) assms(2) by (simp add: remove_rel_def b_def [symmetric] erase_at_length matrix_def)
  moreover have "\<forall>r\<in>set (remove_rel idx a). length r = n - 1"
  proof
    fix r assume "r \<in> set (remove_rel idx a)"
    then have "r \<in> set (map (erase_at idx) b)"
      using erase_at_set [of idx "map (erase_at idx) b"] unfolding remove_rel_def b_def [symmetric] by (rule subsetD [rotated])
    then obtain r' where "r = erase_at idx r'" "r' \<in> set b" by auto
    moreover from this(2) b(1) have "length r' = n" by (simp add: matrix_def)
    ultimately show "length r = n - 1" using assms(2) by (simp add: erase_at_length)
  qed
  ultimately show "matrix (n - 1) (remove_rel idx a)"
    using at b(1) skip_less [OF assms(2)] by (simp add: matrix_def)
  show "related (remove_rel idx a) i j = related a (skip idx i) (skip idx j)" if "i < n - 1" "j < n - 1"
    using at [OF that] b(2) by (simp add: related_def)
qed

section \<open>Inserting an element\<close>

lemma insert_rel_ok:
  assumes "matrix n a"
  shows "matrix (Suc n) (insert_rel a)"
    and "i < Suc n \<Longrightarrow> j < Suc n \<Longrightarrow> related (insert_rel a) i j \<longleftrightarrow> (if i < n \<and> j < n then related a i j else i = j)"
proof -
  define b where "b = map (\<lambda>row. row @ [NO_RELATION]) (a @ [replicate (length a) NO_RELATION])"
  have at: "rel_at b i j = (if i < n \<and> j < n then rel_at a i j else NO_RELATION)" if "i < Suc n" "j < Suc n" for i j
    using assms that by (auto simp: b_def matrix_def rel_at_def nth_append less_Suc_eq)
  have "matrix (Suc n) b"
    using assms at by (auto simp: matrix_def b_def)
  moreover have ins: "insert_rel a = set_rel n n RELATION b"
    using assms by (simp add: insert_rel_def b_def [symmetric] Let_def) (simp add: b_def matrix_length)
  ultimately show "matrix (Suc n) (insert_rel a)" by (simp add: set_rel_matrix)
  show "related (insert_rel a) i j \<longleftrightarrow> (if i < n \<and> j < n then related a i j else i = j)"
    if "i < Suc n" "j < Suc n"
    unfolding ins set_rel_related [OF \<open>matrix (Suc n) b\<close> lessI lessI] using at [OF that] that
    by (auto simp: related_def codes_def less_Suc_eq)
qed

section \<open>Adding a relation\<close>

definition porder :: "nat \<Rightarrow> relacje \<Rightarrow> bool" where
  "porder n a \<longleftrightarrow>
     (\<forall>i<n. related a i i) \<and>
     (\<forall>i<n. \<forall>j<n. related a i j \<and> related a j i \<longrightarrow> i = j) \<and>
     (\<forall>i<n. \<forall>j<n. \<forall>k<n. related a i j \<and> related a j k \<longrightarrow> related a i k)"

lemma porderD:
  assumes "porder n a"
  shows "i < n \<Longrightarrow> related a i i"
    and "i < n \<Longrightarrow> j < n \<Longrightarrow> related a i j \<Longrightarrow> related a j i \<Longrightarrow> i = j"
    and "i < n \<Longrightarrow> j < n \<Longrightarrow> k < n \<Longrightarrow> related a i j \<Longrightarrow> related a j k \<Longrightarrow> related a i k"
  using assms unfolding porder_def by blast+

lemma transitivity_inner_ok:
  assumes "matrix n a" and "i < n" and "i2 < n" and "i \<noteq> i2" and "m \<le> n"
  shows "matrix n (fold (transitivity_inner i i2) [0..<m] a) \<and>
    (\<forall>p<n. \<forall>q<n. related (fold (transitivity_inner i i2) [0..<m] a) p q \<longleftrightarrow>
      related a p q \<or> (p = i \<and> q < m \<and> related a i2 q))"
  using assms(5)
proof (induction m)
  case (Suc m)
  define b where "b = fold (transitivity_inner i i2) [0..<m] a"
  have m: "m < n" using Suc.prems by simp
  from Suc have b: "matrix n b"
    "\<And>p q. p < n \<Longrightarrow> q < n \<Longrightarrow> related b p q \<longleftrightarrow> related a p q \<or> (p = i \<and> q < m \<and> related a i2 q)"
    by (auto simp: b_def)
  note no = no_relation_iff [OF b(1) assms(2) m]
  have eq: "fold (transitivity_inner i i2) [0..<Suc m] a = transitivity_inner i i2 m b" by (simp add: b_def)
  show ?case
  proof (cases "related a i2 m \<and> \<not> related b i m")
    case True
    then have "transitivity_inner i i2 m b = set_rel i m REL_TRANSITIVITY b"
      using b(2) [OF assms(3) m] no by (simp add: transitivity_inner_def)
    with True set_rel_matrix [OF b(1) assms(2) m] set_rel_related [OF b(1) assms(2) m] b(2) show ?thesis
      unfolding eq by (auto simp: less_Suc_eq)
  next
    case False
    then have "transitivity_inner i i2 m b = b"
      using b(2) [OF assms(3) m] no assms(4) by (auto simp: transitivity_inner_def)
    with False b assms(2) m show ?thesis unfolding eq by (auto simp: less_Suc_eq)
  qed
qed (use assms in simp)

text \<open>The relation after the first \<open>m\<close> elements were handled, for \<open>i1\<close> put before \<open>i2\<close>.\<close>

definition after_add :: "relacje \<Rightarrow> nat \<Rightarrow> nat \<Rightarrow> nat \<Rightarrow> nat \<Rightarrow> nat \<Rightarrow> bool" where
  "after_add a i1 i2 m p q \<longleftrightarrow>
     related a p q \<or> (p \<noteq> i1 \<and> p \<noteq> i2 \<and> p < m \<and> related a p i1 \<and> related a i2 q) \<or>
     (p = i1 \<and> (q = i2 \<or> (q < m \<and> q \<noteq> i1 \<and> q \<noteq> i2 \<and> related a i2 q)))"

lemma transitivity_step_ok:
  assumes po: "porder n a" and i: "i1 < n" "i2 < n" "\<not> related a i1 i2" "\<not> related a i2 i1"
    and m: "m < n" and b: "matrix n b"
    and rel: "\<And>p q. p < n \<Longrightarrow> q < n \<Longrightarrow> related b p q \<longleftrightarrow> after_add a i1 i2 m p q"
  shows "matrix n (transitivity_step n i1 i2 m b) \<and>
    (\<forall>p<n. \<forall>q<n. related (transitivity_step n i1 i2 m b) p q \<longleftrightarrow> after_add a i1 i2 (Suc m) p q)"
proof (cases "m = i1 \<or> m = i2")
  case True
  then have "after_add a i1 i2 (Suc m) p q \<longleftrightarrow> after_add a i1 i2 m p q" for p q
    by (auto simp: after_add_def less_Suc_eq)
  moreover from True have "transitivity_step n i1 i2 m b = b" by (auto simp: transitivity_step_def)
  ultimately show ?thesis using b rel by simp
next
  case False
  then have ne: "m \<noteq> i1" "m \<noteq> i2" by simp_all
  note D = porderD [OF po]
  have i12: "i1 \<noteq> i2" using i D(1) by auto
  have not_both: "\<not> (related a m i1 \<and> related a i2 m)" using D(3) [OF i(2) m i(1)] i(4) by blast
  have row_m: "related b m q \<longleftrightarrow> related a m q" if "q < n" for q
    using rel [OF m that] ne by (simp add: after_add_def)
  have row_2: "related b i2 q \<longleftrightarrow> related a i2 q" if "q < n" for q
    using rel [OF i(2) that] i12 by (simp add: after_add_def)
  have col_1: "related b i1 m \<longleftrightarrow> related a i1 m" using rel [OF i(1) m] ne by (simp add: after_add_def)
  note no1 = no_relation_iff [OF b m i(2)] and no2 = no_relation_iff [OF b i(1) m]
  consider (A) "related a m i1" "\<not> related a m i2"
    | (B) "\<not> (related a m i1 \<and> \<not> related a m i2)" "\<not> related a i1 m" "related a i2 m"
    | (C) "\<not> (related a m i1 \<and> \<not> related a m i2)" "related a i1 m \<or> \<not> related a i2 m"
    by blast
  then show ?thesis
  proof cases
    case A
    define c where "c = set_rel m i2 REL_TRANSITIVITY b"
    have c: "matrix n c" "\<And>p q. related c p q \<longleftrightarrow> (p = m \<and> q = i2) \<or> related b p q"
      using set_rel_matrix [OF b m i(2)] set_rel_related [OF b m i(2)] by (auto simp: c_def)
    have eq: "transitivity_step n i1 i2 m b = fold (transitivity_inner m i2) [0..<n] c"
      using A ne row_m i no1 by (simp add: transitivity_step_def c_def)
    note t = transitivity_inner_ok [OF c(1) m i(2) ne(2) order_refl]
    have "related (transitivity_step n i1 i2 m b) p q \<longleftrightarrow> after_add a i1 i2 (Suc m) p q"
      if "p < n" "q < n" for p q
    proof -
      have "related (transitivity_step n i1 i2 m b) p q \<longleftrightarrow>
          (p = m \<and> q = i2) \<or> related b p q \<or> (p = m \<and> ((i2 = m \<and> q = i2) \<or> related b i2 q))"
        using t that unfolding eq c(2) by blast
      also have "\<dots> \<longleftrightarrow> after_add a i1 i2 m p q \<or> (p = m \<and> related a i2 q)"
        using rel [OF that] row_2 [OF that(2)] D(1) [OF i(2)] ne by blast
      also have "\<dots> \<longleftrightarrow> after_add a i1 i2 (Suc m) p q"
        using A(1) ne not_both that unfolding after_add_def less_Suc_eq by blast
      finally show ?thesis .
    qed
    with t show ?thesis unfolding eq by blast
  next
    case B
    have eq: "transitivity_step n i1 i2 m b = set_rel i1 m REL_TRANSITIVITY b"
      using B ne row_m row_2 col_1 m i no1 no2 by (auto simp: transitivity_step_def)
    have "related (transitivity_step n i1 i2 m b) p q \<longleftrightarrow> after_add a i1 i2 (Suc m) p q"
      if "p < n" "q < n" for p q
    proof -
      have "related (transitivity_step n i1 i2 m b) p q \<longleftrightarrow> (p = i1 \<and> q = m) \<or> after_add a i1 i2 m p q"
        using rel [OF that] unfolding eq set_rel_related [OF b i(1) m] by auto
      also have "\<dots> \<longleftrightarrow> after_add a i1 i2 (Suc m) p q"
        using B(3) not_both ne unfolding after_add_def less_Suc_eq by blast
      finally show ?thesis .
    qed
    with set_rel_matrix [OF b i(1) m] show ?thesis unfolding eq by blast
  next
    case C
    have eq: "transitivity_step n i1 i2 m b = b"
      using C ne row_m row_2 col_1 m i no1 no2 by (auto simp: transitivity_step_def)
    have "after_add a i1 i2 (Suc m) p q \<longleftrightarrow> after_add a i1 i2 m p q" if "p < n" "q < n" for p q
    proof -
      have "related a m q" if "p = m" "related a m i1" "related a i2 q"
        using C(1) D(3) [OF m i(2) \<open>q < n\<close>] that by blast
      then show ?thesis using C(2) ne unfolding after_add_def less_Suc_eq by blast
    qed
    with b rel show ?thesis unfolding eq by blast
  qed
qed

lemma addTransitivity_ok:
  assumes "porder n a" and "matrix n a" and "i1 < n" and "i2 < n" and "\<not> related a i1 i2" and "\<not> related a i2 i1"
  shows "matrix n (addTransitivityRelations i1 i2 (set_rel i1 i2 RELATION a)) \<and>
    (\<forall>p<n. \<forall>q<n. related (addTransitivityRelations i1 i2 (set_rel i1 i2 RELATION a)) p q \<longleftrightarrow>
       related a p q \<or> (related a p i1 \<and> related a i2 q))"
proof -
  define b where "b = set_rel i1 i2 RELATION a"
  have b: "matrix n b" "\<And>p q. related b p q \<longleftrightarrow> (p = i1 \<and> q = i2) \<or> related a p q"
    using set_rel_matrix [OF assms(2-4)] set_rel_related [OF assms(2-4)] by (auto simp: b_def)
  have "matrix n (fold (transitivity_step n i1 i2) [0..<m] b) \<and>
    (\<forall>p<n. \<forall>q<n. related (fold (transitivity_step n i1 i2) [0..<m] b) p q \<longleftrightarrow> after_add a i1 i2 m p q)"
    if "m \<le> n" for m
    using that
  proof (induction m)
    case 0
    show ?case using b by (auto simp: after_add_def)
  next
    case (Suc m)
    with transitivity_step_ok [OF assms(1,3-6)] show ?case by simp
  qed
  from this [of n] have "matrix n (addTransitivityRelations i1 i2 b)"
    and r: "\<And>p q. p < n \<Longrightarrow> q < n \<Longrightarrow> related (addTransitivityRelations i1 i2 b) p q \<longleftrightarrow> after_add a i1 i2 n p q"
    using b(1) by (simp_all add: addTransitivityRelations_def matrix_length)
  moreover have "after_add a i1 i2 n p q \<longleftrightarrow> related a p q \<or> (related a p i1 \<and> related a i2 q)" if "p < n" "q < n" for p q
  proof -
    note D = porderD [OF assms(1)]
    show ?thesis
      using D(1) [OF assms(3)] D(1) [OF assms(4)] assms(5,6) that unfolding after_add_def by metis
  qed
  ultimately show ?thesis by (simp add: b_def)
qed

section \<open>Each operation keeps a partial order\<close>

lemma porder_add:
  assumes "porder n a" and "i1 < n" and "i2 < n" and "\<not> related a i2 i1"
    and "\<And>p q. p < n \<Longrightarrow> q < n \<Longrightarrow> related b p q \<longleftrightarrow> related a p q \<or> (related a p i1 \<and> related a i2 q)"
  shows "porder n b"
proof -
  note D = porderD [OF assms(1)] and b = assms(5)
  have "p = q" if "p < n" "q < n" "related b p q" "related b q p" for p q
    using that b D(2) D(3) assms(2-4) by metis
  moreover have "related b p r" if "p < n" "q < n" "r < n" "related b p q" "related b q r" for p q r
    using that b D(3) assms(2-4) by metis
  ultimately show ?thesis using D(1) b unfolding porder_def by blast
qed

lemma porder_del:
  assumes "porder n a" and "i1 < n" and "i2 < n" and "i1 \<noteq> i2"
    and "\<And>i. i < n \<Longrightarrow> i \<noteq> i1 \<Longrightarrow> i \<noteq> i2 \<Longrightarrow> \<not> (related a i1 i \<and> related a i i2)"
    and "\<And>p q. p < n \<Longrightarrow> q < n \<Longrightarrow> related b p q \<longleftrightarrow> related a p q \<and> (p, q) \<noteq> (i1, i2)"
  shows "porder n b"
proof -
  note D = porderD [OF assms(1)] and b = assms(6)
  have "related b p r" if "p < n" "q < n" "r < n" "related b p q" "related b q r" for p q r
  proof (cases "p = i1 \<and> r = i2")
    case True
    with that b assms(5) [of q] show ?thesis by auto
  next
    case False
    with that b D(3) [of p q r] show ?thesis by auto
  qed
  moreover have "p = q" if "p < n" "q < n" "related b p q" "related b q p" for p q
    using that b D(2) by blast
  moreover have "related b p p" if "p < n" for p using that b D(1) assms(4) by auto
  ultimately show ?thesis unfolding porder_def by blast
qed

lemma skip_inj: "skip idx i = skip idx j \<longleftrightarrow> i = j"
  by (auto simp: skip_def)

lemma porder_remove:
  assumes "porder n a" and "idx < n"
    and "\<And>i j. i < n - 1 \<Longrightarrow> j < n - 1 \<Longrightarrow> related b i j \<longleftrightarrow> related a (skip idx i) (skip idx j)"
  shows "porder (n - 1) b"
proof -
  note D = porderD [OF assms(1)] and b = assms(3) and sk = skip_less [OF assms(2)]
  have "related b p r" if "p < n - 1" "q < n - 1" "r < n - 1" "related b p q" "related b q r" for p q r
    using D(3) [OF sk [OF that(1)] sk [OF that(2)] sk [OF that(3)]] that b by simp
  moreover have "p = q" if "p < n - 1" "q < n - 1" "related b p q" "related b q p" for p q
    using D(2) [OF sk [OF that(1)] sk [OF that(2)]] that b skip_inj [of idx p q] by simp
  moreover have "related b p p" if "p < n - 1" for p using that b D(1) [OF sk [OF that]] by simp
  ultimately show ?thesis unfolding porder_def by blast
qed

lemma porder_insert:
  assumes "porder n a"
    and "\<And>i j. i < Suc n \<Longrightarrow> j < Suc n \<Longrightarrow> related b i j \<longleftrightarrow> (if i < n \<and> j < n then related a i j else i = j)"
  shows "porder (Suc n) b"
proof -
  note D = porderD [OF assms(1)] and b = assms(2)
  have "related b p r" if "p < Suc n" "q < Suc n" "r < Suc n" "related b p q" "related b q r" for p q r
    using that b D(3) by (metis (full_types))
  moreover have "p = q" if "p < Suc n" "q < Suc n" "related b p q" "related b q p" for p q
    using that b D(2) by metis
  moreover have "related b p p" if "p < Suc n" for p using that b D(1) by metis
  ultimately show ?thesis unfolding porder_def by blast
qed

end
