(* ===== verification/Poset_Spec.thy ===== *)
theory Poset_Spec
  imports Poset_Order
begin

text \<open>
  The specification of \<open>poset.cc\<close>: sets of strings with a partial order on them, and the
  refinement of it by the module.
\<close>

section \<open>The partial orders behind the arrays\<close>

type_synonym porzadek = "string set \<times> (string \<times> string) set"

definition le_of :: "string list \<Rightarrow> relacje \<Rightarrow> (string \<times> string) set" where
  "le_of v a = {(v ! i, v ! j) |i j. i < length v \<and> j < length v \<and> related a i j}"

fun poset_abs :: "poset_t \<Rightarrow> porzadek" where
  "poset_abs (v, a) = (set v, le_of v a)"

fun poset_ok :: "poset_t \<Rightarrow> bool" where
  "poset_ok (v, a) \<longleftrightarrow> distinct v \<and> matrix (length v) a \<and> porder (length v) a"

lemma find_elem_ok:
  "(x \<in> set v \<longrightarrow> (\<exists>i<length v. v ! i = x \<and> find_elem v x k = (k + i, True))) \<and>
   (x \<notin> set v \<longrightarrow> find_elem v x k = (0, False))"
proof (induction v arbitrary: k)
  case (Cons s v)
  show ?case
  proof (cases "s = x")
    case True
    then show ?thesis by (auto intro: exI [of _ 0])
  next
    case False
    show ?thesis
    proof (cases "x \<in> set v")
      case True
      with Cons [of "Suc k"] obtain i where "i < length v" "v ! i = x" "find_elem v x (Suc k) = (Suc k + i, True)"
        by blast
      with False True show ?thesis by (auto intro!: exI [of _ "Suc i"])
    qed (use Cons False in simp)
  qed
qed simp

lemma check_cases:
  obtains (found) i where "checkIfElemExistInVecOfStr v x = (i, True)" "i < length v" "v ! i = x" "x \<in> set v"
  | (absent) "checkIfElemExistInVecOfStr v x = (0, False)" "x \<notin> set v"
proof (cases "x \<in> set v")
  case True
  with find_elem_ok [of x v 0] obtain i where "i < length v" "v ! i = x" "find_elem v x 0 = (i, True)" by auto
  with True show thesis by (intro found) (simp_all add: checkIfElemExistInVecOfStr_def)
next
  case False
  with find_elem_ok [of x v 0] show thesis by (intro absent) (simp_all add: checkIfElemExistInVecOfStr_def)
qed

lemma le_of_nth:
  assumes "distinct v" and "i < length v" and "j < length v"
  shows "(v ! i, v ! j) \<in> le_of v a \<longleftrightarrow> related a i j"
  using assms nth_eq_iff_index_eq [OF assms(1)] by (auto simp: le_of_def)

lemma le_of_sub: "(s, t) \<in> le_of v a \<Longrightarrow> s \<in> set v \<and> t \<in> set v"
  by (auto simp: le_of_def)

text \<open>Two relations on the elements of a list agree when they agree at the indices.\<close>

lemma le_of_eqI:
  assumes "r \<subseteq> set v \<times> set v" and "distinct v"
    and "\<And>i j. i < length v \<Longrightarrow> j < length v \<Longrightarrow> related a i j \<longleftrightarrow> (v ! i, v ! j) \<in> r"
  shows "le_of v a = r"
proof (intro set_eqI)
  fix p :: "string \<times> string"
  obtain s t where p: "p = (s, t)" by (cases p)
  show "p \<in> le_of v a \<longleftrightarrow> p \<in> r"
  proof (cases "s \<in> set v \<and> t \<in> set v")
    case True
    then obtain i j where "i < length v" "v ! i = s" "j < length v" "v ! j = t" by (auto simp: in_set_conv_nth)
    with le_of_nth [OF assms(2)] assms(3) p show ?thesis by blast
  next
    case False
    with assms(1) le_of_sub p show ?thesis by blast
  qed
qed

lemma le_of_order:
  assumes "poset_ok (v, a)"
  shows "(\<forall>x\<in>set v. (x, x) \<in> le_of v a) \<and> antisym (le_of v a) \<and> trans (le_of v a) \<and> le_of v a \<subseteq> set v \<times> set v"
proof -
  have d: "distinct v" and po: "porder (length v) a" using assms by auto
  have idx: "\<exists>i j. i < length v \<and> j < length v \<and> s = v ! i \<and> t = v ! j \<and> related a i j" if "(s, t) \<in> le_of v a" for s t
    using that by (auto simp: le_of_def)
  have "(x, x) \<in> le_of v a" if "x \<in> set v" for x
    using that porderD(1) [OF po] by (auto simp: in_set_conv_nth le_of_nth [OF d])
  moreover have "antisym (le_of v a)"
  proof (rule antisymI)
    fix x y assume xy: "(x, y) \<in> le_of v a" "(y, x) \<in> le_of v a"
    from idx [OF xy(1)] obtain i j where "i < length v" "j < length v" "x = v ! i" "y = v ! j" by blast
    with xy porderD(2) [OF po] show "x = y" by (auto simp: le_of_nth [OF d])
  qed
  moreover have "trans (le_of v a)"
  proof (rule transI)
    fix x y z assume xyz: "(x, y) \<in> le_of v a" "(y, z) \<in> le_of v a"
    from idx [OF xyz(1)] obtain i j where i: "i < length v" "j < length v" "x = v ! i" "y = v ! j" by blast
    from idx [OF xyz(2)] obtain k where k: "k < length v" "z = v ! k" by blast
    have "related a i j" using xyz(1) le_of_nth [OF d i(1,2)] unfolding i(3,4) by simp
    moreover have "related a j k" using xyz(2) le_of_nth [OF d i(2) k(1)] unfolding i(4) k(2) by simp
    ultimately have "related a i k" by (rule porderD(3) [OF po i(1,2) k(1)])
    then show "(x, z) \<in> le_of v a" using le_of_nth [OF d i(1) k(1)] unfolding i(3) k(2) by simp
  qed
  moreover have "le_of v a \<subseteq> set v \<times> set v" by (auto dest: le_of_sub)
  ultimately show ?thesis by blast
qed

section \<open>One poset\<close>

lemma insert_ok:
  assumes "poset_ok (v, a)" and "x \<notin> set v"
  shows "poset_ok (v @ [x], insert_rel a) \<and>
    poset_abs (v @ [x], insert_rel a) = (insert x (set v), insert (x, x) (le_of v a))"
proof -
  have ok: "distinct v" "matrix (length v) a" "porder (length v) a" using assms(1) by auto
  note ins = insert_rel_ok [OF ok(2)]
  have "le_of (v @ [x]) (insert_rel a) = insert (x, x) (le_of v a)"
  proof (rule le_of_eqI)
    show "insert (x, x) (le_of v a) \<subseteq> set (v @ [x]) \<times> set (v @ [x])" by (auto dest: le_of_sub)
    show "distinct (v @ [x])" using ok(1) assms(2) by simp
    fix i j assume ij: "i < length (v @ [x])" "j < length (v @ [x])"
    have mem: "(v ! k, s) \<noteq> (x, x)" "(s, v ! k) \<noteq> (x, x)" if "k < length v" for k s
      using that assms(2) by auto
    have out: "(x, s) \<notin> le_of v a" "(s, x) \<notin> le_of v a" for s using le_of_sub assms(2) by blast+
    show "related (insert_rel a) i j \<longleftrightarrow> ((v @ [x]) ! i, (v @ [x]) ! j) \<in> insert (x, x) (le_of v a)"
      using ij ins(2) [of i j] mem out le_of_nth [OF ok(1)]
      by (auto simp: nth_append less_Suc_eq)
  qed
  with ok ins(1) porder_insert [OF ok(3) ins(2)] assms(2) show ?thesis by simp
qed

lemma erase_distinct:
  assumes "distinct v" and "idx < length v"
  shows "distinct (erase_at idx v) \<and> set (erase_at idx v) = set v - {v ! idx}"
proof -
  have v: "v = take idx v @ v ! idx # drop (Suc idx) v" using assms(2) by (rule id_take_nth_drop)
  with assms(1) have "distinct (take idx v @ v ! idx # drop (Suc idx) v)" by simp
  then have "distinct (erase_at idx v)" "v ! idx \<notin> set (erase_at idx v)" by (auto simp: erase_at_def)
  moreover have "set v = insert (v ! idx) (set (erase_at idx v))"
    using arg_cong [OF v, of set] by (simp add: erase_at_def)
  ultimately show ?thesis by auto
qed

lemma remove_ok:
  assumes "poset_ok (v, a)" and "idx < length v"
  shows "poset_ok (erase_at idx v, remove_rel idx a) \<and>
    poset_abs (erase_at idx v, remove_rel idx a) =
      (set v - {v ! idx}, {(s, t) \<in> le_of v a. s \<noteq> v ! idx \<and> t \<noteq> v ! idx})"
proof -
  have ok: "distinct v" "matrix (length v) a" "porder (length v) a" using assms(1) by auto
  note rem = remove_rel_ok [OF ok(2) assms(2)]
  note er = erase_distinct [OF ok(1) assms(2)]
  have "le_of (erase_at idx v) (remove_rel idx a) = {(s, t) \<in> le_of v a. s \<noteq> v ! idx \<and> t \<noteq> v ! idx}"
  proof (rule le_of_eqI)
    show "{(s, t) \<in> le_of v a. s \<noteq> v ! idx \<and> t \<noteq> v ! idx} \<subseteq> set (erase_at idx v) \<times> set (erase_at idx v)"
      using er by (auto dest: le_of_sub)
    show "distinct (erase_at idx v)" using er by blast
    fix i j assume ij: "i < length (erase_at idx v)" "j < length (erase_at idx v)"
    then have ij': "i < length v - 1" "j < length v - 1" using erase_at_length [OF assms(2)] by auto
    have ne: "v ! skip idx k \<noteq> v ! idx" if "k < length v - 1" for k
      using nth_eq_iff_index_eq [OF ok(1) skip_less [OF assms(2) that] assms(2)] by (auto simp: skip_def)
    show "related (remove_rel idx a) i j \<longleftrightarrow>
        (erase_at idx v ! i, erase_at idx v ! j) \<in> {(s, t) \<in> le_of v a. s \<noteq> v ! idx \<and> t \<noteq> v ! idx}"
      using rem(2) [OF ij'] erase_at_nth [OF assms(2)] ij' ne skip_less [OF assms(2)] le_of_nth [OF ok(1)]
      by simp
  qed
  with ok rem(1) porder_remove [OF ok(3) assms(2) rem(2)] er erase_at_length [OF assms(2)] show ?thesis by simp
qed

lemma trancl_dodaj:
  assumes "trans r" and "(x, x) \<in> r" and "(y, y) \<in> r"
  shows "(insert (x, y) r)\<^sup>+ = r \<union> {(s, t). (s, x) \<in> r \<and> (y, t) \<in> r}"
proof -
  have "(s, x) \<in> r\<^sup>* \<longleftrightarrow> (s, x) \<in> r" "(y, s) \<in> r\<^sup>* \<longleftrightarrow> (y, s) \<in> r" for s
    using assms by (auto simp: rtrancl_eq_or_trancl trancl_id)
  then show ?thesis using trancl_insert [of x y r] trancl_id [OF assms(1)] by simp
qed

lemma add_ok:
  assumes "poset_ok (v, a)" and "i < length v" and "j < length v" and "\<not> related a i j" and "\<not> related a j i"
  shows "poset_ok (v, addTransitivityRelations i j (set_rel i j RELATION a)) \<and>
    poset_abs (v, addTransitivityRelations i j (set_rel i j RELATION a)) =
      (set v, (insert (v ! i, v ! j) (le_of v a))\<^sup>+)"
proof -
  have ok: "distinct v" "matrix (length v) a" "porder (length v) a" using assms(1) by auto
  define b where "b = addTransitivityRelations i j (set_rel i j RELATION a)"
  from addTransitivity_ok [OF ok(3,2) assms(2-5), folded b_def]
  have b: "matrix (length v) b" "\<And>p q. p < length v \<Longrightarrow> q < length v \<Longrightarrow>
      related b p q \<longleftrightarrow> related a p q \<or> (related a p i \<and> related a j q)" by blast+
  note ord = le_of_order [OF assms(1)]
  have "(v ! i, v ! i) \<in> le_of v a" "(v ! j, v ! j) \<in> le_of v a" using ord assms(2,3) by auto
  note tr = trancl_dodaj [OF _ this]
  have "le_of v b = le_of v a \<union> {(s, t). (s, v ! i) \<in> le_of v a \<and> (v ! j, t) \<in> le_of v a}"
    by (rule le_of_eqI) (use ord ok(1) b(2) le_of_nth [OF ok(1)] assms(2,3) in blast)+
  with tr ord porder_add [OF ok(3) assms(2,3,5) b(2)] ok b(1) show ?thesis by (simp add: b_def)
qed

lemma between_ok:
  assumes "poset_ok (v, a)" and "i < length v" and "j < length v"
  shows "somethingIsBetweenTwoElem a i j \<longleftrightarrow>
    (\<exists>z. z \<noteq> v ! i \<and> z \<noteq> v ! j \<and> (v ! i, z) \<in> le_of v a \<and> (z, v ! j) \<in> le_of v a)"
proof -
  have ok: "distinct v" "matrix (length v) a" using assms(1) by auto
  have "somethingIsBetweenTwoElem a i j \<longleftrightarrow>
      (\<exists>k<length v. k \<noteq> i \<and> k \<noteq> j \<and> related a i k \<and> related a k j)"
    using ok(2) by (auto simp: somethingIsBetweenTwoElem_def list_ex_iff matrix_length)
  also have "\<dots> \<longleftrightarrow> (\<exists>k<length v. v ! k \<noteq> v ! i \<and> v ! k \<noteq> v ! j \<and> (v ! i, v ! k) \<in> le_of v a \<and> (v ! k, v ! j) \<in> le_of v a)"
    using nth_eq_iff_index_eq [OF ok(1)] le_of_nth [OF ok(1)] assms(2,3) by auto
  also have "\<dots> \<longleftrightarrow> (\<exists>z. z \<noteq> v ! i \<and> z \<noteq> v ! j \<and> (v ! i, z) \<in> le_of v a \<and> (z, v ! j) \<in> le_of v a)"
    using le_of_sub by (metis in_set_conv_nth)
  finally show ?thesis .
qed

lemma del_ok:
  assumes "poset_ok (v, a)" and "i < length v" and "j < length v" and "i \<noteq> j" and "related a i j"
    and "\<not> somethingIsBetweenTwoElem a i j"
  shows "poset_ok (v, set_rel j i NO_RELATION (set_rel i j NO_RELATION a)) \<and>
    poset_abs (v, set_rel j i NO_RELATION (set_rel i j NO_RELATION a)) =
      (set v, le_of v a - {(v ! i, v ! j)})"
proof -
  have ok: "distinct v" "matrix (length v) a" "porder (length v) a" using assms(1) by auto
  define b where "b = set_rel j i NO_RELATION (set_rel i j NO_RELATION a)"
  have m1: "matrix (length v) (set_rel i j NO_RELATION a)" using set_rel_matrix [OF ok(2) assms(2,3)] by simp
  have mb: "matrix (length v) b" unfolding b_def using set_rel_matrix [OF m1 assms(3,2)] by simp
  have no: "\<not> related a j i" using porderD(2) [OF ok(3) assms(2,3,5)] assms(4) by blast
  have b: "related b p q \<longleftrightarrow> related a p q \<and> (p, q) \<noteq> (i, j)" for p q
    unfolding b_def set_rel_related [OF m1 assms(3,2)] set_rel_related [OF ok(2) assms(2,3)]
    using no by (auto simp: codes_def)
  have free: "\<not> (related a i k \<and> related a k j)" if "k < length v" "k \<noteq> i" "k \<noteq> j" for k
    using assms(6) that ok(2) by (auto simp: somethingIsBetweenTwoElem_def list_ex_iff matrix_length)
  have "le_of v b = le_of v a - {(v ! i, v ! j)}"
  proof (rule le_of_eqI)
    show "le_of v a - {(v ! i, v ! j)} \<subseteq> set v \<times> set v" by (auto dest: le_of_sub)
    fix p q assume "p < length v" "q < length v"
    then show "related b p q \<longleftrightarrow> (v ! p, v ! q) \<in> le_of v a - {(v ! i, v ! j)}"
      using b le_of_nth [OF ok(1)] nth_eq_iff_index_eq [OF ok(1)] assms(2,3) by auto
  qed (rule ok(1))
  with porder_del [OF ok(3) assms(2-4) free b] ok(1) mb show ?thesis by (simp add: b_def)
qed

end
