(* ===== verification/Refine.thy ===== *)
theory Refine
  imports Prelude
begin

text \<open>
  Refinement of a specification by a module: operations are the constructors of a type of
  calls, a step runs one call and gives its result and the next state, and \<open>runs\<close> is a whole
  sequence of calls. The locale \<open>simulation\<close> carries one step over to all sequences.
\<close>

fun runs :: "('op \<Rightarrow> 's \<Rightarrow> 'r \<times> 's) \<Rightarrow> 'op list \<Rightarrow> 's \<Rightarrow> 'r list \<times> 's" where
  "runs step [] s = ([], s)"
| "runs step (c # cs) s =
     (let (r, s1) = step c s; (rs, s2) = runs step cs s1 in (r # rs, s2))"

lemma runs_Cons:
  "runs step (c # cs) s =
     (fst (step c s) # fst (runs step cs (snd (step c s))), snd (runs step cs (snd (step c s))))"
  by (simp add: split_beta)

declare runs.simps(2) [simp del]

locale simulation =
  fixes inv :: "'c \<Rightarrow> bool"
    and abstr :: "'c \<Rightarrow> 'a"
    and cstep :: "'op \<Rightarrow> 'c \<Rightarrow> 'r \<times> 'c"
    and astep :: "'op \<Rightarrow> 'a \<Rightarrow> 'r \<times> 'a"
  assumes step_result: "inv c \<Longrightarrow> fst (cstep op c) = fst (astep op (abstr c))"
    and step_state: "inv c \<Longrightarrow> abstr (snd (cstep op c)) = snd (astep op (abstr c))"
    and step_inv: "inv c \<Longrightarrow> inv (snd (cstep op c))"
begin

lemma runs_refine:
  "inv c \<Longrightarrow> fst (runs cstep ops c) = fst (runs astep ops (abstr c)) \<and>
     abstr (snd (runs cstep ops c)) = snd (runs astep ops (abstr c)) \<and> inv (snd (runs cstep ops c))"
proof (induction ops arbitrary: c)
  case (Cons op ops)
  from Cons.IH [OF step_inv [OF Cons.prems, of op]] step_result [OF Cons.prems, of op]
    step_state [OF Cons.prems, of op]
  show ?case by (simp add: runs_Cons)
qed simp

lemma runs_inv: "inv c \<Longrightarrow> inv (snd (runs cstep ops c))"
  using runs_refine by blast

end

text \<open>
  The same for a specification that allows only some calls, and that a state of the module implements up
  to a relation: a sequence is \<open>permitted\<close> when the specification allows each of its calls where it is made.
\<close>

fun permitted :: "('op \<Rightarrow> 'a \<Rightarrow> bool) \<Rightarrow> ('op \<Rightarrow> 'a \<Rightarrow> 'r \<times> 'a) \<Rightarrow> 'op list \<Rightarrow> 'a \<Rightarrow> bool" where
  "permitted guard step [] a = True"
| "permitted guard step (op # ops) a \<longleftrightarrow> guard op a \<and> permitted guard step ops (snd (step op a))"

locale guarded_simulation =
  fixes rel :: "'c \<Rightarrow> 'a \<Rightarrow> bool"
    and guard :: "'op \<Rightarrow> 'a \<Rightarrow> bool"
    and cstep :: "'op \<Rightarrow> 'c \<Rightarrow> 'r \<times> 'c"
    and astep :: "'op \<Rightarrow> 'a \<Rightarrow> 'r \<times> 'a"
  assumes guarded_step: "rel c a \<Longrightarrow> guard op a \<Longrightarrow>
    fst (cstep op c) = fst (astep op a) \<and> rel (snd (cstep op c)) (snd (astep op a))"
begin

lemma guarded_runs:
  "rel c a \<Longrightarrow> permitted guard astep ops a \<Longrightarrow>
     fst (runs cstep ops c) = fst (runs astep ops a) \<and> rel (snd (runs cstep ops c)) (snd (runs astep ops a))"
proof (induction ops arbitrary: c a)
  case (Cons op ops)
  with guarded_step [of c a op] show ?case by (simp add: runs_Cons)
qed simp

end

sublocale simulation \<subseteq> guarded: guarded_simulation "\<lambda>c a. inv c \<and> a = abstr c" "\<lambda>_ _. True" cstep astep
  by unfold_locales (simp add: step_result step_state step_inv)

end
