(* ===== verification/Poset_Props.thy ===== *)
theory Poset_Props
  imports Poset_Spec Refine
begin

text \<open>
  The refinement of the specification by the module \<open>poset.cc\<close> and the properties of its
  interface.
\<close>

section \<open>Calls\<close>

datatype poset_call =
    New
  | Delete nat
  | Size nat
  | Insert nat "string option"
  | Remove nat "string option"
  | Add nat "string option" "string option"
  | Del nat "string option" "string option"
  | Test nat "string option" "string option"
  | Clear nat

datatype poset_result = Number nat | Answer bool | Nothing

fun poset_exec :: "bool \<Rightarrow> poset_call \<Rightarrow> posets \<Rightarrow> poset_result \<times> posets" where
  "poset_exec debug New st = map_prod Number (\<lambda>x. x) (poset_new debug st)"
| "poset_exec debug (Delete i) st = (Nothing, poset_delete debug i st)"
| "poset_exec debug (Size i) st = map_prod Number (\<lambda>x. x) (poset_size debug i st)"
| "poset_exec debug (Insert i x) st = map_prod Answer (\<lambda>x. x) (poset_insert debug i x st)"
| "poset_exec debug (Remove i x) st = map_prod Answer (\<lambda>x. x) (poset_remove debug i x st)"
| "poset_exec debug (Add i x y) st = map_prod Answer (\<lambda>x. x) (poset_add debug i x y st)"
| "poset_exec debug (Del i x y) st = map_prod Answer (\<lambda>x. x) (poset_del debug i x y st)"
| "poset_exec debug (Test i x y) st = map_prod Answer (\<lambda>x. x) (poset_test debug i x y st)"
| "poset_exec debug (Clear i) st = (Nothing, poset_clear debug i st)"

section \<open>The specification\<close>

text \<open>A collection of named partial orders, with the identifiers that can be used again.\<close>

record orders =
  sets :: "nat \<rightharpoonup> porzadek"
  unused :: "nat list"
  fresh :: nat

text \<open>An operation on one order: \<open>None\<close> when it answers false.\<close>

definition with_order :: "nat \<Rightarrow> (porzadek \<Rightarrow> porzadek option) \<Rightarrow> orders \<Rightarrow> poset_result \<times> orders" where
  "with_order i f st =
     (case Option.bind (sets st i) f of
        None \<Rightarrow> (Answer False, st)
      | Some p \<Rightarrow> (Answer True, st\<lparr>sets := (sets st)(i \<mapsto> p)\<rparr>))"

definition spec_insert :: "string \<Rightarrow> porzadek \<Rightarrow> porzadek option" where
  "spec_insert x = (\<lambda>(E, r). if x \<in> E then None else Some (insert x E, insert (x, x) r))"

definition spec_remove :: "string \<Rightarrow> porzadek \<Rightarrow> porzadek option" where
  "spec_remove x = (\<lambda>(E, r). if x \<in> E then Some (E - {x}, {(s, t) \<in> r. s \<noteq> x \<and> t \<noteq> x}) else None)"

definition spec_add :: "string \<Rightarrow> string \<Rightarrow> porzadek \<Rightarrow> porzadek option" where
  "spec_add x y = (\<lambda>(E, r).
     if x \<in> E \<and> y \<in> E \<and> (x, y) \<notin> r \<and> (y, x) \<notin> r then Some (E, (insert (x, y) r)\<^sup>+) else None)"

definition spec_del :: "string \<Rightarrow> string \<Rightarrow> porzadek \<Rightarrow> porzadek option" where
  "spec_del x y = (\<lambda>(E, r).
     if x \<noteq> y \<and> (x, y) \<in> r \<and> \<not> (\<exists>z. z \<noteq> x \<and> z \<noteq> y \<and> (x, z) \<in> r \<and> (z, y) \<in> r)
     then Some (E, r - {(x, y)}) else None)"

definition spec_test :: "string \<Rightarrow> string \<Rightarrow> porzadek \<Rightarrow> porzadek option" where
  "spec_test x y = (\<lambda>(E, r). if (x, y) \<in> r then Some (E, r) else None)"

fun poset_spec :: "poset_call \<Rightarrow> orders \<Rightarrow> poset_result \<times> orders" where
  "poset_spec New st =
     (case unused st of
        x # q \<Rightarrow> (Number x, st\<lparr>unused := q, sets := (sets st)(x \<mapsto> ({}, {}))\<rparr>)
      | [] \<Rightarrow> (Number (fresh st), st\<lparr>fresh := fresh st + 1, sets := (sets st)(fresh st \<mapsto> ({}, {}))\<rparr>))"
| "poset_spec (Delete i) st =
     (Nothing, if sets st i = None then st
               else st\<lparr>unused := unused st @ [i], sets := (sets st)(i := None)\<rparr>)"
| "poset_spec (Size i) st = (Number (case sets st i of None \<Rightarrow> 0 | Some p \<Rightarrow> card (fst p)), st)"
| "poset_spec (Insert i (Some x)) st = with_order i (spec_insert x) st"
| "poset_spec (Remove i (Some x)) st = with_order i (spec_remove x) st"
| "poset_spec (Add i (Some x) (Some y)) st = with_order i (spec_add x y) st"
| "poset_spec (Del i (Some x) (Some y)) st = with_order i (spec_del x y) st"
| "poset_spec (Test i (Some x) (Some y)) st = with_order i (spec_test x y) st"
| "poset_spec (Clear i) st =
     (Nothing, if sets st i = None then st else st\<lparr>sets := (sets st)(i \<mapsto> ({}, {}))\<rparr>)"
| "poset_spec _ st = (Answer False, st)"

section \<open>Invariant and abstraction\<close>

definition posets_ok :: "posets \<Rightarrow> bool" where
  "posets_ok st \<longleftrightarrow>
     (\<forall>i p. allPosets st i = Some p \<longrightarrow> poset_ok p \<and> i < nextID st) \<and>
     distinct (availableIDs st) \<and>
     (\<forall>i\<in>set (availableIDs st). i < nextID st \<and> allPosets st i = None)"

definition posets_abs :: "posets \<Rightarrow> orders" where
  "posets_abs st = \<lparr>sets = map_option poset_abs \<circ> allPosets st, unused = availableIDs st, fresh = nextID st\<rparr>"

lemma say_simps [simp]:
  "allPosets (say d m st) = allPosets st" "availableIDs (say d m st) = availableIDs st"
  "nextID (say d m st) = nextID st" "posets_ok (say d m st) = posets_ok st"
  "posets_abs (say d m st) = posets_abs st"
  by (simp_all add: say_def posets_ok_def posets_abs_def)

lemma say_update [simp]:
  "(say d m st)\<lparr>allPosets := x\<rparr> = say d m (st\<lparr>allPosets := x\<rparr>)"
  "(say d m st)\<lparr>availableIDs := y\<rparr> = say d m (st\<lparr>availableIDs := y\<rparr>)"
  "(say d m st)\<lparr>nextID := z\<rparr> = say d m (st\<lparr>nextID := z\<rparr>)"
  by (simp_all add: say_def)

text \<open>One poset is replaced.\<close>

lemma put_ok:
  assumes "posets_ok st" and "allPosets st i = Some p" and "poset_ok q"
  shows "posets_ok (st\<lparr>allPosets := (allPosets st)(i \<mapsto> q)\<rparr>)"
  using assms by (cases p; cases q) (auto simp: posets_ok_def)

lemma put_abs:
  "posets_abs (st\<lparr>allPosets := (allPosets st)(i \<mapsto> q)\<rparr>) =
     (posets_abs st)\<lparr>sets := (sets (posets_abs st))(i \<mapsto> poset_abs q)\<rparr>"
  by (simp add: posets_abs_def fun_eq_iff)

lemma get_abs: "sets (posets_abs st) i = map_option poset_abs (allPosets st i)"
  by (simp add: posets_abs_def)

lemma get_ok: "posets_ok st \<Longrightarrow> allPosets st i = Some p \<Longrightarrow> poset_ok p"
  by (cases p) (simp add: posets_ok_def)

definition simulates :: "poset_result \<times> posets \<Rightarrow> poset_result \<times> orders \<Rightarrow> bool" where
  "simulates c a \<longleftrightarrow> fst c = fst a \<and> posets_abs (snd c) = snd a \<and> posets_ok (snd c)"

text \<open>The two ways an operation on one poset ends.\<close>

lemma simulates_false:
  assumes "posets_ok st" and "Option.bind (sets (posets_abs st) i) f = None"
  shows "simulates (Answer False, say d m st) (with_order i f (posets_abs st))"
  using assms by (simp add: simulates_def with_order_def)

lemma simulates_true:
  assumes "posets_ok st" and "allPosets st i = Some p" and "poset_ok q" and "f (poset_abs p) = Some (poset_abs q)"
  shows "simulates (Answer True, say d m (st\<lparr>allPosets := (allPosets st)(i \<mapsto> q)\<rparr>))
    (with_order i f (posets_abs st))"
  using assms put_ok [OF assms(1-3)] by (simp add: simulates_def with_order_def get_abs put_abs)

text \<open>Each operation simulates its specification.\<close>

lemma empty_ok: "poset_ok ([], [])" "poset_abs ([], []) = ({}, {})" "le_of [] [] = {}" "matrix 0 []" "porder 0 []"
  by (simp_all add: matrix_def porder_def le_of_def)

lemma sim_new:
  assumes "posets_ok st"
  shows "simulates (poset_exec d New st) (poset_spec New (posets_abs st))"
proof (cases "availableIDs st")
  case Nil
  have "allPosets st (nextID st) = None"
  proof (cases "allPosets st (nextID st)")
    case (Some p)
    with assms show ?thesis unfolding posets_ok_def by blast
  qed
  with Nil assms show ?thesis
    by (auto simp: simulates_def poset_new_def oneArgFuncNameErr_def stateOfPosetErr_def Let_def
        posets_abs_def fun_eq_iff posets_ok_def empty_ok less_Suc_eq)
next
  case (Cons x q)
  with assms have "allPosets st x = None" by (simp add: posets_ok_def)
  with Cons assms show ?thesis
    by (auto simp: simulates_def poset_new_def oneArgFuncNameErr_def stateOfPosetErr_def Let_def
        posets_abs_def fun_eq_iff posets_ok_def empty_ok)
qed

lemma sim_delete:
  assumes "posets_ok st"
  shows "simulates (poset_exec d (Delete i) st) (poset_spec (Delete i) (posets_abs st))"
proof (cases "allPosets st i")
  case None
  with assms show ?thesis
    by (simp add: simulates_def poset_delete_def oneArgFuncNameErr_def posetNotExistErr_def get_abs)
next
  case (Some p)
  have "posets_ok (st\<lparr>availableIDs := availableIDs st @ [i], allPosets := (allPosets st)(i := None)\<rparr>)"
    using assms Some by (cases p) (auto simp: posets_ok_def)
  with Some show ?thesis
    by (simp add: simulates_def poset_delete_def oneArgFuncNameErr_def stateOfPosetErr_def get_abs)
      (simp add: posets_abs_def fun_eq_iff say_def)
qed

lemma sim_size:
  assumes "posets_ok st"
  shows "simulates (poset_exec d (Size i) st) (poset_spec (Size i) (posets_abs st))"
proof (cases "allPosets st i")
  case None
  with assms show ?thesis
    by (simp add: simulates_def poset_size_def oneArgFuncNameErr_def posetNotExistErr_def get_abs)
next
  case (Some p)
  obtain v a where p: "p = (v, a)" by (cases p)
  with get_ok [OF assms Some] have "card (set v) = length v" by (simp add: distinct_card)
  with Some assms p show ?thesis
    by (simp add: simulates_def poset_size_def oneArgFuncNameErr_def containsErr_def get_abs)
qed

lemma sim_clear:
  assumes "posets_ok st"
  shows "simulates (poset_exec d (Clear i) st) (poset_spec (Clear i) (posets_abs st))"
proof (cases "allPosets st i")
  case None
  with assms show ?thesis
    by (simp add: simulates_def poset_clear_def oneArgFuncNameErr_def posetNotExistErr_def get_abs)
next
  case (Some p)
  with assms put_ok [OF _ _ empty_ok(1), of "say d m st" for m] show ?thesis
    by (simp add: simulates_def poset_clear_def oneArgFuncNameErr_def stateOfPosetErr_def get_abs put_abs empty_ok)
qed

lemma sim_insert:
  assumes "posets_ok st"
  shows "simulates (poset_exec d (Insert i (Some x)) st) (poset_spec (Insert i (Some x)) (posets_abs st))"
proof -
  define st1 where "st1 = twoArgFuncNameErr d ''poset_insert'' i (Some x) st"
  have s1: "posets_ok st1" "posets_abs st1 = posets_abs st" "allPosets st1 = allPosets st"
    using assms by (simp_all add: st1_def twoArgFuncNameErr_def)
  note F = simulates_false [OF s1(1), of i "spec_insert x" d, unfolded s1(2)]
    and T = simulates_true [OF s1(1), of i _ _ "spec_insert x", unfolded s1(2,3)]
  show ?thesis
  proof (cases "allPosets st i")
    case None
    then have "Option.bind (sets (posets_abs st) i) (spec_insert x) = None" by (simp add: get_abs)
    from F [OF this] None s1 show ?thesis
      by (simp add: poset_insert_def st1_def [symmetric] Let_def posetNotExistErr_def)
  next
    case (Some p)
    obtain v a where p: "p = (v, a)" by (cases p)
    note ok = get_ok [OF assms Some, unfolded p]
    show ?thesis
    proof (cases "x \<in> set v")
      case True
      then have "Option.bind (sets (posets_abs st) i) (spec_insert x) = None"
        using Some p by (simp add: get_abs spec_insert_def)
      from F [OF this] True Some p s1 show ?thesis
        by (simp add: poset_insert_def st1_def [symmetric] Let_def elemExistErr_def list_ex_iff)
    next
      case False
      from insert_ok [OF ok this] have "poset_ok (v @ [x], insert_rel a)"
        "spec_insert x (poset_abs p) = Some (poset_abs (v @ [x], insert_rel a))"
        using False p by (simp_all add: spec_insert_def)
      from T [OF Some this] False Some p s1 show ?thesis
        by (simp add: poset_insert_def st1_def [symmetric] Let_def insertedErr_def list_ex_iff)
    qed
  qed
qed

lemma sim_remove:
  assumes "posets_ok st"
  shows "simulates (poset_exec d (Remove i (Some x)) st) (poset_spec (Remove i (Some x)) (posets_abs st))"
proof -
  define st1 where "st1 = twoArgFuncNameErr d ''poset_remove'' i (Some x) st"
  have s1: "posets_ok st1" "posets_abs st1 = posets_abs st" "allPosets st1 = allPosets st"
    using assms by (simp_all add: st1_def twoArgFuncNameErr_def)
  note F = simulates_false [OF s1(1), of i "spec_remove x" d, unfolded s1(2)]
    and T = simulates_true [OF s1(1), of i _ _ "spec_remove x", unfolded s1(2,3)]
  show ?thesis
  proof (cases "allPosets st i")
    case None
    then have "Option.bind (sets (posets_abs st) i) (spec_remove x) = None" by (simp add: get_abs)
    from F [OF this] None s1 show ?thesis
      by (simp add: poset_remove_def st1_def [symmetric] Let_def posetNotExistErr_def)
  next
    case (Some p)
    obtain v a where p: "p = (v, a)" by (cases p)
    note ok = get_ok [OF assms Some, unfolded p]
    show ?thesis
    proof (cases rule: check_cases [of v x])
      case absent
      then have "Option.bind (sets (posets_abs st) i) (spec_remove x) = None"
        using Some p by (simp add: get_abs spec_remove_def)
      from F [OF this] absent Some p s1 show ?thesis
        by (simp add: poset_remove_def st1_def [symmetric] Let_def elemNotExistErr_def)
    next
      case (found k)
      from remove_ok [OF ok found(2)] have "poset_ok (erase_at k v, remove_rel k a)"
        "spec_remove x (poset_abs p) = Some (poset_abs (erase_at k v, remove_rel k a))"
        using found p by (simp_all add: spec_remove_def)
      from T [OF Some this] found Some p s1 show ?thesis
        by (simp add: poset_remove_def st1_def [symmetric] Let_def elemRemovedErr_def)
    qed
  qed
qed

lemma sim_add:
  assumes "posets_ok st"
  shows "simulates (poset_exec d (Add i (Some x) (Some y)) st) (poset_spec (Add i (Some x) (Some y)) (posets_abs st))"
proof -
  define st1 where "st1 = threeArgFuncNameErr d ''poset_add'' i (Some x) (Some y) st"
  have s1: "posets_ok st1" "posets_abs st1 = posets_abs st" "allPosets st1 = allPosets st"
    using assms by (simp_all add: st1_def threeArgFuncNameErr_def)
  note F = simulates_false [OF s1(1), of i "spec_add x y" d, unfolded s1(2)]
    and T = simulates_true [OF s1(1), of i _ _ "spec_add x y", unfolded s1(2,3)]
    and defs = poset_add_def st1_def [symmetric] Let_def
  show ?thesis
  proof (cases "allPosets st i")
    case None
    then have "Option.bind (sets (posets_abs st) i) (spec_add x y) = None" by (simp add: get_abs)
    from F [OF this] None s1 show ?thesis by (simp add: defs posetNotExistErr_def)
  next
    case (Some p)
    obtain v a where p: "p = (v, a)" by (cases p)
    note ok = get_ok [OF assms Some, unfolded p]
    from ok have dist: "distinct v" by simp
    show ?thesis
    proof (cases rule: check_cases [of v x])
      case absent
      have "(x, y) \<notin> le_of v a" using absent(2) by (auto dest: le_of_sub)
      with absent have "Option.bind (sets (posets_abs st) i) (spec_add x y) = None"
        using Some p by (simp add: get_abs spec_add_def)
      from F [OF this] absent Some p s1 show ?thesis by (simp add: defs elemNotExistErr_def split_beta)
    next
      case found1: (found j)
      show ?thesis
      proof (cases rule: check_cases [of v y])
        case absent
        have "(x, y) \<notin> le_of v a" using absent(2) by (auto dest: le_of_sub)
        with absent have "Option.bind (sets (posets_abs st) i) (spec_add x y) = None"
          using Some p by (simp add: get_abs spec_add_def)
        from F [OF this] absent found1 Some p s1 show ?thesis by (simp add: defs elemNotExistErr_def split_beta)
      next
        case found2: (found k)
        have le: "(x, y) \<in> le_of v a \<longleftrightarrow> related a j k" "(y, x) \<in> le_of v a \<longleftrightarrow> related a k j"
          using le_of_nth [OF dist found1(2) found2(2)] le_of_nth [OF dist found2(2) found1(2)]
            found1(3) found2(3) by simp_all
        show ?thesis
        proof (cases "related a j k \<or> related a k j")
          case True
          with le Some p have "Option.bind (sets (posets_abs st) i) (spec_add x y) = None"
            by (auto simp: get_abs spec_add_def)
          from F [OF this] True found1 found2 Some p s1 show ?thesis
            by (simp add: defs isRelationAddedErr_def)
        next
          case False
          let ?q = "(v, addTransitivityRelations j k (set_rel j k RELATION a))"
          from False add_ok [OF ok found1(2) found2(2)] have q: "poset_ok ?q"
            "poset_abs ?q = (set v, (insert (x, y) (le_of v a))\<^sup>+)"
            using found1(3) found2(3) by simp_all
          have "spec_add x y (poset_abs p) = Some (poset_abs ?q)"
            unfolding q(2) using False le found1(4) found2(4) p by (simp add: spec_add_def)
          from T [OF Some q(1) this] False found1 found2 Some p s1 show ?thesis
            by (simp add: defs isRelationAddedErr_def codes_def)
        qed
      qed
    qed
  qed
qed

lemma sim_del:
  assumes "posets_ok st"
  shows "simulates (poset_exec d (Del i (Some x) (Some y)) st) (poset_spec (Del i (Some x) (Some y)) (posets_abs st))"
proof -
  define st1 where "st1 = threeArgFuncNameErr d ''poset_del'' i (Some x) (Some y) st"
  have s1: "posets_ok st1" "posets_abs st1 = posets_abs st" "allPosets st1 = allPosets st"
    using assms by (simp_all add: st1_def threeArgFuncNameErr_def)
  note F = simulates_false [OF s1(1), of i "spec_del x y" d, unfolded s1(2)]
    and T = simulates_true [OF s1(1), of i _ _ "spec_del x y", unfolded s1(2,3)]
    and defs = poset_del_def st1_def [symmetric] Let_def
  show ?thesis
  proof (cases "allPosets st i")
    case None
    then have "Option.bind (sets (posets_abs st) i) (spec_del x y) = None" by (simp add: get_abs)
    from F [OF this] None s1 show ?thesis by (simp add: defs posetNotExistErr_def)
  next
    case (Some p)
    obtain v a where p: "p = (v, a)" by (cases p)
    note ok = get_ok [OF assms Some, unfolded p]
    from ok have dist: "distinct v" by simp
    show ?thesis
    proof (cases rule: check_cases [of v x])
      case absent
      have "(x, y) \<notin> le_of v a" using absent(2) by (auto dest: le_of_sub)
      with absent have "Option.bind (sets (posets_abs st) i) (spec_del x y) = None"
        using Some p by (simp add: get_abs spec_del_def)
      from F [OF this] absent Some p s1 show ?thesis by (simp add: defs elemNotExistErr_def split_beta)
    next
      case found1: (found j)
      show ?thesis
      proof (cases rule: check_cases [of v y])
        case absent
        have "(x, y) \<notin> le_of v a" using absent(2) by (auto dest: le_of_sub)
        with absent have "Option.bind (sets (posets_abs st) i) (spec_del x y) = None"
          using Some p by (simp add: get_abs spec_del_def)
        from F [OF this] absent found1 Some p s1 show ?thesis by (simp add: defs elemNotExistErr_def split_beta)
      next
        case found2: (found k)
        have le: "(x, y) \<in> le_of v a \<longleftrightarrow> related a j k" "(y, x) \<in> le_of v a \<longleftrightarrow> related a k j"
          using le_of_nth [OF dist found1(2) found2(2)] le_of_nth [OF dist found2(2) found1(2)]
            found1(3) found2(3) by simp_all
        have jk: "j = k \<longleftrightarrow> x = y"
          using nth_eq_iff_index_eq [OF dist found1(2) found2(2)] found1(3) found2(3) by simp
        have betw: "somethingIsBetweenTwoElem a j k \<longleftrightarrow>
            (\<exists>z. z \<noteq> x \<and> z \<noteq> y \<and> (x, z) \<in> le_of v a \<and> (z, y) \<in> le_of v a)"
          using between_ok [OF ok found1(2) found2(2)] found1(3) found2(3) by simp
        show ?thesis
        proof (cases "j \<noteq> k \<and> related a j k \<and> \<not> somethingIsBetweenTwoElem a j k")
          case False
          then have "\<not> (x \<noteq> y \<and> (x, y) \<in> le_of v a \<and> \<not> (\<exists>z. z \<noteq> x \<and> z \<noteq> y \<and> (x, z) \<in> le_of v a \<and> (z, y) \<in> le_of v a))"
            unfolding jk le(1) betw .
          then have "spec_del x y (set v, le_of v a) = None" by (simp add: spec_del_def)
          then have "Option.bind (sets (posets_abs st) i) (spec_del x y) = None" using Some p by (simp add: get_abs)
          from F [OF this] False found1(1) found2(1) Some p s1 show ?thesis
            by (cases "j = k") (simp_all add: defs isRelationDeletedErr_def, blast)
        next
          case True
          let ?q = "(v, set_rel k j NO_RELATION (set_rel j k NO_RELATION a))"
          from True del_ok [OF ok found1(2) found2(2)] have q: "poset_ok ?q"
            "poset_abs ?q = (set v, le_of v a - {(x, y)})"
            using found1(3) found2(3) by simp_all
          from True have "x \<noteq> y \<and> (x, y) \<in> le_of v a \<and> \<not> (\<exists>z. z \<noteq> x \<and> z \<noteq> y \<and> (x, z) \<in> le_of v a \<and> (z, y) \<in> le_of v a)"
            unfolding jk le(1) betw .
          then have "spec_del x y (set v, le_of v a) = Some (set v, le_of v a - {(x, y)})"
            unfolding spec_del_def prod.case by (rule if_P)
          then have "spec_del x y (poset_abs p) = Some (poset_abs ?q)"
            unfolding q(2) p poset_abs.simps(1) [of v a] .
          from T [OF Some q(1) this] True found1 found2 Some p s1 show ?thesis
            by (simp add: defs isRelationDeletedErr_def)
        qed
      qed
    qed
  qed
qed

lemma sim_test:
  assumes "posets_ok st"
  shows "simulates (poset_exec d (Test i (Some x) (Some y)) st) (poset_spec (Test i (Some x) (Some y)) (posets_abs st))"
proof -
  define st1 where "st1 = threeArgFuncNameErr d ''poset_test'' i (Some x) (Some y) st"
  have s1: "posets_ok st1" "posets_abs st1 = posets_abs st" "allPosets st1 = allPosets st"
    using assms by (simp_all add: st1_def threeArgFuncNameErr_def)
  note F = simulates_false [OF s1(1), of i "spec_test x y" d, unfolded s1(2)]
    and T = simulates_true [OF s1(1), of i _ _ "spec_test x y", unfolded s1(2,3)]
    and defs = poset_test_def st1_def [symmetric] Let_def
  show ?thesis
  proof (cases "allPosets st i")
    case None
    then have "Option.bind (sets (posets_abs st) i) (spec_test x y) = None" by (simp add: get_abs)
    from F [OF this] None s1 show ?thesis by (simp add: defs posetNotExistErr_def)
  next
    case (Some p)
    obtain v a where p: "p = (v, a)" by (cases p)
    note ok = get_ok [OF assms Some, unfolded p]
    from ok have dist: "distinct v" by simp
    show ?thesis
    proof (cases rule: check_cases [of v x])
      case absent
      have "(x, y) \<notin> le_of v a" using absent(2) by (auto dest: le_of_sub)
      with absent have "Option.bind (sets (posets_abs st) i) (spec_test x y) = None"
        using Some p by (simp add: get_abs spec_test_def)
      from F [OF this] absent Some p s1 show ?thesis by (simp add: defs elemNotExistErr_def split_beta)
    next
      case found1: (found j)
      show ?thesis
      proof (cases rule: check_cases [of v y])
        case absent
        have "(x, y) \<notin> le_of v a" using absent(2) by (auto dest: le_of_sub)
        with absent have "Option.bind (sets (posets_abs st) i) (spec_test x y) = None"
          using Some p by (simp add: get_abs spec_test_def)
        from F [OF this] absent found1 Some p s1 show ?thesis by (simp add: defs elemNotExistErr_def split_beta)
      next
        case found2: (found k)
        have le: "(x, y) \<in> le_of v a \<longleftrightarrow> related a j k" "(y, x) \<in> le_of v a \<longleftrightarrow> related a k j"
          using le_of_nth [OF dist found1(2) found2(2)] le_of_nth [OF dist found2(2) found1(2)]
            found1(3) found2(3) by simp_all
        show ?thesis
        proof (cases "related a j k")
          case False
          with le Some p have "Option.bind (sets (posets_abs st) i) (spec_test x y) = None"
            by (simp add: get_abs spec_test_def)
          from F [OF this] False found1 found2 Some p s1 show ?thesis
            by (simp add: defs relationExistsErr_def)
        next
          case True
          then have tst: "spec_test x y (poset_abs p) = Some (poset_abs (v, a))"
            using le p by (simp add: spec_test_def)
          have same: "st1\<lparr>allPosets := (allPosets st)(i \<mapsto> (v, a))\<rparr> = st1"
            using s1(3) Some p by (cases st1) (simp add: fun_upd_idem)
          from T [OF Some ok tst, unfolded same] True found1 found2 Some p s1 show ?thesis
            by (simp add: defs relationExistsErr_def)
        qed
      qed
    qed
  qed
qed

lemma sim_null:
  assumes "posets_ok st"
  shows "simulates (poset_exec d (Insert i None) st) (poset_spec (Insert i None) (posets_abs st))"
    and "simulates (poset_exec d (Remove i None) st) (poset_spec (Remove i None) (posets_abs st))"
    and "x = None \<or> y = None \<Longrightarrow> simulates (poset_exec d (Add i x y) st) (poset_spec (Add i x y) (posets_abs st))"
    and "x = None \<or> y = None \<Longrightarrow> simulates (poset_exec d (Del i x y) st) (poset_spec (Del i x y) (posets_abs st))"
    and "x = None \<or> y = None \<Longrightarrow> simulates (poset_exec d (Test i x y) st) (poset_spec (Test i x y) (posets_abs st))"
  using assms
  by (cases x; cases y; simp add: simulates_def poset_ops poset_msgs Let_def)+

lemma poset_simulates:
  assumes "posets_ok st"
  shows "simulates (poset_exec d c st) (poset_spec c (posets_abs st))"
proof (cases c)
  case (Insert i x)
  then show ?thesis using sim_insert [OF assms] sim_null(1) [OF assms] by (cases x) blast+
next
  case (Remove i x)
  then show ?thesis using sim_remove [OF assms] sim_null(2) [OF assms] by (cases x) blast+
next
  case (Add i x y)
  then show ?thesis using sim_add [OF assms] sim_null(3) [OF assms] by (cases x; cases y) blast+
next
  case (Del i x y)
  then show ?thesis using sim_del [OF assms] sim_null(4) [OF assms] by (cases x; cases y) blast+
next
  case (Test i x y)
  then show ?thesis using sim_test [OF assms] sim_null(5) [OF assms] by (cases x; cases y) blast+
qed (use sim_new [OF assms] sim_delete [OF assms] sim_size [OF assms] sim_clear [OF assms] in blast)+

text \<open>The module provides the simulation.\<close>

interpretation poset_sim: simulation posets_ok posets_abs "poset_exec d" poset_spec for d
  by unfold_locales (use poset_simulates in \<open>auto simp: simulates_def\<close>)

lemma init_ok: "posets_ok posets_init"
  by (simp add: posets_ok_def posets_init_def)

section \<open>The debugging build\<close>

text \<open>The state without its messages.\<close>

definition quiet :: "posets \<Rightarrow> posets" where
  "quiet st = st\<lparr>cerr := []\<rparr>"

lemma quiet_simps [simp]:
  "allPosets (quiet st) = allPosets st" "availableIDs (quiet st) = availableIDs st"
  "nextID (quiet st) = nextID st" "quiet (say d m st) = quiet st" "say False m st = st"
  "quiet (st\<lparr>allPosets := x\<rparr>) = (quiet st)\<lparr>allPosets := x\<rparr>"
  "quiet (st\<lparr>availableIDs := y\<rparr>) = (quiet st)\<lparr>availableIDs := y\<rparr>"
  "quiet (st\<lparr>nextID := z\<rparr>) = (quiet st)\<lparr>nextID := z\<rparr>"
  by (simp_all add: quiet_def say_def)

lemma debug_quiet:
  "fst (poset_exec d c st) = fst (poset_exec False c (quiet st)) \<and>
   quiet (snd (poset_exec d c st)) = snd (poset_exec False c (quiet st))"
  by (cases c) (auto simp: poset_ops poset_msgs Let_def split_beta split: option.split list.split)

interpretation debug_sim: simulation "\<lambda>st. True" quiet "poset_exec d" "poset_exec False" for d
  by unfold_locales (use debug_quiet in auto)

section \<open>Properties\<close>

lemma quiet_false: "quiet st = st \<Longrightarrow> quiet (snd (runs (poset_exec False) cs st)) = snd (runs (poset_exec False) cs st)"
  using debug_sim.runs_refine [where c = st and d = False and ops = cs] by simp

text \<open>C1: The module implements its specification. From the initial state, every sequence of
  calls, with any identifiers and any null pointers and in both builds, returns exactly what the
  specification returns, and leaves the partial orders, the reusable identifiers and the next
  identifier the specification has.\<close>

theorem poset_refines:
  "fst (runs (poset_exec d) cs posets_init) = fst (runs poset_spec cs (posets_abs posets_init)) \<and>
   posets_abs (snd (runs (poset_exec d) cs posets_init)) = snd (runs poset_spec cs (posets_abs posets_init))"
  using poset_sim.runs_refine [OF init_ok] by blast

text \<open>C3: Every poset is a partial order. After any sequence of calls the elements of every poset
  are distinct, its array of relations is square, and the relation it stores is reflexive on the
  elements, antisymmetric and transitive.\<close>

theorem poset_always_order:
  "\<forall>i v a. allPosets (snd (runs (poset_exec d) cs posets_init)) i = Some (v, a) \<longrightarrow>
     distinct v \<and> matrix (length v) a \<and> (\<forall>x\<in>set v. (x, x) \<in> le_of v a) \<and>
     antisym (le_of v a) \<and> trans (le_of v a) \<and> le_of v a \<subseteq> set v \<times> set v"
proof (intro allI impI)
  fix i v a
  assume "allPosets (snd (runs (poset_exec d) cs posets_init)) i = Some (v, a)"
  from get_ok [OF poset_sim.runs_inv [OF init_ok] this] le_of_order [of v a]
  show "distinct v \<and> matrix (length v) a \<and> (\<forall>x\<in>set v. (x, x) \<in> le_of v a) \<and>
     antisym (le_of v a) \<and> trans (le_of v a) \<and> le_of v a \<subseteq> set v \<times> set v"
    by simp
qed

definition ab_calls :: "poset_call list" where
  "ab_calls = [New, Insert 0 (Some ''a''), Insert 0 (Some ''b''), Add 0 (Some ''a'') (Some ''b'')]"

lemma ab_state: "\<exists>a. allPosets (snd (runs (poset_exec False) ab_calls posets_init)) 0 = Some ([''a'', ''b''], a)"
  by (simp add: ab_calls_def runs_Cons poset_new_def poset_insert_def poset_add_def posets_init_def poset_msgs
      Let_def checkIfElemExistInVecOfStr_def insert_rel_def related_def rel_at_def set_rel_def codes_def)

theorem poset_always_order_witness:
  "\<exists>a. antisym (le_of [''a'', ''b''] a) \<and> trans (le_of [''a'', ''b''] a) \<and>
     allPosets (snd (runs (poset_exec False) ab_calls posets_init)) 0 = Some ([''a'', ''b''], a)"
proof -
  obtain a where a: "allPosets (snd (runs (poset_exec False) ab_calls posets_init)) 0 = Some ([''a'', ''b''], a)"
    using ab_state by blast
  from poset_always_order [rule_format, OF this] a show ?thesis by blast
qed

text \<open>C5: Adding a relation. In a well-formed state \<open>poset_add\<close> of two elements of a poset answers
  true exactly when they are not comparable, and then the stored order becomes the transitive
  closure of the old one with the new pair; in all other cases nothing but \<open>cerr\<close> changes.\<close>

theorem poset_add_closure:
  assumes "posets_ok st" and "allPosets st i = Some (v, a)" and "x \<in> set v" and "y \<in> set v"
  shows "\<exists>st' b. poset_add d i (Some x) (Some y) st = ((x, y) \<notin> le_of v a \<and> (y, x) \<notin> le_of v a, st') \<and>
    allPosets st' i = Some (v, b) \<and>
    le_of v b = (if (x, y) \<notin> le_of v a \<and> (y, x) \<notin> le_of v a then (insert (x, y) (le_of v a))\<^sup>+ else le_of v a) \<and>
    (\<forall>j. j \<noteq> i \<longrightarrow> allPosets st' j = allPosets st j)"
proof -
  obtain j where j: "checkIfElemExistInVecOfStr v x = (j, True)" "j < length v" "v ! j = x"
    using assms(3) by (cases rule: check_cases [of v x]) auto
  obtain k where k: "checkIfElemExistInVecOfStr v y = (k, True)" "k < length v" "v ! k = y"
    using assms(4) by (cases rule: check_cases [of v y]) auto
  note ok = get_ok [OF assms(1,2)]
  then have dist: "distinct v" by simp
  have le: "(x, y) \<in> le_of v a \<longleftrightarrow> related a j k" "(y, x) \<in> le_of v a \<longleftrightarrow> related a k j"
    using le_of_nth [OF dist j(2) k(2)] le_of_nth [OF dist k(2) j(2)] j(3) k(3) by simp_all
  show ?thesis
  proof (cases "related a j k \<or> related a k j")
    case True
    with le j k assms(2) show ?thesis
      by (auto simp: poset_add_def Let_def threeArgFuncNameErr_def isRelationAddedErr_def codes_def)
  next
    case False
    with add_ok [OF ok j(2) k(2)] le j k assms(2) show ?thesis
      by (simp add: poset_add_def Let_def threeArgFuncNameErr_def isRelationAddedErr_def codes_def)
  qed
qed

theorem poset_add_closure_witness:
  "\<exists>st' b. poset_add False 0 (Some ''b'') (Some ''a'') (snd (runs (poset_exec False) ab_calls posets_init)) = (False, st') \<and>
     allPosets st' 0 = Some ([''a'', ''b''], b)"
proof -
  obtain a where a: "allPosets (snd (runs (poset_exec False) ab_calls posets_init)) 0 = Some ([''a'', ''b''], a)"
    "related a 0 1"
    by (simp add: ab_calls_def runs_Cons poset_new_def poset_insert_def poset_add_def posets_init_def poset_msgs
      Let_def checkIfElemExistInVecOfStr_def insert_rel_def related_def rel_at_def set_rel_def codes_def
      addTransitivityRelations_def transitivity_step_def upt_conv_Cons)
  have "(''a'', ''b'') \<in> le_of [''a'', ''b''] a" using a(2) unfolding le_of_def
    by (intro CollectI exI [of _ 0] exI [of _ 1]) simp
  with poset_add_closure [OF poset_sim.runs_inv [OF init_ok] a(1), of "''b''" "''a''" False] show ?thesis
    by auto
qed

text \<open>The build does not matter. With and without the diagnostics every sequence of calls
  returns the same results and leaves the same posets and identifiers, and without them nothing
  is written to \<open>cerr\<close>.\<close>

theorem poset_debug_irrelevant:
  "fst (runs (poset_exec True) cs posets_init) = fst (runs (poset_exec False) cs posets_init) \<and>
   quiet (snd (runs (poset_exec True) cs posets_init)) = snd (runs (poset_exec False) cs posets_init) \<and>
   cerr (snd (runs (poset_exec False) cs posets_init)) = []"
proof -
  have q: "quiet posets_init = posets_init" by (simp add: quiet_def posets_init_def)
  have "cerr (quiet st) = []" for st by (simp add: quiet_def)
  with quiet_false [OF q, of cs] have "cerr (snd (runs (poset_exec False) cs posets_init)) = []" by metis
  with debug_sim.runs_refine [where c = posets_init and d = True and ops = cs] q show ?thesis by simp
qed

text \<open>Identifiers. After any sequence of calls \<open>poset_new\<close> returns an identifier no poset has,
  and makes it an empty poset: the first in the queue of deleted identifiers, or else the next
  number.\<close>

lemma poset_new_fresh:
  "\<exists>i st'. poset_new d (snd (runs (poset_exec d) cs posets_init)) = (i, st') \<and>
     allPosets (snd (runs (poset_exec d) cs posets_init)) i = None \<and> allPosets st' i = Some ([], []) \<and>
     i = (case availableIDs (snd (runs (poset_exec d) cs posets_init)) of
            x # q \<Rightarrow> x | [] \<Rightarrow> nextID (snd (runs (poset_exec d) cs posets_init)))"
proof -
  define st where "st = snd (runs (poset_exec d) cs posets_init)"
  have ok: "posets_ok st" unfolding st_def by (rule poset_sim.runs_inv [OF init_ok])
  have "allPosets st (nextID st) = None"
  proof (cases "allPosets st (nextID st)")
    case (Some p)
    with ok show ?thesis unfolding posets_ok_def by blast
  qed
  with ok show ?thesis unfolding st_def [symmetric]
    by (cases "availableIDs st")
      (auto simp: poset_new_def oneArgFuncNameErr_def stateOfPosetErr_def Let_def posets_ok_def)
qed

end
