(* ===== verification/Regex.thy ===== *)
theory Regex
  imports Stdio
begin

text \<open>
  The part of \<open>std::regex\<close> that the parking meter uses: classes, sequence, choice, counted
  repetition and star, matched against the whole string as \<open>regex_match\<close> does. The matcher
  computes with derivatives; \<open>lang\<close> is the declarative meaning and \<open>regex_match_lang\<close>
  says that they agree.
\<close>

datatype rx =
    Zero
  | Eps
  | Cls "char \<Rightarrow> bool"
  | Cat rx rx
  | Or rx rx
  | Star rx

fun nullable :: "rx \<Rightarrow> bool" where
  "nullable Zero = False"
| "nullable Eps = True"
| "nullable (Cls P) = False"
| "nullable (Cat r s) = (nullable r \<and> nullable s)"
| "nullable (Or r s) = (nullable r \<or> nullable s)"
| "nullable (Star r) = True"

fun deriv :: "char \<Rightarrow> rx \<Rightarrow> rx" where
  "deriv c Zero = Zero"
| "deriv c Eps = Zero"
| "deriv c (Cls P) = (if P c then Eps else Zero)"
| "deriv c (Cat r s) =
     (if nullable r then Or (Cat (deriv c r) s) (deriv c s) else Cat (deriv c r) s)"
| "deriv c (Or r s) = Or (deriv c r) (deriv c s)"
| "deriv c (Star r) = Cat (deriv c r) (Star r)"

fun regex_match :: "string \<Rightarrow> rx \<Rightarrow> bool" where
  "regex_match [] r = nullable r"
| "regex_match (c # s) r = regex_match s (deriv c r)"

fun rep :: "nat \<Rightarrow> nat \<Rightarrow> rx \<Rightarrow> rx" where
  "rep 0 0 r = Eps"
| "rep 0 (Suc n) r = Or Eps (Cat r (rep 0 n r))"
| "rep (Suc m) 0 r = Zero"
| "rep (Suc m) (Suc n) r = Cat r (rep m n r)"

definition lit :: "char \<Rightarrow> rx" where
  "lit c = Cls (\<lambda>d. d = c)"

definition opt :: "rx \<Rightarrow> rx" where
  "opt r = Or r Eps"

definition plus1 :: "rx \<Rightarrow> rx" where
  "plus1 r = Cat r (Star r)"

section \<open>The language of an expression\<close>

inductive_set star :: "string set \<Rightarrow> string set" for A where
  star_Nil: "[] \<in> star A"
| star_app: "u \<in> A \<Longrightarrow> v \<in> star A \<Longrightarrow> u @ v \<in> star A"

fun lang :: "rx \<Rightarrow> string set" where
  "lang Zero = {}"
| "lang Eps = {[]}"
| "lang (Cls P) = {[c] |c. P c}"
| "lang (Cat r s) = {u @ v |u v. u \<in> lang r \<and> v \<in> lang s}"
| "lang (Or r s) = lang r \<union> lang s"
| "lang (Star r) = star (lang r)"

lemma star_Cons:
  assumes "w \<in> star A"
  shows "w = c # s \<Longrightarrow> \<exists>u v. s = u @ v \<and> c # u \<in> A \<and> v \<in> star A"
  using assms
proof (induction arbitrary: s)
  case (star_app u v)
  then show ?case
    by (cases u) (auto intro: star.intros)
qed simp

lemma nullable_lang: "nullable r \<longleftrightarrow> [] \<in> lang r"
  by (induction r) (auto intro: star.intros)

lemma deriv_lang: "s \<in> lang (deriv c r) \<longleftrightarrow> c # s \<in> lang r"
proof (induction r arbitrary: s)
  case (Cat r1 r2)
  then show ?case
    by (auto simp: nullable_lang Cons_eq_append_conv)
next
  case (Star r)
  have "c # s \<in> star (lang r) \<longleftrightarrow> (\<exists>u v. s = u @ v \<and> c # u \<in> lang r \<and> v \<in> star (lang r))"
    using star_Cons [of "c # s" "lang r" c s] star_app [of "c # _" "lang r"] by auto
  with Star show ?case by simp
qed auto

lemma regex_match_lang: "regex_match s r \<longleftrightarrow> s \<in> lang r"
  by (induction s arbitrary: r) (simp_all add: nullable_lang deriv_lang)

section \<open>The languages of classes and their repetitions\<close>

lemma lang_lit [simp]: "lang (lit c) = {[c]}"
  by (auto simp: lit_def)

lemma lang_opt [simp]: "lang (opt r) = insert [] (lang r)"
  by (auto simp: opt_def)

lemma lang_Cat_Cls [simp]:
  "[] \<notin> lang (Cat (Cls P) r)"
  "c # w \<in> lang (Cat (Cls P) r) \<longleftrightarrow> P c \<and> w \<in> lang r"
  by (auto simp: Cons_eq_append_conv intro: exI [of _ "[c]"])

declare lang.simps(4) [simp del]

lemma lang_Cat_lit [simp]:
  "w \<in> lang (Cat (lit c) r) \<longleftrightarrow> (\<exists>v. w = c # v \<and> v \<in> lang r)"
  by (cases w) (auto simp: lit_def)

lemma lang_Cat_opt: "w \<in> lang (Cat (opt a) r) \<longleftrightarrow> w \<in> lang r \<or> w \<in> lang (Cat a r)"
  by (auto simp: lang.simps(4))

lemma star_Cls_iff: "w \<in> star (lang (Cls P)) \<longleftrightarrow> (\<forall>c\<in>set w. P c)"
proof
  show "w \<in> star (lang (Cls P)) \<Longrightarrow> \<forall>c\<in>set w. P c"
    by (induction rule: star.induct) auto
  show "\<forall>c\<in>set w. P c \<Longrightarrow> w \<in> star (lang (Cls P))"
  proof (induction w)
    case (Cons c w)
    then show ?case using star_app [of "[c]" "lang (Cls P)" w] by simp
  qed (rule star_Nil)
qed

lemma lang_star_Cls: "lang (Star (Cls P)) = {w. \<forall>c\<in>set w. P c}"
  using star_Cls_iff by (simp only: lang.simps(6)) blast

lemma lang_plus1_Cls:
  "w \<in> lang (plus1 (Cls P)) \<longleftrightarrow> w \<noteq> [] \<and> (\<forall>c\<in>set w. P c)"
  by (cases w) (auto simp: plus1_def lang_star_Cls simp del: lang.simps(6))

lemma lang_rep_Cls:
  "w \<in> lang (rep m n (Cls P)) \<longleftrightarrow> m \<le> length w \<and> length w \<le> n \<and> (\<forall>c\<in>set w. P c)"
  by (induction m n "Cls P" arbitrary: w rule: rep.induct; case_tac w) auto

end
