(* ===== verification/Cpp_Std.thy ===== *)
theory Cpp_Std
  imports Stdio
begin

text \<open>
  The part of the C++ standard library that the course projects use and that reports errors
  by exceptions: \<open>std::string::substr\<close>, \<open>std::stoi\<close>, reading words from an
  \<open>istringstream\<close>, lines with \<open>getline\<close>. A computation that may throw returns a value of
  \<open>exn + 'a\<close>, \<open>Inl\<close> being the exception. An \<open>std::set\<close> or \<open>std::map\<close> with a comparator
  is the list of its elements in increasing order.
\<close>

section \<open>Exceptions\<close>

datatype exn = Out_of_range | Invalid_argument | Invalid_arg string | Logic_error string | Bad_alloc

type_synonym 'a throws = "exn + 'a"

definition try_bind :: "'a throws \<Rightarrow> ('a \<Rightarrow> 'b throws) \<Rightarrow> 'b throws" where
  "try_bind m f = (case m of Inl e \<Rightarrow> Inl e | Inr x \<Rightarrow> f x)"

lemma try_bind_simps [simp]: "try_bind (Inl e) f = Inl e" "try_bind (Inr x) f = f x"
  by (simp_all add: try_bind_def)

lemma try_bind_eq_Inr: "try_bind m f = Inr y \<longleftrightarrow> (\<exists>x. m = Inr x \<and> f x = Inr y)"
  by (cases m) simp_all

section \<open>Machine integers\<close>

definition size_t :: "int \<Rightarrow> nat" where
  "size_t x = nat (x mod 2 ^ 64)"

definition int16 :: "int \<Rightarrow> int" where
  "int16 x = signed_take_bit 15 x"

lemma size_t_id [simp]: "0 \<le> x \<Longrightarrow> x < 2 ^ 64 \<Longrightarrow> size_t x = nat x"
  by (simp add: size_t_def)

lemma int16_id: "- 32768 \<le> x \<Longrightarrow> x \<le> 32767 \<Longrightarrow> int16 x = x"
  unfolding int16_def by (rule signed_take_bit_int_eq_self) simp_all

section \<open>Strings\<close>

definition substr :: "string \<Rightarrow> nat \<Rightarrow> nat \<Rightarrow> string throws" where
  "substr s pos n = (if length s < pos then Inl Out_of_range else Inr (take n (drop pos s)))"

text \<open>
  \<open>std::stoi\<close> in base ten: white space, an optional sign, digits; what follows the digits is
  ignored, no digits is \<open>invalid_argument\<close> and a value outside \<open>int\<close> is \<open>out_of_range\<close>.
\<close>

definition stoi :: "string \<Rightarrow> int throws" where
  "stoi s =
     (case scanf_d s of
        None \<Rightarrow> Inl Out_of_range
      | Some (None, _) \<Rightarrow> Inl Invalid_argument
      | Some (Some x, _) \<Rightarrow> Inr x)"

text \<open>\<open>iss >> word\<close>: a stream at its end leaves the (empty) word as it is.\<close>

definition get_word :: "string \<Rightarrow> string \<times> string" where
  "get_word s =
     (let s1 = dropWhile is_space s
      in (takeWhile (\<lambda>c. \<not> is_space c) s1, dropWhile (\<lambda>c. \<not> is_space c) s1))"

fun lines_from :: "string \<Rightarrow> string \<Rightarrow> string list" where
  "lines_from line [] = (if line = [] then [] else [line])"
| "lines_from line (c # cs) =
     (if c = CHR 0x0A then line # lines_from [] cs else lines_from (line @ [c]) cs)"

text \<open>The lines that \<open>while (getline(cin, line))\<close> sees.\<close>

definition getlines :: "string \<Rightarrow> string list" where
  "getlines s = lines_from [] s"

section \<open>Facts on words and numbers\<close>

lemma get_word_spaces:
  assumes "\<forall>c\<in>set w. is_space c" and "p \<noteq> []" and "\<forall>c\<in>set p. \<not> is_space c"
    and "rest = [] \<or> is_space (hd rest)"
  shows "get_word (w @ p @ rest) = (p, rest)"
proof -
  have 1: "dropWhile is_space (w @ p @ rest) = p @ rest"
    using assms(1,2,3) by (cases p) (auto simp: dropWhile_append)
  have "takeWhile (\<lambda>c. \<not> is_space c) (p @ rest) = p"
    "dropWhile (\<lambda>c. \<not> is_space c) (p @ rest) = rest"
    using assms(3,4) by (cases rest; auto)+
  with 1 show ?thesis by (simp add: get_word_def Let_def)
qed

lemma stoi_digits:
  assumes "ds \<noteq> []" and "\<forall>c\<in>set ds. is_digit c" and "is_int (digits_val ds)"
  shows "stoi ds = Inr (digits_val ds)"
proof -
  obtain d ds' where ds: "ds = d # ds'" using assms(1) by (cases ds) auto
  have sp: "dropWhile is_space ds = ds"
    using assms(2) digit_not_space [of d] by (simp add: ds)
  have "d \<noteq> CHR ''-''" "d \<noteq> CHR ''+''"
    using assms(2) digit_not_sign [of d] by (simp_all add: ds)
  moreover have "takeWhile is_digit ds = ds"
    using assms(2) while_digits [of ds "[]"] by simp
  ultimately show ?thesis
    using assms(1,3) sp unfolding stoi_def scanf_d_def Let_def by (simp add: ds)
qed

end
