(* ===== verification/Parking.thy ===== *)
theory Parking
  imports Regex Cpp_Std
begin

text \<open>
  The parking meter of \<open>project1/parking.cc\<close>. The vector of payments is a list of
  registration numbers with their start and end in minutes after midnight, the variables that
  the functions update through pointers are threaded, and the two output streams are one list
  of messages. An \<open>hour_t\<close> is an integer that is cut to 16 bits where the code converts to
  it; comparisons are made on \<open>int\<close>, as the promotions of C++ do.
\<close>

type_synonym entry = "string \<times> int \<times> int"

definition MINUTES_IN_HOUR :: int where "MINUTES_IN_HOUR = 60"
definition MIN_PAYMENT_IN_MIN :: int where "MIN_PAYMENT_IN_MIN = 10"
definition MAX_PAYMENT_IN_MIN :: int where "MAX_PAYMENT_IN_MIN = 719"
definition OPENING_TIME_MIN :: int where "OPENING_TIME_MIN = 480"
definition CLOSING_TIME_MIN :: int where "CLOSING_TIME_MIN = 1200"

lemmas parking_consts =
  MINUTES_IN_HOUR_def MIN_PAYMENT_IN_MIN_def MAX_PAYMENT_IN_MIN_def OPENING_TIME_MIN_def
  CLOSING_TIME_MIN_def

section \<open>The two kinds of lines\<close>

definition in_range :: "char \<Rightarrow> char \<Rightarrow> char \<Rightarrow> bool" where
  "in_range a b c \<longleftrightarrow> code a \<le> code c \<and> code c \<le> code b"

definition space_cls :: rx where
  "space_cls = Cls (\<lambda>c. is_space c \<or> c = CHR 0x09)"

definition plate_rx :: rx where
  "plate_rx =
     Cat (Cls (in_range (CHR ''A'') (CHR ''Z'')))
         (rep 2 10 (Cls (\<lambda>c. in_range (CHR ''A'') (CHR ''Z'') c \<or> in_range (CHR ''0'') (CHR ''9'') c)))"

definition hour_rx :: rx where
  "hour_rx =
     Or (Cat (opt (lit (CHR ''0''))) (Cls (in_range (CHR ''8'') (CHR ''9''))))
        (Cat (lit (CHR ''1'')) (Cls (in_range (CHR ''0'') (CHR ''9''))))"

definition time_rx :: rx where
  "time_rx =
     Or (Cat hour_rx (Cat (lit (CHR ''.''))
           (Cat (Cls (in_range (CHR ''0'') (CHR ''5''))) (Cls (in_range (CHR ''0'') (CHR ''9''))))))
        (Cat (lit (CHR ''2'')) (Cat (lit (CHR ''0'')) (Cat (lit (CHR ''.''))
           (Cat (lit (CHR ''0'')) (lit (CHR ''0''))))))"

definition payment_rx :: rx where
  "payment_rx =
     Cat (Star space_cls) (Cat plate_rx (Cat (plus1 space_cls) (Cat time_rx
       (Cat (plus1 space_cls) (Cat time_rx (Star space_cls))))))"

definition checking_rx :: rx where
  "checking_rx =
     Cat (Star space_cls) (Cat plate_rx (Cat (plus1 space_cls) (Cat time_rx (Star space_cls))))"

definition validate_payment_line :: "string \<Rightarrow> bool" where
  "validate_payment_line line = regex_match line payment_rx"

definition validate_checking_line :: "string \<Rightarrow> bool" where
  "validate_checking_line line = regex_match line checking_rx"

section \<open>Parsing\<close>

definition date_to_minutes_past_midnight :: "string \<Rightarrow> int throws" where
  "date_to_minutes_past_midnight date =
     (let date_length = int (length date) in
      try_bind (substr date 0 (size_t (date_length - 3))) (\<lambda>hs.
      try_bind (stoi hs) (\<lambda>hours.
      try_bind (substr date (size_t (date_length - 2)) (size_t (date_length - 1))) (\<lambda>ms.
      try_bind (stoi ms) (\<lambda>minutes.
      Inr (int16 (MINUTES_IN_HOUR * int16 hours + int16 minutes)))))))"

definition parse_payment_line :: "string \<Rightarrow> (string \<times> int \<times> int) throws" where
  "parse_payment_line line =
     (let (license_plate, iss) = get_word line;
          (first_date, iss) = get_word iss;
          (second_date, iss) = get_word iss
      in try_bind (date_to_minutes_past_midnight first_date) (\<lambda>parking_start.
         try_bind (date_to_minutes_past_midnight second_date) (\<lambda>parking_end.
         Inr (license_plate, parking_start, parking_end))))"

definition parse_checking_line :: "string \<Rightarrow> (string \<times> int) throws" where
  "parse_checking_line line =
     (let (license_plate, iss) = get_word line;
          (date, iss) = get_word iss
      in try_bind (date_to_minutes_past_midnight date) (\<lambda>time_to_check.
         Inr (license_plate, time_to_check)))"

section \<open>Payments\<close>

definition check_if_new_day :: "int \<Rightarrow> int \<Rightarrow> bool" where
  "check_if_new_day last_checked_hour current_time = (last_checked_hour > current_time)"

definition check_parking_time :: "int \<Rightarrow> int \<Rightarrow> bool" where
  "check_parking_time parking_start parking_end =
     (if parking_start < parking_end \<and>
         \<bar>parking_start - parking_end\<bar> \<ge> MIN_PAYMENT_IN_MIN \<and>
         \<bar>parking_start - parking_end\<bar> \<le> MAX_PAYMENT_IN_MIN
      then True
      else parking_end < parking_start \<and>
         (CLOSING_TIME_MIN - parking_start) + (parking_end - OPENING_TIME_MIN) \<ge> MIN_PAYMENT_IN_MIN \<and>
         (CLOSING_TIME_MIN - parking_start) + (parking_end - OPENING_TIME_MIN) \<le> MAX_PAYMENT_IN_MIN)"

fun delete_cars_new_day :: "int \<Rightarrow> entry list \<Rightarrow> entry list" where
  "delete_cars_new_day current_time [] = []"
| "delete_cars_new_day current_time ((plate, start, end_time) # rest) =
     (if start \<le> end_time then delete_cars_new_day current_time rest
      else if end_time < current_time then delete_cars_new_day current_time rest
      else (plate, OPENING_TIME_MIN, end_time) # delete_cars_new_day current_time rest)"

fun delete_cars_same_day :: "int \<Rightarrow> entry list \<Rightarrow> entry list" where
  "delete_cars_same_day current_time [] = []"
| "delete_cars_same_day current_time ((plate, start, end_time) # rest) =
     (if start < end_time \<and> end_time < current_time then delete_cars_same_day current_time rest
      else (plate, start, end_time) # delete_cars_same_day current_time rest)"

definition delete_cars_from_data :: "entry list \<Rightarrow> int \<Rightarrow> int \<Rightarrow> entry list" where
  "delete_cars_from_data parking current_time last_checked_hour =
     (if check_if_new_day last_checked_hour current_time
      then delete_cars_new_day current_time parking
      else delete_cars_same_day current_time parking)"

definition add_payment :: "entry list \<Rightarrow> string \<Rightarrow> int \<Rightarrow> (bool \<times> entry list \<times> int) throws" where
  "add_payment parking line last_checked_hour =
     try_bind (parse_payment_line line) (\<lambda>(license_plate, parking_start, parking_end).
       if check_parking_time parking_start parking_end
       then Inr (True,
              delete_cars_from_data parking parking_start last_checked_hour
                @ [(license_plate, parking_start, parking_end)],
              parking_start)
       else Inr (False, parking, last_checked_hour))"

fun check_entries :: "string \<Rightarrow> int \<Rightarrow> entry list \<Rightarrow> bool" where
  "check_entries license_plate time_to_check [] = False"
| "check_entries license_plate time_to_check ((plate, start, end_time) # rest) =
     (if license_plate = plate \<and>
         (if start \<le> end_time then time_to_check \<le> end_time
          else time_to_check \<ge> start \<or> time_to_check \<le> end_time)
      then True
      else check_entries license_plate time_to_check rest)"

definition check_payment :: "entry list \<Rightarrow> string \<Rightarrow> int \<Rightarrow> (bool \<times> entry list \<times> int) throws" where
  "check_payment parking line last_checked_hour =
     try_bind (parse_checking_line line) (\<lambda>(license_plate, time_to_check).
       let parking = delete_cars_from_data parking time_to_check last_checked_hour
       in Inr (check_entries license_plate time_to_check parking, parking, time_to_check))"

section \<open>The loop over the lines\<close>

datatype stream = Cout | Cerr

type_synonym message = "stream \<times> string"

definition say_line :: "stream \<Rightarrow> string \<Rightarrow> nat \<Rightarrow> message" where
  "say_line out word line_count = (out, word @ dec line_count @ [CHR 0x0A])"

record meter =
  parking :: "entry list"
  last_checked_hour :: int
  line_count :: nat

definition process_line :: "meter \<Rightarrow> string \<Rightarrow> (message \<times> meter) throws" where
  "process_line m line =
     (let m = m\<lparr>line_count := line_count m + 1\<rparr>
      in if validate_payment_line line then
           try_bind (add_payment (parking m) line (last_checked_hour m)) (\<lambda>(ok, p, h).
             Inr (if ok then say_line Cout ''OK '' (line_count m)
                        else say_line Cerr ''ERROR '' (line_count m),
                  m\<lparr>parking := p, last_checked_hour := h\<rparr>))
         else if validate_checking_line line then
           try_bind (check_payment (parking m) line (last_checked_hour m)) (\<lambda>(ok, p, h).
             Inr (if ok then say_line Cout ''YES '' (line_count m)
                        else say_line Cout ''NO '' (line_count m),
                  m\<lparr>parking := p, last_checked_hour := h\<rparr>))
         else Inr (say_line Cerr ''ERROR '' (line_count m), m))"

fun process_lines :: "meter \<Rightarrow> string list \<Rightarrow> (message list \<times> meter) throws" where
  "process_lines m [] = Inr ([], m)"
| "process_lines m (line # rest) =
     try_bind (process_line m line) (\<lambda>(msg, m).
     try_bind (process_lines m rest) (\<lambda>(msgs, m). Inr (msg # msgs, m)))"

definition meter_init :: meter where
  "meter_init = \<lparr>parking = [], last_checked_hour = 0, line_count = 0\<rparr>"

definition activate_parking :: "string \<Rightarrow> (message list \<times> meter) throws" where
  "activate_parking cin = process_lines meter_init (getlines cin)"

end
