(* ===== verification/Parking_Text.thy ===== *)
theory Parking_Text
  imports Parking
begin

text \<open>
  What the lines of the parking meter mean: \<open>clock_text t n\<close> says that \<open>t\<close> writes the time
  \<open>n\<close> minutes after midnight, with or without a leading zero, and the two line formats are
  words with such times. The regular expressions accept exactly these lines between 8.00 and
  20.00, and for them the parsers return the written values and never throw.
\<close>

definition dig :: "nat \<Rightarrow> char" where
  "dig d = char_of (48 + d)"

definition clock_text :: "string \<Rightarrow> nat \<Rightarrow> bool" where
  "clock_text t n \<longleftrightarrow>
     (\<exists>hs. (hs = dec (n div 60) \<or> n div 60 < 10 \<and> hs = CHR ''0'' # dec (n div 60)) \<and>
           t = hs @ [CHR ''.'', dig (n mod 60 div 10), dig (n mod 60 mod 10)])"

definition paid_hours :: "nat \<Rightarrow> bool" where
  "paid_hours n \<longleftrightarrow> 480 \<le> n \<and> n \<le> 1200"

definition blank :: "string \<Rightarrow> bool" where
  "blank w \<longleftrightarrow> (\<forall>c\<in>set w. is_space c)"

definition plate_text :: "string \<Rightarrow> bool" where
  "plate_text p \<longleftrightarrow>
     3 \<le> length p \<and> length p \<le> 11 \<and> in_range (CHR ''A'') (CHR ''Z'') (hd p) \<and>
     (\<forall>c\<in>set (tl p). in_range (CHR ''A'') (CHR ''Z'') c \<or> in_range (CHR ''0'') (CHR ''9'') c)"

definition payment_text :: "string \<Rightarrow> string \<Rightarrow> nat \<Rightarrow> nat \<Rightarrow> bool" where
  "payment_text line p s e \<longleftrightarrow>
     (\<exists>w0 w1 w2 w3 t1 t2. line = w0 @ p @ w1 @ t1 @ w2 @ t2 @ w3 \<and>
        blank w0 \<and> blank w1 \<and> w1 \<noteq> [] \<and> blank w2 \<and> w2 \<noteq> [] \<and> blank w3 \<and> plate_text p \<and>
        clock_text t1 s \<and> paid_hours s \<and> clock_text t2 e \<and> paid_hours e)"

definition checking_text :: "string \<Rightarrow> string \<Rightarrow> nat \<Rightarrow> bool" where
  "checking_text line p t \<longleftrightarrow>
     (\<exists>w0 w1 w2 t1. line = w0 @ p @ w1 @ t1 @ w2 \<and>
        blank w0 \<and> blank w1 \<and> w1 \<noteq> [] \<and> blank w2 \<and> plate_text p \<and>
        clock_text t1 t \<and> paid_hours t)"

section \<open>Digits\<close>

lemma code_dig [simp]: "d < 10 \<Longrightarrow> code (dig d) = 48 + int d"
  by (simp add: dig_def code_nat)

lemma char_eq_code: "c = d \<longleftrightarrow> code c = code d"
  by (simp add: code_nat)

lemma digit_dig: "48 \<le> code c \<Longrightarrow> code c \<le> 57 \<Longrightarrow> c = dig (nat (code c - 48))"
  by (simp add: char_eq_code)

lemma digit_range:
  "in_range (CHR ''8'') (CHR ''9'') c \<longleftrightarrow> (\<exists>d. 8 \<le> d \<and> d < 10 \<and> c = dig d)"
  "in_range (CHR ''0'') (CHR ''5'') c \<longleftrightarrow> (\<exists>d<6. c = dig d)"
  "in_range (CHR ''0'') (CHR ''9'') c \<longleftrightarrow> (\<exists>d<10. c = dig d)"
  using digit_dig [of c] by (auto simp: in_range_def intro!: exI [of _ "nat (code c - 48)"])

lemma is_digit_dig: "d < 10 \<Longrightarrow> is_digit (dig d)"
  by (simp add: is_digit_def)

lemma dig_literal:
  "CHR ''0'' = dig 0" "CHR ''1'' = dig 1" "CHR ''2'' = dig 2"
  by (simp_all add: char_eq_code)

lemma dec_one: "d < 10 \<Longrightarrow> dec d = [dig d]"
  by (subst dec.simps) (simp add: dig_def)

lemma dec_two: "d < 10 \<Longrightarrow> 0 < k \<Longrightarrow> k < 10 \<Longrightarrow> dec (10 * k + d) = [dig k, dig d]"
  by (subst dec.simps) (simp add: dec_one, simp add: dig_def)

section \<open>The times a line can contain\<close>

lemma hour_lang:
  "hs \<in> lang hour_rx \<longleftrightarrow>
     (\<exists>h. 8 \<le> h \<and> h < 20 \<and> (hs = dec h \<or> h < 10 \<and> hs = CHR ''0'' # dec h))"
proof
  assume "hs \<in> lang hour_rx"
  then consider d where "8 \<le> d" "d < 10" "hs = [dig d] \<or> hs = [CHR ''0'', dig d]"
    | d where "d < 10" "hs = [dig 1, dig d]"
    by (auto simp: hour_rx_def lang_Cat_opt digit_range dig_literal(2)) 
  then show "\<exists>h. 8 \<le> h \<and> h < 20 \<and> (hs = dec h \<or> h < 10 \<and> hs = CHR ''0'' # dec h)"
  proof cases
    case 1
    then show ?thesis by (intro exI [of _ d]) (auto simp: dec_one)
  next
    case 2
    then show ?thesis using dec_two [of d 1] by (intro exI [of _ "10 + d"]) simp
  qed
next
  assume "\<exists>h. 8 \<le> h \<and> h < 20 \<and> (hs = dec h \<or> h < 10 \<and> hs = CHR ''0'' # dec h)"
  then obtain h where h: "8 \<le> h" "h < 20" and hs: "hs = dec h \<or> h < 10 \<and> hs = CHR ''0'' # dec h"
    by blast
  show "hs \<in> lang hour_rx"
  proof (cases "h < 10")
    case True
    with h hs have "hs = [dig h] \<or> hs = [CHR ''0'', dig h]" by (auto simp: dec_one)
    with True h show ?thesis
      by (auto simp: hour_rx_def lang_Cat_opt digit_range)
  next
    case False
    with hs h have "hs = [dig 1, dig (h - 10)]" using dec_two [of "h - 10" 1] by simp
    with h show ?thesis
      by (auto simp: hour_rx_def lang_Cat_opt digit_range dig_literal(2) intro!: exI [of _ "h - 10"])
  qed
qed

definition min_text :: "nat \<Rightarrow> string" where
  "min_text m = [CHR ''.'', dig (m div 10), dig (m mod 10)]"

lemma clock_text_split:
  "clock_text w n \<longleftrightarrow> (\<exists>hs. (hs = dec (n div 60) \<or> n div 60 < 10 \<and> hs = CHR ''0'' # dec (n div 60)) \<and>
     w = hs @ min_text (n mod 60))"
  by (simp add: clock_text_def min_text_def)

lemma clock_textI:
  assumes "m < 60" and "hs = dec h \<or> h < 10 \<and> hs = CHR ''0'' # dec h"
  shows "clock_text (hs @ min_text m) (60 * h + m)"
  unfolding clock_text_split using assms by (intro exI [of _ hs]) simp

lemma min_lang:
  "v \<in> lang (Cat (lit (CHR ''.'')) (Cat (Cls (in_range (CHR ''0'') (CHR ''5'')))
       (Cls (in_range (CHR ''0'') (CHR ''9''))))) \<longleftrightarrow> (\<exists>m<60. v = min_text m)"
proof
  assume "v \<in> lang (Cat (lit (CHR ''.'')) (Cat (Cls (in_range (CHR ''0'') (CHR ''5'')))
       (Cls (in_range (CHR ''0'') (CHR ''9'')))))"
  then obtain a b where "v = [CHR ''.'', a, b]"
    and "in_range (CHR ''0'') (CHR ''5'') a" "in_range (CHR ''0'') (CHR ''9'') b"
    by (clarsimp simp: lang.simps(4) Cons_eq_append_conv)
  then obtain d e where "v = [CHR ''.'', dig d, dig e]" "d < 6" "e < 10"
    by (auto simp: digit_range)
  then show "\<exists>m<60. v = min_text m"
    by (intro exI [of _ "10 * d + e"]) (simp add: min_text_def)
next
  assume "\<exists>m<60. v = min_text m"
  then obtain m where "m < 60" "v = min_text m" by blast
  moreover from this have "m div 10 < 6" "m mod 10 < 10" by auto
  then have "\<exists>d<6. dig (m div 10) = dig d" "\<exists>d<10. dig (m mod 10) = dig d" by blast+
  ultimately show "v \<in> lang (Cat (lit (CHR ''.'')) (Cat (Cls (in_range (CHR ''0'') (CHR ''5'')))
       (Cls (in_range (CHR ''0'') (CHR ''9'')))))"
    by (simp add: min_text_def digit_range)
qed

lemma midnight_text:
  "w \<in> lang (Cat (lit (CHR ''2'')) (Cat (lit (CHR ''0'')) (Cat (lit (CHR ''.''))
      (Cat (lit (CHR ''0'')) (lit (CHR ''0'')))))) \<longleftrightarrow> w = dec 20 @ min_text 0"
  using dec_two [of 0 2] by (auto simp: min_text_def dig_literal)

lemma time_lang: "w \<in> lang time_rx \<longleftrightarrow> (\<exists>n. clock_text w n \<and> paid_hours n)"
proof
  assume "w \<in> lang time_rx"
  then consider (day) hs m where "w = hs @ min_text m" "m < 60" "hs \<in> lang hour_rx"
    | (close) "w = dec 20 @ min_text 0"
    unfolding time_rx_def by (auto simp only: lang.simps(5) Un_iff midnight_text lang.simps(4) [of hour_rx] min_lang mem_Collect_eq)
  then show "\<exists>n. clock_text w n \<and> paid_hours n"
  proof cases
    case day
    then obtain h where "8 \<le> h" "h < 20" "hs = dec h \<or> h < 10 \<and> hs = CHR ''0'' # dec h"
      by (auto simp: hour_lang)
    then show ?thesis
      using clock_textI [OF day(2), of hs h] day(1,2)
      by (intro exI [of _ "60 * h + m"]) (simp add: paid_hours_def)
  next
    case close
    then show ?thesis
      using clock_textI [of 0 "dec 20" 20] by (intro exI [of _ 1200]) (simp add: paid_hours_def)
  qed
next
  assume "\<exists>n. clock_text w n \<and> paid_hours n"
  then obtain n hs where n: "480 \<le> n" "n \<le> 1200" and w: "w = hs @ min_text (n mod 60)"
    and hs: "hs = dec (n div 60) \<or> n div 60 < 10 \<and> hs = CHR ''0'' # dec (n div 60)"
    by (auto simp: clock_text_split paid_hours_def)
  show "w \<in> lang time_rx"
  proof (cases "n = 1200")
    case True
    with w hs have "w = dec 20 @ min_text 0" by simp
    then show ?thesis unfolding time_rx_def lang.simps(5) Un_iff midnight_text by (rule disjI2)
  next
    case False
    with n have "8 \<le> n div 60" "n div 60 < 20" by auto
    with hs have "hs \<in> lang hour_rx" by (auto simp: hour_lang)
    with w show ?thesis
      unfolding time_rx_def
      by (simp only: lang.simps(5) Un_iff lang.simps(4) [of hour_rx] min_lang mem_Collect_eq) force
  qed
qed

section \<open>The parser of times\<close>

lemma int_div_mod: "int d * int (n div d) + int (n mod d) = int n"
  by (metis mult_div_mod_eq of_nat_add of_nat_mult)

lemma min_text_digits:
  assumes "m < 60"
  shows "stoi [dig (m div 10), dig (m mod 10)] = Inr (int m)"
proof -
  have d: "m div 10 < 10" "m mod 10 < 10" using assms by auto
  then have "digits_val [dig (m div 10), dig (m mod 10)] = int m"
    using int_div_mod [of 10 m] by (simp add: digits_val_def)
  with d assms show ?thesis
    by (subst stoi_digits) (auto simp: is_digit_dig is_int_def int_min_def int_max_def)
qed

lemma hour_text_digits:
  assumes "h < 24" and hs: "hs = dec h \<or> h < 10 \<and> hs = CHR ''0'' # dec h"
  shows "stoi hs = Inr (int h)" and "length hs \<le> 2"
proof -
  have "digits_val (CHR ''0'' # dec h) = digits_val (dec h)"
    by (simp add: digits_val_def)
  with hs have v: "digits_val hs = int h" by (auto simp: digits_val_dec)
  have "is_digit (CHR ''0'')" by (simp add: is_digit_def)
  moreover have "hs \<noteq> []" using hs dec_nonempty [of h] by (metis list.distinct(1))
  ultimately show "stoi hs = Inr (int h)"
    using hs v dec_digits [of h] assms(1)
    by (subst stoi_digits) (auto simp: is_int_def int_min_def int_max_def)
  show "length hs \<le> 2"
  proof (cases "h < 10")
    case True with hs show ?thesis by (auto simp: dec_one)
  next
    case False with hs assms(1) show ?thesis
      using dec_two [of "h mod 10" "h div 10"] by auto
  qed
qed

lemma date_ok:
  assumes "clock_text t n" and "paid_hours n"
  shows "date_to_minutes_past_midnight t = Inr (int n)"
proof -
  obtain hs where t: "t = hs @ min_text (n mod 60)"
    and hs: "hs = dec (n div 60) \<or> n div 60 < 10 \<and> hs = CHR ''0'' # dec (n div 60)"
    using assms(1) by (auto simp: clock_text_split)
  have h: "n div 60 < 24" using assms(2) by (auto simp: paid_hours_def)
  note H = hour_text_digits [OF h hs]
  have 1: "substr t 0 (size_t (int (length t) - 3)) = Inr hs"
    using H(2) by (simp add: t substr_def min_text_def)
  have 2: "substr t (size_t (int (length t) - 2)) (size_t (int (length t) - 1))
      = Inr [dig (n mod 60 div 10), dig (n mod 60 mod 10)]"
    using H(2) by (simp add: t substr_def min_text_def nat_add_distrib)
  have "60 * int (n div 60) + int (n mod 60) = int n" using int_div_mod [of 60 n] by simp
  with h assms(2) show ?thesis
    unfolding date_to_minutes_past_midnight_def Let_def 1 2
    by (simp add: H(1) min_text_digits int16_id MINUTES_IN_HOUR_def paid_hours_def)
qed

section \<open>The lines\<close>

lemma space_cls_lang:
  "w \<in> lang (Star space_cls) \<longleftrightarrow> blank w"
  "w \<in> lang (plus1 space_cls) \<longleftrightarrow> blank w \<and> w \<noteq> []"
proof -
  have "is_space c \<or> c = CHR 0x09 \<longleftrightarrow> is_space c" for c by (auto simp: is_space_def)
  then show "w \<in> lang (Star space_cls) \<longleftrightarrow> blank w" "w \<in> lang (plus1 space_cls) \<longleftrightarrow> blank w \<and> w \<noteq> []"
    unfolding space_cls_def lang_star_Cls lang_plus1_Cls blank_def by auto
qed

lemma plate_lang: "p \<in> lang plate_rx \<longleftrightarrow> plate_text p"
  by (cases p) (auto simp: plate_rx_def plate_text_def lang_rep_Cls)

lemma lang_CatE:
  "w \<in> lang (Cat r s) \<longleftrightarrow> (\<exists>u v. w = u @ v \<and> u \<in> lang r \<and> v \<in> lang s)"
  by (auto simp: lang.simps(4))

lemmas line_lang =
  regex_match_lang lang_CatE space_cls_lang plate_lang time_lang

lemma validate_payment_iff:
  "validate_payment_line line \<longleftrightarrow> (\<exists>p s e. payment_text line p s e)"
proof
  assume "validate_payment_line line"
  then obtain w0 p w1 t1 w2 t2 w3 s e where "line = w0 @ p @ w1 @ t1 @ w2 @ t2 @ w3"
    "blank w0" "blank w1" "w1 \<noteq> []" "blank w2" "w2 \<noteq> []" "blank w3" "plate_text p"
    "clock_text t1 s" "paid_hours s" "clock_text t2 e" "paid_hours e"
    unfolding validate_payment_line_def payment_rx_def line_lang by auto
  then have "payment_text line p s e" unfolding payment_text_def by blast
  then show "\<exists>p s e. payment_text line p s e" by blast
next
  assume "\<exists>p s e. payment_text line p s e"
  then obtain w0 p w1 t1 w2 t2 w3 s e where "line = w0 @ p @ w1 @ t1 @ w2 @ t2 @ w3"
    "blank w0" "blank w1" "w1 \<noteq> []" "blank w2" "w2 \<noteq> []" "blank w3" "plate_text p"
    "clock_text t1 s" "paid_hours s" "clock_text t2 e" "paid_hours e"
    unfolding payment_text_def by blast
  then show "validate_payment_line line"
    unfolding validate_payment_line_def payment_rx_def line_lang by (intro exI conjI) (assumption | rule refl)+
qed

lemma validate_checking_iff:
  "validate_checking_line line \<longleftrightarrow> (\<exists>p t. checking_text line p t)"
proof
  assume "validate_checking_line line"
  then obtain w0 p w1 t1 w2 t where "line = w0 @ p @ w1 @ t1 @ w2"
    "blank w0" "blank w1" "w1 \<noteq> []" "blank w2" "plate_text p" "clock_text t1 t" "paid_hours t"
    unfolding validate_checking_line_def checking_rx_def line_lang by auto
  then have "checking_text line p t" unfolding checking_text_def by blast
  then show "\<exists>p t. checking_text line p t" by blast
next
  assume "\<exists>p t. checking_text line p t"
  then obtain w0 p w1 t1 w2 t where "line = w0 @ p @ w1 @ t1 @ w2"
    "blank w0" "blank w1" "w1 \<noteq> []" "blank w2" "plate_text p" "clock_text t1 t" "paid_hours t"
    unfolding checking_text_def by blast
  then show "validate_checking_line line"
    unfolding validate_checking_line_def checking_rx_def line_lang by (intro exI conjI) (assumption | rule refl)+
qed

section \<open>The words of an accepted line\<close>

lemma upper_not_space: "in_range (CHR ''A'') (CHR ''Z'') c \<Longrightarrow> \<not> is_space c"
  by (auto simp: in_range_def is_space_def)

lemma plate_word: "plate_text p \<Longrightarrow> p \<noteq> [] \<and> (\<forall>c\<in>set p. \<not> is_space c)"
  by (cases p) (auto simp: plate_text_def in_range_def is_space_def)

lemma clock_word: "clock_text t n \<Longrightarrow> t \<noteq> [] \<and> (\<forall>c\<in>set t. \<not> is_space c)"
proof -
  assume "clock_text t n"
  then obtain hs where t: "t = hs @ min_text (n mod 60)"
    and hs: "hs = dec (n div 60) \<or> n div 60 < 10 \<and> hs = CHR ''0'' # dec (n div 60)"
    by (auto simp: clock_text_split)
  have "n mod 60 div 10 < 10" "n mod 60 mod 10 < 10" by auto
  then have "c = CHR ''0'' \<or> c = CHR ''.'' \<or> is_digit c" if "c \<in> set t" for c
    using that hs dec_digits [of "n div 60"]
      is_digit_dig [of "n mod 60 div 10"] is_digit_dig [of "n mod 60 mod 10"]
    by (auto simp: t min_text_def)
  then have "\<not> is_space c" if "c \<in> set t" for c
    using that by (fastforce simp: is_space_def dest: digit_not_space)
  then show ?thesis by (auto simp: t min_text_def)
qed

lemma blank_hd: "blank w \<Longrightarrow> w \<noteq> [] \<Longrightarrow> w @ r = [] \<or> is_space (hd (w @ r))"
  by (cases w) (simp_all add: blank_def)

lemma blank_end: "blank w \<Longrightarrow> w = [] \<or> is_space (hd w)"
  by (cases w) (simp_all add: blank_def)

lemma get_word_mid:
  "blank w \<Longrightarrow> p \<noteq> [] \<and> (\<forall>c\<in>set p. \<not> is_space c) \<Longrightarrow> blank v \<Longrightarrow> v \<noteq> [] \<Longrightarrow>
     get_word (w @ p @ v @ r) = (p, v @ r)"
  using get_word_spaces [of w p "v @ r"] blank_hd [of v r] by (simp add: blank_def)

lemma get_word_last:
  "blank w \<Longrightarrow> p \<noteq> [] \<and> (\<forall>c\<in>set p. \<not> is_space c) \<Longrightarrow> blank v \<Longrightarrow> get_word (w @ p @ v) = (p, v)"
  using get_word_spaces [of w p v] blank_end [of v] by (simp add: blank_def)

lemma parse_payment_ok:
  assumes "payment_text line p s e"
  shows "parse_payment_line line = Inr (p, int s, int e)"
proof -
  obtain w0 w1 w2 w3 t1 t2 where line: "line = w0 @ p @ w1 @ t1 @ w2 @ t2 @ w3"
    and b: "blank w0" "blank w1" "w1 \<noteq> []" "blank w2" "w2 \<noteq> []" "blank w3" "plate_text p"
    and t: "clock_text t1 s" "paid_hours s" "clock_text t2 e" "paid_hours e"
    using assms unfolding payment_text_def by blast
  show ?thesis
    unfolding parse_payment_line_def line
    by (simp add: get_word_mid [OF b(1) plate_word [OF b(7)] b(2,3)]
        get_word_mid [OF b(2) clock_word [OF t(1)] b(4,5)]
        get_word_last [OF b(4) clock_word [OF t(3)] b(6)] date_ok [OF t(1,2)] date_ok [OF t(3,4)])
qed

lemma parse_checking_ok:
  assumes "checking_text line p t"
  shows "parse_checking_line line = Inr (p, int t)"
proof -
  obtain w0 w1 w2 t1 where line: "line = w0 @ p @ w1 @ t1 @ w2"
    and b: "blank w0" "blank w1" "w1 \<noteq> []" "blank w2" "plate_text p"
    and t: "clock_text t1 t" "paid_hours t"
    using assms unfolding checking_text_def by blast
  show ?thesis
    unfolding parse_checking_line_def line
    by (simp add: get_word_mid [OF b(1) plate_word [OF b(5)] b(2,3)]
        get_word_last [OF b(2) clock_word [OF t(1)] b(4)] date_ok [OF t])
qed

text \<open>The two formats exclude each other: they have a different number of words.\<close>

lemma payment_not_checking:
  assumes "payment_text line p s e"
  shows "\<not> checking_text line q t"
proof
  assume "checking_text line q t"
  then obtain v0 v1 v2 u where line: "line = v0 @ q @ v1 @ u @ v2"
    and v: "blank v0" "blank v1" "v1 \<noteq> []" "blank v2" "plate_text q" "clock_text u t"
    unfolding checking_text_def by blast
  obtain w0 w1 w2 w3 t1 t2 where line': "line = w0 @ p @ w1 @ t1 @ w2 @ t2 @ w3"
    and w: "blank w0" "blank w1" "w1 \<noteq> []" "blank w2" "w2 \<noteq> []" "plate_text p"
      "clock_text t1 s" "clock_text t2 e"
    using assms unfolding payment_text_def by blast
  have "get_word line = (q, v1 @ u @ v2)"
    unfolding line by (rule get_word_mid [OF v(1) plate_word [OF v(5)] v(2,3)])
  moreover have "get_word (v1 @ u @ v2) = (u, v2)"
    by (rule get_word_last [OF v(2) clock_word [OF v(6)] v(4)])
  moreover have "get_word line = (p, w1 @ t1 @ w2 @ t2 @ w3)"
    unfolding line' by (rule get_word_mid [OF w(1) plate_word [OF w(6)] w(2,3)])
  moreover have "get_word (w1 @ t1 @ w2 @ t2 @ w3) = (t1, w2 @ t2 @ w3)"
    by (rule get_word_mid [OF w(2) clock_word [OF w(7)] w(4,5)])
  ultimately have "v2 = w2 @ t2 @ w3" by simp
  then have "\<forall>c\<in>set t2. is_space c" using v(4) by (simp add: blank_def)
  with clock_word [OF w(8)] show False by (cases t2) auto
qed

end
