(* ===== verification/Parking_Props.thy ===== *)
theory Parking_Props
  imports Parking_Text
begin

text \<open>
  The parking meter against its task. The specification has an absolute clock in minutes and
  remembers every payment with the absolute minute it lasts to; nothing is ever deleted. The
  program keeps only the time of day and a list it prunes, and answers the same.
\<close>

section \<open>The specification\<close>

datatype event = Pay string nat nat | Ask string nat | Malformed

fun line_event :: "string \<Rightarrow> event \<Rightarrow> bool" where
  "line_event line (Pay p s e) = payment_text line p s e"
| "line_event line (Ask p t) = checking_text line p t"
| "line_event line Malformed =
     (\<not> (\<exists>p s e. payment_text line p s e) \<and> \<not> (\<exists>p t. checking_text line p t))"

record ledger =
  moment :: int
  paid :: "(string \<times> int) list"

text \<open>The first moment not before \<open>a\<close> at which the clock shows \<open>t\<close>.\<close>

definition later :: "int \<Rightarrow> int \<Rightarrow> int" where
  "later a t = a + (t - a) mod 1440"

text \<open>The minutes from \<open>a\<close> to \<open>b\<close> in which parking has to be paid for.\<close>

definition charged :: "int \<Rightarrow> int \<Rightarrow> nat" where
  "charged a b = card {x. a \<le> x \<and> x < b \<and> 480 \<le> x mod 1440 \<and> x mod 1440 < 1200}"

fun spec_event :: "event \<Rightarrow> ledger \<Rightarrow> (stream \<times> string) \<times> ledger" where
  "spec_event (Pay p s e) L =
     (let a = later (moment L) (int s); b = later a (int e)
      in if 10 \<le> charged a b \<and> charged a b \<le> 719
         then ((Cout, ''OK ''), L\<lparr>moment := a, paid := paid L @ [(p, b)]\<rparr>)
         else ((Cerr, ''ERROR ''), L))"
| "spec_event (Ask p t) L =
     (let a = later (moment L) (int t)
      in ((Cout, if \<exists>b. (p, b) \<in> set (paid L) \<and> a \<le> b then ''YES '' else ''NO ''),
          L\<lparr>moment := a\<rparr>))"
| "spec_event Malformed L = ((Cerr, ''ERROR ''), L)"

fun spec_messages :: "nat \<Rightarrow> event list \<Rightarrow> ledger \<Rightarrow> message list" where
  "spec_messages n [] L = []"
| "spec_messages n (ev # evs) L =
     (let ((out, word), L) = spec_event ev L
      in say_line out word (n + 1) # spec_messages (n + 1) evs L)"

definition ledger_init :: ledger where
  "ledger_init = \<lparr>moment = 0, paid = []\<rparr>"

section \<open>The clock\<close>

lemma day_mod: "0 \<le> r \<Longrightarrow> r < 1440 \<Longrightarrow> (1440 * d + r) mod 1440 = (r :: int)"
  by (simp add: mod_pos_pos_trivial)

lemma day_split: "(a :: int) = 1440 * (a div 1440) + a mod 1440"
  by simp

lemma mod_between:
  "1440 * d \<le> x \<Longrightarrow> x < 1440 * d + 1440 \<Longrightarrow> x mod 1440 = x - 1440 * (d :: int)"
  using day_mod [of "x - 1440 * d" d] by simp

lemma later_same_day:
  assumes "0 \<le> t" "t < 1440" "a mod 1440 \<le> t"
  shows "later a t = 1440 * (a div 1440) + t"
proof -
  have "(t - a) mod 1440 = t - a - 1440 * (- (a div 1440))"
    by (rule mod_between) (use assms day_split [of a] in linarith)+
  then show ?thesis by (simp add: later_def)
qed

lemma later_next_day:
  assumes "0 \<le> t" "t < a mod 1440"
  shows "later a t = 1440 * (a div 1440 + 1) + t"
proof -
  obtain q r where q: "a = 1440 * q + r" "a div 1440 = q" and r: "a mod 1440 = r" "r < 1440"
    using day_split [of a] by simp
  have "(t - a) mod 1440 = t - a - 1440 * (- q - 1)"
    by (rule mod_between) (use assms q r in simp_all)
  then show ?thesis unfolding later_def q(2) by simp
qed

lemma later_mod: "0 \<le> t \<Longrightarrow> t < 1440 \<Longrightarrow> later a t mod 1440 = t"
  by (simp add: later_def mod_simps)

lemma charged_one_day:
  assumes "480 \<le> s" "s \<le> e" "e \<le> 1200"
  shows "charged (1440 * d + s) (1440 * d + e) = nat (e - s)"
proof -
  have "x mod 1440 = x - 1440 * d" if "1440 * d + s \<le> x" "x < 1440 * d + e" for x
    by (rule mod_between) (use that assms in simp_all)
  then have "{x. 1440 * d + s \<le> x \<and> x < 1440 * d + e \<and> 480 \<le> x mod 1440 \<and> x mod 1440 < 1200}
      = {1440 * d + s ..< 1440 * d + e}"
    using assms by auto
  then show ?thesis by (simp add: charged_def)
qed

lemma charged_two_days:
  assumes "480 \<le> e" "e < s" "s \<le> 1200"
  shows "charged (1440 * d + s) (1440 * (d + 1) + e) = nat ((1200 - s) + (e - 480))"
proof -
  have "(1440 * d + s \<le> x \<and> x < 1440 * (d + 1) + e \<and> 480 \<le> x mod 1440 \<and> x mod 1440 < 1200) \<longleftrightarrow>
      (1440 * d + s \<le> x \<and> x < 1440 * d + 1200 \<or> 1440 * (d + 1) + 480 \<le> x \<and> x < 1440 * (d + 1) + e)"
    (is "?P x \<longleftrightarrow> ?Q x") for x
  proof -
    consider (out) "x < 1440 * d + s \<or> 1440 * (d + 1) + e \<le> x"
      | (first) "1440 * d + s \<le> x" "x < 1440 * d + 1440"
      | (second) "1440 * d + 1440 \<le> x" "x < 1440 * (d + 1) + e" by (meson linorder_not_less)
    then show ?thesis
    proof cases
      case first
      then have "x mod 1440 = x - 1440 * d" by (intro mod_between) (use assms in simp_all)
      with first assms show ?thesis by (auto simp: algebra_simps)
    next
      case second
      then have "x mod 1440 = x - 1440 * (d + 1)" by (intro mod_between) (use assms in simp_all)
      with second assms show ?thesis by (auto simp: algebra_simps)
    qed (use assms in auto)
  qed
  then have "{x. 1440 * d + s \<le> x \<and> x < 1440 * (d + 1) + e \<and> 480 \<le> x mod 1440 \<and> x mod 1440 < 1200}
      = {1440 * d + s ..< 1440 * d + 1200} \<union> {1440 * (d + 1) + 480 ..< 1440 * (d + 1) + e}"
    by (intro set_eqI) (simp only: mem_Collect_eq Un_iff atLeastLessThan_iff)
  moreover have "{1440 * d + s ..< 1440 * d + 1200} \<inter> {1440 * (d + 1) + 480 ..< 1440 * (d + 1) + e} = {}"
    by auto
  ultimately show ?thesis
    using assms by (simp add: charged_def card_Un_disjoint)
qed

definition until :: "int \<Rightarrow> int \<times> int \<Rightarrow> int" where
  "until a = (\<lambda>(s, e). 1440 * (a div 1440) + e + (if s \<le> e then 0 else 1440))"

definition hours_ok :: "int \<Rightarrow> bool" where
  "hours_ok t \<longleftrightarrow> 480 \<le> t \<and> t \<le> 1200"

lemma later_until:
  assumes "hours_ok s" "hours_ok e" "a mod 1440 = s"
  shows "later a e = until a (s, e)"
  using assms later_same_day [of e a] later_next_day [of e a]
  by (auto simp: until_def hours_ok_def)

lemma check_parking_time_charged:
  assumes "hours_ok s" "hours_ok e" "a mod 1440 = s"
  shows "check_parking_time s e \<longleftrightarrow> 10 \<le> charged a (later a e) \<and> charged a (later a e) \<le> 719"
proof -
  have a: "a = 1440 * (a div 1440) + s" using day_split [of a] assms(3) by simp
  have "charged a (later a e) = nat (if s \<le> e then e - s else (1200 - s) + (e - 480))"
    unfolding later_until [OF assms] until_def
    using assms(1,2) charged_one_day [of s e "a div 1440"] charged_two_days [of e s "a div 1440"] a
    by (auto simp: hours_ok_def algebra_simps)
  then show ?thesis
    using assms(1,2) by (auto simp: check_parking_time_def hours_ok_def parking_consts)
qed

section \<open>The list of payments against the ledger\<close>

text \<open>
  What is kept of the ledger: the payments that have not run out. An entry whose start is
  after its end was made today and runs out tomorrow.
\<close>

definition agrees :: "entry list \<Rightarrow> int \<Rightarrow> ledger \<Rightarrow> bool" where
  "agrees xs h L \<longleftrightarrow>
     h = moment L mod 1440 \<and>
     (\<forall>p s e. (p, s, e) \<in> set xs \<longrightarrow>
        hours_ok s \<and> hours_ok e \<and> (e < s \<longrightarrow> s \<le> h) \<and> (s = e \<longrightarrow> s = OPENING_TIME_MIN)) \<and>
     (\<forall>p b. moment L \<le> b \<longrightarrow>
        (p, b) \<in> set (paid L) \<longleftrightarrow> (\<exists>s e. (p, s, e) \<in> set xs \<and> b = until (moment L) (s, e)))"

lemma set_delete_new_day:
  "(p, s, e) \<in> set (delete_cars_new_day t xs) \<longleftrightarrow>
     s = OPENING_TIME_MIN \<and> t \<le> e \<and> (\<exists>s'. (p, s', e) \<in> set xs \<and> e < s')"
  by (induction t xs rule: delete_cars_new_day.induct) auto

lemma set_delete_same_day:
  "(p, s, e) \<in> set (delete_cars_same_day t xs) \<longleftrightarrow> (p, s, e) \<in> set xs \<and> \<not> (s < e \<and> e < t)"
  by (induction t xs rule: delete_cars_same_day.induct) auto

lemma check_entries_iff:
  "check_entries p t xs \<longleftrightarrow>
     (\<exists>s e. (p, s, e) \<in> set xs \<and> (if s \<le> e then t \<le> e else s \<le> t \<or> t \<le> e))"
  by (induction p t xs rule: check_entries.induct) auto

lemma agrees_delete:
  assumes ag: "agrees xs h L" and t: "hours_ok t"
  shows "agrees (delete_cars_from_data xs t h) t (L\<lparr>moment := later (moment L) t\<rparr>)"
proof (cases "t < h")
  case False
  define q where "q = moment L div 1440"
  have h: "h = moment L mod 1440" using ag by (simp add: agrees_def)
  have t': "0 \<le> t" "t < 1440" using t by (simp_all add: hours_ok_def)
  have now: "later (moment L) t = 1440 * q + t"
    unfolding q_def using later_same_day [OF t'] False h by simp
  have m: "moment L = 1440 * q + h" unfolding q_def h by simp
  have q: "later (moment L) t div 1440 = q" using t' by (simp add: now)
  have u: "until (later (moment L) t) se = until (moment L) se" for se
    by (simp add: until_def q q_def split: prod.split)
  have "moment L \<le> later (moment L) t" unfolding now using m False by linarith
  moreover have "\<not> (s < e \<and> e < t)" if "later (moment L) t \<le> until (moment L) (s, e)" for s e
    using that unfolding now until_def by (auto simp flip: q_def)
  moreover have "hours_ok s \<and> hours_ok e \<and> (e < s \<longrightarrow> s \<le> t) \<and> (s = e \<longrightarrow> s = OPENING_TIME_MIN)" if "(p, s, e) \<in> set xs" for p s e
    using that ag False unfolding agrees_def by fastforce
  moreover have "(p, b) \<in> set (paid L) \<longleftrightarrow> (\<exists>s e. (p, s, e) \<in> set xs \<and> b = until (moment L) (s, e))"
    if "moment L \<le> b" for p b
    using that ag by (simp add: agrees_def)
  ultimately show ?thesis
    using False later_mod [OF t', of "moment L"]
    by (auto simp: agrees_def delete_cars_from_data_def check_if_new_day_def set_delete_same_day u)
next
  case True
  define q where "q = moment L div 1440"
  have h: "h = moment L mod 1440" using ag by (simp add: agrees_def)
  have t': "0 \<le> t" "t < 1440" using t by (simp_all add: hours_ok_def)
  have now: "later (moment L) t = 1440 * (q + 1) + t"
    unfolding q_def using later_next_day [OF t'(1)] True h by simp
  have m: "moment L = 1440 * q + h" unfolding q_def h by simp
  have q: "later (moment L) t div 1440 = q + 1" using t' by (simp add: now)
  have "h < 1440" by (simp add: h)
  then have le: "moment L \<le> later (moment L) t" unfolding now using m t' by (simp add: algebra_simps)
  have ok: "hours_ok s \<and> hours_ok e" if "(p, s, e) \<in> set xs" for p s e
    using ag that by (auto simp: agrees_def)
  have stays: "(\<exists>s e. (p, s, e) \<in> set xs \<and> b = until (moment L) (s, e)) \<longleftrightarrow>
      (\<exists>s e. (p, s, e) \<in> set (delete_cars_new_day t xs) \<and> b = until (later (moment L) t) (s, e))"
    if "later (moment L) t \<le> b" for p b
  proof
    assume "\<exists>s e. (p, s, e) \<in> set xs \<and> b = until (moment L) (s, e)"
    then obtain s e where se: "(p, s, e) \<in> set xs" "b = until (moment L) (s, e)" by blast
    with that t' ok [OF se(1)] have "e < s" "t \<le> e"
      unfolding now until_def hours_ok_def by (auto simp flip: q_def split: if_splits)
    with se ok [OF se(1)] have "(p, OPENING_TIME_MIN, e) \<in> set (delete_cars_new_day t xs)"
      "b = until (later (moment L) t) (OPENING_TIME_MIN, e)"
      by (auto simp: set_delete_new_day until_def q OPENING_TIME_MIN_def hours_ok_def simp flip: q_def)
    then show "\<exists>s e. (p, s, e) \<in> set (delete_cars_new_day t xs) \<and> b = until (later (moment L) t) (s, e)"
      by blast
  next
    assume "\<exists>s e. (p, s, e) \<in> set (delete_cars_new_day t xs) \<and> b = until (later (moment L) t) (s, e)"
    then obtain s e where "(p, s, e) \<in> set xs" "e < s" "b = until (later (moment L) t) (OPENING_TIME_MIN, e)"
      by (auto simp: set_delete_new_day)
    with ok have "(p, s, e) \<in> set xs" "b = until (moment L) (s, e)"
      by (auto simp: until_def q OPENING_TIME_MIN_def hours_ok_def simp flip: q_def)
    then show "\<exists>s e. (p, s, e) \<in> set xs \<and> b = until (moment L) (s, e)" by blast
  qed
  have "later (moment L) t mod 1440 = t" by (rule later_mod [OF t'])
  moreover have "hours_ok s \<and> hours_ok e \<and> (e < s \<longrightarrow> s \<le> t) \<and> (s = e \<longrightarrow> s = OPENING_TIME_MIN)"
    if "(p, s, e) \<in> set (delete_cars_new_day t xs)" for p s e
    using that ok t by (auto simp: set_delete_new_day OPENING_TIME_MIN_def hours_ok_def)
  moreover have "(p, b) \<in> set (paid L) \<longleftrightarrow> (\<exists>s e. (p, s, e) \<in> set (delete_cars_new_day t xs) \<and>
      b = until (later (moment L) t) (s, e))" if "later (moment L) t \<le> b" for p b
    using ag stays [OF that] le that by (simp add: agrees_def)
  ultimately show ?thesis
    using True by (simp add: agrees_def delete_cars_from_data_def check_if_new_day_def)
qed

lemma agrees_add:
  assumes "agrees xs s L" and "hours_ok s" "hours_ok e" and "s \<noteq> e"
  shows "agrees (xs @ [(p, s, e)]) s (L\<lparr>paid := paid L @ [(p, later (moment L) e)]\<rparr>)"
proof -
  have "later (moment L) e = until (moment L) (s, e)"
    using assms by (intro later_until) (simp_all add: agrees_def)
  then show ?thesis using assms by (auto simp: agrees_def)
qed

lemma agrees_check:
  assumes "agrees xs t L" and "hours_ok t"
  shows "check_entries p t xs \<longleftrightarrow> (\<exists>b. (p, b) \<in> set (paid L) \<and> moment L \<le> b)"
proof -
  have m: "moment L = 1440 * (moment L div 1440) + t"
    using assms(1) day_split [of "moment L"] by (simp add: agrees_def)
  have "(if s \<le> e then t \<le> e else s \<le> t \<or> t \<le> e) \<longleftrightarrow> moment L \<le> until (moment L) (s, e)"
    if "(p, s, e) \<in> set xs" for s e
  proof -
    have "hours_ok s" "hours_ok e" "e < s \<Longrightarrow> s \<le> t" using that assms(1) by (auto simp: agrees_def)
    then show ?thesis
      using assms(2) by (subst (1) m) (auto simp: until_def hours_ok_def)
  qed
  then have "check_entries p t xs \<longleftrightarrow>
      (\<exists>s e. (p, s, e) \<in> set xs \<and> moment L \<le> until (moment L) (s, e))"
    by (simp add: check_entries_iff cong: conj_cong del: if_split)
  moreover have "(p, b) \<in> set (paid L) \<longleftrightarrow> (\<exists>s e. (p, s, e) \<in> set xs \<and> b = until (moment L) (s, e))"
    if "moment L \<le> b" for b
    using that assms(1) by (simp add: agrees_def)
  ultimately show ?thesis by metis
qed

section \<open>Lines and runs\<close>

lemma line_event_exists: "\<exists>ev. line_event line ev"
  using line_event.simps by metis

lemma text_unique:
  "payment_text line p s e \<Longrightarrow> payment_text line q u v \<Longrightarrow> p = q \<and> s = u \<and> e = v"
  "checking_text line p t \<Longrightarrow> checking_text line q u \<Longrightarrow> p = q \<and> t = u"
  using parse_payment_ok [of line p s e] parse_payment_ok [of line q u v]
    parse_checking_ok [of line p t] parse_checking_ok [of line q u] by simp_all

lemma text_hours:
  "payment_text line p s e \<Longrightarrow> hours_ok (int s) \<and> hours_ok (int e)"
  "checking_text line p t \<Longrightarrow> hours_ok (int t)"
  by (auto simp: payment_text_def checking_text_def paid_hours_def hours_ok_def)

definition meter_rel :: "meter \<Rightarrow> ledger \<Rightarrow> bool" where
  "meter_rel m L \<longleftrightarrow> agrees (parking m) (last_checked_hour m) L"

lemma check_time_distinct: "check_parking_time s e \<Longrightarrow> s \<noteq> e"
  by (auto simp: check_parking_time_def)

lemma process_line_spec:
  assumes rel: "meter_rel m L" and ev: "line_event line ev"
  shows "\<exists>m'. process_line m line =
           Inr (say_line (fst (fst (spec_event ev L))) (snd (fst (spec_event ev L))) (line_count m + 1), m') \<and>
         meter_rel m' (snd (spec_event ev L)) \<and> line_count m' = line_count m + 1"
proof (cases ev)
  case (Pay p s e)
  with ev have pt: "payment_text line p s e" by simp
  note hs = text_hours(1) [OF pt]
  define a where "a = later (moment L) (int s)"
  have mod: "a mod 1440 = int s"
    unfolding a_def using hs by (intro later_mod) (simp_all add: hours_ok_def)
  have chk: "check_parking_time (int s) (int e) \<longleftrightarrow> 10 \<le> charged a (later a (int e)) \<and> charged a (later a (int e)) \<le> 719"
    using hs mod by (intro check_parking_time_charged) auto
  have del: "agrees (delete_cars_from_data (parking m) (int s) (last_checked_hour m)) (int s) (L\<lparr>moment := a\<rparr>)"
    unfolding a_def using rel hs by (intro agrees_delete) (simp_all add: meter_rel_def)
  have v: "validate_payment_line line" using pt by (auto simp: validate_payment_iff)
  show ?thesis
    using agrees_add [OF del, of "int e" p] hs rel check_time_distinct [of "int s" "int e"]
    by (simp add: Pay process_line_def v add_payment_def parse_payment_ok [OF pt] chk
        meter_rel_def Let_def flip: a_def)
next
  case (Ask p t)
  with ev have ct: "checking_text line p t" by simp
  note ht = text_hours(2) [OF ct]
  define a where "a = later (moment L) (int t)"
  have del: "agrees (delete_cars_from_data (parking m) (int t) (last_checked_hour m)) (int t) (L\<lparr>moment := a\<rparr>)"
    unfolding a_def using rel ht by (intro agrees_delete) (simp_all add: meter_rel_def)
  have "\<not> validate_payment_line line" "validate_checking_line line"
    using ct payment_not_checking by (auto simp: validate_payment_iff validate_checking_iff)
  then show ?thesis
    using agrees_check [OF del ht, of p] del
    by (auto simp: Ask process_line_def check_payment_def parse_checking_ok [OF ct]
        meter_rel_def Let_def a_def [symmetric])
next
  case Malformed
  with ev rel show ?thesis
    by (simp add: process_line_def validate_payment_iff validate_checking_iff meter_rel_def)
qed

lemma process_lines_spec:
  "meter_rel m L \<Longrightarrow> list_all2 line_event lines evs \<Longrightarrow>
     \<exists>m'. process_lines m lines = Inr (spec_messages (line_count m) evs L, m')"
proof (induction lines arbitrary: m L evs)
  case (Cons line lines)
  from Cons.prems(2) obtain ev evs' where evs: "evs = ev # evs'" "line_event line ev"
    "list_all2 line_event lines evs'" by (auto simp: list_all2_Cons1)
  from process_line_spec [OF Cons.prems(1) evs(2)] obtain m' where m':
    "process_line m line =
       Inr (say_line (fst (fst (spec_event ev L))) (snd (fst (spec_event ev L))) (line_count m + 1), m')"
    "meter_rel m' (snd (spec_event ev L))" "line_count m' = line_count m + 1" by blast
  from Cons.IH [OF m'(2) evs(3)] show ?case
    by (auto simp: m' evs(1) split_beta Let_def)
qed simp

lemma meter_rel_init: "meter_rel meter_init ledger_init"
  by (simp add: meter_rel_def agrees_def meter_init_def ledger_init_def)

lemma events_exist: "\<exists>evs. list_all2 line_event lines evs"
proof (induction lines)
  case (Cons line lines)
  then obtain evs where "list_all2 line_event lines evs" ..
  moreover obtain ev where "line_event line ev" using line_event_exists [of line] ..
  ultimately have "list_all2 line_event (line # lines) (ev # evs)" by simp
  then show ?case ..
qed simp

section \<open>What is forgotten\<close>

text \<open>An entry is worth keeping when the question about it would be answered with yes now.\<close>

definition useful :: "int \<Rightarrow> entry \<Rightarrow> bool" where
  "useful h = (\<lambda>(p, s, e). check_entries p h [(p, s, e)] \<or> e = OPENING_TIME_MIN)"

definition kept_ok :: "meter \<Rightarrow> bool" where
  "kept_ok m \<longleftrightarrow> list_all (useful (last_checked_hour m)) (parking m) \<and>
     (\<exists>L. meter_rel m L)"

lemma delete_useful:
  assumes "agrees xs h L" and "hours_ok t"
  shows "list_all (useful t) (delete_cars_from_data xs t h)"
proof -
  have ok: "e < s \<Longrightarrow> s \<le> h" "s = e \<Longrightarrow> s = OPENING_TIME_MIN" if "(p, s, e) \<in> set xs" for p s e
    using that assms(1) by (auto simp: agrees_def)
  have "useful t (p, s, e)" if "(p, s, e) \<in> set (delete_cars_from_data xs t h)" for p s e
  proof (cases "t < h")
    case True
    with that show ?thesis
      by (auto simp: useful_def delete_cars_from_data_def check_if_new_day_def set_delete_new_day)
  next
    case False
    with that have se: "(p, s, e) \<in> set xs" "\<not> (s < e \<and> e < t)"
      by (auto simp: delete_cars_from_data_def check_if_new_day_def set_delete_same_day)
    with ok [OF se(1)] False show ?thesis by (auto simp: useful_def)
  qed
  then show ?thesis by (auto simp: list_all_iff)
qed

lemma process_line_kept:
  assumes "kept_ok m" and "process_line m line = Inr (msg, m')"
  shows "kept_ok m'"
proof -
  obtain ev where ev: "line_event line ev" using line_event_exists [of line] ..
  obtain L where rel: "meter_rel m L" using assms(1) by (auto simp: kept_ok_def)
  have ex: "\<exists>L. meter_rel m' L"
    using process_line_spec [OF rel ev] assms(2) by auto
  have ag: "agrees (parking m) (last_checked_hour m) L" using rel by (simp add: meter_rel_def)
  have "list_all (useful (last_checked_hour m')) (parking m')"
  proof (cases ev)
    case (Pay p s e)
    with ev have pt: "payment_text line p s e" by simp
    have "validate_payment_line line" using pt by (auto simp: validate_payment_iff)
    moreover have "useful (int s) (p, int s, int e)"
      by (auto simp: useful_def)
    moreover have "list_all (useful (int s)) (delete_cars_from_data (parking m) (int s) (last_checked_hour m))"
      using delete_useful [OF ag] text_hours(1) [OF pt] by simp
    ultimately show ?thesis
      using assms unfolding process_line_def add_payment_def parse_payment_ok [OF pt] kept_ok_def
      by (cases "check_parking_time (int s) (int e)") (auto simp: Let_def simp del: list_all_iff)
  next
    case (Ask p t)
    with ev have ct: "checking_text line p t" by simp
    have "\<not> validate_payment_line line" "validate_checking_line line"
      using ct payment_not_checking by (auto simp: validate_payment_iff validate_checking_iff)
    then show ?thesis
      using assms delete_useful [OF ag text_hours(2) [OF ct]]
      by (auto simp: process_line_def check_payment_def parse_checking_ok [OF ct] Let_def)
  next
    case Malformed
    with ev assms show ?thesis
      by (auto simp: process_line_def validate_payment_iff validate_checking_iff kept_ok_def)
  qed
  with ex show ?thesis by (simp add: kept_ok_def)
qed

lemma process_lines_kept:
  "kept_ok m \<Longrightarrow> process_lines m lines = Inr (msgs, m') \<Longrightarrow> kept_ok m'"
proof (induction lines arbitrary: m msgs)
  case (Cons line lines)
  from Cons.prems(2) obtain msg m1 msgs1 where 1: "process_line m line = Inr (msg, m1)"
    "process_lines m1 lines = Inr (msgs1, m')"
    by (auto simp: try_bind_eq_Inr split: prod.splits)
  show ?case by (rule Cons.IH [OF process_line_kept [OF Cons.prems(1) 1(1)] 1(2)])
qed simp

section \<open>Properties\<close>

text \<open>C12: On every input the meter ends normally, no line makes it throw, and it prints for
  each line what the specification says: a payment is confirmed when the minutes paid for,
  counted inside the paid hours only, are between 10 and 719, and a question is answered with
  yes exactly when some earlier payment of that car lasts to the moment of the question.\<close>

theorem parking_meter_correct:
  "\<exists>evs m. list_all2 line_event (getlines cin) evs \<and>
     activate_parking cin = Inr (spec_messages 0 evs ledger_init, m)"
proof -
  obtain evs where "list_all2 line_event (getlines cin) evs" using events_exist ..
  then show ?thesis
    using process_lines_spec [OF meter_rel_init] unfolding activate_parking_def
    by (metis meter_init_def meter.select_convs(3))
qed

text \<open>C39: The payment lines the regular expression accepts are exactly the lines of the format
  the task describes, with both times between 8.00 and 20.00, and the parser returns the
  registration number and the minutes these times stand for.\<close>

theorem payment_line_parsed:
  "validate_payment_line line \<longleftrightarrow>
     (\<exists>p s e. payment_text line p s e \<and> parse_payment_line line = Inr (p, int s, int e))"
  using validate_payment_iff parse_payment_ok by blast

text \<open>After every input the list of payments holds only entries for which the question at
  the current time would be answered with yes, apart from those that ended at 8.00, which stay
  until the next day.\<close>

theorem parking_forgets:
  "\<exists>msgs m. activate_parking cin = Inr (msgs, m) \<and>
     list_all (useful (last_checked_hour m)) (parking m)"
proof -
  obtain evs where "list_all2 line_event (getlines cin) evs" using events_exist ..
  then obtain msgs m where m: "activate_parking cin = Inr (msgs, m)"
    using process_lines_spec [OF meter_rel_init] unfolding activate_parking_def by blast
  have "kept_ok meter_init"
    using meter_rel_init by (auto simp: kept_ok_def meter_init_def)
  from process_lines_kept [OF this m [unfolded activate_parking_def]] m show ?thesis
    by (auto simp: kept_ok_def)
qed

end
