(* ===== verification/Ordered.thy ===== *)
theory Ordered
  imports Prelude
begin

text \<open>
  \<open>std::set\<close> and \<open>std::map\<close> with a comparator: the list of the elements in increasing order,
  with lookup, insertion and removal as the containers promise them. An element is compared
  through its key (\<open>kf\<close> is the identity for a set and \<open>fst\<close> for a map). Two keys neither of
  which is less than the other are the same key, even if they are different objects. The
  locale \<open>strict_weak\<close> holds what a comparator has to promise and what the containers then
  guarantee.
\<close>

fun set_find :: "('k \<Rightarrow> 'k \<Rightarrow> bool) \<Rightarrow> ('e \<Rightarrow> 'k) \<Rightarrow> 'k \<Rightarrow> 'e list \<Rightarrow> 'e option" where
  "set_find lt kf k [] = None"
| "set_find lt kf k (y # ys) =
     (if lt (kf y) k then set_find lt kf k ys else if lt k (kf y) then None else Some y)"

fun set_insert :: "('k \<Rightarrow> 'k \<Rightarrow> bool) \<Rightarrow> ('e \<Rightarrow> 'k) \<Rightarrow> 'e \<Rightarrow> 'e list \<Rightarrow> bool \<times> 'e list" where
  "set_insert lt kf x [] = (True, [x])"
| "set_insert lt kf x (y # ys) =
     (if lt (kf y) (kf x) then (let (b, zs) = set_insert lt kf x ys in (b, y # zs))
      else if lt (kf x) (kf y) then (True, x # y # ys) else (False, y # ys))"

fun set_erase :: "('k \<Rightarrow> 'k \<Rightarrow> bool) \<Rightarrow> ('e \<Rightarrow> 'k) \<Rightarrow> 'k \<Rightarrow> 'e list \<Rightarrow> 'e list" where
  "set_erase lt kf k [] = []"
| "set_erase lt kf k (y # ys) =
     (if lt (kf y) k then y # set_erase lt kf k ys else if lt k (kf y) then y # ys else ys)"

text \<open>An update through the iterator that \<open>find\<close> returned.\<close>

fun set_update :: "('k \<Rightarrow> 'k \<Rightarrow> bool) \<Rightarrow> ('e \<Rightarrow> 'k) \<Rightarrow> 'k \<Rightarrow> ('e \<Rightarrow> 'e) \<Rightarrow> 'e list \<Rightarrow> 'e list" where
  "set_update lt kf k g [] = []"
| "set_update lt kf k g (y # ys) =
     (if lt (kf y) k then y # set_update lt kf k g ys else if lt k (kf y) then y # ys else g y # ys)"

locale strict_weak =
  fixes lt :: "'k \<Rightarrow> 'k \<Rightarrow> bool"
  assumes lt_irrefl: "\<not> lt a a"
    and lt_trans: "lt a b \<Longrightarrow> lt b c \<Longrightarrow> lt a c"
    and lt_equiv: "\<not> lt a b \<Longrightarrow> \<not> lt b a \<Longrightarrow> \<not> lt b c \<Longrightarrow> \<not> lt c b \<Longrightarrow> \<not> lt a c"
begin

definition same :: "'k \<Rightarrow> 'k \<Rightarrow> bool" where
  "same a b \<longleftrightarrow> \<not> lt a b \<and> \<not> lt b a"

lemma same_refl [simp]: "same a a"
  by (simp add: same_def lt_irrefl)

lemma same_sym: "same a b \<Longrightarrow> same b a"
  by (simp add: same_def)

lemma lt_same: "lt a b \<Longrightarrow> same b c \<Longrightarrow> lt a c"
  unfolding same_def by (metis lt_equiv lt_trans)

lemma same_lt: "same a b \<Longrightarrow> lt b c \<Longrightarrow> lt a c"
  unfolding same_def by (metis lt_equiv lt_trans)

abbreviation ordered :: "('e \<Rightarrow> 'k) \<Rightarrow> 'e list \<Rightarrow> bool" where
  "ordered kf \<equiv> sorted_wrt (\<lambda>a b. lt (kf a) (kf b))"

lemma lt_not_same: "lt a b \<Longrightarrow> \<not> same a b \<and> \<not> same b a"
  by (simp add: same_def)

lemma ordered_unique:
  "ordered kf xs \<Longrightarrow> x \<in> set xs \<Longrightarrow> y \<in> set xs \<Longrightarrow> same (kf x) (kf y) \<Longrightarrow> x = y"
  by (induction xs) (auto dest: lt_not_same)

lemma ordered_distinct: "ordered kf xs \<Longrightarrow> distinct xs"
  by (induction xs) (auto dest: lt_irrefl [THEN notE])

lemma find_Some:
  "ordered kf xs \<Longrightarrow> set_find lt kf k xs = Some y \<longleftrightarrow> y \<in> set xs \<and> same (kf y) k"
proof (induction xs)
  case (Cons x xs)
  have "same (kf y) k \<Longrightarrow> y \<in> set xs \<Longrightarrow> lt (kf x) k"
    using Cons.prems lt_same by auto
  moreover have "\<not> same (kf y) k" if "lt k (kf x)" "y \<in> set xs"
    using that Cons.prems lt_trans lt_not_same by (metis sorted_wrt.simps(2))
  ultimately show ?case
    using Cons by (auto simp: same_def)
qed simp

lemma find_None:
  "ordered kf xs \<Longrightarrow> set_find lt kf k xs = None \<longleftrightarrow> (\<forall>y\<in>set xs. \<not> same (kf y) k)"
  using find_Some [of kf xs k] by (cases "set_find lt kf k xs") auto

lemma insert_set:
  "ordered kf xs \<Longrightarrow> set (snd (set_insert lt kf x xs)) =
     (if set_find lt kf (kf x) xs = None then insert x (set xs) else set xs)"
  by (induction xs) (auto split: prod.splits)

lemma insert_fst: "fst (set_insert lt kf x xs) \<longleftrightarrow> set_find lt kf (kf x) xs = None"
  by (induction xs) (auto split: prod.splits)

lemma insert_same: "set_find lt kf (kf x) xs \<noteq> None \<Longrightarrow> snd (set_insert lt kf x xs) = xs"
  by (induction xs) (auto split: prod.splits if_splits)

lemma insert_subset: "set (snd (set_insert lt kf x xs)) \<subseteq> insert x (set xs)"
  by (induction xs) (auto split: prod.splits)

lemma insert_ordered: "ordered kf xs \<Longrightarrow> ordered kf (snd (set_insert lt kf x xs))"
proof (induction xs)
  case (Cons y ys)
  from insert_subset [of kf x ys] Cons show ?case
    by (auto split: prod.splits intro: lt_trans)
qed simp

lemma erase_set:
  "ordered kf xs \<Longrightarrow> set (set_erase lt kf k xs) = {y \<in> set xs. \<not> same (kf y) k}"
proof (induction xs)
  case (Cons x xs)
  have "\<not> same (kf y) k" if "lt k (kf x) \<or> same (kf x) k" "y \<in> set xs" for y
    using that Cons.prems lt_trans lt_not_same same_lt same_sym by (metis sorted_wrt.simps(2))
  with Cons show ?case by (auto simp: same_def)
qed simp

lemma erase_subset: "set (set_erase lt kf k xs) \<subseteq> set xs"
  by (induction xs) auto

lemma erase_ordered: "ordered kf xs \<Longrightarrow> ordered kf (set_erase lt kf k xs)"
proof (induction xs)
  case (Cons y ys)
  from erase_subset [of kf k ys] Cons show ?case by auto
qed simp

lemma update_keys: "(\<And>y. kf (g y) = kf y) \<Longrightarrow> map kf (set_update lt kf k g xs) = map kf xs"
  by (induction xs) auto

lemma update_set:
  "ordered kf xs \<Longrightarrow>
     set (set_update lt kf k g xs) = (\<lambda>y. if same (kf y) k then g y else y) ` set xs"
proof (induction xs)
  case (Cons x xs)
  have far: "\<not> same (kf y) k" if "lt k (kf x) \<or> same (kf x) k" "y \<in> set xs" for y
    using that Cons.prems lt_trans lt_not_same same_lt same_sym by (metis sorted_wrt.simps(2))
  have "(\<lambda>y. if same (kf y) k then g y else y) ` set xs = set xs" if "lt k (kf x) \<or> same (kf x) k"
    using far [OF that] by auto
  with Cons show ?case by (auto simp: same_def)
qed simp

end

interpretation key_order: strict_weak "\<lambda>a b. key a < (key b :: 'k :: linorder)" for key
  by unfold_locales auto

lemma same_key [simp]:
  "strict_weak.same (\<lambda>a b. k a < (k b :: 'k :: linorder)) a b \<longleftrightarrow> k a = k b"
  by (auto simp: key_order.same_def)

end
