(* ===== verification/College.thy ===== *)
theory College
  imports Ordered Cpp_Std "HOL-Library.List_Lexorder" "HOL-Library.Char_ord"
begin

text \<open>
  The college of \<open>project5/college.h\<close>. Courses and people live behind shared pointers, so they
  are kept in a heap of objects by address, and the containers of the college, of a student
  and of a teacher hold addresses. Names are constant. A pointer argument is one that points
  to an object (the methods read it without a test). Strings compare byte by byte, which is
  the lexicographic order of the character lists.
\<close>

section \<open>Objects\<close>

record course =
  cname :: string
  cactive :: bool

datatype kind = Student | Teacher | PhDStudent

record person =
  kind_of :: kind
  pname :: string
  surname :: string
  sactive :: bool
  student_courses :: "addr list"
  teacher_courses :: "addr list"

record heap =
  course_at :: "addr \<Rightarrow> course"
  person_at :: "addr \<Rightarrow> person"
  next_course :: addr
  next_person :: addr

definition is_student :: "person \<Rightarrow> bool" where
  "is_student p \<longleftrightarrow> kind_of p = Student \<or> kind_of p = PhDStudent"

definition is_teacher :: "person \<Rightarrow> bool" where
  "is_teacher p \<longleftrightarrow> kind_of p = Teacher \<or> kind_of p = PhDStudent"

definition CourseComparator :: "heap \<Rightarrow> addr \<Rightarrow> addr \<Rightarrow> bool" where
  "CourseComparator h a b \<longleftrightarrow> cname (course_at h a) < cname (course_at h b)"

definition PersonComparator :: "heap \<Rightarrow> addr \<Rightarrow> addr \<Rightarrow> bool" where
  "PersonComparator h a b \<longleftrightarrow>
     (if surname (person_at h a) \<noteq> surname (person_at h b)
      then surname (person_at h a) < surname (person_at h b)
      else pname (person_at h a) < pname (person_at h b))"

type_synonym course_entry = "addr \<times> addr list \<times> addr list"

record college =
  people :: "addr list"
  courses :: "course_entry list"

definition college_new :: college where
  "college_new = \<lparr>people = [], courses = []\<rparr>"

section \<open>Patterns\<close>

fun match :: "string \<Rightarrow> string \<Rightarrow> bool" where
  "match check [] = (check = [])"
| "match check (p # ps) =
     (if p = CHR ''*'' \<and> list_ex (\<lambda>i. match (drop i check) ps) [0..<length check + 1] then True
      else case check of [] \<Rightarrow> False | c # cs \<Rightarrow> (p = CHR ''?'' \<or> p = c) \<and> match cs ps)"

section \<open>Courses\<close>

definition add_course :: "heap \<Rightarrow> college \<Rightarrow> string \<Rightarrow> bool \<Rightarrow> bool \<times> heap \<times> college" where
  "add_course h c name active =
     (let a = next_course h;
          h1 = h\<lparr>course_at := (course_at h)(a := \<lparr>cname = name, cactive = active\<rparr>), next_course := a + 1\<rparr>;
          (inserted, cs) = set_insert (CourseComparator h1) fst (a, [], []) (courses c)
      in (inserted, h1, c\<lparr>courses := cs\<rparr>))"

definition find_courses :: "heap \<Rightarrow> college \<Rightarrow> string \<Rightarrow> addr list" where
  "find_courses h c pattern =
     map fst (filter (\<lambda>e. match (cname (course_at h (fst e))) pattern) (courses c))"

definition set_course_active :: "heap \<Rightarrow> addr \<Rightarrow> bool \<Rightarrow> heap" where
  "set_course_active h a active =
     h\<lparr>course_at := (course_at h)(a := (course_at h a)\<lparr>cactive := active\<rparr>)\<rparr>"

definition change_course_activeness ::
    "heap \<Rightarrow> college \<Rightarrow> addr \<Rightarrow> bool \<Rightarrow> bool \<times> heap \<times> college" where
  "change_course_activeness h c crs active =
     (case set_find (CourseComparator h) fst crs (courses c) of
        None \<Rightarrow> (False, h, c)
      | Some it \<Rightarrow> if fst it = crs then (True, set_course_active h (fst it) active, c)
                   else (False, h, c))"

definition remove_course :: "heap \<Rightarrow> college \<Rightarrow> addr \<Rightarrow> bool \<times> heap \<times> college" where
  "remove_course h c crs =
     (case set_find (CourseComparator h) fst crs (courses c) of
        None \<Rightarrow> (False, h, c)
      | Some it \<Rightarrow>
          (True, set_course_active h (fst it) False,
           c\<lparr>courses := set_erase (CourseComparator h) fst crs (courses c)\<rparr>))"

section \<open>People\<close>

text \<open>A teacher has no flag of activity; the model sets it and nothing reads it.\<close>

definition add_person ::
    "kind \<Rightarrow> heap \<Rightarrow> college \<Rightarrow> string \<Rightarrow> string \<Rightarrow> bool \<Rightarrow> bool \<times> heap \<times> college" where
  "add_person T h c name sname active =
     (let a = next_person h;
          h1 = h\<lparr>person_at := (person_at h)(a := \<lparr>kind_of = T, pname = name, surname = sname,
                   sactive = active, student_courses = [], teacher_courses = []\<rparr>), next_person := a + 1\<rparr>;
          (inserted, ps) = set_insert (PersonComparator h1) (\<lambda>x. x) a (people c)
      in (inserted, h1, c\<lparr>people := ps\<rparr>))"

definition change_student_activeness ::
    "heap \<Rightarrow> college \<Rightarrow> addr \<Rightarrow> bool \<Rightarrow> bool \<times> heap \<times> college" where
  "change_student_activeness h c student active =
     (case set_find (PersonComparator h) (\<lambda>x. x) student (people c) of
        None \<Rightarrow> (False, h, c)
      | Some it \<Rightarrow>
          if it = student \<and> is_student (person_at h it)
          then (True, h\<lparr>person_at := (person_at h)(it := (person_at h it)\<lparr>sactive := active\<rparr>)\<rparr>, c)
          else (False, h, c))"

text \<open>The type argument of \<open>find\<close> with patterns, and the cast to it.\<close>

datatype ptype = APerson | AStudent | ATeacher | APhDStudent

fun has_type :: "ptype \<Rightarrow> person \<Rightarrow> bool" where
  "has_type APerson p = True"
| "has_type AStudent p = is_student p"
| "has_type ATeacher p = is_teacher p"
| "has_type APhDStudent p = (kind_of p = PhDStudent)"

definition find_people :: "ptype \<Rightarrow> heap \<Rightarrow> college \<Rightarrow> string \<Rightarrow> string \<Rightarrow> addr list" where
  "find_people T h c name_pattern surname_pattern =
     filter (\<lambda>a. match (pname (person_at h a)) name_pattern \<and>
                 match (surname (person_at h a)) surname_pattern \<and> has_type T (person_at h a))
       (people c)"

section \<open>Enrolment\<close>

datatype role = Learns | Leads

text \<open>The two instances of \<open>find\<close> and \<open>assign_course\<close>, for students and for teachers.\<close>

definition members :: "role \<Rightarrow> course_entry \<Rightarrow> addr list" where
  "members r e = (case r of Learns \<Rightarrow> fst (snd e) | Leads \<Rightarrow> snd (snd e))"

definition set_members :: "role \<Rightarrow> addr list \<Rightarrow> course_entry \<Rightarrow> course_entry" where
  "set_members r ps e =
     (case r of Learns \<Rightarrow> (fst e, ps, snd (snd e)) | Leads \<Rightarrow> (fst e, fst (snd e), ps))"

definition get_courses :: "role \<Rightarrow> person \<Rightarrow> addr list" where
  "get_courses r p = (case r of Learns \<Rightarrow> student_courses p | Leads \<Rightarrow> teacher_courses p)"

definition put_courses :: "role \<Rightarrow> addr list \<Rightarrow> person \<Rightarrow> person" where
  "put_courses r cs p =
     (case r of Learns \<Rightarrow> p\<lparr>student_courses := cs\<rparr> | Leads \<Rightarrow> p\<lparr>teacher_courses := cs\<rparr>)"

definition find_members :: "role \<Rightarrow> heap \<Rightarrow> college \<Rightarrow> addr \<Rightarrow> addr list" where
  "find_members r h c crs =
     (case set_find (CourseComparator h) fst crs (courses c) of
        None \<Rightarrow> []
      | Some it \<Rightarrow> if fst it \<noteq> crs then [] else members r it)"

definition assign_course ::
    "role \<Rightarrow> heap \<Rightarrow> college \<Rightarrow> addr \<Rightarrow> addr \<Rightarrow> (bool \<times> heap \<times> college) throws" where
  "assign_course r h c person crs =
     (if \<not> cactive (course_at h crs)
      then Inl (Logic_error ''Incorrect operation on an inactive course.'')
      else case set_find (CourseComparator h) fst crs (courses c) of
        None \<Rightarrow> Inl (Logic_error ''Non-existing course.'')
      | Some course_it \<Rightarrow>
          if fst course_it \<noteq> crs then Inl (Logic_error ''Non-existing course.'')
          else case set_find (PersonComparator h) (\<lambda>x. x) person (people c) of
            None \<Rightarrow> Inl (Logic_error ''Non-existing person.'')
          | Some person_it \<Rightarrow>
              if person_it \<noteq> person then Inl (Logic_error ''Non-existing person.'')
              else if r = Learns \<and> \<not> sactive (person_at h person)
              then Inl (Logic_error ''Incorrect operation for an inactive student.'')
              else
                (let (inserted, cs) =
                       set_insert (CourseComparator h) (\<lambda>x. x) crs (get_courses r (person_at h person));
                     h1 = h\<lparr>person_at := (person_at h)(person := put_courses r cs (person_at h person))\<rparr>;
                     join = (\<lambda>e. set_members r
                       (snd (set_insert (PersonComparator h) (\<lambda>x. x) person (members r e))) e)
                 in Inr (inserted, h1,
                      c\<lparr>courses := set_update (CourseComparator h) fst crs join (courses c)\<rparr>)))"

end
