(* ===== verification/College_Inv.thy ===== *)
theory College_Inv
  imports College "HOL-Library.Product_Lexorder"
begin

text \<open>
  The calls on a college as steps, the states that sequences of calls reach, and the invariant
  of the college: names are keys of the courses and of the people, whoever is listed with a
  course is a person of the college in the right role and has a course of that name.
\<close>

section \<open>Comparators are orders of keys\<close>

definition ckey :: "heap \<Rightarrow> addr \<Rightarrow> string" where
  "ckey h a = cname (course_at h a)"

definition pkey :: "heap \<Rightarrow> addr \<Rightarrow> string \<times> string" where
  "pkey h a = (surname (person_at h a), pname (person_at h a))"

lemma CourseComparator_key: "CourseComparator h = (\<lambda>a b. ckey h a < ckey h b)"
  by (simp add: fun_eq_iff CourseComparator_def ckey_def)

lemma PersonComparator_key: "PersonComparator h = (\<lambda>a b. pkey h a < pkey h b)"
  by (auto simp: fun_eq_iff PersonComparator_def pkey_def)

lemmas comparator_keys = CourseComparator_key PersonComparator_key

text \<open>The containers, with the comparators as orders of keys.\<close>

lemmas keyed =
  key_order.find_Some key_order.find_None key_order.insert_set key_order.insert_fst
  key_order.insert_ordered key_order.erase_set key_order.erase_ordered key_order.update_set

definition sorted_by :: "('a \<Rightarrow> 'k :: linorder) \<Rightarrow> 'a list \<Rightarrow> bool" where
  "sorted_by k xs \<longleftrightarrow> sorted_wrt (\<lambda>a b. k a < k b) xs"

lemma sorted_by_keys: "sorted_by k xs \<longleftrightarrow> sorted_wrt (<) (map k xs)"
  by (simp add: sorted_by_def sorted_wrt_map)

lemma sorted_by_map: "map k ys = map k' xs \<Longrightarrow> sorted_by k ys = sorted_by k' xs"
  by (simp add: sorted_by_keys)

lemma sorted_by_cong: "(\<And>x. x \<in> set xs \<Longrightarrow> k x = k' x) \<Longrightarrow> sorted_by k xs = sorted_by k' xs"
  by (rule sorted_by_map) simp

lemma sorted_by_unique:
  "sorted_by k xs \<Longrightarrow> x \<in> set xs \<Longrightarrow> y \<in> set xs \<Longrightarrow> k x = k y \<Longrightarrow> x = y"
  unfolding sorted_by_def by (rule key_order.ordered_unique [of k "\<lambda>x. x"]) simp_all

section \<open>The invariant\<close>

definition plays :: "role \<Rightarrow> person \<Rightarrow> bool" where
  "plays r p = (case r of Learns \<Rightarrow> is_student p | Leads \<Rightarrow> is_teacher p)"

definition enrolled_ok :: "heap \<Rightarrow> college \<Rightarrow> course_entry \<Rightarrow> role \<Rightarrow> bool" where
  "enrolled_ok h c e r \<longleftrightarrow>
     sorted_by (pkey h) (members r e) \<and>
     (\<forall>p\<in>set (members r e). p \<in> set (people c) \<and> plays r (person_at h p) \<and>
        ckey h (fst e) \<in> ckey h ` set (get_courses r (person_at h p)))"

text \<open>
  The other direction, by the course itself and not only by its name: a person whose own set holds a
  course of the college is listed with it. A removed course that stays in the set is not one of the college.
\<close>

definition own_listed :: "heap \<Rightarrow> college \<Rightarrow> bool" where
  "own_listed h c \<longleftrightarrow> (\<forall>p<next_person h. \<forall>r. \<forall>a\<in>set (get_courses r (person_at h p)).
     \<forall>e\<in>set (courses c). fst e = a \<longrightarrow> p \<in> set (members r e))"

definition person_ok :: "heap \<Rightarrow> person \<Rightarrow> bool" where
  "person_ok h p \<longleftrightarrow> (\<forall>r. sorted_by (ckey h) (get_courses r p) \<and>
     (\<forall>a\<in>set (get_courses r p). a < next_course h))"

definition college_inv :: "heap \<Rightarrow> college \<Rightarrow> bool" where
  "college_inv h c \<longleftrightarrow>
     sorted_by (\<lambda>e. ckey h (fst e)) (courses c) \<and> (\<forall>e\<in>set (courses c). fst e < next_course h) \<and>
     sorted_by (pkey h) (people c) \<and> (\<forall>a\<in>set (people c). a < next_person h) \<and>
     (\<forall>e\<in>set (courses c). \<forall>r. enrolled_ok h c e r) \<and>
     (\<forall>a<next_person h. person_ok h (person_at h a))"

section \<open>Steps\<close>

text \<open>
  A program around the college can also make courses and people of its own and pass them to
  the methods (\<open>MakeCourse\<close>, \<open>MakePerson\<close>). The type of \<open>assign_course\<close> asks for a student
  or a teacher, which \<open>well_typed\<close> says.
\<close>

datatype call =
    AddCourse string bool
  | ChangeCourse addr bool
  | RemoveCourse addr
  | AddPerson kind string string bool
  | ChangeStudent addr bool
  | Assign role addr addr
  | MakeCourse string bool
  | MakePerson kind string string bool

fun well_typed :: "heap \<Rightarrow> call \<Rightarrow> bool" where
  "well_typed h (Assign r p a) = (p < next_person h \<and> plays r (person_at h p) \<and> a < next_course h)"
| "well_typed h (ChangeCourse a b) = (a < next_course h)"
| "well_typed h (RemoveCourse a) = (a < next_course h)"
| "well_typed h (ChangeStudent p b) = (p < next_person h)"
| "well_typed h _ = True"

definition make_course :: "heap \<Rightarrow> string \<Rightarrow> bool \<Rightarrow> heap" where
  "make_course h name active =
     h\<lparr>course_at := (course_at h)(next_course h := \<lparr>cname = name, cactive = active\<rparr>),
       next_course := next_course h + 1\<rparr>"

definition make_person :: "kind \<Rightarrow> heap \<Rightarrow> string \<Rightarrow> string \<Rightarrow> bool \<Rightarrow> heap" where
  "make_person T h name sname active =
     h\<lparr>person_at := (person_at h)(next_person h := \<lparr>kind_of = T, pname = name, surname = sname,
         sactive = active, student_courses = [], teacher_courses = []\<rparr>), next_person := next_person h + 1\<rparr>"

definition ok_result :: "bool \<times> heap \<times> college \<Rightarrow> bool throws \<times> heap \<times> college" where
  "ok_result = (\<lambda>(b, h, c). (Inr b, h, c))"

fun step :: "call \<Rightarrow> heap \<times> college \<Rightarrow> bool throws \<times> heap \<times> college" where
  "step (AddCourse n b) (h, c) = ok_result (add_course h c n b)"
| "step (ChangeCourse a b) (h, c) = ok_result (change_course_activeness h c a b)"
| "step (RemoveCourse a) (h, c) = ok_result (remove_course h c a)"
| "step (AddPerson T n s b) (h, c) = ok_result (add_person T h c n s b)"
| "step (ChangeStudent p b) (h, c) = ok_result (change_student_activeness h c p b)"
| "step (Assign r p a) (h, c) =
     (case assign_course r h c p a of Inl e \<Rightarrow> (Inl e, h, c) | Inr (b, s) \<Rightarrow> (Inr b, s))"
| "step (MakeCourse n b) (h, c) = (Inr True, make_course h n b, c)"
| "step (MakePerson T n s b) (h, c) = (Inr True, make_person T h n s b, c)"

inductive steps :: "heap \<times> college \<Rightarrow> heap \<times> college \<Rightarrow> bool" where
  steps_refl: "steps s s"
| steps_step: "steps s (h, c) \<Longrightarrow> well_typed h cl \<Longrightarrow> step cl (h, c) = (r, s') \<Longrightarrow> steps s s'"

definition empty_heap :: heap where
  "empty_heap = \<lparr>course_at = \<lambda>_. \<lparr>cname = [], cactive = False\<rparr>,
     person_at = \<lambda>_. \<lparr>kind_of = Student, pname = [], surname = [], sactive = False,
       student_courses = [], teacher_courses = []\<rparr>, next_course = 0, next_person = 0\<rparr>"

definition reachable :: "heap \<Rightarrow> college \<Rightarrow> bool" where
  "reachable h c \<longleftrightarrow> steps (empty_heap, college_new) (h, c)"

section \<open>Frames\<close>

text \<open>No step changes a name or a kind.\<close>

definition names_kept :: "heap \<Rightarrow> heap \<Rightarrow> bool" where
  "names_kept h h' \<longleftrightarrow> next_course h \<le> next_course h' \<and> next_person h \<le> next_person h' \<and>
     (\<forall>a<next_course h. ckey h' a = ckey h a) \<and>
     (\<forall>a<next_person h. pkey h' a = pkey h a \<and>
        kind_of (person_at h' a) = kind_of (person_at h a))"

lemma enrolled_ok_frame:
  assumes "enrolled_ok h c e r" and "names_kept h h'"
    and "fst e < next_course h" "\<forall>a\<in>set (people c). a < next_person h"
    and "\<forall>p\<in>set (members r e). set (get_courses r (person_at h p)) \<subseteq> set (get_courses r (person_at h' p)) \<and>
           (\<forall>a\<in>set (get_courses r (person_at h p)). a < next_course h)"
    and "set (people c) \<subseteq> set (people c')"
  shows "enrolled_ok h' c' e r"
proof -
  have p: "p < next_person h" if "p \<in> set (members r e)" for p
    using that assms(1,4) by (auto simp: enrolled_ok_def)
  then have "sorted_by (pkey h') (members r e)"
    using assms(1,2) sorted_by_cong [of "members r e" "pkey h" "pkey h'"]
    by (simp add: enrolled_ok_def names_kept_def)
  moreover have "ckey h' (fst e) \<in> ckey h' ` set (get_courses r (person_at h' p))"
    if pm: "p \<in> set (members r e)" for p
  proof -
    from assms(1) pm obtain a where a: "a \<in> set (get_courses r (person_at h p))" "ckey h (fst e) = ckey h a"
      by (auto simp: enrolled_ok_def)
    with assms(2,3,5) pm have "ckey h' a = ckey h' (fst e)" "a \<in> set (get_courses r (person_at h' p))"
      by (auto simp: names_kept_def)
    then show ?thesis by (metis imageI)
  qed
  ultimately show ?thesis
    using assms(1,2,6) p unfolding enrolled_ok_def names_kept_def plays_def is_student_def is_teacher_def
    by (auto split: role.splits)
qed

lemma person_ok_frame:
  assumes "person_ok h p" "names_kept h h'" "\<And>r. get_courses r p' = get_courses r p"
  shows "person_ok h' p'"
proof -
  have "sorted_by (ckey h') (get_courses r p)" for r
    using assms(1,2) sorted_by_cong [of "get_courses r p" "ckey h" "ckey h'"]
    by (simp add: person_ok_def names_kept_def)
  then show ?thesis using assms by (fastforce simp: person_ok_def names_kept_def)
qed

lemma sorted_courses_frame:
  assumes "names_kept h h'" "\<forall>e\<in>set es. fst e < next_course h"
  shows "sorted_by (\<lambda>e. ckey h' (fst e)) es = sorted_by (\<lambda>e. ckey h (fst e)) es"
  by (rule sorted_by_cong) (use assms in \<open>auto simp: names_kept_def\<close>)

lemma sorted_people_frame:
  assumes "names_kept h h'" "\<forall>a\<in>set ps. a < next_person h"
  shows "sorted_by (pkey h') ps = sorted_by (pkey h) ps"
  by (rule sorted_by_cong) (use assms in \<open>auto simp: names_kept_def\<close>)

end
