(* ===== verification/College_Props.thy ===== *)
theory College_Props
  imports College_Inv
begin

text \<open>
  The invariant of the college over all sequences of calls, what each enrolment does, the
  meaning of patterns, and one case in which the code's two records of an enrolment differ.
\<close>

section \<open>Every call keeps the invariant\<close>

lemma get_put [simp]:
  "get_courses r (put_courses r' cs p) = (if r = r' then cs else get_courses r p)"
  by (cases r; cases r') (simp_all add: get_courses_def put_courses_def)

lemma put_fields [simp]:
  "pname (put_courses r cs p) = pname p" "surname (put_courses r cs p) = surname p"
  "kind_of (put_courses r cs p) = kind_of p" "sactive (put_courses r cs p) = sactive p"
  by (cases r; simp add: put_courses_def)+

lemma members_set [simp]:
  "members r (set_members r' ps e) = (if r = r' then ps else members r e)"
  "fst (set_members r' ps e) = fst e"
  by (cases r; cases r'; simp add: members_def set_members_def)+

lemma inv_frame:
  assumes inv: "college_inv h c" and names: "names_kept h h'"
    and more: "\<And>a r. a < next_person h \<Longrightarrow>
      set (get_courses r (person_at h a)) \<subseteq> set (get_courses r (person_at h' a))"
    and pok: "\<And>a. a < next_person h' \<Longrightarrow> person_ok h' (person_at h' a)"
    and ps: "set (people c) \<subseteq> set (people c')" "sorted_by (pkey h') (people c')"
      "\<forall>a\<in>set (people c'). a < next_person h'"
    and cs: "sorted_by (\<lambda>e. ckey h' (fst e)) (courses c')" "\<forall>e\<in>set (courses c'). fst e < next_course h'"
    and new: "\<And>e r. e \<in> set (courses c') \<Longrightarrow> e \<notin> set (courses c) \<Longrightarrow> enrolled_ok h' c' e r"
  shows "college_inv h' c'"
proof -
  have "enrolled_ok h' c' e r" if e: "e \<in> set (courses c)" for e r
  proof (rule enrolled_ok_frame [OF _ names])
    show ok: "enrolled_ok h c e r" using inv e by (simp add: college_inv_def)
    show "fst e < next_course h" "\<forall>a\<in>set (people c). a < next_person h" using inv e by (auto simp: college_inv_def)
    then show "\<forall>p\<in>set (members r e). set (get_courses r (person_at h p)) \<subseteq> set (get_courses r (person_at h' p)) \<and>
        (\<forall>a\<in>set (get_courses r (person_at h p)). a < next_course h)"
      using more inv ok unfolding college_inv_def enrolled_ok_def person_ok_def by (meson subsetI)
    show "set (people c) \<subseteq> set (people c')" by fact
  qed
  with new have "enrolled_ok h' c' e r" if "e \<in> set (courses c')" for e r
    using that by blast
  with pok ps cs show ?thesis by (simp add: college_inv_def)
qed

text \<open>Changes of the heap alone.\<close>

lemma inv_heap:
  assumes inv: "college_inv h c" and names: "names_kept h h'"
    and more: "\<And>a r. a < next_person h \<Longrightarrow> get_courses r (person_at h' a) = get_courses r (person_at h a)"
    and new: "\<And>a r. next_person h \<le> a \<Longrightarrow> a < next_person h' \<Longrightarrow> get_courses r (person_at h' a) = []"
  shows "college_inv h' c"
proof (rule inv_frame [OF inv names])
  have old: "\<forall>a\<in>set (people c). a < next_person h" "\<forall>e\<in>set (courses c). fst e < next_course h"
    using inv by (auto simp: college_inv_def)
  show "person_ok h' (person_at h' a)" if "a < next_person h'" for a
  proof (cases "a < next_person h")
    case True
    then have "person_ok h (person_at h a)" using inv by (simp add: college_inv_def)
    then show ?thesis by (rule person_ok_frame [OF _ names]) (simp add: more True)
  next
    case False
    with new that show ?thesis by (simp add: person_ok_def sorted_by_def)
  qed
  show "sorted_by (pkey h') (people c)" "sorted_by (\<lambda>e. ckey h' (fst e)) (courses c)"
    using inv sorted_people_frame [OF names old(1)] sorted_courses_frame [OF names old(2)]
    by (simp_all add: college_inv_def)
  show "\<forall>a\<in>set (people c). a < next_person h'" "\<forall>e\<in>set (courses c). fst e < next_course h'"
    using old names by (auto simp: names_kept_def)
qed (use more in auto)

lemma make_inv:
  "college_inv h c \<Longrightarrow> college_inv (make_course h n b) c"
  "college_inv h c \<Longrightarrow> college_inv (make_person T h n s b) c"
  by (erule inv_heap; auto simp: names_kept_def make_course_def make_person_def ckey_def pkey_def
      get_courses_def split: role.splits)+

lemma active_inv: "college_inv h c \<Longrightarrow> college_inv (set_course_active h a b) c"
  by (erule inv_heap) (auto simp: names_kept_def set_course_active_def ckey_def pkey_def)

lemma add_course_make:
  "add_course h c n b =
     (let r = set_insert (CourseComparator (make_course h n b)) fst (next_course h, [], []) (courses c)
      in (fst r, make_course h n b, c\<lparr>courses := snd r\<rparr>))"
  by (simp add: add_course_def make_course_def Let_def split_beta)

lemma add_person_make:
  "add_person T h c n s b =
     (let r = set_insert (PersonComparator (make_person T h n s b)) (\<lambda>x. x) (next_person h) (people c)
      in (fst r, make_person T h n s b, c\<lparr>people := snd r\<rparr>))"
  by (simp add: add_person_def make_person_def Let_def split_beta)

lemma add_course_inv:
  assumes "college_inv h c"
  shows "college_inv (make_course h n b) (snd (snd (add_course h c n b)))"
proof -
  define h' where "h' = make_course h n b"
  have inv: "college_inv h' c" unfolding h'_def by (rule make_inv(1) [OF assms])
  have lt: "next_course h < next_course h'" by (simp add: h'_def make_course_def)
  define cs where "cs = snd (set_insert (CourseComparator h') fst (next_course h, [], []) (courses c))"
  have sorted: "sorted_wrt (\<lambda>e f. ckey h' (fst e) < ckey h' (fst f)) (courses c)"
    using inv by (simp add: college_inv_def sorted_by_def)
  have cs: "set cs \<subseteq> insert (next_course h, [], []) (set (courses c))"
    "sorted_by (\<lambda>e. ckey h' (fst e)) cs"
    using key_order.insert_subset [of "ckey h'" fst "(next_course h, [], [])" "courses c"]
      key_order.insert_ordered [where key = "ckey h'" and kf = fst, OF sorted] by (auto simp: cs_def CourseComparator_key sorted_by_def)
  have "college_inv h' (c\<lparr>courses := cs\<rparr>)"
  proof (rule inv_frame [OF inv])
    show "names_kept h' h'" by (simp add: names_kept_def)
    show "\<forall>e\<in>set (courses (c\<lparr>courses := cs\<rparr>)). fst e < next_course h'"
      using cs(1) lt inv by (auto simp: college_inv_def)
    show "enrolled_ok h' (c\<lparr>courses := cs\<rparr>) e r"
      if "e \<in> set (courses (c\<lparr>courses := cs\<rparr>))" "e \<notin> set (courses c)" for e r
      using that cs(1) by (cases r) (auto simp: enrolled_ok_def members_def sorted_by_def)
  qed (use inv cs(2) in \<open>auto simp: college_inv_def\<close>)
  then show ?thesis by (simp add: add_course_make Let_def cs_def h'_def)
qed

lemma add_person_inv:
  assumes "college_inv h c"
  shows "college_inv (make_person T h n s b) (snd (snd (add_person T h c n s b)))"
proof -
  define h' where "h' = make_person T h n s b"
  have inv: "college_inv h' c" unfolding h'_def by (rule make_inv(2) [OF assms])
  have lt: "next_person h < next_person h'" by (simp add: h'_def make_person_def)
  define ps where "ps = snd (set_insert (PersonComparator h') (\<lambda>x. x) (next_person h) (people c))"
  have sorted: "sorted_wrt (\<lambda>a b. pkey h' a < pkey h' b) (people c)"
    using inv by (simp add: college_inv_def sorted_by_def)
  have ps: "set (people c) \<subseteq> set ps" "set ps \<subseteq> insert (next_person h) (set (people c))"
    "sorted_by (pkey h') ps"
    using key_order.insert_subset [of "pkey h'" "\<lambda>x. x" "next_person h" "people c"]
      key_order.insert_ordered [where key = "pkey h'" and kf = "\<lambda>x. x", OF sorted]
      key_order.insert_set [where key = "pkey h'" and kf = "\<lambda>x. x", OF sorted]
    by (auto simp: ps_def PersonComparator_key sorted_by_def)
  have "college_inv h' (c\<lparr>people := ps\<rparr>)"
  proof (rule inv_frame [OF inv])
    show "names_kept h' h'" by (simp add: names_kept_def)
    show "\<forall>a\<in>set (people (c\<lparr>people := ps\<rparr>)). a < next_person h'"
      using ps(2) lt inv by (auto simp: college_inv_def)
  qed (use inv ps in \<open>auto simp: college_inv_def\<close>)
  then show ?thesis by (simp add: add_person_make Let_def ps_def h'_def)
qed

lemma remove_course_inv:
  assumes "college_inv h c"
  shows "college_inv (fst (snd (remove_course h c a))) (snd (snd (remove_course h c a)))"
proof (cases "set_find (CourseComparator h) fst a (courses c)")
  case None
  with assms show ?thesis by (simp add: remove_course_def)
next
  case (Some it)
  define h' where "h' = set_course_active h (fst it) False"
  have inv: "college_inv h' c" unfolding h'_def by (rule active_inv [OF assms])
  have key: "CourseComparator h = (\<lambda>a b. ckey h' a < ckey h' b)"
    by (simp add: CourseComparator_key ckey_def h'_def set_course_active_def fun_eq_iff)
  have sorted: "sorted_wrt (\<lambda>e f. ckey h' (fst e) < ckey h' (fst f)) (courses c)"
    using inv by (simp add: college_inv_def sorted_by_def)
  define cs where "cs = set_erase (CourseComparator h) fst a (courses c)"
  have cs: "set cs \<subseteq> set (courses c)" "sorted_by (\<lambda>e. ckey h' (fst e)) cs"
    using key_order.erase_subset [of "ckey h'" fst a "courses c"] 
      key_order.erase_ordered [where key = "ckey h'" and kf = fst, OF sorted]
    by (auto simp: cs_def key sorted_by_def)
  have "college_inv h' (c\<lparr>courses := cs\<rparr>)"
  proof (rule inv_frame [OF inv])
    show "names_kept h' h'" by (simp add: names_kept_def)
  qed (use inv cs in \<open>auto simp: college_inv_def\<close>)
  then show ?thesis using Some by (simp add: remove_course_def cs_def h'_def)
qed

section \<open>Enrolment\<close>

lemma inv_sorted:
  assumes "college_inv h c"
  shows "sorted_wrt (\<lambda>e f. ckey h (fst e) < ckey h (fst f)) (courses c)"
    and "sorted_wrt (\<lambda>a b. pkey h a < pkey h b) (people c)"
  using assms by (simp_all add: college_inv_def sorted_by_def)

lemma found_course:
  assumes "college_inv h c"
  shows "set_find (CourseComparator h) fst a (courses c) = Some e \<longleftrightarrow>
     e \<in> set (courses c) \<and> ckey h (fst e) = ckey h a"
  using key_order.find_Some [where key = "ckey h" and kf = fst, OF inv_sorted(1) [OF assms]]
  by (simp add: CourseComparator_key)

lemma found_person:
  assumes "college_inv h c"
  shows "set_find (PersonComparator h) (\<lambda>x. x) p (people c) = Some q \<longleftrightarrow>
     q \<in> set (people c) \<and> pkey h q = pkey h p"
  using key_order.find_Some [where key = "pkey h" and kf = "\<lambda>x. x", OF inv_sorted(2) [OF assms]]
  by (simp add: PersonComparator_key)

lemma course_unique:
  "college_inv h c \<Longrightarrow> e \<in> set (courses c) \<Longrightarrow> f \<in> set (courses c) \<Longrightarrow>
     ckey h (fst e) = ckey h (fst f) \<Longrightarrow> e = f"
  using sorted_by_unique [of "\<lambda>e. ckey h (fst e)" "courses c" e f] by (simp add: college_inv_def)

lemma find_members_at:
  assumes "college_inv h c"
  shows "find_members r h c a =
     (case find (\<lambda>e. fst e = a) (courses c) of None \<Rightarrow> [] | Some e \<Rightarrow> members r e)"
proof (cases "find (\<lambda>e. fst e = a) (courses c)")
  case None
  then have "\<forall>e\<in>set (courses c). fst e \<noteq> a" by (auto simp: find_None_iff)
  then show ?thesis
    using None found_course [OF assms, of a]
    by (auto simp: find_members_def split: option.split)
next
  case (Some e)
  then have "e \<in> set (courses c)" "fst e = a"
    by (auto simp: find_Some_iff)
  then have "set_find (CourseComparator h) fst a (courses c) = Some e"
    using found_course [OF assms] by simp
  with Some \<open>fst e = a\<close> show ?thesis by (simp add: find_members_def)
qed

text \<open>The heap and the courses after an enrolment that passes the checks.\<close>

definition enrol_heap :: "role \<Rightarrow> heap \<Rightarrow> addr \<Rightarrow> addr \<Rightarrow> heap" where
  "enrol_heap r h p a =
     h\<lparr>person_at := (person_at h)(p := put_courses r
         (snd (set_insert (CourseComparator h) (\<lambda>x. x) a (get_courses r (person_at h p)))) (person_at h p))\<rparr>"

definition enrol_entry :: "role \<Rightarrow> heap \<Rightarrow> addr \<Rightarrow> course_entry \<Rightarrow> course_entry" where
  "enrol_entry r h p e =
     set_members r (snd (set_insert (PersonComparator h) (\<lambda>x. x) p (members r e))) e"

definition enrol :: "role \<Rightarrow> heap \<Rightarrow> college \<Rightarrow> addr \<Rightarrow> addr \<Rightarrow> college" where
  "enrol r h c p a =
     c\<lparr>courses := map (\<lambda>e. if fst e = a then enrol_entry r h p e else e) (courses c)\<rparr>"

definition assign_error :: "role \<Rightarrow> heap \<Rightarrow> college \<Rightarrow> addr \<Rightarrow> addr \<Rightarrow> exn option" where
  "assign_error r h c p a =
     (if \<not> cactive (course_at h a) then Some (Logic_error ''Incorrect operation on an inactive course.'')
      else if a \<notin> fst ` set (courses c) then Some (Logic_error ''Non-existing course.'')
      else if p \<notin> set (people c) then Some (Logic_error ''Non-existing person.'')
      else if r = Learns \<and> \<not> sactive (person_at h p)
      then Some (Logic_error ''Incorrect operation for an inactive student.'')
      else None)"

lemma update_entry:
  assumes "sorted_by (\<lambda>e. ckey h (fst e)) es" and "a \<in> fst ` set es"
  shows "set_update (CourseComparator h) fst a g es = map (\<lambda>e. if fst e = a then g e else e) es"
  using assms
proof (induction es)
  case (Cons e es)
  have gt: "ckey h (fst e) < ckey h (fst f)" if "f \<in> set es" for f
    using that Cons.prems(1) by (simp add: sorted_by_def)
  show ?case
  proof (cases "fst e = a")
    case True
    have "map (\<lambda>e. if fst e = a then g e else e) es = es"
      using gt True by (intro map_idI) fastforce
    with True show ?thesis by (simp add: CourseComparator_key)
  next
    case False
    with Cons.prems(2) gt have "ckey h (fst e) < ckey h a" "a \<in> fst ` set es" by auto
    with Cons False show ?thesis by (simp add: CourseComparator_key sorted_by_def)
  qed
qed simp

lemma assign_course_cases:
  assumes inv: "college_inv h c"
  shows "assign_course r h c p a =
     (case assign_error r h c p a of
        Some x \<Rightarrow> Inl x
      | None \<Rightarrow> Inr (fst (set_insert (CourseComparator h) (\<lambda>x. x) a (get_courses r (person_at h p))),
                  enrol_heap r h p a, enrol r h c p a))"
proof (cases "assign_error r h c p a")
  case None
  then obtain e where act: "cactive (course_at h a)" and e: "e \<in> set (courses c)" "fst e = a"
    and p: "p \<in> set (people c)" and st: "\<not> (r = Learns \<and> \<not> sactive (person_at h p))"
    by (auto simp: assign_error_def split: if_splits)
  have "set_find (CourseComparator h) fst a (courses c) = Some e"
    "set_find (PersonComparator h) (\<lambda>x. x) p (people c) = Some p"
    using e p found_course [OF inv] found_person [OF inv] by auto
  moreover have "set_update (CourseComparator h) fst a (enrol_entry r h p) (courses c) =
      courses (enrol r h c p a)"
    using update_entry [of h "courses c" a] inv e by (auto simp: enrol_def college_inv_def)
  ultimately show ?thesis
    using None act e st
    by (auto simp: assign_course_def enrol_heap_def enrol_def enrol_entry_def [abs_def] Let_def split_beta)
next
  case (Some x)
  have "a \<in> fst ` set (courses c) \<longleftrightarrow>
      (\<exists>e. set_find (CourseComparator h) fst a (courses c) = Some e \<and> fst e = a)"
    using found_course [OF inv, of a] by force
  moreover have "p \<in> set (people c) \<longleftrightarrow>
      set_find (PersonComparator h) (\<lambda>x. x) p (people c) = Some p"
    using found_person [OF inv, of p] by auto
  ultimately show ?thesis
    using Some by (auto simp: assign_error_def assign_course_def split: option.split if_splits)
qed

section \<open>The invariant after an enrolment\<close>

lemma assign_inv:
  assumes inv: "college_inv h c" and typed: "p < next_person h" "plays r (person_at h p)" "a < next_course h"
    and ok: "assign_error r h c p a = None"
  shows "college_inv (enrol_heap r h p a) (enrol r h c p a)"
proof -
  let ?h = "enrol_heap r h p a" and ?c = "enrol r h c p a"
  define cs where "cs = snd (set_insert (CourseComparator h) (\<lambda>x. x) a (get_courses r (person_at h p)))"
  have pc: "p \<in> set (people c)" using ok by (auto simp: assign_error_def split: if_splits)
  have h: "person_at ?h x = (if x = p then put_courses r cs (person_at h p) else person_at h x)"
    "course_at ?h = course_at h" "next_course ?h = next_course h" "next_person ?h = next_person h" for x
    by (simp_all add: enrol_heap_def cs_def)
  have keys: "ckey ?h = ckey h" "pkey ?h = pkey h"
    by (simp_all add: fun_eq_iff ckey_def pkey_def h)
  have names: "names_kept h ?h" by (simp add: names_kept_def keys h)
  have pok: "person_ok h (person_at h x)" if "x < next_person h" for x
    using inv that by (simp add: college_inv_def)
  have sorted: "sorted_wrt (\<lambda>x y. ckey h x < ckey h y) (get_courses r (person_at h p))"
    using pok [OF typed(1)] by (simp add: person_ok_def sorted_by_def)
  have cs: "sorted_by (ckey h) cs" "set (get_courses r (person_at h p)) \<subseteq> set cs"
    "set cs \<subseteq> insert a (set (get_courses r (person_at h p)))"
    using key_order.insert_ordered [where key = "ckey h" and kf = "\<lambda>x. x", OF sorted]
      key_order.insert_set [where key = "ckey h" and kf = "\<lambda>x. x", OF sorted]
      key_order.insert_subset [of "ckey h" "\<lambda>x. x"]
    by (auto simp: cs_def CourseComparator_key sorted_by_def)
  have named: "ckey h a \<in> ckey h ` set cs"
  proof (cases "set_find (CourseComparator h) (\<lambda>x. x) a (get_courses r (person_at h p))")
    case None
    then have "a \<in> set cs"
      using key_order.insert_set [where key = "ckey h" and kf = "\<lambda>x. x", OF sorted, of a]
      by (simp add: cs_def CourseComparator_key)
    then show ?thesis by simp
  next
    case (Some b)
    then have "b \<in> set cs" "ckey h b = ckey h a"
      using key_order.find_Some [where key = "ckey h" and kf = "\<lambda>x. x", OF sorted, of a b] cs(2)
      by (auto simp: CourseComparator_key)
    then show ?thesis by (metis imageI)
  qed
  show ?thesis
  proof (rule inv_frame [OF inv names])
    show "set (get_courses r' (person_at h x)) \<subseteq> set (get_courses r' (person_at ?h x))"
      if "x < next_person h" for x r'
      using cs(2) by (auto simp: h)
    show "person_ok ?h (person_at ?h x)" if "x < next_person ?h" for x
    proof -
      have "x < next_person h" using that by (simp add: h)
      with pok [of x] pok [OF typed(1)] cs(1,3) typed(3) show ?thesis
        by (auto simp: person_ok_def keys h)
    qed
    show "set (people c) \<subseteq> set (people ?c)" "sorted_by (pkey ?h) (people ?c)"
      "\<forall>x\<in>set (people ?c). x < next_person ?h"
      using inv by (auto simp: college_inv_def enrol_def keys h)
    have "map fst (courses ?c) = map fst (courses c)" by (simp add: enrol_def enrol_entry_def)
    then have "map (ckey h) (map fst (courses ?c)) = map (ckey h) (map fst (courses c))" by (rule arg_cong)
    then have "sorted_by (\<lambda>e. ckey h (fst e)) (courses ?c) = sorted_by (\<lambda>e. ckey h (fst e)) (courses c)"
      by (intro sorted_by_map) (simp add: comp_def)
    then show "sorted_by (\<lambda>e. ckey ?h (fst e)) (courses ?c)"
      using inv by (simp add: college_inv_def keys)
    show "\<forall>e\<in>set (courses ?c). fst e < next_course ?h"
      using inv by (auto simp: college_inv_def enrol_def enrol_entry_def h)
    show "enrolled_ok ?h ?c e r'" if "e \<in> set (courses ?c)" "e \<notin> set (courses c)" for e r'
    proof -
      have "\<exists>f. f \<in> set (courses c) \<and> fst f = a \<and> e = enrol_entry r h p f"
      proof -
        have "e \<in> (\<lambda>f. if fst f = a then enrol_entry r h p f else f) ` set (courses c)"
          using that(1) by (simp add: enrol_def)
        then obtain f where "f \<in> set (courses c)" "e = (if fst f = a then enrol_entry r h p f else f)"
          by blast
        with that show ?thesis by metis
      qed
      then obtain f where f: "f \<in> set (courses c)" "fst f = a" "e = enrol_entry r h p f" by blast
      have ef: "enrolled_ok h c f r'" using inv f by (simp add: college_inv_def)
      have fr: "enrolled_ok ?h ?c f r'"
      proof (rule enrolled_ok_frame [OF ef names])
        show "fst f < next_course h" "\<forall>x\<in>set (people c). x < next_person h"
          using inv f by (auto simp: college_inv_def)
        then show "\<forall>q\<in>set (members r' f). set (get_courses r' (person_at h q)) \<subseteq> set (get_courses r' (person_at ?h q)) \<and>
            (\<forall>x\<in>set (get_courses r' (person_at h q)). x < next_course h)"
          using ef pok cs(2) by (auto simp: enrolled_ok_def person_ok_def h)
      qed (simp add: enrol_def)
      show ?thesis
      proof (cases "r' = r")
        case False
        with fr f show ?thesis by (simp add: enrolled_ok_def enrol_entry_def)
      next
        case True
        have sub: "set (members r e) \<subseteq> insert p (set (members r f))"
          and sorted': "sorted_by (pkey h) (members r e)"
          using key_order.insert_subset [of "pkey h" "\<lambda>x. x"] ef f
            key_order.insert_ordered [where key = "pkey h" and kf = "\<lambda>x. x" and xs = "members r f"]
          by (auto simp: enrol_entry_def PersonComparator_key sorted_by_def enrolled_ok_def True)
        have "fst e = a" using f by (simp add: enrol_entry_def)
        moreover have "p \<in> set (people ?c) \<and> plays r (person_at ?h p) \<and>
            ckey ?h a \<in> ckey ?h ` set (get_courses r (person_at ?h p))"
          using typed(2) named pc
          by (auto simp: h keys enrol_def plays_def is_student_def is_teacher_def split: role.splits)
        ultimately show ?thesis
          using fr sub sorted' f(2) unfolding enrolled_ok_def True keys(2) by auto
      qed
    qed
  qed
qed

lemma change_course_inv:
  "college_inv h c \<Longrightarrow> college_inv (fst (snd (change_course_activeness h c a b))) (snd (snd (change_course_activeness h c a b)))"
  by (auto simp: change_course_activeness_def active_inv split: option.split)

lemma change_student_inv:
  assumes "college_inv h c"
  shows "college_inv (fst (snd (change_student_activeness h c p b))) (snd (snd (change_student_activeness h c p b)))"
proof -
  have "college_inv (h\<lparr>person_at := (person_at h)(q := (person_at h q)\<lparr>sactive := b\<rparr>)\<rparr>) c" for q
    by (rule inv_heap [OF assms])
      (auto simp: names_kept_def ckey_def pkey_def get_courses_def split: role.splits)
  then show ?thesis
    using assms by (auto simp: change_student_activeness_def split: option.split)
qed

lemma ok_result_eq: "ok_result x = (Inr (fst x), snd x)"
  by (simp add: ok_result_def split_beta)

lemma step_inv:
  assumes inv: "college_inv h c" and typed: "well_typed h cl" and st: "step cl (h, c) = (r, h', c')"
  shows "college_inv h' c'"
proof (cases cl)
  case (AddCourse n b)
  with st add_course_inv [OF inv, of n b] show ?thesis
    by (auto simp: ok_result_eq add_course_make Let_def)
next
  case (AddPerson T n s b)
  with st add_person_inv [OF inv, of T n s b] show ?thesis
    by (auto simp: ok_result_eq add_person_make Let_def)
next
  case (ChangeCourse a b)
  with st change_course_inv [OF inv, of a b] show ?thesis by (simp add: ok_result_eq)
next
  case (RemoveCourse a)
  with st remove_course_inv [OF inv, of a] show ?thesis by (simp add: ok_result_eq)
next
  case (ChangeStudent p b)
  with st change_student_inv [OF inv, of p b] show ?thesis by (simp add: ok_result_eq)
next
  case (Assign r' p a)
  with st typed inv assign_course_cases [OF inv, of r' p a] assign_inv [OF inv, of p r' a]
  show ?thesis by (auto split: option.splits)
qed (use st make_inv [OF inv] in auto)

lemma steps_inv: "steps s s' \<Longrightarrow> college_inv (fst s) (snd s) \<Longrightarrow> college_inv (fst s') (snd s')"
proof (induction rule: steps.induct)
  case (steps_step s h c cl r s')
  then show ?case using step_inv [of h c cl r "fst s'" "snd s'"] by simp
qed

lemma reachable_inv: "reachable h c \<Longrightarrow> college_inv h c"
  using steps_inv [of "(empty_heap, college_new)" "(h, c)"]
  by (simp add: reachable_def college_inv_def empty_heap_def college_new_def sorted_by_def)

section \<open>Runs\<close>

fun typed_run :: "call list \<Rightarrow> heap \<times> college \<Rightarrow> bool" where
  "typed_run [] s = True"
| "typed_run (cl # cls) s = (well_typed (fst s) cl \<and> typed_run cls (snd (step cl s)))"

fun run :: "call list \<Rightarrow> heap \<times> college \<Rightarrow> heap \<times> college" where
  "run [] s = s"
| "run (cl # cls) s = run cls (snd (step cl s))"

lemma steps_trans: "steps t u \<Longrightarrow> steps s t \<Longrightarrow> steps s u"
  by (induction rule: steps.induct) (auto intro: steps.intros)

lemma steps_run: "typed_run cls s \<Longrightarrow> steps s (run cls s)"
proof (induction cls arbitrary: s)
  case (Cons cl cls)
  obtain h c where s: "s = (h, c)" by (cases s)
  have "steps s (snd (step cl s))"
    using Cons.prems unfolding s by (intro steps_step [OF steps_refl, of h cl c]) (auto simp: prod_eq_iff)
  moreover have "steps (snd (step cl s)) (run cls (snd (step cl s)))"
    using Cons by simp
  ultimately show ?case using steps_trans by (simp only: run.simps)
qed (simp add: steps_refl)

lemma reachable_run:
  "typed_run cls (empty_heap, college_new) \<Longrightarrow> run cls (empty_heap, college_new) = (h, c) \<Longrightarrow> reachable h c"
  using steps_run [of cls "(empty_heap, college_new)"] by (simp add: reachable_def)

text \<open>A small college: a course, a student who takes it, and a doctoral student.\<close>

definition small_run :: "call list" where
  "small_run = [AddCourse ''A'' True, AddPerson Student ''x'' ''y'' True,
     AddPerson PhDStudent ''x'' ''z'' True, Assign Learns 0 0, Assign Leads 1 0]"

definition small_heap :: heap where
  "small_heap = fst (run small_run (empty_heap, college_new))"

definition small_college :: college where
  "small_college = snd (run small_run (empty_heap, college_new))"

lemma small_reachable: "reachable small_heap small_college"
proof (rule reachable_run [of small_run])
  show "typed_run small_run (empty_heap, college_new)" by code_simp
  show "run small_run (empty_heap, college_new) = (small_heap, small_college)"
    by (simp add: small_heap_def small_college_def)
qed

lemma small_facts:
  "find_members Learns small_heap small_college 0 = [0]"
  "find_members Leads small_heap small_college 0 = [1]"
  "next_course small_heap = 1" "next_person small_heap = 2"
  by code_simp+

section \<open>Patterns\<close>

text \<open>What one character of a pattern stands for.\<close>

definition piece :: "char \<Rightarrow> string \<Rightarrow> bool" where
  "piece p w \<longleftrightarrow> p = CHR ''*'' \<or> p = CHR ''?'' \<and> length w = 1 \<or> w = [p]"

lemma match_pieces: "match check pattern \<longleftrightarrow> (\<exists>ws. check = concat ws \<and> list_all2 piece pattern ws)"
proof (induction pattern arbitrary: check)
  case (Cons p ps)
  have "match check (p # ps) \<longleftrightarrow> (\<exists>i\<le>length check. piece p (take i check) \<and> match (drop i check) ps)"
    (is "?L \<longleftrightarrow> ?R")
  proof
    assume ?L
    show ?R
    proof (cases "p = CHR ''*'' \<and> list_ex (\<lambda>i. match (drop i check) ps) [0..<length check + 1]")
      case True
      then obtain i where "i \<in> set [0..<length check + 1]" "match (drop i check) ps"
        unfolding list_ex_iff by blast
      with True show ?thesis by (intro exI [of _ i]) (auto simp: piece_def)
    next
      case False
      with \<open>?L\<close> obtain c cs where "check = c # cs" "p = CHR ''?'' \<or> p = c" "match cs ps"
        by (auto split: list.splits if_splits)
      then show ?thesis by (intro exI [of _ 1]) (auto simp: piece_def)
    qed
  next
    assume ?R
    then obtain i where i: "i \<le> length check" "piece p (take i check)" "match (drop i check) ps" by blast
    show ?L
    proof (cases "p = CHR ''*''")
      case True
      with i show ?thesis by (auto simp: list_ex_iff less_Suc_eq_le)
    next
      case False
      with i(1,2) have "check \<noteq> []" "i = 1" by (auto simp: piece_def take_eq_Nil split: if_splits)
        (cases check; cases i; auto)+
      with False i show ?thesis by (cases check) (auto simp: piece_def)
    qed
  qed
  also have "\<dots> \<longleftrightarrow> (\<exists>w ws. check = w @ concat ws \<and> piece p w \<and> list_all2 piece ps ws)"
  proof safe
    fix i ws assume "i \<le> length check" "piece p (take i check)" "match (drop i check) ps"
    then show "\<exists>w ws. check = w @ concat ws \<and> piece p w \<and> list_all2 piece ps ws"
      using Cons.IH append_take_drop_id by metis
  next
    fix w ws assume "piece p w" "list_all2 piece ps ws"
    then show "\<exists>i\<le>length (w @ concat ws). piece p (take i (w @ concat ws)) \<and> match (drop i (w @ concat ws)) ps"
      using Cons.IH by (intro exI [of _ "length w"]) auto
  qed
  also have "\<dots> \<longleftrightarrow> (\<exists>ws. check = concat ws \<and> list_all2 piece (p # ps) ws)"
    unfolding list_all2_Cons1 by (metis concat.simps(2))
  finally show ?case .
qed simp

section \<open>Enrolment seen through the methods\<close>

lemma find_map_entry:
  "find (\<lambda>e. fst e = a) (map (\<lambda>e. if fst e = b then g e else e) es) =
     map_option (\<lambda>e. if fst e = b then g e else e) (find (\<lambda>e. fst e = a) es)"
  if "\<And>e. fst (g e) = fst e"
  using that by (induction es) auto

lemma find_SomeD: "find P xs = Some x \<Longrightarrow> x \<in> set xs \<and> P x"
  by (auto simp: find_Some_iff)

lemma enrol_fst: "fst ` set (courses (enrol r h c p a)) = fst ` set (courses c)"
proof -
  have "map fst (courses (enrol r h c p a)) = map fst (courses c)" by (simp add: enrol_def enrol_entry_def)
  then have "set (map fst (courses (enrol r h c p a))) = set (map fst (courses c))" by (rule arg_cong)
  then show ?thesis by simp
qed

lemma assign_members:
  assumes inv: "college_inv h c" and typed: "p < next_person h" "plays r (person_at h p)" "a < next_course h"
    and ok: "assign_error r h c p a = None"
  shows "set (find_members r (enrol_heap r h p a) (enrol r h c p a) a) = insert p (set (find_members r h c a))"
    and "(r', b) \<noteq> (r, a) \<Longrightarrow>
      find_members r' (enrol_heap r h p a) (enrol r h c p a) b = find_members r' h c b"
proof -
  note inv' = assign_inv [OF assms]
  have fe: "fst (enrol_entry r h p e) = fst e" for e by (simp add: enrol_entry_def)
  have find: "find (\<lambda>e. fst e = b) (courses (enrol r h c p a)) =
      map_option (\<lambda>e. if fst e = a then enrol_entry r h p e else e) (find (\<lambda>e. fst e = b) (courses c))" for b
    by (simp add: enrol_def find_map_entry [of "enrol_entry r h p", OF fe])
  have "a \<in> fst ` set (courses c)" "p \<in> set (people c)"
    using ok by (auto simp: assign_error_def split: if_splits)
  then obtain e where e: "find (\<lambda>e. fst e = a) (courses c) = Some e" "e \<in> set (courses c)" "fst e = a"
    using find_SomeD [of "\<lambda>e. fst e = a" "courses c"]
    by (cases "find (\<lambda>e. fst e = a) (courses c)") (auto simp: find_None_iff)
  have m: "sorted_wrt (\<lambda>x y. pkey h x < pkey h y) (members r e)" "set (members r e) \<subseteq> set (people c)"
    using inv e(2) by (auto simp: college_inv_def enrolled_ok_def sorted_by_def)
  have "set (snd (set_insert (PersonComparator h) (\<lambda>x. x) p (members r e))) = insert p (set (members r e))"
  proof (cases "set_find (PersonComparator h) (\<lambda>x. x) p (members r e)")
    case (Some q)
    then have q: "q \<in> set (members r e)" "pkey h q = pkey h p"
      using key_order.find_Some [where key = "pkey h" and kf = "\<lambda>x. x", OF m(1)]
      by (auto simp: PersonComparator_key)
    with m(2) \<open>p \<in> set (people c)\<close> have "q = p"
      using sorted_by_unique [of "pkey h" "people c" q p] inv by (auto simp: college_inv_def)
    with q Some show ?thesis
      using key_order.insert_set [where key = "pkey h" and kf = "\<lambda>x. x", OF m(1), of p]
      by (auto simp: PersonComparator_key)
  next
    case None
    then show ?thesis
      using key_order.insert_set [where key = "pkey h" and kf = "\<lambda>x. x", OF m(1), of p]
      by (simp add: PersonComparator_key)
  qed
  then show "set (find_members r (enrol_heap r h p a) (enrol r h c p a) a) = insert p (set (find_members r h c a))"
    by (simp add: find_members_at [OF inv'] find_members_at [OF inv] find e enrol_entry_def)
  show "find_members r' (enrol_heap r h p a) (enrol r h c p a) b = find_members r' h c b"
    if "(r', b) \<noteq> (r, a)"
    using that
    by (auto simp: find_members_at [OF inv'] find_members_at [OF inv] find enrol_entry_def
        split: option.split dest: find_SomeD)
qed

lemma assign_own:
  assumes inv: "college_inv h c" and typed: "p < next_person h"
  shows "fst (set_insert (CourseComparator h) (\<lambda>x. x) a (get_courses r (person_at h p))) \<longleftrightarrow>
           ckey h a \<notin> ckey h ` set (get_courses r (person_at h p))"
    and "set (get_courses r (person_at (enrol_heap r h p a) p)) =
           (if ckey h a \<in> ckey h ` set (get_courses r (person_at h p)) then {} else {a})
             \<union> set (get_courses r (person_at h p))"
proof -
  have s: "sorted_wrt (\<lambda>x y. ckey h x < ckey h y) (get_courses r (person_at h p))"
    using inv typed by (simp add: college_inv_def person_ok_def sorted_by_def)
  have none: "set_find (CourseComparator h) (\<lambda>x. x) a (get_courses r (person_at h p)) = None \<longleftrightarrow>
      ckey h a \<notin> ckey h ` set (get_courses r (person_at h p))"
    using key_order.find_None [where key = "ckey h" and kf = "\<lambda>x. x", OF s, of a]
    by (auto simp: CourseComparator_key image_iff eq_commute)
  then show "fst (set_insert (CourseComparator h) (\<lambda>x. x) a (get_courses r (person_at h p))) \<longleftrightarrow>
           ckey h a \<notin> ckey h ` set (get_courses r (person_at h p))"
    using key_order.insert_fst [of "ckey h" "\<lambda>x. x" a] by (simp add: CourseComparator_key)
  show "set (get_courses r (person_at (enrol_heap r h p a) p)) =
           (if ckey h a \<in> ckey h ` set (get_courses r (person_at h p)) then {} else {a})
             \<union> set (get_courses r (person_at h p))"
    using key_order.insert_set [where key = "ckey h" and kf = "\<lambda>x. x", OF s, of a] none
    by (simp add: enrol_heap_def CourseComparator_key)
qed

section \<open>The own courses are listed\<close>

lemma members_found:
  assumes "college_inv h c" and "e \<in> set (courses c)"
  shows "find_members r h c (fst e) = members r e"
proof -
  have "find (\<lambda>f. fst f = fst e) (courses c) \<noteq> None"
    using assms(2) unfolding find_None_iff by blast
  then obtain f where f: "find (\<lambda>f. fst f = fst e) (courses c) = Some f" by blast
  from find_SomeD [OF this] have "f = e" using course_unique [OF assms(1) _ assms(2)] by simp
  with f show ?thesis by (simp add: find_members_at [OF assms(1)])
qed

lemma own_listed_frame:
  assumes own: "own_listed h c" and inv: "college_inv h c"
    and same: "\<And>p r. p < next_person h \<Longrightarrow> get_courses r (person_at h' p) = get_courses r (person_at h p)"
    and new: "\<And>p r. next_person h \<le> p \<Longrightarrow> p < next_person h' \<Longrightarrow> get_courses r (person_at h' p) = []"
    and cs: "set (courses c') \<subseteq> insert (next_course h, [], []) (set (courses c))"
  shows "own_listed h' c'"
  unfolding own_listed_def
proof (intro allI impI ballI)
  fix p r a e assume p: "p < next_person h'" and a: "a \<in> set (get_courses r (person_at h' p))"
    and e: "e \<in> set (courses c')" "fst e = a"
  have old: "p < next_person h" using new [of p r] p a by (cases "p < next_person h") auto
  then have ah: "a \<in> set (get_courses r (person_at h p))" using a same by simp
  moreover from this old inv have "a < next_course h" by (auto simp: college_inv_def person_ok_def)
  then have "e \<in> set (courses c)" using e cs by auto
  ultimately show "p \<in> set (members r e)" using own old e(2) by (simp add: own_listed_def)
qed

lemma own_listed_assign:
  assumes own: "own_listed h c" and inv: "college_inv h c"
    and typed: "p < next_person h" "plays r (person_at h p)" "a < next_course h"
    and ok: "assign_error r h c p a = None"
  shows "own_listed (enrol_heap r h p a) (enrol r h c p a)"
  unfolding own_listed_def
proof (intro allI impI ballI)
  let ?h = "enrol_heap r h p a" and ?c = "enrol r h c p a"
  fix x r' b e assume x: "x < next_person ?h" and b: "b \<in> set (get_courses r' (person_at ?h x))"
    and e: "e \<in> set (courses ?c)" "fst e = b"
  have xh: "x < next_person h" using x by (simp add: enrol_heap_def)
  have m: "members r' e = find_members r' ?h ?c b"
    using members_found [OF assign_inv [OF inv typed ok] e(1)] e(2) by simp
  have old: "x \<in> set (find_members r' h c b)" if "b \<in> set (get_courses r' (person_at h x))"
  proof -
    have "b \<in> fst ` set (courses c)" using e by (metis enrol_fst imageI)
    then obtain f where f: "f \<in> set (courses c)" "fst f = b" by blast
    with own that xh members_found [OF inv f(1), of r'] show ?thesis by (simp add: own_listed_def)
  qed
  note am = assign_members [OF inv typed ok]
  show "x \<in> set (members r' e)"
  proof (cases "(r', b) = (r, a)")
    case True
    show ?thesis
    proof (cases "x = p")
      case False
      then have "b \<in> set (get_courses r' (person_at h x))" using b by (simp add: enrol_heap_def)
      with old True am(1) m show ?thesis by simp
    qed (use True am(1) m in simp)
  next
    case False
    have "b \<in> set (get_courses r' (person_at h x))"
    proof (cases "x = p \<and> r' = r")
      case True
      with False b assign_own(2) [OF inv typed(1), of r a] show ?thesis by (auto split: if_splits)
    next
      case False
      then show ?thesis using b by (auto simp: enrol_heap_def split: if_splits)
    qed
    with old am(2) [OF False] m show ?thesis by simp
  qed
qed

lemma step_own:
  assumes inv: "college_inv h c" and own: "own_listed h c" and typed: "well_typed h cl"
    and st: "step cl (h, c) = (r, h', c')"
  shows "own_listed h' c'"
proof (cases cl)
  case (AddCourse n b)
  have "set (snd (set_insert (CourseComparator (make_course h n b)) fst (next_course h, [], []) (courses c)))
      \<subseteq> insert (next_course h, [], []) (set (courses c))"
    using key_order.insert_subset [of "ckey (make_course h n b)" fst] by (simp add: CourseComparator_key)
  with st AddCourse show ?thesis
    by (intro own_listed_frame [OF own inv]) (auto simp: ok_result_eq add_course_make Let_def make_course_def)
next
  case (AddPerson T n s b)
  with st show ?thesis
    by (intro own_listed_frame [OF own inv])
      (auto simp: ok_result_eq add_person_make Let_def make_person_def get_courses_def split: role.splits)
next
  case (ChangeCourse a b)
  with st show ?thesis
    by (intro own_listed_frame [OF own inv])
      (auto simp: ok_result_eq change_course_activeness_def set_course_active_def split: option.splits if_splits)
next
  case (RemoveCourse a)
  have "set (set_erase (CourseComparator h) fst a (courses c)) \<subseteq> set (courses c)"
    using key_order.erase_subset [of "ckey h" fst a "courses c"] by (simp add: CourseComparator_key)
  with st RemoveCourse show ?thesis
    by (intro own_listed_frame [OF own inv])
      (auto simp: ok_result_eq remove_course_def set_course_active_def split: option.splits)
next
  case (ChangeStudent p b)
  with st show ?thesis
    by (intro own_listed_frame [OF own inv])
      (auto simp: ok_result_eq change_student_activeness_def get_courses_def split: option.splits if_splits role.splits)
next
  case (Assign r' p a)
  with st typed own own_listed_assign [OF own inv, of p r' a] assign_course_cases [OF inv, of r' p a] show ?thesis
    by (auto split: option.splits)
next
  case (MakeCourse n b)
  with st show ?thesis by (intro own_listed_frame [OF own inv]) (auto simp: make_course_def)
next
  case (MakePerson T n s b)
  with st show ?thesis
    by (intro own_listed_frame [OF own inv]) (auto simp: make_person_def get_courses_def split: role.splits)
qed

lemma reachable_own: "reachable h c \<Longrightarrow> own_listed h c"
proof -
  have "own_listed (fst s') (snd s')" if "steps s s'" "college_inv (fst s) (snd s)" "own_listed (fst s) (snd s)" for s s'
    using that
  proof (induction rule: steps.induct)
    case (steps_step s h c cl r s')
    then show ?case
      using step_own [of h c cl r "fst s'" "snd s'"] steps_inv [OF steps_step.hyps(1)] by simp
  qed
  from this [of "(empty_heap, college_new)" "(h, c)"] show "reachable h c \<Longrightarrow> own_listed h c"
    by (simp add: reachable_def college_inv_def empty_heap_def college_new_def sorted_by_def own_listed_def)
qed

section \<open>Removed courses\<close>

lemma step_courses:
  assumes inv: "college_inv h c" and st: "step cl (h, c) = (r, h', c')" and a: "a < next_course h"
    and out: "a \<notin> fst ` set (courses c)"
  shows "a \<notin> fst ` set (courses c') \<and> a < next_course h'"
proof (cases cl)
  case (AddCourse n b)
  have "set (snd (set_insert (CourseComparator (make_course h n b)) fst (next_course h, [], []) (courses c)))
      \<subseteq> insert (next_course h, [], []) (set (courses c))"
    using key_order.insert_subset [of "ckey (make_course h n b)" fst] by (simp add: CourseComparator_key)
  with st AddCourse a out show ?thesis
    by (fastforce simp: ok_result_eq add_course_make Let_def make_course_def)
next
  case (RemoveCourse x)
  have "set (set_erase (CourseComparator h) fst x (courses c)) \<subseteq> set (courses c)"
    using key_order.erase_subset [of "ckey h" fst] by (simp add: CourseComparator_key)
  with st RemoveCourse a out show ?thesis
    by (fastforce simp: ok_result_eq remove_course_def set_course_active_def split: option.splits)
next
  case (Assign r' p x)
  show ?thesis
  proof (cases "assign_error r' h c p x")
    case None
    with st Assign have "c' = enrol r' h c p x" "next_course h' = next_course h"
      by (auto simp: assign_course_cases [OF inv] enrol_heap_def)
    with a out enrol_fst show ?thesis by metis
  next
    case (Some e)
    with st Assign have "c' = c" "h' = h" by (auto simp: assign_course_cases [OF inv])
    with a out show ?thesis by simp
  qed
qed (use st a out in \<open>auto simp: ok_result_eq add_person_make make_person_def make_course_def Let_def
    change_course_activeness_def change_student_activeness_def set_course_active_def split: option.splits if_splits\<close>)

lemma steps_courses:
  "steps s t \<Longrightarrow> college_inv (fst s) (snd s) \<Longrightarrow> a < next_course (fst s) \<Longrightarrow> a \<notin> fst ` set (courses (snd s)) \<Longrightarrow>
     a < next_course (fst t) \<and> a \<notin> fst ` set (courses (snd t)) \<and> college_inv (fst t) (snd t)"
proof (induction rule: steps.induct)
  case (steps_step s h c cl r s')
  then have "college_inv h c" "a < next_course h" "a \<notin> fst ` set (courses c)" by auto
  with step_courses [of h c cl r "fst s'" "snd s'" a] step_inv [of h c cl r "fst s'" "snd s'"] steps_step
  show ?case by simp
qed simp

section \<open>An enrolment without the course\<close>

text \<open>
  A removed course stays in the set of a student, and sets of courses compare names. When a
  new course of the same name is added and the student is enrolled in it, the college lists
  the student, but the call reports that nothing was added and the student's own set keeps
  the removed course.
\<close>

definition again_run :: "call list" where
  "again_run = [AddCourse ''A'' True, AddPerson Student ''x'' ''y'' True, Assign Learns 0 0,
     RemoveCourse 0, AddCourse ''A'' True]"

lemma enrolled_without_course:
  "\<exists>h c h' c'. reachable h c \<and> assign_course Learns h c 0 1 = Inr (False, h', c') \<and>
     find_members Learns h' c' 1 = [0] \<and> get_courses Learns (person_at h' 0) = [0] \<and>
     \<not> cactive (course_at h' 0)"
proof -
  define h where "h = fst (run again_run (empty_heap, college_new))"
  define c where "c = snd (run again_run (empty_heap, college_new))"
  have "reachable h c"
  proof (rule reachable_run [of again_run])
    show "typed_run again_run (empty_heap, college_new)" by code_simp
    show "run again_run (empty_heap, college_new) = (h, c)" by (simp add: h_def c_def)
  qed
  moreover have "case assign_course Learns h c 0 1 of Inl e \<Rightarrow> False
      | Inr (b, h', c') \<Rightarrow> b = False \<and> find_members Learns h' c' 1 = [0] \<and>
          get_courses Learns (person_at h' 0) = [0] \<and> cactive (course_at h' 0) = False"
    unfolding h_def c_def by code_simp
  ultimately show ?thesis
    by (cases "assign_course Learns h c 0 1") (simp, simp split: prod.splits, blast)
qed

section \<open>Properties\<close>

text \<open>C40: A name matches a pattern exactly when it can be cut into pieces, one for each character
  of the pattern: any string for a star, one character for a question mark, the character
  itself otherwise.\<close>

theorem match_glob:
  "match check pattern \<longleftrightarrow> (\<exists>ws. check = concat ws \<and> list_all2 piece pattern ws)"
  by (rule match_pieces)

text \<open>C16: After any sequence of calls names are unique among the courses and among the people of
  the college, both are kept in the order of the names, and so are the sets of people and of courses. The
  two records of an enrolment agree as far as they do: whoever is listed as a student or as a teacher of a
  course is a person of the college in that role whose own set has a course of that name (after a course was
  removed and added again this can be the removed one), and whoever has a course of the college, this very
  object, in the own set is listed with it.\<close>

theorem college_consistent:
  assumes "reachable h c"
  shows "college_inv h c \<and> own_listed h c"
  using reachable_inv [OF assms] reachable_own [OF assms] by simp

theorem college_consistent_witness:
  "college_inv small_heap small_college \<and> own_listed small_heap small_college"
  using college_consistent [OF small_reachable] by simp

text \<open>C20: \<open>assign_course\<close> throws exactly the first of its errors that applies and then changes
  nothing; otherwise the person becomes a member of the course in that role, no other list of
  members changes, and the result tells whether the person's own set, which then contains the
  course, had no course of that name before.\<close>

theorem assign_course_outcome:
  assumes "reachable h c" and "well_typed h (Assign r p a)"
  shows "case assign_course r h c p a of
      Inl x \<Rightarrow> assign_error r h c p a = Some x
    | Inr (b, h', c') \<Rightarrow>
        assign_error r h c p a = None \<and>
        set (find_members r h' c' a) = insert p (set (find_members r h c a)) \<and>
        (\<forall>r' a'. (r', a') \<noteq> (r, a) \<longrightarrow> find_members r' h' c' a' = find_members r' h c a') \<and>
        (b \<longleftrightarrow> ckey h a \<notin> ckey h ` set (get_courses r (person_at h p))) \<and>
        set (get_courses r (person_at h' p)) = (if b then {a} else {}) \<union> set (get_courses r (person_at h p))"
proof -
  note inv = reachable_inv [OF assms(1)]
  have typed: "p < next_person h" "plays r (person_at h p)" "a < next_course h"
    using assms(2) by simp_all
  show ?thesis
  proof (cases "assign_error r h c p a")
    case None
    with assign_members [OF inv typed None] assign_own [OF inv typed(1), where a = a and r = r] show ?thesis
      by (auto simp: assign_course_cases [OF inv])
  qed (simp add: assign_course_cases [OF inv])
qed

theorem assign_course_outcome_witness:
  "set (find_members Leads (fst (snd (projr (assign_course Leads small_heap small_college 1 0))))
     (snd (snd (projr (assign_course Leads small_heap small_college 1 0)))) 0) = {1}"
proof -
  have "well_typed small_heap (Assign Leads 1 0)" by code_simp
  moreover have "isl (assign_course Leads small_heap small_college 1 0) = False" by code_simp
  ultimately show ?thesis
    using assign_course_outcome [OF small_reachable, of Leads 1 0] small_facts(2)
    by (cases "assign_course Leads small_heap small_college 1 0") auto
qed

text \<open>A course that is not in the college, for instance one that was removed, never gets
  into it: whatever is called later, enrolment in it is refused.\<close>

theorem removed_stays_removed:
  assumes "reachable h c" and "a < next_course h" and "a \<notin> fst ` set (courses c)"
    and "steps (h, c) (h', c')"
  shows "a \<notin> fst ` set (courses c') \<and> isl (assign_course r h' c' p a)"
proof -
  note s = steps_courses [OF assms(4), of a]
  have "a \<notin> fst ` set (courses c') \<and> college_inv h' c'"
    using s reachable_inv [OF assms(1)] assms(2,3) by simp
  then show ?thesis
    by (auto simp: assign_course_cases assign_error_def)
qed

theorem removed_stays_removed_witness:
  "isl (assign_course Learns
     (fst (run [AddCourse ''A'' True] (snd (step (RemoveCourse 0) (small_heap, small_college)))))
     (snd (run [AddCourse ''A'' True] (snd (step (RemoveCourse 0) (small_heap, small_college))))) 0 0)"
proof -
  let ?s = "snd (step (RemoveCourse 0) (small_heap, small_college))"
  have "steps (small_heap, small_college) ?s"
    using steps_run [of "[RemoveCourse 0]" "(small_heap, small_college)"] small_facts(3) by simp
  then have "reachable (fst ?s) (snd ?s)"
    using small_reachable steps_trans by (simp add: reachable_def)
  moreover have "0 < next_course (fst ?s) \<and> list_all (\<lambda>e. fst e \<noteq> 0) (courses (snd ?s))" by code_simp
  then have "0 < next_course (fst ?s)" "0 \<notin> fst ` set (courses (snd ?s))"
    by (auto simp: list_all_iff)
  moreover have "steps (fst ?s, snd ?s) (run [AddCourse ''A'' True] ?s)"
    using steps_run [of "[AddCourse ''A'' True]" ?s] by simp
  then have "steps (fst ?s, snd ?s) (fst (run [AddCourse ''A'' True] ?s), snd (run [AddCourse ''A'' True] ?s))"
    by simp
  ultimately show ?thesis using removed_stays_removed by blast
qed

end
