(* ===== verification/CowStack.thy ===== *)
theory CowStack
  imports Ordered Cpp_Std
begin

text \<open>
  The stack with keys and copy on write of \<open>project4/stack.h\<close>. Values live in cells, because
  the methods hand out references to them; an \<open>Inner_stack\<close> lives at an address, because
  several \<open>cxx::stack\<close> variables can share one. Keys are never changed, so a pointer to a key
  is the key. A statement that allocates or compares keys may throw; which ones do is given by
  \<open>faults\<close>: the next entry decides, and an empty list means that nothing throws any more.
\<close>

section \<open>Statements that may throw\<close>

type_synonym ('s, 'a) exec = "'s \<Rightarrow> 'a throws \<times> 's"

definition xbind :: "('s, 'a) exec \<Rightarrow> ('a \<Rightarrow> ('s, 'b) exec) \<Rightarrow> ('s, 'b) exec" where
  "xbind m f s = (case m s of (Inl e, s') \<Rightarrow> (Inl e, s') | (Inr x, s') \<Rightarrow> f x s')"

definition xreturn :: "'a \<Rightarrow> ('s, 'a) exec" where
  "xreturn x s = (Inr x, s)"

definition xthrow :: "exn \<Rightarrow> ('s, 'a) exec" where
  "xthrow e s = (Inl e, s)"

definition xmodify :: "('s \<Rightarrow> 's) \<Rightarrow> ('s, unit) exec" where
  "xmodify f s = (Inr (), f s)"

definition xget :: "('s \<Rightarrow> 'a) \<Rightarrow> ('s, 'a) exec" where
  "xget f s = (Inr (f s), s)"

definition xwhen :: "bool \<Rightarrow> ('s, unit) exec \<Rightarrow> ('s, unit) exec" where
  "xwhen b m = (if b then m else xreturn ())"

fun xeach :: "('a \<Rightarrow> ('s, unit) exec) \<Rightarrow> 'a list \<Rightarrow> ('s, unit) exec" where
  "xeach f [] = xreturn ()"
| "xeach f (x # xs) = xbind (f x) (\<lambda>_. xeach f xs)"

section \<open>Elements and the inner stack\<close>

record 'k element =
  get_key :: 'k
  value_pointer :: addr
  get_height :: nat

definition element_height_comparator :: "nat \<Rightarrow> nat \<Rightarrow> bool" where
  "element_height_comparator a b \<longleftrightarrow> a > b"

definition key_comparator :: "'k :: linorder \<Rightarrow> 'k \<Rightarrow> bool" where
  "key_comparator a b \<longleftrightarrow> a < b"

record 'k inner =
  keys :: "'k list"
  element_map :: "'k \<rightharpoonup> 'k element list"
  element_set :: "'k element list"
  was_referenced :: bool
  height :: nat

definition inner_new :: "'k inner" where
  "inner_new = \<lparr>keys = [], element_map = Map.empty, element_set = [], was_referenced = False, height = 0\<rparr>"

record ('k, 'v) world =
  cells :: "addr \<Rightarrow> 'v"
  next_cell :: addr
  inners :: "addr \<Rightarrow> 'k inner"
  next_inner :: addr
  vars :: "addr option list"
  faults :: "bool list"

definition inner_modify :: "addr \<Rightarrow> ('k inner \<Rightarrow> 'k inner) \<Rightarrow> ('k, 'v) world \<Rightarrow> ('k, 'v) world" where
  "inner_modify a f w = w\<lparr>inners := (inners w)(a := f (inners w a))\<rparr>"

definition may_throw :: "(('k, 'v) world, unit) exec" where
  "may_throw w =
     (case faults w of
        [] \<Rightarrow> (Inr (), w)
      | b # bs \<Rightarrow> (if b then Inl Bad_alloc else Inr (), w\<lparr>faults := bs\<rparr>))"

definition make_shared_value :: "'v \<Rightarrow> (('k, 'v) world, addr) exec" where
  "make_shared_value v =
     xbind may_throw (\<lambda>_ w. (Inr (next_cell w),
       w\<lparr>cells := (cells w)(next_cell w := v), next_cell := Suc (next_cell w)\<rparr>))"

text \<open>
  \<open>Rollback_helper\<close>: copying the containers may throw before anything is changed; when the
  body leaves by an exception the four copied fields are put back.
\<close>

definition with_rollback :: "addr \<Rightarrow> (('k, 'v) world, 'a) exec \<Rightarrow> (('k, 'v) world, 'a) exec" where
  "with_rollback a body =
     xbind may_throw (\<lambda>_ w.
       let old = inners w a in
       case body w of
         (Inr x, w') \<Rightarrow> (Inr x, w')
       | (Inl e, w') \<Rightarrow>
           (Inl e, inner_modify a (\<lambda>s. s\<lparr>keys := keys old, element_map := element_map old,
              element_set := element_set old, height := height old\<rparr>) w'))"

definition inner_push :: "addr \<Rightarrow> 'k :: linorder \<Rightarrow> 'v \<Rightarrow> (('k, 'v) world, unit) exec" where
  "inner_push a key v =
     with_rollback a (
       xbind may_throw (\<lambda>_.
       xbind (xget (\<lambda>w. key \<in> set (keys (inners w a)))) (\<lambda>known.
       xbind (xwhen (\<not> known) (xbind may_throw (\<lambda>_.
         xmodify (inner_modify a (\<lambda>s. s\<lparr>keys := snd (set_insert key_comparator (\<lambda>k. k) key (keys s))\<rparr>))))) (\<lambda>_.
       xbind (make_shared_value v) (\<lambda>value_pointer.
       xbind (xget (\<lambda>w. \<lparr>get_key = key, value_pointer = value_pointer, get_height = height (inners w a)\<rparr>)) (\<lambda>element.
       xbind (xget (\<lambda>w. element_map (inners w a) key \<noteq> None)) (\<lambda>mapped.
       xbind (xwhen (\<not> mapped) (xbind may_throw (\<lambda>_.
         xmodify (inner_modify a (\<lambda>s. s\<lparr>element_map := (element_map s)(key \<mapsto> [])\<rparr>))))) (\<lambda>_.
       xbind may_throw (\<lambda>_.
       xbind (xmodify (inner_modify a (\<lambda>s.
         s\<lparr>element_map := (element_map s)(key \<mapsto> element # the (element_map s key))\<rparr>))) (\<lambda>_.
       xbind may_throw (\<lambda>_.
       xmodify (inner_modify a (\<lambda>s.
         s\<lparr>element_set := snd (set_insert element_height_comparator get_height element (element_set s)),
           height := Suc (height s), was_referenced := True\<rparr>)))))))))))))"

text \<open>The end of both \<open>pop\<close> methods: a key without elements is forgotten.\<close>

definition drop_empty :: "addr \<Rightarrow> 'k :: linorder \<Rightarrow> (('k, 'v) world, unit) exec" where
  "drop_empty a key =
     xbind (xget (\<lambda>w. element_map (inners w a) key = Some [])) (\<lambda>empty.
     xbind (xwhen empty
       (xbind may_throw (\<lambda>_.
        xbind (xmodify (inner_modify a (\<lambda>s. s\<lparr>keys := set_erase key_comparator (\<lambda>k. k) key (keys s)\<rparr>))) (\<lambda>_.
        xbind may_throw (\<lambda>_.
        xmodify (inner_modify a (\<lambda>s. s\<lparr>element_map := (element_map s)(key := None)\<rparr>)))))))
     (\<lambda>_. xmodify (inner_modify a (\<lambda>s. s\<lparr>height := height s - 1, was_referenced := True\<rparr>))))"

definition inner_pop :: "addr \<Rightarrow> (('k :: linorder, 'v) world, unit) exec" where
  "inner_pop a =
     with_rollback a (
       xbind (xget (\<lambda>w. hd (element_set (inners w a)))) (\<lambda>element.
       xbind (xmodify (inner_modify a (\<lambda>s.
         s\<lparr>element_set := set_erase element_height_comparator get_height (get_height element) (element_set s)\<rparr>))) (\<lambda>_.
       xbind may_throw (\<lambda>_.
       xbind (xmodify (inner_modify a (\<lambda>s. s\<lparr>element_map :=
         (element_map s)(get_key element \<mapsto> tl (the (element_map s (get_key element))))\<rparr>))) (\<lambda>_.
       drop_empty a (get_key element))))))"

definition inner_pop_key :: "addr \<Rightarrow> 'k :: linorder \<Rightarrow> (('k, 'v) world, unit) exec" where
  "inner_pop_key a key =
     with_rollback a (
       xbind may_throw (\<lambda>_.
       xbind (xget (\<lambda>w. hd (the (element_map (inners w a) key)))) (\<lambda>element.
       xbind (xmodify (inner_modify a (\<lambda>s.
         s\<lparr>element_map := (element_map s)(key \<mapsto> tl (the (element_map s key)))\<rparr>))) (\<lambda>_.
       xbind (xmodify (inner_modify a (\<lambda>s.
         s\<lparr>element_set := set_erase element_height_comparator get_height (get_height element) (element_set s)\<rparr>))) (\<lambda>_.
       drop_empty a key)))))"

definition inner_front :: "addr \<Rightarrow> (('k, 'v) world, 'k \<times> addr) exec" where
  "inner_front a =
     xbind (xget (\<lambda>w. hd (element_set (inners w a)))) (\<lambda>element.
     xbind (xmodify (inner_modify a (\<lambda>s. s\<lparr>was_referenced := True\<rparr>))) (\<lambda>_.
     xreturn (get_key element, value_pointer element)))"

definition inner_front_const :: "addr \<Rightarrow> (('k, 'v) world, 'k \<times> addr) exec" where
  "inner_front_const a =
     xbind (xget (\<lambda>w. hd (element_set (inners w a)))) (\<lambda>element.
     xreturn (get_key element, value_pointer element))"

definition inner_front_key :: "addr \<Rightarrow> 'k \<Rightarrow> (('k, 'v) world, addr) exec" where
  "inner_front_key a key =
     with_rollback a (
       xbind may_throw (\<lambda>_.
       xbind (xget (\<lambda>w. hd (the (element_map (inners w a) key)))) (\<lambda>element.
       xbind (xmodify (inner_modify a (\<lambda>s. s\<lparr>was_referenced := True\<rparr>))) (\<lambda>_.
       xreturn (value_pointer element)))))"

definition inner_count :: "'k inner \<Rightarrow> 'k \<Rightarrow> nat" where
  "inner_count s key = (case element_map s key of None \<Rightarrow> 0 | Some es \<Rightarrow> length es)"

definition inner_clear :: "'k inner \<Rightarrow> 'k inner" where
  "inner_clear s =
     s\<lparr>keys := [], element_map := Map.empty, element_set := [], was_referenced := False, height := 0\<rparr>"

text \<open>\<open>make_shared<Inner_stack>(other)\<close>: the copy constructor pushes the elements, lowest first.\<close>

definition inner_copy :: "addr \<Rightarrow> (('k :: linorder, 'v) world, addr) exec" where
  "inner_copy a =
     xbind may_throw (\<lambda>_.
     xbind (\<lambda>w. (Inr (next_inner w), w\<lparr>inners := (inners w)(next_inner w := inner_new),
         next_inner := Suc (next_inner w)\<rparr>)) (\<lambda>b.
     xbind (xget (\<lambda>w. rev (element_set (inners w a)))) (\<lambda>es.
     xbind (xeach (\<lambda>e. xbind (xget (\<lambda>w. cells w (value_pointer e))) (inner_push b (get_key e))) es) (\<lambda>_.
     xbind (xmodify (inner_modify b (\<lambda>s. s\<lparr>was_referenced := False\<rparr>))) (\<lambda>_.
     xreturn b)))))"

section \<open>The variables\<close>

text \<open>A variable holds \<open>None\<close> after it was moved from; it is not used then.\<close>

definition stack_pointer :: "nat \<Rightarrow> ('k, 'v) world \<Rightarrow> addr" where
  "stack_pointer x w = the (vars w ! x)"

definition set_pointer :: "nat \<Rightarrow> addr \<Rightarrow> ('k, 'v) world \<Rightarrow> ('k, 'v) world" where
  "set_pointer x a w = w\<lparr>vars := (vars w)[x := Some a]\<rparr>"

definition inner_of :: "nat \<Rightarrow> ('k, 'v) world \<Rightarrow> 'k inner" where
  "inner_of x w = inners w (stack_pointer x w)"

definition unique :: "nat \<Rightarrow> ('k, 'v) world \<Rightarrow> bool" where
  "unique x w \<longleftrightarrow> length (filter (\<lambda>p. p = vars w ! x) (vars w)) = 1"

definition detach :: "nat \<Rightarrow> (('k :: linorder, 'v) world, unit) exec" where
  "detach x =
     xbind (xget (stack_pointer x)) (\<lambda>a.
     xbind (inner_copy a) (\<lambda>b.
     xmodify (set_pointer x b)))"

text \<open>\<open>Detach_rollback_helper\<close> around one call of the inner stack.\<close>

definition with_detach :: "nat \<Rightarrow> (addr \<Rightarrow> (('k :: linorder, 'v) world, 'a) exec) \<Rightarrow> (('k, 'v) world, 'a) exec" where
  "with_detach x body =
     xbind (xget (\<lambda>w. (stack_pointer x w, unique x w))) (\<lambda>(original_stack, alone).
     xbind (xwhen (\<not> alone) (detach x)) (\<lambda>_ w.
       case body (stack_pointer x w) w of
         (Inr r, w') \<Rightarrow> (Inr r, w')
       | (Inl e, w') \<Rightarrow> (Inl e, if alone then w' else set_pointer x original_stack w')))"

definition stack_new :: "(('k, 'v) world, unit) exec" where
  "stack_new =
     xbind may_throw (\<lambda>_ w. (Inr (), w\<lparr>inners := (inners w)(next_inner w := inner_new),
       next_inner := Suc (next_inner w), vars := vars w @ [Some (next_inner w)]\<rparr>))"

text \<open>A new variable initialised with \<open>y\<close>; when \<open>detach\<close> throws there is no new variable.\<close>

definition stack_copy :: "nat \<Rightarrow> (('k :: linorder, 'v) world, unit) exec" where
  "stack_copy y =
     xbind (xget (\<lambda>w. (stack_pointer y w, was_referenced (inner_of y w)))) (\<lambda>(a, referenced).
     if referenced
     then xbind (inner_copy a) (\<lambda>b. xmodify (\<lambda>w. w\<lparr>vars := vars w @ [Some b]\<rparr>))
     else xmodify (\<lambda>w. w\<lparr>vars := vars w @ [Some a]\<rparr>))"

definition stack_move :: "nat \<Rightarrow> (('k, 'v) world, unit) exec" where
  "stack_move y = xmodify (\<lambda>w. w\<lparr>vars := (vars w)[y := None] @ [vars w ! y]\<rparr>)"

definition stack_assign :: "nat \<Rightarrow> nat \<Rightarrow> (('k, 'v) world, unit) exec" where
  "stack_assign x y = xmodify (\<lambda>w. set_pointer x (stack_pointer y w) w)"

definition stack_destroy :: "nat \<Rightarrow> (('k, 'v) world, unit) exec" where
  "stack_destroy x = xmodify (\<lambda>w. w\<lparr>vars := (vars w)[x := None]\<rparr>)"

definition empty_error :: exn where
  "empty_error = Invalid_arg ''Stack is empty.''"

definition key_error :: exn where
  "key_error = Invalid_arg ''Key not found in stack.''"

definition stack_push :: "nat \<Rightarrow> 'k :: linorder \<Rightarrow> 'v \<Rightarrow> (('k, 'v) world, unit) exec" where
  "stack_push x key v = with_detach x (\<lambda>a. inner_push a key v)"

definition stack_pop :: "nat \<Rightarrow> (('k :: linorder, 'v) world, unit) exec" where
  "stack_pop x =
     xbind (xget (\<lambda>w. height (inner_of x w))) (\<lambda>size.
     if size = 0 then xthrow empty_error else with_detach x inner_pop)"

definition stack_pop_key :: "nat \<Rightarrow> 'k :: linorder \<Rightarrow> (('k, 'v) world, unit) exec" where
  "stack_pop_key x key =
     xbind may_throw (\<lambda>_.
     xbind (xget (\<lambda>w. inner_count (inner_of x w) key)) (\<lambda>count.
     if count = 0 then xthrow key_error else with_detach x (\<lambda>a. inner_pop_key a key)))"

definition stack_front :: "nat \<Rightarrow> (('k :: linorder, 'v) world, 'k \<times> addr) exec" where
  "stack_front x =
     xbind (xget (\<lambda>w. (height (inner_of x w), unique x w))) (\<lambda>(size, alone).
     if size = 0 then xthrow empty_error
     else xbind (xwhen (\<not> alone) (detach x)) (\<lambda>_ w. inner_front (stack_pointer x w) w))"

definition stack_front_const :: "nat \<Rightarrow> (('k, 'v) world, 'k \<times> addr) exec" where
  "stack_front_const x =
     xbind (xget (\<lambda>w. height (inner_of x w))) (\<lambda>size.
     if size = 0 then xthrow empty_error else (\<lambda>w. inner_front_const (stack_pointer x w) w))"

definition stack_front_key :: "nat \<Rightarrow> 'k :: linorder \<Rightarrow> (('k, 'v) world, addr) exec" where
  "stack_front_key x key =
     xbind may_throw (\<lambda>_.
     xbind (xget (\<lambda>w. inner_count (inner_of x w) key)) (\<lambda>count.
     if count = 0 then xthrow key_error else with_detach x (\<lambda>a. inner_front_key a key)))"

definition stack_size :: "nat \<Rightarrow> (('k, 'v) world, nat) exec" where
  "stack_size x = xget (\<lambda>w. height (inner_of x w))"

definition stack_count :: "nat \<Rightarrow> 'k \<Rightarrow> (('k, 'v) world, nat) exec" where
  "stack_count x key = xbind may_throw (\<lambda>_. xget (\<lambda>w. inner_count (inner_of x w) key))"

definition stack_clear :: "nat \<Rightarrow> (('k :: linorder, 'v) world, unit) exec" where
  "stack_clear x =
     xbind (xget (unique x)) (\<lambda>alone.
     xbind (xwhen (\<not> alone) (detach x)) (\<lambda>_.
     xmodify (\<lambda>w. inner_modify (stack_pointer x w) inner_clear w)))"

text \<open>The keys an iteration from \<open>cbegin\<close> to \<open>cend\<close> sees, one \<open>const_iterator\<close> step each.\<close>

definition stack_keys :: "nat \<Rightarrow> (('k, 'v) world, 'k list) exec" where
  "stack_keys x = xget (\<lambda>w. keys (inner_of x w))"

text \<open>An assignment through a reference that \<open>front\<close> returned.\<close>

definition write_ref :: "addr \<Rightarrow> 'v \<Rightarrow> (('k, 'v) world, unit) exec" where
  "write_ref c v = xmodify (\<lambda>w. w\<lparr>cells := (cells w)(c := v)\<rparr>)"

end
