(* ===== verification/CowStack_Inner.thy ===== *)
theory CowStack_Inner
  imports CowStack
begin

text \<open>
  The inner stack: a calculus of weakest preconditions for statements that may throw, the
  invariant that ties the three containers of an \<open>Inner_stack\<close> together, and for each
  operation its effect when it returns and that nothing is changed when it throws.
\<close>

section \<open>Weakest preconditions\<close>

named_theorems wp_simps \<open>weakest preconditions of statements\<close>

definition wp :: "('s, 'a) exec \<Rightarrow> ('a \<Rightarrow> 's \<Rightarrow> bool) \<Rightarrow> (exn \<Rightarrow> 's \<Rightarrow> bool) \<Rightarrow> 's \<Rightarrow> bool" where
  "wp m Q E s = (case m s of (Inl e, s') \<Rightarrow> E e s' | (Inr x, s') \<Rightarrow> Q x s')"

lemma wp_bind [wp_simps]: "wp (xbind m f) Q E s = wp m (\<lambda>x. wp (f x) Q E) E s"
  by (simp add: wp_def xbind_def split: prod.split sum.split)

lemma wp_return [wp_simps]: "wp (xreturn x) Q E s = Q x s"
  by (simp add: wp_def xreturn_def)

lemma wp_throw [wp_simps]: "wp (xthrow e) Q E s = E e s"
  by (simp add: wp_def xthrow_def)

lemma wp_modify [wp_simps]: "wp (xmodify f) Q E s = Q () (f s)"
  by (simp add: wp_def xmodify_def)

lemma wp_cong: "m s = m' s \<Longrightarrow> wp m Q E s = wp m' Q E s"
  by (simp add: wp_def)

lemma wp_get [wp_simps]: "wp (xget g) Q E s = Q (g s) s"
  by (simp add: wp_def xget_def)

lemma wp_when [wp_simps]: "wp (xwhen b k) Q E s = (if b then wp k Q E s else Q () s)"
  by (simp add: wp_def xreturn_def xwhen_def)

lemma wp_pair [wp_simps]: "wp (\<lambda>w. (Inr (f w), g w)) Q E s = Q (f s) (g s)"
  by (simp add: wp_def)

text \<open>The same as equations between predicates, for statements that are not yet run.\<close>

lemma wp_funs:
  "wp (xbind m f) Q E = wp m (\<lambda>x. wp (f x) Q E) E"
  "wp (xreturn x) Q' E' = Q' x"
  "wp (xthrow e) Q' E' = E' e"
  by (simp_all add: fun_eq_iff wp_simps)

lemma wp_modify_fun: "wp (xmodify f) Q E = (\<lambda>s. Q () (f s))"
  by (simp add: fun_eq_iff wp_simps)

lemma wp_get_fun: "wp (xget g) Q E = (\<lambda>s. Q (g s) s)"
  by (simp add: fun_eq_iff wp_simps)

lemmas wp_all = wp_simps wp_funs wp_modify_fun wp_get_fun

lemma wp_fun: "wp (\<lambda>w. m (f w) w) Q E s = wp (m (f s)) Q E s"
  by (simp add: wp_def)

lemma wp_mono:
  "wp m Q E s \<Longrightarrow> (\<And>x t. Q x t \<Longrightarrow> Q' x t) \<Longrightarrow> (\<And>e t. E e t \<Longrightarrow> E' e t) \<Longrightarrow> wp m Q' E' s"
  by (auto simp: wp_def split: prod.splits sum.splits)

lemma wp_InrD: "wp m Q E s \<Longrightarrow> m s = (Inr x, t) \<Longrightarrow> Q x t"
  and wp_InlD: "wp m Q E s \<Longrightarrow> m s = (Inl e, t) \<Longrightarrow> E e t"
  by (simp_all add: wp_def)

lemma wp_may_throw:
  assumes "\<And>fs. (faults w = [] \<Longrightarrow> fs = []) \<Longrightarrow> Q () (w\<lparr>faults := fs\<rparr>)"
    and "\<And>fs. faults w \<noteq> [] \<Longrightarrow> E Bad_alloc (w\<lparr>faults := fs\<rparr>)"
  shows "wp may_throw Q E w"
proof (cases "faults w")
  case Nil
  have "w\<lparr>faults := []\<rparr> = w" using Nil by simp
  with assms(1) [of "[]"] Nil show ?thesis by (simp add: wp_def may_throw_def)
next
  case (Cons b bs)
  with assms show ?thesis by (auto simp: wp_def may_throw_def)
qed

lemma wp_make_shared [wp_simps]:
  "wp (make_shared_value v) Q E w =
     wp may_throw (\<lambda>_ w. Q (next_cell w)
       (w\<lparr>cells := (cells w)(next_cell w := v), next_cell := Suc (next_cell w)\<rparr>)) E w"
  by (simp add: make_shared_value_def wp_bind) (simp add: wp_def split: prod.split sum.split)

definition restore :: "addr \<Rightarrow> 'k inner \<Rightarrow> ('k, 'v) world \<Rightarrow> ('k, 'v) world" where
  "restore a old = inner_modify a (\<lambda>s. s\<lparr>keys := keys old, element_map := element_map old,
     element_set := element_set old, height := height old\<rparr>)"

lemma wp_with_rollback [wp_simps]:
  "wp (with_rollback a body) Q E w =
     wp may_throw (\<lambda>_ w. wp body Q (\<lambda>e w'. E e (restore a (inners w a) w')) w) E w"
  unfolding with_rollback_def wp_bind
  by (rule arg_cong [where f = "\<lambda>Q. wp may_throw Q E w"])
    (auto simp: fun_eq_iff wp_def Let_def restore_def split: prod.split sum.split)

lemma inner_modify_fields [simp]:
  "inners (inner_modify a f w) = (inners w)(a := f (inners w a))"
  "cells (inner_modify a f w) = cells w" "next_cell (inner_modify a f w) = next_cell w"
  "next_inner (inner_modify a f w) = next_inner w" "vars (inner_modify a f w) = vars w"
  "faults (inner_modify a f w) = faults w"
  by (simp_all add: inner_modify_def)

section \<open>The invariant of an inner stack\<close>

definition elements_of :: "'k \<Rightarrow> 'k element list \<Rightarrow> 'k element list" where
  "elements_of k es = filter (\<lambda>e. get_key e = k) es"

definition inner_ok :: "addr \<Rightarrow> ('k :: linorder) inner \<Rightarrow> bool" where
  "inner_ok n s \<longleftrightarrow>
     sorted_wrt (\<lambda>e f. get_height e > get_height f) (element_set s) \<and>
     length (element_set s) = height s \<and>
     (\<forall>e\<in>set (element_set s). value_pointer e < n) \<and>
     element_map s = (\<lambda>k. if elements_of k (element_set s) = [] then None
                          else Some (elements_of k (element_set s))) \<and>
     sorted_wrt (<) (keys s) \<and> set (keys s) = get_key ` set (element_set s)"

text \<open>
  The heights decrease from the top down. They are those from \<open>height - 1\<close> to \<open>0\<close> unless \<open>pop(key)\<close> took an
  element from below the top, which leaves a gap; then the next height may be in use.
\<close>

definition compact :: "'k inner \<Rightarrow> bool" where
  "compact s \<longleftrightarrow> (\<forall>e\<in>set (element_set s). get_height e < height s)"

lemma compact_simps [simp]:
  "compact inner_new" "compact (inner_clear s)" "compact (s\<lparr>was_referenced := b\<rparr>) = compact s"
  by (simp_all add: compact_def inner_new_def inner_clear_def)

lemma compact_empty: "element_set s = [] \<Longrightarrow> compact s"
  by (simp add: compact_def)

lemma inner_ok_new [simp]: "inner_ok n inner_new"
  by (simp add: inner_ok_def inner_new_def elements_of_def)

lemma inner_ok_mono: "inner_ok n s \<Longrightarrow> n \<le> m \<Longrightarrow> inner_ok m s"
  by (fastforce simp: inner_ok_def)

lemma inner_ok_clear [simp]: "inner_ok n (inner_clear s)"
  by (simp add: inner_ok_def inner_clear_def elements_of_def)

lemma inner_ok_referenced [simp]: "inner_ok n (s\<lparr>was_referenced := b\<rparr>) = inner_ok n s"
  by (simp add: inner_ok_def cong: if_cong)

text \<open>The contents, from the top of the stack.\<close>

definition contents :: "(addr \<Rightarrow> 'v) \<Rightarrow> 'k inner \<Rightarrow> ('k \<times> 'v) list" where
  "contents cs s = map (\<lambda>e. (get_key e, cs (value_pointer e))) (element_set s)"

lemma length_contents: "inner_ok n s \<Longrightarrow> length (contents cs s) = height s"
  by (simp add: inner_ok_def contents_def)

lemma keys_contents: "inner_ok n s \<Longrightarrow> keys s = sorted_list_of_set (fst ` set (contents cs s))"
  unfolding inner_ok_def contents_def
  by (auto simp: image_image intro!: sorted_distinct_set_unique [symmetric]
      strict_sorted_imp_sorted dest: strict_sorted_iff [THEN iffD1])

lemma count_contents:
  "inner_ok n s \<Longrightarrow> inner_count s k = length (filter (\<lambda>p. fst p = k) (contents cs s))"
  by (simp add: inner_ok_def inner_count_def contents_def elements_of_def filter_map comp_def)

section \<open>What the operations do to an inner stack\<close>

definition pushed :: "'k :: linorder \<Rightarrow> addr \<Rightarrow> 'k inner \<Rightarrow> 'k inner" where
  "pushed k c s =
     (let e = \<lparr>get_key = k, value_pointer = c, get_height = height s\<rparr> in
      s\<lparr>keys := (if k \<in> set (keys s) then keys s else snd (set_insert key_comparator (\<lambda>k. k) k (keys s))),
        element_map := (element_map s)(k \<mapsto> e # elements_of k (element_set s)),
        element_set := e # element_set s, height := Suc (height s), was_referenced := True\<rparr>)"

definition popped :: "'k :: linorder element \<Rightarrow> 'k inner \<Rightarrow> 'k inner" where
  "popped e s =
     (let es = removeAll e (element_set s); k = get_key e in
      s\<lparr>keys := (if elements_of k es = [] then set_erase key_comparator (\<lambda>k. k) k (keys s) else keys s),
        element_map := (element_map s)(k := (if elements_of k es = [] then None else Some (elements_of k es))),
        element_set := es, height := height s - 1, was_referenced := True\<rparr>)"

lemma key_comparator_key: "key_comparator = (\<lambda>a b. a < b)"
  by (simp add: fun_eq_iff key_comparator_def)

lemma insert_height:
  assumes "compact s" and "get_height e = height s"
  shows "snd (set_insert element_height_comparator get_height e (element_set s)) = e # element_set s"
  using assms by (cases "element_set s") (auto simp: compact_def element_height_comparator_def)

lemma pushed_ok:
  assumes ok: "inner_ok n s" and tidy: "compact s" and c: "c < m" "n \<le> m"
  shows "inner_ok m (pushed k c s)"
proof -
  have sorted: "sorted_wrt (\<lambda>a b. a < b) (keys s)" using ok by (simp add: inner_ok_def)
  have "k \<notin> set (keys s) \<Longrightarrow> set_find (\<lambda>a b. a < b) (\<lambda>k. k) k (keys s) = None"
    using key_order.find_None [where key = "\<lambda>x. x" and kf = "\<lambda>x. x", OF sorted] by auto
  moreover have "sorted_wrt (<) (snd (set_insert (\<lambda>a b. a < b) (\<lambda>k. k) k (keys s)))"
    using key_order.insert_ordered [where key = "\<lambda>x. x" and kf = "\<lambda>x. x", OF sorted] by simp
  moreover have "set (snd (set_insert (\<lambda>a b. a < b) (\<lambda>k. k) k (keys s))) =
      (if set_find (\<lambda>a b. a < b) (\<lambda>k. k) k (keys s) = None then insert k (set (keys s)) else set (keys s))"
    using key_order.insert_set [where key = "\<lambda>x. x" and kf = "\<lambda>x. x", OF sorted] by simp
  ultimately show ?thesis
    using ok tidy c by (auto simp: inner_ok_def compact_def pushed_def Let_def key_comparator_key elements_of_def fun_eq_iff)
qed

lemma compact_pushed: "compact s \<Longrightarrow> compact (pushed k c s)"
  by (auto simp: compact_def pushed_def Let_def)

lemma contents_pushed [simp]: "contents cs (pushed k c s) = (k, cs c) # contents cs s"
  by (simp add: contents_def pushed_def Let_def)

lemma contents_cells: "inner_ok n s \<Longrightarrow> (\<And>a. a < n \<Longrightarrow> cs' a = cs a) \<Longrightarrow> contents cs' s = contents cs s"
  by (auto simp: contents_def inner_ok_def)

text \<open>The heap an operation leaves when it throws: some new cells, everything else as before.\<close>

definition same_world :: "('k, 'v) world \<Rightarrow> ('k, 'v) world \<Rightarrow> bool" where
  "same_world w w' \<longleftrightarrow>
     next_cell w \<le> next_cell w' \<and> (\<forall>c<next_cell w. cells w' c = cells w c) \<and>
     inners w' = inners w \<and> next_inner w' = next_inner w \<and> vars w' = vars w"

definition no_new_faults :: "('k, 'v) world \<Rightarrow> ('k, 'v) world \<Rightarrow> bool" where
  "no_new_faults w w' \<longleftrightarrow> (faults w = [] \<longrightarrow> faults w' = [])"

definition thrown :: "('k, 'v) world \<Rightarrow> exn \<Rightarrow> ('k, 'v) world \<Rightarrow> bool" where
  "thrown w e w' \<longleftrightarrow> e = Bad_alloc \<and> faults w \<noteq> [] \<and> same_world w w'"

text \<open>The inner stack at \<open>a\<close> becomes \<open>g\<close> of what it was, the rest is kept.\<close>

definition changed :: "addr \<Rightarrow> ('k inner \<Rightarrow> 'k inner) \<Rightarrow> ('k, 'v) world \<Rightarrow> ('k, 'v) world \<Rightarrow> bool" where
  "changed a g w w' \<longleftrightarrow>
     next_cell w \<le> next_cell w' \<and> (\<forall>c<next_cell w. cells w' c = cells w c) \<and>
     inners w' = (inners w)(a := g (inners w a)) \<and> next_inner w' = next_inner w \<and> vars w' = vars w \<and>
     no_new_faults w w'"

lemmas world_defs = same_world_def no_new_faults_def thrown_def changed_def

lemma restore_same:
  "was_referenced (inners w a) = was_referenced (inners w' a) \<Longrightarrow> inners w' = (inners w)(a := s) \<Longrightarrow>
     inners (restore a (inners w a) w') = inners w"
  by (simp add: restore_def fun_eq_iff)

lemma restore_fields [simp]:
  "cells (restore a s w) = cells w" "next_cell (restore a s w) = next_cell w"
  "next_inner (restore a s w) = next_inner w" "vars (restore a s w) = vars w"
  "faults (restore a s w) = faults w"
  by (simp_all add: restore_def)

lemma inner_self [simp]:
  "s\<lparr>keys := keys s, element_map := element_map s, element_set := element_set s, height := height s\<rparr> = s"
  by simp

lemma inner_order:
  "s\<lparr>element_set := x, keys := y\<rparr> = s\<lparr>keys := y, element_set := x\<rparr>"
  "s\<lparr>element_set := x, element_map := z\<rparr> = s\<lparr>element_map := z, element_set := x\<rparr>"
  by simp_all

lemmas effect_defs = world_defs restore_def pushed_def popped_def Let_def

lemma inner_push_wp:
  fixes w :: "('k :: linorder, 'v) world"
  assumes ok: "inner_ok (next_cell w) (inners w a)" and tidy: "compact (inners w a)"
  shows "wp (inner_push a k v)
     (\<lambda>_ w'. changed a (pushed k (next_cell w)) w w' \<and> next_cell w' = Suc (next_cell w) \<and>
        cells w' (next_cell w) = v)
     (thrown w) w"
proof -
  have m: "element_map (inners w a) k =
      (if elements_of k (element_set (inners w a)) = [] then None
       else Some (elements_of k (element_set (inners w a))))"
    using ok by (simp add: inner_ok_def)
  have ih: "snd (set_insert element_height_comparator get_height
      \<lparr>get_key = k, value_pointer = c, get_height = height (inners w a)\<rparr> (element_set (inners w a))) =
      \<lparr>get_key = k, value_pointer = c, get_height = height (inners w a)\<rparr> # element_set (inners w a)" for c
    by (rule insert_height [OF tidy]) simp
  show ?thesis
    unfolding inner_push_def
    by (auto intro!: wp_may_throw simp: wp_simps m ih)
      (simp_all add: effect_defs ih m split: if_splits)
qed

lemma heights_decrease:
  "inner_ok n s \<Longrightarrow> sorted_wrt (\<lambda>e f. get_height e > get_height f) (element_set s)"
  by (simp add: inner_ok_def)

lemma erase_height:
  "sorted_wrt (\<lambda>e f. get_height e > get_height f) es \<Longrightarrow> e \<in> set es \<Longrightarrow>
     set_erase element_height_comparator get_height (get_height e) es = removeAll e es"
proof (induction es)
  case (Cons f fs)
  show ?case
  proof (cases "e = f")
    case True
    with Cons.prems have "e \<notin> set fs" by auto
    with True show ?thesis by (simp add: element_height_comparator_def)
  qed (use Cons in \<open>auto simp: element_height_comparator_def\<close>)
qed simp

lemma elements_of_remove: "elements_of k (removeAll e es) = removeAll e (elements_of k es)"
  by (induction es) (auto simp: elements_of_def)

lemma decreasing_distinct: "sorted_wrt (\<lambda>e f. get_height e > get_height f) es \<Longrightarrow> distinct es"
  by (induction es) auto

lemma distinct_elements: "inner_ok n s \<Longrightarrow> distinct (element_set s)"
  by (rule decreasing_distinct [OF heights_decrease])

lemma tl_elements:
  assumes "inner_ok n s" and "elements_of k (element_set s) = e # es"
  shows "es = elements_of k (removeAll e (element_set s))"
proof -
  have "distinct (elements_of k (element_set s))"
    using distinct_elements [OF assms(1)] by (simp add: elements_of_def)
  then show ?thesis using assms(2) by (simp add: elements_of_remove removeAll_id)
qed

lemma key_of: "elements_of k es = e # fs \<Longrightarrow> get_key e = k \<and> e \<in> set es"
  by (auto simp: elements_of_def filter_eq_Cons_iff)

lemma inner_pop_key_wp:
  fixes w :: "('k :: linorder, 'v) world"
  assumes ok: "inner_ok (next_cell w) (inners w a)"
    and es: "elements_of k (element_set (inners w a)) = e # es"
  shows "wp (inner_pop_key a k) (\<lambda>_ w'. changed a (popped e) w w' \<and> next_cell w' = next_cell w) (thrown w) w"
proof -
  have m: "element_map (inners w a) k = Some (e # es)"
    using ok es by (simp add: inner_ok_def)
  note k = key_of [OF es]
  have er: "set_erase element_height_comparator get_height (get_height e) (element_set (inners w a))
      = removeAll e (element_set (inners w a))"
    using erase_height [OF heights_decrease [OF ok]] k by simp
  note tl = tl_elements [OF ok es]
  show ?thesis
    unfolding inner_pop_key_def drop_empty_def
    by (auto intro!: wp_may_throw simp: wp_simps m er)
      (simp_all add: effect_defs inner_order m er k flip: tl)
qed

lemma inner_pop_wp:
  fixes w :: "('k :: linorder, 'v) world"
  assumes ok: "inner_ok (next_cell w) (inners w a)"
    and top: "element_set (inners w a) = e # es"
  shows "wp (inner_pop a) (\<lambda>_ w'. changed a (popped e) w w' \<and> next_cell w' = next_cell w) (thrown w) w"
proof -
  obtain fs where fs: "elements_of (get_key e) (element_set (inners w a)) = e # fs"
    using top by (simp add: elements_of_def)
  have m: "element_map (inners w a) (get_key e) = Some (e # fs)"
    using ok fs by (simp add: inner_ok_def)
  have er: "set_erase element_height_comparator get_height (get_height e) (element_set (inners w a))
      = removeAll e (element_set (inners w a))"
    using erase_height [OF heights_decrease [OF ok]] top by simp
  note tl = tl_elements [OF ok fs]
  have h: "hd (element_set (inners w a)) = e" using top by simp
  show ?thesis
    unfolding inner_pop_def drop_empty_def
    by (auto intro!: wp_may_throw simp: wp_simps m er h)
      (simp_all add: effect_defs inner_order m er flip: tl)
qed

lemma popped_ok:
  assumes ok: "inner_ok n s" and e: "e \<in> set (element_set s)"
  shows "inner_ok n (popped e s)"
proof -
  let ?es = "removeAll e (element_set s)"
  have sorted: "sorted_wrt (\<lambda>a b. a < b) (keys s)" using ok by (simp add: inner_ok_def)
  have er: "sorted_wrt (<) (set_erase (\<lambda>a b. a < b) (\<lambda>k. k) (get_key e) (keys s))"
    "set (set_erase (\<lambda>a b. a < b) (\<lambda>k. k) (get_key e) (keys s)) = set (keys s) - {get_key e}"
    using key_order.erase_ordered [where key = "\<lambda>x. x" and kf = "\<lambda>x. x", OF sorted]
      key_order.erase_set [where key = "\<lambda>x. x" and kf = "\<lambda>x. x", OF sorted] by auto
  have none: "elements_of k ?es = [] \<longleftrightarrow> k \<notin> get_key ` set ?es" for k
    by (auto simp: elements_of_def filter_empty_conv)
  have images: "get_key ` set (element_set s) - {get_key e} = get_key ` (set (element_set s) - {e})"
    if "get_key e \<notin> get_key ` (set (element_set s) - {e})"
    using that by blast
  have kept: "get_key ` set (element_set s) = get_key ` (set (element_set s) - {e})"
    if "get_key e \<in> get_key ` (set (element_set s) - {e})"
    using that by blast
  have other: "elements_of k ?es = elements_of k (element_set s)" if "k \<noteq> get_key e" for k
  proof -
    have "e \<notin> set (elements_of k (element_set s))" using that by (simp add: elements_of_def)
    then show ?thesis by (simp add: elements_of_remove removeAll_id)
  qed
  have "element_map s k = (if elements_of k ?es = [] then None else Some (elements_of k ?es))"
    if "k \<noteq> get_key e" for k
    using ok other [OF that] by (simp add: inner_ok_def)
  then have "element_map (popped e s) = (\<lambda>k. if elements_of k ?es = [] then None else Some (elements_of k ?es))"
    by (auto simp: popped_def Let_def fun_eq_iff)
  moreover have "keys (popped e s) = (if elements_of (get_key e) ?es = []
      then set_erase (\<lambda>a b. a < b) (\<lambda>k. k) (get_key e) (keys s) else keys s)"
    by (simp add: popped_def Let_def key_comparator_key)
  then have "sorted_wrt (<) (keys (popped e s)) \<and> set (keys (popped e s)) = get_key ` set ?es"
    using er sorted ok e by (cases "elements_of (get_key e) ?es = []") (simp_all add: inner_ok_def images kept none)
  moreover have "element_set (popped e s) = ?es" "height (popped e s) = height s - 1"
    by (simp_all add: popped_def Let_def)
  moreover have "sorted_wrt (\<lambda>e f. get_height e > get_height f) ?es"
    using heights_decrease [OF ok] by (simp add: removeAll_filter_not_eq sorted_wrt_filter)
  moreover have "length ?es = height s - 1"
    using distinct_elements [OF ok] ok e distinct_remove1_removeAll [of "element_set s" e]
    by (simp add: inner_ok_def length_remove1 flip: distinct_remove1_removeAll)
  ultimately show ?thesis
    using ok by (simp add: inner_ok_def cong: if_cong)
qed

lemma compact_popped_top:
  assumes ok: "inner_ok n s" and tidy: "compact s" and top: "element_set s = e # es"
  shows "compact (popped e s)"
proof -
  have "e \<notin> set es" using distinct_elements [OF ok] top by simp
  moreover have "\<forall>f\<in>set es. get_height f < get_height e" using heights_decrease [OF ok] top by simp
  ultimately show ?thesis using tidy top by (fastforce simp: compact_def popped_def Let_def)
qed

text \<open>What is left when the topmost pair with a key is taken out.\<close>

fun remove_key :: "'k \<Rightarrow> ('k \<times> 'v) list \<Rightarrow> ('k \<times> 'v) list" where
  "remove_key k [] = []"
| "remove_key k (p # ps) = (if fst p = k then ps else p # remove_key k ps)"

lemma remove_first:
  "distinct es \<Longrightarrow> elements_of k es = e # fs \<Longrightarrow>
     map (\<lambda>e. (get_key e, cs (value_pointer e))) (removeAll e es) =
     remove_key k (map (\<lambda>e. (get_key e, cs (value_pointer e))) es)"
proof (induction es)
  case (Cons f es)
  have "get_key e = k" using key_of [OF Cons.prems(2)] by simp
  with Cons show ?case by (cases "get_key f = k") (auto simp: elements_of_def)
qed (simp add: elements_of_def)

lemma contents_popped:
  assumes ok: "inner_ok n s" and "elements_of k (element_set s) = e # fs"
  shows "contents cs (popped e s) = remove_key k (contents cs s)"
  using remove_first [OF distinct_elements [OF ok] assms(2)]
  by (simp add: contents_def popped_def Let_def)

section \<open>Reading\<close>

lemma inner_front_wp:
  "element_set (inners w a) = e # es \<Longrightarrow>
   wp (inner_front a) (\<lambda>r w'. changed a (\<lambda>s. s\<lparr>was_referenced := True\<rparr>) w w' \<and> next_cell w' = next_cell w \<and>
      r = (get_key e, value_pointer e)) (\<lambda>_ _. False) w"
  by (simp add: inner_front_def wp_simps effect_defs)

lemma inner_front_key_wp:
  assumes "inner_ok (next_cell w) (inners w a)" and "elements_of k (element_set (inners w a)) = e # es"
  shows "wp (inner_front_key a k) (\<lambda>r w'. changed a (\<lambda>s. s\<lparr>was_referenced := True\<rparr>) w w' \<and>
      next_cell w' = next_cell w \<and> r = value_pointer e) (thrown w) w"
proof -
  have m: "element_map (inners w a) k = Some (e # es)"
    using assms by (simp add: inner_ok_def)
  show ?thesis
    unfolding inner_front_key_def
    by (auto intro!: wp_may_throw simp: wp_simps m) (simp_all add: effect_defs m)
qed

section \<open>Copying\<close>

text \<open>The world after a copy: a new inner stack with the same contents in new cells.\<close>

definition copied :: "('k :: linorder, 'v) world \<Rightarrow> addr \<Rightarrow> addr \<Rightarrow> ('k, 'v) world \<Rightarrow> bool" where
  "copied w a b w' \<longleftrightarrow>
     b = next_inner w \<and> next_inner w' = Suc b \<and> vars w' = vars w \<and> no_new_faults w w' \<and>
     next_cell w \<le> next_cell w' \<and> (\<forall>c<next_cell w. cells w' c = cells w c) \<and>
     (\<forall>x. x \<noteq> b \<longrightarrow> inners w' x = inners w x) \<and>
     inner_ok (next_cell w') (inners w' b) \<and> compact (inners w' b) \<and> \<not> was_referenced (inners w' b) \<and>
     contents (cells w') (inners w' b) = contents (cells w) (inners w a) \<and>
     (\<forall>e\<in>set (element_set (inners w' b)). next_cell w \<le> value_pointer e)"

definition failed_copy :: "('k, 'v) world \<Rightarrow> exn \<Rightarrow> ('k, 'v) world \<Rightarrow> bool" where
  "failed_copy w e w' \<longleftrightarrow>
     e = Bad_alloc \<and> faults w \<noteq> [] \<and> vars w' = vars w \<and> next_inner w \<le> next_inner w' \<and>
     next_cell w \<le> next_cell w' \<and> (\<forall>c<next_cell w. cells w' c = cells w c) \<and>
     (\<forall>x<next_inner w. inners w' x = inners w x)"

text \<open>What the pushes into the new inner stack \<open>b\<close> leave alone.\<close>

definition beside :: "addr \<Rightarrow> ('k, 'v) world \<Rightarrow> ('k, 'v) world \<Rightarrow> bool" where
  "beside b w w' \<longleftrightarrow>
     next_cell w \<le> next_cell w' \<and> (\<forall>c<next_cell w. cells w' c = cells w c) \<and>
     (\<forall>x. x \<noteq> b \<longrightarrow> inners w' x = inners w x) \<and> next_inner w' = next_inner w \<and> vars w' = vars w"

lemma beside_trans: "beside b u v \<Longrightarrow> beside b v w \<Longrightarrow> beside b u w"
  by (auto simp: beside_def)

lemma changed_beside: "changed b g w w' \<Longrightarrow> beside b w w'"
  by (simp add: changed_def beside_def)

lemma thrown_beside: "thrown w e w' \<Longrightarrow> beside b w w'"
  by (simp add: thrown_def same_world_def beside_def)

abbreviation copy_element :: "addr \<Rightarrow> 'k :: linorder element \<Rightarrow> (('k, 'v) world, unit) exec" where
  "copy_element b e \<equiv> xbind (xget (\<lambda>w. cells w (value_pointer e))) (inner_push b (get_key e))"

lemma copy_elements_wp:
  fixes w :: "('k :: linorder, 'v) world"
  assumes "inner_ok (next_cell w) (inners w b)" and "compact (inners w b)"
    and "\<forall>e\<in>set es. value_pointer e < next_cell w" and "n \<le> next_cell w" and "\<forall>e\<in>set (element_set (inners w b)). n \<le> value_pointer e"
  shows "wp (xeach (copy_element b) es)
     (\<lambda>_ w'. beside b w w' \<and> no_new_faults w w' \<and> inner_ok (next_cell w') (inners w' b) \<and> compact (inners w' b) \<and>
        (\<forall>e\<in>set (element_set (inners w' b)). n \<le> value_pointer e) \<and>
        contents (cells w') (inners w' b) =
          rev (map (\<lambda>e. (get_key e, cells w (value_pointer e))) es) @ contents (cells w) (inners w b))
     (\<lambda>e w'. e = Bad_alloc \<and> faults w \<noteq> [] \<and> beside b w w') w"
  using assms
proof (induction es arbitrary: w)
  case Nil
  then show ?case by (simp add: wp_simps beside_def no_new_faults_def)
next
  case (Cons e es)
  have "wp (copy_element b e)
     (\<lambda>_ w1. wp (xeach (copy_element b) es)
        (\<lambda>_ w'. beside b w w' \<and> no_new_faults w w' \<and> inner_ok (next_cell w') (inners w' b) \<and> compact (inners w' b) \<and>
          (\<forall>e\<in>set (element_set (inners w' b)). n \<le> value_pointer e) \<and>
          contents (cells w') (inners w' b) =
            rev (map (\<lambda>e. (get_key e, cells w (value_pointer e))) (e # es)) @ contents (cells w) (inners w b))
        (\<lambda>e w'. e = Bad_alloc \<and> faults w \<noteq> [] \<and> beside b w w') w1)
     (\<lambda>e w'. e = Bad_alloc \<and> faults w \<noteq> [] \<and> beside b w w') w"
    unfolding wp_bind wp_get
  proof (rule wp_mono [OF inner_push_wp [OF Cons.prems(1,2)]], elim conjE)
    fix w1 :: "('k, 'v) world"
    let ?v = "cells w (value_pointer e)"
    assume ch: "changed b (pushed (get_key e) (next_cell w)) w w1" and n1: "next_cell w1 = Suc (next_cell w)"
      and cv: "cells w1 (next_cell w) = ?v"
    have b1: "inners w1 b = pushed (get_key e) (next_cell w) (inners w b)"
      and old: "\<And>c. c < next_cell w \<Longrightarrow> cells w1 c = cells w c"
      and nf: "no_new_faults w w1"
      using ch by (simp_all add: changed_def)
    have c1: "contents (cells w1) (inners w1 b) = (get_key e, ?v) # contents (cells w) (inners w b)"
      using contents_cells [OF Cons.prems(1) old] by (simp add: b1 cv)
    have m1: "map (\<lambda>e. (get_key e, cells w1 (value_pointer e))) es =
        map (\<lambda>e. (get_key e, cells w (value_pointer e))) es"
      using Cons.prems(3) old by simp
    have "wp (xeach (copy_element b) es)
      (\<lambda>_ w'. beside b w1 w' \<and> no_new_faults w1 w' \<and> inner_ok (next_cell w') (inners w' b) \<and> compact (inners w' b) \<and>
        (\<forall>e\<in>set (element_set (inners w' b)). n \<le> value_pointer e) \<and>
        contents (cells w') (inners w' b) =
          rev (map (\<lambda>e. (get_key e, cells w1 (value_pointer e))) es) @ contents (cells w1) (inners w1 b))
      (\<lambda>e w'. e = Bad_alloc \<and> faults w1 \<noteq> [] \<and> beside b w1 w') w1"
    proof (rule Cons.IH)
      show "inner_ok (next_cell w1) (inners w1 b)"
        unfolding b1 by (rule pushed_ok [OF Cons.prems(1,2)]) (simp_all add: n1)
      show "\<forall>e\<in>set (element_set (inners w1 b)). n \<le> value_pointer e"
        using Cons.prems(4,5) by (simp add: b1 pushed_def Let_def)
      show "compact (inners w1 b)"
        unfolding b1 by (rule compact_pushed [OF Cons.prems(2)])
    qed (use Cons.prems n1 in auto)
    then show "wp (xeach (copy_element b) es)
        (\<lambda>_ w'. beside b w w' \<and> no_new_faults w w' \<and> inner_ok (next_cell w') (inners w' b) \<and> compact (inners w' b) \<and>
          (\<forall>e\<in>set (element_set (inners w' b)). n \<le> value_pointer e) \<and>
          contents (cells w') (inners w' b) =
            rev (map (\<lambda>e. (get_key e, cells w (value_pointer e))) (e # es)) @ contents (cells w) (inners w b))
        (\<lambda>e w'. e = Bad_alloc \<and> faults w \<noteq> [] \<and> beside b w w') w1"
      by (rule wp_mono)
        (use beside_trans [OF changed_beside [OF ch]] nf in
          \<open>auto simp: m1 c1 no_new_faults_def\<close>)
  qed (use thrown_beside in \<open>auto simp: thrown_def\<close>)
  then show ?case by (simp add: wp_bind)
qed

lemma inner_copy_wp:
  fixes w :: "('k :: linorder, 'v) world"
  assumes ok: "inner_ok (next_cell w) (inners w a)" and a: "a < next_inner w"
  shows "wp (inner_copy a) (\<lambda>b. copied w a b) (failed_copy w) w"
proof -
  define body where "body = (\<lambda>w1 :: ('k, 'v) world.
     wp (xeach (copy_element (next_inner w)) (rev (element_set (inners w a))))
      (\<lambda>_ w2. copied w a (next_inner w) (inner_modify (next_inner w) (\<lambda>s. s\<lparr>was_referenced := False\<rparr>) w2))
      (failed_copy w) w1)"
  have "body (w\<lparr>faults := fs, inners := (inners w)(next_inner w := inner_new), next_inner := Suc (next_inner w)\<rparr>)"
    if "faults w = [] \<Longrightarrow> fs = []" for fs
    unfolding body_def
  proof (rule wp_mono [OF copy_elements_wp [where n = "next_cell w"]])
    show "\<forall>e\<in>set (rev (element_set (inners w a))). value_pointer e <
        next_cell (w\<lparr>faults := fs, inners := (inners w)(next_inner w := inner_new), next_inner := Suc (next_inner w)\<rparr>)"
      using ok by (simp add: inner_ok_def)
  qed (use a that in \<open>auto simp: copied_def failed_copy_def beside_def no_new_faults_def contents_def inner_new_def rev_map
      inner_ok_new [unfolded inner_new_def] compact_empty\<close>)
  moreover have "wp (xbind (xmodify (inner_modify (next_inner w) (\<lambda>s. s\<lparr>was_referenced := False\<rparr>)))
      (\<lambda>_. xreturn (next_inner w))) (copied w a) (failed_copy w) =
    (\<lambda>w2. copied w a (next_inner w) (inner_modify (next_inner w) (\<lambda>s. s\<lparr>was_referenced := False\<rparr>) w2))"
    by (simp add: fun_eq_iff wp_simps)
  ultimately show ?thesis
    using a unfolding inner_copy_def body_def
    by (auto intro!: wp_may_throw simp: wp_simps)
      (simp_all add: failed_copy_def)
qed

end
