(* ===== verification/CowStack_Vars.thy ===== *)
theory CowStack_Vars
  imports CowStack_Inner
begin

text \<open>
  The stack variables: which worlds are well formed, what a variable contains, and how an
  operation on one variable first makes its inner stack private and then changes only it.
\<close>

definition live :: "nat \<Rightarrow> ('k, 'v) world \<Rightarrow> bool" where
  "live x w \<longleftrightarrow> x < length (vars w) \<and> vars w ! x \<noteq> None"

definition pointer_ok :: "('k :: linorder, 'v) world \<Rightarrow> addr \<Rightarrow> bool" where
  "pointer_ok w a \<longleftrightarrow> a < next_inner w \<and> inner_ok (next_cell w) (inners w a)"

text \<open>A variable that is not marked in \<open>ds\<close> has no gap in its heights.\<close>

definition world_ok :: "bool list \<Rightarrow> ('k :: linorder, 'v) world \<Rightarrow> bool" where
  "world_ok ds w \<longleftrightarrow> length ds = length (vars w) \<and>
     (\<forall>x<length (vars w). \<forall>a. vars w ! x = Some a \<longrightarrow>
        pointer_ok w a \<and> (ds ! x \<or> compact (inners w a)))"

text \<open>What the variables contain, from the top; \<open>None\<close> for one that was moved from or destroyed.\<close>

definition view :: "('k, 'v) world \<Rightarrow> ('k \<times> 'v) list option list" where
  "view w = map (map_option (\<lambda>a. contents (cells w) (inners w a))) (vars w)"

definition older :: "('k, 'v) world \<Rightarrow> ('k, 'v) world \<Rightarrow> bool" where
  "older w w' \<longleftrightarrow>
     next_inner w \<le> next_inner w' \<and> (\<forall>a<next_inner w. inners w' a = inners w a) \<and>
     next_cell w \<le> next_cell w' \<and> (\<forall>c<next_cell w. cells w' c = cells w c)"

lemma older_refl [simp]: "older w w"
  by (simp add: older_def)

lemma older_trans: "older u v \<Longrightarrow> older v w \<Longrightarrow> older u w"
  by (simp add: older_def)

lemma older_pointer:
  assumes "older w w'" "pointer_ok w a"
  shows "pointer_ok w' a" and "contents (cells w') (inners w' a) = contents (cells w) (inners w a)"
    and "compact (inners w' a) = compact (inners w a)"
proof -
  have i: "inners w' a = inners w a" using assms by (simp add: older_def pointer_ok_def)
  then show "compact (inners w' a) = compact (inners w a)" by simp
  show "pointer_ok w' a"
    using assms inner_ok_mono [of "next_cell w" "inners w a" "next_cell w'"]
    by (simp add: pointer_ok_def older_def)
  show "contents (cells w') (inners w' a) = contents (cells w) (inners w a)"
    unfolding i using assms by (intro contents_cells) (auto simp: pointer_ok_def older_def)
qed

lemma older_view:
  assumes "world_ok ds w" "older w w'" "vars w' = vars w"
  shows "world_ok ds w' \<and> view w' = view w"
proof -
  have ptr: "pointer_ok w a" if "Some a \<in> set (vars w)" for a
    using that assms(1) by (auto simp: world_ok_def in_set_conv_nth)
  then have "contents (cells w') (inners w' a) = contents (cells w) (inners w a)" if "Some a \<in> set (vars w)" for a
    using that older_pointer [OF assms(2)] by simp
  then have "view w' = view w"
    using assms(3) by (auto simp: view_def intro!: map_option_cong dest: nth_mem)
  moreover have "world_ok ds w'"
    using assms(1,3) older_pointer [OF assms(2)] by (auto simp: world_ok_def)
  ultimately show ?thesis by simp
qed

lemma thrown_older: "thrown w e w' \<Longrightarrow> older w w' \<and> vars w' = vars w"
  by (simp add: thrown_def same_world_def older_def)

lemma failed_copy_older:
  "failed_copy w e w' \<Longrightarrow> e = Bad_alloc \<and> faults w \<noteq> [] \<and> older w w' \<and> vars w' = vars w"
  by (simp add: failed_copy_def older_def)

lemma live_pointer:
  "live x w \<Longrightarrow> vars w ! x = Some (stack_pointer x w)"
  "world_ok ds w \<Longrightarrow> live x w \<Longrightarrow> pointer_ok w (stack_pointer x w)"
  "world_ok ds w \<Longrightarrow> live x w \<Longrightarrow> ds ! x \<or> compact (inners w (stack_pointer x w))"
  by (auto simp: live_def stack_pointer_def world_ok_def)

section \<open>Making an inner stack private\<close>

lemma unique_alone:
  assumes "unique x w" "x < length (vars w)" "y < length (vars w)" "vars w ! y = vars w ! x"
  shows "y = x"
proof -
  have "card {i. i < length (vars w) \<and> vars w ! i = vars w ! x} = 1"
    using assms(1) by (simp add: unique_def length_filter_conv_card)
  then obtain z where "{i. i < length (vars w) \<and> vars w ! i = vars w ! x} = {z}"
    by (auto simp: card_1_singleton_iff)
  with assms(2-4) have "x \<in> {z}" "y \<in> {z}" by blast+
  then show ?thesis by simp
qed

definition isolated :: "nat \<Rightarrow> ('k :: linorder, 'v) world \<Rightarrow> ('k, 'v) world \<Rightarrow> bool" where
  "isolated x w w1 \<longleftrightarrow>
     older w w1 \<and> no_new_faults w w1 \<and> vars w1 = (vars w)[x := Some (stack_pointer x w1)] \<and>
     (\<forall>y<length (vars w). y \<noteq> x \<longrightarrow> vars w ! y \<noteq> Some (stack_pointer x w1)) \<and>
     pointer_ok w1 (stack_pointer x w1) \<and>
     (compact (inners w (stack_pointer x w)) \<longrightarrow> compact (inners w1 (stack_pointer x w1))) \<and>
     contents (cells w1) (inners w1 (stack_pointer x w1)) =
       contents (cells w) (inners w (stack_pointer x w))"

lemma isolated_self:
  assumes "world_ok ds w" "live x w" "unique x w"
  shows "isolated x w w"
  unfolding isolated_def
proof (intro conjI allI impI)
  show "vars w = (vars w)[x := Some (stack_pointer x w)]"
    using live_pointer(1) [OF assms(2)] by (metis list_update_id)
  show "vars w ! y \<noteq> Some (stack_pointer x w)" if "y < length (vars w)" "y \<noteq> x" for y
    using that unique_alone [OF assms(3), of y] assms(2) live_pointer(1) [OF assms(2)] by (auto simp: live_def)
qed (use live_pointer(2) [OF assms(1,2)] in \<open>simp_all add: no_new_faults_def\<close>)

lemma copied_older: "copied w a b w' \<Longrightarrow> older w w' \<and> pointer_ok w' b \<and> next_inner w \<le> b"
  unfolding copied_def older_def pointer_ok_def by auto

lemma isolated_copied:
  assumes "world_ok ds w" "live x w" and c: "copied w (stack_pointer x w) b w'"
  shows "isolated x w (set_pointer x b w')"
proof -
  have x: "x < length (vars w)" using assms(2) by (simp add: live_def)
  have v: "vars w' = vars w" using c by (simp add: copied_def)
  have p: "stack_pointer x (set_pointer x b w') = b"
    using x by (simp add: stack_pointer_def set_pointer_def v)
  have new: "vars w ! y \<noteq> Some b" if "y < length (vars w)" for y
    using that assms(1) copied_older [OF c] by (auto simp: world_ok_def pointer_ok_def)
  have "older w' (set_pointer x b w')" "pointer_ok (set_pointer x b w') b"
    "no_new_faults w (set_pointer x b w')"
    using copied_older [OF c] c
    by (simp_all add: older_def set_pointer_def pointer_ok_def copied_def no_new_faults_def)
  with c copied_older [OF c] older_trans new show ?thesis
    unfolding isolated_def p
    by (auto simp: set_pointer_def v copied_def)
qed

definition failed :: "bool list \<Rightarrow> ('k :: linorder, 'v) world \<Rightarrow> exn \<Rightarrow> ('k, 'v) world \<Rightarrow> bool" where
  "failed ds w e w' \<longleftrightarrow> e = Bad_alloc \<and> faults w \<noteq> [] \<and> world_ok ds w' \<and> view w' = view w"

lemma detach_wp:
  assumes "world_ok ds w" "live x w"
  shows "wp (xwhen (\<not> unique x w) (detach x)) (\<lambda>_ w1. isolated x w w1) 
     (\<lambda>e w1. e = Bad_alloc \<and> faults w \<noteq> [] \<and> older w w1 \<and> vars w1 = vars w) w"
proof (cases "unique x w")
  case True
  with isolated_self [OF assms] show ?thesis by (simp add: wp_simps)
next
  case False
  note p = live_pointer(2) [OF assms]
  have "wp (inner_copy (stack_pointer x w)) (\<lambda>b w'. isolated x w (set_pointer x b w'))
      (\<lambda>e w1. e = Bad_alloc \<and> faults w \<noteq> [] \<and> older w w1 \<and> vars w1 = vars w) w"
  proof (rule wp_mono [OF inner_copy_wp])
    show "inner_ok (next_cell w) (inners w (stack_pointer x w))" "stack_pointer x w < next_inner w"
      using p by (simp_all add: pointer_ok_def)
  qed (use isolated_copied [OF assms] failed_copy_older in blast)+
  then show ?thesis using False by (simp add: detach_def wp_simps wp_modify_fun)
qed

text \<open>An operation on the private inner stack changes this variable and no other.\<close>

lemma isolatedD:
  assumes "isolated x w w1"
  shows "older w w1" "no_new_faults w w1" "vars w1 = (vars w)[x := Some (stack_pointer x w1)]"
    "\<And>y. y < length (vars w) \<Longrightarrow> y \<noteq> x \<Longrightarrow> vars w ! y \<noteq> Some (stack_pointer x w1)"
    "pointer_ok w1 (stack_pointer x w1)"
    "compact (inners w (stack_pointer x w)) \<Longrightarrow> compact (inners w1 (stack_pointer x w1))"
    "contents (cells w1) (inners w1 (stack_pointer x w1)) =
       contents (cells w) (inners w (stack_pointer x w))"
  using assms by (simp_all add: isolated_def)

lemma changed_other:
  assumes ch: "changed b g w1 w2" and a: "pointer_ok w1 a" "a \<noteq> b"
  shows "pointer_ok w2 a" "contents (cells w2) (inners w2 a) = contents (cells w1) (inners w1 a)"
proof -
  have i: "inners w2 a = inners w1 a" using ch a(2) by (simp add: changed_def)
  show "contents (cells w2) (inners w2 a) = contents (cells w1) (inners w1 a)"
    unfolding i using a(1) ch
    by (intro contents_cells [of "next_cell w1"]) (simp_all add: pointer_ok_def changed_def)
  show "pointer_ok w2 a"
    using a(1) ch inner_ok_mono [of "next_cell w1" "inners w1 a" "next_cell w2"]
    by (simp add: pointer_ok_def i) (simp add: changed_def)
qed

lemma isolated_changed:
  assumes ok: "world_ok ds w" and x: "live x w" and p: "isolated x w w1"
    and ch: "changed (stack_pointer x w1) g w1 w2"
    and g: "inner_ok (next_cell w2) (g (inners w1 (stack_pointer x w1)))"
    and d: "d \<or> compact (g (inners w1 (stack_pointer x w1)))"
  shows "world_ok (ds[x := d]) w2"
    and "view w2 = (view w)[x := Some (contents (cells w2) (g (inners w1 (stack_pointer x w1))))]"
proof -
  let ?b = "stack_pointer x w1"
  note D = isolatedD [OF p]
  have len: "x < length (vars w)" using x by (simp add: live_def)
  then have lends: "x < length ds" using ok by (simp add: world_ok_def)
  have v: "vars w2 = (vars w)[x := Some ?b]" using D(3) ch by (simp add: changed_def)
  have bi: "inners w2 ?b = g (inners w1 ?b)" using ch by (simp add: changed_def)
  have b: "pointer_ok w2 ?b" using D(5) ch g bi by (simp add: changed_def pointer_ok_def)
  have other: "pointer_ok w2 a \<and> contents (cells w2) (inners w2 a) = contents (cells w) (inners w a) \<and>
      (ds ! y \<or> compact (inners w2 a))"
    if "y < length (vars w)" "y \<noteq> x" "vars w ! y = Some a" for y a
  proof -
    have "a \<noteq> ?b" using D(4) [of y] that by auto
    moreover have "pointer_ok w a" "ds ! y \<or> compact (inners w a)" using ok that by (auto simp: world_ok_def)
    moreover have "inners w2 a = inners w1 a" using ch \<open>a \<noteq> ?b\<close> by (simp add: changed_def)
    moreover have "pointer_ok w1 a" using older_pointer(1) [OF D(1)] calculation(2) .
    ultimately show ?thesis
      using older_pointer(2,3) [OF D(1), of a] changed_other [OF ch, of a] by simp
  qed
  show "world_ok (ds[x := d]) w2"
    unfolding world_ok_def
  proof (intro conjI [of "length (ds[x := d]) = _"] allI impI)
    show "length (ds[x := d]) = length (vars w2)" using ok by (simp add: world_ok_def v)
    fix y a assume "y < length (vars w2)" "vars w2 ! y = Some a"
    then show "pointer_ok w2 a \<and> (ds[x := d] ! y \<or> compact (inners w2 a))"
      using other [of y a] b d bi len lends by (cases "y = x") (simp_all add: v)
  qed
  show "view w2 = (view w)[x := Some (contents (cells w2) (g (inners w1 ?b)))]"
  proof (rule nth_equalityI)
    fix y assume "y < length (view w2)"
    then have y: "y < length (vars w)" by (simp add: view_def v)
    show "view w2 ! y = (view w)[x := Some (contents (cells w2) (g (inners w1 ?b)))] ! y"
    proof (cases "y = x")
      case True
      with y bi show ?thesis by (simp add: view_def v)
    next
      case False
      with y other [OF y False] show ?thesis
        by (cases "vars w ! y") (simp_all add: view_def v)
    qed
  qed (simp add: view_def v)
qed

lemma restore_pointer:
  assumes "world_ok ds w" "live x w" "isolated x w w1" "thrown w1 e w2"
    and that: "unique x w \<Longrightarrow> w1 = w"
  shows "failed ds w e (if unique x w then w2 else set_pointer x (stack_pointer x w) w2)"
proof -
  have o: "older w w2" "faults w \<noteq> []" "e = Bad_alloc"
    using older_trans [OF isolatedD(1) [OF assms(3)]] thrown_older [OF assms(4)]
      isolatedD(2) [OF assms(3)] assms(4)
    by (auto simp: thrown_def no_new_faults_def)
  show ?thesis
  proof (cases "unique x w")
    case True
    then have "vars w2 = vars w" using that thrown_older [OF assms(4)] by simp
    then show ?thesis
      using True o(2,3) older_view [OF assms(1) o(1)] by (simp add: failed_def)
  next
    case False
    have "vars w2 = (vars w)[x := Some (stack_pointer x w1)]"
      using assms(3) thrown_older [OF assms(4)] by (simp add: isolated_def)
    then have "vars (set_pointer x (stack_pointer x w) w2) = vars w"
      using live_pointer(1) [OF assms(2)] by (simp add: set_pointer_def) (metis list_update_id)
    moreover have "older w (set_pointer x (stack_pointer x w) w2)"
      using o(1) by (simp add: older_def set_pointer_def)
    ultimately show ?thesis
      using False o(2,3) older_view [OF assms(1), of "set_pointer x (stack_pointer x w) w2"]
      by (simp add: failed_def)
  qed
qed

lemma with_detach_eq:
  "with_detach x body w =
     xbind (xwhen (\<not> unique x w) (detach x)) (\<lambda>_ w1.
       case body (stack_pointer x w1) w1 of
         (Inr r, w') \<Rightarrow> (Inr r, w')
       | (Inl e, w') \<Rightarrow> (Inl e, if unique x w then w' else set_pointer x (stack_pointer x w) w')) w"
  by (simp add: with_detach_def xbind_def xget_def)

lemma detach_step:
  assumes "world_ok ds w" "live x w"
  shows "wp (xwhen (\<not> unique x w) (detach x))
     (\<lambda>_ w1. isolated x w w1 \<and> (unique x w \<longrightarrow> w1 = w)) (failed ds w) w"
proof (cases "unique x w")
  case True
  with isolated_self [OF assms] show ?thesis by (simp add: wp_simps)
next
  case False
  from detach_wp [OF assms] False show ?thesis
    by (elim wp_mono) (auto simp: failed_def dest: older_view [OF assms(1)])
qed

text \<open>A body run by \<open>with_detach\<close> meets a private inner stack with the same contents.\<close>

lemma with_detach_wp:
  assumes ok: "world_ok ds w" and x: "live x w"
    and body: "\<And>w1. isolated x w w1 \<Longrightarrow>
      wp (body (stack_pointer x w1)) (\<lambda>r w2. Q r w1 w2) (thrown w1) w1"
  shows "wp (with_detach x body) (\<lambda>r w2. \<exists>w1. isolated x w w1 \<and> Q r w1 w2) (failed ds w) w"
proof -
  let ?body = "\<lambda>w1. case body (stack_pointer x w1) w1 of
         (Inr r, w') \<Rightarrow> (Inr r, w')
       | (Inl e, w') \<Rightarrow> (Inl e, if unique x w then w' else set_pointer x (stack_pointer x w) w')"
  let ?Q = "\<lambda>r w2. \<exists>w1. isolated x w w1 \<and> Q r w1 w2"
  have "wp (xwhen (\<not> unique x w) (detach x)) (\<lambda>_. wp ?body ?Q (failed ds w)) (failed ds w) w"
  proof (rule wp_mono [OF detach_step [OF ok x]], elim conjE)
    fix w1 assume p: "isolated x w w1" and same: "unique x w \<longrightarrow> w1 = w"
    obtain r w2 where r: "body (stack_pointer x w1) w1 = (r, w2)" by (cases "body (stack_pointer x w1) w1")
    show "wp ?body ?Q (failed ds w) w1"
    proof (cases r)
      case (Inl e)
      with body [OF p] r have "thrown w1 e w2" by (simp add: wp_def)
      from restore_pointer [OF ok x p this] same Inl r show ?thesis by (simp add: wp_def)
    next
      case (Inr y)
      with body [OF p] r have "Q y w1 w2" by (simp add: wp_def)
      with Inr r p show ?thesis by (auto simp: wp_def)
    qed
  qed
  then have "wp (xbind (xwhen (\<not> unique x w) (detach x)) (\<lambda>_. ?body)) ?Q (failed ds w) w"
    by (simp only: wp_bind)
  then show ?thesis
    by (rule wp_cong [OF with_detach_eq, THEN iffD2])
qed

end
