(* ===== verification/CowStack_Props.thy ===== *)
theory CowStack_Props
  imports CowStack_Vars Refine
begin

text \<open>
  The stack against its specification: a variable is a list of pairs of a key and a value, and
  copies are independent. All calls that return leave the lists the specification says, calls
  that run out of memory leave them as they were, and two uses are shown to break the
  abstraction: pushing after a key was popped from below the top, and assignment after a
  reference was taken.
\<close>

section \<open>Calls and their specification\<close>

datatype ('k, 'v) call =
    New
  | CopyOf nat
  | MoveOf nat
  | AssignTo nat nat
  | Destroy nat
  | Push nat 'k 'v
  | Pop nat
  | PopKey nat 'k
  | Front nat
  | FrontConst nat
  | FrontKey nat 'k
  | Size nat
  | Count nat 'k
  | Clear nat
  | Keys nat

datatype ('k, 'v) res =
    Done
  | Item 'k 'v
  | Value 'v
  | Number nat
  | KeyList "'k list"

definition read_cell :: "addr \<Rightarrow> (('k, 'v) world, 'v) exec" where
  "read_cell c = xget (\<lambda>w. cells w c)"

fun run_call :: "('k :: linorder, 'v) call \<Rightarrow> (('k, 'v) world, ('k, 'v) res) exec" where
  "run_call New = xbind stack_new (\<lambda>_. xreturn Done)"
| "run_call (CopyOf y) = xbind (stack_copy y) (\<lambda>_. xreturn Done)"
| "run_call (MoveOf y) = xbind (stack_move y) (\<lambda>_. xreturn Done)"
| "run_call (AssignTo x y) = xbind (stack_assign x y) (\<lambda>_. xreturn Done)"
| "run_call (Destroy x) = xbind (stack_destroy x) (\<lambda>_. xreturn Done)"
| "run_call (Push x k v) = xbind (stack_push x k v) (\<lambda>_. xreturn Done)"
| "run_call (Pop x) = xbind (stack_pop x) (\<lambda>_. xreturn Done)"
| "run_call (PopKey x k) = xbind (stack_pop_key x k) (\<lambda>_. xreturn Done)"
| "run_call (Front x) = xbind (stack_front x) (\<lambda>r. xbind (read_cell (snd r)) (\<lambda>v. xreturn (Item (fst r) v)))"
| "run_call (FrontConst x) =
     xbind (stack_front_const x) (\<lambda>r. xbind (read_cell (snd r)) (\<lambda>v. xreturn (Item (fst r) v)))"
| "run_call (FrontKey x k) = xbind (stack_front_key x k) (\<lambda>c. xbind (read_cell c) (\<lambda>v. xreturn (Value v)))"
| "run_call (Size x) = xbind (stack_size x) (\<lambda>n. xreturn (Number n))"
| "run_call (Count x k) = xbind (stack_count x k) (\<lambda>n. xreturn (Number n))"
| "run_call (Clear x) = xbind (stack_clear x) (\<lambda>_. xreturn Done)"
| "run_call (Keys x) = xbind (stack_keys x) (\<lambda>ks. xreturn (KeyList ks))"

type_synonym ('k, 'v) views = "('k \<times> 'v) list option list"

definition alive :: "nat \<Rightarrow> ('k, 'v) views \<Rightarrow> bool" where
  "alive x vs \<longleftrightarrow> x < length vs \<and> vs ! x \<noteq> None"

fun spec_call :: "('k :: linorder, 'v) call \<Rightarrow> ('k, 'v) views \<Rightarrow> ('k, 'v) res throws \<times> ('k, 'v) views" where
  "spec_call New vs = (Inr Done, vs @ [Some []])"
| "spec_call (CopyOf y) vs = (Inr Done, vs @ [vs ! y])"
| "spec_call (MoveOf y) vs = (Inr Done, vs[y := None] @ [vs ! y])"
| "spec_call (AssignTo x y) vs = (Inr Done, vs[x := vs ! y])"
| "spec_call (Destroy x) vs = (Inr Done, vs[x := None])"
| "spec_call (Push x k v) vs = (Inr Done, vs[x := Some ((k, v) # the (vs ! x))])"
| "spec_call (Pop x) vs =
     (case the (vs ! x) of [] \<Rightarrow> (Inl empty_error, vs) | p # ps \<Rightarrow> (Inr Done, vs[x := Some ps]))"
| "spec_call (PopKey x k) vs =
     (if k \<in> fst ` set (the (vs ! x)) then (Inr Done, vs[x := Some (remove_key k (the (vs ! x)))])
      else (Inl key_error, vs))"
| "spec_call (Front x) vs =
     (case the (vs ! x) of [] \<Rightarrow> (Inl empty_error, vs) | p # ps \<Rightarrow> (Inr (Item (fst p) (snd p)), vs))"
| "spec_call (FrontConst x) vs =
     (case the (vs ! x) of [] \<Rightarrow> (Inl empty_error, vs) | p # ps \<Rightarrow> (Inr (Item (fst p) (snd p)), vs))"
| "spec_call (FrontKey x k) vs =
     (case filter (\<lambda>p. fst p = k) (the (vs ! x)) of
        [] \<Rightarrow> (Inl key_error, vs) | p # ps \<Rightarrow> (Inr (Value (snd p)), vs))"
| "spec_call (Size x) vs = (Inr (Number (length (the (vs ! x)))), vs)"
| "spec_call (Count x k) vs = (Inr (Number (length (filter (\<lambda>p. fst p = k) (the (vs ! x))))), vs)"
| "spec_call (Clear x) vs = (Inr Done, vs[x := Some []])"
| "spec_call (Keys x) vs = (Inr (KeyList (sorted_list_of_set (fst ` set (the (vs ! x))))), vs)"

text \<open>
  Which calls the specification covers. A variable is \<^emph>\<open>marked\<close> when \<open>pop(key)\<close> took an element from below its
  top, or it got its contents from a marked one, and it was not cleared or filled from empty since: its
  heights may have a gap, and a push on it may be lost. So a push on a marked stack that is not empty is
  left out, and so is every use of a variable that does not exist, was destroyed or was moved from (a null
  pointer in the code), except to destroy it or to assign to it.
\<close>

fun marks :: "('k, 'v) call \<Rightarrow> ('k, 'v) views \<Rightarrow> bool list \<Rightarrow> bool list" where
  "marks New vs ds = ds @ [False]"
| "marks (CopyOf y) vs ds = ds @ [ds ! y]"
| "marks (MoveOf y) vs ds = ds @ [ds ! y]"
| "marks (AssignTo x y) vs ds = ds[x := ds ! y]"
| "marks (Push x k v) vs ds = ds[x := False]"
| "marks (PopKey x k) vs ds =
     (if k \<in> fst ` set (the (vs ! x)) \<and> fst (hd (the (vs ! x))) \<noteq> k then ds[x := True] else ds)"
| "marks (Clear x) vs ds = ds[x := False]"
| "marks (Destroy x) vs ds = ds"
| "marks (Pop x) vs ds = ds"
| "marks (Front x) vs ds = ds"
| "marks (FrontConst x) vs ds = ds"
| "marks (FrontKey x k) vs ds = ds"
| "marks (Size x) vs ds = ds"
| "marks (Count x k) vs ds = ds"
| "marks (Keys x) vs ds = ds"

fun allowed :: "('k, 'v) call \<Rightarrow> ('k, 'v) views \<Rightarrow> bool list \<Rightarrow> bool" where
  "allowed New vs ds = True"
| "allowed (CopyOf y) vs ds = alive y vs"
| "allowed (MoveOf y) vs ds = alive y vs"
| "allowed (AssignTo x y) vs ds = (x < length vs \<and> alive y vs)"
| "allowed (Destroy x) vs ds = (x < length vs)"
| "allowed (Push x k v) vs ds = (alive x vs \<and> (\<not> ds ! x \<or> the (vs ! x) = []))"
| "allowed (Pop x) vs ds = alive x vs"
| "allowed (PopKey x k) vs ds = alive x vs"
| "allowed (Front x) vs ds = alive x vs"
| "allowed (FrontConst x) vs ds = alive x vs"
| "allowed (FrontKey x k) vs ds = alive x vs"
| "allowed (Size x) vs ds = alive x vs"
| "allowed (Count x k) vs ds = alive x vs"
| "allowed (Clear x) vs ds = alive x vs"
| "allowed (Keys x) vs ds = alive x vs"

text \<open>A step of the specification: on the contents, and on the marks.\<close>

fun spec_step :: "('k :: linorder, 'v) call \<Rightarrow> ('k, 'v) views \<times> bool list \<Rightarrow>
    ('k, 'v) res throws \<times> ('k, 'v) views \<times> bool list" where
  "spec_step cl (vs, ds) = (fst (spec_call cl vs), snd (spec_call cl vs), marks cl vs ds)"

fun guard :: "('k, 'v) call \<Rightarrow> ('k, 'v) views \<times> bool list \<Rightarrow> bool" where
  "guard cl (vs, ds) = allowed cl vs ds"

section \<open>One call\<close>

lemma alive_view: "alive x (view w) = live x w"
  by (auto simp: alive_def live_def view_def)

lemma view_nth:
  fixes w :: "('k :: linorder, 'v) world"
  shows "live x w \<Longrightarrow> view w ! x = Some (contents (cells w) (inner_of x w))"
  using live_pointer(1) [of x w] by (simp add: live_def view_def inner_of_def)

lemma length_view [simp]: "length (view w) = length (vars w)"
  by (simp add: view_def)

definition meets :: "bool list \<Rightarrow> ('k :: linorder, 'v) call \<Rightarrow> ('k, 'v) world \<Rightarrow> bool" where
  "meets ds cl w \<longleftrightarrow>
     wp (run_call cl)
       (\<lambda>r w'. world_ok (marks cl (view w) ds) w' \<and> no_new_faults w w' \<and> (Inr r, view w') = spec_call cl (view w))
       (\<lambda>e w'. failed ds w e w' \<or>
          world_ok ds w' \<and> no_new_faults w w' \<and> (Inl e, view w') = spec_call cl (view w)) w"

lemma may_throw_ok:
  assumes "world_ok ds w"
    and "\<And>fs. world_ok ds (w\<lparr>faults := fs\<rparr>) \<Longrightarrow> view (w\<lparr>faults := fs\<rparr>) = view w \<Longrightarrow>
      (faults w = [] \<Longrightarrow> fs = []) \<Longrightarrow> Q () (w\<lparr>faults := fs\<rparr>)"
    and "\<And>e w'. failed ds w e w' \<Longrightarrow> E e w'"
  shows "wp may_throw Q E w"
proof (rule wp_may_throw)
  fix fs
  have *: "world_ok ds (w\<lparr>faults := fs\<rparr>)" "view (w\<lparr>faults := fs\<rparr>) = view w"
    using older_view [OF assms(1), of "w\<lparr>faults := fs\<rparr>"] by (simp_all add: older_def)
  show "Q () (w\<lparr>faults := fs\<rparr>)" if "faults w = [] \<Longrightarrow> fs = []"
    by (rule assms(2) [OF * that])
  show "E Bad_alloc (w\<lparr>faults := fs\<rparr>)" if "faults w \<noteq> []"
    by (rule assms(3)) (simp add: failed_def * that)
qed

lemma failed_trans: "no_new_faults w w1 \<Longrightarrow> view w1 = view w \<Longrightarrow> failed ds w1 e w2 \<Longrightarrow> failed ds w e w2"
  by (auto simp: failed_def no_new_faults_def)

text \<open>A change of the private inner stack, as seen through the view.\<close>

lemma change_view:
  assumes ok: "world_ok ds w" and x: "live x w" and p: "isolated x w w1"
    and ch: "changed (stack_pointer x w1) g w1 w2"
    and g: "inner_ok (next_cell w2) (g (inners w1 (stack_pointer x w1)))"
    and d: "d \<or> compact (g (inners w1 (stack_pointer x w1)))"
  shows "world_ok (ds[x := d]) w2 \<and> no_new_faults w w2 \<and>
     view w2 = (view w)[x := Some (contents (cells w2) (g (inners w1 (stack_pointer x w1))))]"
  using isolated_changed [OF ok x p ch g d] isolatedD(2) [OF p] ch
  by (simp add: changed_def no_new_faults_def)

text \<open>When the variable is not marked, or empty, its private inner stack has no gap.\<close>

lemma isolated_compact:
  assumes "world_ok ds w" "live x w" "isolated x w w1" "\<not> ds ! x \<or> contents (cells w) (inner_of x w) = []"
  shows "compact (inners w1 (stack_pointer x w1))"
proof -
  have "compact (inners w (stack_pointer x w))"
    using live_pointer(3) [OF assms(1,2)] assms(4)
    by (auto simp: contents_def inner_of_def intro: compact_empty)
  then show ?thesis using isolatedD(6) [OF assms(3)] by simp
qed

lemma isolated_contents:
  assumes "isolated x w w1" and ch: "changed (stack_pointer x w1) g w1 w2"
  shows "contents (cells w2) (inners w1 (stack_pointer x w1)) = contents (cells w) (inner_of x w)"
    and "inner_ok (next_cell w1) (inners w1 (stack_pointer x w1))"
    and "inner_ok (next_cell w2) (inners w1 (stack_pointer x w1))"
proof -
  note D = isolatedD [OF assms(1)]
  show i: "inner_ok (next_cell w1) (inners w1 (stack_pointer x w1))"
    using D(5) by (simp add: pointer_ok_def)
  then show "inner_ok (next_cell w2) (inners w1 (stack_pointer x w1))"
    using ch by (auto simp: changed_def intro: inner_ok_mono)
  show "contents (cells w2) (inners w1 (stack_pointer x w1)) = contents (cells w) (inner_of x w)"
  proof -
    have "contents (cells w2) (inners w1 (stack_pointer x w1)) =
        contents (cells w1) (inners w1 (stack_pointer x w1))"
      by (rule contents_cells [OF i]) (use ch in \<open>simp add: changed_def\<close>)
    with D(7) show ?thesis by (simp add: inner_of_def)
  qed
qed

section \<open>The calls that change a variable\<close>

lemma same_contents:
  fixes w :: "('k :: linorder, 'v) world"
  assumes "live x w"
  shows "(view w)[x := Some (contents (cells w) (inner_of x w))] = view w"
  using view_nth [OF assms] by (metis list_update_id)

lemma push_meets:
  fixes w :: "('k :: linorder, 'v) world"
  assumes ok: "world_ok ds w" and x: "live x w" and tidy: "\<not> ds ! x \<or> the (view w ! x) = []"
  shows "meets ds (Push x k v) w"
proof -
  have comp: "compact (inners w1 (stack_pointer x w1))" if "isolated x w w1" for w1
    using isolated_compact [OF ok x that] tidy view_nth [OF x] by simp
  have "wp (with_detach x (\<lambda>a. inner_push a k v))
     (\<lambda>_ w2. \<exists>w1. isolated x w w1 \<and> changed (stack_pointer x w1) (pushed k (next_cell w1)) w1 w2 \<and>
        next_cell w2 = Suc (next_cell w1) \<and> cells w2 (next_cell w1) = v) (failed ds w) w"
    by (rule with_detach_wp [OF ok x], rule inner_push_wp)
      (auto dest: isolatedD(5) comp simp: pointer_ok_def)
  then have "wp (stack_push x k v) (\<lambda>_ w2. world_ok (ds[x := False]) w2 \<and> no_new_faults w w2 \<and>
      view w2 = (view w)[x := Some ((k, v) # the (view w ! x))]) (failed ds w) w"
    unfolding stack_push_def
  proof (rule wp_mono, elim exE conjE)
    fix w1 w2 assume p: "isolated x w w1" and ch: "changed (stack_pointer x w1) (pushed k (next_cell w1)) w1 w2"
      and n: "next_cell w2 = Suc (next_cell w1)" and c: "cells w2 (next_cell w1) = v"
    note i = isolated_contents [OF p ch]
    have "inner_ok (next_cell w2) (pushed k (next_cell w1) (inners w1 (stack_pointer x w1)))"
      by (rule pushed_ok [OF i(2) comp [OF p]]) (simp_all add: n)
    from change_view [OF ok x p ch this, of False] compact_pushed [OF comp [OF p]]
    show "world_ok (ds[x := False]) w2 \<and> no_new_faults w w2 \<and>
        view w2 = (view w)[x := Some ((k, v) # the (view w ! x))]"
      by (simp add: c i(1) view_nth [OF x])
  qed
  then show ?thesis
    unfolding meets_def by (auto simp: wp_simps elim: wp_mono)
qed

text \<open>The two \<open>pop\<close> methods take the topmost element with key \<open>k\<close>; when it is not the top of the stack, the
  variable is marked.\<close>

lemma pop_body:
  fixes w :: "('k :: linorder, 'v) world"
  assumes ok: "world_ok ds w" and x: "live x w" and k: "k \<in> fst ` set (contents (cells w) (inner_of x w))"
    and d: "d \<or> \<not> ds ! x \<and> fst (hd (contents (cells w) (inner_of x w))) = k"
    and step: "\<And>w1 e fs. isolated x w w1 \<Longrightarrow> elements_of k (element_set (inners w1 (stack_pointer x w1))) = e # fs \<Longrightarrow>
       (\<And>f es. element_set (inners w1 (stack_pointer x w1)) = f # es \<Longrightarrow>
          get_key f = fst (hd (contents (cells w) (inner_of x w)))) \<Longrightarrow>
       wp (body (stack_pointer x w1)) (\<lambda>_ w2. changed (stack_pointer x w1) (popped e) w1 w2 \<and>
          next_cell w2 = next_cell w1) (thrown w1) w1"
  shows "wp (with_detach x body) (\<lambda>_ w2. world_ok (ds[x := d]) w2 \<and> no_new_faults w w2 \<and>
      view w2 = (view w)[x := Some (remove_key k (contents (cells w) (inner_of x w)))]) (failed ds w) w"
proof -
  let ?xs = "contents (cells w) (inner_of x w)"
  have same: "contents (cells w1) (inners w1 (stack_pointer x w1)) = ?xs" if "isolated x w w1" for w1
    using isolatedD(7) [OF that] by (simp add: inner_of_def)
  have first: "\<exists>e fs. elements_of k (element_set (inners w1 (stack_pointer x w1))) = e # fs"
    if "isolated x w w1" for w1
  proof -
    have "k \<in> get_key ` set (element_set (inners w1 (stack_pointer x w1)))"
      using k unfolding same [OF that, symmetric] by (simp add: contents_def image_image)
    then have "elements_of k (element_set (inners w1 (stack_pointer x w1))) \<noteq> []"
      by (auto simp: elements_of_def filter_empty_conv)
    then show ?thesis by (meson neq_Nil_conv)
  qed
  have top: "get_key f = fst (hd ?xs)"
    if "isolated x w w1" "element_set (inners w1 (stack_pointer x w1)) = f # es" for w1 f es
  proof -
    have "fst (hd (contents (cells w1) (inners w1 (stack_pointer x w1)))) = get_key f"
      unfolding contents_def that(2) by simp
    then show ?thesis using same [OF that(1)] by simp
  qed
  have "wp (with_detach x body) (\<lambda>_ w2. \<exists>w1. isolated x w w1 \<and>
      (\<exists>e fs. elements_of k (element_set (inners w1 (stack_pointer x w1))) = e # fs \<and>
        changed (stack_pointer x w1) (popped e) w1 w2)) (failed ds w) w"
  proof (rule with_detach_wp [OF ok x])
    fix w1 assume p: "isolated x w w1"
    from first [OF p] obtain e fs where e: "elements_of k (element_set (inners w1 (stack_pointer x w1))) = e # fs"
      by blast
    have "wp (body (stack_pointer x w1)) (\<lambda>_ w2. changed (stack_pointer x w1) (popped e) w1 w2 \<and>
        next_cell w2 = next_cell w1) (thrown w1) w1"
      by (rule step [OF p e]) (rule top [OF p])
    with e show "wp (body (stack_pointer x w1)) (\<lambda>r w2. \<exists>e fs.
        elements_of k (element_set (inners w1 (stack_pointer x w1))) = e # fs \<and>
        changed (stack_pointer x w1) (popped e) w1 w2) (thrown w1) w1"
      by (elim wp_mono) auto
  qed
  then show ?thesis
  proof (rule wp_mono, elim exE conjE)
    fix w1 w2 e fs assume p: "isolated x w w1"
      and e: "elements_of k (element_set (inners w1 (stack_pointer x w1))) = e # fs"
      and ch: "changed (stack_pointer x w1) (popped e) w1 w2"
    note i = isolated_contents [OF p ch]
    have in_set: "e \<in> set (element_set (inners w1 (stack_pointer x w1)))" using key_of [OF e] by simp
    have "d \<or> compact (popped e (inners w1 (stack_pointer x w1)))"
    proof (cases d)
      case False
      with d have nd: "\<not> ds ! x" and hd: "fst (hd ?xs) = k" by simp_all
      obtain f es where f: "element_set (inners w1 (stack_pointer x w1)) = f # es"
        using in_set by (cases "element_set (inners w1 (stack_pointer x w1))") auto
      with top [OF p f] hd e have "element_set (inners w1 (stack_pointer x w1)) = e # es"
        by (simp add: elements_of_def)
      with compact_popped_top [OF i(2)] isolated_compact [OF ok x p] nd show ?thesis by blast
    qed simp
    from change_view [OF ok x p ch popped_ok [OF i(3) in_set] this]
      contents_popped [OF i(3) e, of "cells w2"] i(1)
    show "world_ok (ds[x := d]) w2 \<and> no_new_faults w w2 \<and> view w2 = (view w)[x := Some (remove_key k ?xs)]"
      by simp
  qed
qed

lemma inner_facts:
  fixes w :: "('k :: linorder, 'v) world"
  assumes "world_ok ds w" "live x w"
  shows "inner_ok (next_cell w) (inner_of x w)"
    and "height (inner_of x w) = length (the (view w ! x))"
    and "inner_count (inner_of x w) k = length (filter (\<lambda>p. fst p = k) (the (view w ! x)))"
    and "keys (inner_of x w) = sorted_list_of_set (fst ` set (the (view w ! x)))"
proof -
  show i: "inner_ok (next_cell w) (inner_of x w)"
    using live_pointer(2) [OF assms] by (simp add: inner_of_def pointer_ok_def)
  show "height (inner_of x w) = length (the (view w ! x))"
    "inner_count (inner_of x w) k = length (filter (\<lambda>p. fst p = k) (the (view w ! x)))"
    "keys (inner_of x w) = sorted_list_of_set (fst ` set (the (view w ! x)))"
    using length_contents [OF i, of "cells w"] count_contents [OF i, of k "cells w"]
      keys_contents [OF i, of "cells w"] by (simp_all add: view_nth [OF assms(2)])
qed

lemma isolated_ok: "isolated x w w1 \<Longrightarrow> inner_ok (next_cell w1) (inners w1 (stack_pointer x w1))"
  by (drule isolatedD(5)) (simp add: pointer_ok_def)

lemma no_new_faults_refl [simp]: "no_new_faults w w"
  by (simp add: no_new_faults_def)

lemma pop_meets:
  fixes w :: "('k :: linorder, 'v) world"
  assumes ok: "world_ok ds w" and x: "live x w"
  shows "meets ds (Pop x) w"
proof (cases "the (view w ! x)")
  case Nil
  then show ?thesis
    using ok inner_facts(2) [OF ok x] by (simp add: meets_def stack_pop_def wp_simps)
next
  case (Cons p ps)
  have xs: "contents (cells w) (inner_of x w) = p # ps" using Cons view_nth [OF x] by simp
  have "wp (with_detach x inner_pop) (\<lambda>_ w2. world_ok (ds[x := ds ! x]) w2 \<and> no_new_faults w w2 \<and>
      view w2 = (view w)[x := Some (remove_key (fst p) (contents (cells w) (inner_of x w)))]) (failed ds w) w"
  proof (rule pop_body [OF ok x])
    fix w1 e fs assume p: "isolated x w w1"
      and e: "elements_of (fst p) (element_set (inners w1 (stack_pointer x w1))) = e # fs"
      and top: "\<And>f es. element_set (inners w1 (stack_pointer x w1)) = f # es \<Longrightarrow>
        get_key f = fst (hd (contents (cells w) (inner_of x w)))"
    obtain f es where f: "element_set (inners w1 (stack_pointer x w1)) = f # es"
      using key_of [OF e] by (cases "element_set (inners w1 (stack_pointer x w1))") auto
    with top [OF f] e xs have "f = e" by (simp add: elements_of_def)
    with inner_pop_wp [OF isolated_ok [OF p] f]
    show "wp (inner_pop (stack_pointer x w1)) (\<lambda>_ w2. changed (stack_pointer x w1) (popped e) w1 w2 \<and>
        next_cell w2 = next_cell w1) (thrown w1) w1" by simp
  qed (use xs in auto)
  then show ?thesis
    using Cons inner_facts(2) [OF ok x]
    by (auto simp: meets_def stack_pop_def wp_simps xs elim: wp_mono)
qed

lemma pop_key_meets:
  fixes w :: "('k :: linorder, 'v) world"
  assumes ok: "world_ok ds w" and x: "live x w"
  shows "meets ds (PopKey x k) w"
proof -
  let ?xs = "the (view w ! x)"
  define d where "d = (ds ! x \<or> fst (hd ?xs) \<noteq> k)"
  define Q where "Q = (\<lambda>w'. world_ok (marks (PopKey x k) (view w) ds) w' \<and> no_new_faults w w' \<and>
      (Inr Done, view w') = spec_call (PopKey x k) (view w))"
  define E where "E = (\<lambda>e w'. failed ds w e w' \<or>
      world_ok ds w' \<and> no_new_faults w w' \<and> (Inl e, view w') = spec_call (PopKey x k) (view w))"
  have "wp may_throw (\<lambda>_ w1. wp (if inner_count (inner_of x w1) k = 0 then xthrow key_error
      else with_detach x (\<lambda>a. inner_pop_key a k)) (\<lambda>_. Q) E w1) E w"
  proof (rule may_throw_ok [OF ok])
    fix fs assume ok1: "world_ok ds (w\<lparr>faults := fs\<rparr>)" and v1: "view (w\<lparr>faults := fs\<rparr>) = view w"
      and nf: "faults w = [] \<Longrightarrow> fs = []"
    let ?w = "w\<lparr>faults := fs\<rparr>"
    have x1: "live x ?w" using x by (simp add: live_def)
    have c: "inner_count (inner_of x ?w) k = length (filter (\<lambda>p. fst p = k) ?xs)"
      using inner_facts(3) [OF ok1 x1] v1 by simp
    have n: "no_new_faults w ?w" using nf by (simp add: no_new_faults_def)
    show "wp (if inner_count (inner_of x ?w) k = 0 then xthrow key_error
      else with_detach x (\<lambda>a. inner_pop_key a k)) (\<lambda>_. Q) E ?w"
    proof (cases "filter (\<lambda>p. fst p = k) ?xs")
      case Nil
      then have "spec_call (PopKey x k) (view w) = (Inl key_error, view w)"
        by (auto simp: filter_empty_conv)
      with Nil c n ok1 v1 show ?thesis by (simp add: wp_simps E_def)
    next
      case (Cons q qs)
      then have k: "k \<in> fst ` set ?xs" by (auto simp: filter_eq_Cons_iff)
      have cw: "contents (cells ?w) (inner_of x ?w) = ?xs"
        using view_nth [OF x1] v1 by simp
      have marked: "ds[x := d] = marks (PopKey x k) (view w) ds"
        using k by (simp add: d_def)
      have "wp (with_detach x (\<lambda>a. inner_pop_key a k)) (\<lambda>_ w2. world_ok (ds[x := d]) w2 \<and> no_new_faults ?w w2 \<and>
          view w2 = (view ?w)[x := Some (remove_key k (contents (cells ?w) (inner_of x ?w)))]) (failed ds ?w) ?w"
      proof (rule pop_body [OF ok1 x1])
        fix w1 e fs assume p: "isolated x ?w w1"
          and e: "elements_of k (element_set (inners w1 (stack_pointer x w1))) = e # fs"
        show "wp (inner_pop_key (stack_pointer x w1) k) (\<lambda>_ w2. changed (stack_pointer x w1) (popped e) w1 w2 \<and>
            next_cell w2 = next_cell w1) (thrown w1) w1"
          by (rule inner_pop_key_wp [OF isolated_ok [OF p] e])
      qed (use k cw in \<open>auto simp: d_def\<close>)
      then have "wp (with_detach x (\<lambda>a. inner_pop_key a k)) (\<lambda>_. Q) E ?w"
      proof (rule wp_mono, elim conjE)
        fix w2 assume "world_ok (ds[x := d]) w2" "no_new_faults ?w w2"
          "view w2 = (view ?w)[x := Some (remove_key k (contents (cells ?w) (inner_of x ?w)))]"
        then show "Q w2" using k n unfolding Q_def marked cw v1 by (simp add: no_new_faults_def)
      qed (simp add: E_def failed_trans [OF n v1])
      then show ?thesis using c Cons by simp
    qed
  qed (simp add: E_def)
  then show ?thesis
    unfolding meets_def Q_def [symmetric] E_def [symmetric]
    by (simp add: stack_pop_key_def wp_all Q_def)
qed

section \<open>The calls that read\<close>

lemma filter_contents:
  "filter (\<lambda>p. fst p = k) (contents cs s) =
     map (\<lambda>e. (get_key e, cs (value_pointer e))) (elements_of k (element_set s))"
  by (simp add: contents_def elements_of_def filter_map comp_def)

text \<open>Handing out a reference changes no contents.\<close>

lemma reference_view:
  fixes w :: "('k :: linorder, 'v) world"
  assumes ok: "world_ok ds w" and x: "live x w" and p: "isolated x w w1"
    and ch: "changed (stack_pointer x w1) (\<lambda>s. s\<lparr>was_referenced := True\<rparr>) w1 w2"
  shows "world_ok ds w2 \<and> no_new_faults w w2 \<and> view w2 = view w"
proof -
  note i = isolated_contents [OF p ch]
  have "contents (cells w2) ((inners w1 (stack_pointer x w1))\<lparr>was_referenced := True\<rparr>) =
      contents (cells w) (inner_of x w)"
    using i(1) by (simp add: contents_def)
  moreover have "ds ! x \<or> compact ((inners w1 (stack_pointer x w1))\<lparr>was_referenced := True\<rparr>)"
    using isolated_compact [OF ok x p] by auto
  ultimately show ?thesis using change_view [OF ok x p ch, of "ds ! x"] i(3) same_contents [OF x] by simp
qed

lemma front_meets:
  fixes w :: "('k :: linorder, 'v) world"
  assumes ok: "world_ok ds w" and x: "live x w"
  shows "meets ds (Front x) w"
proof (cases "the (view w ! x)")
  case Nil
  then show ?thesis
    using ok inner_facts(2) [OF ok x] by (simp add: meets_def stack_front_def wp_simps)
next
  case (Cons p ps)
  have xs: "contents (cells w) (inner_of x w) = p # ps" using Cons view_nth [OF x] by simp
  have "wp (xwhen (\<not> unique x w) (detach x)) (\<lambda>_. wp (\<lambda>w. inner_front (stack_pointer x w) w)
      (\<lambda>r w2. world_ok ds w2 \<and> no_new_faults w w2 \<and> view w2 = view w \<and> (fst r, cells w2 (snd r)) = p) (failed ds w))
      (failed ds w) w"
  proof (rule wp_mono [OF detach_step [OF ok x]], elim conjE)
    fix w1 assume p: "isolated x w w1"
    obtain e es where e: "element_set (inners w1 (stack_pointer x w1)) = e # es"
      using isolatedD(7) [OF p] xs
      by (cases "element_set (inners w1 (stack_pointer x w1))") (auto simp: contents_def inner_of_def)
    have "wp (inner_front (stack_pointer x w1)) (\<lambda>r w2. world_ok ds w2 \<and> no_new_faults w w2 \<and>
        view w2 = view w \<and> (fst r, cells w2 (snd r)) = p) (failed ds w) w1"
    proof (rule wp_mono [OF inner_front_wp [OF e]], elim conjE)
      fix r w2 assume ch: "changed (stack_pointer x w1) (\<lambda>s. s\<lparr>was_referenced := True\<rparr>) w1 w2"
        and r: "r = (get_key e, value_pointer e)"
      have "contents (cells w2) (inners w1 (stack_pointer x w1)) = p # ps"
        using isolated_contents(1) [OF p ch] xs by simp
      then have "(fst r, cells w2 (snd r)) = p" by (simp add: contents_def e r)
      with reference_view [OF ok x p ch] show "world_ok ds w2 \<and> no_new_faults w w2 \<and>
        view w2 = view w \<and> (fst r, cells w2 (snd r)) = p" by simp
    qed simp
    then show "wp (\<lambda>w. inner_front (stack_pointer x w) w) (\<lambda>r w2. world_ok ds w2 \<and> no_new_faults w w2 \<and>
        view w2 = view w \<and> (fst r, cells w2 (snd r)) = p) (failed ds w) w1"
      by (simp add: wp_def)
  qed
  then show ?thesis
    using Cons inner_facts(2) [OF ok x]
    by (auto simp: meets_def stack_front_def wp_simps read_cell_def elim!: wp_mono)
qed

lemma front_const_meets:
  fixes w :: "('k :: linorder, 'v) world"
  assumes ok: "world_ok ds w" and x: "live x w"
  shows "meets ds (FrontConst x) w"
proof (cases "the (view w ! x)")
  case Nil
  then show ?thesis
    using ok inner_facts(2) [OF ok x] by (simp add: meets_def stack_front_const_def wp_simps)
next
  case (Cons p ps)
  then have "contents (cells w) (inners w (stack_pointer x w)) = p # ps"
    using view_nth [OF x] by (simp add: inner_of_def)
  then obtain e es where "element_set (inners w (stack_pointer x w)) = e # es"
    "p = (get_key e, cells w (value_pointer e))"
    by (cases "element_set (inners w (stack_pointer x w))") (auto simp: contents_def)
  then show ?thesis
    using ok Cons inner_facts(2) [OF ok x]
    by (simp add: meets_def stack_front_const_def wp_all inner_front_const_def read_cell_def)
      (simp add: wp_def inner_front_const_def xbind_def xget_def xreturn_def)
qed

lemma reading_keys:
  fixes w :: "('k :: linorder, 'v) world"
  assumes ok: "world_ok ds w" and x: "live x w"
    and ret: "\<And>fs. world_ok ds (w\<lparr>faults := fs\<rparr>) \<Longrightarrow> live x (w\<lparr>faults := fs\<rparr>) \<Longrightarrow>
      view (w\<lparr>faults := fs\<rparr>) = view w \<Longrightarrow> no_new_faults w (w\<lparr>faults := fs\<rparr>) \<Longrightarrow> Q () (w\<lparr>faults := fs\<rparr>)"
    and E: "\<And>e w'. failed ds w e w' \<Longrightarrow> E e w'"
  shows "wp may_throw Q E w"
  using x by (intro may_throw_ok [OF ok _ E] ret) (auto simp: live_def no_new_faults_def)

lemma count_meets:
  fixes w :: "('k :: linorder, 'v) world"
  assumes ok: "world_ok ds w" and x: "live x w"
  shows "meets ds (Count x k) w"
  unfolding meets_def
  by (simp add: stack_count_def wp_all, rule reading_keys [OF ok x]) (simp_all add: inner_facts(3))

lemma front_key_meets:
  fixes w :: "('k :: linorder, 'v) world"
  assumes ok: "world_ok ds w" and x: "live x w"
  shows "meets ds (FrontKey x k) w"
proof -
  let ?xs = "the (view w ! x)"
  define Q where "Q = (\<lambda>c w'. world_ok ds w' \<and> no_new_faults w w' \<and>
      (Inr (Value (cells w' c)), view w') = spec_call (FrontKey x k) (view w))"
  define E where "E = (\<lambda>e w'. failed ds w e w' \<or>
      world_ok ds w' \<and> no_new_faults w w' \<and> (Inl e, view w') = spec_call (FrontKey x k) (view w))"
  have "wp may_throw (\<lambda>_ w1. wp (if inner_count (inner_of x w1) k = 0 then xthrow key_error
      else with_detach x (\<lambda>a. inner_front_key a k)) Q E w1) E w"
  proof (rule reading_keys [OF ok x])
    fix fs
    let ?w = "w\<lparr>faults := fs\<rparr>"
    assume ok1: "world_ok ds ?w" and x1: "live x ?w" and v1: "view ?w = view w" and n: "no_new_faults w ?w"
    have c: "inner_count (inner_of x ?w) k = length (filter (\<lambda>p. fst p = k) ?xs)"
      using inner_facts(3) [OF ok1 x1] v1 by simp
    show "wp (if inner_count (inner_of x ?w) k = 0 then xthrow key_error
      else with_detach x (\<lambda>a. inner_front_key a k)) Q E ?w"
    proof (cases "filter (\<lambda>p. fst p = k) ?xs")
      case Nil
      with c n ok1 v1 show ?thesis by (simp add: wp_simps E_def)
    next
      case (Cons q qs)
      have cw: "filter (\<lambda>p. fst p = k) (contents (cells ?w) (inner_of x ?w)) = q # qs"
        using Cons view_nth [OF x1] v1 by simp
      have "wp (with_detach x (\<lambda>a. inner_front_key a k)) (\<lambda>c w2. \<exists>w1. isolated x ?w w1 \<and>
          (\<exists>e es. elements_of k (element_set (inners w1 (stack_pointer x w1))) = e # es \<and>
            changed (stack_pointer x w1) (\<lambda>s. s\<lparr>was_referenced := True\<rparr>) w1 w2 \<and> c = value_pointer e)) (failed ds ?w) ?w"
      proof (rule with_detach_wp [OF ok1 x1])
        fix w1 assume p: "isolated x ?w w1"
        have "contents (cells w1) (inners w1 (stack_pointer x w1)) = contents (cells ?w) (inner_of x ?w)"
          using isolatedD(7) [OF p] by (simp add: inner_of_def)
        with cw obtain e es where e: "elements_of k (element_set (inners w1 (stack_pointer x w1))) = e # es"
          using filter_contents [of k "cells w1" "inners w1 (stack_pointer x w1)"] by auto
        show "wp (inner_front_key (stack_pointer x w1) k) (\<lambda>c w2. \<exists>e es.
            elements_of k (element_set (inners w1 (stack_pointer x w1))) = e # es \<and>
            changed (stack_pointer x w1) (\<lambda>s. s\<lparr>was_referenced := True\<rparr>) w1 w2 \<and> c = value_pointer e) (thrown w1) w1"
          by (rule wp_mono [OF inner_front_key_wp [OF isolated_ok [OF p] e]]) (use e in auto)
      qed
      then have "wp (with_detach x (\<lambda>a. inner_front_key a k)) Q E ?w"
      proof (rule wp_mono, elim exE conjE)
        fix w1 w2 c e es
        assume p: "isolated x ?w w1" and e: "elements_of k (element_set (inners w1 (stack_pointer x w1))) = e # es"
          and ch: "changed (stack_pointer x w1) (\<lambda>s. s\<lparr>was_referenced := True\<rparr>) w1 w2" and ce: "c = value_pointer e"
        have "cells w2 c = snd q"
          using filter_contents [of k "cells w2" "inners w1 (stack_pointer x w1)"] isolated_contents(1) [OF p ch] cw e ce
          by auto
        with reference_view [OF ok1 x1 p ch] n show "Q c w2"
          by (simp add: Q_def Cons v1 no_new_faults_def)
      next
        fix e t assume "failed ds ?w e t"
        then show "E e t" using failed_trans [OF n v1] by (simp add: E_def)
      qed
      with c Cons show ?thesis by simp
    qed
  qed (simp add: E_def)
  then show ?thesis
    unfolding meets_def Q_def [symmetric] E_def [symmetric]
    by (simp add: stack_front_key_def read_cell_def wp_all Q_def)
qed

lemma size_meets:
  fixes w :: "('k :: linorder, 'v) world"
  assumes ok: "world_ok ds w" and x: "live x w"
  shows "meets ds (Size x) w" and "meets ds (Keys x) w"
  using ok inner_facts(2,4) [OF ok x]
  by (simp_all add: meets_def stack_size_def stack_keys_def wp_all)

lemma clear_meets:
  fixes w :: "('k :: linorder, 'v) world"
  assumes ok: "world_ok ds w" and x: "live x w"
  shows "meets ds (Clear x) w"
proof -
  have "wp (xwhen (\<not> unique x w) (detach x)) (\<lambda>_ w1.
      world_ok (ds[x := False]) (inner_modify (stack_pointer x w1) inner_clear w1) \<and>
      no_new_faults w (inner_modify (stack_pointer x w1) inner_clear w1) \<and>
      view (inner_modify (stack_pointer x w1) inner_clear w1) = (view w)[x := Some []]) (failed ds w) w"
  proof (rule wp_mono [OF detach_step [OF ok x]], elim conjE)
    fix w1 assume p: "isolated x w w1"
    have ch: "changed (stack_pointer x w1) inner_clear w1 (inner_modify (stack_pointer x w1) inner_clear w1)"
      by (simp add: changed_def no_new_faults_def)
    from change_view [where d = False, OF ok x p ch inner_ok_clear disjI2 [OF compact_simps(2)]] show "world_ok (ds[x := False]) (inner_modify (stack_pointer x w1) inner_clear w1) \<and>
      no_new_faults w (inner_modify (stack_pointer x w1) inner_clear w1) \<and>
      view (inner_modify (stack_pointer x w1) inner_clear w1) = (view w)[x := Some []]"
      by (simp add: contents_def inner_clear_def [abs_def] inner_ok_clear [unfolded inner_clear_def])
  qed
  then show ?thesis
    by (auto simp: meets_def stack_clear_def wp_all elim!: wp_mono)
qed

section \<open>The calls on whole variables\<close>

lemma older_old_vars:
  fixes w :: "('k :: linorder, 'v) world"
  assumes "world_ok ds w" "older w w'"
  shows "map (map_option (\<lambda>a. contents (cells w') (inners w' a))) (vars w) = view w"
    and "\<And>x a. x < length (vars w) \<Longrightarrow> vars w ! x = Some a \<Longrightarrow>
      pointer_ok w' a \<and> (ds ! x \<or> compact (inners w' a))"
    and "length ds = length (vars w)"
proof -
  have "older w (w'\<lparr>vars := vars w\<rparr>)" using assms(2) by (simp add: older_def)
  from older_view [OF assms(1) this] show
    "map (map_option (\<lambda>a. contents (cells w') (inners w' a))) (vars w) = view w"
    "\<And>x a. x < length (vars w) \<Longrightarrow> vars w ! x = Some a \<Longrightarrow>
      pointer_ok w' a \<and> (ds ! x \<or> compact (inners w' a))"
    "length ds = length (vars w)"
    by (auto simp: view_def world_ok_def pointer_ok_def)
qed

lemma append_view:
  fixes w :: "('k :: linorder, 'v) world"
  assumes ok: "world_ok ds w" and o: "older w w'" and v: "vars w' = vars w @ [Some b]"
    and b: "pointer_ok w' b" and d: "d \<or> compact (inners w' b)"
  shows "world_ok (ds @ [d]) w' \<and> view w' = view w @ [Some (contents (cells w') (inners w' b))]"
proof -
  note O = older_old_vars [OF ok o]
  have "world_ok (ds @ [d]) w'"
    using O(2,3) b d by (auto simp: world_ok_def v nth_append split: if_splits)
  then show ?thesis using O(1) by (simp add: view_def v)
qed

lemma new_meets:
  fixes w :: "('k :: linorder, 'v) world"
  assumes ok: "world_ok ds w"
  shows "meets ds New w"
proof -
  have "wp may_throw (\<lambda>_ w1. world_ok (ds @ [False]) (w1\<lparr>inners := (inners w1)(next_inner w1 := inner_new),
       next_inner := Suc (next_inner w1), vars := vars w1 @ [Some (next_inner w1)]\<rparr>) \<and>
     no_new_faults w w1 \<and>
     view (w1\<lparr>inners := (inners w1)(next_inner w1 := inner_new),
       next_inner := Suc (next_inner w1), vars := vars w1 @ [Some (next_inner w1)]\<rparr>) = view w @ [Some []])
     (failed ds w) w"
  proof (rule may_throw_ok [OF ok])
    fix fs
    let ?w1 = "w\<lparr>faults := fs\<rparr>"
    let ?w2 = "?w1\<lparr>inners := (inners ?w1)(next_inner ?w1 := inner_new),
       next_inner := Suc (next_inner ?w1), vars := vars ?w1 @ [Some (next_inner ?w1)]\<rparr>"
    assume ok1: "world_ok ds ?w1" and v: "view ?w1 = view w" and nf: "faults w = [] \<Longrightarrow> fs = []"
    have "world_ok (ds @ [False]) ?w2 \<and> view ?w2 = view ?w1 @ [Some (contents (cells ?w2) (inners ?w2 (next_inner ?w1)))]"
      by (rule append_view [OF ok1]) (simp_all add: older_def pointer_ok_def)
    then show "world_ok (ds @ [False]) ?w2 \<and> no_new_faults w ?w1 \<and> view ?w2 = view w @ [Some []]"
      using nf v by (simp add: contents_def inner_new_def no_new_faults_def)
  qed
  then show ?thesis
    by (auto simp: meets_def stack_new_def wp_all no_new_faults_def elim!: wp_mono)
qed

lemma copy_meets:
  fixes w :: "('k :: linorder, 'v) world"
  assumes ok: "world_ok ds w" and y: "live y w"
  shows "meets ds (CopyOf y) w"
proof (cases "was_referenced (inner_of y w)")
  case True
  have "wp (inner_copy (stack_pointer y w)) (\<lambda>b w1. world_ok (ds @ [ds ! y]) (w1\<lparr>vars := vars w1 @ [Some b]\<rparr>) \<and>
      no_new_faults w w1 \<and> view (w1\<lparr>vars := vars w1 @ [Some b]\<rparr>) = view w @ [view w ! y]) (failed ds w) w"
  proof (rule wp_mono [OF inner_copy_wp])
    show "inner_ok (next_cell w) (inners w (stack_pointer y w))" "stack_pointer y w < next_inner w"
      using live_pointer(2) [OF ok y] by (simp_all add: pointer_ok_def)
  next
    fix b w1 assume c: "copied w (stack_pointer y w) b w1"
    note C = copied_older [OF c]
    have cc: "no_new_faults w w1"
      "contents (cells w1) (inners w1 b) = contents (cells w) (inners w (stack_pointer y w))"
      using c unfolding copied_def by blast+
    have "world_ok (ds @ [ds ! y]) (w1\<lparr>vars := vars w1 @ [Some b]\<rparr>) \<and> view (w1\<lparr>vars := vars w1 @ [Some b]\<rparr>) = view w @
        [Some (contents (cells (w1\<lparr>vars := vars w1 @ [Some b]\<rparr>)) (inners (w1\<lparr>vars := vars w1 @ [Some b]\<rparr>) b))]"
      by (rule append_view [OF ok]) (use C c in \<open>auto simp: older_def pointer_ok_def copied_def\<close>)
    then show "world_ok (ds @ [ds ! y]) (w1\<lparr>vars := vars w1 @ [Some b]\<rparr>) \<and> no_new_faults w w1 \<and>
        view (w1\<lparr>vars := vars w1 @ [Some b]\<rparr>) = view w @ [view w ! y]"
      using cc view_nth [OF y] by (simp add: inner_of_def)
  next
    fix e t assume "failed_copy w e t"
    from failed_copy_older [OF this] older_view [OF ok, of t] show "failed ds w e t"
      by (simp add: failed_def)
  qed
  then show ?thesis
    using True by (auto simp: meets_def stack_copy_def wp_all no_new_faults_def elim!: wp_mono)
next
  case False
  let ?w1 = "w\<lparr>vars := vars w @ [Some (stack_pointer y w)]\<rparr>"
  have "world_ok (ds @ [ds ! y]) ?w1 \<and> view ?w1 = view w @ [Some (contents (cells ?w1) (inners ?w1 (stack_pointer y w)))]"
    by (rule append_view [OF ok])
      (use live_pointer(2,3) [OF ok y] in \<open>simp_all add: older_def pointer_ok_def\<close>)
  then show ?thesis
    using False view_nth [OF y]
    by (simp add: meets_def stack_copy_def wp_all no_new_faults_def inner_of_def)
qed

lemma update_view:
  fixes w :: "('k :: linorder, 'v) world"
  assumes ok: "world_ok ds w" and p: "\<And>a. p = Some a \<Longrightarrow> pointer_ok w a \<and> (d \<or> compact (inners w a))"
  shows "world_ok (ds[x := d]) (w\<lparr>vars := (vars w)[x := p]\<rparr>) \<and>
     view (w\<lparr>vars := (vars w)[x := p]\<rparr>) = (view w)[x := map_option (\<lambda>a. contents (cells w) (inners w a)) p]"
proof -
  have len: "length ds = length (vars w)" using ok by (simp add: world_ok_def)
  have "pointer_ok (w\<lparr>vars := (vars w)[x := p]\<rparr>) a" if "pointer_ok w a" for a
    using that by (simp add: pointer_ok_def)
  moreover have "pointer_ok w a \<and> (ds[x := d] ! z \<or> compact (inners w a))"
    if "z < length (vars w)" "(vars w)[x := p] ! z = Some a" for z a
    using that ok p len by (cases "z = x") (auto simp: world_ok_def)
  ultimately have "world_ok (ds[x := d]) (w\<lparr>vars := (vars w)[x := p]\<rparr>)"
    unfolding world_ok_def using len by auto
  then show ?thesis by (simp add: view_def map_update)
qed

lemma assign_meets:
  fixes w :: "('k :: linorder, 'v) world"
  assumes ok: "world_ok ds w" and y: "live y w"
  shows "meets ds (AssignTo x y) w"
  using update_view [OF ok, of "Some (stack_pointer y w)" "ds ! y" x] live_pointer(2,3) [OF ok y] view_nth [OF y]
  by (simp add: meets_def stack_assign_def wp_all set_pointer_def no_new_faults_def inner_of_def)

lemma destroy_meets:
  fixes w :: "('k :: linorder, 'v) world"
  assumes ok: "world_ok ds w"
  shows "meets ds (Destroy x) w"
  using update_view [OF ok, of None "ds ! x" x]
  by (simp add: meets_def stack_destroy_def wp_all no_new_faults_def)

lemma move_meets:
  fixes w :: "('k :: linorder, 'v) world"
  assumes ok: "world_ok ds w" and y: "live y w"
  shows "meets ds (MoveOf y) w"
proof -
  let ?w1 = "w\<lparr>vars := (vars w)[y := None]\<rparr>" and ?a = "stack_pointer y w"
  let ?w2 = "?w1\<lparr>vars := vars ?w1 @ [Some ?a]\<rparr>"
  have 1: "world_ok ds ?w1" "view ?w1 = (view w)[y := None]"
    using update_view [OF ok, of None "ds ! y" y] by simp_all
  have "world_ok (ds @ [ds ! y]) ?w2 \<and>
      view ?w2 = view ?w1 @ [Some (contents (cells ?w2) (inners ?w2 ?a))]"
    by (rule append_view [OF 1(1)])
      (use live_pointer(2,3) [OF ok y] in \<open>simp_all add: older_def pointer_ok_def\<close>)
  then show ?thesis
    using 1 view_nth [OF y] live_pointer(1) [OF y]
    by (simp add: meets_def stack_move_def wp_all no_new_faults_def inner_of_def)
qed

theorem call_meets:
  fixes w :: "('k :: linorder, 'v) world"
  assumes ok: "world_ok ds w" and cl: "allowed cl (view w) ds"
  shows "meets ds cl w"
  using cl ok
  by (cases cl)
    (simp_all add: alive_view new_meets copy_meets move_meets assign_meets destroy_meets push_meets
      pop_meets pop_key_meets front_meets front_const_meets front_key_meets size_meets count_meets clear_meets)

section \<open>Runs\<close>

definition start :: "bool list \<Rightarrow> 'v \<Rightarrow> ('k, 'v) world" where
  "start fs v = \<lparr>cells = (\<lambda>_. v), next_cell = 0, inners = (\<lambda>_. inner_new), next_inner = 0,
     vars = [], faults = fs\<rparr>"

lemma start_ok [simp]: "world_ok [] (start fs v)" "view (start fs v) = []" "faults (start fs v) = fs"
  by (simp_all add: start_def world_ok_def view_def)

lemma call_cases:
  fixes w :: "('k :: linorder, 'v) world"
  assumes "world_ok ds w" and "allowed cl (view w) ds" and "run_call cl w = (r, w')"
  shows "case r of
      Inr x \<Rightarrow> world_ok (marks cl (view w) ds) w' \<and> no_new_faults w w' \<and> spec_call cl (view w) = (Inr x, view w')
    | Inl e \<Rightarrow> failed ds w e w' \<or>
        world_ok ds w' \<and> no_new_faults w w' \<and> spec_call cl (view w) = (Inl e, view w')"
  using call_meets [OF assms(1,2)] assms(3) by (auto simp: meets_def wp_def split: sum.splits)

text \<open>A call that the specification lets fail changes neither the contents nor the marks.\<close>

lemma spec_error:
  "spec_call cl vs = (Inl e, vs') \<Longrightarrow> vs' = vs \<and> marks cl vs ds = ds \<and> e \<noteq> Bad_alloc"
  by (cases cl) (auto simp: empty_error_def key_error_def split: list.splits if_splits)

definition implements :: "('k :: linorder, 'v) world \<Rightarrow> ('k, 'v) views \<times> bool list \<Rightarrow> bool" where
  "implements w sp \<longleftrightarrow> faults w = [] \<and> view w = fst sp \<and> world_ok (snd sp) w"

interpretation cow_sim: guarded_simulation implements guard run_call spec_step
proof unfold_locales
  fix w :: "('k :: linorder, 'v) world" and sp :: "('k, 'v) views \<times> bool list" and cl
  assume w: "implements w sp" and g: "guard cl sp"
  obtain vs ds where sp: "sp = (vs, ds)" by (cases sp)
  obtain r w' where r: "run_call cl w = (r, w')" by (cases "run_call cl w")
  have "world_ok ds w" "allowed cl (view w) ds" "view w = vs" "faults w = []"
    using w g by (simp_all add: implements_def sp)
  with call_cases [of ds w cl r w'] r
  show "fst (run_call cl w) = fst (spec_step cl sp) \<and> implements (snd (run_call cl w)) (snd (spec_step cl sp))"
    using spec_error [of cl vs _ "view w'" ds]
    by (auto simp: sp implements_def failed_def no_new_faults_def split: sum.splits)
qed

text \<open>Calls that may run out of memory: each one is allowed in the state it is made in.\<close>

fun well_used :: "('k :: linorder, 'v) call list \<Rightarrow> ('k, 'v) world \<Rightarrow> bool list \<Rightarrow> bool" where
  "well_used [] w ds = True"
| "well_used (cl # cls) w ds \<longleftrightarrow> allowed cl (view w) ds \<and>
     (case run_call cl w of
        (Inl e, w') \<Rightarrow> well_used cls w' ds
      | (Inr r, w') \<Rightarrow> well_used cls w' (marks cl (view w) ds))"

lemma well_used_run:
  "world_ok ds w \<Longrightarrow> well_used (cls @ [cl]) w ds \<Longrightarrow>
     \<exists>ds'. world_ok ds' (snd (runs run_call cls w)) \<and> allowed cl (view (snd (runs run_call cls w))) ds'"
proof (induction cls arbitrary: w ds)
  case (Cons c cls)
  obtain r w' where r: "run_call c w = (r, w')" by (cases "run_call c w")
  have "allowed c (view w) ds" using Cons.prems(2) by simp
  note C = call_cases [OF Cons.prems(1) this r]
  have "\<exists>ds'. world_ok ds' w' \<and> well_used (cls @ [cl]) w' ds'"
    using C Cons.prems(2) r by (cases r) (auto simp: failed_def)
  with Cons.IH r show ?case by (auto simp: runs_Cons)
qed auto

text \<open>The definitions a concrete run is evaluated with.\<close>

lemmas run_defs =
  runs_Cons start_def xbind_def xreturn_def xthrow_def xmodify_def xget_def xwhen_def may_throw_def
  make_shared_value_def with_rollback_def inner_push_def inner_pop_key_def drop_empty_def
  inner_front_def stack_new_def stack_push_def stack_pop_key_def stack_front_def stack_assign_def
  stack_size_def with_detach_def read_cell_def write_ref_def inner_modify_def set_pointer_def
  stack_pointer_def inner_of_def unique_def inner_count_def inner_new_def
  key_comparator_def element_height_comparator_def inner_copy_def stack_copy_def live_def Let_def

section \<open>Properties\<close>

text \<open>C: A sequence of calls on stack variables returns what the specification with independent lists returns
  and leaves its contents, when memory does not run out, when no call uses a variable that was destroyed
  or moved from, when nothing is pushed on a stack, not empty, from below whose top \<open>pop(key)\<close> took an
  element (lemma \<open>push_lost_after_pop_key\<close> shows such a push lost), and when nothing is written through the references
  that calls hand out. \<open>pop(key)\<close> may take its element from anywhere in the stack.\<close>

theorem stack_refines:
  assumes "permitted guard spec_step cls ([], [])"
  shows "fst (runs run_call cls (start [] v)) = fst (runs spec_step cls ([], [])) \<and>
     view (snd (runs run_call cls (start [] v))) = fst (snd (runs spec_step cls ([], [])))"
  using cow_sim.guarded_runs [of "start [] v" "([], [])" cls] assms by (simp add: implements_def)

definition sample_calls :: "(nat, nat) call list" where
  "sample_calls = [New, Push 0 1 10, Push 0 2 20, Push 0 1 30, CopyOf 0, PopKey 0 2, Front 0, Count 0 1,
     Pop 0, Push 1 3 40, Size 0, Size 1, Keys 1, FrontKey 1 2, MoveOf 1, Pop 0, Push 0 5 50, Front 0, AssignTo 1 0]"

theorem stack_refines_witness:
  "fst (runs run_call sample_calls (start [] 0)) =
     [Inr Done, Inr Done, Inr Done, Inr Done, Inr Done, Inr Done, Inr (Item 1 30), Inr (Number 2),
      Inr Done, Inr Done, Inr (Number 1), Inr (Number 4), Inr (KeyList [1, 2, 3]), Inr (Value 20),
      Inr Done, Inr Done, Inr Done, Inr (Item 5 50), Inr Done] \<and>
   view (snd (runs run_call sample_calls (start [] 0))) =
     [Some [(5, 50)], Some [(5, 50)], Some [(3, 40), (1, 30), (2, 20), (1, 10)]]"
proof -
  have "permitted guard spec_step sample_calls ([], [])"
    by (simp add: sample_calls_def alive_def)
  moreover have "runs spec_step sample_calls ([], []) = ([Inr Done, Inr Done, Inr Done, Inr Done, Inr Done, Inr Done, Inr (Item 1 30), Inr (Number 2),
      Inr Done, Inr Done, Inr (Number 1), Inr (Number 4), Inr (KeyList [1, 2, 3]), Inr (Value 20),
      Inr Done, Inr Done, Inr Done, Inr (Item 5 50), Inr Done], [Some [(5, 50)], Some [(5, 50)], Some [(3, 40), (1, 30), (2, 20), (1, 10)]], [False, False, False])"
    by (simp add: sample_calls_def runs.simps(2) insert_Diff_if)
  ultimately show ?thesis using stack_refines [of sample_calls 0] by (simp only: fst_conv snd_conv)
qed

text \<open>C: Whenever memory runs out: a call that throws, \<open>bad_alloc\<close> at any of its allocations or the
  error of an empty stack or a missing key, leaves every stack variable with the contents it had, in
  the states that calls lead to, those that threw among them, when no call uses a variable that was destroyed or moved from
  and none pushes on a stack, not empty, from below whose top \<open>pop(key)\<close> took an element. It throws
  one of these errors only where the specification says so.\<close>

theorem stack_strong_guarantee:
  assumes "well_used (cls @ [cl]) (start fs v) []"
    and "run_call cl (snd (runs run_call cls (start fs v))) = (Inl e, w')"
  shows "view w' = view (snd (runs run_call cls (start fs v))) \<and>
    (e \<noteq> Bad_alloc \<longrightarrow> fst (spec_call cl (view w')) = Inl e)"
proof -
  let ?w = "snd (runs run_call cls (start fs v))"
  obtain ds where "world_ok ds ?w" "allowed cl (view ?w) ds"
    using well_used_run [OF start_ok(1) assms(1)] by blast
  from call_cases [OF this assms(2)] show ?thesis
    using spec_error [of cl "view ?w" e "view w'"] by (auto simp: failed_def)
qed

theorem stack_strong_guarantee_witness:
  "view (snd (run_call (PopKey 0 1) (snd (runs run_call [New, Push 0 1 10, Push 0 2 20]
       (start (replicate 19 False @ [True]) 0))))) =
     [Some [(2 :: nat, 20 :: nat), (1, 10)]]"
proof -
  let ?cls = "[New, Push 0 1 10, Push 0 2 20] :: (nat, nat) call list"
  let ?w = "snd (runs run_call ?cls (start (replicate 19 False @ [True]) 0))"
  have "fst (run_call (PopKey 0 1) ?w) = Inl Bad_alloc" and view: "view ?w = [Some [(2, 20), (1, 10)]]"
    and "well_used (?cls @ [PopKey 0 1]) (start (replicate 19 False @ [True]) 0) []"
    by (simp_all add: run_defs numeral_eq_Suc alive_def view_def contents_def)
  with stack_strong_guarantee [of ?cls "PopKey 0 1" "replicate 19 False @ [True]" 0 Bad_alloc "snd (run_call (PopKey 0 1) ?w)"]
  show ?thesis by (simp add: prod_eq_iff)
qed

text \<open>A variable that is initialised with a stack to which a reference was handed out does
  not change when something is written through any reference taken before.\<close>

theorem copy_is_isolated:
  fixes w :: "('k :: linorder, 'v) world"
  assumes ok: "world_ok ds w" and "live y w" and "was_referenced (inner_of y w)" and "stack_copy y w = (Inr (), w')"
    and "c < next_cell w"
  shows "view (snd (write_ref c v w')) ! length (vars w) = view w ! y"
proof -
  have "wp (stack_copy y) (\<lambda>_ w'. \<exists>b w1. copied w (stack_pointer y w) b w1 \<and>
      w' = w1\<lparr>vars := vars w1 @ [Some b]\<rparr>) (\<lambda>_ _. True) w"
    using inner_copy_wp [of w "stack_pointer y w"] live_pointer(2) [OF ok assms(2)] assms(3)
    by (auto simp: stack_copy_def wp_all pointer_ok_def elim!: wp_mono)
  with assms(4) obtain b w1 where c: "copied w (stack_pointer y w) b w1"
    and w': "w' = w1\<lparr>vars := vars w1 @ [Some b]\<rparr>" by (auto simp: wp_def)
  have v1: "vars w1 = vars w" and fresh: "\<forall>e\<in>set (element_set (inners w1 b)). next_cell w \<le> value_pointer e"
    and same: "contents (cells w1) (inners w1 b) = contents (cells w) (inner_of y w)"
    using c unfolding copied_def inner_of_def by blast+
  have "contents ((cells w1)(c := v)) (inners w1 b) = contents (cells w1) (inners w1 b)"
    using fresh assms(5) by (fastforce simp: contents_def)
  with same view_nth [OF assms(2)] show ?thesis
    by (simp add: write_ref_def xmodify_def w' view_def v1 nth_append)
qed

theorem copy_is_isolated_witness:
  "view (snd (write_ref 0 99 (snd (stack_copy 0
     (snd (runs run_call [New, Push 0 1 10, Front 0] (start [] (0 :: nat)) :: _ \<times> (nat, nat) world)))))) ! 1 =
   Some [(1, 10)]"
proof -
  let ?w = "snd (runs run_call [New, Push 0 1 10, Front 0] (start [] (0 :: nat)) :: _ \<times> (nat, nat) world)"
  have "permitted guard spec_step [New, Push 0 (1 :: nat) (10 :: nat), Front 0] ([], [])" by (simp add: alive_def)
  then have "implements ?w (snd (runs spec_step [New, Push 0 1 10, Front 0] ([], [])))"
    using cow_sim.guarded_runs [of "start [] 0" "([], [])" "[New, Push 0 (1 :: nat) (10 :: nat), Front 0]"]
    by (simp add: implements_def del: permitted.simps)
  then have ok: "world_ok [False] ?w" by (simp add: implements_def runs_Cons)
  have w: "live 0 ?w" "was_referenced (inner_of 0 ?w)" "fst (stack_copy 0 ?w) = Inr ()" "0 < next_cell ?w"
    "length (vars ?w) = 1" "view ?w ! 0 = Some [(1, 10)]"
    by (simp_all add: run_defs view_def contents_def)
  then have "stack_copy 0 ?w = (Inr (), snd (stack_copy 0 ?w))" by (simp add: prod_eq_iff)
  from copy_is_isolated [OF ok w(1,2) this w(4), of 99] w(5,6) show ?thesis by simp
qed

text \<open>After \<open>pop(key)\<close> took an element from below the top, the next \<open>push\<close> is lost: the
  number of elements is 2 but the stack still shows one and its front is the old top.\<close>

lemma push_lost_after_pop_key:
  "fst (runs run_call [New, Push 0 (1 :: nat) (10 :: nat), Push 0 2 20, PopKey 0 1, Push 0 3 30, Front 0, Size 0]
      (start [] 0)) =
     [Inr Done, Inr Done, Inr Done, Inr Done, Inr Done, Inr (Item 2 20), Inr (Number 2)] \<and>
   view (snd (runs run_call [New, Push 0 (1 :: nat) (10 :: nat), Push 0 2 20, PopKey 0 1, Push 0 3 30]
      (start [] 0))) = [Some [(2, 20)]]"
  by (simp add: run_defs view_def contents_def)

text \<open>Assignment shares the inner stack even when a reference to it is out: writing through the
  reference taken from the first variable changes the second one too.\<close>

lemma assignment_shares_reference:
  "view (snd (xbind (run_call (AssignTo 1 0)) (\<lambda>_. write_ref 0 99)
     (snd (runs run_call [New, Push 0 (1 :: nat) (10 :: nat), Front 0, New] (start [] 0))))) =
   [Some [(1, 99)], Some [(1, 99)]]"
  by (simp add: run_defs view_def contents_def)

end
