(* ===== verification/Crosswords.thy ===== *)
theory Crosswords
  imports Ordered Stdio
begin

unbundle bit_operations_syntax

text \<open>
  The crossword of \<open>project3/crosswords.h\<close>: rectangles, words and the crossword with its map
  of letters. Coordinates and lengths are 64-bit words, so sums and differences wrap around as
  they do in the code; a \<open>char\<close> is compared as a signed byte. A counting loop is written over
  the list of the values its variable takes.
\<close>

type_synonym coord = "64 word"
type_synonym pos = "coord \<times> coord"

definition SIZE_MAX :: coord where
  "SIZE_MAX = - 1"

datatype orientation = H | V

section \<open>Loops\<close>

text \<open>The values of \<open>j\<close> in \<open>while (j <= final) { ...; if (j == SIZE_MAX) break; j++; }\<close>.\<close>

lemma unat_next: "j \<noteq> SIZE_MAX \<Longrightarrow> unat (j + 1) = unat j + 1"
  unfolding SIZE_MAX_def by (metis Suc_eq_plus1 add.commute add.right_inverse add_diff_cancel_right' diff_0 unatSuc)

function count_to :: "coord \<Rightarrow> coord \<Rightarrow> coord list" where
  "count_to j final = (if j \<le> final then j # (if j = SIZE_MAX then [] else count_to (j + 1) final) else [])"
  by pat_completeness auto

termination
proof (relation "measure (\<lambda>(j, _). 2 ^ 64 - unat j)")
  fix j final :: coord
  assume "j \<le> final" and "j \<noteq> SIZE_MAX"
  then have "unat (j + 1) = unat j + 1" by (simp add: unat_next)
  moreover have "unat j < 2 ^ 64" using unsigned_less [of j, where ?'a = nat] by simp
  ultimately show "((j + 1, final), j, final) \<in> measure (\<lambda>(j, _). 2 ^ 64 - unat j)"
    by simp
qed simp

declare count_to.simps [simp del]

text \<open>The values of \<open>j\<close> in \<open>for (...; j < bound; j++)\<close>.\<close>

definition count_below :: "coord \<Rightarrow> coord \<Rightarrow> coord list" where
  "count_below j bound = (if j < bound then count_to j (bound - 1) else [])"

text \<open>The loop \<open>for (...; j <= final; j++)\<close> does not end when \<open>final\<close> is \<open>SIZE_MAX\<close>.\<close>

definition count_upto :: "coord \<Rightarrow> coord \<Rightarrow> coord list option" where
  "count_upto j final = (if final = SIZE_MAX then None else Some (count_to j final))"

section \<open>Rectangles\<close>

record RectArea =
  left_top :: pos
  right_bottom :: pos

definition rect :: "pos \<Rightarrow> pos \<Rightarrow> RectArea" where
  "rect arg1 arg2 = \<lparr>left_top = arg1, right_bottom = arg2\<rparr>"

definition set_left_top :: "pos \<Rightarrow> RectArea \<Rightarrow> RectArea" where
  "set_left_top p r = r\<lparr>left_top := p\<rparr>"

definition set_right_bottom :: "pos \<Rightarrow> RectArea \<Rightarrow> RectArea" where
  "set_right_bottom p r = r\<lparr>right_bottom := p\<rparr>"

definition rect_empty :: "RectArea \<Rightarrow> bool" where
  "rect_empty r \<longleftrightarrow>
     (if fst (right_bottom r) \<ge> fst (left_top r) \<and> snd (right_bottom r) \<ge> snd (left_top r)
      then False else True)"

text \<open>\<open>None\<close> when one of the assertions fails.\<close>

definition rect_size :: "RectArea \<Rightarrow> (coord \<times> coord) option" where
  "rect_size r =
     (let (width, height) =
        (if \<not> rect_empty r
         then (fst (right_bottom r) - fst (left_top r) + 1, snd (right_bottom r) - snd (left_top r) + 1)
         else (0, 0))
      in if (fst (left_top r) \<noteq> 0 \<or> fst (right_bottom r) \<noteq> SIZE_MAX) \<and>
            (snd (left_top r) \<noteq> 0 \<or> snd (right_bottom r) \<noteq> SIZE_MAX)
         then Some (width, height) else None)"

definition embrace :: "pos \<Rightarrow> RectArea \<Rightarrow> RectArea" where
  "embrace new_point r =
     (if \<not> rect_empty r
      then r\<lparr>left_top := (min (fst (left_top r)) (fst new_point), min (snd (left_top r)) (snd new_point)),
             right_bottom := (max (fst (right_bottom r)) (fst new_point),
                              max (snd (right_bottom r)) (snd new_point))\<rparr>
      else r\<lparr>left_top := new_point, right_bottom := new_point\<rparr>)"

definition intersect :: "RectArea \<Rightarrow> RectArea \<Rightarrow> RectArea" where
  "intersect r other =
     (if rect_empty r \<or> rect_empty other then rect (1, 1) (0, 0)
      else rect (max (fst (left_top r)) (fst (left_top other)), max (snd (left_top r)) (snd (left_top other)))
                (min (fst (right_bottom r)) (fst (right_bottom other)),
                 min (snd (right_bottom r)) (snd (right_bottom other))))"

definition DEFAULT_EMPTY_RECT_AREA :: RectArea where
  "DEFAULT_EMPTY_RECT_AREA = rect (1, 1) (0, 0)"

section \<open>Words\<close>

definition DEFAULT_WORD :: string where "DEFAULT_WORD = ''?''"
definition DEFAULT_CHAR :: char where "DEFAULT_CHAR = CHR 0x00"
definition PROTECTED_CHAR :: char where "PROTECTED_CHAR = CHR ''.''"

record cword =
  coordinates :: pos
  orient :: orientation
  letters_of :: string

definition len :: "string \<Rightarrow> coord" where
  "len s = of_nat (length s)"

definition prefix_of :: "string \<Rightarrow> coord \<Rightarrow> string" where
  "prefix_of s n = take (unat n) s"

text \<open>The constructor; both tests of the code look at the first coordinate.\<close>

definition word_new :: "coord \<Rightarrow> coord \<Rightarrow> orientation \<Rightarrow> string \<Rightarrow> cword" where
  "word_new first second o' new_word =
     (let w = (if new_word = [] then DEFAULT_WORD else new_word);
          w = (if o' = H \<and> SIZE_MAX - first < len new_word + 1
               then prefix_of new_word ((SIZE_MAX - first) + 1) else w);
          w = (if o' = V \<and> SIZE_MAX - first < len new_word + 1
               then prefix_of new_word ((SIZE_MAX - second) + 1) else w)
      in \<lparr>coordinates = (first, second), orient = o', letters_of = w\<rparr>)"

definition word_eq :: "cword \<Rightarrow> cword \<Rightarrow> bool" where
  "word_eq w other \<longleftrightarrow> coordinates w = coordinates other \<and> orient w = orient other"

datatype ordering = Less | Equal | Greater

definition word_compare :: "cword \<Rightarrow> cword \<Rightarrow> ordering" where
  "word_compare w other =
     (if fst (coordinates w) < fst (coordinates other) then Less
      else if fst (coordinates w) > fst (coordinates other) then Greater
      else if snd (coordinates w) < snd (coordinates other) then Less
      else if snd (coordinates w) > snd (coordinates other) then Greater
      else if orient w = H \<and> orient other = V then Less
      else if orient w = V \<and> orient other = H then Greater
      else Equal)"

definition get_end_position :: "cword \<Rightarrow> pos" where
  "get_end_position w =
     (if orient w = H
      then (let new_position = fst (coordinates w)
            in if SIZE_MAX - new_position < len (letters_of w) then (SIZE_MAX, snd (coordinates w))
               else (new_position + (len (letters_of w) - 1), snd (coordinates w)))
      else (let new_position = snd (coordinates w)
            in if SIZE_MAX - new_position < len (letters_of w) then (fst (coordinates w), SIZE_MAX)
               else (fst (coordinates w), new_position + (len (letters_of w) - 1))))"

definition at :: "cword \<Rightarrow> coord \<Rightarrow> char" where
  "at w letter =
     (if (letters_of w = ''?'' \<and> letter = 0) \<or> letter \<ge> len (letters_of w) then DEFAULT_CHAR
      else letters_of w ! unat letter)"

definition rect_area :: "cword \<Rightarrow> RectArea" where
  "rect_area w = rect (coordinates w) (get_end_position w)"

section \<open>The crossword\<close>

type_synonym letters = "pos \<rightharpoonup> char \<times> orientation"

record Crossword =
  area :: RectArea
  how_many_vertically :: coord
  how_many_horizontally :: coord
  Words :: "cword list"
  crossword_letters :: letters

definition signed_code :: "char \<Rightarrow> int" where
  "signed_code c = (if code c < 128 then code c else code c - 256)"

definition convert_letter :: "char \<Rightarrow> char" where
  "convert_letter c =
     (if signed_code c \<ge> 97 \<and> signed_code c \<le> 122 then char_of (nat (signed_code c - 32))
      else if (signed_code c \<ge> 0 \<and> signed_code c < 65) \<or> (signed_code c > 91 \<and> signed_code c < 97) \<or>
              signed_code c > 122
      then CHR ''?''
      else c)"

text \<open>A cell that holds a letter of a word.\<close>

definition taken :: "letters \<Rightarrow> pos \<Rightarrow> bool" where
  "taken m p = (case m p of None \<Rightarrow> False | Some (c, _) \<Rightarrow> c \<noteq> PROTECTED_CHAR)"

text \<open>One step of the checking loops; \<open>False\<close> is their \<open>return false\<close>.\<close>

definition check_cell_v :: "letters \<Rightarrow> cword \<Rightarrow> coord \<Rightarrow> coord \<Rightarrow> coord \<Rightarrow> bool" where
  "check_cell_v m w start col row =
     (case m (col, row) of
        None \<Rightarrow> True
      | Some (c, o') \<Rightarrow>
          if c = PROTECTED_CHAR then
            if row = SIZE_MAX \<or> len (letters_of w) = 1 then False
            else (case m (col, row + 1) of
                None \<Rightarrow> True
              | Some (c2, _) \<Rightarrow>
                  if c2 = PROTECTED_CHAR \<or> c2 \<noteq> convert_letter (at w (row + 1 - start)) then False
                  else if col > 0 \<and> taken m (col - 1, row) then False
                  else if col > 0 \<and> taken m (col - 1, row + 2) then False
                  else if col < SIZE_MAX \<and> taken m (col + 1, row) then False
                  else if col < SIZE_MAX \<and> taken m (col + 1, row + 2) then False
                  else True)
          else if o' = V \<or> c \<noteq> convert_letter (at w (row - start)) then False
          else True)"

definition check_word_vertically :: "letters \<Rightarrow> cword \<Rightarrow> pos \<Rightarrow> pos \<Rightarrow> bool" where
  "check_word_vertically m w start_position end_position =
     list_all (check_cell_v m w (snd start_position) (fst start_position))
       (count_to (snd start_position) (snd end_position))"

definition check_cell_h :: "letters \<Rightarrow> cword \<Rightarrow> coord \<Rightarrow> coord \<Rightarrow> coord \<Rightarrow> bool" where
  "check_cell_h m w start row col =
     (case m (col, row) of
        None \<Rightarrow> True
      | Some (c, o') \<Rightarrow>
          if c = PROTECTED_CHAR then
            if col = SIZE_MAX \<or> len (letters_of w) = 1 then False
            else (case m (col + 1, row) of
                None \<Rightarrow> True
              | Some (c2, _) \<Rightarrow>
                  if c2 = PROTECTED_CHAR \<or> c2 \<noteq> convert_letter (at w (col + 1 - start)) then False
                  else if row > 0 \<and> taken m (col, row - 1) then False
                  else if row > 0 \<and> taken m (col + 2, row - 1) then False
                  else if row < SIZE_MAX \<and> taken m (col, row + 1) then False
                  else if row < SIZE_MAX \<and> taken m (col + 2, row + 1) then False
                  else True)
          else if o' = H \<or> c \<noteq> convert_letter (at w (col - start)) then False
          else True)"

definition check_word_horizontally :: "letters \<Rightarrow> cword \<Rightarrow> pos \<Rightarrow> pos \<Rightarrow> bool" where
  "check_word_horizontally m w start_position end_position =
     list_all (check_cell_h m w (fst start_position) (snd start_position))
       (count_to (fst start_position) (fst end_position))"

definition checkWord :: "Crossword \<Rightarrow> cword \<Rightarrow> orientation \<Rightarrow> bool" where
  "checkWord cr w o' =
     (if o' = V then check_word_vertically (crossword_letters cr) w (coordinates w) (get_end_position w)
      else check_word_horizontally (crossword_letters cr) w (coordinates w) (get_end_position w))"

text \<open>\<open>unordered_map::insert\<close> of a protected cell: it keeps what is there.\<close>

definition protect :: "orientation \<Rightarrow> pos \<Rightarrow> letters \<Rightarrow> letters" where
  "protect o' p m = (case m p of None \<Rightarrow> m(p \<mapsto> (PROTECTED_CHAR, o')) | Some _ \<Rightarrow> m)"

definition protect_if :: "bool \<Rightarrow> orientation \<Rightarrow> pos \<Rightarrow> letters \<Rightarrow> letters" where
  "protect_if b o' p m = (if b then protect o' p m else m)"

text \<open>The loop that writes the letters, with its two variables.\<close>

fun write_letters :: "(coord \<Rightarrow> pos) \<Rightarrow> orientation \<Rightarrow> cword \<Rightarrow> coord list \<Rightarrow> coord \<Rightarrow> letters \<Rightarrow> letters" where
  "write_letters cell o' w [] i m = m"
| "write_letters cell o' w (j # js) i m =
     write_letters cell o' w js (i + 1) (m(cell j \<mapsto> (convert_letter (at w i), o')))"

definition insert_word_vertically :: "cword \<Rightarrow> pos \<Rightarrow> coord \<Rightarrow> coord \<Rightarrow> Crossword \<Rightarrow> Crossword" where
  "insert_word_vertically w end_position row column cr =
     (let js = count_to row (snd end_position);
          final = snd end_position;
          m = crossword_letters cr;
          m = write_letters (\<lambda>j. (column, j)) V w js 0 m;
          m = (if column > 0 then fold (\<lambda>j. protect V (column - 1, j)) js m else m);
          m = (if column < SIZE_MAX then fold (\<lambda>j. protect V (column + 1, j)) js m else m);
          m = protect_if (row > 0 \<and> column > 0) V (column - 1, row - 1) m;
          m = protect_if (row > 0 \<and> column < SIZE_MAX) V (column + 1, row - 1) m;
          m = protect_if (row > 0) V (column, row - 1) m;
          m = protect_if (final < SIZE_MAX \<and> column > 0) V (column - 1, final + 1) m;
          m = protect_if (final < SIZE_MAX \<and> column < SIZE_MAX) V (column + 1, final + 1) m;
          m = protect_if (final < SIZE_MAX) V (column, final + 1) m
      in cr\<lparr>how_many_vertically := how_many_vertically cr + 1, crossword_letters := m\<rparr>)"

definition insert_word_horizontally :: "cword \<Rightarrow> pos \<Rightarrow> coord \<Rightarrow> coord \<Rightarrow> Crossword \<Rightarrow> Crossword" where
  "insert_word_horizontally w end_position row column cr =
     (let js = count_to column (fst end_position);
          final = fst end_position;
          m = crossword_letters cr;
          m = write_letters (\<lambda>j. (j, row)) H w js 0 m;
          m = (if row > 0 then fold (\<lambda>j. protect H (j, row - 1)) js m else m);
          m = (if row < SIZE_MAX then fold (\<lambda>j. protect H (j, row + 1)) js m else m);
          m = protect_if (column > 0 \<and> row > 0) H (column - 1, row - 1) m;
          m = protect_if (column > 0 \<and> row < SIZE_MAX) H (column - 1, row + 1) m;
          m = protect_if (column > 0) H (column - 1, row) m;
          m = protect_if (final < SIZE_MAX \<and> row > 0) H (final + 1, row - 1) m;
          m = protect_if (final < SIZE_MAX \<and> row < SIZE_MAX) H (final + 1, row + 1) m;
          m = protect_if (final < SIZE_MAX) H (final + 1, row) m
      in cr\<lparr>how_many_horizontally := how_many_horizontally cr + 1, crossword_letters := m\<rparr>)"

definition insert_word :: "cword \<Rightarrow> Crossword \<Rightarrow> bool \<times> Crossword" where
  "insert_word w cr =
     (if \<not> checkWord cr w (orient w) then (False, cr)
      else
        (let cr = cr\<lparr>Words := Words cr @ [w]\<rparr>;
             cr = cr\<lparr>area := embrace (coordinates w) (area cr)\<rparr>;
             cr = cr\<lparr>area := embrace (get_end_position w) (area cr)\<rparr>;
             column = fst (coordinates w);
             row = snd (coordinates w);
             end_position = get_end_position w
         in (True,
             if orient w = V then insert_word_vertically w end_position row column cr
             else insert_word_horizontally w end_position row column cr)))"

definition crossword_empty :: Crossword where
  "crossword_empty = \<lparr>area = DEFAULT_EMPTY_RECT_AREA, how_many_vertically = 0,
     how_many_horizontally = 0, Words = [], crossword_letters = Map.empty\<rparr>"

definition crossword_new :: "cword \<Rightarrow> cword list \<Rightarrow> Crossword" where
  "crossword_new firstWord otherWords =
     fold (\<lambda>w cr. snd (insert_word w cr)) otherWords (snd (insert_word firstWord crossword_empty))"

text \<open>The new crossword and the one it was moved from.\<close>

definition crossword_move :: "Crossword \<Rightarrow> Crossword \<times> Crossword" where
  "crossword_move other =
     (other, other\<lparr>area := DEFAULT_EMPTY_RECT_AREA, how_many_vertically := 0,
        how_many_horizontally := 0, Words := [], crossword_letters := Map.empty\<rparr>)"

text \<open>Copying, and the two assignments: the crossword that is assigned to, and for the assignment of a
  temporary also what is left behind. There the area and the counters, which are numbers, are only copied,
  while the words and the letters are moved out of their containers.\<close>

definition crossword_copy :: "Crossword \<Rightarrow> Crossword" where
  "crossword_copy other = \<lparr>area = area other, how_many_vertically = how_many_vertically other,
     how_many_horizontally = how_many_horizontally other, Words = Words other,
     crossword_letters = crossword_letters other\<rparr>"

definition crossword_assign :: "Crossword \<Rightarrow> Crossword \<Rightarrow> Crossword" where
  "crossword_assign this other = this\<lparr>how_many_horizontally := how_many_horizontally other,
     how_many_vertically := how_many_vertically other, Words := Words other,
     crossword_letters := crossword_letters other, area := area other\<rparr>"

definition crossword_move_assign :: "Crossword \<Rightarrow> Crossword \<Rightarrow> Crossword \<times> Crossword" where
  "crossword_move_assign this other =
     (this\<lparr>area := area other, how_many_vertically := how_many_vertically other,
        how_many_horizontally := how_many_horizontally other, Words := Words other,
        crossword_letters := crossword_letters other\<rparr>,
      other\<lparr>Words := [], crossword_letters := Map.empty\<rparr>)"

section \<open>Printing, adding and measuring\<close>

definition bar :: "Crossword \<Rightarrow> string" where
  "bar cr = concat (map (\<lambda>_. ''. '') (count_below (fst (left_top (area cr))) (fst (right_bottom (area cr)) + 2)))
     @ ''.'' @ [CHR 0x0A]"

definition print_cell :: "letters \<Rightarrow> pos \<Rightarrow> string" where
  "print_cell m p =
     (case m p of None \<Rightarrow> ''. ''
      | Some (c, _) \<Rightarrow> if c \<noteq> PROTECTED_CHAR then [c, CHR '' ''] else ''. '')"

text \<open>\<open>None\<close> when one of the loops over rows and columns does not end.\<close>

definition print_crossword :: "Crossword \<Rightarrow> string option" where
  "print_crossword cr =
     (case count_upto (snd (left_top (area cr))) (snd (right_bottom (area cr))) of
        None \<Rightarrow> None
      | Some rows \<Rightarrow>
          if rows = [] then Some (bar cr @ bar cr)
          else (case count_upto (fst (left_top (area cr))) (fst (right_bottom (area cr))) of
              None \<Rightarrow> None
            | Some cols \<Rightarrow>
                Some (bar cr @
                  concat (map (\<lambda>row. ''. '' @ concat (map (\<lambda>col. print_cell (crossword_letters cr) (col, row)) cols)
                    @ ''.'' @ [CHR 0x0A]) rows) @
                  bar cr)))"

definition add_crosswords :: "Crossword \<Rightarrow> Crossword \<Rightarrow> Crossword" where
  "add_crosswords cr other =
     fold (\<lambda>w cr. if checkWord cr w (orient w) then snd (insert_word w cr) else cr) (Words other) cr"

definition word_count :: "Crossword \<Rightarrow> coord \<times> coord" where
  "word_count cr = (how_many_horizontally cr, how_many_vertically cr)"

definition crossword_size :: "Crossword \<Rightarrow> coord \<times> coord" where
  "crossword_size cr =
     (if \<not> rect_empty (area cr)
      then (fst (right_bottom (area cr)) - fst (left_top (area cr)) + 1,
            snd (right_bottom (area cr)) - snd (left_top (area cr)) + 1)
      else (0, 0))"

end
