(* ===== verification/Crosswords_Props.thy ===== *)
theory Crosswords_Props
  imports Crosswords
begin

text \<open>
  What the crossword promises: rectangles behave like sets of positions, the map of letters holds
  exactly the letters of the accepted words, the area is their bounding box, and the printed
  picture shows them. Two cases in which the code does not do what it means to are at the end.
\<close>

section \<open>The counting loop\<close>

lemma le_SIZE_MAX [simp]: "j \<le> SIZE_MAX" "SIZE_MAX \<le> j \<longleftrightarrow> j = SIZE_MAX" "j < SIZE_MAX \<longleftrightarrow> j \<noteq> SIZE_MAX"
  by (simp_all add: SIZE_MAX_def word_order.extremum_unique word_order.not_eq_extremum [symmetric])

lemma next_le: "j \<noteq> SIZE_MAX \<Longrightarrow> j + 1 \<le> k \<longleftrightarrow> j < k"
  by (simp add: word_le_nat_alt word_less_nat_alt unat_next Suc_le_eq)

lemma atLeastAtMost_next: "j \<le> k \<Longrightarrow> j \<noteq> SIZE_MAX \<Longrightarrow> {j..k} = insert j {j + 1..k}"
  by (auto simp: next_le)

lemma set_count_to [simp]: "set (count_to j k) = {j..k}"
proof (induction j k rule: count_to.induct)
  case (1 j k)
  show ?case
  proof (cases "j \<le> k \<and> j \<noteq> SIZE_MAX")
    case True
    with 1 show ?thesis
      by (subst count_to.simps) (simp add: atLeastAtMost_next)
  next
    case False
    then show ?thesis
      by (subst count_to.simps) auto
  qed
qed

lemma count_to_map: "count_to j k = map (\<lambda>n. j + of_nat n) [0..<length (count_to j k)]"
proof (induction j k rule: count_to.induct)
  case (1 j k)
  have cons: "map f [0..<Suc n] = f 0 # map (\<lambda>i. f (Suc i)) [0..<n]" for f :: "nat \<Rightarrow> coord" and n
    by (simp add: upt_conv_Cons map_Suc_upt [symmetric] del: upt_Suc)
  show ?case
  proof (cases "j \<le> k \<and> j \<noteq> SIZE_MAX")
    case True
    then have "count_to j k = j # count_to (j + 1) k"
      by (subst count_to.simps) simp
    moreover have "count_to (j + 1) k = map (\<lambda>n. j + 1 + of_nat n) [0..<length (count_to (j + 1) k)]"
      using 1 True by simp
    ultimately show ?thesis
      by (simp only: list.size(4) add_Suc_right add_0_right cons) (simp add: algebra_simps)
  next
    case False
    then show ?thesis
      by (subst (1 2) count_to.simps) auto
  qed
qed

lemma length_count_to: "j \<le> k \<Longrightarrow> length (count_to j k) = unat (k - j) + 1"
proof (induction j k rule: count_to.induct)
  case (1 j k)
  show ?case
  proof (cases "j = k \<or> j = SIZE_MAX")
    case True
    with "1.prems" have "j = k" by auto
    then show ?thesis
      by (subst count_to.simps) (subst count_to.simps, auto simp: next_le)
  next
    case False
    then have "j + 1 \<le> k" and ne: "j \<noteq> SIZE_MAX" using "1.prems" by (auto simp: next_le)
    moreover have "unat (k - j) = unat (k - (j + 1)) + 1"
      using \<open>j + 1 \<le> k\<close> "1.prems" unat_next [OF ne]
      by (simp add: unat_sub word_le_nat_alt)
    ultimately show ?thesis
      using 1 False by (subst count_to.simps) simp
  qed
qed

section \<open>Rectangles as sets of positions\<close>

definition cells :: "RectArea \<Rightarrow> pos set" where
  "cells r = {fst (left_top r)..fst (right_bottom r)} \<times> {snd (left_top r)..snd (right_bottom r)}"

lemma cells_empty: "rect_empty r \<longleftrightarrow> cells r = {}"
  by (auto simp: rect_empty_def cells_def)

lemma cells_intersect: "cells (intersect r s) = cells r \<inter> cells s"
proof (cases "rect_empty r \<or> rect_empty s")
  case True
  moreover have "cells (rect (1, 1) (0, 0)) = {}" by (simp add: cells_def rect_def)
  ultimately show ?thesis by (auto simp: intersect_def cells_empty)
qed (auto simp: intersect_def cells_def rect_def)

lemma cells_embrace: "insert p (cells r) \<subseteq> cells (embrace p r)"
  by (cases p) (auto simp: embrace_def cells_def rect_empty_def min_le_iff_disj le_max_iff_disj)

lemma embrace_least:
  assumes "insert p (cells r) \<subseteq> cells r'"
  shows "cells (embrace p r) \<subseteq> cells r'"
proof (cases "rect_empty r")
  case True
  with assms show ?thesis by (auto simp: embrace_def cells_def)
next
  case False
  then have "left_top r \<in> cells r'" "right_bottom r \<in> cells r'"
    using assms by (auto simp: cells_def rect_empty_def mem_Times_iff split: if_splits)
  with assms False show ?thesis
    by (auto simp: embrace_def cells_def mem_Times_iff min_le_iff_disj le_max_iff_disj intro: order_trans)
qed

lemma card_interval: "a \<le> b \<Longrightarrow> card {a..b} = unat (b - a) + 1" for a b :: coord
proof -
  assume le: "a \<le> b"
  have small: "n < 2 ^ 64" if "n \<le> unat b" for n
    using that unsigned_less [of b, where ?'a = nat] by simp
  have "unat ` {a..b} = {unat a..unat b}"
  proof
    show "unat ` {a..b} \<subseteq> {unat a..unat b}" by (auto simp: word_le_nat_alt)
    show "{unat a..unat b} \<subseteq> unat ` {a..b}"
    proof
      fix n assume n: "n \<in> {unat a..unat b}"
      then have "unat (of_nat n :: coord) = n" using small [of n] by (simp add: unat_of_nat)
      with n show "n \<in> unat ` {a..b}" by (auto simp: word_le_nat_alt intro!: image_eqI [of _ _ "of_nat n"])
    qed
  qed
  then have "bij_betw unat {a..b} {unat a..unat b}"
    by (simp add: bij_betw_def inj_on_def word_unat_eq_iff)
  then have "card {a..b} = card {unat a..unat b}" by (rule bij_betw_same_card)
  with le show ?thesis by (simp add: unat_sub word_le_nat_alt)
qed

lemma range_not_full: "a \<le> b \<Longrightarrow> a \<noteq> 0 \<or> b \<noteq> SIZE_MAX \<Longrightarrow> b - a \<noteq> SIZE_MAX" for a b :: coord
proof
  assume "a \<le> b" "a \<noteq> 0 \<or> b \<noteq> SIZE_MAX" and "b - a = SIZE_MAX"
  then have b: "b = a - 1" by (simp add: SIZE_MAX_def algebra_simps)
  show False
  proof (cases "a = 0")
    case True
    with b \<open>a \<noteq> 0 \<or> b \<noteq> SIZE_MAX\<close> show False by (simp add: SIZE_MAX_def)
  next
    case False
    then have "unat b < unat a" using b unat_minus_one [of a] unat_gt_0 [of a] by simp
    with \<open>a \<le> b\<close> show False by (simp add: word_le_nat_alt)
  qed
qed

lemma card_range: "a \<le> b \<Longrightarrow> a \<noteq> 0 \<or> b \<noteq> SIZE_MAX \<Longrightarrow> card {a..b} = unat (b - a + 1)" for a b :: coord
  using card_interval unat_next range_not_full by simp

lemma card_cells: "rect_size r = Some (width, height) \<Longrightarrow> card (cells r) = unat width * unat height"
  by (auto simp: rect_size_def cells_def card_cartesian_product card_range rect_empty_def Let_def
      split: if_splits)

text \<open>Rectangles are sets of positions: \<open>empty\<close> says that there is none, \<open>operator*\<close> is the
  intersection, \<open>embrace\<close> gives the least rectangle with the old cells and the new point, and the
  dimensions \<open>size\<close> returns, when its assertions hold, multiply to the number of cells.\<close>

lemma rectangles_are_sets:
  "(rect_empty r \<longleftrightarrow> cells r = {}) \<and>
   cells (intersect r s) = cells r \<inter> cells s \<and>
   insert p (cells r) \<subseteq> cells (embrace p r) \<and>
   cells (embrace p r) \<subseteq> \<Inter> {cells r' |r'. insert p (cells r) \<subseteq> cells r'} \<and>
   (case rect_size r of
      None \<Rightarrow> fst (left_top r) = 0 \<and> fst (right_bottom r) = SIZE_MAX \<or>
              snd (left_top r) = 0 \<and> snd (right_bottom r) = SIZE_MAX
    | Some (width, height) \<Rightarrow> card (cells r) = unat width * unat height)"
proof (intro conjI)
  show "cells (embrace p r) \<subseteq> \<Inter> {cells r' |r'. insert p (cells r) \<subseteq> cells r'}"
    using embrace_least by blast
  show "case rect_size r of
      None \<Rightarrow> fst (left_top r) = 0 \<and> fst (right_bottom r) = SIZE_MAX \<or>
              snd (left_top r) = 0 \<and> snd (right_bottom r) = SIZE_MAX
    | Some (width, height) \<Rightarrow> card (cells r) = unat width * unat height"
  proof (cases "rect_size r")
    case None
    then show ?thesis by (auto simp: rect_size_def Let_def split: if_splits)
  next
    case (Some d)
    then show ?thesis using card_cells by (cases d) simp
  qed
qed (simp_all only: cells_empty cells_intersect cells_embrace)

section \<open>Words are ordered by place and direction\<close>

definition word_lt :: "cword \<Rightarrow> cword \<Rightarrow> bool" where
  "word_lt w other \<longleftrightarrow> word_compare w other = Less"

definition word_key :: "cword \<Rightarrow> coord \<times> coord \<times> bool" where
  "word_key w = (fst (coordinates w), snd (coordinates w), orient w = V)"

lemma word_compare_key:
  "word_compare w other =
     (let (a, b, c) = word_key w; (a', b', c') = word_key other
      in if a < a' \<or> a = a' \<and> (b < b' \<or> b = b' \<and> \<not> c \<and> c') then Less
         else if (a, b, c) = (a', b', c') then Equal else Greater)"
  by (cases "orient w"; cases "orient other") (auto simp: word_compare_def word_key_def not_less order.order_iff_strict)

interpretation word_order: strict_weak word_lt
  by unfold_locales
    (auto simp: word_lt_def word_compare_key Let_def not_less split: prod.splits if_splits)

lemma compare_equal: "word_compare w other = Equal \<longleftrightarrow> word_eq w other"
  by (cases "orient w"; cases "orient other")
    (auto simp: word_compare_key word_key_def word_eq_def Let_def prod_eq_iff)

section \<open>The letters\<close>

text \<open>The letter a cell shows; protected cells show none.\<close>

definition content :: "letters \<Rightarrow> pos \<Rightarrow> char option" where
  "content m p = (case m p of None \<Rightarrow> None | Some (c, _) \<Rightarrow> if c = PROTECTED_CHAR then None else Some c)"

definition word_cells :: "cword \<Rightarrow> pos set" where
  "word_cells w =
     (if orient w = V then {fst (coordinates w)} \<times> {snd (coordinates w)..snd (get_end_position w)}
      else {fst (coordinates w)..fst (get_end_position w)} \<times> {snd (coordinates w)})"

definition letter_at :: "cword \<Rightarrow> pos \<Rightarrow> char" where
  "letter_at w p =
     convert_letter (at w (if orient w = V then snd p - snd (coordinates w) else fst p - fst (coordinates w)))"

lemma convert_not_protected [simp]: "convert_letter c \<noteq> PROTECTED_CHAR"
proof
  assume "convert_letter c = PROTECTED_CHAR"
  then have "signed_code (convert_letter c) = 46" by (simp add: PROTECTED_CHAR_def signed_code_def)
  moreover have "code (char_of (nat n) :: char) = n" if "65 \<le> n" "n \<le> 90" for n :: int
    using that by (simp add: code_nat)
  ultimately show False
    by (auto simp: convert_letter_def split: if_splits) (auto simp: signed_code_def)
qed

lemma write_letters_at:
  assumes "inj cell"
  shows "write_letters cell o' w (count_to j k) i m p =
    (case Some p of _ \<Rightarrow> if p \<in> cell ` {j..k}
     then Some (convert_letter (at w (i + (inv cell p - j))), o') else m p)"
proof (induction j k arbitrary: i m rule: count_to.induct)
  case (1 j k)
  note inv = inv_f_f [OF assms]
  show ?case
  proof (cases "j \<le> k \<and> j \<noteq> SIZE_MAX")
    case True
    then have "count_to j k = j # count_to (j + 1) k"
      by (subst count_to.simps) simp
    with True 1 show ?thesis
      by (auto simp: atLeastAtMost_next inv inj_eq [OF assms] algebra_simps next_le)
  next
    case False
    then show ?thesis
      by (subst count_to.simps) (auto simp: inv)
  qed
qed

lemma content_protect [simp]: "content (protect o' q m) = content m"
  by (rule ext) (auto simp: content_def protect_def split: option.splits)

lemma content_protect_if [simp]: "content (protect_if b o' q m) = content m"
  by (simp add: protect_if_def)

lemma content_protect_fold [simp]: "content (fold (\<lambda>j. protect o' (f j)) js m) = content m"
  by (induction js arbitrary: m) simp_all

lemma content_write:
  assumes "inj cell"
  shows "content (write_letters cell o' w (count_to j k) 0 m) p =
    (if p \<in> cell ` {j..k} then Some (convert_letter (at w (inv cell p - j))) else content m p)"
  by (simp add: content_def write_letters_at [OF assms])

lemma content_vertically:
  "content (crossword_letters (insert_word_vertically w e row column cr)) =
     content (write_letters (Pair column) V w (count_to row (snd e)) 0 (crossword_letters cr))"
  by (simp add: insert_word_vertically_def Let_def)

lemma content_horizontally:
  "content (crossword_letters (insert_word_horizontally w e row column cr)) =
     content (write_letters (\<lambda>j. (j, row)) H w (count_to column (fst e)) 0 (crossword_letters cr))"
  by (simp add: insert_word_horizontally_def Let_def)

lemma content_column:
  "content (write_letters (Pair column) o' w (count_to j k) 0 m) p =
     (if p \<in> {column} \<times> {j..k} then Some (convert_letter (at w (snd p - j))) else content m p)"
proof -
  have inj: "inj (Pair column :: coord \<Rightarrow> pos)" by (simp add: inj_def)
  show ?thesis
    using inv_f_f [OF inj] by (cases p) (auto simp: content_write [OF inj])
qed

lemma content_row:
  "content (write_letters (\<lambda>j. (j, row)) o' w (count_to j k) 0 m) p =
     (if p \<in> {j..k} \<times> {row} then Some (convert_letter (at w (fst p - j))) else content m p)"
proof -
  have inj: "inj (\<lambda>j. (j, row) :: pos)" by (simp add: inj_def)
  show ?thesis
    using inv_f_f [OF inj] by (cases p) (auto simp: content_write [OF inj])
qed

definition accepted :: "cword \<Rightarrow> Crossword \<Rightarrow> Crossword" where
  "accepted w cr = cr\<lparr>Words := Words cr @ [w],
     area := embrace (get_end_position w) (embrace (coordinates w) (area cr))\<rparr>"

lemma inserted_vertically:
  "insert_word w cr = (True, cr') \<Longrightarrow> orient w = V \<Longrightarrow>
     cr' = insert_word_vertically w (get_end_position w) (snd (coordinates w)) (fst (coordinates w)) (accepted w cr)"
  by (simp add: insert_word_def accepted_def Let_def split: if_splits)

lemma inserted_horizontally:
  "insert_word w cr = (True, cr') \<Longrightarrow> orient w = H \<Longrightarrow>
     cr' = insert_word_horizontally w (get_end_position w) (snd (coordinates w)) (fst (coordinates w)) (accepted w cr)"
  by (simp add: insert_word_def accepted_def Let_def split: if_splits)

lemma content_insert:
  assumes "insert_word w cr = (True, cr')"
  shows "content (crossword_letters cr') p =
    (if p \<in> word_cells w then Some (letter_at w p) else content (crossword_letters cr) p)"
  by (cases "orient w")
    (simp_all add: inserted_vertically [OF assms] inserted_horizontally [OF assms] accepted_def
      content_vertically content_horizontally content_column content_row word_cells_def letter_at_def
      del: mem_Sigma_iff)

text \<open>A word passes the check only if it agrees with the letters that are there.\<close>

lemma check_cell_v_content:
  "check_cell_v m w start col row \<Longrightarrow>
     content m (col, row) = None \<or> content m (col, row) = Some (convert_letter (at w (row - start)))"
  by (cases "m (col, row)") (simp_all add: check_cell_v_def content_def split: prod.splits if_splits)

lemma check_cell_h_content:
  "check_cell_h m w start row col \<Longrightarrow>
     content m (col, row) = None \<or> content m (col, row) = Some (convert_letter (at w (col - start)))"
  by (cases "m (col, row)") (simp_all add: check_cell_h_def content_def split: prod.splits if_splits)

lemma content_check:
  assumes "checkWord cr w (orient w)" and "p \<in> word_cells w"
  shows "content (crossword_letters cr) p = None \<or> content (crossword_letters cr) p = Some (letter_at w p)"
proof (cases "orient w")
  case V
  with assms have "check_cell_v (crossword_letters cr) w (snd (coordinates w)) (fst p) (snd p)"
    by (auto simp: checkWord_def check_word_vertically_def list_all_iff word_cells_def)
  with V show ?thesis
    using check_cell_v_content by (fastforce simp: letter_at_def)
next
  case H
  with assms have "check_cell_h (crossword_letters cr) w (fst (coordinates w)) (snd p) (fst p)"
    by (auto simp: checkWord_def check_word_horizontally_def list_all_iff word_cells_def)
  with H show ?thesis
    using check_cell_h_content by (fastforce simp: letter_at_def)
qed

section \<open>The invariant\<close>

definition corners :: "cword list \<Rightarrow> pos set" where
  "corners ws = coordinates ` set ws \<union> get_end_position ` set ws"

definition bounding :: "pos set \<Rightarrow> RectArea" where
  "bounding P = rect (Min (fst ` P), Min (snd ` P)) (Max (fst ` P), Max (snd ` P))"

definition count_of :: "orientation \<Rightarrow> cword list \<Rightarrow> nat" where
  "count_of o' ws = length (filter (\<lambda>w. orient w = o') ws)"

definition holds_words :: "Crossword \<Rightarrow> bool" where
  "holds_words cr \<longleftrightarrow>
     (\<forall>p c. content (crossword_letters cr) p = Some c \<longleftrightarrow>
        (\<exists>w\<in>set (Words cr). p \<in> word_cells w \<and> c = letter_at w p)) \<and>
     area cr = (if Words cr = [] then DEFAULT_EMPTY_RECT_AREA else bounding (corners (Words cr))) \<and>
     word_count cr = (of_nat (count_of H (Words cr)), of_nat (count_of V (Words cr)))"

lemma bounding_nonempty: "finite P \<Longrightarrow> P \<noteq> {} \<Longrightarrow> \<not> rect_empty (bounding P)"
  by (simp add: bounding_def rect_empty_def rect_def)

lemma embrace_bounding:
  "finite P \<Longrightarrow> P \<noteq> {} \<Longrightarrow> embrace p (bounding P) = bounding (insert p P)"
  using bounding_nonempty [of P] by (simp add: embrace_def bounding_def rect_def min.commute max.commute)

lemma embrace_first: "rect_empty r \<Longrightarrow> embrace p r = bounding {p}"
  by (simp add: embrace_def bounding_def rect_def)

lemma finite_corners [simp]: "finite (corners ws)"
  by (simp add: corners_def)

lemma corners_snoc: "corners (ws @ [w]) = insert (get_end_position w) (insert (coordinates w) (corners ws))"
  by (auto simp: corners_def)

lemma corners_empty [simp]: "corners ws = {} \<longleftrightarrow> ws = []"
  by (simp add: corners_def)

lemma area_insert:
  assumes "area cr = (if Words cr = [] then DEFAULT_EMPTY_RECT_AREA else bounding (corners (Words cr)))"
  shows "embrace (get_end_position w) (embrace (coordinates w) (area cr)) = bounding (corners (Words cr @ [w]))"
proof (cases "Words cr = []")
  case True
  moreover have "rect_empty DEFAULT_EMPTY_RECT_AREA"
    by (simp add: rect_empty_def DEFAULT_EMPTY_RECT_AREA_def rect_def)
  ultimately show ?thesis
    using assms by (simp add: embrace_first embrace_bounding corners_def)
next
  case False
  with assms show ?thesis
    by (simp add: embrace_bounding corners_snoc)
qed

lemma insert_other:
  assumes "insert_word w cr = (True, cr')"
  shows "Words cr' = Words cr @ [w]"
    and "area cr' = embrace (get_end_position w) (embrace (coordinates w) (area cr))"
    and "word_count cr' = (fst (word_count cr) + (if orient w = H then 1 else 0),
           snd (word_count cr) + (if orient w = V then 1 else 0))"
  by (cases "orient w"; simp add: inserted_vertically [OF assms] inserted_horizontally [OF assms]
      accepted_def insert_word_vertically_def insert_word_horizontally_def Let_def word_count_def)+

lemma insert_refused: "fst (insert_word w cr) = False \<Longrightarrow> insert_word w cr = (False, cr)"
  by (simp add: insert_word_def Let_def split: if_splits)

lemma holds_insert:
  assumes "holds_words cr"
  shows "holds_words (snd (insert_word w cr))"
proof (cases "fst (insert_word w cr)")
  case False
  with assms show ?thesis using insert_refused [of w cr] by simp
next
  case True
  then obtain cr' where ins: "insert_word w cr = (True, cr')"
    by (cases "insert_word w cr") simp
  then have check: "checkWord cr w (orient w)"
    by (simp add: insert_word_def split: if_splits)
  note content = content_insert [OF ins]
  have old: "content (crossword_letters cr) p = Some c \<longleftrightarrow>
      (\<exists>w\<in>set (Words cr). p \<in> word_cells w \<and> c = letter_at w p)" for p c
    using assms unfolding holds_words_def by blast
  have letters: "content (crossword_letters cr') p = Some c \<longleftrightarrow>
      (\<exists>w\<in>set (Words cr'). p \<in> word_cells w \<and> c = letter_at w p)" for p c
  proof (cases "p \<in> word_cells w")
    case True
    have "c = letter_at w p" if "w' \<in> set (Words cr)" "p \<in> word_cells w'" "c = letter_at w' p" for w'
      using old [of p c] that content_check [OF check True] by auto
    with True show ?thesis
      by (auto simp: content insert_other(1) [OF ins])
  next
    case False
    then show ?thesis
      using old [of p c] by (simp add: content insert_other(1) [OF ins])
  qed
  moreover have "area cr' = bounding (corners (Words cr @ [w]))"
    using assms area_insert [of cr w] insert_other(2) [OF ins] by (simp add: holds_words_def)
  moreover have "word_count cr' = (of_nat (count_of H (Words cr @ [w])), of_nat (count_of V (Words cr @ [w])))"
    using assms insert_other(3) [OF ins] by (cases "orient w") (simp_all add: holds_words_def count_of_def)
  ultimately show ?thesis
    by (simp add: ins holds_words_def insert_other(1) [OF ins])
qed

lemma holds_empty: "holds_words crossword_empty"
  by (simp add: holds_words_def crossword_empty_def content_def word_count_def count_of_def)

lemma holds_fold:
  "(\<And>w cr. holds_words cr \<Longrightarrow> holds_words (f w cr)) \<Longrightarrow> holds_words cr \<Longrightarrow> holds_words (fold f ws cr)"
  by (induction ws arbitrary: cr) simp_all

text \<open>The crosswords a program can build, all but what a move assignment leaves behind. Whatever
  has been in a variable before it is assigned to, a crossword left behind as well, does not matter.\<close>

inductive built :: "Crossword \<Rightarrow> bool" where
  "built (crossword_new w ws)"
| "built cr \<Longrightarrow> built (snd (insert_word w cr))"
| "built cr \<Longrightarrow> built other \<Longrightarrow> built (add_crosswords cr other)"
| "built cr \<Longrightarrow> built (crossword_copy cr)"
| "built cr \<Longrightarrow> built (fst (crossword_move cr))"
| "built cr \<Longrightarrow> built (snd (crossword_move cr))"
| "built cr \<Longrightarrow> built (crossword_assign this cr)"
| "built cr \<Longrightarrow> built (fst (crossword_move_assign this cr))"

section \<open>The picture\<close>

lemma concat_blocks:
  "(\<And>x. x \<in> set xs \<Longrightarrow> length x = n) \<Longrightarrow> length (concat xs) = length xs * n"
  by (induction xs) simp_all

lemma concat_nth:
  assumes "\<And>x. x \<in> set xs \<Longrightarrow> length x = n" and "i < length xs" and "k < n"
  shows "concat xs ! (i * n + k) = xs ! i ! k"
  using assms
proof (induction xs arbitrary: i)
  case (Cons x xs)
  then show ?case by (cases i) (simp_all add: nth_append)
qed simp

lemma count_to_nth: "n < length (count_to j k) \<Longrightarrow> count_to j k ! n = j + of_nat n"
  by (subst count_to_map) simp

definition line_of :: "Crossword \<Rightarrow> coord list \<Rightarrow> coord \<Rightarrow> string" where
  "line_of cr cols row =
     ''. '' @ concat (map (\<lambda>col. print_cell (crossword_letters cr) (col, row)) cols) @ ''.'' @ [CHR 0x0A]"

lemma print_cell_content:
  "print_cell m p = [case content m p of None \<Rightarrow> CHR ''.'' | Some c \<Rightarrow> c, CHR '' '']"
  by (simp add: print_cell_def content_def split: option.splits)

lemma length_line_of: "length (line_of cr cols row) = 2 * length cols + 4"
  by (simp add: line_of_def concat_blocks [of _ 2] print_cell_content length_concat comp_def sum_list_triv)

lemma nth_line_of:
  assumes "i < length cols"
  shows "line_of cr cols row ! (2 * (i + 1)) =
     (case content (crossword_letters cr) (cols ! i, row) of None \<Rightarrow> CHR ''.'' | Some c \<Rightarrow> c)"
proof -
  let ?cells = "map (\<lambda>col. print_cell (crossword_letters cr) (col, row)) cols"
  have two: "length x = 2" if "x \<in> set ?cells" for x
    using that by (auto simp: print_cell_content)
  have "line_of cr cols row ! (2 * (i + 1)) = concat ?cells ! (i * 2 + 0)"
    using assms concat_blocks [of ?cells 2, OF two] by (simp add: line_of_def nth_append mult.commute)
  also have "\<dots> = ?cells ! i ! 0"
    using assms by (intro concat_nth two) simp_all
  finally show ?thesis
    using assms by (simp add: print_cell_content)
qed

lemma below_top:
  assumes "b < SIZE_MAX - 1"
  shows "b \<noteq> SIZE_MAX \<and> b + 1 \<noteq> SIZE_MAX"
proof -
  have "b \<noteq> SIZE_MAX" using assms not_less_iff_gr_or_eq [of b "SIZE_MAX - 1"] by (auto simp: SIZE_MAX_def)
  moreover have "b \<noteq> SIZE_MAX - 1" using assms by auto
  ultimately show ?thesis by (metis add_diff_cancel_right')
qed

lemma length_bar:
  assumes "fst (left_top (area cr)) \<le> fst (right_bottom (area cr))" and "fst (right_bottom (area cr)) < SIZE_MAX - 1"
  shows "length (bar cr) = 2 * length (count_to (fst (left_top (area cr))) (fst (right_bottom (area cr)))) + 4"
proof -
  let ?a = "fst (left_top (area cr))" and ?b = "fst (right_bottom (area cr))"
  have "?b \<noteq> SIZE_MAX" "?b + 1 \<noteq> SIZE_MAX" using below_top [OF assms(2)] by auto
  then have b: "unat (?b + 1) = unat ?b + 1" "unat (?b + 2) = unat ?b + 2"
    using unat_next [of ?b] unat_next [of "?b + 1"] by (simp_all add: add.assoc)
  then have "?a \<le> ?b + 1" "?a < ?b + 2"
    using assms(1) by (simp_all add: word_le_nat_alt word_less_nat_alt)
  moreover have "unat (?b + 1 - ?a) = unat (?b - ?a) + 1"
    using b(1) assms(1) \<open>?a \<le> ?b + 1\<close> by (simp add: unat_sub word_le_nat_alt)
  moreover have "?b + 2 - 1 = ?b + 1" by simp
  ultimately have "length (count_to ?a (?b + 2 - 1)) = unat (?b - ?a) + 2"
    using length_count_to [of ?a "?b + 1"] by (simp only:)
  then show ?thesis
    using assms(1) \<open>?a < ?b + 2\<close>
    by (simp add: bar_def count_below_def length_concat comp_def sum_list_triv length_count_to)
qed

lemma print_lines:
  assumes "fst (left_top (area cr)) \<le> fst (right_bottom (area cr))"
    and "snd (left_top (area cr)) \<le> snd (right_bottom (area cr))"
    and "fst (right_bottom (area cr)) < SIZE_MAX - 1" and "snd (right_bottom (area cr)) \<noteq> SIZE_MAX"
  shows "print_crossword cr = Some (concat ([bar cr] @
    map (line_of cr (count_to (fst (left_top (area cr))) (fst (right_bottom (area cr)))))
      (count_to (snd (left_top (area cr))) (snd (right_bottom (area cr)))) @ [bar cr]))"
proof -
  have "fst (right_bottom (area cr)) \<noteq> SIZE_MAX" using below_top [OF assms(3)] by simp
  moreover have "count_to (snd (left_top (area cr))) (snd (right_bottom (area cr))) \<noteq> []"
    using assms(2) length_count_to by fastforce
  ultimately show ?thesis
    using assms(4) by (simp add: print_crossword_def count_upto_def line_of_def [abs_def])
qed


lemma nth_lines:
  assumes "\<And>x. x \<in> set lines \<Longrightarrow> length x = n" and "length first = n" and "i < length lines" and "k < n"
  shows "concat ([first] @ lines @ [lst]) ! ((i + 1) * n + k) = lines ! i ! k"
proof -
  have "concat ([first] @ lines @ [lst]) ! ((i + 1) * n + k) = (concat lines @ lst) ! (i * n + k)"
    using assms(2) by (simp add: nth_append)
  also have "i * n + k < length lines * n"
  proof -
    have "i * n + k < (i + 1) * n" using assms(4) by simp
    also have "\<dots> \<le> length lines * n" using assms(3) by (intro mult_le_mono1) simp
    finally show ?thesis .
  qed
  then have "(concat lines @ lst) ! (i * n + k) = concat lines ! (i * n + k)"
    using concat_blocks [OF assms(1)] by (simp add: nth_append)
  also have "\<dots> = lines ! i ! k"
    using assms by (intro concat_nth)
  finally show ?thesis .
qed

text \<open>The place of a position in the printed text of a crossword with a given area.\<close>

definition row_width :: "RectArea \<Rightarrow> nat" where
  "row_width r = 2 * (unat (fst (right_bottom r) - fst (left_top r)) + 1) + 4"

definition place :: "RectArea \<Rightarrow> pos \<Rightarrow> nat" where
  "place r p = (unat (snd p - snd (left_top r)) + 1) * row_width r + 2 * (unat (fst p - fst (left_top r)) + 1)"

lemma print_content:
  assumes p: "p \<in> cells (area cr)"
    and "fst (right_bottom (area cr)) < SIZE_MAX - 1" and "snd (right_bottom (area cr)) \<noteq> SIZE_MAX"
  shows "\<exists>t. print_crossword cr = Some t \<and> t ! place (area cr) p =
    (case content (crossword_letters cr) p of None \<Rightarrow> CHR ''.'' | Some c \<Rightarrow> c)"
proof -
  let ?a = "left_top (area cr)" and ?b = "right_bottom (area cr)"
  let ?cols = "count_to (fst ?a) (fst ?b)" and ?rows = "count_to (snd ?a) (snd ?b)"
  let ?x = "unat (fst p - fst ?a)" and ?y = "unat (snd p - snd ?a)"
  have in_area: "fst ?a \<le> fst p" "fst p \<le> fst ?b" "snd ?a \<le> snd p" "snd p \<le> snd ?b"
    using p by (auto simp: cells_def)
  then have le: "fst ?a \<le> fst ?b" "snd ?a \<le> snd ?b" by (auto intro: order_trans)
  have lens: "length ?cols = unat (fst ?b - fst ?a) + 1" "length ?rows = unat (snd ?b - snd ?a) + 1"
    using le by (simp_all add: length_count_to)
  have x: "?x < length ?cols" and y: "?y < length ?rows"
    using in_area le lens by (simp_all add: unat_sub word_le_nat_alt)
  have width: "length (bar cr) = row_width (area cr)"
    using length_bar [OF le(1) assms(2)] lens(1) by (simp add: row_width_def)
  have "concat ([bar cr] @ map (line_of cr ?cols) ?rows @ [bar cr]) ! ((?y + 1) * row_width (area cr) + 2 * (?x + 1))
      = map (line_of cr ?cols) ?rows ! ?y ! (2 * (?x + 1))"
    using x y lens by (intro nth_lines) (auto simp: length_line_of width, simp_all add: row_width_def)
  also have "\<dots> = line_of cr ?cols (?rows ! ?y) ! (2 * (?x + 1))"
    using y by simp
  also have "\<dots> = (case content (crossword_letters cr) (?cols ! ?x, ?rows ! ?y) of None \<Rightarrow> CHR ''.'' | Some c \<Rightarrow> c)"
    using x by (rule nth_line_of)
  also have "(?cols ! ?x, ?rows ! ?y) = p"
    using x y in_area by (simp add: count_to_nth prod_eq_iff)
  finally show ?thesis
    using print_lines [OF le assms(2,3)] by (simp add: place_def)
qed


lemma end_same_line:
  "orient w = V \<Longrightarrow> fst (get_end_position w) = fst (coordinates w)"
  "orient w = H \<Longrightarrow> snd (get_end_position w) = snd (coordinates w)"
  by (simp_all add: get_end_position_def Let_def)

lemma cells_bounding: "finite P \<Longrightarrow> q \<in> P \<Longrightarrow> q \<in> cells (bounding P)"
  by (auto simp: cells_def bounding_def rect_def mem_Times_iff)

lemma cells_convex:
  "p \<in> cells r \<Longrightarrow> q \<in> cells r \<Longrightarrow> cells (rect p q) \<subseteq> cells r"
  by (auto simp: cells_def rect_def mem_Times_iff intro: order_trans)

lemma word_cells_rect: "word_cells w \<subseteq> cells (rect (coordinates w) (get_end_position w))"
  using end_same_line [of w] by (cases "orient w") (auto simp: word_cells_def cells_def rect_def)

lemma word_cells_area:
  assumes "holds_words cr" and "w \<in> set (Words cr)"
  shows "word_cells w \<subseteq> cells (area cr)"
proof -
  have "area cr = bounding (corners (Words cr))"
    using assms by (auto simp: holds_words_def)
  moreover have "coordinates w \<in> corners (Words cr)" "get_end_position w \<in> corners (Words cr)"
    using assms(2) by (auto simp: corners_def)
  ultimately show ?thesis
    by (intro subset_trans [OF word_cells_rect cells_convex]) (simp_all add: cells_bounding)
qed

lemma holds_copies [simp]:
  "crossword_copy cr = cr" "fst (crossword_move cr) = cr" "crossword_assign this cr = cr"
  "fst (crossword_move_assign this cr) = cr"
  by (simp_all add: crossword_copy_def crossword_move_def crossword_assign_def crossword_move_assign_def)

lemma moved_out_empty: "holds_words (snd (crossword_move cr))"
  using holds_empty by (simp add: crossword_move_def crossword_empty_def holds_words_def word_count_def)

lemma built_holds: "built cr \<Longrightarrow> holds_words cr"
proof (induction rule: built.induct)
  case (1 w ws)
  show ?case
    unfolding crossword_new_def by (intro holds_fold holds_insert holds_empty)
next
  case (3 cr other)
  then show ?case
    unfolding add_crosswords_def by (intro holds_fold) (simp_all add: holds_insert)
qed (simp_all add: holds_insert holds_copies moved_out_empty)

text \<open>C13: In every crossword that can be built by the constructors, insertions, sums, moves and
  assignments, except one that a move assignment has left behind, a cell shows a letter exactly if an
  accepted word has that letter (converted to upper case or a question mark) at this place, so crossing
  words agree; the area is the bounding box of the words and the counters are the numbers of words.\<close>

theorem crossword_holds_its_words:
  assumes "built cr"
  shows "holds_words cr"
  using assms by (rule built_holds)

lemma crossword_holds_its_words_witness:
  "holds_words (snd (insert_word (word_new 1 0 V ''eat'') (crossword_new (word_new 0 0 H ''Hello'') [])))"
  by (intro crossword_holds_its_words built.intros)

text \<open>The picture of a crossword that stays away from the largest coordinates is printed and shows
  every letter of every accepted word at its place, and a dot in the cells of the area that belong to
  no word.\<close>

theorem picture_shows_the_words:
  assumes "built cr" and "fst (right_bottom (area cr)) < SIZE_MAX - 1"
    and "snd (right_bottom (area cr)) \<noteq> SIZE_MAX" and "p \<in> cells (area cr)"
  shows "\<exists>t. print_crossword cr = Some t \<and>
    (\<forall>w\<in>set (Words cr). word_cells w \<subseteq> cells (area cr) \<and> (p \<in> word_cells w \<longrightarrow> t ! place (area cr) p = letter_at w p)) \<and>
    ((\<forall>w\<in>set (Words cr). p \<notin> word_cells w) \<longrightarrow> t ! place (area cr) p = CHR ''.'')"
proof -
  have holds: "content (crossword_letters cr) p = Some c \<longleftrightarrow>
      (\<exists>w\<in>set (Words cr). p \<in> word_cells w \<and> c = letter_at w p)" for c
    using built_holds [OF assms(1)] unfolding holds_words_def by blast
  obtain t where t: "print_crossword cr = Some t" "t ! place (area cr) p =
      (case content (crossword_letters cr) p of None \<Rightarrow> CHR ''.'' | Some c \<Rightarrow> c)"
    using print_content [OF assms(4,2,3)] by blast
  have "t ! place (area cr) p = letter_at w p" if "w \<in> set (Words cr)" "p \<in> word_cells w" for w
    using that holds [of "letter_at w p"] t(2) by auto
  moreover have "t ! place (area cr) p = CHR ''.''" if "\<forall>w\<in>set (Words cr). p \<notin> word_cells w"
    using that holds t(2) by (cases "content (crossword_letters cr) p") auto
  ultimately show ?thesis
    using t(1) word_cells_area [OF built_holds [OF assms(1)]] by blast
qed

definition example :: Crossword where
  "example = crossword_new (word_new 0 0 H ''Hello'') [word_new 1 0 V ''eat'', word_new 4 0 V ''Oh'']"

lemmas example_eval = example_def crossword_new_def word_new_def insert_word_def checkWord_def

lemma picture_shows_the_words_witness:
  "\<exists>t. print_crossword example = Some t \<and> t ! place (area example) (1, 2) = CHR ''T''"
proof -
  have built: "built example" unfolding example_def by (rule built.intros)
  have w: "\<lparr>coordinates = (1, 0), orient = V, letters_of = ''eat''\<rparr> \<in> set (Words example)"
    and area: "area example = rect (0, 0) (4, 2)"
    by code_simp+
  have "(1, 2) \<in> word_cells \<lparr>coordinates = (1, 0), orient = V, letters_of = ''eat''\<rparr>"
    by code_simp
  moreover have "letter_at \<lparr>coordinates = (1, 0), orient = V, letters_of = ''eat''\<rparr> (1, 2) = CHR ''T''"
    by code_simp
  moreover have "fst (right_bottom (area example)) < SIZE_MAX - 1" "snd (right_bottom (area example)) \<noteq> SIZE_MAX"
    "(1, 2) \<in> cells (area example)"
    by (simp_all add: area rect_def cells_def SIZE_MAX_def)
  ultimately show ?thesis
    using picture_shows_the_words [OF built, of "(1, 2)"] w by metis
qed


section \<open>Words that are not what was asked for\<close>

text \<open>The move constructor resets the crossword that is moved from, the move assignment does not: what it
  leaves behind has no words and no letters any more but still the area and the counters.\<close>

lemma move_assignment_leaves_area:
  "let left = snd (crossword_move_assign cr (crossword_new (word_new 0 0 H ''Hello'') []))
   in Words left = [] \<and> word_count left = (1, 0) \<and> \<not> rect_empty (area left) \<and> \<not> holds_words left"
proof -
  define left where "left = snd (crossword_move_assign cr (crossword_new (word_new 0 0 H ''Hello'') []))"
  have "word_count (crossword_new (word_new 0 0 H ''Hello'') []) = (1, 0)"
    "\<not> rect_empty (area (crossword_new (word_new 0 0 H ''Hello'') []))" by code_simp+
  then have l: "Words left = []" "word_count left = (1, 0)" "\<not> rect_empty (area left)"
    by (simp_all add: left_def crossword_move_assign_def word_count_def)
  moreover have "\<not> holds_words left" using l by (auto simp: holds_words_def count_of_def)
  ultimately show ?thesis by (simp add: left_def [symmetric] Let_def)
qed

text \<open>The constructor tests the first coordinate also for vertical words, so a vertical word in the
  last column and the first row loses all its letters.\<close>

lemma vertical_word_lost:
  "len new_word \<noteq> SIZE_MAX \<Longrightarrow> letters_of (word_new SIZE_MAX 0 V new_word) = []"
  using unat_next [of "len new_word"]
  by (simp add: word_new_def prefix_of_def Let_def SIZE_MAX_def word_gt_0 unat_eq_0 [symmetric])

text \<open>A crossing word overwrites the direction of a cell, so a second vertical word may start on
  the last letter of another one.\<close>

lemma vertical_words_overlap:
  "let cr = crossword_new (word_new 0 0 V ''ABC'') [word_new 0 2 H ''CX'', word_new 0 2 V ''CD'']
   in length (Words cr) = 3"
  by code_simp

end
