(* ===== verification/Concurrent.thy ===== *)
theory Concurrent
  imports Prelude
begin

text \<open>
  Objects that several threads use at once. A machine runs one atomic step of one thread at a
  time: a step waits, is undefined behaviour, or moves to a new state, and moves are internal,
  a call or a return. The atomic object executes each operation in a single step between its
  call and its return; an implementation all of whose histories of calls and returns are
  histories of the atomic object is linearizable. The locale \<open>safe_machine\<close> holds an invariant
  that excludes undefined behaviour, \<open>progress\<close> adds that all calls end, \<open>atomic_object\<close> carries a
  simulation of single steps over to histories, and \<open>possible_states\<close> does so when the step at
  which an operation takes effect is only known later: a concrete state stands for a set of
  atomic states, each of which is reached from one of the set before.
\<close>

section \<open>Machines\<close>

type_synonym tid = nat

datatype ('op, 'res) label = Internal | Call tid 'op | Return tid 'res

datatype ('op, 'res, 's) move = Blocked | Undefined | Move "('op, 'res) label" 's

inductive machine ::
  "(tid \<Rightarrow> 'op \<Rightarrow> 's \<Rightarrow> 's option) \<Rightarrow> (tid \<Rightarrow> 's \<Rightarrow> ('op, 'res, 's) move) \<Rightarrow>
   's \<Rightarrow> ('op, 'res) label \<Rightarrow> 's \<Rightarrow> bool"
  for start and step where
  call: "start t op s = Some s' \<Longrightarrow> machine start step s (Call t op) s'"
| move: "step t s = Move l s' \<Longrightarrow> machine start step s l s'"

text \<open>An execution with its visible labels, the newest last.\<close>

inductive execution ::
  "('s \<Rightarrow> ('op, 'res) label \<Rightarrow> 's \<Rightarrow> bool) \<Rightarrow> 's \<Rightarrow> ('op, 'res) label list \<Rightarrow> 's \<Rightarrow> bool"
  for rel and s where
  start: "execution rel s [] s"
| internal: "execution rel s ls s' \<Longrightarrow> rel s' Internal s'' \<Longrightarrow> execution rel s ls s''"
| visible: "execution rel s ls s' \<Longrightarrow> rel s' l s'' \<Longrightarrow> l \<noteq> Internal \<Longrightarrow> execution rel s (ls @ [l]) s''"

definition histories :: "('s \<Rightarrow> ('op, 'res) label \<Rightarrow> 's \<Rightarrow> bool) \<Rightarrow> 's \<Rightarrow> ('op, 'res) label list set" where
  "histories rel s = {ls. \<exists>s'. execution rel s ls s'}"

definition reachable :: "('s \<Rightarrow> ('op, 'res) label \<Rightarrow> 's \<Rightarrow> bool) \<Rightarrow> 's \<Rightarrow> 's set" where
  "reachable rel s = {s'. \<exists>ls. execution rel s ls s'}"

lemma execution_step:
  "execution rel s ls s' \<Longrightarrow> rel s' l s'' \<Longrightarrow> execution rel s (if l = Internal then ls else ls @ [l]) s''"
  by (auto intro: execution.intros)

lemma execution_trans:
  assumes "execution rel s ls s'" and "execution rel s' ls' s''"
  shows "execution rel s (ls @ ls') s''"
  using assms(2,1)
  by (induction rule: execution.induct) (auto intro: execution.intros simp flip: append_assoc)

text \<open>A schedule says which thread is called or moves next; running it gives one execution.\<close>

datatype 'op event = Invoke tid 'op | Run tid

fun run_schedule ::
  "(tid \<Rightarrow> 'op \<Rightarrow> 's \<Rightarrow> 's option) \<Rightarrow> (tid \<Rightarrow> 's \<Rightarrow> ('op, 'res, 's) move) \<Rightarrow> 'op event list \<Rightarrow> 's \<Rightarrow>
   (('op, 'res) label list \<times> 's) option"
where
  "run_schedule start step [] s = Some ([], s)"
| "run_schedule start step (Invoke t op # es) s =
     (case start t op s of
        None \<Rightarrow> None
      | Some s' \<Rightarrow> map_option (apfst ((#) (Call t op))) (run_schedule start step es s'))"
| "run_schedule start step (Run t # es) s =
     (case step t s of
        Move l s' \<Rightarrow> map_option (apfst (if l = Internal then \<lambda>ls. ls else (#) l)) (run_schedule start step es s')
      | _ \<Rightarrow> None)"

lemma schedule_execution:
  "run_schedule start step es s = Some (ls, s') \<Longrightarrow> execution (machine start step) s ls s'"
proof (induction es arbitrary: s ls)
  case Nil
  then show ?case by (simp add: execution.start)
next
  case (Cons e es)
  have one: "execution (machine start step) s (if l = Internal then [] else [l]) s1"
    if "machine start step s l s1" for l s1
    using execution_step [OF execution.start [of "machine start step" s], of l s1] that
    by (cases "l = Internal") simp_all
  show ?case
  proof (cases e)
    case (Invoke t op)
    with Cons.prems obtain s1 ls1 where s1: "start t op s = Some s1"
      "run_schedule start step es s1 = Some (ls1, s')" "ls = Call t op # ls1"
      by (auto split: option.splits)
    from execution_trans [OF one [OF machine.call [of start, OF s1(1)]] Cons.IH [OF s1(2)]] show ?thesis
      by (simp add: s1(3))
  next
    case (Run t)
    with Cons.prems obtain l s1 ls1 where s1: "step t s = Move l s1"
      "run_schedule start step es s1 = Some (ls1, s')" "ls = (if l = Internal then ls1 else l # ls1)"
      by (auto split: move.splits if_splits)
    from execution_trans [OF one [OF machine.move [of step, OF s1(1)]] Cons.IH [OF s1(2)]] show ?thesis
      by (simp add: s1(3) split: if_splits)
  qed
qed

lemma schedule_reachable:
  "run_schedule start step es s = Some (ls, s') \<Longrightarrow> s' \<in> reachable (machine start step) s"
  using schedule_execution unfolding reachable_def by fast

section \<open>The atomic object\<close>

datatype ('op, 'res) phase = Idle | Pending 'op | Done 'res

type_synonym ('q, 'op, 'res) atomic = "'q \<times> (tid \<Rightarrow> ('op, 'res) phase)"

inductive atomic_step ::
  "('op \<Rightarrow> 'q \<Rightarrow> 'res \<times> 'q) \<Rightarrow> ('q, 'op, 'res) atomic \<Rightarrow> ('op, 'res) label \<Rightarrow> ('q, 'op, 'res) atomic \<Rightarrow> bool"
  for spec where
  call: "ph t = Idle \<Longrightarrow> atomic_step spec (q, ph) (Call t op) (q, ph(t := Pending op))"
| perform: "ph t = Pending op \<Longrightarrow> spec op q = (r, q') \<Longrightarrow>
    atomic_step spec (q, ph) Internal (q', ph(t := Done r))"
| return: "ph t = Done r \<Longrightarrow> atomic_step spec (q, ph) (Return t r) (q, ph(t := Idle))"

locale safe_machine =
  fixes start :: "tid \<Rightarrow> 'op \<Rightarrow> 's \<Rightarrow> 's option"
    and step :: "tid \<Rightarrow> 's \<Rightarrow> ('op, 'res, 's) move"
    and inv :: "'s \<Rightarrow> bool"
  assumes start_inv: "inv s \<Longrightarrow> start t op s = Some s' \<Longrightarrow> inv s'"
    and step_inv: "inv s \<Longrightarrow> step t s = Move l s' \<Longrightarrow> inv s'"
    and step_defined: "inv s \<Longrightarrow> step t s \<noteq> Undefined"
begin

lemma machine_inv: "machine start step s l s' \<Longrightarrow> inv s \<Longrightarrow> inv s'"
  by (auto elim!: machine.cases intro: start_inv step_inv)

lemma execution_inv: "execution (machine start step) s ls s' \<Longrightarrow> inv s \<Longrightarrow> inv s'"
  by (induction rule: execution.induct) (auto intro: machine_inv)

lemma reached_inv: "inv s \<Longrightarrow> s' \<in> reachable (machine start step) s \<Longrightarrow> inv s'"
  using execution_inv unfolding reachable_def by blast

lemma reached_defined:
  "inv s \<Longrightarrow> s' \<in> reachable (machine start step) s \<Longrightarrow> step t s' \<noteq> Undefined"
  using reached_inv step_defined by blast

end

locale atomic_object =
  fixes start :: "tid \<Rightarrow> 'op \<Rightarrow> 's \<Rightarrow> 's option"
    and step :: "tid \<Rightarrow> 's \<Rightarrow> ('op, 'res, 's) move"
    and spec :: "'op \<Rightarrow> 'q \<Rightarrow> 'res \<times> 'q"
    and rel :: "'s \<Rightarrow> ('q, 'op, 'res) atomic \<Rightarrow> bool"
  assumes start_sim: "rel s a \<Longrightarrow> start t op s = Some s' \<Longrightarrow>
      \<exists>a'. atomic_step spec a (Call t op) a' \<and> rel s' a'"
    and step_sim: "rel s a \<Longrightarrow> step t s = Move l s' \<Longrightarrow>
      \<exists>a'. (atomic_step spec a l a' \<or> l = Internal \<and> a' = a) \<and> rel s' a'"
    and step_defined: "rel s a \<Longrightarrow> step t s \<noteq> Undefined"
begin

lemma machine_sim:
  assumes "machine start step s l s'" and "rel s a"
  shows "\<exists>a'. (atomic_step spec a l a' \<or> l = Internal \<and> a' = a) \<and> rel s' a'"
  using assms
proof (cases rule: machine.cases)
  case (call t op)
  then show ?thesis using start_sim [OF assms(2)] by blast
next
  case (move t)
  then show ?thesis using step_sim [OF assms(2)] by blast
qed

lemma execution_sim:
  assumes "execution (machine start step) s ls s'" and "rel s a"
  shows "\<exists>a'. execution (atomic_step spec) a ls a' \<and> rel s' a'"
  using assms
proof (induction rule: execution.induct)
  case start
  then show ?case by (blast intro: execution.start)
next
  case (internal ls s' s'')
  then obtain a1 where a1: "execution (atomic_step spec) a ls a1" "rel s' a1" by blast
  then show ?case
    using machine_sim [OF internal.hyps(2) a1(2)] by (blast intro: execution.internal)
next
  case (visible ls s' l s'')
  then obtain a1 where a1: "execution (atomic_step spec) a ls a1" "rel s' a1" by blast
  then show ?case
    using machine_sim [OF visible.hyps(2) a1(2)] visible.hyps(3) by (blast intro: execution.visible)
qed

lemma linearizable:
  "rel s a \<Longrightarrow> histories (machine start step) s \<subseteq> histories (atomic_step spec) a"
  using execution_sim unfolding histories_def by blast

end

sublocale atomic_object \<subseteq> safe: safe_machine start step "\<lambda>s. \<exists>a. rel s a"
proof unfold_locales
  show "\<exists>a. rel s' a" if "\<exists>a. rel s a" "start t op s = Some s'" for s t op s'
    using that start_sim by blast
  show "\<exists>a. rel s' a" if "\<exists>a. rel s a" "step t s = Move l s'" for s t l s'
    using that step_sim by blast
qed (use step_defined in blast)

locale possible_states = safe_machine +
  fixes spec :: "'op \<Rightarrow> 'q \<Rightarrow> 'res \<times> 'q"
    and states :: "'s \<Rightarrow> ('q, 'op, 'res) atomic set"
  assumes states_nonempty: "inv s \<Longrightarrow> states s \<noteq> {}"
    and start_states: "inv s \<Longrightarrow> start t op s = Some s' \<Longrightarrow> a' \<in> states s' \<Longrightarrow>
      \<exists>a\<in>states s. atomic_step spec a (Call t op) a'"
    and step_states: "inv s \<Longrightarrow> step t s = Move l s' \<Longrightarrow> a' \<in> states s' \<Longrightarrow>
      \<exists>a\<in>states s. atomic_step spec a l a' \<or> l = Internal \<and> a' = a"
begin

lemma machine_states:
  assumes "machine start step s l s'" and "inv s" and "a' \<in> states s'"
  shows "\<exists>a\<in>states s. atomic_step spec a l a' \<or> l = Internal \<and> a' = a"
  using assms
proof (cases rule: machine.cases)
  case (call t op)
  then show ?thesis using start_states [OF assms(2) _ assms(3)] by blast
next
  case (move t)
  then show ?thesis using step_states [OF assms(2) _ assms(3)] by blast
qed

lemma execution_states:
  assumes "execution (machine start step) s ls s'" and "inv s" and "states s \<subseteq> {a}" and "a' \<in> states s'"
  shows "execution (atomic_step spec) a ls a'"
  using assms(1,4)
proof (induction arbitrary: a' rule: execution.induct)
  case start
  then show ?case using assms(3) by (auto intro: execution.start)
next
  case (internal ls s' s'')
  then obtain a1 where "a1 \<in> states s'" and a1: "atomic_step spec a1 Internal a' \<or> a' = a1"
    using machine_states [OF internal.hyps(2) execution_inv [OF internal.hyps(1) assms(2)]] by blast
  from internal.IH [OF this(1)] a1 show ?case by (auto intro: execution.internal)
next
  case (visible ls s' l s'')
  then obtain a1 where "a1 \<in> states s'" and a1: "atomic_step spec a1 l a'"
    using machine_states [OF visible.hyps(2) execution_inv [OF visible.hyps(1) assms(2)]] by blast
  from visible.IH [OF this(1)] a1 visible.hyps(3) show ?case by (auto intro: execution.visible)
qed

lemma linearizable:
  assumes "inv s" and "states s \<subseteq> {a}"
  shows "histories (machine start step) s \<subseteq> histories (atomic_step spec) a"
proof
  fix ls assume "ls \<in> histories (machine start step) s"
  then obtain s' where ex: "execution (machine start step) s ls s'" by (auto simp: histories_def)
  then obtain a' where "a' \<in> states s'"
    using states_nonempty [OF execution_inv [OF ex assms(1)]] by blast
  with execution_states [OF ex assms] show "ls \<in> histories (atomic_step spec) a"
    unfolding histories_def by blast
qed

end

section \<open>All calls end\<close>

definition moves :: "(tid \<Rightarrow> 's \<Rightarrow> ('op, 'res, 's) move) \<Rightarrow> 's \<Rightarrow> 's \<Rightarrow> bool" where
  "moves step s s' \<longleftrightarrow> (\<exists>t l. step t s = Move l s')"

text \<open>The steps all threads have still to do, as the sum of what is left in each.\<close>

definition total :: "('p \<Rightarrow> nat) \<Rightarrow> (tid \<Rightarrow> 'p) \<Rightarrow> nat" where
  "total c f = (\<Sum>t | c (f t) \<noteq> 0. c (f t))"

lemma total_update:
  assumes "finite {t. c (f t) \<noteq> 0}"
  shows "total c (f(a := x)) + c (f a) = total c f + c x"
proof -
  let ?A = "insert a {t. c (f t) \<noteq> 0}"
  have all: "total c g = (\<Sum>t\<in>?A. c (g t))" if "\<And>t. t \<noteq> a \<Longrightarrow> g t = f t" for g
    unfolding total_def using assms that by (intro sum.mono_neutral_left) auto
  have "sum g ?A = g a + sum g (?A - {a})" for g :: "tid \<Rightarrow> nat"
    using assms by (intro sum.remove) auto
  moreover have "(\<Sum>t\<in>?A - {a}. c ((f(a := x)) t)) = (\<Sum>t\<in>?A - {a}. c (f t))"
    by (intro sum.cong) auto
  ultimately show ?thesis
    using all [of f] all [of "f(a := x)"] by simp
qed

locale progress = safe_machine +
  fixes rank :: "'s \<Rightarrow> nat" and idle :: "'s \<Rightarrow> bool"
  assumes rank_less: "inv s \<Longrightarrow> step t s = Move l s' \<Longrightarrow> rank s' < rank s"
    and no_deadlock: "inv s \<Longrightarrow> \<not> idle s \<Longrightarrow> \<exists>t l s'. step t s = Move l s'"
begin

lemma moves_inv: "(moves step)\<^sup>*\<^sup>* s s' \<Longrightarrow> inv s \<Longrightarrow> inv s'"
  by (induction rule: rtranclp_induct) (auto simp: moves_def intro: step_inv)

lemma moves_bounded: "inv s \<Longrightarrow> (moves step ^^ n) s s' \<Longrightarrow> n + rank s' \<le> rank s"
proof (induction n arbitrary: s)
  case (Suc n)
  then obtain s1 where "moves step s s1" and rest: "(moves step ^^ n) s1 s'"
    by (blast elim: relpowp_Suc_E2)
  then obtain t l where mv: "step t s = Move l s1" by (auto simp: moves_def)
  from Suc.IH [OF step_inv [OF Suc.prems(1) mv] rest] rank_less [OF Suc.prems(1) mv] show ?case by simp
qed simp

lemma all_return: "inv s \<Longrightarrow> \<exists>s'. (moves step)\<^sup>*\<^sup>* s s' \<and> idle s'"
proof (induction "rank s" arbitrary: s rule: less_induct)
  case less
  show ?case
  proof (cases "idle s")
    case False
    with no_deadlock [OF less.prems] obtain t l s1 where mv: "step t s = Move l s1" by blast
    from less.hyps [OF rank_less [OF less.prems mv] step_inv [OF less.prems mv]] obtain s' where
      "(moves step)\<^sup>*\<^sup>* s1 s'" "idle s'" by blast
    moreover have "moves step s s1" using mv by (auto simp: moves_def)
    ultimately show ?thesis by (meson converse_rtranclp_into_rtranclp)
  qed blast
qed

lemma calls_return:
  assumes "inv s"
  shows "(\<forall>n s'. (moves step ^^ n) s s' \<longrightarrow> n \<le> rank s) \<and>
    (\<forall>s'. (moves step)\<^sup>*\<^sup>* s s' \<longrightarrow> (\<nexists>s''. moves step s' s'') \<longrightarrow> idle s') \<and>
    (\<exists>s'. (moves step)\<^sup>*\<^sup>* s s' \<and> idle s')"
proof (intro conjI allI impI)
  show "n \<le> rank s" if "(moves step ^^ n) s s'" for n s'
    using moves_bounded [OF assms that] by simp
  show "idle s'" if "(moves step)\<^sup>*\<^sup>* s s'" "\<nexists>s''. moves step s' s''" for s'
    using moves_inv [OF that(1) assms] no_deadlock that(2) unfolding moves_def by blast
qed (fact all_return [OF assms])

end

section \<open>Allocations that may fail\<close>

text \<open>
  A machine whose state has the outcomes of the allocations to come. \<open>clear\<close> empties the list, which
  stands for allocations that all succeed: as long as no allocation has failed, the machine does what it
  does from the cleared state.
\<close>

definition none_failed :: "'a alloc_scheme \<Rightarrow> 'a alloc_scheme \<Rightarrow> bool" where
  "none_failed s s' \<longleftrightarrow> (\<exists>used. mallocs s = used @ mallocs s' \<and> False \<notin> set used)"

locale allocating =
  fixes start :: "tid \<Rightarrow> 'op \<Rightarrow> 'a alloc_scheme \<Rightarrow> 'a alloc_scheme option"
    and step :: "tid \<Rightarrow> 'a alloc_scheme \<Rightarrow> ('op, 'res, 'a alloc_scheme) move"
    and clear :: "'a alloc_scheme \<Rightarrow> 'a alloc_scheme"
  assumes start_clear: "start t op s = Some s' \<Longrightarrow> mallocs s' = mallocs s \<and> start t op (clear s) = Some (clear s')"
    and step_clear: "step t s = Move l s' \<Longrightarrow>
      \<exists>used. mallocs s = used @ mallocs s' \<and> (False \<notin> set used \<longrightarrow> step t (clear s) = Move l (clear s'))"
    and step_undefined: "step t s = Undefined \<Longrightarrow> step t (clear s) = Undefined"
    and step_blocked: "step t s = Blocked \<Longrightarrow> step t (clear s) = Blocked"
begin

lemma machine_clear:
  assumes "machine start step s l s'"
  shows "\<exists>used. mallocs s = used @ mallocs s' \<and>
    (False \<notin> set used \<longrightarrow> machine start step (clear s) l (clear s'))"
  using assms
proof (cases rule: machine.cases)
  case (call t op)
  with start_clear [OF call(2)] show ?thesis by (intro exI [of _ "[]"]) (auto intro: machine.call)
next
  case (move t)
  with step_clear [OF move] show ?thesis by (auto intro: machine.move)
qed

lemma execution_clear:
  assumes "execution (machine start step) s ls s'"
  shows "\<exists>used. mallocs s = used @ mallocs s' \<and>
    (False \<notin> set used \<longrightarrow> execution (machine start step) (clear s) ls (clear s'))"
  using assms
proof (induction rule: execution.induct)
  case start
  show ?case by (intro exI [of _ "[]"]) (simp add: execution.start)
next
  case (internal ls s' s'')
  with machine_clear [OF internal.hyps(2)] show ?case
    by (metis append_assoc execution.internal in_set_conv_decomp Un_iff set_append)
next
  case (visible ls s' l s'')
  with machine_clear [OF visible.hyps(2)] show ?case
    by (metis append_assoc execution.visible Un_iff set_append)
qed

lemma unfailed_execution:
  assumes "execution (machine start step) s ls s'" and "none_failed s s'"
  shows "execution (machine start step) (clear s) ls (clear s')"
  using execution_clear [OF assms(1)] assms(2) by (auto simp: none_failed_def)

lemma unfailed_reachable:
  "s' \<in> reachable (machine start step) s \<Longrightarrow> none_failed s s' \<Longrightarrow>
     clear s' \<in> reachable (machine start step) (clear s)"
  using unfailed_execution unfolding reachable_def by blast

end

section \<open>Ownership of memory\<close>

text \<open>The allocated addresses \<open>D\<close> are the shared ones \<open>N\<close> and those a single thread owns.\<close>

definition owns_ok :: "(tid \<Rightarrow> 'a set) \<Rightarrow> 'a set \<Rightarrow> 'a set \<Rightarrow> bool" where
  "owns_ok own D N \<longleftrightarrow> D = N \<union> (\<Union>t. own t) \<and> (\<forall>t. own t \<inter> N = {}) \<and>
     (\<forall>t u. t \<noteq> u \<longrightarrow> own t \<inter> own u = {})"

lemma owns_disjoint: "owns_ok own D N \<Longrightarrow> u \<noteq> t \<Longrightarrow> a \<in> own t \<Longrightarrow> a \<notin> own u"
  unfolding owns_ok_def by blast

lemma owns_nothing [simp]: "owns_ok (\<lambda>t. {}) D N \<longleftrightarrow> D = N"
  by (simp add: owns_ok_def)

lemma owns_step:
  assumes ok: "owns_ok own D N" and own': "\<And>u. u \<noteq> t \<Longrightarrow> own' u = own u"
    and dom: "D' = N' \<union> own' t \<union> (D - N - own t)"
    and apart: "own' t \<inter> N' = {}" "(N' \<union> own' t) \<inter> (D - N - own t) = {}"
  shows "owns_ok own' D' N'"
proof -
  have rest: "D - N - own t = (\<Union>u\<in>-{t}. own u)"
    using ok unfolding owns_ok_def by blast
  have far: "own u \<inter> N' = {}" "own u \<inter> own' t = {}" if "u \<noteq> t" for u
    using apart(2) that unfolding rest by blast+
  have "(\<Union>u. own' u) = own' t \<union> (\<Union>u\<in>-{t}. own' u)" by blast
  also have "(\<Union>u\<in>-{t}. own' u) = (\<Union>u\<in>-{t}. own u)" using own' by simp
  finally have "D' = N' \<union> (\<Union>u. own' u)"
    unfolding dom rest by blast
  moreover have "own' u \<inter> N' = {}" for u
    using far(1) apart(1) own' by (cases "u = t") simp_all
  moreover have "own' u \<inter> own' v = {}" if "u \<noteq> v" for u v
  proof -
    have "own u \<inter> own v = {}" using ok that by (simp add: owns_ok_def)
    with that far(2) [of u] far(2) [of v] own' show ?thesis
      by (cases "u = t"; cases "v = t") (simp_all add: Int_commute)
  qed
  ultimately show ?thesis unfolding owns_ok_def by blast
qed

section \<open>Queues of values\<close>

text \<open>\<open>EMPTY_VALUE\<close> is what \<open>pop\<close> returns when there is nothing in the queue.\<close>

definition EMPTY_VALUE :: int where
  "EMPTY_VALUE = 0"

datatype queue_op = Push int | Pop | IsEmpty

datatype queue_res = Unit | Value int | Answer bool

fun queue_spec :: "queue_op \<Rightarrow> int list \<Rightarrow> queue_res \<times> int list" where
  "queue_spec (Push v) q = (Unit, q @ [v])"
| "queue_spec Pop [] = (Value EMPTY_VALUE, [])"
| "queue_spec Pop (v # q) = (Value v, q)"
| "queue_spec IsEmpty q = (Answer (q = []), q)"

end
