(* ===== verification/SimpleQueue.thy ===== *)
theory SimpleQueue
  imports Concurrent
begin

text \<open>
  The queue with two locks of \<open>non-blocking-queues/SimpleQueue.c\<close>: a linked list whose first
  node is a dummy. Every access to memory that threads share is a step of its own, in the order
  of the code; a program counter holds the local variables that are still needed. Memory is
  sequentially consistent, as the atomics and the locks of the code require. A dereference of a
  null pointer or of a freed node, and freeing a node twice, are \<open>Undefined\<close>.
\<close>

type_synonym ptr = "addr option"

record node =
  nxt :: ptr
  item :: int

text \<open>Where a thread is: the constructor names the statement to be executed next.\<close>

datatype pc =
    Out
  | PushLock int | PushNew int | PushLink int ptr | PushTail ptr | PushUnlock
  | PopLock | PopHead | PopNext ptr | PopTest ptr ptr | PopMove ptr ptr int | PopFree ptr int | PopUnlock int
  | EmptyLock | EmptyLoad | EmptyUnlock bool

record queue = alloc +
  heap :: "addr \<rightharpoonup> node"
  head :: ptr
  tail :: ptr
  head_mtx :: "tid option"
  tail_mtx :: "tid option"
  pcs :: "tid \<Rightarrow> pc"

abbreviation goto :: "tid \<Rightarrow> pc \<Rightarrow> queue \<Rightarrow> queue" where
  "goto t p s \<equiv> s\<lparr>pcs := (pcs s)(t := p)\<rparr>"

definition deref :: "ptr \<Rightarrow> queue \<Rightarrow> node option" where
  "deref p s = (case p of None \<Rightarrow> None | Some a \<Rightarrow> heap s a)"

definition node_new :: "int \<Rightarrow> queue \<Rightarrow> ptr \<times> queue" where
  "node_new v s =
     (case malloc s of
        (None, s) \<Rightarrow> (None, s)
      | (Some a, s) \<Rightarrow> (Some a, s\<lparr>heap := (heap s)(a \<mapsto> \<lparr>nxt = None, item = v\<rparr>)\<rparr>))"

section \<open>Creating and deleting\<close>

definition fresh_queue :: "bool list \<Rightarrow> queue" where
  "fresh_queue ms = \<lparr>next_addr = 0, mallocs = ms, heap = Map.empty, head = None, tail = None,
     head_mtx = None, tail_mtx = None, pcs = (\<lambda>_. Out)\<rparr>"

text \<open>\<open>None\<close> when the structure or the dummy node cannot be allocated. The memory of the structure
  itself is the state and not a part of the heap of nodes.\<close>

definition SimpleQueue_new :: "bool list \<Rightarrow> queue option" where
  "SimpleQueue_new ms =
     (case malloc (fresh_queue ms) of
        (None, s) \<Rightarrow> None
      | (Some q, s) \<Rightarrow>
          (case node_new EMPTY_VALUE s of
             (None, s) \<Rightarrow> None
           | (Some a, s) \<Rightarrow> Some (s\<lparr>head := Some a, tail := Some a\<rparr>)))"

text \<open>The loop that frees the nodes; \<open>fuel\<close> bounds the number of nodes that are freed.\<close>

fun free_nodes :: "nat \<Rightarrow> ptr \<Rightarrow> queue \<Rightarrow> queue option" where
  "free_nodes n None s = Some s"
| "free_nodes 0 (Some a) s = None"
| "free_nodes (Suc n) (Some a) s =
     (case heap s a of
        None \<Rightarrow> None
      | Some nd \<Rightarrow> free_nodes n (nxt nd) (s\<lparr>heap := (heap s)(a := None)\<rparr>))"

definition SimpleQueue_delete :: "queue \<Rightarrow> queue option" where
  "SimpleQueue_delete s = free_nodes (next_addr s) (head s) s"

section \<open>The operations\<close>

definition start :: "tid \<Rightarrow> queue_op \<Rightarrow> queue \<Rightarrow> queue option" where
  "start t c s =
     (if pcs s t = Out
      then Some (goto t (case c of Push v \<Rightarrow> PushLock v | Pop \<Rightarrow> PopLock | IsEmpty \<Rightarrow> EmptyLock) s)
      else None)"

type_synonym qmove = "(queue_op, queue_res, queue) move"

definition SimpleQueue_push :: "tid \<Rightarrow> pc \<Rightarrow> queue \<Rightarrow> qmove" where
  "SimpleQueue_push t p s = (case p of
     PushLock v \<Rightarrow>
       if tail_mtx s = None then Move Internal (goto t (PushNew v) (s\<lparr>tail_mtx := Some t\<rparr>)) else Blocked
   | PushNew v \<Rightarrow> (let (n, s) = node_new v s in Move Internal (goto t (PushLink v n) s))
   | PushLink v n \<Rightarrow>
       (case tail s of
          None \<Rightarrow> Undefined
        | Some a \<Rightarrow>
            (case heap s a of
               None \<Rightarrow> Undefined
             | Some nd \<Rightarrow> Move Internal (goto t (PushTail n) (s\<lparr>heap := (heap s)(a \<mapsto> nd\<lparr>nxt := n\<rparr>)\<rparr>))))
   | PushTail n \<Rightarrow> Move Internal (goto t PushUnlock (s\<lparr>tail := n\<rparr>))
   | PushUnlock \<Rightarrow> Move (Return t Unit) (goto t Out (s\<lparr>tail_mtx := None\<rparr>))
   | _ \<Rightarrow> Blocked)"

definition SimpleQueue_pop :: "tid \<Rightarrow> pc \<Rightarrow> queue \<Rightarrow> qmove" where
  "SimpleQueue_pop t p s = (case p of
     PopLock \<Rightarrow> if head_mtx s = None then Move Internal (goto t PopHead (s\<lparr>head_mtx := Some t\<rparr>)) else Blocked
   | PopHead \<Rightarrow> Move Internal (goto t (PopNext (head s)) s)
   | PopNext h \<Rightarrow>
       (case deref (head s) s of
          None \<Rightarrow> Undefined
        | Some nd \<Rightarrow> Move Internal (goto t (PopTest h (nxt nd)) s))
   | PopTest h n \<Rightarrow>
       (case n of
          None \<Rightarrow> Move (Return t (Value EMPTY_VALUE)) (goto t Out (s\<lparr>head_mtx := None\<rparr>))
        | Some a \<Rightarrow>
            (case heap s a of
               None \<Rightarrow> Undefined
             | Some nd \<Rightarrow> Move Internal (goto t (PopMove h n (item nd)) s)))
   | PopMove h n v \<Rightarrow> Move Internal (goto t (PopFree h v) (s\<lparr>head := n\<rparr>))
   | PopFree h v \<Rightarrow>
       (case h of
          None \<Rightarrow> Move Internal (goto t (PopUnlock v) s)
        | Some a \<Rightarrow>
            (case heap s a of
               None \<Rightarrow> Undefined
             | Some nd \<Rightarrow> Move Internal (goto t (PopUnlock v) (s\<lparr>heap := (heap s)(a := None)\<rparr>))))
   | PopUnlock v \<Rightarrow> Move (Return t (Value v)) (goto t Out (s\<lparr>head_mtx := None\<rparr>))
   | _ \<Rightarrow> Blocked)"

definition SimpleQueue_is_empty :: "tid \<Rightarrow> pc \<Rightarrow> queue \<Rightarrow> qmove" where
  "SimpleQueue_is_empty t p s = (case p of
     EmptyLock \<Rightarrow> if head_mtx s = None then Move Internal (goto t EmptyLoad (s\<lparr>head_mtx := Some t\<rparr>)) else Blocked
   | EmptyLoad \<Rightarrow>
       (case deref (head s) s of
          None \<Rightarrow> Undefined
        | Some nd \<Rightarrow> Move Internal (goto t (EmptyUnlock (nxt nd = None)) s))
   | EmptyUnlock b \<Rightarrow> Move (Return t (Answer b)) (goto t Out (s\<lparr>head_mtx := None\<rparr>))
   | _ \<Rightarrow> Blocked)"

fun in_push :: "pc \<Rightarrow> bool" where
  "in_push (PushLock v) = True"
| "in_push (PushNew v) = True"
| "in_push (PushLink v n) = True"
| "in_push (PushTail n) = True"
| "in_push PushUnlock = True"
| "in_push p = False"

fun in_is_empty :: "pc \<Rightarrow> bool" where
  "in_is_empty EmptyLock = True"
| "in_is_empty EmptyLoad = True"
| "in_is_empty (EmptyUnlock b) = True"
| "in_is_empty p = False"

definition step :: "tid \<Rightarrow> queue \<Rightarrow> qmove" where
  "step t s =
     (if pcs s t = Out then Blocked
      else if in_push (pcs s t) then SimpleQueue_push t (pcs s t) s
      else if in_is_empty (pcs s t) then SimpleQueue_is_empty t (pcs s t) s
      else SimpleQueue_pop t (pcs s t) s)"

section \<open>The chain of nodes\<close>

fun linked :: "(addr \<rightharpoonup> node) \<Rightarrow> addr list \<Rightarrow> bool" where
  "linked h [] = False"
| "linked h [a] = (\<exists>nd. h a = Some nd \<and> nxt nd = None)"
| "linked h (a # b # ns) = ((\<exists>nd. h a = Some nd \<and> nxt nd = Some b) \<and> linked h (b # ns))"

definition item_at :: "(addr \<rightharpoonup> node) \<Rightarrow> addr \<Rightarrow> int" where
  "item_at h a = (case h a of None \<Rightarrow> 0 | Some nd \<Rightarrow> item nd)"

definition items :: "(addr \<rightharpoonup> node) \<Rightarrow> addr list \<Rightarrow> int list" where
  "items h ns = map (item_at h) (tl ns)"

lemma linked_heap: "linked h ns \<Longrightarrow> a \<in> set ns \<Longrightarrow> \<exists>nd. h a = Some nd"
  by (induction h ns rule: linked.induct) auto

lemma linked_other: "a \<notin> set ns \<Longrightarrow> linked (h(a := x)) ns = linked h ns"
  by (induction h ns rule: linked.induct) auto

lemma linked_append:
  assumes "linked h ns" and "h (last ns) = Some nd" and "distinct ns" and "a \<notin> set ns"
    and "h a = Some \<lparr>nxt = None, item = v\<rparr>"
  shows "linked (h(last ns \<mapsto> nd\<lparr>nxt := Some a\<rparr>)) (ns @ [a])"
  using assms
proof (induction h ns rule: linked.induct)
  case (3 h x y ns)
  then have "x \<noteq> last (y # ns)" by (metis distinct.simps(2) last_in_set list.discI)
  with 3 show ?case by auto
qed auto

lemma linked_last: "linked h ns \<Longrightarrow> ns \<noteq> [] \<and> (\<exists>nd. h (last ns) = Some nd \<and> nxt nd = None)"
  by (induction h ns rule: linked.induct) auto

lemma linked_next:
  "linked h ns \<Longrightarrow> h (hd ns) = Some nd \<Longrightarrow> nxt nd = (case tl ns of [] \<Rightarrow> None | b # _ \<Rightarrow> Some b)"
  by (induction h ns rule: linked.induct) auto

lemma linked_tl: "linked h ns \<Longrightarrow> tl ns \<noteq> [] \<Longrightarrow> linked h (tl ns)"
  by (induction h ns rule: linked.induct) auto

lemma items_other: "a \<notin> set ns \<Longrightarrow> items (h(a := x)) ns = items h ns"
  by (cases ns) (auto simp: items_def item_at_def)

lemma items_append:
  assumes "ns \<noteq> []" and "h b = Some nd" and "a \<noteq> b" and "h a = Some \<lparr>nxt = None, item = v\<rparr>"
  shows "items (h(b \<mapsto> nd\<lparr>nxt := n\<rparr>)) (ns @ [a]) = items h ns @ [v]"
  using assms by (cases ns) (auto simp: items_def item_at_def)

end
