(* ===== verification/SimpleQueue_Props.thy ===== *)
theory SimpleQueue_Props
  imports SimpleQueue
begin

text \<open>
  The queue with two locks is an atomic queue: the invariant of the chain of nodes and of what
  each thread owns, its preservation by every step, and the properties that follow from the
  simulation.
\<close>

section \<open>The invariant\<close>

text \<open>A push takes effect when its node is linked, a pop when the head moves or when it finds
  that nothing follows the head.\<close>

fun phase_of :: "pc \<Rightarrow> (queue_op, queue_res) phase" where
  "phase_of Out = Idle"
| "phase_of (PushLock v) = Pending (Push v)"
| "phase_of (PushNew v) = Pending (Push v)"
| "phase_of (PushLink v n) = Pending (Push v)"
| "phase_of (PushTail n) = Done Unit"
| "phase_of PushUnlock = Done Unit"
| "phase_of PopLock = Pending Pop"
| "phase_of PopHead = Pending Pop"
| "phase_of (PopNext h) = Pending Pop"
| "phase_of (PopTest h n) = (if n = None then Done (Value EMPTY_VALUE) else Pending Pop)"
| "phase_of (PopMove h n v) = Pending Pop"
| "phase_of (PopFree h v) = Done (Value v)"
| "phase_of (PopUnlock v) = Done (Value v)"
| "phase_of EmptyLock = Pending IsEmpty"
| "phase_of EmptyLoad = Pending IsEmpty"
| "phase_of (EmptyUnlock b) = Done (Answer b)"

fun holds_tail :: "pc \<Rightarrow> bool" where
  "holds_tail (PushNew v) = True"
| "holds_tail (PushLink v n) = True"
| "holds_tail (PushTail n) = True"
| "holds_tail PushUnlock = True"
| "holds_tail p = False"

fun holds_head :: "pc \<Rightarrow> bool" where
  "holds_head PopHead = True"
| "holds_head (PopNext h) = True"
| "holds_head (PopTest h n) = True"
| "holds_head (PopMove h n v) = True"
| "holds_head (PopFree h v) = True"
| "holds_head (PopUnlock v) = True"
| "holds_head EmptyLoad = True"
| "holds_head (EmptyUnlock b) = True"
| "holds_head p = False"

text \<open>The nodes outside the chain that a thread still has in its hands.\<close>

fun owned :: "pc \<Rightarrow> addr set" where
  "owned (PushLink v (Some a)) = {a}"
| "owned (PopFree (Some a) v) = {a}"
| "owned p = {}"

fun locals_ok :: "queue \<Rightarrow> addr list \<Rightarrow> pc \<Rightarrow> bool" where
  "locals_ok s ns (PushLink v n) = (\<exists>a. n = Some a \<and> heap s a = Some \<lparr>nxt = None, item = v\<rparr>)"
| "locals_ok s ns (PushTail n) = (n = Some (last ns))"
| "locals_ok s ns (PopNext h) = (h = Some (hd ns))"
| "locals_ok s ns (PopTest h n) =
     (\<forall>a. n = Some a \<longrightarrow> h = Some (hd ns) \<and> tl ns \<noteq> [] \<and> a = hd (tl ns))"
| "locals_ok s ns (PopMove h n v) =
     (h = Some (hd ns) \<and> tl ns \<noteq> [] \<and> n = Some (hd (tl ns)) \<and> v = item_at (heap s) (hd (tl ns)))"
| "locals_ok s ns (PopFree h v) = (h \<noteq> None)"
| "locals_ok s ns p = True"

definition chain_ok :: "queue \<Rightarrow> addr list \<Rightarrow> bool" where
  "chain_ok s ns \<longleftrightarrow> linked (heap s) ns \<and> distinct ns \<and> head s = Some (hd ns) \<and>
     ((\<forall>t n. pcs s t \<noteq> PushTail n) \<longrightarrow> tail s = Some (last ns))"

definition memory_ok :: "queue \<Rightarrow> addr list \<Rightarrow> bool" where
  "memory_ok s ns \<longleftrightarrow> mallocs s = [] \<and> (\<forall>a\<in>dom (heap s). a < next_addr s) \<and>
     owns_ok (\<lambda>t. owned (pcs s t)) (dom (heap s)) (set ns)"

definition threads_ok :: "queue \<Rightarrow> addr list \<Rightarrow> bool" where
  "threads_ok s ns \<longleftrightarrow> (\<forall>t. locals_ok s ns (pcs s t)) \<and>
     (\<forall>t. holds_tail (pcs s t) \<longleftrightarrow> tail_mtx s = Some t) \<and>
     (\<forall>t. holds_head (pcs s t) \<longleftrightarrow> head_mtx s = Some t) \<and> finite {t. pcs s t \<noteq> Out}"

definition queue_rel :: "queue \<Rightarrow> (int list, queue_op, queue_res) atomic \<Rightarrow> bool" where
  "queue_rel s a \<longleftrightarrow> (\<exists>ns. chain_ok s ns \<and> memory_ok s ns \<and> threads_ok s ns \<and>
     fst a = items (heap s) ns \<and> snd a = phase_of \<circ> pcs s)"

lemmas inv_defs = chain_ok_def memory_ok_def threads_ok_def

lemma phase_upd: "phase_of \<circ> (pcs s)(t := p) = (phase_of \<circ> pcs s)(t := phase_of p)"
  by auto

lemma linking_upd:
  "pcs s t = q \<Longrightarrow> (\<And>n. q \<noteq> PushTail n) \<Longrightarrow> (\<And>n. p \<noteq> PushTail n) \<Longrightarrow>
     (\<forall>u n. ((pcs s)(t := p)) u \<noteq> PushTail n) \<longleftrightarrow> (\<forall>u n. pcs s u \<noteq> PushTail n)"
  by (metis fun_upd_apply)

lemma owned_disjoint: "memory_ok s ns \<Longrightarrow> u \<noteq> t \<Longrightarrow> a \<in> owned (pcs s t) \<Longrightarrow> a \<notin> owned (pcs s u)"
  using owns_disjoint [of "\<lambda>t. owned (pcs s t)" _ _ u t a] unfolding memory_ok_def by blast

lemma owned_apart: "memory_ok s ns \<Longrightarrow> a \<in> owned (pcs s t) \<Longrightarrow> a \<in> dom (heap s) \<and> a \<notin> set ns"
  unfolding memory_ok_def owns_ok_def by blast

lemma chain_allocated: "memory_ok s ns \<Longrightarrow> set ns \<subseteq> dom (heap s)"
  unfolding memory_ok_def owns_ok_def by blast

text \<open>A step that changes no memory and neither takes nor gives up a node.\<close>

lemma quiet_step:
  assumes "chain_ok s ns" "memory_ok s ns" "threads_ok s ns"
    and "pcs s t = p" and "owned p = {}" and "owned p' = {}"
    and "heap s' = heap s" "head s' = head s" "tail s' = tail s" "next_addr s' = next_addr s"
    and "mallocs s' = mallocs s" and "pcs s' = (pcs s)(t := p')"
    and "locals_ok s ns p'" "\<And>n. p \<noteq> PushTail n" "\<And>n. p' \<noteq> PushTail n"
    and "tail_mtx s' = (if holds_tail p' then Some t else if holds_tail p then None else tail_mtx s)"
    and "head_mtx s' = (if holds_head p' then Some t else if holds_head p then None else head_mtx s)"
    and "holds_tail p' \<Longrightarrow> tail_mtx s \<in> {None, Some t}"
    and "holds_head p' \<Longrightarrow> head_mtx s \<in> {None, Some t}"
  shows "chain_ok s' ns \<and> memory_ok s' ns \<and> threads_ok s' ns"
proof -
  have same: "locals_ok s' ns = locals_ok s ns"
  proof
    fix x show "locals_ok s' ns x = locals_ok s ns x"
      using assms(7) by (cases x) simp_all
  qed
  have "chain_ok s' ns"
    using assms(1,7-9,12) linking_upd [OF assms(4,14,15)] by (simp add: chain_ok_def)
  moreover have "owned (((pcs s)(t := p')) u) = owned (pcs s u)" for u
    using assms(4-6) by simp
  then have "memory_ok s' ns"
    using assms(2,7,10-12) by (simp add: memory_ok_def del: fun_upd_apply)
  moreover have "finite {u. ((pcs s)(t := p')) u \<noteq> Out}"
  proof (rule finite_subset)
    show "{u. ((pcs s)(t := p')) u \<noteq> Out} \<subseteq> insert t {u. pcs s u \<noteq> Out}" by auto
    show "finite (insert t {u. pcs s u \<noteq> Out})" using assms(3) by (simp add: threads_ok_def)
  qed
  then have "threads_ok s' ns"
    unfolding threads_ok_def same
    using assms(3,4,12-13,16-) by (auto simp: threads_ok_def)
  ultimately show ?thesis by blast
qed


lemma hd_tl_in_set: "tl ns \<noteq> [] \<Longrightarrow> hd (tl ns) \<in> set ns"
  by (cases ns) auto

lemma memory_step:
  assumes mem: "memory_ok s ns" and pcs: "pcs s' = (pcs s)(t := p')" and "mallocs s' = []"
    and "\<forall>a\<in>dom (heap s'). a < next_addr s'"
    and dom: "dom (heap s') = set ns' \<union> owned p' \<union> (dom (heap s) - set ns - owned (pcs s t))"
    and apart: "owned p' \<inter> set ns' = {}" "(set ns' \<union> owned p') \<inter> (dom (heap s) - set ns - owned (pcs s t)) = {}"
  shows "memory_ok s' ns'"
  using assms(3,4) owns_step [where own = "\<lambda>u. owned (pcs s u)" and own' = "\<lambda>u. owned (pcs s' u)"
      and D = "dom (heap s)" and N = "set ns" and t = t and D' = "dom (heap s')" and N' = "set ns'"]
    mem dom apart
  by (simp add: memory_ok_def pcs)

lemma threads_step:
  assumes "threads_ok s ns" and "pcs s' = (pcs s)(t := p')" and "locals_ok s' ns' p'"
    and "\<And>u. u \<noteq> t \<Longrightarrow> locals_ok s ns (pcs s u) \<Longrightarrow> locals_ok s' ns' (pcs s u)"
    and "tail_mtx s' = tail_mtx s" "head_mtx s' = head_mtx s"
    and "holds_tail p' = holds_tail (pcs s t)" "holds_head p' = holds_head (pcs s t)"
  shows "threads_ok s' ns'"
proof -
  have "finite {u. pcs s' u \<noteq> Out}"
  proof (rule finite_subset)
    show "{u. pcs s' u \<noteq> Out} \<subseteq> insert t {u. pcs s u \<noteq> Out}" using assms(2) by auto
    show "finite (insert t {u. pcs s u \<noteq> Out})" using assms(1) by (simp add: threads_ok_def)
  qed
  then show ?thesis
    using assms by (auto simp: threads_ok_def)
qed

lemma holder_unique:
  "threads_ok s ns \<Longrightarrow> holds_tail (pcs s t) \<Longrightarrow> holds_tail (pcs s u) \<Longrightarrow> u = t"
  "threads_ok s ns \<Longrightarrow> holds_head (pcs s t) \<Longrightarrow> holds_head (pcs s u) \<Longrightarrow> u = t"
  by (auto simp: threads_ok_def)

section \<open>The steps that change the chain\<close>

lemma step_PushNew:
  assumes inv: "chain_ok s ns" "memory_ok s ns" "threads_ok s ns" and p: "pcs s t = PushNew v"
    and new: "node_new v s = (n, s1)"
  shows "\<exists>a. n = Some a \<and> items (heap s1) ns = items (heap s) ns \<and>
    chain_ok (goto t (PushLink v n) s1) ns \<and> memory_ok (goto t (PushLink v n) s1) ns \<and>
    threads_ok (goto t (PushLink v n) s1) ns"
proof -
  let ?a = "next_addr s" and ?s = "goto t (PushLink v n) s1"
  have s1: "n = Some ?a" "s1 = s\<lparr>next_addr := Suc ?a, heap := (heap s)(?a \<mapsto> \<lparr>nxt = None, item = v\<rparr>)\<rparr>"
    using new inv(2) by (auto simp: node_new_def malloc_def memory_ok_def)
  have low: "\<forall>b\<in>dom (heap s). b < ?a"
    using inv(2) by (simp add: memory_ok_def)
  then have fresh: "?a \<notin> dom (heap s)" by blast
  have "set ns \<subseteq> dom (heap s)" using chain_allocated [OF inv(2)] .
  then have a: "?a \<notin> set ns" using fresh by blast
  have others: "locals_ok ?s ns (pcs s u)" if "locals_ok s ns (pcs s u)" for u
    using that fresh a hd_tl_in_set [of ns] by (cases "pcs s u") (auto simp: s1 item_at_def)
  have "chain_ok ?s ns"
    using inv(1) a linking_upd [OF p] by (simp add: chain_ok_def s1 linked_other del: fun_upd_apply)
  moreover have "memory_ok ?s ns"
    by (rule memory_step [where s = s and ns = ns and t = t and p' = "PushLink v n"])
      (use inv(2) chain_allocated [OF inv(2)] low fresh a p in \<open>auto simp: s1 memory_ok_def less_Suc_eq\<close>)
  moreover have "threads_ok ?s ns"
    by (rule threads_step [where s = s and ns = ns and t = t and p' = "PushLink v n"])
      (use inv(3) others p in \<open>auto simp: s1\<close>)
  ultimately show ?thesis
    using a by (simp add: s1 items_other)
qed

lemma step_PushLink:
  assumes inv: "chain_ok s ns" "memory_ok s ns" "threads_ok s ns" and p: "pcs s t = PushLink v n"
  shows "\<exists>a b nd s'. n = Some a \<and> tail s = Some b \<and> heap s b = Some nd \<and>
    s' = goto t (PushTail n) (s\<lparr>heap := (heap s)(b \<mapsto> nd\<lparr>nxt := n\<rparr>)\<rparr>) \<and>
    chain_ok s' (ns @ [a]) \<and> memory_ok s' (ns @ [a]) \<and> threads_ok s' (ns @ [a]) \<and>
    items (heap s') (ns @ [a]) = items (heap s) ns @ [v]"
proof -
  obtain a where a: "n = Some a" "heap s a = Some \<lparr>nxt = None, item = v\<rparr>"
    using inv(3) p by (force simp: threads_ok_def dest: spec [where x = t])
  have "\<forall>u m. pcs s u \<noteq> PushTail m"
    using holder_unique(1) [OF inv(3), of t] p by (metis holds_tail.simps(2,3) pc.distinct(1) pc.simps)
  then have b: "tail s = Some (last ns)" using inv(1) by (simp add: chain_ok_def)
  have ns: "ns \<noteq> []" "linked (heap s) ns" "distinct ns" and hd: "head s = Some (hd ns)"
    using inv(1) linked_last by (auto simp: chain_ok_def)
  then obtain nd where nd: "heap s (last ns) = Some nd" "nxt nd = None" using linked_last by blast
  have own: "a \<in> owned (pcs s t)" using p a by simp
  then have a_ns: "a \<notin> set ns" using owned_apart [OF inv(2)] by blast
  then have a_last: "a \<noteq> last ns" using ns(1) by auto
  let ?s = "goto t (PushTail n) (s\<lparr>heap := (heap s)(last ns \<mapsto> nd\<lparr>nxt := n\<rparr>)\<rparr>)"
  have others: "locals_ok ?s (ns @ [a]) (pcs s u)" if "locals_ok s ns (pcs s u)" "u \<noteq> t" for u
  proof -
    have "\<not> holds_tail (pcs s u)" using holder_unique(1) [OF inv(3), of t u] p that(2) by auto
    moreover have "item_at ((heap s)(last ns \<mapsto> nd\<lparr>nxt := n\<rparr>)) = item_at (heap s)"
      using nd by (auto simp: item_at_def)
    ultimately show ?thesis
      using that(1) ns(1) by (cases "pcs s u") auto
  qed
  have "chain_ok ?s (ns @ [a])"
    using ns hd linked_append [OF ns(2) nd(1) ns(3) a_ns a(2)] a_ns by (auto simp: chain_ok_def a)
  moreover have "memory_ok ?s (ns @ [a])"
    by (rule memory_step [where s = s and ns = ns and t = t and p' = "PushTail n"])
      (use inv(2) chain_allocated [OF inv(2)] p a nd(1) ns(1) own a_ns in \<open>auto simp: memory_ok_def\<close>)
  moreover have "threads_ok ?s (ns @ [a])"
    by (rule threads_step [where s = s and ns = ns and t = t and p' = "PushTail n"])
      (use inv(3) others p a in auto)
  moreover have "items (heap ?s) (ns @ [a]) = items (heap s) ns @ [v]"
    using items_append [OF ns(1) nd(1) a_last a(2)] by simp
  ultimately show ?thesis
    using a b nd by blast
qed


lemma step_PushTail:
  assumes inv: "chain_ok s ns" "memory_ok s ns" "threads_ok s ns" and p: "pcs s t = PushTail n"
  shows "chain_ok (goto t PushUnlock (s\<lparr>tail := n\<rparr>)) ns \<and> memory_ok (goto t PushUnlock (s\<lparr>tail := n\<rparr>)) ns \<and>
    threads_ok (goto t PushUnlock (s\<lparr>tail := n\<rparr>)) ns"
proof -
  let ?s = "goto t PushUnlock (s\<lparr>tail := n\<rparr>)"
  have n: "n = Some (last ns)"
    using inv(3) p by (force simp: threads_ok_def dest: spec [where x = t])
  have same: "locals_ok ?s ns x = locals_ok s ns x" for x by (cases x) simp_all
  have "threads_ok ?s ns"
    by (rule threads_step [where s = s and ns = ns and t = t and p' = PushUnlock])
      (use inv(3) p in \<open>simp_all only: same, simp_all\<close>)
  moreover have "memory_ok ?s ns"
    by (rule memory_step [where s = s and ns = ns and t = t and p' = PushUnlock])
      (use inv(2) chain_allocated [OF inv(2)] p in \<open>auto simp: memory_ok_def\<close>)
  moreover have "chain_ok ?s ns"
    using inv(1) n by (simp add: chain_ok_def)
  ultimately show ?thesis by blast
qed

lemma step_PopMove:
  assumes inv: "chain_ok s ns" "memory_ok s ns" "threads_ok s ns" and p: "pcs s t = PopMove h n v"
  shows "\<exists>s'. s' = goto t (PopFree h v) (s\<lparr>head := n\<rparr>) \<and> chain_ok s' (tl ns) \<and> memory_ok s' (tl ns) \<and>
    threads_ok s' (tl ns) \<and> items (heap s) ns = v # items (heap s) (tl ns)"
proof -
  let ?s = "goto t (PopFree h v) (s\<lparr>head := n\<rparr>)"
  have loc: "h = Some (hd ns)" "tl ns \<noteq> []" "n = Some (hd (tl ns))" "v = item_at (heap s) (hd (tl ns))"
    using inv(3) p by (force simp: threads_ok_def dest: spec [where x = t])+
  obtain a ms where ns: "ns = a # ms" "ms \<noteq> []" using loc(2) by (cases ns) auto
  have others: "locals_ok ?s ms (pcs s u)" if "locals_ok s ns (pcs s u)" "u \<noteq> t" for u
  proof -
    have "\<not> holds_head (pcs s u)" using holder_unique(2) [OF inv(3), of t u] p that(2) by auto
    then show ?thesis using that(1) ns by (cases "pcs s u") auto
  qed
  have "threads_ok ?s ms"
    by (rule threads_step [where s = s and ns = ns and t = t and p' = "PopFree h v"])
      (use inv(3) p others loc in auto)
  moreover have "memory_ok ?s ms"
    by (rule memory_step [where s = s and ns = ns and t = t and p' = "PopFree h v"])
      (use inv(1,2) chain_allocated [OF inv(2)] p loc ns in \<open>auto simp: memory_ok_def chain_ok_def\<close>)
  moreover have "chain_ok ?s ms"
    using inv(1) loc ns linking_upd [OF p] linked_tl [of "heap s" ns]
    by (simp add: chain_ok_def del: fun_upd_apply)
  moreover have "items (heap s) ns = v # items (heap s) ms"
    using ns loc(4) by (cases ms) (simp_all add: items_def)
  ultimately show ?thesis using ns by auto
qed

lemma step_PopFree:
  assumes inv: "chain_ok s ns" "memory_ok s ns" "threads_ok s ns" and p: "pcs s t = PopFree h v"
  shows "\<exists>a nd s'. h = Some a \<and> heap s a = Some nd \<and>
    s' = goto t (PopUnlock v) (s\<lparr>heap := (heap s)(a := None)\<rparr>) \<and> chain_ok s' ns \<and> memory_ok s' ns \<and>
    threads_ok s' ns \<and> items (heap s') ns = items (heap s) ns"
proof -
  obtain a where a: "h = Some a"
    using inv(3) p by (force simp: threads_ok_def dest: spec [where x = t])
  then have own: "a \<in> owned (pcs s t)" using p by simp
  then have "a \<in> dom (heap s)" and a_ns: "a \<notin> set ns" using owned_apart [OF inv(2)] by blast+
  then obtain nd where nd: "heap s a = Some nd" by blast
  let ?s = "goto t (PopUnlock v) (s\<lparr>heap := (heap s)(a := None)\<rparr>)"
  have others: "locals_ok ?s ns (pcs s u)" if "locals_ok s ns (pcs s u)" "u \<noteq> t" for u
  proof -
    have "\<not> holds_head (pcs s u)" using holder_unique(2) [OF inv(3), of t u] p that(2) by auto
    moreover have "a \<notin> owned (pcs s u)" using owned_disjoint [OF inv(2) that(2) own] .
    ultimately show ?thesis using that(1) by (cases "pcs s u") auto
  qed
  have "threads_ok ?s ns"
    by (rule threads_step [where s = s and ns = ns and t = t and p' = "PopUnlock v"])
      (use inv(3) p others in auto)
  moreover have "memory_ok ?s ns"
    by (rule memory_step [where s = s and ns = ns and t = t and p' = "PopUnlock v"])
      (use inv(2) chain_allocated [OF inv(2)] p a a_ns in \<open>auto simp: memory_ok_def\<close>)
  moreover have "chain_ok ?s ns"
    using inv(1) a_ns linking_upd [OF p] by (simp add: chain_ok_def linked_other del: fun_upd_apply)
  ultimately show ?thesis
    using a nd a_ns items_other [of a ns "heap s" None] by auto
qed


section \<open>The simulation\<close>

definition inv :: "queue \<Rightarrow> addr list \<Rightarrow> bool" where
  "inv s ns \<longleftrightarrow> chain_ok s ns \<and> memory_ok s ns \<and> threads_ok s ns"

lemma queue_rel_iff:
  "queue_rel s (q, ph) \<longleftrightarrow> (\<exists>ns. inv s ns \<and> q = items (heap s) ns \<and> ph = phase_of \<circ> pcs s)"
  by (auto simp: queue_rel_def inv_def)

definition simulated :: "queue \<Rightarrow> addr list \<Rightarrow> (queue_op, queue_res) label \<Rightarrow> queue \<Rightarrow> bool" where
  "simulated s ns l s' \<longleftrightarrow>
     (let a = (items (heap s) ns, phase_of \<circ> pcs s)
      in \<exists>a'. (atomic_step queue_spec a l a' \<or> l = Internal \<and> a' = a) \<and> queue_rel s' a')"

lemma simulated_silent:
  assumes "inv s' ns'" "pcs s' = (pcs s)(t := p')" "items (heap s') ns' = items (heap s) ns"
    and "phase_of p' = phase_of (pcs s t)"
  shows "simulated s ns Internal s'"
proof -
  have "phase_of \<circ> pcs s' = phase_of \<circ> pcs s" by (rule ext) (simp add: assms(2,4))
  then have "queue_rel s' (items (heap s) ns, phase_of \<circ> pcs s)"
    unfolding queue_rel_iff using assms(1,3) by (intro exI [of _ ns']) simp
  then show ?thesis unfolding simulated_def Let_def by blast
qed

lemma simulated_perform:
  assumes "inv s' ns'" "pcs s' = (pcs s)(t := p')" "phase_of (pcs s t) = Pending c" "phase_of p' = Done r"
    and "queue_spec c (items (heap s) ns) = (r, items (heap s') ns')"
  shows "simulated s ns Internal s'"
proof -
  have "atomic_step queue_spec (items (heap s) ns, phase_of \<circ> pcs s) Internal
      (items (heap s') ns', (phase_of \<circ> pcs s)(t := Done r))"
    using assms(3,5) by (intro atomic_step.perform) simp_all
  moreover have "phase_of \<circ> pcs s' = (phase_of \<circ> pcs s)(t := Done r)"
    using assms(2,4) by auto
  then have "queue_rel s' (items (heap s') ns', (phase_of \<circ> pcs s)(t := Done r))"
    unfolding queue_rel_iff using assms(1) by (intro exI [of _ ns']) simp
  ultimately show ?thesis unfolding simulated_def Let_def by blast
qed

lemma simulated_return:
  assumes "inv s' ns" "pcs s' = (pcs s)(t := Out)" "phase_of (pcs s t) = Done r"
    and "heap s' = heap s"
  shows "simulated s ns (Return t r) s'"
proof -
  have "atomic_step queue_spec (items (heap s) ns, phase_of \<circ> pcs s) (Return t r)
      (items (heap s) ns, (phase_of \<circ> pcs s)(t := Idle))"
    using assms(3) by (intro atomic_step.return) simp
  moreover have "phase_of \<circ> pcs s' = (phase_of \<circ> pcs s)(t := Idle)"
    using assms(2) by auto
  then have "queue_rel s' (items (heap s) ns, (phase_of \<circ> pcs s)(t := Idle))"
    unfolding queue_rel_iff using assms(1,4) by (intro exI [of _ ns]) simp
  ultimately show ?thesis unfolding simulated_def Let_def by blast
qed

lemma quiet_inv:
  assumes "inv s ns" and "pcs s t = p" and "owned p = {}" and "owned p' = {}"
    and "s' = goto t p' (s\<lparr>tail_mtx := tm, head_mtx := hm\<rparr>)"
    and "locals_ok s ns p'" "\<And>n. p \<noteq> PushTail n" "\<And>n. p' \<noteq> PushTail n"
    and "tm = (if holds_tail p' then Some t else if holds_tail p then None else tail_mtx s)"
    and "hm = (if holds_head p' then Some t else if holds_head p then None else head_mtx s)"
    and "holds_tail p' \<Longrightarrow> tail_mtx s \<in> {None, Some t}"
    and "holds_head p' \<Longrightarrow> head_mtx s \<in> {None, Some t}"
  shows "inv s' ns"
  unfolding inv_def
proof (rule quiet_step [where s = s and p = p and p' = p' and t = t])
  show "chain_ok s ns" "memory_ok s ns" "threads_ok s ns" using assms(1) by (simp_all add: inv_def)
  show "tail_mtx s' = (if holds_tail p' then Some t else if holds_tail p then None else tail_mtx s)"
    "head_mtx s' = (if holds_head p' then Some t else if holds_head p then None else head_mtx s)"
    using assms(5,9,10) by simp_all
  show "heap s' = heap s" "head s' = head s" "tail s' = tail s" "next_addr s' = next_addr s"
    "mallocs s' = mallocs s" "pcs s' = (pcs s)(t := p')"
    by (simp_all add: assms(5))
qed (fact assms)+

lemma lock_owner:
  assumes "inv s ns"
  shows "holds_tail (pcs s t) \<Longrightarrow> tail_mtx s = Some t" "holds_head (pcs s t) \<Longrightarrow> head_mtx s = Some t"
    "\<not> holds_tail (pcs s t) \<Longrightarrow> tail_mtx s \<noteq> Some t" "\<not> holds_head (pcs s t) \<Longrightarrow> head_mtx s \<noteq> Some t"
  using assms by (simp_all add: inv_def threads_ok_def)

lemma head_node:
  assumes "inv s ns"
  shows "\<exists>nd. deref (head s) s = Some nd \<and> nxt nd = (case tl ns of [] \<Rightarrow> None | b # _ \<Rightarrow> Some b)"
proof -
  have "linked (heap s) ns" and hd: "head s = Some (hd ns)" using assms by (auto simp: inv_def chain_ok_def)
  moreover from this obtain nd where "heap s (hd ns) = Some nd"
    using linked_heap linked_last by (metis list.set_sel(1))
  ultimately show ?thesis
    using linked_next by (auto simp: deref_def)
qed

lemma locals:
  "inv s ns \<Longrightarrow> locals_ok s ns (pcs s t)"
  by (simp add: inv_def threads_ok_def)

lemma tl_in_heap: "inv s ns \<Longrightarrow> tl ns \<noteq> [] \<Longrightarrow> \<exists>nd. heap s (hd (tl ns)) = Some nd"
  using linked_heap [of "heap s" ns "hd (tl ns)"] hd_tl_in_set [of ns] by (simp add: inv_def chain_ok_def)

lemma push_sim:
  assumes inv: "inv s ns" and "in_push (pcs s t)"
  shows "SimpleQueue_push t (pcs s t) s \<noteq> Undefined \<and>
    (\<forall>l s'. SimpleQueue_push t (pcs s t) s = Move l s' \<longrightarrow> simulated s ns l s')"
  using assms(2)
proof (cases "pcs s t")
  case p: (PushLock v)
  have "inv (goto t (PushNew v) (s\<lparr>tail_mtx := Some t\<rparr>)) ns" if "tail_mtx s = None"
    by (rule quiet_inv [OF inv p, where p' = "PushNew v" and tm = "Some t" and hm = "head_mtx s"]) (simp_all add: that)
  then show ?thesis
    using p by (auto simp: SimpleQueue_push_def intro: simulated_silent)
next
  case p: (PushNew v)
  obtain n s1 where new: "node_new v s = (n, s1)" by fastforce
  have "simulated s ns Internal (goto t (PushLink v n) s1)"
    using step_PushNew [OF _ _ _ p new] inv p new
    by (intro simulated_silent [where ns' = ns and p' = "PushLink v n"])
      (auto simp: inv_def node_new_def malloc_def split: list.splits if_splits)
  then show ?thesis using p new by (simp add: SimpleQueue_push_def)
next
  case p: (PushLink v n)
  obtain a b nd s' where st: "n = Some a" "tail s = Some b" "heap s b = Some nd"
    "s' = goto t (PushTail n) (s\<lparr>heap := (heap s)(b \<mapsto> nd\<lparr>nxt := n\<rparr>)\<rparr>)"
    "inv s' (ns @ [a])" "items (heap s') (ns @ [a]) = items (heap s) ns @ [v]"
    using step_PushLink [OF _ _ _ p] inv unfolding inv_def by blast
  have "simulated s ns Internal s'"
    by (rule simulated_perform [OF st(5), where t = t and p' = "PushTail n" and c = "Push v" and r = Unit])
      (use st(6) in \<open>simp_all add: st(1,4) p\<close>)
  then show ?thesis using p st by (simp add: SimpleQueue_push_def)
next
  case p: (PushTail n)
  have "inv (goto t PushUnlock (s\<lparr>tail := n\<rparr>)) ns"
    using step_PushTail [OF _ _ _ p] inv by (simp add: inv_def)
  then show ?thesis using p by (auto simp: SimpleQueue_push_def intro: simulated_silent)
next
  case p: PushUnlock
  have "inv (goto t Out (s\<lparr>tail_mtx := None\<rparr>)) ns"
    by (rule quiet_inv [OF inv p, where p' = Out and tm = None and hm = "head_mtx s"]) simp_all
  then show ?thesis using p by (auto simp: SimpleQueue_push_def intro: simulated_return)
qed simp_all


lemma is_empty_sim:
  assumes inv: "inv s ns" and "in_is_empty (pcs s t)"
  shows "SimpleQueue_is_empty t (pcs s t) s \<noteq> Undefined \<and>
    (\<forall>l s'. SimpleQueue_is_empty t (pcs s t) s = Move l s' \<longrightarrow> simulated s ns l s')"
  using assms(2)
proof (cases "pcs s t")
  case p: EmptyLock
  have "inv (goto t EmptyLoad (s\<lparr>head_mtx := Some t\<rparr>)) ns" if "head_mtx s = None"
    by (rule quiet_inv [OF inv p, where p' = EmptyLoad and tm = "tail_mtx s" and hm = "Some t"])
      (simp_all add: that)
  then show ?thesis
    using p by (auto simp: SimpleQueue_is_empty_def intro: simulated_silent)
next
  case p: EmptyLoad
  obtain nd where nd: "deref (head s) s = Some nd" "nxt nd = (case tl ns of [] \<Rightarrow> None | b # _ \<Rightarrow> Some b)"
    using head_node [OF inv] by blast
  then have b: "nxt nd = None \<longleftrightarrow> items (heap s) ns = []"
    by (cases "tl ns") (simp_all add: items_def)
  have "head_mtx s = Some t" using lock_owner(2) [OF inv, of t] p by simp
  then have "inv (goto t (EmptyUnlock (nxt nd = None)) s) ns"
    by (intro quiet_inv [OF inv p, where p' = "EmptyUnlock (nxt nd = None)" and tm = "tail_mtx s" and hm = "head_mtx s"])
      simp_all
  then have "simulated s ns Internal (goto t (EmptyUnlock (nxt nd = None)) s)"
    by (rule simulated_perform [where t = t and p' = "EmptyUnlock (nxt nd = None)" and c = IsEmpty
          and r = "Answer (nxt nd = None)"]) (simp_all add: p b)
  then show ?thesis
    using p nd by (simp add: SimpleQueue_is_empty_def)
next
  case p: (EmptyUnlock b)
  have "inv (goto t Out (s\<lparr>head_mtx := None\<rparr>)) ns"
    by (rule quiet_inv [OF inv p, where p' = Out and hm = None and tm = "tail_mtx s"]) simp_all
  then show ?thesis using p by (auto simp: SimpleQueue_is_empty_def intro: simulated_return)
qed simp_all

lemma pop_sim:
  assumes inv: "inv s ns" and "\<not> in_push (pcs s t)" "\<not> in_is_empty (pcs s t)" "pcs s t \<noteq> Out"
  shows "SimpleQueue_pop t (pcs s t) s \<noteq> Undefined \<and>
    (\<forall>l s'. SimpleQueue_pop t (pcs s t) s = Move l s' \<longrightarrow> simulated s ns l s')"
  using assms(2-)
proof (cases "pcs s t")
  case p: PopLock
  have "inv (goto t PopHead (s\<lparr>head_mtx := Some t\<rparr>)) ns" if "head_mtx s = None"
    by (rule quiet_inv [OF inv p, where p' = PopHead and tm = "tail_mtx s" and hm = "Some t"])
      (simp_all add: that)
  then show ?thesis
    using p by (auto simp: SimpleQueue_pop_def intro: simulated_silent)
next
  case p: PopHead
  have "head_mtx s = Some t" using lock_owner(2) [OF inv, of t] p by simp
  moreover have "head s = Some (hd ns)" using inv by (simp add: inv_def chain_ok_def)
  ultimately have "inv (goto t (PopNext (head s)) s) ns"
    by (intro quiet_inv [OF inv p, where p' = "PopNext (head s)" and tm = "tail_mtx s" and hm = "head_mtx s"])
      simp_all
  then show ?thesis
    using p by (auto simp: SimpleQueue_pop_def intro: simulated_silent)
next
  case p: (PopNext h)
  obtain nd where nd: "deref (head s) s = Some nd" "nxt nd = (case tl ns of [] \<Rightarrow> None | b # _ \<Rightarrow> Some b)"
    using head_node [OF inv] by blast
  have h: "h = Some (hd ns)" using locals [OF inv, of t] p by simp
  have "head_mtx s = Some t" using lock_owner(2) [OF inv, of t] p by simp
  then have inv': "inv (goto t (PopTest h (nxt nd)) s) ns"
    by (intro quiet_inv [OF inv p, where p' = "PopTest h (nxt nd)" and tm = "tail_mtx s" and hm = "head_mtx s"])
      (use nd(2) h in \<open>auto split: list.splits\<close>)
  have "simulated s ns Internal (goto t (PopTest h (nxt nd)) s)"
  proof (cases "tl ns")
    case Nil
    then show ?thesis
      using nd p by (intro simulated_perform [OF inv', where t = t and p' = "PopTest h None" and c = Pop])
        (simp_all add: items_def)
  next
    case (Cons b ms)
    then show ?thesis
      using nd p by (intro simulated_silent [OF inv', where t = t and p' = "PopTest h (nxt nd)"]) simp_all
  qed
  then show ?thesis
    using p nd by (simp add: SimpleQueue_pop_def)
next
  case p: (PopTest h n)
  show ?thesis
  proof (cases n)
    case None
    have "inv (goto t Out (s\<lparr>head_mtx := None\<rparr>)) ns"
      by (rule quiet_inv [OF inv p, where p' = Out and hm = None and tm = "tail_mtx s"]) simp_all
    then show ?thesis using p None by (auto simp: SimpleQueue_pop_def intro: simulated_return)
  next
    case (Some a)
    have loc: "h = Some (hd ns)" "tl ns \<noteq> []" "a = hd (tl ns)" using locals [OF inv, of t] p Some by simp_all
    obtain nd where nd: "heap s a = Some nd" using tl_in_heap [OF inv loc(2)] loc(3) by blast
    have "head_mtx s = Some t" using lock_owner(2) [OF inv, of t] p by simp
    then have "inv (goto t (PopMove h n (item nd)) s) ns"
      by (intro quiet_inv [OF inv p, where p' = "PopMove h n (item nd)" and tm = "tail_mtx s" and hm = "head_mtx s"])
        (use loc Some nd in \<open>simp_all add: item_at_def\<close>)
    then have "simulated s ns Internal (goto t (PopMove h n (item nd)) s)"
      by (rule simulated_silent [where t = t and p' = "PopMove h n (item nd)"]) (simp_all add: p Some)
    then show ?thesis using p Some nd by (simp add: SimpleQueue_pop_def)
  qed
next
  case p: (PopMove h n v)
  obtain s' where st: "s' = goto t (PopFree h v) (s\<lparr>head := n\<rparr>)" "inv s' (tl ns)"
    "items (heap s) ns = v # items (heap s) (tl ns)"
    using step_PopMove [OF _ _ _ p] inv unfolding inv_def by blast
  have "simulated s ns Internal s'"
    by (rule simulated_perform [OF st(2), where t = t and p' = "PopFree h v" and c = Pop and r = "Value v"])
      (simp_all add: st(1,3) p)
  then show ?thesis using p st by (simp add: SimpleQueue_pop_def)
next
  case p: (PopFree h v)
  obtain a nd s' where st: "h = Some a" "heap s a = Some nd"
    "s' = goto t (PopUnlock v) (s\<lparr>heap := (heap s)(a := None)\<rparr>)" "inv s' ns" "items (heap s') ns = items (heap s) ns"
    using step_PopFree [OF _ _ _ p] inv unfolding inv_def by blast
  have "simulated s ns Internal s'"
    by (rule simulated_silent [OF st(4) _ st(5), where t = t and p' = "PopUnlock v"]) (simp_all add: st(3) p)
  then show ?thesis using p st by (simp add: SimpleQueue_pop_def)
next
  case p: (PopUnlock v)
  have "inv (goto t Out (s\<lparr>head_mtx := None\<rparr>)) ns"
    by (rule quiet_inv [OF inv p, where p' = Out and hm = None and tm = "tail_mtx s"]) simp_all
  then show ?thesis using p by (auto simp: SimpleQueue_pop_def intro: simulated_return)
qed simp_all


lemma start_rel:
  assumes "queue_rel s a" and "start t c s = Some s'"
  shows "\<exists>a'. atomic_step queue_spec a (Call t c) a' \<and> queue_rel s' a'"
proof -
  let ?p = "case c of Push v \<Rightarrow> PushLock v | Pop \<Rightarrow> PopLock | IsEmpty \<Rightarrow> EmptyLock"
  obtain q ph where a: "a = (q, ph)" by (cases a)
  then obtain ns where ns: "inv s ns" "q = items (heap s) ns" "ph = phase_of \<circ> pcs s"
    using assms(1) queue_rel_iff by blast
  from assms(2) have out: "pcs s t = Out" and s': "s' = goto t ?p s"
    by (auto simp: start_def split: if_splits)
  have "inv s' ns"
    by (rule quiet_inv [OF ns(1) out, where p' = ?p and tm = "tail_mtx s" and hm = "head_mtx s"])
      (simp_all add: s' split: queue_op.splits)
  moreover have "phase_of \<circ> pcs s' = ph(t := Pending c)"
    by (auto simp: s' ns(3) split: queue_op.splits)
  ultimately have "queue_rel s' (q, ph(t := Pending c))"
    unfolding queue_rel_iff using ns(2) by (intro exI [of _ ns]) (simp add: s')
  moreover have "atomic_step queue_spec a (Call t c) (q, ph(t := Pending c))"
    unfolding a by (rule atomic_step.call) (simp add: ns(3) out)
  ultimately show ?thesis by blast
qed

lemma step_sim_inv:
  assumes "inv s ns"
  shows "step t s \<noteq> Undefined \<and> (\<forall>l s'. step t s = Move l s' \<longrightarrow> simulated s ns l s')"
  using push_sim [OF assms] is_empty_sim [OF assms] pop_sim [OF assms] by (auto simp: step_def)

lemma step_rel:
  assumes "queue_rel s a"
  shows "step t s \<noteq> Undefined"
    and "step t s = Move l s' \<Longrightarrow> \<exists>a'. (atomic_step queue_spec a l a' \<or> l = Internal \<and> a' = a) \<and> queue_rel s' a'"
proof -
  obtain q ph where a: "a = (q, ph)" by (cases a)
  then obtain ns where ns: "inv s ns" "q = items (heap s) ns" "ph = phase_of \<circ> pcs s"
    using assms queue_rel_iff by blast
  from step_sim_inv [OF ns(1)] show "step t s \<noteq> Undefined" by blast
  assume "step t s = Move l s'"
  with step_sim_inv [OF ns(1), of t] have "simulated s ns l s'" by blast
  then show "\<exists>a'. (atomic_step queue_spec a l a' \<or> l = Internal \<and> a' = a) \<and> queue_rel s' a'"
    unfolding simulated_def Let_def a ns .
qed

section \<open>Every call returns\<close>

fun steps_left :: "pc \<Rightarrow> nat" where
  "steps_left Out = 0"
| "steps_left (PushLock v) = 5"
| "steps_left (PushNew v) = 4"
| "steps_left (PushLink v n) = 3"
| "steps_left (PushTail n) = 2"
| "steps_left PushUnlock = 1"
| "steps_left PopLock = 7"
| "steps_left PopHead = 6"
| "steps_left (PopNext h) = 5"
| "steps_left (PopTest h n) = 4"
| "steps_left (PopMove h n v) = 3"
| "steps_left (PopFree h v) = 2"
| "steps_left (PopUnlock v) = 1"
| "steps_left EmptyLock = 3"
| "steps_left EmptyLoad = 2"
| "steps_left (EmptyUnlock b) = 1"

definition all_out :: "queue \<Rightarrow> bool" where
  "all_out s \<longleftrightarrow> (\<forall>t. pcs s t = Out)"

lemma node_new_pcs: "node_new v s = (n, s') \<Longrightarrow> pcs s' = pcs s"
  by (auto simp: node_new_def malloc_def split: list.splits if_splits)

lemmas step_defs = step_def SimpleQueue_push_def SimpleQueue_pop_def SimpleQueue_is_empty_def

lemma step_pc:
  "step t s = Move l s' \<Longrightarrow> \<exists>p. pcs s' = (pcs s)(t := p) \<and> steps_left p < steps_left (pcs s t)"
  by (cases "pcs s t")
    (auto simp: step_defs node_new_pcs split: if_splits option.splits prod.splits)

lemma not_blocked: "holds_tail (pcs s t) \<or> holds_head (pcs s t) \<Longrightarrow> step t s \<noteq> Blocked"
  by (cases "pcs s t") (auto simp: step_defs split: option.splits prod.splits)

lemma lock_free: "tail_mtx s = None \<Longrightarrow> head_mtx s = None \<Longrightarrow> pcs s t \<noteq> Out \<Longrightarrow> step t s \<noteq> Blocked"
  by (cases "pcs s t") (auto simp: step_defs split: option.splits prod.splits)

lemma rank_step:
  assumes "queue_rel s a" and "step t s = Move l s'"
  shows "total steps_left (pcs s') < total steps_left (pcs s)"
proof -
  obtain p where p: "pcs s' = (pcs s)(t := p)" "steps_left p < steps_left (pcs s t)"
    using step_pc [OF assms(2)] by blast
  have "finite {t. pcs s t \<noteq> Out}"
    using assms(1) by (auto simp: queue_rel_def threads_ok_def)
  then have "finite {t. steps_left (pcs s t) \<noteq> 0}"
    by (rule rev_finite_subset) auto
  from total_update [where a = t and x = p, OF this] p show ?thesis by simp
qed

lemma some_step:
  assumes rel: "queue_rel s a" and "\<not> all_out s"
  shows "\<exists>t l s'. step t s = Move l s'"
proof -
  obtain ns where th: "threads_ok s ns" using rel by (auto simp: queue_rel_def)
  obtain u where u: "pcs s u \<noteq> Out" using assms(2) by (auto simp: all_out_def)
  have "\<exists>t. step t s \<noteq> Blocked"
  proof (cases "tail_mtx s = None \<and> head_mtx s = None")
    case True
    then show ?thesis using lock_free u by blast
  next
    case False
    then obtain t where "tail_mtx s = Some t \<or> head_mtx s = Some t" by auto
    then have "holds_tail (pcs s t) \<or> holds_head (pcs s t)" using th by (simp add: threads_ok_def)
    then show ?thesis using not_blocked by blast
  qed
  then show ?thesis using step_rel(1) [OF rel] by (metis move.exhaust)
qed

interpretation simple_queue: atomic_object start step queue_spec queue_rel
proof unfold_locales
  show "\<exists>a'. atomic_step queue_spec a (Call t c) a' \<and> queue_rel s' a'"
    if "queue_rel s a" "start t c s = Some s'" for s a t c s'
    using start_rel [OF that] .
  show "\<exists>a'. (atomic_step queue_spec a l a' \<or> l = Internal \<and> a' = a) \<and> queue_rel s' a'"
    if "queue_rel s a" "step t s = Move l s'" for s a t l s'
    using step_rel(2) [OF that] .
qed (fact step_rel(1))

text \<open>The same for allocations that may fail, as long as none does.\<close>

definition clear :: "queue \<Rightarrow> queue" where
  "clear s = s\<lparr>mallocs := []\<rparr>"

lemma clear_fields [simp]:
  "pcs (clear s) = pcs s" "heap (clear s) = heap s" "head (clear s) = head s" "tail (clear s) = tail s"
  "next_addr (clear s) = next_addr s" "head_mtx (clear s) = head_mtx s" "tail_mtx (clear s) = tail_mtx s"
  by (simp_all add: clear_def)

lemma node_new_clear:
  assumes "node_new v s = (n, s')"
  shows "\<exists>used. mallocs s = used @ mallocs s' \<and> (False \<notin> set used \<longrightarrow> node_new v (clear s) = (n, clear s'))"
proof (cases "mallocs s")
  case Nil
  with assms show ?thesis by (intro exI [of _ "[]"]) (auto simp: node_new_def malloc_def clear_def)
next
  case (Cons b bs)
  with assms show ?thesis
    by (intro exI [of _ "[b]"]) (auto simp: node_new_def malloc_def clear_def split: if_splits)
qed

lemma no_allocation:
  assumes "step t s = Move l s'" and "\<nexists>v. pcs s t = PushNew v"
  shows "mallocs s' = mallocs s \<and> step t (clear s) = Move l (clear s')"
  using assms
  by (cases "pcs s t") (auto simp: step_defs clear_def deref_def split: if_splits option.splits)

interpretation simple_allocating: allocating start step clear
proof unfold_locales
  show "mallocs s' = mallocs s \<and> start t c (clear s) = Some (clear s')" if "start t c s = Some s'" for s t c s'
    using that by (auto simp: start_def clear_def split: if_splits)
  show "\<exists>used. mallocs s = used @ mallocs s' \<and> (False \<notin> set used \<longrightarrow> step t (clear s) = Move l (clear s'))"
    if st: "step t s = Move l s'" for s t l s'
  proof (cases "\<exists>v. pcs s t = PushNew v")
    case True
    then obtain v where v: "pcs s t = PushNew v" by blast
    obtain n s1 where n: "node_new v s = (n, s1)" by fastforce
    with v st have "l = Internal" "s' = goto t (PushLink v n) s1" by (simp_all add: step_defs)
    moreover have "clear (goto t (PushLink v n) s1) = goto t (PushLink v n) (clear s1)" by (simp add: clear_def)
    ultimately show ?thesis using node_new_clear [OF n] v by (auto simp: step_defs)
  next
    case False
    with no_allocation [OF st] show ?thesis by (intro exI [of _ "[]"]) simp
  qed
  show "step t (clear s) = Undefined" if "step t s = Undefined" for s t
    using that by (cases "pcs s t") (auto simp: step_defs deref_def split: if_splits option.splits prod.splits)
  show "step t (clear s) = Blocked" if "step t s = Blocked" for s t
    using that by (cases "pcs s t") (auto simp: step_defs deref_def split: if_splits option.splits prod.splits)
qed

definition queue_ok :: "queue \<Rightarrow> bool" where
  "queue_ok s \<longleftrightarrow> False \<notin> set (mallocs s) \<and> (\<exists>a. queue_rel (clear s) a)"

interpretation simple_queue_progress:
  progress start step queue_ok "\<lambda>s. total steps_left (pcs s)" all_out
proof unfold_locales
  show "queue_ok s'" if "queue_ok s" "start t c s = Some s'" for s t c s'
    using that simple_allocating.start_clear [OF that(2)] simple_queue.safe.start_inv [of "clear s" t c "clear s'"]
    by (simp add: queue_ok_def)
  show "queue_ok s'" if "queue_ok s" "step t s = Move l s'" for s t l s'
    using that simple_allocating.step_clear [OF that(2)] simple_queue.safe.step_inv [of "clear s" t l "clear s'"]
    by (auto simp: queue_ok_def)
  show "step t s \<noteq> Undefined" if ok: "queue_ok s" for s t
  proof -
    obtain a where "queue_rel (clear s) a" using ok by (auto simp: queue_ok_def)
    from step_rel(1) [OF this] show ?thesis using simple_allocating.step_undefined by blast
  qed
  show "total steps_left (pcs s') < total steps_left (pcs s)" if "queue_ok s" "step t s = Move l s'" for s t l s'
    using that simple_allocating.step_clear [OF that(2)] rank_step [of "clear s" _ t l "clear s'"]
    by (auto simp: queue_ok_def)
  show "\<exists>t l s'. step t s = Move l s'" if ok: "queue_ok s" and out: "\<not> all_out s" for s
  proof -
    obtain a where a: "queue_rel (clear s) a" using ok by (auto simp: queue_ok_def)
    moreover have "\<not> all_out (clear s)" using out by (simp add: all_out_def)
    ultimately obtain t l s' where t: "step t (clear s) = Move l s'" using some_step by blast
    then have "step t s \<noteq> Undefined" "step t s \<noteq> Blocked"
      using simple_allocating.step_undefined simple_allocating.step_blocked by fastforce+
    then show ?thesis by (metis move.exhaust)
  qed
qed

section \<open>The properties\<close>

abbreviation simple_machine :: "queue \<Rightarrow> (queue_op, queue_res) label \<Rightarrow> queue \<Rightarrow> bool" where
  "simple_machine \<equiv> machine start step"

definition first_state :: queue where
  "first_state = the (SimpleQueue_new [])"

lemma first_state_eq:
  "first_state = (fresh_queue [])\<lparr>next_addr := 2, heap := [1 \<mapsto> \<lparr>nxt = None, item = EMPTY_VALUE\<rparr>],
     head := Some 1, tail := Some 1\<rparr>"
  by (simp add: first_state_def SimpleQueue_new_def node_new_def malloc_def fresh_queue_def)

lemma first_rel: "queue_rel first_state ([], \<lambda>_. Idle)"
proof -
  have "inv first_state [1]"
    by (auto simp: inv_def inv_defs first_state_eq fresh_queue_def)
  moreover have "phase_of \<circ> pcs first_state = (\<lambda>_. Idle)"
    by (rule ext) (simp add: first_state_eq fresh_queue_def)
  ultimately show ?thesis
    unfolding queue_rel_iff by (intro exI [of _ "[1]"]) (simp add: items_def)
qed

lemma new_cleared:
  assumes "SimpleQueue_new ms = Some s0"
  shows "clear s0 = first_state"
  using assms
  by (auto simp: SimpleQueue_new_def first_state_eq node_new_def malloc_def fresh_queue_def clear_def
      split: list.splits if_splits)

lemma unfailed_rel:
  assumes "SimpleQueue_new ms = Some s0" and "s \<in> reachable simple_machine s0" and "none_failed s0 s"
  shows "\<exists>a. queue_rel (clear s) a"
proof -
  have "clear s \<in> reachable simple_machine first_state"
    using simple_allocating.unfailed_reachable [OF assms(2,3)] new_cleared [OF assms(1)] by simp
  from simple_queue.safe.reached_inv [OF _ this] first_rel show ?thesis by blast
qed

text \<open>C: The queue with two locks is linearizable as long as no allocation of a push has failed: from every
  new queue and with any outcomes of malloc, whatever any number of threads do, the history of calls and
  returns up to the first failure is one of an atomic queue that performs every operation in one step
  between its call and its return. (A push whose allocation fails returns although its value is lost.)\<close>

theorem simple_queue_linearizable:
  assumes "SimpleQueue_new ms = Some s0" and "execution simple_machine s0 ls s" and "none_failed s0 s"
  shows "ls \<in> histories (atomic_step queue_spec) ([], \<lambda>_. Idle)"
proof -
  have "execution simple_machine first_state ls (clear s)"
    using simple_allocating.unfailed_execution [OF assms(2,3)] new_cleared [OF assms(1)] by simp
  then show ?thesis using simple_queue.linearizable [OF first_rel] unfolding histories_def by blast
qed

text \<open>C: Every call of the queue returns when no allocation fails: from each state that is reached without a
  failed allocation, and when those to come do not fail either, the threads can make only as many
  steps as the calls in progress have left, and there is a run in which they all return; no thread is
  ever stuck behind a lock.\<close>

theorem simple_queue_calls_return:
  assumes "SimpleQueue_new ms = Some s0" and "s \<in> reachable simple_machine s0" and "none_failed s0 s"
    and "False \<notin> set (mallocs s)"
  shows "(\<forall>n s'. (moves step ^^ n) s s' \<longrightarrow> n \<le> total steps_left (pcs s)) \<and>
    (\<forall>s'. (moves step)\<^sup>*\<^sup>* s s' \<longrightarrow> (\<nexists>s''. moves step s' s'') \<longrightarrow> all_out s') \<and>
    (\<exists>s'. (moves step)\<^sup>*\<^sup>* s s' \<and> all_out s')"
  using simple_queue_progress.calls_return unfailed_rel [OF assms(1-3)] assms(4) unfolding queue_ok_def by blast

lemma free_nodes_chain:
  "linked (heap s) ns \<Longrightarrow> distinct ns \<Longrightarrow> length ns \<le> n \<Longrightarrow>
     \<exists>s'. free_nodes n (Some (hd ns)) s = Some s' \<and> heap s' = (heap s) |` (- set ns)"
proof (induction ns arbitrary: n s)
  case (Cons a ns)
  then obtain m nd where n: "n = Suc m" and nd: "heap s a = Some nd"
    using linked_heap by (cases n) (fastforce, fastforce)
  let ?s = "s\<lparr>heap := (heap s)(a := None)\<rparr>"
  show ?case
  proof (cases ns)
    case Nil
    with Cons.prems nd have "nxt nd = None" by simp
    then have "free_nodes n (Some a) s = Some ?s" using n nd by (cases m) simp_all
    with Nil show ?thesis by (auto simp: restrict_map_def)
  next
    case (Cons b ms)
    with Cons.prems nd have nxt: "nxt nd = Some b" and lk: "linked (heap s) ns" by simp_all
    have "\<exists>s'. free_nodes m (Some (hd ns)) ?s = Some s' \<and> heap s' = heap ?s |` (- set ns)"
      using Cons.IH [of ?s m] Cons.prems n lk by (simp add: linked_other del: fun_upd_apply)
    with Cons nxt nd n Cons.prems(2) show ?thesis by (auto simp: restrict_map_def fun_eq_iff)
  qed
qed simp

text \<open>C: As long as no allocation of a push has failed, no step of any thread dereferences a null or freed
  pointer or frees a node twice, and deleting the queue when no call is in progress frees every node that is
  still allocated. (After a failed one the next push dereferences a null pointer, lemma
  \<open>failed_push_breaks_queue\<close>.)\<close>

theorem simple_queue_memory_safe:
  assumes "SimpleQueue_new ms = Some s0" and "s \<in> reachable simple_machine s0" and "none_failed s0 s"
  shows "step t s \<noteq> Undefined \<and>
    (all_out s \<longrightarrow> (\<exists>s'. SimpleQueue_delete s = Some s' \<and> heap s' = Map.empty))"
proof -
  obtain q ph where rel: "queue_rel (clear s) (q, ph)" using unfailed_rel [OF assms] by fast
  then obtain ns where ns: "inv (clear s) ns" using queue_rel_iff by blast
  have "\<exists>s'. SimpleQueue_delete s = Some s' \<and> heap s' = Map.empty" if "all_out s"
  proof -
    have dom: "dom (heap s) = set ns" and low: "\<forall>a\<in>set ns. a < next_addr s"
      using ns that by (auto simp: inv_def memory_ok_def all_out_def)
    have lk: "linked (heap s) ns" "distinct ns" "head s = Some (hd ns)"
      using ns by (auto simp: inv_def chain_ok_def)
    have "card (set ns) \<le> card {..<next_addr s}" using low by (intro card_mono) auto
    then have "length ns \<le> next_addr s" using distinct_card [OF lk(2)] by simp
    from free_nodes_chain [OF lk(1,2) this] lk(3) dom show ?thesis
      by (auto simp: SimpleQueue_delete_def restrict_map_def fun_eq_iff domIff)
  qed
  moreover have "step t s \<noteq> Undefined"
    using simple_allocating.step_undefined simple_queue.safe.step_defined rel by blast
  ultimately show ?thesis by blast
qed


text \<open>Two concrete runs: a push that has not returned while a pop waits for its turn, and a push and
  a pop that have both returned.\<close>

definition sample_new :: queue where
  "sample_new = the (SimpleQueue_new [True, True, True, True])"

definition busy_run :: "((queue_op, queue_res) label list \<times> queue) option" where
  "busy_run = run_schedule start step [Invoke 0 (Push 7), Run 0, Run 0, Invoke 1 Pop, Run 1] sample_new"

definition quiet_run :: "((queue_op, queue_res) label list \<times> queue) option" where
  "quiet_run = run_schedule start step
     ([Invoke 0 (Push 7)] @ replicate 5 (Run 0) @ [Invoke 1 Pop] @ replicate 7 (Run 1)) sample_new"

lemmas run_defs = SimpleQueue_new_def node_new_def malloc_def fresh_queue_def
  start_def step_defs deref_def numeral_eq_Suc

lemma sample_new_ok: "SimpleQueue_new [True, True, True, True] = Some sample_new"
  by (simp add: sample_new_def run_defs)

lemma sample_mallocs: "mallocs sample_new = [True, True]"
  by (simp add: sample_new_def run_defs)

lemma busy_ok:
  "\<exists>ls s. busy_run = Some (ls, s) \<and> execution simple_machine sample_new ls s \<and> none_failed sample_new s \<and>
     False \<notin> set (mallocs s)"
proof -
  have "\<exists>ls s. busy_run = Some (ls, s) \<and> mallocs s = [True]"
    by (simp add: busy_run_def sample_new_def run_defs)
  then obtain ls s where run: "busy_run = Some (ls, s)" and left: "mallocs s = [True]" by blast
  have "execution simple_machine sample_new ls s"
    using run unfolding busy_run_def by (rule schedule_execution)
  moreover have "none_failed sample_new s"
    unfolding none_failed_def sample_mallocs left by (rule exI [of _ "[True]"]) simp
  moreover have "False \<notin> set (mallocs s)" by (simp add: left)
  ultimately show ?thesis using run by blast
qed

lemma quiet_ok:
  "\<exists>ls s. quiet_run = Some (ls, s) \<and> execution simple_machine sample_new ls s \<and> none_failed sample_new s \<and>
     all_out s \<and> ls = [Call 0 (Push 7), Return 0 Unit, Call 1 Pop, Return 1 (Value 7)]"
proof -
  have "\<exists>ls s. quiet_run = Some (ls, s) \<and> mallocs s = [True] \<and> (\<forall>t. pcs s t = Out) \<and>
      ls = [Call 0 (Push 7), Return 0 Unit, Call 1 Pop, Return 1 (Value 7)]"
    by (simp add: quiet_run_def sample_new_def run_defs)
  then obtain ls s where run: "quiet_run = Some (ls, s)" and left: "mallocs s = [True]"
    and res: "\<forall>t. pcs s t = Out" "ls = [Call 0 (Push 7), Return 0 Unit, Call 1 Pop, Return 1 (Value 7)]" by blast
  have "execution simple_machine sample_new ls s"
    using run unfolding quiet_run_def by (rule schedule_execution)
  moreover have "none_failed sample_new s"
    unfolding none_failed_def sample_mallocs left by (rule exI [of _ "[True]"]) simp
  ultimately show ?thesis using run res unfolding all_out_def by blast
qed

lemma simple_queue_linearizable_witness:
  "[Call 0 (Push 7), Return 0 Unit, Call 1 Pop, Return 1 (Value 7)] \<in> histories (atomic_step queue_spec) ([], \<lambda>_. Idle)"
  using simple_queue_linearizable [OF sample_new_ok] quiet_ok by blast

lemma simple_queue_calls_return_witness:
  "\<exists>ls s s'. busy_run = Some (ls, s) \<and> (moves step)\<^sup>*\<^sup>* s s' \<and> all_out s'"
  using simple_queue_calls_return [OF sample_new_ok] busy_ok unfolding reachable_def by blast

lemma simple_queue_memory_safe_witness:
  "\<exists>ls s s'. quiet_run = Some (ls, s) \<and> SimpleQueue_delete s = Some s' \<and> heap s' = Map.empty"
  using simple_queue_memory_safe [OF sample_new_ok] quiet_ok unfolding reachable_def by blast

text \<open>The result of \<open>SimpleQueueNode_new\<close> is not tested in \<open>push\<close>: after a failed allocation the
  tail is a null pointer and the next push dereferences it.\<close>

lemma failed_push_breaks_queue:
  "\<exists>ls s. run_schedule start step ([Invoke 0 (Push 5)] @ replicate 5 (Run 0) @ [Invoke 0 (Push 6), Run 0, Run 0])
     (the (SimpleQueue_new [True, True, False])) = Some (ls, s) \<and> step 0 s = Undefined"
  by (simp add: run_defs)

end
