(* ===== verification/RingsQueue.thy ===== *)
theory RingsQueue
  imports Concurrent
begin

text \<open>
  The queue of \<open>non-blocking-queues/RingsQueue.c\<close>: a list of nodes with a ring of values each,
  one lock for pushing and one for popping. The indices of a ring count all pushes to the node
  and all pops from it, and are atomics that both sides read without the other's lock; each of
  their accesses is a step of its own. A cell of a ring that was never written has no value, and
  reading it, or through a null or freed pointer, is \<open>Undefined\<close>. The indices are unbounded
  integers; the code's would overflow after \<open>2^63\<close> pushes to one node.
\<close>

type_synonym ptr = "addr option"

definition RING_SIZE :: int where
  "RING_SIZE = 1024"

record node =
  nxt :: ptr
  buffer :: "int \<rightharpoonup> int"
  push_idx :: int
  pop_idx :: int

text \<open>Where a thread is, with the local variables it still needs (\<open>tn\<close> is \<open>tail_node\<close>, \<open>nn\<close> is
  \<open>new_node\<close>, \<open>pu\<close> and \<open>po\<close> the indices it has read).\<close>

datatype pc =
    Out
  | PushLock int | PushTailNode int | PushLoadPush int ptr | PushLoadPop int ptr int | PushTest int ptr int int
  | PushWrite int ptr int | PushAdd int ptr int
  | PushNew int ptr | PushFill int ptr ptr | PushNewAdd int ptr ptr | PushNext int ptr ptr | PushSetTail ptr
  | PushUnlock
  | PopLock | PopHead | PopLoadNext ptr | PopLoadPop ptr ptr | PopLoadPush ptr ptr int | PopTest ptr ptr int int
  | PopAdvance ptr ptr | PopFree ptr | PopRead ptr int | PopAdd ptr int | PopUnlock int
  | EmptyLock | EmptyHead | EmptyLoadPush ptr | EmptyLoadPop ptr int | EmptyLoadNext ptr int int
  | EmptyUnlock bool

record queue = alloc +
  heap :: "addr \<rightharpoonup> node"
  head :: ptr
  tail :: ptr
  pop_mtx :: "tid option"
  push_mtx :: "tid option"
  pcs :: "tid \<Rightarrow> pc"

abbreviation goto :: "tid \<Rightarrow> pc \<Rightarrow> queue \<Rightarrow> queue" where
  "goto t p s \<equiv> s\<lparr>pcs := (pcs s)(t := p)\<rparr>"

type_synonym qmove = "(queue_op, queue_res, queue) move"

text \<open>A step that reads a node, and one that changes it.\<close>

definition read_node :: "ptr \<Rightarrow> queue \<Rightarrow> (node \<Rightarrow> qmove) \<Rightarrow> qmove" where
  "read_node p s f =
     (case p of None \<Rightarrow> Undefined | Some a \<Rightarrow> (case heap s a of None \<Rightarrow> Undefined | Some nd \<Rightarrow> f nd))"

definition write_node :: "ptr \<Rightarrow> queue \<Rightarrow> (node \<Rightarrow> node) \<Rightarrow> (queue \<Rightarrow> qmove) \<Rightarrow> qmove" where
  "write_node p s g k =
     (case p of
        None \<Rightarrow> Undefined
      | Some a \<Rightarrow>
          (case heap s a of
             None \<Rightarrow> Undefined
           | Some nd \<Rightarrow> k (s\<lparr>heap := (heap s)(a \<mapsto> g nd)\<rparr>)))"

definition empty_node :: node where
  "empty_node = \<lparr>nxt = None, buffer = Map.empty, push_idx = 0, pop_idx = 0\<rparr>"

definition node_new :: "queue \<Rightarrow> ptr \<times> queue" where
  "node_new s =
     (case malloc s of
        (None, s) \<Rightarrow> (None, s)
      | (Some a, s) \<Rightarrow> (Some a, s\<lparr>heap := (heap s)(a \<mapsto> empty_node)\<rparr>))"

section \<open>Creating and deleting\<close>

definition fresh_queue :: "bool list \<Rightarrow> queue" where
  "fresh_queue ms = \<lparr>next_addr = 0, mallocs = ms, heap = Map.empty, head = None, tail = None,
     pop_mtx = None, push_mtx = None, pcs = (\<lambda>_. Out)\<rparr>"

definition RingsQueue_new :: "bool list \<Rightarrow> queue option" where
  "RingsQueue_new ms =
     (case malloc (fresh_queue ms) of
        (None, s) \<Rightarrow> None
      | (Some q, s) \<Rightarrow>
          (case node_new s of
             (None, s) \<Rightarrow> None
           | (Some a, s) \<Rightarrow> Some (s\<lparr>head := Some a, tail := Some a\<rparr>)))"

fun free_nodes :: "nat \<Rightarrow> ptr \<Rightarrow> queue \<Rightarrow> queue option" where
  "free_nodes n None s = Some s"
| "free_nodes 0 (Some a) s = None"
| "free_nodes (Suc n) (Some a) s =
     (case heap s a of
        None \<Rightarrow> None
      | Some nd \<Rightarrow> free_nodes n (nxt nd) (s\<lparr>heap := (heap s)(a := None)\<rparr>))"

definition RingsQueue_delete :: "queue \<Rightarrow> queue option" where
  "RingsQueue_delete s = free_nodes (next_addr s) (head s) s"

section \<open>The operations\<close>

definition first_pc :: "queue_op \<Rightarrow> pc" where
  "first_pc c = (case c of Push v \<Rightarrow> PushLock v | Pop \<Rightarrow> PopLock | IsEmpty \<Rightarrow> EmptyLock)"

definition start :: "tid \<Rightarrow> queue_op \<Rightarrow> queue \<Rightarrow> queue option" where
  "start t c s = (if pcs s t = Out then Some (goto t (first_pc c) s) else None)"

definition RingsQueue_push :: "tid \<Rightarrow> pc \<Rightarrow> queue \<Rightarrow> qmove" where
  "RingsQueue_push t p s = (case p of
     PushLock v \<Rightarrow>
       if push_mtx s = None then Move Internal (goto t (PushTailNode v) (s\<lparr>push_mtx := Some t\<rparr>)) else Blocked
   | PushTailNode v \<Rightarrow> Move Internal (goto t (PushLoadPush v (tail s)) s)
   | PushLoadPush v tn \<Rightarrow> read_node tn s (\<lambda>nd. Move Internal (goto t (PushLoadPop v tn (push_idx nd)) s))
   | PushLoadPop v tn pu \<Rightarrow> read_node tn s (\<lambda>nd. Move Internal (goto t (PushTest v tn pu (pop_idx nd)) s))
   | PushTest v tn pu po \<Rightarrow>
       Move Internal (goto t (if pu - po < RING_SIZE then PushWrite v tn pu else PushNew v tn) s)
   | PushWrite v tn pu \<Rightarrow>
       write_node tn s (\<lambda>nd. nd\<lparr>buffer := (buffer nd)(pu mod RING_SIZE \<mapsto> v)\<rparr>)
         (\<lambda>s. Move Internal (goto t (PushAdd v tn pu) s))
   | PushAdd v tn pu \<Rightarrow>
       write_node tn s (\<lambda>nd. nd\<lparr>push_idx := push_idx nd + 1\<rparr>) (\<lambda>s. Move Internal (goto t PushUnlock s))
   | PushNew v tn \<Rightarrow> (let (nn, s) = node_new s in Move Internal (goto t (PushFill v tn nn) s))
   | PushFill v tn nn \<Rightarrow>
       write_node nn s (\<lambda>nd. nd\<lparr>buffer := (buffer nd)(0 \<mapsto> v)\<rparr>)
         (\<lambda>s. Move Internal (goto t (PushNewAdd v tn nn) s))
   | PushNewAdd v tn nn \<Rightarrow>
       write_node nn s (\<lambda>nd. nd\<lparr>push_idx := push_idx nd + 1\<rparr>)
         (\<lambda>s. Move Internal (goto t (PushNext v tn nn) s))
   | PushNext v tn nn \<Rightarrow>
       write_node tn s (\<lambda>nd. nd\<lparr>nxt := nn\<rparr>) (\<lambda>s. Move Internal (goto t (PushSetTail nn) s))
   | PushSetTail nn \<Rightarrow> Move Internal (goto t PushUnlock (s\<lparr>tail := nn\<rparr>))
   | PushUnlock \<Rightarrow> Move (Return t Unit) (goto t Out (s\<lparr>push_mtx := None\<rparr>))
   | _ \<Rightarrow> Blocked)"

definition RingsQueue_pop :: "tid \<Rightarrow> pc \<Rightarrow> queue \<Rightarrow> qmove" where
  "RingsQueue_pop t p s = (case p of
     PopLock \<Rightarrow> if pop_mtx s = None then Move Internal (goto t PopHead (s\<lparr>pop_mtx := Some t\<rparr>)) else Blocked
   | PopHead \<Rightarrow> Move Internal (goto t (PopLoadNext (head s)) s)
   | PopLoadNext h \<Rightarrow> read_node h s (\<lambda>nd. Move Internal (goto t (PopLoadPop h (nxt nd)) s))
   | PopLoadPop h n \<Rightarrow> read_node h s (\<lambda>nd. Move Internal (goto t (PopLoadPush h n (pop_idx nd)) s))
   | PopLoadPush h n po \<Rightarrow> read_node h s (\<lambda>nd. Move Internal (goto t (PopTest h n po (push_idx nd)) s))
   | PopTest h n po pu \<Rightarrow>
       if po = pu then
         if n = None then Move (Return t (Value EMPTY_VALUE)) (goto t Out (s\<lparr>pop_mtx := None\<rparr>))
         else Move Internal (goto t (PopAdvance h n) s)
       else Move Internal (goto t (PopRead h po) s)
   | PopAdvance h n \<Rightarrow> Move Internal (goto t (PopFree h) (s\<lparr>head := n\<rparr>))
   | PopFree h \<Rightarrow>
       read_node h s (\<lambda>nd. Move Internal (goto t PopHead (s\<lparr>heap := (heap s)(the h := None)\<rparr>)))
   | PopRead h po \<Rightarrow>
       read_node h s (\<lambda>nd.
         case buffer nd (po mod RING_SIZE) of
           None \<Rightarrow> Undefined
         | Some v \<Rightarrow> Move Internal (goto t (PopAdd h v) s))
   | PopAdd h v \<Rightarrow>
       write_node h s (\<lambda>nd. nd\<lparr>pop_idx := pop_idx nd + 1\<rparr>) (\<lambda>s. Move Internal (goto t (PopUnlock v) s))
   | PopUnlock v \<Rightarrow> Move (Return t (Value v)) (goto t Out (s\<lparr>pop_mtx := None\<rparr>))
   | _ \<Rightarrow> Blocked)"

definition RingsQueue_is_empty :: "tid \<Rightarrow> pc \<Rightarrow> queue \<Rightarrow> qmove" where
  "RingsQueue_is_empty t p s = (case p of
     EmptyLock \<Rightarrow> if pop_mtx s = None then Move Internal (goto t EmptyHead (s\<lparr>pop_mtx := Some t\<rparr>)) else Blocked
   | EmptyHead \<Rightarrow> Move Internal (goto t (EmptyLoadPush (head s)) s)
   | EmptyLoadPush h \<Rightarrow> read_node h s (\<lambda>nd. Move Internal (goto t (EmptyLoadPop h (push_idx nd)) s))
   | EmptyLoadPop h pu \<Rightarrow> read_node h s (\<lambda>nd. Move Internal (goto t (EmptyLoadNext h pu (pop_idx nd)) s))
   | EmptyLoadNext h pu po \<Rightarrow>
       read_node h s (\<lambda>nd. Move Internal (goto t (EmptyUnlock (pu = po \<and> nxt nd = None)) s))
   | EmptyUnlock b \<Rightarrow> Move (Return t (Answer b)) (goto t Out (s\<lparr>pop_mtx := None\<rparr>))
   | _ \<Rightarrow> Blocked)"

text \<open>At every place exactly one of the three functions is being executed.\<close>

fun in_pop :: "pc \<Rightarrow> bool" where
  "in_pop PopLock = True"
| "in_pop PopHead = True"
| "in_pop (PopLoadNext h) = True"
| "in_pop (PopLoadPop h n) = True"
| "in_pop (PopLoadPush h n po) = True"
| "in_pop (PopTest h n po pu) = True"
| "in_pop (PopAdvance h n) = True"
| "in_pop (PopFree h) = True"
| "in_pop (PopRead h po) = True"
| "in_pop (PopAdd h v) = True"
| "in_pop (PopUnlock v) = True"
| "in_pop p = False"

fun in_is_empty :: "pc \<Rightarrow> bool" where
  "in_is_empty EmptyLock = True"
| "in_is_empty EmptyHead = True"
| "in_is_empty (EmptyLoadPush h) = True"
| "in_is_empty (EmptyLoadPop h pu) = True"
| "in_is_empty (EmptyLoadNext h pu po) = True"
| "in_is_empty (EmptyUnlock b) = True"
| "in_is_empty p = False"

definition step :: "tid \<Rightarrow> queue \<Rightarrow> qmove" where
  "step t s =
     (if pcs s t = Out then Blocked
      else if in_pop (pcs s t) then RingsQueue_pop t (pcs s t) s
      else if in_is_empty (pcs s t) then RingsQueue_is_empty t (pcs s t) s
      else RingsQueue_push t (pcs s t) s)"

end
