(* ===== verification/RingsQueue_Inv.thy ===== *)
theory RingsQueue_Inv
  imports RingsQueue
begin

text \<open>
  The invariant of the queue of rings: the chain of nodes, what the local variables of each
  thread know about its ends, which thread owns which memory, and which atomic states a state
  stands for. When a pop finds the queue empty is only known after it has read the next pointer
  and both indices, and the same holds for \<open>is_empty\<close>; until then a state stands for both
  possibilities. At the end are the rules for steps that change no memory, a node of the chain,
  or memory outside the chain.
\<close>

section \<open>Chains of rings\<close>

fun linked :: "(addr \<rightharpoonup> node) \<Rightarrow> addr list \<Rightarrow> bool" where
  "linked h [] = False"
| "linked h [a] = (\<exists>nd. h a = Some nd \<and> nxt nd = None)"
| "linked h (a # b # ns) = ((\<exists>nd. h a = Some nd \<and> nxt nd = Some b) \<and> linked h (b # ns))"

lemma rings_linked_heap: "linked h ns \<Longrightarrow> a \<in> set ns \<Longrightarrow> \<exists>nd. h a = Some nd"
  by (induction h ns rule: linked.induct) auto

lemma linked_nonempty [simp]: "linked h ns \<Longrightarrow> ns \<noteq> []"
  by auto

lemma linked_cong: "(\<And>a. a \<in> set ns \<Longrightarrow> map_option nxt (h' a) = map_option nxt (h a)) \<Longrightarrow> linked h' ns = linked h ns"
proof (induction h ns rule: linked.induct)
  case (2 h a)
  then show ?case by (cases "h a"; cases "h' a") auto
next
  case (3 h a b ns)
  from "3.prems" [of a] have "(\<exists>nd. h' a = Some nd \<and> nxt nd = Some b) = (\<exists>nd. h a = Some nd \<and> nxt nd = Some b)"
    by (cases "h a"; cases "h' a") auto
  moreover have "linked h' (b # ns) = linked h (b # ns)" using 3 by simp
  ultimately show ?case by simp
qed simp

lemma rings_linked_append:
  "linked h ns \<Longrightarrow> h (last ns) = Some nd \<Longrightarrow> distinct ns \<Longrightarrow> a \<notin> set ns \<Longrightarrow> h a = Some na \<Longrightarrow> nxt na = None \<Longrightarrow>
     linked (h(last ns \<mapsto> nd\<lparr>nxt := Some a\<rparr>)) (ns @ [a])"
proof (induction h ns rule: linked.induct)
  case (3 h x y ns)
  then have "x \<noteq> last (y # ns)" by (metis distinct.simps(2) last_in_set list.discI)
  with 3 show ?case by auto
qed auto

lemma rings_linked_next:
  "linked h ns \<Longrightarrow> h (hd ns) = Some nd \<Longrightarrow> nxt nd = (case tl ns of [] \<Rightarrow> None | b # _ \<Rightarrow> Some b)"
  by (induction h ns rule: linked.induct) auto

lemma rings_linked_tl: "linked h ns \<Longrightarrow> tl ns \<noteq> [] \<Longrightarrow> linked h (tl ns)"
  by (induction h ns rule: linked.induct) auto

lemma rings_linked_last: "linked h ns \<Longrightarrow> h (last ns) = Some nd \<Longrightarrow> nxt nd = None"
  by (induction h ns rule: linked.induct) (auto split: if_splits)

section \<open>What is in a ring\<close>

lemma RING_SIZE_pos [simp]: "0 < RING_SIZE"
  by (simp add: RING_SIZE_def)

definition ring :: "node \<Rightarrow> int list" where
  "ring nd = map (\<lambda>i. the (buffer nd (i mod RING_SIZE))) [pop_idx nd..push_idx nd - 1]"

definition contents :: "(addr \<rightharpoonup> node) \<Rightarrow> addr list \<Rightarrow> int list" where
  "contents h ns = concat (map (\<lambda>a. ring (the (h a))) ns)"

definition node_ok :: "node \<Rightarrow> bool" where
  "node_ok nd \<longleftrightarrow> 0 \<le> pop_idx nd \<and> pop_idx nd \<le> push_idx nd \<and> push_idx nd - pop_idx nd \<le> RING_SIZE \<and>
     (\<forall>i. pop_idx nd \<le> i \<and> i < push_idx nd \<longrightarrow> buffer nd (i mod RING_SIZE) \<noteq> None)"

lemma ring_empty: "node_ok nd \<Longrightarrow> ring nd = [] \<longleftrightarrow> pop_idx nd = push_idx nd"
  by (auto simp: ring_def node_ok_def)

text \<open>Two indices less than a ring apart have different cells.\<close>

lemma cells_differ: "i < j \<Longrightarrow> j - i < RING_SIZE \<Longrightarrow> i mod RING_SIZE \<noteq> j mod RING_SIZE" for i j :: int
proof
  assume "i < j" "j - i < RING_SIZE" "i mod RING_SIZE = j mod RING_SIZE"
  then have "(j - i) mod RING_SIZE = 0" by (metis mod_diff_eq cancel_comm_monoid_add_class.diff_cancel mod_0)
  moreover have "(j - i) mod RING_SIZE = j - i" using \<open>i < j\<close> \<open>j - i < RING_SIZE\<close> by simp
  ultimately show False using \<open>i < j\<close> by simp
qed

lemma ring_write:
  assumes "node_ok nd" "pu = push_idx nd" "pu - pop_idx nd < RING_SIZE"
  shows "ring (nd\<lparr>buffer := (buffer nd)(pu mod RING_SIZE \<mapsto> v)\<rparr>) = ring nd"
    and "node_ok (nd\<lparr>buffer := (buffer nd)(pu mod RING_SIZE \<mapsto> v)\<rparr>)"
proof -
  have "i mod RING_SIZE \<noteq> pu mod RING_SIZE" if "pop_idx nd \<le> i" "i < push_idx nd" for i
    using cells_differ [of i pu] that assms(2,3) by auto
  then show "ring (nd\<lparr>buffer := (buffer nd)(pu mod RING_SIZE \<mapsto> v)\<rparr>) = ring nd"
    by (auto simp: ring_def)
  show "node_ok (nd\<lparr>buffer := (buffer nd)(pu mod RING_SIZE \<mapsto> v)\<rparr>)"
    using assms(1) by (auto simp: node_ok_def)
qed

lemma ring_add:
  assumes "node_ok nd" "push_idx nd - pop_idx nd < RING_SIZE" "buffer nd (push_idx nd mod RING_SIZE) = Some v"
  shows "ring (nd\<lparr>push_idx := push_idx nd + 1\<rparr>) = ring nd @ [v]" and "node_ok (nd\<lparr>push_idx := push_idx nd + 1\<rparr>)"
proof -
  have "[pop_idx nd..push_idx nd] = [pop_idx nd..push_idx nd - 1] @ [push_idx nd]"
    using assms(1) by (intro upto_rec2) (simp add: node_ok_def)
  then show "ring (nd\<lparr>push_idx := push_idx nd + 1\<rparr>) = ring nd @ [v]"
    using assms(3) by (simp add: ring_def)
  have "buffer nd (i mod RING_SIZE) \<noteq> None" if "pop_idx nd \<le> i" "i < push_idx nd + 1" for i
    using that assms(1,3) by (cases "i = push_idx nd") (auto simp: node_ok_def)
  then show "node_ok (nd\<lparr>push_idx := push_idx nd + 1\<rparr>)"
    using assms(1,2) by (simp add: node_ok_def)
qed

lemma ring_take:
  assumes "node_ok nd" "pop_idx nd < push_idx nd" "buffer nd (pop_idx nd mod RING_SIZE) = Some v"
  shows "ring nd = v # ring (nd\<lparr>pop_idx := pop_idx nd + 1\<rparr>)" and "node_ok (nd\<lparr>pop_idx := pop_idx nd + 1\<rparr>)"
proof -
  have "[pop_idx nd..push_idx nd - 1] = pop_idx nd # [pop_idx nd + 1..push_idx nd - 1]"
    using assms(2) by (intro upto_rec1) simp
  then show "ring nd = v # ring (nd\<lparr>pop_idx := pop_idx nd + 1\<rparr>)"
    using assms(3) by (simp add: ring_def)
  show "node_ok (nd\<lparr>pop_idx := pop_idx nd + 1\<rparr>)"
    using assms(1,2) by (auto simp: node_ok_def)
qed


section \<open>The invariant\<close>

abbreviation node_at :: "queue \<Rightarrow> addr \<Rightarrow> node" where
  "node_at s a \<equiv> the (heap s a)"

definition drained :: "queue \<Rightarrow> ptr \<Rightarrow> bool" where
  "drained s h \<longleftrightarrow> pop_idx (node_at s (the h)) = push_idx (node_at s (the h))"

text \<open>What a call in progress may already have done, as seen from the place where it is.\<close>

fun options :: "queue \<Rightarrow> pc \<Rightarrow> (queue_op, queue_res) phase set" where
  "options s Out = {Idle}"
| "options s (PushLock v) = {Pending (Push v)}"
| "options s (PushTailNode v) = {Pending (Push v)}"
| "options s (PushLoadPush v tn) = {Pending (Push v)}"
| "options s (PushLoadPop v tn pu) = {Pending (Push v)}"
| "options s (PushTest v tn pu po) = {Pending (Push v)}"
| "options s (PushWrite v tn pu) = {Pending (Push v)}"
| "options s (PushAdd v tn pu) = {Pending (Push v)}"
| "options s (PushNew v tn) = {Pending (Push v)}"
| "options s (PushFill v tn nn) = {Pending (Push v)}"
| "options s (PushNewAdd v tn nn) = {Pending (Push v)}"
| "options s (PushNext v tn nn) = {Pending (Push v)}"
| "options s (PushSetTail nn) = {Done Unit}"
| "options s PushUnlock = {Done Unit}"
| "options s PopLock = {Pending Pop}"
| "options s PopHead = {Pending Pop}"
| "options s (PopLoadNext h) = {Pending Pop}"
| "options s (PopLoadPop h n) =
     {Pending Pop} \<union> (if n = None \<and> drained s h then {Done (Value EMPTY_VALUE)} else {})"
| "options s (PopLoadPush h n po) =
     {Pending Pop} \<union> (if n = None \<and> drained s h then {Done (Value EMPTY_VALUE)} else {})"
| "options s (PopTest h n po pu) =
     (if po = pu \<and> n = None then {Done (Value EMPTY_VALUE)} else {Pending Pop})"
| "options s (PopAdvance h n) = {Pending Pop}"
| "options s (PopFree h) = {Pending Pop}"
| "options s (PopRead h po) = {Pending Pop}"
| "options s (PopAdd h v) = {Pending Pop}"
| "options s (PopUnlock v) = {Done (Value v)}"
| "options s EmptyLock = {Pending IsEmpty}"
| "options s EmptyHead = {Pending IsEmpty}"
| "options s (EmptyLoadPush h) = {Pending IsEmpty}"
| "options s (EmptyLoadPop h pu) =
     (if pu = pop_idx (node_at s (the h))
      then {Pending IsEmpty} \<union> (if nxt (node_at s (the h)) = None then {Done (Answer True)} else {})
      else {Done (Answer False)})"
| "options s (EmptyLoadNext h pu po) =
     (if pu = po
      then {Pending IsEmpty} \<union> (if nxt (node_at s (the h)) = None then {Done (Answer True)} else {})
      else {Done (Answer False)})"
| "options s (EmptyUnlock b) = {Done (Answer b)}"

fun pushing :: "pc \<Rightarrow> bool" where
  "pushing (PushTailNode v) = True"
| "pushing (PushLoadPush v tn) = True"
| "pushing (PushLoadPop v tn pu) = True"
| "pushing (PushTest v tn pu po) = True"
| "pushing (PushWrite v tn pu) = True"
| "pushing (PushAdd v tn pu) = True"
| "pushing (PushNew v tn) = True"
| "pushing (PushFill v tn nn) = True"
| "pushing (PushNewAdd v tn nn) = True"
| "pushing (PushNext v tn nn) = True"
| "pushing (PushSetTail nn) = True"
| "pushing PushUnlock = True"
| "pushing p = False"

definition popping :: "pc \<Rightarrow> bool" where
  "popping p \<longleftrightarrow> in_pop p \<and> p \<noteq> PopLock \<or> in_is_empty p \<and> p \<noteq> EmptyLock"

fun owned :: "pc \<Rightarrow> addr set" where
  "owned (PushFill v tn (Some a)) = {a}"
| "owned (PushNewAdd v tn (Some a)) = {a}"
| "owned (PushNext v tn (Some a)) = {a}"
| "owned (PopFree (Some a)) = {a}"
| "owned p = {}"

text \<open>What the local variables of a push know about the last node.\<close>

fun push_locals :: "queue \<Rightarrow> addr list \<Rightarrow> pc \<Rightarrow> bool" where
  "push_locals s ns (PushLoadPush v tn) = (tn = Some (last ns))"
| "push_locals s ns (PushLoadPop v tn pu) = (tn = Some (last ns) \<and> pu = push_idx (node_at s (last ns)))"
| "push_locals s ns (PushTest v tn pu po) =
     (tn = Some (last ns) \<and> pu = push_idx (node_at s (last ns)) \<and> po \<le> pop_idx (node_at s (last ns)))"
| "push_locals s ns (PushWrite v tn pu) =
     (tn = Some (last ns) \<and> pu = push_idx (node_at s (last ns)) \<and> pu - pop_idx (node_at s (last ns)) < RING_SIZE)"
| "push_locals s ns (PushAdd v tn pu) =
     (tn = Some (last ns) \<and> pu = push_idx (node_at s (last ns)) \<and> pu - pop_idx (node_at s (last ns)) < RING_SIZE \<and>
      buffer (node_at s (last ns)) (pu mod RING_SIZE) = Some v)"
| "push_locals s ns (PushNew v tn) = (tn = Some (last ns))"
| "push_locals s ns (PushFill v tn nn) =
     (tn = Some (last ns) \<and> (\<exists>a. nn = Some a \<and> heap s a = Some empty_node))"
| "push_locals s ns (PushNewAdd v tn nn) =
     (tn = Some (last ns) \<and> (\<exists>a. nn = Some a \<and> heap s a = Some (empty_node\<lparr>buffer := [0 \<mapsto> v]\<rparr>)))"
| "push_locals s ns (PushNext v tn nn) =
     (tn = Some (last ns) \<and>
      (\<exists>a. nn = Some a \<and> heap s a = Some (empty_node\<lparr>buffer := [0 \<mapsto> v], push_idx := 1\<rparr>)))"
| "push_locals s ns (PushSetTail nn) = (nn = Some (last ns))"
| "push_locals s ns p = True"

text \<open>What the local variables of a pop or a test know about the first node.\<close>

fun pop_locals :: "queue \<Rightarrow> addr list \<Rightarrow> pc \<Rightarrow> bool" where
  "pop_locals s ns (PopLoadNext h) = (h = Some (hd ns))"
| "pop_locals s ns (PopLoadPop h n) = (h = Some (hd ns) \<and> (n \<noteq> None \<longrightarrow> n = nxt (node_at s (hd ns))))"
| "pop_locals s ns (PopLoadPush h n po) =
     (h = Some (hd ns) \<and> (n \<noteq> None \<longrightarrow> n = nxt (node_at s (hd ns))) \<and> po = pop_idx (node_at s (hd ns)))"
| "pop_locals s ns (PopTest h n po pu) =
     (h = Some (hd ns) \<and> (n \<noteq> None \<longrightarrow> n = nxt (node_at s (hd ns)) \<and> pu = push_idx (node_at s (hd ns))) \<and>
      po = pop_idx (node_at s (hd ns)) \<and> po \<le> pu \<and> pu \<le> push_idx (node_at s (hd ns)))"
| "pop_locals s ns (PopAdvance h n) =
     (h = Some (hd ns) \<and> n = nxt (node_at s (hd ns)) \<and> n \<noteq> None \<and> drained s h)"
| "pop_locals s ns (PopFree h) = (h \<noteq> None)"
| "pop_locals s ns (PopRead h po) =
     (h = Some (hd ns) \<and> po = pop_idx (node_at s (hd ns)) \<and> po < push_idx (node_at s (hd ns)))"
| "pop_locals s ns (PopAdd h v) =
     (h = Some (hd ns) \<and> pop_idx (node_at s (hd ns)) < push_idx (node_at s (hd ns)) \<and>
      buffer (node_at s (hd ns)) (pop_idx (node_at s (hd ns)) mod RING_SIZE) = Some v)"
| "pop_locals s ns (EmptyLoadPush h) = (h = Some (hd ns))"
| "pop_locals s ns (EmptyLoadPop h pu) = (h = Some (hd ns))"
| "pop_locals s ns (EmptyLoadNext h pu po) = (h = Some (hd ns) \<and> po = pop_idx (node_at s (hd ns)))"
| "pop_locals s ns p = True"

definition chain_ok :: "queue \<Rightarrow> addr list \<Rightarrow> bool" where
  "chain_ok s ns \<longleftrightarrow> linked (heap s) ns \<and> distinct ns \<and> head s = Some (hd ns) \<and>
     ((\<forall>t n. pcs s t \<noteq> PushSetTail n) \<longrightarrow> tail s = Some (last ns)) \<and>
     (\<forall>a\<in>set ns. node_ok (node_at s a)) \<and>
     (\<forall>a\<in>set (tl ns). pop_idx (node_at s a) = 0 \<and> 1 \<le> push_idx (node_at s a))"

definition memory_ok :: "queue \<Rightarrow> addr list \<Rightarrow> bool" where
  "memory_ok s ns \<longleftrightarrow> mallocs s = [] \<and> (\<forall>a\<in>dom (heap s). a < next_addr s) \<and>
     owns_ok (\<lambda>t. owned (pcs s t)) (dom (heap s)) (set ns)"

definition threads_ok :: "queue \<Rightarrow> addr list \<Rightarrow> bool" where
  "threads_ok s ns \<longleftrightarrow> (\<forall>t. push_locals s ns (pcs s t) \<and> pop_locals s ns (pcs s t)) \<and>
     (\<forall>t. pushing (pcs s t) \<longleftrightarrow> push_mtx s = Some t) \<and>
     (\<forall>t. popping (pcs s t) \<longleftrightarrow> pop_mtx s = Some t) \<and> finite {t. pcs s t \<noteq> Out}"

definition inv_on :: "queue \<Rightarrow> addr list \<Rightarrow> bool" where
  "inv_on s ns \<longleftrightarrow> chain_ok s ns \<and> memory_ok s ns \<and> threads_ok s ns"

definition queue_inv :: "queue \<Rightarrow> bool" where
  "queue_inv s \<longleftrightarrow> (\<exists>ns. inv_on s ns)"

text \<open>The atomic states a state stands for.\<close>

definition states :: "queue \<Rightarrow> (int list, queue_op, queue_res) atomic set" where
  "states s = {(q, ph). (\<exists>ns. inv_on s ns \<and> q = contents (heap s) ns) \<and> (\<forall>t. ph t \<in> options s (pcs s t))}"

text \<open>The chain is determined by the head.\<close>

lemma linked_Cons_cases:
  "linked h (a # ns) \<longleftrightarrow> (\<exists>nd. h a = Some nd \<and>
     (case ns of [] \<Rightarrow> nxt nd = None | b # _ \<Rightarrow> nxt nd = Some b \<and> linked h ns))"
  by (cases ns) auto

lemma linked_unique: "linked h ns \<Longrightarrow> linked h ms \<Longrightarrow> hd ns = hd ms \<Longrightarrow> ns = ms"
proof (induction ns arbitrary: ms)
  case (Cons a ns)
  then obtain ls where ms: "ms = a # ls" by (cases ms) auto
  show ?case
  proof (cases ns)
    case Nil
    with Cons.prems ms show ?thesis by (cases ls) auto
  next
    case (Cons b ns1)
    with Cons.prems ms obtain ls1 where "ls = b # ls1" by (cases ls) auto
    with Cons Cons.prems Cons.IH [of ls] ms show ?thesis by simp
  qed
qed simp


section \<open>One step of one thread\<close>

definition effect ::
  "(queue_op, queue_res) label \<Rightarrow> tid \<Rightarrow> int list \<Rightarrow> (queue_op, queue_res) phase \<Rightarrow>
   int list \<Rightarrow> (queue_op, queue_res) phase \<Rightarrow> bool"
where
  "effect l t q \<phi> q' \<phi>' \<longleftrightarrow>
     l = Internal \<and> \<phi>' = \<phi> \<and> q' = q \<or>
     (\<exists>c r. l = Internal \<and> \<phi> = Pending c \<and> \<phi>' = Done r \<and> queue_spec c q = (r, q')) \<or>
     (\<exists>r. l = Return t r \<and> \<phi> = Done r \<and> \<phi>' = Idle \<and> q' = q)"

definition good_step :: "queue \<Rightarrow> (queue_op, queue_res) label \<Rightarrow> queue \<Rightarrow> bool" where
  "good_step s l s' \<longleftrightarrow> queue_inv s' \<and>
     (\<forall>a'\<in>states s'. \<exists>a\<in>states s. atomic_step queue_spec a l a' \<or> l = Internal \<and> a' = a)"

lemma effect_step:
  "effect l t q \<phi> q' (ph t) \<Longrightarrow>
     atomic_step queue_spec (q, ph(t := \<phi>)) l (q', ph) \<or> l = Internal \<and> (q', ph) = (q, ph(t := \<phi>))"
  unfolding effect_def
proof (elim disjE exE conjE)
  fix c r assume "l = Internal" "\<phi> = Pending c" "ph t = Done r" "queue_spec c q = (r, q')"
  then have "atomic_step queue_spec (q, ph(t := \<phi>)) l (q', (ph(t := \<phi>))(t := Done r))"
    using atomic_step.perform [of "ph(t := \<phi>)" t c queue_spec q r q'] by simp
  with \<open>ph t = Done r\<close> show ?thesis by (metis fun_upd_triv fun_upd_upd)
next
  fix r assume "l = Return t r" "\<phi> = Done r" "ph t = Idle" "q' = q"
  then have "atomic_step queue_spec (q, ph(t := \<phi>)) l (q', (ph(t := \<phi>))(t := Idle))"
    using atomic_step.return [of "ph(t := \<phi>)" t r queue_spec q] by simp
  with \<open>ph t = Idle\<close> show ?thesis by (metis fun_upd_triv fun_upd_upd)
qed (metis fun_upd_triv)

lemma good_stepI:
  assumes inv: "inv_on s ns" "inv_on s' ns'" and pcs: "pcs s' = (pcs s)(t := p')"
    and others: "\<And>u. u \<noteq> t \<Longrightarrow> options s' (pcs s u) \<subseteq> options s (pcs s u)"
    and self: "\<And>\<phi>'. \<phi>' \<in> options s' p' \<Longrightarrow>
      \<exists>\<phi>\<in>options s (pcs s t). effect l t (contents (heap s) ns) \<phi> (contents (heap s') ns') \<phi>'"
  shows "good_step s l s'"
  unfolding good_step_def
proof (intro conjI ballI)
  show "queue_inv s'" using inv(2) unfolding queue_inv_def by blast
  fix a' assume a': "a' \<in> states s'"
  obtain q' ph' where a'_eq: "a' = (q', ph')" by (cases a')
  obtain ms where ms: "inv_on s' ms" "q' = contents (heap s') ms" using a' by (auto simp: a'_eq states_def)
  have "ms = ns'"
    using ms(1) inv(2) linked_unique [of "heap s'" ms ns'] unfolding inv_on_def chain_ok_def by auto
  then have q': "q' = contents (heap s') ns'" using ms(2) by simp
  have ph': "ph' u \<in> options s' (pcs s' u)" for u using a' by (simp add: a'_eq states_def)
  then have "ph' t \<in> options s' p'" by (metis pcs fun_upd_same)
  then obtain \<phi> where \<phi>: "\<phi> \<in> options s (pcs s t)" "effect l t (contents (heap s) ns) \<phi> q' (ph' t)"
    using self q' by blast
  have "(ph'(t := \<phi>)) u \<in> options s (pcs s u)" for u
    using \<phi>(1) others [of u] ph' [of u] by (cases "u = t") (auto simp: pcs)
  then have "(contents (heap s) ns, ph'(t := \<phi>)) \<in> states s"
    using inv(1) unfolding states_def by blast
  then show "\<exists>a\<in>states s. atomic_step queue_spec a l a' \<or> l = Internal \<and> a' = a"
    using effect_step [where ph = ph' and t = t, OF \<phi>(2)] unfolding a'_eq by blast
qed

lemma locals_trivial: "\<not> pushing p \<Longrightarrow> push_locals s ns p" "\<not> popping p \<Longrightarrow> pop_locals s ns p"
  by (cases p; simp add: popping_def)+

lemma options_heap: "heap s' = heap s \<Longrightarrow> options s' p = options s p"
  by (cases p) (simp_all add: drained_def)

lemma rings_linking_upd:
  "pcs s t = q \<Longrightarrow> (\<And>n. q \<noteq> PushSetTail n) \<Longrightarrow> (\<And>n. p \<noteq> PushSetTail n) \<Longrightarrow>
     (\<forall>u n. ((pcs s)(t := p)) u \<noteq> PushSetTail n) \<longleftrightarrow> (\<forall>u n. pcs s u \<noteq> PushSetTail n)"
  by (metis fun_upd_apply)

lemma finite_upd: "finite {u. pcs s u \<noteq> Out} \<Longrightarrow> finite {u. ((pcs s)(t := p)) u \<noteq> Out}"
  by (rule finite_subset [of _ "insert t {u. pcs s u \<noteq> Out}"]) auto

lemma rings_holder_unique:
  "inv_on s ns \<Longrightarrow> pushing (pcs s t) \<Longrightarrow> u \<noteq> t \<Longrightarrow> \<not> pushing (pcs s u)"
  "inv_on s ns \<Longrightarrow> popping (pcs s t) \<Longrightarrow> u \<noteq> t \<Longrightarrow> \<not> popping (pcs s u)"
  by (auto simp: inv_on_def threads_ok_def)

lemma rings_locals: "inv_on s ns \<Longrightarrow> push_locals s ns (pcs s t) \<and> pop_locals s ns (pcs s t)"
  by (simp add: inv_on_def threads_ok_def)

lemma chain_heap:
  assumes "inv_on s ns" and "a \<in> set ns"
  shows "heap s a = Some (node_at s a)" and "node_ok (node_at s a)"
  using assms rings_linked_heap [of "heap s" ns a] by (auto simp: inv_on_def chain_ok_def)

lemma ends_in_chain: "inv_on s ns \<Longrightarrow> hd ns \<in> set ns \<and> last ns \<in> set ns \<and> ns \<noteq> []"
  using linked_nonempty [of "heap s" ns] by (auto simp: inv_on_def chain_ok_def)

lemma mutex_owner:
  assumes "inv_on s ns"
  shows "pushing (pcs s t) \<longleftrightarrow> push_mtx s = Some t" "popping (pcs s t) \<longleftrightarrow> pop_mtx s = Some t"
  using assms by (simp_all add: inv_on_def threads_ok_def)

text \<open>A step that changes no memory.\<close>

lemma rings_quiet_inv:
  assumes inv: "inv_on s ns" and p: "pcs s t = p" and own: "owned p = {}" "owned p' = {}"
    and s': "s' = goto t p' (s\<lparr>push_mtx := pm, pop_mtx := qm\<rparr>)"
    and loc: "push_locals s ns p'" "pop_locals s ns p'"
    and link: "\<And>n. p \<noteq> PushSetTail n" "\<And>n. p' \<noteq> PushSetTail n"
    and pm: "pm = (if pushing p' then Some t else if pushing p then None else push_mtx s)"
    and qm: "qm = (if popping p' then Some t else if popping p then None else pop_mtx s)"
    and free: "pushing p' \<Longrightarrow> push_mtx s \<in> {None, Some t}" "popping p' \<Longrightarrow> pop_mtx s \<in> {None, Some t}"
  shows "inv_on s' ns"
proof -
  have same: "push_locals s' ns x = push_locals s ns x" "pop_locals s' ns x = pop_locals s ns x" for x
    by (cases x; simp add: s' drained_def)+
  have "chain_ok s' ns"
    using inv rings_linking_upd [OF p link] by (simp add: s' inv_on_def chain_ok_def del: fun_upd_apply)
  moreover have "owned (((pcs s)(t := p')) u) = owned (pcs s u)" for u
    using p own by simp
  then have "memory_ok s' ns"
    using inv by (simp add: s' inv_on_def memory_ok_def del: fun_upd_apply)
  moreover have "threads_ok s' ns"
    unfolding threads_ok_def same
  proof (intro conjI allI)
    fix u
    show "push_locals s ns (pcs s' u)" "pop_locals s ns (pcs s' u)"
      using rings_locals [OF inv, of u] loc by (simp_all add: s')
    show "pushing (pcs s' u) = (push_mtx s' = Some u)"
      using mutex_owner(1) [OF inv, of u] mutex_owner(1) [OF inv, of t] p pm free(1) by (auto simp: s' split: if_splits)
    show "popping (pcs s' u) = (pop_mtx s' = Some u)"
      using mutex_owner(2) [OF inv, of u] mutex_owner(2) [OF inv, of t] p qm free(2) by (auto simp: s' split: if_splits)
    show "finite {t. pcs s' t \<noteq> Out}"
      using inv finite_upd [of s t p'] by (simp add: s' inv_on_def threads_ok_def del: fun_upd_apply)
  qed
  ultimately show ?thesis by (simp add: inv_on_def)
qed

lemma rings_quiet_step:
  assumes inv: "inv_on s ns" and inv': "inv_on s' ns" and pcs: "pcs s' = (pcs s)(t := p')" and heap: "heap s' = heap s"
    and self: "\<And>\<phi>'. \<phi>' \<in> options s p' \<Longrightarrow>
      \<exists>\<phi>\<in>options s (pcs s t). effect l t (contents (heap s) ns) \<phi> (contents (heap s) ns) \<phi>'"
  shows "good_step s l s'"
  using inv inv' pcs by (rule good_stepI) (use self heap options_heap [OF heap] in simp_all)


text \<open>A change of a node of the chain that keeps its place in the chain.\<close>

lemma update_inv:
  assumes inv: "inv_on s ns" and p: "pcs s t = p" and a: "a \<in> set ns" and own: "owned p = {}" "owned p' = {}"
    and s': "s' = goto t p' (s\<lparr>heap := (heap s)(a \<mapsto> nd)\<rparr>)"
    and nd: "nxt nd = nxt (node_at s a)" "node_ok nd" "a \<in> set (tl ns) \<Longrightarrow> pop_idx nd = 0 \<and> 1 \<le> push_idx nd"
    and link: "\<And>n. p \<noteq> PushSetTail n" "\<And>n. p' \<noteq> PushSetTail n"
    and held: "pushing p' = pushing p" "popping p' = popping p"
    and loc: "push_locals s' ns p'" "pop_locals s' ns p'"
    and others: "\<And>u. u \<noteq> t \<Longrightarrow> push_locals s' ns (pcs s u) \<and> pop_locals s' ns (pcs s u)"
  shows "inv_on s' ns"
proof -
  obtain old_nd where old: "heap s a = Some old_nd" using chain_heap(1) [OF inv a] by blast
  have "linked ((heap s)(a \<mapsto> nd)) ns = linked (heap s) ns"
    using old nd(1) by (intro linked_cong) auto
  moreover have "\<forall>b\<in>set ns. node_ok (the (((heap s)(a \<mapsto> nd)) b))"
    using inv nd(2) by (auto simp: inv_on_def chain_ok_def)
  ultimately have "chain_ok s' ns"
    using inv nd(3) rings_linking_upd [OF p link] by (auto simp: s' inv_on_def chain_ok_def simp del: fun_upd_apply) auto
  moreover have "owned (((pcs s)(t := p')) u) = owned (pcs s u)" for u
    using p own by simp
  moreover have "dom ((heap s)(a \<mapsto> nd)) = dom (heap s)" using old by auto
  ultimately have "chain_ok s' ns \<and> memory_ok s' ns"
    using inv by (simp add: s' inv_on_def memory_ok_def del: fun_upd_apply dom_fun_upd)
  moreover have "threads_ok s' ns"
    unfolding threads_ok_def
  proof (intro conjI allI)
    fix u
    show "push_locals s' ns (pcs s' u)" "pop_locals s' ns (pcs s' u)"
      using others [of u] loc by (simp_all add: s')
    show "pushing (pcs s' u) = (push_mtx s' = Some u)" "popping (pcs s' u) = (pop_mtx s' = Some u)"
      using mutex_owner [OF inv, of u] p held by (cases "u = t"; simp add: s')+
    show "finite {t. pcs s' t \<noteq> Out}"
      using inv finite_upd [of s t p'] by (simp add: s' inv_on_def threads_ok_def del: fun_upd_apply)
  qed
  ultimately show ?thesis by (simp add: inv_on_def)
qed

lemma contents_append [simp]: "contents h (ns @ ms) = contents h ns @ contents h ms"
  by (simp add: contents_def)

lemma contents_Cons [simp]: "contents h (a # ns) = ring (the (h a)) @ contents h ns" "contents h [] = []"
  by (simp_all add: contents_def)

lemma contents_other: "a \<notin> set ns \<Longrightarrow> contents (h(a := x)) ns = contents h ns"
  by (induction ns) auto

lemma contents_same_ring:
  "ring nd = ring (the (h a)) \<Longrightarrow> contents (h(a \<mapsto> nd)) ns = contents h ns"
  by (induction ns) auto

lemma split_last: "ns \<noteq> [] \<Longrightarrow> distinct ns \<Longrightarrow> ns = butlast ns @ [last ns] \<and> last ns \<notin> set (butlast ns)"
  by (metis append_butlast_last_id distinct_append disjoint_insert(1) list.set(2))

lemma not_head_not_last:
  assumes "inv_on s ns" "nxt (node_at s (hd ns)) \<noteq> None"
  shows "hd ns \<noteq> last ns"
proof
  assume "hd ns = last ns"
  then have "heap s (last ns) = Some (node_at s (hd ns))" using chain_heap ends_in_chain assms(1) by metis
  with rings_linked_last [of "heap s" ns] assms show False by (simp add: inv_on_def chain_ok_def)
qed

lemma step_PushWrite:
  assumes inv: "inv_on s ns" and p: "pcs s t = PushWrite v tn pu"
    and s': "s' = goto t (PushAdd v tn pu)
      (s\<lparr>heap := (heap s)(last ns \<mapsto> (node_at s (last ns))\<lparr>buffer := (buffer (node_at s (last ns)))(pu mod RING_SIZE \<mapsto> v)\<rparr>)\<rparr>)"
  shows "good_step s Internal s'"
proof -
  let ?a = "last ns" let ?nd = "node_at s ?a"
  have loc: "tn = Some ?a" "pu = push_idx ?nd" "pu - pop_idx ?nd < RING_SIZE"
    using rings_locals [OF inv, of t] p by simp_all
  have a: "?a \<in> set ns" using ends_in_chain [OF inv] by simp
  note w = ring_write [OF chain_heap(2) [OF inv a] loc(2,3), of v]
  have far: "pop_idx ?nd mod RING_SIZE \<noteq> pu mod RING_SIZE" if "pop_idx ?nd < push_idx ?nd"
    using cells_differ [of "pop_idx ?nd" pu] that loc(2,3) by simp
  have others: "push_locals s' ns (pcs s u) \<and> pop_locals s' ns (pcs s u)" if "u \<noteq> t" for u
  proof -
    have "\<not> pushing (pcs s u)" using rings_holder_unique(1) [OF inv, of t u] p that by simp
    then show ?thesis
      using rings_locals [OF inv, of u] locals_trivial(1) far by (cases "pcs s u") (auto simp: s' drained_def)
  qed
  have "a \<in> set (tl ns) \<Longrightarrow> pop_idx (node_at s a) = 0 \<and> 1 \<le> push_idx (node_at s a)" for a
    using inv by (simp add: inv_on_def chain_ok_def)
  then have inv': "inv_on s' ns"
    by (intro update_inv [OF inv p a _ _ s']) (use w(2) others loc in \<open>simp_all add: s' popping_def\<close>)
  show ?thesis
  proof (rule good_stepI [OF inv inv', where t = t and p' = "PushAdd v tn pu"])
    show "options s' (pcs s u) \<subseteq> options s (pcs s u)" for u
      by (cases "pcs s u") (auto simp: s' drained_def)
  qed (use p contents_same_ring [where h = "heap s" and a = ?a and ns = ns, OF w(1)] in \<open>simp_all add: s' effect_def\<close>)
qed

lemma step_PushAdd:
  assumes inv: "inv_on s ns" and p: "pcs s t = PushAdd v tn pu"
    and s': "s' = goto t PushUnlock
      (s\<lparr>heap := (heap s)(last ns \<mapsto> (node_at s (last ns))\<lparr>push_idx := push_idx (node_at s (last ns)) + 1\<rparr>)\<rparr>)"
  shows "good_step s Internal s'"
proof -
  let ?a = "last ns" let ?nd = "node_at s ?a"
  have loc: "tn = Some ?a" "pu = push_idx ?nd" "pu - pop_idx ?nd < RING_SIZE" "buffer ?nd (pu mod RING_SIZE) = Some v"
    using rings_locals [OF inv, of t] p by auto
  have a: "?a \<in> set ns" using ends_in_chain [OF inv] by simp
  have "push_idx ?nd - pop_idx ?nd < RING_SIZE" "buffer ?nd (push_idx ?nd mod RING_SIZE) = Some v"
    using loc by simp_all
  note w = ring_add [OF chain_heap(2) [OF inv a] this]
  have le: "pop_idx ?nd \<le> push_idx ?nd" using chain_heap(2) [OF inv a] by (simp add: node_ok_def)
  have others: "push_locals s' ns (pcs s u) \<and> pop_locals s' ns (pcs s u)" if "u \<noteq> t" for u
  proof -
    have "\<not> pushing (pcs s u)" using rings_holder_unique(1) [OF inv, of t u] p that by simp
    then show ?thesis
      using rings_locals [OF inv, of u] locals_trivial(1) not_head_not_last [OF inv]
      by (cases "pcs s u") (auto simp: s' drained_def)
  qed
  have first: "a \<in> set (tl ns) \<Longrightarrow> pop_idx (node_at s a) = 0 \<and> 1 \<le> push_idx (node_at s a)" for a
    using inv by (simp add: inv_on_def chain_ok_def)
  have inv': "inv_on s' ns"
    by (rule update_inv [OF inv p a _ _ s']) (use w(2) others loc first [of ?a] in \<open>auto simp: s' popping_def\<close>)
  have ns: "ns = butlast ns @ [?a]" "?a \<notin> set (butlast ns)"
    using split_last [of ns] ends_in_chain [OF inv] inv by (auto simp: inv_on_def chain_ok_def)
  have "contents (heap s') ns = contents (heap s) ns @ [v]"
    by (subst (1 2) ns(1)) (simp add: s' w(1) contents_other ns(2))
  moreover have "options s' q \<subseteq> options s q" for q
    using le by (cases q) (auto simp: s' drained_def)
  ultimately show ?thesis
    by (intro good_stepI [OF inv inv', where t = t and p' = PushUnlock])
      (use p in \<open>auto simp: s' effect_def\<close>)
qed


lemma rings_owned_apart: "inv_on s ns \<Longrightarrow> a \<in> owned (pcs s u) \<Longrightarrow> a \<notin> set ns"
  unfolding inv_on_def memory_ok_def owns_ok_def by blast

lemma step_PopAdd:
  assumes inv: "inv_on s ns" and p: "pcs s t = PopAdd h v"
    and s': "s' = goto t (PopUnlock v)
      (s\<lparr>heap := (heap s)(hd ns \<mapsto> (node_at s (hd ns))\<lparr>pop_idx := pop_idx (node_at s (hd ns)) + 1\<rparr>)\<rparr>)"
  shows "good_step s Internal s'"
proof -
  let ?a = "hd ns" let ?nd = "node_at s ?a"
  have loc: "h = Some ?a" "pop_idx ?nd < push_idx ?nd" "buffer ?nd (pop_idx ?nd mod RING_SIZE) = Some v"
    using rings_locals [OF inv, of t] p by auto
  have a: "?a \<in> set ns" using ends_in_chain [OF inv] by simp
  note w = ring_take [OF chain_heap(2) [OF inv a] loc(2,3)]
  obtain ms where ns: "ns = ?a # ms" using ends_in_chain [OF inv] by (cases ns) auto
  have "distinct ns" using inv by (simp add: inv_on_def chain_ok_def)
  then have out: "?a \<notin> set ms" using ns by (metis distinct.simps(2))
  have mine: "\<not> popping (pcs s u)" if "u \<noteq> t" for u
    using rings_holder_unique(2) [OF inv, of t u] p that by (simp add: popping_def)
  have others: "push_locals s' ns (pcs s u) \<and> pop_locals s' ns (pcs s u)" if "u \<noteq> t" for u
  proof
    show "pop_locals s' ns (pcs s u)" using locals_trivial(2) [OF mine [OF that]] .
    show "push_locals s' ns (pcs s u)"
      using rings_locals [OF inv, of u] rings_owned_apart [OF inv, of ?a u] a by (cases "pcs s u") (auto simp: s')
  qed
  have inv': "inv_on s' ns"
  proof (rule update_inv [OF inv p a _ _ s'])
    show "?a \<in> set (tl ns) \<Longrightarrow> pop_idx (?nd\<lparr>pop_idx := pop_idx ?nd + 1\<rparr>) = 0 \<and> 1 \<le> push_idx (?nd\<lparr>pop_idx := pop_idx ?nd + 1\<rparr>)"
      using out ns by (metis list.sel(3))
  qed (use w(2) others in \<open>simp_all add: s' popping_def\<close>)
  have "contents (heap s) ns = v # contents (heap s') ns"
    by (subst (1 2) ns) (simp add: s' w(1) contents_other out)
  moreover have "options s' (pcs s u) \<subseteq> options s (pcs s u)" if "u \<noteq> t" for u
    using mine [OF that] by (cases "pcs s u") (auto simp: popping_def)
  ultimately show ?thesis
    by (intro good_stepI [OF inv inv', where t = t and p' = "PopUnlock v"]) (use p in \<open>auto simp: s' effect_def\<close>)
qed

text \<open>A step that changes memory outside the chain, that only this thread can reach.\<close>

lemma push_locals_outside:
  assumes "heap s' = (heap s)(a := x)" "last ns \<noteq> a" "a \<notin> owned p" "push_locals s ns p"
  shows "push_locals s' ns p"
proof (cases p)
  case p: (PushFill v tn nn)
  with assms(4) obtain b where "nn = Some b" by auto
  with assms(2-4) show ?thesis by (simp add: p assms(1))
next
  case p: (PushNewAdd v tn nn)
  with assms(4) obtain b where "nn = Some b" by auto
  with assms(2-4) show ?thesis by (simp add: p assms(1))
next
  case p: (PushNext v tn nn)
  with assms(4) obtain b where "nn = Some b" by auto
  with assms(2-4) show ?thesis by (simp add: p assms(1))
qed (use assms(2,4) in \<open>simp_all add: assms(1)\<close>)

lemma pop_locals_outside:
  assumes "heap s' = (heap s)(a := x)" "hd ns \<noteq> a"
  shows "pop_locals s' ns p = pop_locals s ns p"
proof (cases p)
  case (PopAdvance h n)
  show ?thesis using assms(2) unfolding PopAdvance by (auto simp: drained_def assms(1))
qed (use assms(2) in \<open>simp_all add: assms(1)\<close>)

lemma options_outside:
  assumes "heap s' = (heap s)(a := x)" "hd ns \<noteq> a" "pop_locals s ns p"
  shows "options s' p = options s p"
  using assms(2,3) by (cases p) (simp_all add: drained_def assms(1))

lemma private_step:
  assumes inv: "inv_on s ns" and p: "pcs s t = p" and a: "a \<notin> set ns" "a \<in> owned p \<or> heap s a = None"
    and s': "pcs s' = (pcs s)(t := p')" "heap s' = (heap s)(a := x)" "head s' = head s" "tail s' = tail s"
      "push_mtx s' = push_mtx s" "pop_mtx s' = pop_mtx s" "mallocs s' = []"
    and bound: "\<forall>b\<in>dom (heap s'). b < next_addr s'"
    and own: "owned p \<subseteq> {a}" "owned p' = (if x = None then {} else {a})"
    and link: "\<And>n. p \<noteq> PushSetTail n" "\<And>n. p' \<noteq> PushSetTail n"
    and held: "pushing p' = pushing p" "popping p' = popping p"
    and loc: "push_locals s' ns p'" "pop_locals s' ns p'"
    and same: "options s' p' = options s p"
  shows "good_step s Internal s' \<and> inv_on s' ns"
proof -
  have ends: "hd ns \<noteq> a" "last ns \<noteq> a" using ends_in_chain [OF inv] a(1) by auto
  have mem: "owns_ok (\<lambda>t. owned (pcs s t)) (dom (heap s)) (set ns)"
    using inv by (simp add: inv_on_def memory_ok_def)
  have far: "a \<notin> owned (pcs s u)" if "u \<noteq> t" for u
    using a(2)
  proof
    assume "a \<in> owned p"
    then show ?thesis using owns_disjoint [OF mem that, of a] p by simp
  next
    assume "heap s a = None"
    then show ?thesis using mem unfolding owns_ok_def by blast
  qed
  have others: "push_locals s' ns (pcs s u) \<and> pop_locals s' ns (pcs s u)" if "u \<noteq> t" for u
    using rings_locals [OF inv, of u] push_locals_outside [OF s'(2) ends(2) far [OF that]]
      pop_locals_outside [OF s'(2) ends(1)] by blast
  have "linked (heap s') ns = linked (heap s) ns"
    using a(1) by (intro linked_cong) (auto simp: s')
  moreover have "\<forall>b\<in>set ns. heap s' b = heap s b" using a(1) by (auto simp: s')
  moreover have "set (tl ns) \<subseteq> set ns" by (cases ns) auto
  ultimately have "chain_ok s' ns"
    using inv rings_linking_upd [OF p link] unfolding inv_on_def chain_ok_def s' by (auto simp del: fun_upd_apply)
  moreover have "memory_ok s' ns"
  proof -
    have "set ns \<subseteq> dom (heap s)" "owned p \<subseteq> dom (heap s)"
      using mem p unfolding owns_ok_def by blast+
    moreover have "owned p \<inter> set ns = {}" using a(1) own(1) by auto
    ultimately have "owns_ok (\<lambda>u. owned (pcs s' u)) (dom (heap s')) (set ns)"
      using a own p by (intro owns_step [OF mem, of t]) (auto simp: s' split: if_splits)
    then show ?thesis using s'(7) bound by (simp add: memory_ok_def)
  qed
  moreover have "threads_ok s' ns"
    unfolding threads_ok_def
  proof (intro conjI allI)
    fix u
    show "push_locals s' ns (pcs s' u)" "pop_locals s' ns (pcs s' u)"
      using others [of u] loc by (simp_all add: s'(1))
    show "pushing (pcs s' u) = (push_mtx s' = Some u)" "popping (pcs s' u) = (pop_mtx s' = Some u)"
      using mutex_owner [OF inv, of u] p held by (cases "u = t"; simp add: s')+
    show "finite {t. pcs s' t \<noteq> Out}"
      using inv finite_upd [of s t p'] by (simp add: s'(1) inv_on_def threads_ok_def del: fun_upd_apply)
  qed
  ultimately have inv': "inv_on s' ns" by (simp add: inv_on_def)
  have "options s' (pcs s u) \<subseteq> options s (pcs s u)" for u
    using options_outside [OF s'(2) ends(1)] rings_locals [OF inv, of u] by blast
  then have "good_step s Internal s'"
    by (intro good_stepI [OF inv inv' s'(1)])
      (use p same in \<open>auto simp: s'(2) contents_other a(1) effect_def\<close>)
  with inv' show ?thesis by blast
qed

end
