(* ===== verification/RingsQueue_Props.thy ===== *)
theory RingsQueue_Props
  imports RingsQueue_Inv
begin

text \<open>
  Every step of the queue of rings keeps its invariant and stands for a step of the atomic
  queue; the properties of the queue follow.
\<close>

section \<open>Steps that change the chain\<close>

lemma rings_step_PushNew:
  assumes inv: "inv_on s ns" and p: "pcs s t = PushNew v tn" and new: "node_new s = (nn, s1)"
  shows "good_step s Internal (goto t (PushFill v tn nn) s1)"
proof -
  let ?a = "next_addr s" let ?s = "goto t (PushFill v tn nn) s1"
  have s1: "nn = Some ?a" "s1 = s\<lparr>next_addr := Suc ?a, heap := (heap s)(?a \<mapsto> empty_node)\<rparr>"
    using new inv by (auto simp: node_new_def malloc_def inv_on_def memory_ok_def)
  have low: "\<forall>b\<in>dom (heap s). b < ?a" using inv by (simp add: inv_on_def memory_ok_def)
  then have fresh: "heap s ?a = None" by blast
  then have a: "?a \<notin> set ns" using chain_heap(1) [OF inv, of ?a] by auto
  have "tn = Some (last ns)" using rings_locals [OF inv, of t] p by simp
  then have "good_step s Internal ?s \<and> inv_on ?s ns"
    by (intro private_step [OF inv p a, where x = "Some empty_node" and p' = "PushFill v tn nn"])
      (use fresh low inv in \<open>auto simp: s1 popping_def inv_on_def memory_ok_def less_Suc_eq\<close>)
  then show ?thesis ..
qed

lemma memory_bound: "inv_on s ns \<Longrightarrow> mallocs s = [] \<and> (\<forall>b\<in>dom (heap s). b < next_addr s)"
  by (simp add: inv_on_def memory_ok_def)

lemma rings_owned_allocated: "inv_on s ns \<Longrightarrow> a \<in> owned (pcs s u) \<Longrightarrow> a \<in> dom (heap s)"
  unfolding inv_on_def memory_ok_def owns_ok_def by blast

lemma step_PushFill:
  assumes inv: "inv_on s ns" and p: "pcs s t = PushFill v tn nn"
  shows "\<exists>a nd s'. nn = Some a \<and> heap s a = Some nd \<and>
    s' = goto t (PushNewAdd v tn nn) (s\<lparr>heap := (heap s)(a \<mapsto> nd\<lparr>buffer := (buffer nd)(0 \<mapsto> v)\<rparr>)\<rparr>) \<and>
    good_step s Internal s'"
proof -
  obtain a where a: "nn = Some a" "heap s a = Some empty_node" "tn = Some (last ns)"
    using rings_locals [OF inv, of t] p by auto
  have own: "a \<in> owned (pcs s t)" using p a by simp
  let ?nd = "empty_node\<lparr>buffer := (buffer empty_node)(0 \<mapsto> v)\<rparr>"
  let ?s = "goto t (PushNewAdd v tn nn) (s\<lparr>heap := (heap s)(a \<mapsto> ?nd)\<rparr>)"
  have "good_step s Internal ?s \<and> inv_on ?s ns"
    by (rule private_step [OF inv p rings_owned_apart [OF inv own], where x = "Some ?nd" and p' = "PushNewAdd v tn nn"])
      (use memory_bound [OF inv] a own p in \<open>auto simp: popping_def empty_node_def\<close>)
  with a show ?thesis by blast
qed

lemma step_PushNewAdd:
  assumes inv: "inv_on s ns" and p: "pcs s t = PushNewAdd v tn nn"
  shows "\<exists>a nd s'. nn = Some a \<and> heap s a = Some nd \<and>
    s' = goto t (PushNext v tn nn) (s\<lparr>heap := (heap s)(a \<mapsto> nd\<lparr>push_idx := push_idx nd + 1\<rparr>)\<rparr>) \<and>
    good_step s Internal s'"
proof -
  obtain a where a: "nn = Some a" "heap s a = Some (empty_node\<lparr>buffer := [0 \<mapsto> v]\<rparr>)" "tn = Some (last ns)"
    using rings_locals [OF inv, of t] p by auto
  have own: "a \<in> owned (pcs s t)" using p a by simp
  let ?old = "empty_node\<lparr>buffer := [0 \<mapsto> v]\<rparr>"
  let ?nd = "?old\<lparr>push_idx := push_idx ?old + 1\<rparr>"
  let ?s = "goto t (PushNext v tn nn) (s\<lparr>heap := (heap s)(a \<mapsto> ?nd)\<rparr>)"
  have "good_step s Internal ?s \<and> inv_on ?s ns"
    by (rule private_step [OF inv p rings_owned_apart [OF inv own], where x = "Some ?nd" and p' = "PushNext v tn nn"])
      (use memory_bound [OF inv] a own p in \<open>auto simp: popping_def empty_node_def\<close>)
  with a show ?thesis by blast
qed

lemma rings_step_PopFree:
  assumes inv: "inv_on s ns" and p: "pcs s t = PopFree h"
  shows "\<exists>a nd s'. h = Some a \<and> heap s a = Some nd \<and>
    s' = goto t PopHead (s\<lparr>heap := (heap s)(a := None)\<rparr>) \<and> good_step s Internal s'"
proof -
  obtain a where a: "h = Some a"
    using rings_locals [OF inv, of t] p by auto
  have own: "a \<in> owned (pcs s t)" using p a by simp
  then obtain nd where nd: "heap s a = Some nd" using rings_owned_allocated [OF inv own] by blast
  let ?s = "goto t PopHead (s\<lparr>heap := (heap s)(a := None)\<rparr>)"
  have "good_step s Internal ?s \<and> inv_on ?s ns"
    by (rule private_step [OF inv p rings_owned_apart [OF inv own], where x = None and p' = PopHead])
      (use memory_bound [OF inv] a own p in \<open>auto simp: popping_def\<close>)
  with a nd show ?thesis by blast
qed

lemma step_PushSetTail:
  assumes inv: "inv_on s ns" and p: "pcs s t = PushSetTail nn"
  shows "good_step s Internal (goto t PushUnlock (s\<lparr>tail := nn\<rparr>))"
proof -
  let ?s = "goto t PushUnlock (s\<lparr>tail := nn\<rparr>)"
  have nn: "nn = Some (last ns)" using rings_locals [OF inv, of t] p by simp
  have same: "push_locals ?s ns x = push_locals s ns x" "pop_locals ?s ns x = pop_locals s ns x" for x
    by (cases x; simp add: drained_def)+
  have "chain_ok ?s ns" using inv nn by (simp add: inv_on_def chain_ok_def)
  moreover have "owned (((pcs s)(t := PushUnlock)) u) = owned (pcs s u)" for u using p by simp
  then have "memory_ok ?s ns"
    using inv by (simp add: inv_on_def memory_ok_def del: fun_upd_apply)
  moreover have "threads_ok ?s ns"
    unfolding threads_ok_def same
  proof (intro conjI allI)
    fix u
    show "push_locals s ns (pcs ?s u)" "pop_locals s ns (pcs ?s u)"
      using rings_locals [OF inv, of u] by simp_all
    show "pushing (pcs ?s u) = (push_mtx ?s = Some u)" "popping (pcs ?s u) = (pop_mtx ?s = Some u)"
      using mutex_owner [OF inv, of u] p by (cases "u = t"; simp add: popping_def)+
    show "finite {t. pcs ?s t \<noteq> Out}"
      using inv finite_upd [of s t PushUnlock] by (simp add: inv_on_def threads_ok_def del: fun_upd_apply)
  qed
  ultimately have "inv_on ?s ns" by (simp add: inv_on_def)
  then show ?thesis
    by (intro rings_quiet_step [OF inv, where t = t and p' = PushUnlock]) (use p in \<open>auto simp: effect_def\<close>)
qed


lemma step_PushNext:
  assumes inv: "inv_on s ns" and p: "pcs s t = PushNext v tn nn"
    and s': "s' = goto t (PushSetTail nn) (s\<lparr>heap := (heap s)(last ns \<mapsto> (node_at s (last ns))\<lparr>nxt := nn\<rparr>)\<rparr>)"
  shows "good_step s Internal s'"
proof -
  let ?l = "last ns" let ?nb = "empty_node\<lparr>buffer := [0 \<mapsto> v], push_idx := 1\<rparr>"
  obtain b where b: "nn = Some b" "heap s b = Some ?nb" using rings_locals [OF inv, of t] p by auto
  have own: "b \<in> owned (pcs s t)" using p b by simp
  have b_ns: "b \<notin> set ns" using rings_owned_apart [OF inv own] .
  have ends: "hd ns \<in> set ns" "?l \<in> set ns" "ns \<noteq> []" using ends_in_chain [OF inv] by auto
  obtain nl where nl: "heap s ?l = Some nl" "node_ok nl" using chain_heap [OF inv ends(2)] by auto
  have lk: "linked (heap s) ns" and dist: "distinct ns" using inv by (auto simp: inv_on_def chain_ok_def)
  have nxt: "nxt nl = None" using rings_linked_last [OF lk nl(1)] .
  have nb: "node_ok ?nb" "ring ?nb = [v]" "nxt ?nb = None"
    by (auto simp: node_ok_def ring_def empty_node_def RING_SIZE_def split: if_splits)
  have "linked (heap s') (ns @ [b])"
    using rings_linked_append [OF lk nl(1) dist b_ns b(2) nb(3)] nl by (simp add: s' b)
  moreover have "\<forall>a\<in>set ns. node_ok (node_at s' a)"
    using chain_heap(2) [OF inv] nl by (auto simp: s' node_ok_def)
  moreover have "node_at s' b = ?nb" using b b_ns ends(2) by (auto simp: s')
  moreover have "\<forall>a\<in>set (tl ns). pop_idx (node_at s' a) = 0 \<and> 1 \<le> push_idx (node_at s' a)"
    using inv by (auto simp: s' inv_on_def chain_ok_def)
  moreover have "tl (ns @ [b]) = tl ns @ [b]" "hd (ns @ [b]) = hd ns" using ends(3) by (cases ns; simp)+
  ultimately have "chain_ok s' (ns @ [b])"
    using inv dist b_ns nb(1) unfolding chain_ok_def inv_on_def
    by (auto simp: s' empty_node_def)
  moreover have "memory_ok s' (ns @ [b])"
  proof -
    have mem: "owns_ok (\<lambda>t. owned (pcs s t)) (dom (heap s)) (set ns)"
      using inv by (simp add: inv_on_def memory_ok_def)
    have "set ns \<subseteq> dom (heap s)" using mem unfolding owns_ok_def by blast
    moreover have "dom (heap s') = dom (heap s)" using nl by (auto simp: s')
    ultimately have "owns_ok (\<lambda>u. owned (pcs s' u)) (dom (heap s')) (set (ns @ [b]))"
      using p b by (intro owns_step [OF mem, of t]) (auto simp: s')
    then show ?thesis
      using memory_bound [OF inv] \<open>dom (heap s') = dom (heap s)\<close> by (simp add: memory_ok_def) (simp add: s')
  qed
  moreover have "threads_ok s' (ns @ [b])"
    unfolding threads_ok_def
  proof (intro conjI allI)
    fix u
    have "\<not> pushing (pcs s u)" if "u \<noteq> t" using rings_holder_unique(1) [OF inv, of t u] p that by simp
    then show "push_locals s' (ns @ [b]) (pcs s' u)"
      using locals_trivial(1) by (cases "u = t") (simp_all add: s' b)
    show "pop_locals s' (ns @ [b]) (pcs s' u)"
      using rings_locals [OF inv, of u] ends(3) nl nxt by (cases "u = t"; cases "pcs s u") (auto simp: s' drained_def)
    show "pushing (pcs s' u) = (push_mtx s' = Some u)" "popping (pcs s' u) = (pop_mtx s' = Some u)"
      using mutex_owner [OF inv, of u] p by (cases "u = t"; simp add: s' popping_def)+
    show "finite {t. pcs s' t \<noteq> Out}"
      using inv finite_upd [of s t "PushSetTail nn"] by (simp add: s' inv_on_def threads_ok_def del: fun_upd_apply)
  qed
  ultimately have inv': "inv_on s' (ns @ [b])" by (simp add: inv_on_def)
  have "contents (heap s') ns = contents (heap s) ns"
    using contents_same_ring [of "nl\<lparr>nxt := nn\<rparr>" "heap s" ?l ns] nl by (simp add: s' ring_def)
  moreover have "ring (node_at s' b) = [v]" using \<open>node_at s' b = ?nb\<close> nb(2) by simp
  ultimately have "contents (heap s') (ns @ [b]) = contents (heap s) ns @ [v]" by simp
  moreover have "options s' q \<subseteq> options s q" for q
    by (cases q) (auto simp: s' drained_def b)
  ultimately show ?thesis
    by (intro good_stepI [OF inv inv', where t = t and p' = "PushSetTail nn"]) (use p in \<open>auto simp: s' effect_def\<close>)
qed

lemma step_PopAdvance:
  assumes inv: "inv_on s ns" and p: "pcs s t = PopAdvance h n"
  shows "good_step s Internal (goto t (PopFree h) (s\<lparr>head := n\<rparr>))"
proof -
  let ?s = "goto t (PopFree h) (s\<lparr>head := n\<rparr>)"
  have loc: "h = Some (hd ns)" "n = nxt (node_at s (hd ns))" "n \<noteq> None" "drained s h"
    using rings_locals [OF inv, of t] p by auto
  obtain a ms where ns: "ns = a # ms" using ends_in_chain [OF inv] by (cases ns) auto
  have lk: "linked (heap s) ns" and dist: "distinct ns" using inv by (auto simp: inv_on_def chain_ok_def)
  obtain nd where nd: "heap s a = Some nd" "node_ok nd" using chain_heap [OF inv, of a] ns by auto
  have ms: "ms \<noteq> []" "n = Some (hd ms)"
    using rings_linked_next [OF lk, of nd] loc nd ns by (auto split: list.splits)
  have out: "a \<notin> set ms" using dist ns by simp
  have mine: "\<not> popping (pcs s u)" if "u \<noteq> t" for u
    using rings_holder_unique(2) [OF inv, of t u] p that by (simp add: popping_def)
  have "chain_ok ?s ms"
  proof -
    have "linked (heap s) ms" using rings_linked_tl [OF lk] ns ms by simp
    moreover have "set (tl ms) \<subseteq> set (tl ns)" using ns by (cases ms) auto
    ultimately show ?thesis
      using inv ns ms rings_linking_upd [OF p, of "PopFree h"] unfolding inv_on_def chain_ok_def
      by (auto simp del: fun_upd_apply)
  qed
  moreover have "memory_ok ?s ms"
  proof -
    have mem: "owns_ok (\<lambda>t. owned (pcs s t)) (dom (heap s)) (set ns)"
      using inv by (simp add: inv_on_def memory_ok_def)
    have "set ns \<subseteq> dom (heap s)" using mem unfolding owns_ok_def by blast
    then have "owns_ok (\<lambda>u. owned (pcs ?s u)) (dom (heap ?s)) (set ms)"
      using p loc(1) ns out by (intro owns_step [OF mem, of t]) auto
    then show ?thesis using memory_bound [OF inv] by (simp add: memory_ok_def)
  qed
  moreover have "threads_ok ?s ms"
    unfolding threads_ok_def
  proof (intro conjI allI)
    fix u
    show "push_locals ?s ms (pcs ?s u)"
      using rings_locals [OF inv, of u] ns ms by (cases "u = t"; cases "pcs s u") auto
    show "pop_locals ?s ms (pcs ?s u)"
      using mine [of u] locals_trivial(2) loc(1) by (cases "u = t") simp_all
    show "pushing (pcs ?s u) = (push_mtx ?s = Some u)" "popping (pcs ?s u) = (pop_mtx ?s = Some u)"
      using mutex_owner [OF inv, of u] p by (cases "u = t"; simp add: popping_def)+
    show "finite {t. pcs ?s t \<noteq> Out}"
      using inv finite_upd [of s t "PopFree h"] by (simp add: inv_on_def threads_ok_def del: fun_upd_apply)
  qed
  ultimately have inv': "inv_on ?s ms" by (simp add: inv_on_def)
  have "ring nd = []" using ring_empty [OF nd(2)] loc(1,4) nd ns by (simp add: drained_def)
  then have "contents (heap s) ns = contents (heap s) ms" using ns nd by simp
  moreover have "options ?s q = options s q" for q
    by (rule options_heap) simp
  ultimately show ?thesis
    by (intro good_stepI [OF inv inv', where t = t and p' = "PopFree h"]) (use p in \<open>simp_all add: effect_def\<close>)
qed


section \<open>All steps\<close>

lemma head_read:
  assumes "inv_on s ns" and "h = Some (hd ns)"
  shows "read_node h s f = f (node_at s (hd ns))" "write_node h s g k = k (s\<lparr>heap := (heap s)(hd ns \<mapsto> g (node_at s (hd ns)))\<rparr>)"
proof -
  obtain nd where "heap s (hd ns) = Some nd" using chain_heap(1) [OF assms(1)] ends_in_chain [OF assms(1)] by blast
  then show "read_node h s f = f (node_at s (hd ns))"
    "write_node h s g k = k (s\<lparr>heap := (heap s)(hd ns \<mapsto> g (node_at s (hd ns)))\<rparr>)"
    by (simp_all add: read_node_def write_node_def assms(2))
qed

lemma tail_read:
  assumes "inv_on s ns" and "h = Some (last ns)"
  shows "read_node h s f = f (node_at s (last ns))" "write_node h s g k = k (s\<lparr>heap := (heap s)(last ns \<mapsto> g (node_at s (last ns)))\<rparr>)"
proof -
  obtain nd where "heap s (last ns) = Some nd" using chain_heap(1) [OF assms(1)] ends_in_chain [OF assms(1)] by blast
  then show "read_node h s f = f (node_at s (last ns))"
    "write_node h s g k = k (s\<lparr>heap := (heap s)(last ns \<mapsto> g (node_at s (last ns)))\<rparr>)"
    by (simp_all add: read_node_def write_node_def assms(2))
qed

text \<open>A step inside an operation that holds its lock and only changes the place.\<close>

lemma move_in_place:
  assumes inv: "inv_on s ns" and p: "pcs s t = p" and own: "owned p = {}" "owned p' = {}"
    and loc: "push_locals s ns p'" "pop_locals s ns p'"
    and link: "\<And>n. p \<noteq> PushSetTail n" "\<And>n. p' \<noteq> PushSetTail n"
    and held: "pushing p' = pushing p" "popping p' = popping p"
    and self: "\<And>\<phi>'. \<phi>' \<in> options s p' \<Longrightarrow>
      \<exists>\<phi>\<in>options s p. effect Internal t (contents (heap s) ns) \<phi> (contents (heap s) ns) \<phi>'"
  shows "good_step s Internal (goto t p' s)"
proof -
  have "inv_on (goto t p' s) ns"
    by (rule rings_quiet_inv [OF inv p own, where pm = "push_mtx s" and qm = "pop_mtx s"])
      (use mutex_owner [OF inv, of t] p held loc link in \<open>auto split: if_splits\<close>)
  then show ?thesis
    using p self by (intro rings_quiet_step [OF inv, where t = t and p' = p']) simp_all
qed

text \<open>Taking a lock, and returning.\<close>

lemma lock_step:
  assumes inv: "inv_on s ns" and p: "pcs s t = p" and own: "owned p = {}" "owned p' = {}"
    and loc: "push_locals s ns p'" "pop_locals s ns p'"
    and link: "\<And>n. p \<noteq> PushSetTail n" "\<And>n. p' \<noteq> PushSetTail n"
    and pm: "pm = (if pushing p' then Some t else if pushing p then None else push_mtx s)"
    and qm: "qm = (if popping p' then Some t else if popping p then None else pop_mtx s)"
    and free: "pushing p' \<Longrightarrow> push_mtx s = None" "popping p' \<Longrightarrow> pop_mtx s = None"
    and self: "\<And>\<phi>'. \<phi>' \<in> options s p' \<Longrightarrow>
      \<exists>\<phi>\<in>options s p. effect l t (contents (heap s) ns) \<phi> (contents (heap s) ns) \<phi>'"
  shows "good_step s l (goto t p' (s\<lparr>push_mtx := pm, pop_mtx := qm\<rparr>))"
proof -
  have "inv_on (goto t p' (s\<lparr>push_mtx := pm, pop_mtx := qm\<rparr>)) ns"
    by (rule rings_quiet_inv [OF inv p own refl loc link pm qm]) (simp_all add: free)
  then show ?thesis
    using p self by (intro rings_quiet_step [OF inv, where t = t and p' = p']) simp_all
qed

lemma rings_push_sim:
  assumes inv: "inv_on s ns" and "\<not> in_pop (pcs s t)" "\<not> in_is_empty (pcs s t)" "pcs s t \<noteq> Out"
  shows "RingsQueue_push t (pcs s t) s \<noteq> Undefined \<and>
    (\<forall>l s'. RingsQueue_push t (pcs s t) s = Move l s' \<longrightarrow> good_step s l s')"
  using assms(2-)
proof (cases "pcs s t")
  case p: (PushLock v)
  have "good_step s Internal (goto t (PushTailNode v) (s\<lparr>push_mtx := Some t, pop_mtx := pop_mtx s\<rparr>))"
    if "push_mtx s = None"
    by (rule lock_step [OF inv p]) (simp_all add: that popping_def effect_def)
  then show ?thesis using p by (simp add: RingsQueue_push_def)
next
  case p: (PushTailNode v)
  have "\<forall>u n. pcs s u \<noteq> PushSetTail n"
    using rings_holder_unique(1) [OF inv, of t] p by (metis pushing.simps(1,11) pc.distinct(1) pc.simps)
  then have "tail s = Some (last ns)" using inv by (simp add: inv_on_def chain_ok_def)
  then have "good_step s Internal (goto t (PushLoadPush v (tail s)) s)"
    by (intro move_in_place [OF inv p]) (simp_all add: popping_def effect_def)
  then show ?thesis using p by (simp add: RingsQueue_push_def)
next
  case p: (PushLoadPush v tn)
  have loc: "tn = Some (last ns)" using rings_locals [OF inv, of t] p by simp
  then have "good_step s Internal (goto t (PushLoadPop v tn (push_idx (node_at s (last ns)))) s)"
    by (intro move_in_place [OF inv p]) (simp_all add: popping_def effect_def)
  then show ?thesis using p by (simp add: RingsQueue_push_def tail_read [OF inv loc])
next
  case p: (PushLoadPop v tn pu)
  have loc: "tn = Some (last ns)" "pu = push_idx (node_at s (last ns))" using rings_locals [OF inv, of t] p by simp_all
  then have "good_step s Internal (goto t (PushTest v tn pu (pop_idx (node_at s (last ns)))) s)"
    by (intro move_in_place [OF inv p]) (simp_all add: popping_def effect_def)
  then show ?thesis using p by (simp add: RingsQueue_push_def tail_read [OF inv loc(1)])
next
  case p: (PushTest v tn pu po)
  have loc: "tn = Some (last ns)" "pu = push_idx (node_at s (last ns))" "po \<le> pop_idx (node_at s (last ns))"
    using rings_locals [OF inv, of t] p by simp_all
  then have "good_step s Internal (goto t (if pu - po < RING_SIZE then PushWrite v tn pu else PushNew v tn) s)"
    by (intro move_in_place [OF inv p]) (auto simp: popping_def effect_def split: if_splits)
  then show ?thesis using p by (simp add: RingsQueue_push_def)
next
  case p: (PushWrite v tn pu)
  have loc: "tn = Some (last ns)" using rings_locals [OF inv, of t] p by simp
  from step_PushWrite [OF inv p refl] show ?thesis
    using p by (simp add: RingsQueue_push_def tail_read [OF inv loc])
next
  case p: (PushAdd v tn pu)
  have loc: "tn = Some (last ns)" using rings_locals [OF inv, of t] p by simp
  from step_PushAdd [OF inv p refl] show ?thesis
    using p by (simp add: RingsQueue_push_def tail_read [OF inv loc])
next
  case p: (PushNew v tn)
  obtain nn s1 where "node_new s = (nn, s1)" by fastforce
  with rings_step_PushNew [OF inv p this] show ?thesis using p by (simp add: RingsQueue_push_def)
next
  case p: (PushFill v tn nn)
  from step_PushFill [OF inv p] show ?thesis using p by (auto simp: RingsQueue_push_def write_node_def)
next
  case p: (PushNewAdd v tn nn)
  from step_PushNewAdd [OF inv p] show ?thesis using p by (auto simp: RingsQueue_push_def write_node_def)
next
  case p: (PushNext v tn nn)
  have loc: "tn = Some (last ns)" using rings_locals [OF inv, of t] p by simp
  from step_PushNext [OF inv p refl] show ?thesis
    using p by (simp add: RingsQueue_push_def tail_read [OF inv loc])
next
  case p: (PushSetTail nn)
  from step_PushSetTail [OF inv p] show ?thesis using p by (simp add: RingsQueue_push_def)
next
  case p: PushUnlock
  have "good_step s (Return t Unit) (goto t Out (s\<lparr>push_mtx := None, pop_mtx := pop_mtx s\<rparr>))"
    by (rule lock_step [OF inv p]) (simp_all add: popping_def effect_def)
  then show ?thesis using p by (simp add: RingsQueue_push_def)
qed simp_all


lemma alone_contents:
  assumes "inv_on s ns" and "nxt (node_at s (hd ns)) = None"
  shows "contents (heap s) ns = ring (node_at s (hd ns))"
proof -
  obtain a ms where ns: "ns = a # ms" using ends_in_chain [OF assms(1)] by (cases ns) auto
  obtain nd where nd: "heap s a = Some nd" using chain_heap(1) [OF assms(1), of a] ns by auto
  have "linked (heap s) ns" using assms(1) by (simp add: inv_on_def chain_ok_def)
  from rings_linked_next [OF this, of nd] nd ns assms(2) have "ms = []" by (auto split: list.splits)
  with ns show ?thesis by simp
qed

lemma second_contents:
  assumes "inv_on s ns" and "nxt (node_at s (hd ns)) \<noteq> None"
  shows "contents (heap s) ns \<noteq> []"
proof -
  obtain a ms where ns: "ns = a # ms" using ends_in_chain [OF assms(1)] by (cases ns) auto
  obtain nd where nd: "heap s a = Some nd" using chain_heap(1) [OF assms(1), of a] ns by auto
  have "linked (heap s) ns" using assms(1) by (simp add: inv_on_def chain_ok_def)
  from rings_linked_next [OF this, of nd] nd ns assms(2) obtain b ls where ms: "ms = b # ls"
    by (auto split: list.splits)
  then have "pop_idx (node_at s b) = 0" "1 \<le> push_idx (node_at s b)" "node_ok (node_at s b)"
    using assms(1) chain_heap(2) [OF assms(1), of b] ns by (auto simp: inv_on_def chain_ok_def)
  then have "ring (node_at s b) \<noteq> []" using ring_empty by auto
  with ns ms show ?thesis by simp
qed

lemma head_contents:
  assumes "inv_on s ns" and "pop_idx (node_at s (hd ns)) \<noteq> push_idx (node_at s (hd ns))"
  shows "contents (heap s) ns \<noteq> []"
proof -
  obtain a ms where ns: "ns = a # ms" using ends_in_chain [OF assms(1)] by (cases ns) auto
  have "ring (node_at s a) \<noteq> []" using ring_empty chain_heap(2) [OF assms(1), of a] assms(2) ns by auto
  with ns show ?thesis by simp
qed

lemma head_drained:
  assumes "inv_on s ns" and "nxt (node_at s (hd ns)) = None" and "pop_idx (node_at s (hd ns)) = push_idx (node_at s (hd ns))"
  shows "contents (heap s) ns = []"
  using alone_contents [OF assms(1,2)] ring_empty chain_heap(2) [OF assms(1)] ends_in_chain [OF assms(1)] assms(3)
  by simp

lemma rings_pop_sim:
  assumes inv: "inv_on s ns" and "in_pop (pcs s t)"
  shows "RingsQueue_pop t (pcs s t) s \<noteq> Undefined \<and>
    (\<forall>l s'. RingsQueue_pop t (pcs s t) s = Move l s' \<longrightarrow> good_step s l s')"
  using assms(2-)
proof (cases "pcs s t")
  case p: PopLock
  have "good_step s Internal (goto t PopHead (s\<lparr>push_mtx := push_mtx s, pop_mtx := Some t\<rparr>))"
    if "pop_mtx s = None"
    by (rule lock_step [OF inv p]) (simp_all add: that popping_def effect_def)
  then show ?thesis using p by (simp add: RingsQueue_pop_def)
next
  case p: PopHead
  have "head s = Some (hd ns)" using inv by (simp add: inv_on_def chain_ok_def)
  then have "good_step s Internal (goto t (PopLoadNext (head s)) s)"
    by (intro move_in_place [OF inv p]) (simp_all add: popping_def effect_def)
  then show ?thesis using p by (simp add: RingsQueue_pop_def)
next
  case p: (PopLoadNext h)
  have loc: "h = Some (hd ns)" using rings_locals [OF inv, of t] p by simp
  have "good_step s Internal (goto t (PopLoadPop h (nxt (node_at s (hd ns)))) s)"
    using head_drained [OF inv] loc
    by (intro move_in_place [OF inv p]) (auto simp: popping_def effect_def drained_def split: if_splits)
  then show ?thesis using p by (simp add: RingsQueue_pop_def head_read [OF inv loc])
next
  case p: (PopLoadPop h n)
  have loc: "h = Some (hd ns)" "n \<noteq> None \<Longrightarrow> n = nxt (node_at s (hd ns))" using rings_locals [OF inv, of t] p by auto
  have "good_step s Internal (goto t (PopLoadPush h n (pop_idx (node_at s (hd ns)))) s)"
    using loc by (intro move_in_place [OF inv p]) (auto simp: popping_def effect_def split: if_splits)
  then show ?thesis using p by (simp add: RingsQueue_pop_def head_read [OF inv loc(1)])
next
  case p: (PopLoadPush h n po)
  have loc: "h = Some (hd ns)" "n \<noteq> None \<Longrightarrow> n = nxt (node_at s (hd ns))" "po = pop_idx (node_at s (hd ns))"
    using rings_locals [OF inv, of t] p by auto
  have "pop_idx (node_at s (hd ns)) \<le> push_idx (node_at s (hd ns))"
    using chain_heap(2) [OF inv] ends_in_chain [OF inv] by (auto simp: node_ok_def)
  then have "good_step s Internal (goto t (PopTest h n po (push_idx (node_at s (hd ns)))) s)"
    using loc by (intro move_in_place [OF inv p]) (auto simp: popping_def effect_def drained_def split: if_splits)
  then show ?thesis using p by (simp add: RingsQueue_pop_def head_read [OF inv loc(1)])
next
  case p: (PopTest h n po pu)
  have loc: "h = Some (hd ns)" "n \<noteq> None \<Longrightarrow> n = nxt (node_at s (hd ns)) \<and> pu = push_idx (node_at s (hd ns))"
    "po = pop_idx (node_at s (hd ns))" "po \<le> pu" "pu \<le> push_idx (node_at s (hd ns))"
    using rings_locals [OF inv, of t] p by auto
  consider "po = pu" "n = None" | "po = pu" "n \<noteq> None" | "po \<noteq> pu" by blast
  then show ?thesis
  proof cases
    case 1
    have "good_step s (Return t (Value EMPTY_VALUE)) (goto t Out (s\<lparr>push_mtx := push_mtx s, pop_mtx := None\<rparr>))"
      by (rule lock_step [OF inv p]) (simp_all add: popping_def effect_def 1)
    then show ?thesis using p 1 by (simp add: RingsQueue_pop_def)
  next
    case 2
    have "good_step s Internal (goto t (PopAdvance h n) s)"
      using loc 2 by (intro move_in_place [OF inv p]) (auto simp: popping_def effect_def drained_def)
    then show ?thesis using p 2 by (auto simp: RingsQueue_pop_def)
  next
    case 3
    have "good_step s Internal (goto t (PopRead h po) s)"
      using loc 3 by (intro move_in_place [OF inv p]) (auto simp: popping_def effect_def)
    then show ?thesis using p 3 by (simp add: RingsQueue_pop_def)
  qed
next
  case p: (PopAdvance h n)
  from step_PopAdvance [OF inv p] show ?thesis using p by (simp add: RingsQueue_pop_def)
next
  case p: (PopFree h)
  from rings_step_PopFree [OF inv p] show ?thesis using p by (auto simp: RingsQueue_pop_def read_node_def)
next
  case p: (PopRead h po)
  have loc: "h = Some (hd ns)" "po = pop_idx (node_at s (hd ns))" "po < push_idx (node_at s (hd ns))"
    using rings_locals [OF inv, of t] p by auto
  then obtain v where v: "buffer (node_at s (hd ns)) (po mod RING_SIZE) = Some v"
    using chain_heap(2) [OF inv] ends_in_chain [OF inv] by (auto simp: node_ok_def)
  have "good_step s Internal (goto t (PopAdd h v) s)"
    using loc v by (intro move_in_place [OF inv p]) (auto simp: popping_def effect_def)
  then show ?thesis using p v by (simp add: RingsQueue_pop_def head_read [OF inv loc(1)])
next
  case p: (PopAdd h v)
  have loc: "h = Some (hd ns)" using rings_locals [OF inv, of t] p by simp
  from step_PopAdd [OF inv p refl] show ?thesis
    using p by (simp add: RingsQueue_pop_def head_read [OF inv loc])
next
  case p: (PopUnlock v)
  have "good_step s (Return t (Value v)) (goto t Out (s\<lparr>push_mtx := push_mtx s, pop_mtx := None\<rparr>))"
    by (rule lock_step [OF inv p]) (simp_all add: popping_def effect_def)
  then show ?thesis using p by (simp add: RingsQueue_pop_def)
qed simp_all

lemma rings_is_empty_sim:
  assumes inv: "inv_on s ns" and "in_is_empty (pcs s t)"
  shows "RingsQueue_is_empty t (pcs s t) s \<noteq> Undefined \<and>
    (\<forall>l s'. RingsQueue_is_empty t (pcs s t) s = Move l s' \<longrightarrow> good_step s l s')"
  using assms(2-)
proof (cases "pcs s t")
  case p: EmptyLock
  have "good_step s Internal (goto t EmptyHead (s\<lparr>push_mtx := push_mtx s, pop_mtx := Some t\<rparr>))"
    if "pop_mtx s = None"
    by (rule lock_step [OF inv p]) (simp_all add: that popping_def effect_def)
  then show ?thesis using p by (simp add: RingsQueue_is_empty_def)
next
  case p: EmptyHead
  have "head s = Some (hd ns)" using inv by (simp add: inv_on_def chain_ok_def)
  then have "good_step s Internal (goto t (EmptyLoadPush (head s)) s)"
    by (intro move_in_place [OF inv p]) (simp_all add: popping_def effect_def)
  then show ?thesis using p by (simp add: RingsQueue_is_empty_def)
next
  case p: (EmptyLoadPush h)
  have loc: "h = Some (hd ns)" using rings_locals [OF inv, of t] p by simp
  have "good_step s Internal (goto t (EmptyLoadPop h (push_idx (node_at s (hd ns)))) s)"
    using head_drained [OF inv] head_contents [OF inv] loc
    by (intro move_in_place [OF inv p]) (auto simp: popping_def effect_def split: if_splits)
  then show ?thesis using p by (simp add: RingsQueue_is_empty_def head_read [OF inv loc])
next
  case p: (EmptyLoadPop h pu)
  have loc: "h = Some (hd ns)" using rings_locals [OF inv, of t] p by simp
  have "good_step s Internal (goto t (EmptyLoadNext h pu (pop_idx (node_at s (hd ns)))) s)"
    using loc by (intro move_in_place [OF inv p]) (auto simp: popping_def effect_def split: if_splits)
  then show ?thesis using p by (simp add: RingsQueue_is_empty_def head_read [OF inv loc])
next
  case p: (EmptyLoadNext h pu po)
  have loc: "h = Some (hd ns)" using rings_locals [OF inv, of t] p by simp
  have "good_step s Internal (goto t (EmptyUnlock (pu = po \<and> nxt (node_at s (hd ns)) = None)) s)"
    using loc second_contents [OF inv]
    by (intro move_in_place [OF inv p]) (auto simp: popping_def effect_def split: if_splits)
  then show ?thesis using p by (simp add: RingsQueue_is_empty_def head_read [OF inv loc])
next
  case p: (EmptyUnlock b)
  have "good_step s (Return t (Answer b)) (goto t Out (s\<lparr>push_mtx := push_mtx s, pop_mtx := None\<rparr>))"
    by (rule lock_step [OF inv p]) (simp_all add: popping_def effect_def)
  then show ?thesis using p by (simp add: RingsQueue_is_empty_def)
qed simp_all


lemma step_good:
  assumes "queue_inv s"
  shows "step t s \<noteq> Undefined" and "step t s = Move l s' \<Longrightarrow> good_step s l s'"
proof -
  obtain ns where inv: "inv_on s ns" using assms by (auto simp: queue_inv_def)
  show "step t s \<noteq> Undefined" "step t s = Move l s' \<Longrightarrow> good_step s l s'"
    using rings_push_sim [OF inv, of t] rings_pop_sim [OF inv, of t] rings_is_empty_sim [OF inv, of t]
    unfolding step_def by (auto split: if_splits)
qed

lemma start_good:
  assumes "queue_inv s" and st: "start t c s = Some s'"
  shows "queue_inv s'" and "a' \<in> states s' \<Longrightarrow> \<exists>a\<in>states s. atomic_step queue_spec a (Call t c) a'"
proof -
  obtain ns where inv: "inv_on s ns" using assms(1) by (auto simp: queue_inv_def)
  from st have out: "pcs s t = Out" and s': "s' = goto t (first_pc c) s"
    by (auto simp: start_def split: if_splits)
  have inv': "inv_on s' ns"
    by (rule rings_quiet_inv [OF inv out, where p' = "first_pc c" and pm = "push_mtx s" and qm = "pop_mtx s"])
      (simp_all add: s' first_pc_def popping_def split: queue_op.splits)
  then show "queue_inv s'" by (auto simp: queue_inv_def)
  assume "a' \<in> states s'"
  then obtain q ph ms where a': "a' = (q, ph)" "inv_on s' ms" "q = contents (heap s') ms"
    "\<forall>u. ph u \<in> options s' (pcs s' u)"
    by (auto simp: states_def)
  have "ms = ns"
    using a'(2) inv' linked_unique [of "heap s'" ms ns] unfolding inv_on_def chain_ok_def by auto
  moreover have opt: "ph u \<in> options s (pcs s' u)" for u
    using a'(4) options_heap [of s' s] by (simp add: s')
  have pend: "ph t = Pending c" using opt [of t] by (auto simp: s' first_pc_def split: queue_op.splits)
  have "(ph(t := Idle)) u \<in> options s (pcs s u)" for u
    using opt [of u] out by (auto simp: s')
  ultimately have "(q, ph(t := Idle)) \<in> states s"
    using inv a'(3) by (auto simp: states_def s')
  moreover have "atomic_step queue_spec (q, ph(t := Idle)) (Call t c) (q, (ph(t := Idle))(t := Pending c))"
    by (rule atomic_step.call) simp
  then have "atomic_step queue_spec (q, ph(t := Idle)) (Call t c) a'"
    using pend unfolding a'(1) by (metis fun_upd_triv fun_upd_upd)
  ultimately show "\<exists>a\<in>states s. atomic_step queue_spec a (Call t c) a'" by blast
qed

lemma options_nonempty: "options s p \<noteq> {}"
  by (cases p) auto

section \<open>Every call returns\<close>

text \<open>A pop goes through its loop once for every node it frees, so every allocated node counts for
  one more round.\<close>

fun steps_left :: "pc \<Rightarrow> nat" where
  "steps_left Out = 0"
| "steps_left (PushLock v) = 18"
| "steps_left (PushTailNode v) = 17"
| "steps_left (PushLoadPush v tn) = 16"
| "steps_left (PushLoadPop v tn pu) = 15"
| "steps_left (PushTest v tn pu po) = 14"
| "steps_left (PushWrite v tn pu) = 3"
| "steps_left (PushAdd v tn pu) = 2"
| "steps_left (PushNew v tn) = 13"
| "steps_left (PushFill v tn nn) = 5"
| "steps_left (PushNewAdd v tn nn) = 4"
| "steps_left (PushNext v tn nn) = 3"
| "steps_left (PushSetTail nn) = 2"
| "steps_left PushUnlock = 1"
| "steps_left PopLock = 9"
| "steps_left PopHead = 8"
| "steps_left (PopLoadNext h) = 7"
| "steps_left (PopLoadPop h n) = 6"
| "steps_left (PopLoadPush h n po) = 5"
| "steps_left (PopTest h n po pu) = 4"
| "steps_left (PopAdvance h n) = 3"
| "steps_left (PopFree h) = 2"
| "steps_left (PopRead h po) = 3"
| "steps_left (PopAdd h v) = 2"
| "steps_left (PopUnlock v) = 1"
| "steps_left EmptyLock = 6"
| "steps_left EmptyHead = 5"
| "steps_left (EmptyLoadPush h) = 4"
| "steps_left (EmptyLoadPop h pu) = 3"
| "steps_left (EmptyLoadNext h pu po) = 2"
| "steps_left (EmptyUnlock b) = 1"

definition rank :: "queue \<Rightarrow> nat" where
  "rank s = total steps_left (pcs s) + 7 * card (dom (heap s))"

definition all_out :: "queue \<Rightarrow> bool" where
  "all_out s \<longleftrightarrow> (\<forall>t. pcs s t = Out)"

lemmas step_defs = step_def RingsQueue_push_def RingsQueue_pop_def RingsQueue_is_empty_def
  read_node_def write_node_def

lemma node_new_size:
  assumes "finite (dom (heap s))" and "node_new s = (n, s')"
  shows "pcs s' = pcs s \<and> card (dom (heap s')) \<le> card (dom (heap s)) + 1"
  using assms card_insert_le_m1 [of "Suc (card (dom (heap s)))"]
  by (auto simp: node_new_def malloc_def card_insert_if split: list.splits if_splits)

lemma rings_step_pc:
  assumes fin: "finite (dom (heap s))" and mv: "step t s = Move l s'"
  shows "\<exists>p. pcs s' = (pcs s)(t := p) \<and>
    steps_left p + 7 * card (dom (heap s')) < steps_left (pcs s t) + 7 * card (dom (heap s))"
proof (cases "pcs s t")
  case (PushNew v tn)
  obtain n s1 where n: "node_new s = (n, s1)" by fastforce
  with mv PushNew have "s' = goto t (PushFill v tn n) s1" by (simp add: step_defs)
  with node_new_size [OF fin n] PushNew show ?thesis by auto
next
  case (PopFree h)
  with mv obtain a nd where a: "h = Some a" "heap s a = Some nd"
    and s': "s' = goto t PopHead (s\<lparr>heap := (heap s)(a := None)\<rparr>)"
    by (auto simp: step_defs split: option.splits)
  then have "0 < card (dom (heap s))" using fin by (metis card_gt_0_iff domI empty_iff)
  moreover have "card (dom (heap s) - {a}) = card (dom (heap s)) - 1"
    using a fin by (simp add: card_Diff_singleton domI)
  ultimately show ?thesis using s' PopFree by auto
qed (use mv in \<open>auto simp: step_defs insert_absorb domI split: if_splits option.splits\<close>)

lemma rings_not_blocked: "pushing (pcs s t) \<or> popping (pcs s t) \<Longrightarrow> step t s \<noteq> Blocked"
  by (cases "pcs s t") (auto simp: step_defs popping_def split: option.splits prod.splits)

lemma rings_lock_free: "push_mtx s = None \<Longrightarrow> pop_mtx s = None \<Longrightarrow> pcs s t \<noteq> Out \<Longrightarrow> step t s \<noteq> Blocked"
  by (cases "pcs s t") (auto simp: step_defs split: option.splits prod.splits)

lemma rings_rank_step:
  assumes "queue_inv s" and "step t s = Move l s'"
  shows "rank s' < rank s"
proof -
  obtain ns where inv: "inv_on s ns" using assms(1) by (auto simp: queue_inv_def)
  have "dom (heap s) \<subseteq> {..<next_addr s}" using inv by (auto simp: inv_on_def memory_ok_def)
  then have fin: "finite (dom (heap s))" by (rule finite_subset) simp
  obtain p where p: "pcs s' = (pcs s)(t := p)"
    "steps_left p + 7 * card (dom (heap s')) < steps_left (pcs s t) + 7 * card (dom (heap s))"
    using rings_step_pc [OF fin assms(2)] by blast
  have "finite {t. pcs s t \<noteq> Out}" using inv by (simp add: inv_on_def threads_ok_def)
  then have "finite {t. steps_left (pcs s t) \<noteq> 0}" by (rule rev_finite_subset) auto
  from total_update [where a = t and x = p, OF this] p show ?thesis by (simp add: rank_def)
qed

lemma rings_some_step:
  assumes "queue_inv s" and "\<not> all_out s"
  shows "\<exists>t l s'. step t s = Move l s'"
proof -
  obtain ns where inv: "inv_on s ns" using assms(1) by (auto simp: queue_inv_def)
  obtain u where u: "pcs s u \<noteq> Out" using assms(2) by (auto simp: all_out_def)
  have "\<exists>t. step t s \<noteq> Blocked"
  proof (cases "push_mtx s = None \<and> pop_mtx s = None")
    case True
    then show ?thesis using rings_lock_free u by blast
  next
    case False
    then obtain t where "push_mtx s = Some t \<or> pop_mtx s = Some t" by auto
    then show ?thesis using rings_not_blocked mutex_owner [OF inv, of t] by blast
  qed
  then show ?thesis using step_good(1) [OF assms(1)] by (metis move.exhaust)
qed

interpretation rings: possible_states start step queue_inv queue_spec states
proof unfold_locales
  show "queue_inv s'" if "queue_inv s" "start t c s = Some s'" for s t c s'
    using start_good(1) [OF that] .
  show "queue_inv s'" if "queue_inv s" "step t s = Move l s'" for s t l s'
    using step_good(2) [OF that] by (simp add: good_step_def)
  show "states s \<noteq> {}" if inv: "queue_inv s" for s
  proof -
    from inv obtain ns where "inv_on s ns" unfolding queue_inv_def by blast
    moreover have "\<forall>t. \<exists>x. x \<in> options s (pcs s t)" using options_nonempty by blast
    then obtain ph where "\<forall>t. ph t \<in> options s (pcs s t)" by (rule choice [THEN exE])
    ultimately have "(contents (heap s) ns, ph) \<in> states s" unfolding states_def by blast
    then show ?thesis by blast
  qed
  show "\<exists>a\<in>states s. atomic_step queue_spec a (Call t c) a'"
    if "queue_inv s" "start t c s = Some s'" "a' \<in> states s'" for s t c s' a'
    using start_good(2) [OF that] .
  show "\<exists>a\<in>states s. atomic_step queue_spec a l a' \<or> l = Internal \<and> a' = a"
    if "queue_inv s" "step t s = Move l s'" "a' \<in> states s'" for s t l s' a'
    using step_good(2) [OF that(1,2)] that(3) by (auto simp: good_step_def)
qed (fact step_good(1))

text \<open>The same for allocations that may fail, as long as none does.\<close>

definition rings_clear :: "queue \<Rightarrow> queue" where
  "rings_clear s = s\<lparr>mallocs := []\<rparr>"

lemma rings_clear_fields [simp]:
  "pcs (rings_clear s) = pcs s" "heap (rings_clear s) = heap s" "head (rings_clear s) = head s"
  "tail (rings_clear s) = tail s" "next_addr (rings_clear s) = next_addr s"
  "pop_mtx (rings_clear s) = pop_mtx s" "push_mtx (rings_clear s) = push_mtx s" "rank (rings_clear s) = rank s"
  by (simp_all add: rings_clear_def rank_def)

lemma rings_node_new_clear:
  assumes "node_new s = (n, s')"
  shows "\<exists>used. mallocs s = used @ mallocs s' \<and>
    (False \<notin> set used \<longrightarrow> node_new (rings_clear s) = (n, rings_clear s'))"
proof (cases "mallocs s")
  case Nil
  with assms show ?thesis by (intro exI [of _ "[]"]) (auto simp: node_new_def malloc_def rings_clear_def)
next
  case (Cons b bs)
  with assms show ?thesis
    by (intro exI [of _ "[b]"]) (auto simp: node_new_def malloc_def rings_clear_def split: if_splits)
qed

lemma rings_no_allocation:
  assumes "step t s = Move l s'" and "\<nexists>v tn. pcs s t = PushNew v tn"
  shows "mallocs s' = mallocs s \<and> step t (rings_clear s) = Move l (rings_clear s')"
  using assms
  by (cases "pcs s t") (auto simp: step_defs rings_clear_def split: if_splits option.splits)

interpretation rings_allocating: allocating start step rings_clear
proof unfold_locales
  show "mallocs s' = mallocs s \<and> start t c (rings_clear s) = Some (rings_clear s')"
    if "start t c s = Some s'" for s t c s'
    using that by (auto simp: start_def rings_clear_def split: if_splits)
  show "\<exists>used. mallocs s = used @ mallocs s' \<and>
      (False \<notin> set used \<longrightarrow> step t (rings_clear s) = Move l (rings_clear s'))"
    if st: "step t s = Move l s'" for s t l s'
  proof (cases "\<exists>v tn. pcs s t = PushNew v tn")
    case True
    then obtain v tn where v: "pcs s t = PushNew v tn" by blast
    obtain n s1 where n: "node_new s = (n, s1)" by fastforce
    with v st have "l = Internal" "s' = goto t (PushFill v tn n) s1" by (simp_all add: step_defs)
    moreover have "rings_clear (goto t (PushFill v tn n) s1) = goto t (PushFill v tn n) (rings_clear s1)"
      by (simp add: rings_clear_def)
    ultimately show ?thesis using rings_node_new_clear [OF n] v by (auto simp: step_defs)
  next
    case False
    with rings_no_allocation [OF st] show ?thesis by (intro exI [of _ "[]"]) simp
  qed
  show "step t (rings_clear s) = Undefined" if "step t s = Undefined" for s t
    using that by (cases "pcs s t") (auto simp: step_defs split: if_splits option.splits prod.splits)
  show "step t (rings_clear s) = Blocked" if "step t s = Blocked" for s t
    using that by (cases "pcs s t") (auto simp: step_defs split: if_splits option.splits prod.splits)
qed

definition rings_ok :: "queue \<Rightarrow> bool" where
  "rings_ok s \<longleftrightarrow> False \<notin> set (mallocs s) \<and> queue_inv (rings_clear s)"

interpretation rings_progress: progress start step rings_ok rank all_out
proof unfold_locales
  show "rings_ok s'" if "rings_ok s" "start t c s = Some s'" for s t c s'
    using that rings_allocating.start_clear [OF that(2)] start_good(1) [of "rings_clear s" t c "rings_clear s'"]
    by (simp add: rings_ok_def)
  show "rings_ok s'" if "rings_ok s" "step t s = Move l s'" for s t l s'
    using that rings_allocating.step_clear [OF that(2)] step_good(2) [of "rings_clear s" t l "rings_clear s'"]
    by (auto simp: rings_ok_def good_step_def)
  show "step t s \<noteq> Undefined" if "rings_ok s" for s t
    using that step_good(1) rings_allocating.step_undefined unfolding rings_ok_def by blast
  show "rank s' < rank s" if "rings_ok s" "step t s = Move l s'" for s t l s'
    using that rings_allocating.step_clear [OF that(2)] rings_rank_step [of "rings_clear s" t l "rings_clear s'"]
    by (auto simp: rings_ok_def)
  show "\<exists>t l s'. step t s = Move l s'" if ok: "rings_ok s" and out: "\<not> all_out s" for s
  proof -
    have "queue_inv (rings_clear s)" "\<not> all_out (rings_clear s)"
      using ok out by (simp_all add: rings_ok_def all_out_def)
    then obtain t l s' where "step t (rings_clear s) = Move l s'" using rings_some_step by blast
    then have "step t s \<noteq> Undefined" "step t s \<noteq> Blocked"
      using rings_allocating.step_undefined rings_allocating.step_blocked by fastforce+
    then show ?thesis by (metis move.exhaust)
  qed
qed

section \<open>The properties\<close>

abbreviation rings_machine :: "queue \<Rightarrow> (queue_op, queue_res) label \<Rightarrow> queue \<Rightarrow> bool" where
  "rings_machine \<equiv> machine start step"

definition first_state :: queue where
  "first_state = the (RingsQueue_new [])"

lemma rings_first_state_eq:
  "first_state = (fresh_queue [])\<lparr>next_addr := 2, heap := [1 \<mapsto> empty_node], head := Some 1, tail := Some 1\<rparr>"
  by (simp add: first_state_def RingsQueue_new_def node_new_def malloc_def fresh_queue_def)

lemma first_inv: "inv_on first_state [1]"
  by (auto simp: inv_on_def chain_ok_def memory_ok_def threads_ok_def rings_first_state_eq fresh_queue_def
      empty_node_def node_ok_def popping_def RING_SIZE_def)

lemma first_states: "states first_state \<subseteq> {([], \<lambda>_. Idle)}"
proof
  fix a assume a_in: "a \<in> states first_state"
  obtain q ph where a: "a = (q, ph)" by (cases a)
  with a_in obtain ns where ns: "inv_on first_state ns" "q = contents (heap first_state) ns"
    and ph: "\<And>t. ph t \<in> options first_state (pcs first_state t)"
    unfolding states_def by blast
  have chain: "linked (heap first_state) ms \<and> head first_state = Some (hd ms)" if "inv_on first_state ms" for ms
    using that unfolding inv_on_def chain_ok_def by blast
  have "hd ns = hd [1]" using chain [OF ns(1)] chain [OF first_inv] by (metis option.inject)
  then have "ns = [1]" using chain [OF ns(1)] chain [OF first_inv] linked_unique by blast
  then have "q = []"
    using ns(2) by (simp add: rings_first_state_eq fresh_queue_def empty_node_def ring_def)
  moreover have "ph = (\<lambda>_. Idle)"
    using ph by (intro ext) (simp add: rings_first_state_eq fresh_queue_def)
  ultimately show "a \<in> {([], \<lambda>_. Idle)}"
    using a by simp
qed

text \<open>C: As long as no allocation fails, the queue of rings is linearizable, with any number of threads
  pushing, popping and testing it at the same time. (A push whose allocation fails writes through a null
  pointer at once, lemma \<open>failed_push_is_undefined\<close>.)\<close>

theorem rings_queue_linearizable:
  "histories rings_machine first_state \<subseteq> histories (atomic_step queue_spec) ([], \<lambda>_. Idle)"
  using first_inv first_states by (intro rings.linearizable) (auto simp: queue_inv_def)

lemma rings_new_cleared:
  assumes "RingsQueue_new ms = Some s0"
  shows "rings_clear s0 = first_state"
  using assms
  by (auto simp: RingsQueue_new_def rings_first_state_eq node_new_def malloc_def fresh_queue_def rings_clear_def
      split: list.splits if_splits)

lemma rings_unfailed_inv:
  assumes "RingsQueue_new ms = Some s0" and "s \<in> reachable rings_machine s0" and "none_failed s0 s"
  shows "queue_inv (rings_clear s)"
proof -
  have "rings_clear s \<in> reachable rings_machine first_state"
    using rings_allocating.unfailed_reachable [OF assms(2,3)] rings_new_cleared [OF assms(1)] by simp
  from rings.reached_inv [OF _ this] first_inv show ?thesis by (auto simp: queue_inv_def)
qed

text \<open>C: In the queue of rings, with any number of threads and any outcomes of malloc: as long as no
  allocation of a push has failed, no step reads a cell that was not written, dereferences a null or freed
  pointer or frees a node twice, and a push and a pop that are about to access a cell of the same ring access
  different cells. When the allocations to come do not fail either, every call returns, a pop after
  at most one round of its loop for each node. (A push whose allocation fails writes through the null pointer,
  lemma \<open>failed_push_is_undefined\<close>.)\<close>

theorem rings_queue_safe_and_live:
  assumes "RingsQueue_new ms = Some s0" and "s \<in> reachable rings_machine s0" and "none_failed s0 s"
  shows "step t s \<noteq> Undefined \<and>
    (\<forall>t u v a pu po. pcs s t = PushWrite v (Some a) pu \<longrightarrow> pcs s u = PopRead (Some a) po \<longrightarrow>
       pu mod RING_SIZE \<noteq> po mod RING_SIZE) \<and>
    (False \<notin> set (mallocs s) \<longrightarrow>
       (\<forall>n s'. (moves step ^^ n) s s' \<longrightarrow> n \<le> rank s) \<and>
       (\<forall>s'. (moves step)\<^sup>*\<^sup>* s s' \<longrightarrow> (\<nexists>s''. moves step s' s'') \<longrightarrow> all_out s') \<and>
       (\<exists>s'. (moves step)\<^sup>*\<^sup>* s s' \<and> all_out s'))"
proof -
  have inv: "queue_inv (rings_clear s)" using rings_unfailed_inv [OF assms] .
  then obtain ns where ns: "inv_on (rings_clear s) ns" by (auto simp: queue_inv_def)
  have "pu mod RING_SIZE \<noteq> po mod RING_SIZE"
    if "pcs s t = PushWrite v (Some a) pu" "pcs s u = PopRead (Some a) po" for t u v a pu po
    using rings_locals [OF ns, of t] rings_locals [OF ns, of u] that cells_differ [of po pu] by auto
  moreover have "step t s \<noteq> Undefined"
    using step_good(1) [OF inv, of t] rings_allocating.step_undefined by blast
  ultimately show ?thesis
    using rings_progress.calls_return [of s] inv unfolding rings_ok_def by blast
qed

text \<open>A run in which a push and a pop are in progress.\<close>

definition sample_rings :: queue where
  "sample_rings = the (RingsQueue_new [True, True, True])"

definition busy_rings :: "((queue_op, queue_res) label list \<times> queue) option" where
  "busy_rings = run_schedule start step
     ([Invoke 0 (Push 7)] @ replicate 3 (Run 0) @ [Invoke 1 Pop, Run 1]) sample_rings"

lemmas rings_run_defs = RingsQueue_new_def node_new_def malloc_def fresh_queue_def
  start_def first_pc_def step_defs empty_node_def RING_SIZE_def numeral_eq_Suc

lemma sample_rings_ok: "RingsQueue_new [True, True, True] = Some sample_rings"
  by (simp add: sample_rings_def rings_run_defs)

lemma busy_rings_ok:
  "\<exists>ls s. busy_rings = Some (ls, s) \<and> s \<in> reachable rings_machine sample_rings \<and>
     none_failed sample_rings s \<and> False \<notin> set (mallocs s)"
proof -
  have "\<exists>ls s. busy_rings = Some (ls, s) \<and> mallocs s = [True]" and new: "mallocs sample_rings = [True]"
    by (simp_all add: busy_rings_def sample_rings_def rings_run_defs)
  then obtain ls s where run: "busy_rings = Some (ls, s)" and left: "mallocs s = [True]" by blast
  have "s \<in> reachable rings_machine sample_rings"
    using run unfolding busy_rings_def by (rule schedule_reachable)
  moreover have "none_failed sample_rings s" "False \<notin> set (mallocs s)"
    by (simp_all add: none_failed_def new left)
  ultimately show ?thesis using run by blast
qed

lemma rings_queue_safe_and_live_witness:
  "\<exists>ls s s'. busy_rings = Some (ls, s) \<and> (moves step)\<^sup>*\<^sup>* s s' \<and> all_out s'"
  using rings_queue_safe_and_live [OF sample_rings_ok] busy_rings_ok by blast

text \<open>The result of \<open>RingsQueueNode_new\<close> is not tested in \<open>push\<close>: when the ring is full and the allocation
  fails, the next step of the push writes through a null pointer.\<close>

lemma failed_push_is_undefined:
  assumes "pcs s t = PushNew v tn" and "mallocs s = False # ms"
  shows "\<exists>s'. step t s = Move Internal s' \<and> step t s' = Undefined"
  using assms by (simp add: step_defs node_new_def malloc_def)

end
