(* ===== verification/Kierki_Common.thy ===== *)
theory Kierki_Common
  imports Cpp_Std Regex
begin

text \<open>
  The helpers shared by the server and the client of the card game (\<open>common/common.cpp\<close>,
  \<open>card_values.h\<close>): seats, cards found in a text, decimal numbers, reading a message up to its
  delimiter and writing a whole message. A socket is what its reads and writes will answer: the
  list of \<open>read\<close> outcomes still to come (its end is the end of the stream) and, in the record
  \<open>net\<close> with whether it is open, the bytes sent and the console, the list of \<open>write\<close> outcomes (its end: every
  further write takes all it is given).
\<close>

section \<open>Sockets and what a run can end with\<close>

datatype received = Byte char | Would_block | Read_error

datatype written = Wrote nat | Broken_pipe | Write_error

datatype out_line = Printed string | Logged string string string

record net =
  is_open :: bool
  writes :: "written list"
  sent :: string
  console :: "out_line list"

text \<open>
  A function returns, ends the process (\<open>error\<close> prints a message and calls \<open>exit\<close>), has
  undefined behaviour, or never returns.
\<close>

datatype 'a run = Returns 'a | Exits | Undefined | Loops

definition run_bind :: "'a run \<Rightarrow> ('a \<Rightarrow> 'b run) \<Rightarrow> 'b run" where
  "run_bind m f =
     (case m of Returns x \<Rightarrow> f x | Exits \<Rightarrow> Exits | Undefined \<Rightarrow> Undefined | Loops \<Rightarrow> Loops)"

lemma run_bind_simps [simp]:
  "run_bind (Returns x) f = f x" "run_bind Exits f = Exits"
  "run_bind Undefined f = Undefined" "run_bind Loops f = Loops"
  by (simp_all add: run_bind_def)

lemma run_bind_eq_Returns:
  "run_bind m f = Returns y \<longleftrightarrow> (\<exists>x. m = Returns x \<and> f x = Returns y)"
  by (cases m) simp_all

lemma run_bind_cong [fundef_cong]:
  "m = m' \<Longrightarrow> (\<And>x. m' = Returns x \<Longrightarrow> f x = g x) \<Longrightarrow> run_bind m f = run_bind m' g"
  by (cases m') simp_all

definition CR :: char where "CR = CHR 0x0D"
definition LF :: char where "LF = CHR 0x0A"

abbreviation delimiter :: string where
  "delimiter \<equiv> [CR, LF]"

section \<open>Reading and writing\<close>

fun readn_loop :: "nat \<Rightarrow> string \<Rightarrow> received list \<Rightarrow> int \<times> string \<times> received list" where
  "readn_loop total_read buf [] = (-2, buf, [])"
| "readn_loop total_read buf (Would_block # rs) = (-3, buf, rs)"
| "readn_loop total_read buf (Read_error # rs) = (-1, buf, rs)"
| "readn_loop total_read buf (Byte c # rs) =
     (let buf = buf @ [c]; total_read = Suc total_read
      in if length delimiter \<le> length buf \<and> drop (length buf - length delimiter) buf = delimiter
         then (int total_read - int (length delimiter), take (length buf - length delimiter) buf, rs)
         else readn_loop total_read buf rs)"

definition readn :: "string \<Rightarrow> received list \<Rightarrow> int \<times> string \<times> received list" where
  "readn buf rs = readn_loop 0 buf rs"

text \<open>The bytes of \<open>buf\<close> that reach the other side come back beside the result.\<close>

fun writen :: "written list \<Rightarrow> string \<Rightarrow> int \<times> string \<times> written list" where
  "writen ws [] = (0, [], ws)"
| "writen [] buf = (int (length buf), buf, [])"
| "writen (Broken_pipe # ws) buf = (-2, [], ws)"
| "writen (Write_error # ws) buf = (-1, [], ws)"
| "writen (Wrote k # ws) buf =
     (let k = min k (length buf);
          (r, out, ws') = writen ws (drop k buf)
      in (if r < 0 then r else int (length buf), take k buf @ out, ws'))"

section \<open>Seats\<close>

definition char_to_index :: "char \<Rightarrow> int" where
  "char_to_index seat =
     (if seat = CHR ''N'' then 0
      else if seat = CHR ''E'' then 1
      else if seat = CHR ''S'' then 2
      else if seat = CHR ''W'' then 3
      else -1)"

definition index_to_char :: "int \<Rightarrow> char throws" where
  "index_to_char i =
     (if i = 0 then Inr (CHR ''N'')
      else if i = 1 then Inr (CHR ''E'')
      else if i = 2 then Inr (CHR ''S'')
      else if i = 3 then Inr (CHR ''W'')
      else Inl (Invalid_arg ''Invalid player index''))"

definition check_position :: "char \<Rightarrow> int" where
  "check_position p =
     (if p \<noteq> CHR ''N'' \<and> p \<noteq> CHR ''E'' \<and> p \<noteq> CHR ''S'' \<and> p \<noteq> CHR ''W'' then -1 else 0)"

definition check_suit :: "char \<Rightarrow> int" where
  "check_suit suit =
     (if suit \<noteq> CHR ''C'' \<and> suit \<noteq> CHR ''D'' \<and> suit \<noteq> CHR ''H'' \<and> suit \<noteq> CHR ''S'' then -1 else 0)"

section \<open>Cards\<close>

definition card_values :: "string \<Rightarrow> int option" where
  "card_values = map_of
     [(''2'', 2), (''3'', 3), (''4'', 4), (''5'', 5), (''6'', 6), (''7'', 7), (''8'', 8), (''9'', 9),
      (''10'', 10), (''J'', 11), (''Q'', 12), (''K'', 13), (''A'', 14)]"

text \<open>
  The pattern \<open>(10|[2-9JQKA])([CDHS])\<close>: its two groups and the text after a match that begins
  at the head of \<open>s\<close>, then the first match in \<open>s\<close>.
\<close>

definition suit_class :: string where "suit_class = ''CDHS''"
definition face_class :: string where "face_class = ''23456789JQKA''"

definition card_pattern :: rx where
  "card_pattern =
     Cat (Or (Cat (lit CHR ''1'') (lit CHR ''0'')) (Cls (\<lambda>c. c \<in> set face_class)))
         (Cls (\<lambda>c. c \<in> set suit_class))"

definition match_card :: "string \<Rightarrow> (string \<times> char \<times> string) option" where
  "match_card s =
     (if 3 \<le> length s \<and> take 2 s = ''10'' \<and> s ! 2 \<in> set suit_class
      then Some (''10'', s ! 2, drop 3 s)
      else if 2 \<le> length s \<and> s ! 0 \<in> set face_class \<and> s ! 1 \<in> set suit_class
      then Some ([s ! 0], s ! 1, drop 2 s)
      else None)"

fun regex_search :: "string \<Rightarrow> (string \<times> char \<times> string) option" where
  "regex_search [] = None"
| "regex_search (c # s) =
     (case match_card (c # s) of Some m \<Rightarrow> Some m | None \<Rightarrow> regex_search s)"

lemma match_card_shorter: "match_card s = Some (v, x, r) \<Longrightarrow> length r < length s"
  by (auto simp: match_card_def split: if_splits)

lemma search_shorter: "regex_search s = Some (v, x, r) \<Longrightarrow> length r < length s"
proof (induction s)
  case (Cons c s)
  then show ?case
    using match_card_shorter [of "c # s" v x r] by (auto split: option.splits)
qed simp

definition extract_first_card :: "string \<Rightarrow> string" where
  "extract_first_card cards =
     (case regex_search cards of Some (v, x, r) \<Rightarrow> v @ [x] | None \<Rightarrow> [])"

function split_cards :: "string \<Rightarrow> string list" where
  "split_cards s =
     (case regex_search s of
        None \<Rightarrow> []
      | Some (value, suit, suffix) \<Rightarrow> (value @ [suit]) # split_cards suffix)"
  by pat_completeness auto
termination
  by (relation "measure length") (auto dest: search_shorter)

declare split_cards.simps [simp del]

definition check_card :: "string \<Rightarrow> int" where
  "check_card c =
     (if check_suit (last c) < 0 then -1
      else if card_values (butlast c) = None then -1
      else 0)"

text \<open>The vectors of the callers hold no empty string, on which \<open>back()\<close> would be undefined.\<close>

definition check_correctness :: "string list \<Rightarrow> nat \<Rightarrow> int" where
  "check_correctness cards max_size =
     (if max_size < length cards then -1
      else if \<exists>c\<in>set cards. check_card c < 0 then -1
      else 0)"

section \<open>Numbers\<close>

text \<open>\<open>std::stoull\<close> in base ten: a minus sign negates the value modulo \<open>2 ^ 64\<close>.\<close>

definition stoull :: "string \<Rightarrow> nat throws" where
  "stoull s =
     (let s1 = dropWhile is_space s;
          neg = (s1 \<noteq> [] \<and> hd s1 = CHR ''-'');
          s2 = (if s1 \<noteq> [] \<and> hd s1 \<in> {CHR ''-'', CHR ''+''} then tl s1 else s1);
          ds = takeWhile is_digit s2;
          v = digits_val ds
      in if ds = [] then Inl Invalid_argument
         else if 2 ^ 64 \<le> v then Inl Out_of_range
         else Inr (size_t (if neg then - v else v)))"

definition safe_stoi :: "string \<Rightarrow> nat option" where
  "safe_stoi s = (case stoull s of Inr v \<Rightarrow> Some v | Inl e \<Rightarrow> None)"

section \<open>The log\<close>

fun visible :: "string \<Rightarrow> string" where
  "visible (c # d # s) =
     (if c = CR \<and> d = LF then [CHR 0x5C, CHR ''r'', CHR 0x5C, CHR ''n''] @ visible s
      else c # visible (d # s))"
| "visible s = s"

text \<open>
  A line of the log without its time stamp. \<open>write_log\<close> appends the delimiter to a received
  message, in the caller's variable too: the message comes back.
\<close>

definition log_message :: "string \<Rightarrow> string \<Rightarrow> string \<Rightarrow> out_line" where
  "log_message from_addr to_addr message = Logged from_addr to_addr (visible message)"

definition write_log :: "string \<Rightarrow> bool \<Rightarrow> string \<Rightarrow> string \<Rightarrow> net \<Rightarrow> string \<times> net" where
  "write_log message received_message from_addr to_addr n =
     (let message = (if received_message then message @ delimiter else message);
          local_addr = (if received_message then to_addr else from_addr);
          remote_addr = (if received_message then from_addr else to_addr)
      in (message, n\<lparr>console := console n @ [log_message local_addr remote_addr message]\<rparr>))"

section \<open>One message\<close>

text \<open>A write to a descriptor that is closed fails.\<close>

definition write_message :: "string \<Rightarrow> net \<Rightarrow> int \<times> net" where
  "write_message msg n =
     (let (r, out, ws) = writen (if is_open n then writes n else [Write_error]) msg
      in (r, if is_open n then n\<lparr>writes := ws, sent := sent n @ out\<rparr> else n))"

definition close_socket :: "net \<Rightarrow> net" where
  "close_socket n = n\<lparr>is_open := False\<rparr>"

definition print :: "string \<Rightarrow> net \<Rightarrow> net" where
  "print s n = n\<lparr>console := console n @ [Printed s]\<rparr>"

fun commas :: "string list \<Rightarrow> string" where
  "commas [] = []"
| "commas [s] = s"
| "commas (s # t # ss) = s @ '', '' @ commas (t # ss)"

lemma readn_loop_shorter:
  "readn_loop k buf rs = (r, m, rs') \<Longrightarrow>
   length rs' < length rs \<or> rs = [] \<and> rs' = [] \<and> r = -2"
proof (induction rs arbitrary: k buf)
  case (Cons a rs)
  show ?case
    using Cons.prems Cons.IH by (cases a) (fastforce simp: Let_def split: if_splits)+
qed simp

lemma readn_shorter: "readn buf rs = (r, m, rs') \<Longrightarrow> 0 \<le> r \<Longrightarrow> length rs' < length rs"
  unfolding readn_def by (drule readn_loop_shorter) auto

text \<open>
  The loop \<open>while (1) { read a message; ... }\<close> of every function that waits for a certain message:
  the rest of the body either continues, with the state it has changed, or returns.
\<close>

datatype ('s, 'r) verdict = Continue 's | Finish "'r run"

function receive_loop ::
  "(int \<Rightarrow> 's \<Rightarrow> 'r run) \<Rightarrow> (string \<Rightarrow> 's \<Rightarrow> ('s, 'r) verdict) \<Rightarrow> received list \<Rightarrow> 's \<Rightarrow>
   ('r \<times> received list) run"
where
  "receive_loop failed body rs s =
     (case readn [] rs of (len, message, rs') \<Rightarrow>
        if len < 0 then run_bind (failed len s) (\<lambda>r. Returns (r, rs'))
        else case body message s of
          Continue s' \<Rightarrow> receive_loop failed body rs' s'
        | Finish m \<Rightarrow> run_bind m (\<lambda>r. Returns (r, rs')))"
  by pat_completeness auto
termination
  by (relation "measure (\<lambda>(failed, body, rs, s). length rs)") (auto dest!: readn_shorter [OF sym])

declare receive_loop.simps [simp del]

lemma receive_loop_shorter:
  "receive_loop failed body rs s = Returns (r, rs') \<Longrightarrow>
   length rs' < length rs \<or> rs = [] \<and> rs' = [] \<and> failed (-2) s = Returns r"
proof (induction failed body rs s rule: receive_loop.induct)
  case (1 failed body rs s)
  obtain len m rs1 where r: "readn [] rs = (len, m, rs1)" by (cases "readn [] rs") auto
  then have l: "length rs1 < length rs \<or> rs = [] \<and> rs1 = [] \<and> len = -2"
    using readn_loop_shorter by (simp add: readn_def)
  show ?case
  proof (cases "len < 0")
    case True
    with 1(2) r l show ?thesis
      by (auto simp: receive_loop.simps [of failed body] run_bind_eq_Returns)
  next
    case False
    then have l: "length rs1 < length rs" using readn_shorter [OF r] by simp
    show ?thesis
    proof (cases "body m s")
      case (Continue s')
      with 1(2) r False have "receive_loop failed body rs1 s' = Returns (r, rs')"
        by (simp add: receive_loop.simps [of failed body rs])
      with 1(1) [OF r [symmetric] refl False Continue] l show ?thesis by auto
    next
      case (Finish m)
      with 1(2) r False l show ?thesis
        by (auto simp: receive_loop.simps [of failed body rs] run_bind_eq_Returns)
    qed
  qed
qed

lemma receive_loop_not_longer:
  "receive_loop failed body rs s = Returns (r, rs') \<Longrightarrow> length rs' \<le> length rs"
  by (drule receive_loop_shorter) auto

end
