(* ===== verification/Kierki_Player.thy ===== *)
theory Kierki_Player
  imports Kierki_Common
begin

text \<open>
  The player of the card game (\<open>common/player.cpp\<close>): the hand kept by suit for the automatic
  player and as a list for the user, the trick on the table and the tricks taken. The map
  \<open>cards_by_suit\<close> is a total function, a missing key being an empty list; every card that gets
  into it was found by the card pattern, so the keys that matter are the four suits, which
  a \<open>std::map\<close> visits in the order C, D, H, S.
\<close>

record player =
  cards_by_suit :: "char \<Rightarrow> string list"
  cards :: string
  cards_from_trick :: string
  played_card :: string
  available_cards :: "string list"
  taken_tricks :: "string list list"
  current_trick :: "string list"

definition new_player :: player where
  "new_player = \<lparr>cards_by_suit = (\<lambda>s. []), cards = [], cards_from_trick = [], played_card = [],
     available_cards = [], taken_tricks = [], current_trick = []\<rparr>"

function add_cards_loop :: "nat \<Rightarrow> string \<Rightarrow> player \<Rightarrow> int \<times> player" where
  "add_cards_loop found s p =
     (case regex_search s of
        None \<Rightarrow> (if found \<noteq> 13 then -1 else 0, p)
      | Some (card_value, suit, suffix) \<Rightarrow>
          if card_values card_value = None then (-1, p)
          else if check_suit suit < 0 then (-1, p)
          else add_cards_loop (Suc found) suffix
                 (p\<lparr>cards_by_suit := (cards_by_suit p)(suit := cards_by_suit p suit @ [card_value]),
                    available_cards := available_cards p @ [card_value @ [suit]]\<rparr>))"
  by pat_completeness auto
termination
  by (relation "measure (\<lambda>(found, s, p). length s)") (auto dest: search_shorter)

declare add_cards_loop.simps [simp del]

definition add_cards :: "string \<Rightarrow> player \<Rightarrow> int \<times> player" where
  "add_cards s p = add_cards_loop 0 s p"

text \<open>The card at the front of a suit is given away.\<close>

definition play_front :: "char \<Rightarrow> player \<Rightarrow> string \<times> player" where
  "play_front suit p =
     (hd (cards_by_suit p suit) @ [suit],
      p\<lparr>cards_by_suit := (cards_by_suit p)(suit := tl (cards_by_suit p suit))\<rparr>)"

fun play_any :: "char list \<Rightarrow> player \<Rightarrow> string \<times> player" where
  "play_any [] p = ([], p)"
| "play_any (suit # suits) p =
     (if cards_by_suit p suit \<noteq> [] then play_front suit p else play_any suits p)"

definition select_card :: "player \<Rightarrow> string \<times> player" where
  "select_card p =
     (let first_card = extract_first_card (cards_from_trick p)
      in if first_card \<noteq> [] \<and> cards_by_suit p (last first_card) \<noteq> []
         then play_front (last first_card) p
         else play_any suit_class p)"

definition set_played_card :: "string \<Rightarrow> player \<Rightarrow> int \<times> player" where
  "set_played_card c p =
     (if c \<in> set (available_cards p)
      then (0, p\<lparr>played_card := c, available_cards := remove1 c (available_cards p)\<rparr>)
      else (-1, p))"

definition add_taken_trick :: "string list \<Rightarrow> player \<Rightarrow> player" where
  "add_taken_trick cs p = p\<lparr>taken_tricks := taken_tricks p @ [cs]\<rparr>"

definition check_if_exists_suit :: "char \<Rightarrow> player \<Rightarrow> int" where
  "check_if_exists_suit suit p = (if \<exists>c\<in>set (available_cards p). last c = suit then -1 else 0)"

text \<open>\<open>card.back()\<close> of an empty string is undefined.\<close>

definition check_if_correct_card :: "string \<Rightarrow> player \<Rightarrow> int option" where
  "check_if_correct_card c p =
     (if current_trick p = [] then Some 0
      else let first_card = hd (current_trick p) in
        if first_card = [] \<or> c = [] then None
        else if last c = last first_card then Some 0
        else Some (check_if_exists_suit (last first_card) p))"

definition erase_taken_tricks :: "player \<Rightarrow> player" where
  "erase_taken_tricks p = p\<lparr>taken_tricks := []\<rparr>"

definition erase_from_cards_by_suit :: "string \<Rightarrow> player \<Rightarrow> player" where
  "erase_from_cards_by_suit c p =
     p\<lparr>cards_by_suit := (cards_by_suit p)(last c := removeAll (butlast c) (cards_by_suit p (last c)))\<rparr>"

definition erase_from_available_cards :: "string \<Rightarrow> player \<Rightarrow> player" where
  "erase_from_available_cards c p = p\<lparr>available_cards := removeAll c (available_cards p)\<rparr>"

section \<open>Cards in a text\<close>

text \<open>The cards there are, and the pattern: a match is a word of its language.\<close>

definition is_card :: "string \<Rightarrow> bool" where
  "is_card c \<longleftrightarrow> c \<noteq> [] \<and> card_values (butlast c) \<noteq> None \<and> check_suit (last c) = 0"

lemma check_suit_iff: "check_suit s = (if s \<in> set suit_class then 0 else -1)"
  by (auto simp: check_suit_def suit_class_def)

lemma card_values_iff:
  "card_values v \<noteq> None \<longleftrightarrow> v = ''10'' \<or> (\<exists>c \<in> set face_class. v = [c])"
  by (auto simp: card_values_def face_class_def split: if_splits)

lemma not_one_face [simp]: "CHR ''1'' \<notin> set face_class" "CHR ''0'' \<notin> set suit_class"
  by (simp_all add: face_class_def suit_class_def)

lemma is_card_cases [consumes 1, case_names ten face]:
  assumes "is_card c"
  obtains s where "c = [CHR ''1'', CHR ''0'', s]" and "s \<in> set suit_class"
  | d s where "c = [d, s]" and "d \<in> set face_class" and "s \<in> set suit_class"
proof -
  obtain v s where c: "c = v @ [s]" using assms by (cases c rule: rev_cases) (auto simp: is_card_def)
  with assms have "s \<in> set suit_class" and "v = ''10'' \<or> (\<exists>d \<in> set face_class. v = [d])"
    unfolding is_card_def card_values_iff check_suit_iff by (auto split: if_splits)
  with c that show thesis by auto
qed

lemma is_card_intros:
  "s \<in> set suit_class \<Longrightarrow> is_card [CHR ''1'', CHR ''0'', s]"
  "s \<in> set suit_class \<Longrightarrow> d \<in> set face_class \<Longrightarrow> is_card [d, s]"
  unfolding is_card_def card_values_iff check_suit_iff by auto

lemma lang_CatI: "u \<in> lang r \<Longrightarrow> v \<in> lang t \<Longrightarrow> u @ v \<in> lang (Cat r t)"
  by (auto simp: lang.simps(4))

lemma is_card_lang: "is_card c \<longleftrightarrow> c \<in> lang card_pattern"
proof
  assume "is_card c"
  then show "c \<in> lang card_pattern"
  proof (cases rule: is_card_cases)
    case (ten s)
    then show ?thesis
      using lang_CatI [of "''10''" _ "[s]"] by (simp add: card_pattern_def)
  next
    case (face d s)
    then show ?thesis
      using lang_CatI [of "[d]" _ "[s]"] by (simp add: card_pattern_def)
  qed
next
  assume "c \<in> lang card_pattern"
  then show "is_card c"
    by (auto simp: card_pattern_def lang.simps(4) intro: is_card_intros)
qed

lemma match_card_app:
  assumes "is_card c"
  shows "match_card (c @ r) = Some (butlast c, last c, r)"
  using assms by (cases rule: is_card_cases) (auto simp: match_card_def)

lemma match_card_Some:
  assumes "match_card s = Some (v, x, r)"
  shows "s = v @ x # r \<and> is_card (v @ [x])"
proof (cases "3 \<le> length s \<and> take 2 s = ''10'' \<and> s ! 2 \<in> set suit_class")
  case True
  then have "s = take 2 s @ s ! 2 # drop 3 s"
    by (metis Cons_nth_drop_Suc Suc_le_eq append_take_drop_id eval_nat_numeral(3))
  with True assms show ?thesis
    by (auto simp: match_card_def intro: is_card_intros)
next
  case False
  with assms have l: "2 \<le> length s" by (auto simp: match_card_def split: if_splits)
  then obtain a b t where "s = a # b # t" by (cases s; cases "tl s") auto
  with False assms show ?thesis
    by (auto simp: match_card_def intro: is_card_intros split: if_splits)
qed

lemma search_app:
  assumes "is_card c"
  shows "regex_search (c @ r) = Some (butlast c, last c, r)"
proof -
  obtain d c' where "c = d # c'" using assms by (cases c) (auto simp: is_card_def)
  with match_card_app [OF assms, of r] show ?thesis by simp
qed

text \<open>The first match: a card, behind a text in which no card begins.\<close>

lemma search_Some:
  assumes "regex_search s = Some (v, x, r)"
  shows "is_card (v @ [x]) \<and> (\<exists>u. s = u @ v @ x # r)"
  using assms
proof (induction s)
  case (Cons c s)
  show ?case
  proof (cases "match_card (c # s)")
    case None
    with Cons obtain u where "is_card (v @ [x])" "s = u @ v @ x # r" by auto
    then show ?thesis by (auto intro: exI [of _ "c # u"])
  next
    case (Some m)
    with Cons.prems match_card_Some [of "c # s" v x r] show ?thesis by (auto intro: exI [of _ "[]"])
  qed
qed simp

lemma split_cards_Nil [simp]: "split_cards [] = []"
  by (simp add: split_cards.simps)

lemma split_cards_app:
  assumes "is_card c"
  shows "split_cards (c @ r) = c # split_cards r"
proof -
  have "butlast c @ [last c] = c" using assms by (simp add: is_card_def)
  with search_app [OF assms, of r] show ?thesis by (simp add: split_cards.simps [of "c @ r"])
qed

lemma split_cards_concat:
  "\<forall>c\<in>set cs. is_card c \<Longrightarrow> split_cards (concat cs @ r) = cs @ split_cards r"
  by (induction cs) (simp_all add: split_cards_app)

lemma split_cards_are_cards: "c \<in> set (split_cards s) \<Longrightarrow> is_card c"
proof (induction s rule: split_cards.induct)
  case (1 s)
  show ?case
  proof (cases "regex_search s")
    case None
    with 1 show ?thesis by (simp add: split_cards.simps [of s])
  next
    case (Some m)
    obtain v x r where m: "m = (v, x, r)" by (cases m) auto
    with Some 1(2) have "c = v @ [x] \<or> c \<in> set (split_cards r)"
      by (simp add: split_cards.simps [of s])
    with Some m 1(1) [OF Some] search_Some [of s v x r] show ?thesis by auto
  qed
qed

lemma check_card_iff: "is_card c \<Longrightarrow> check_card c = 0"
  by (simp add: is_card_def check_card_def)

text \<open>After \<open>split_cards\<close> the check can fail for the number of cards only.\<close>

lemma check_correctness_split:
  "check_correctness (split_cards s) n = (if n < length (split_cards s) then -1 else 0)"
  using split_cards_are_cards [of _ s] by (auto simp: check_correctness_def check_card_iff)

end
