(* ===== verification/Kierki_Client.thy ===== *)
theory Kierki_Client
  imports Kierki_Player
begin

text \<open>
  The client of the card game: the messages it sends and receives (\<open>client/mess_handler.cpp\<close>),
  the commands of the user and the course of a game (\<open>client/non_auto_player.cpp\<close>,
  \<open>client/communication.cpp\<close>). The state is the player and the socket; the commands the user
  has still to give are a list, and they are carried out while the client waits for a card: at
  other times a command changes nothing but the console.
\<close>

record client =
  is_auto_player :: bool
  client_addr :: string
  server_addr :: string

text \<open>\<open>if (is_auto_player) write_log(message, true, ...)\<close>; the message changes too.\<close>

definition log_in :: "client \<Rightarrow> string \<Rightarrow> net \<Rightarrow> string \<times> net" where
  "log_in c message n =
     (if is_auto_player c then write_log message True (client_addr c) (server_addr c) n
      else (message, n))"

abbreviation logged :: "client \<Rightarrow> string \<Rightarrow> net \<Rightarrow> net" where
  "logged c message n \<equiv> snd (log_in c message n)"

definition log_out :: "client \<Rightarrow> string \<Rightarrow> net \<Rightarrow> net" where
  "log_out c message n =
     (if is_auto_player c then snd (write_log message False (client_addr c) (server_addr c) n) else n)"

section \<open>IAM and DEAL\<close>

definition send_iam_message :: "client \<Rightarrow> char \<Rightarrow> net \<Rightarrow> net run" where
  "send_iam_message c position n =
     (let iam_msg = ''IAM'' @ [position] @ delimiter;
          (len, n) = write_message iam_msg n
      in if len < 0 then Exits else Returns (log_out c iam_msg n))"

type_synonym at_client = "player \<times> net"

text \<open>What a function does with one message; the loop around it is \<open>receive_loop\<close>.\<close>

definition deal_body ::
  "client \<Rightarrow> string \<Rightarrow> at_client \<Rightarrow> (at_client, int \<times> at_client) verdict"
where
  "deal_body c message = (\<lambda>(p, n).
     if length message < 4 \<or> take 4 message \<noteq> ''DEAL'' \<and> take 4 message \<noteq> ''BUSY''
     then Continue (p, logged c message n)
     else if take 4 message = ''BUSY'' then
       let taken_places = drop 4 message in
       if 4 < length taken_places \<or> taken_places = [] then Continue (p, logged c message n)
       else if \<exists>x\<in>set taken_places. check_position x < 0 then Continue (p, logged c message n)
       else if \<not> is_auto_player c then
         Finish (Returns (-1, p, print (''Place busy, list of busy places received: '' @
             commas (map (\<lambda>x. [x]) taken_places) @ ''.'' @ [LF]) n))
       else Finish (Returns (-1, p, logged c message n))
     else if length message < 6 then Continue (p, logged c message n)
     else case safe_stoi [message ! 4] of
       None \<Rightarrow> Continue (p, logged c message n)
     | Some deal_type \<Rightarrow>
         if deal_type < 1 \<or> 7 < deal_type \<or> check_position (message ! 5) < 0
         then Continue (p, logged c message n)
         else
           let hand = drop 6 message; (r, p) = add_cards hand p in
           if r < 0 then Continue (p, logged c message n)
           else
             let p = p\<lparr>cards := hand\<rparr> in
             if \<not> is_auto_player c then
               Finish (Returns (0, p, print (''New deal '' @ [message ! 4] @ '': staring place '' @
                 [message ! 5] @ '', your cards: '' @ commas (split_cards hand) @ ''.'' @ [LF]) n))
             else Finish (Returns (0, p, logged c message n)))"

definition receive_deal_message ::
  "client \<Rightarrow> received list \<Rightarrow> at_client \<Rightarrow> ((int \<times> at_client) \<times> received list) run"
where
  "receive_deal_message c =
     receive_loop (\<lambda>len s. if len = -2 then Returns (-1, s) else Exits) (deal_body c)"

section \<open>TRICK\<close>

definition number_length :: "nat \<Rightarrow> nat" where
  "number_length trick_number = (if trick_number < 10 then 1 else 2)"

definition show_trick :: "nat \<Rightarrow> string list \<Rightarrow> player \<Rightarrow> string" where
  "show_trick trick_number cards_vector p =
     ''Trick: ('' @ dec trick_number @ '') '' @ commas cards_vector @ [LF] @
     ''Available: '' @ commas (available_cards p) @ [LF]"

definition trick_body ::
  "client \<Rightarrow> nat \<Rightarrow> string \<Rightarrow> at_client \<Rightarrow> (at_client, int \<times> at_client) verdict"
where
  "trick_body c trick_number message = (\<lambda>(p, n).
     if length message < 5 \<or> take 5 message \<noteq> ''TRICK'' then Continue (p, logged c message n)
     else if length message < 5 + number_length trick_number then Continue (p, logged c message n)
     else case safe_stoi (take (number_length trick_number) (drop 5 message)) of
       None \<Rightarrow> Continue (p, logged c message n)
     | Some trick_from_msg \<Rightarrow>
         if trick_from_msg \<noteq> trick_number then Continue (p, logged c message n)
         else
           let table = drop (5 + number_length trick_number) message;
               cards_vector = split_cards table in
           if check_correctness cards_vector 3 < 0 then Continue (p, logged c message n)
           else
             let p = p\<lparr>cards_from_trick := table, current_trick := cards_vector\<rparr> in
             if \<not> is_auto_player c then
               Finish (Returns (0, p, print (show_trick trick_number cards_vector p) n))
             else Finish (Returns (0, p, logged c message n)))"

definition receive_trick_message ::
  "client \<Rightarrow> nat \<Rightarrow> received list \<Rightarrow> at_client \<Rightarrow> ((int \<times> at_client) \<times> received list) run"
where
  "receive_trick_message c trick_number =
     receive_loop (\<lambda>len s. Exits) (trick_body c trick_number)"

definition send_trick_message :: "client \<Rightarrow> nat \<Rightarrow> at_client \<Rightarrow> (int \<times> at_client) run" where
  "send_trick_message c trick_number = (\<lambda>(p, n).
     let (c_played, p) = (if \<not> is_auto_player c then (played_card p, p) else select_card p);
         trick_msg = ''TRICK'' @ dec trick_number @ c_played @ delimiter;
         (len, n) = write_message trick_msg n
     in if len < 0 then Exits else Returns (0, p, log_out c trick_msg n))"

section \<open>TAKEN\<close>

definition show_taken :: "nat \<Rightarrow> char \<Rightarrow> string list \<Rightarrow> string" where
  "show_taken trick_number position cards_vector =
     ''A trick '' @ dec trick_number @ '' is taken by '' @ [position] @ '', cards '' @
     commas cards_vector @ ''.'' @ [LF]"

definition taken_body ::
  "client \<Rightarrow> nat \<Rightarrow> char \<Rightarrow> string \<Rightarrow> at_client \<Rightarrow> (at_client, int \<times> at_client) verdict"
where
  "taken_body c trick_number my_position message = (\<lambda>(p, n).
     if length message < 5 \<or> take 5 message \<noteq> ''TAKEN'' then Continue (p, logged c message n)
     else if check_position (last message) < 0 then Continue (p, logged c message n)
     else
       let position = last message; message = butlast message in
       if length message < 5 + number_length trick_number
       then Continue (p, logged c (message @ [position]) n)
       else case safe_stoi (take (number_length trick_number) (drop 5 message)) of
         None \<Rightarrow> Continue (p, logged c (message @ [position]) n)
       | Some trick_from_msg \<Rightarrow>
           if trick_from_msg \<noteq> trick_number then Continue (p, logged c (message @ [position]) n)
           else
             let cards_vector = split_cards (drop (5 + number_length trick_number) message) in
             if length cards_vector \<noteq> 4 \<or> check_correctness cards_vector 4 < 0
             then Continue (p, logged c (message @ [position]) n)
             else if \<not> is_auto_player c then
               Finish (Returns (0, if position = my_position then add_taken_trick cards_vector p else p,
                 print (show_taken trick_number position cards_vector) n))
             else Finish (Returns (0, p, logged c (message @ [position]) n)))"

definition receive_taken_message ::
  "client \<Rightarrow> nat \<Rightarrow> char \<Rightarrow> received list \<Rightarrow> at_client \<Rightarrow> ((int \<times> at_client) \<times> received list) run"
where
  "receive_taken_message c trick_number my_position =
     receive_loop (\<lambda>len s. Exits) (taken_body c trick_number my_position)"

section \<open>SCORE and TOTAL\<close>

text \<open>
  The loop over the text of a message that \<open>receive_score_message\<close> and
  \<open>receive_total_message\<close> both have. Its \<open>continue\<close> goes on with the same message, which
  \<open>write_log\<close> has made longer; the loop need not end.
\<close>

partial_function (option) score_loop ::
  "client \<Rightarrow> string \<Rightarrow> nat \<Rightarrow> (char \<Rightarrow> nat option) \<Rightarrow> net \<Rightarrow>
   (string \<times> (char \<Rightarrow> nat option) \<times> net) option"
where
  "score_loop c message index scores n =
     (if index < length message then
        (let position = message ! index in
         if check_position position < 0 \<or> scores position \<noteq> None then
           score_loop c (fst (log_in c message n)) (index + 1) scores (logged c message n)
         else
           (let score_str = takeWhile is_digit (drop (index + 1) message);
                index' = index + 1 + length score_str in
            case safe_stoi score_str of
              None \<Rightarrow> score_loop c (fst (log_in c message n)) index' scores (logged c message n)
            | Some score \<Rightarrow> score_loop c message index' (scores(position \<mapsto> score)) n))
      else Some (message, scores, n))"

declare score_loop.simps [code]

fun score_lines :: "char list \<Rightarrow> (char \<Rightarrow> nat option) \<Rightarrow> string" where
  "score_lines [] scores = []"
| "score_lines (x # xs) scores =
     (case scores x of None \<Rightarrow> [] | Some v \<Rightarrow> [x] @ '' | '' @ dec v @ [LF]) @ score_lines xs scores"

definition scores_body ::
  "string \<Rightarrow> string \<Rightarrow> client \<Rightarrow> string \<Rightarrow> at_client \<Rightarrow> (at_client, int \<times> at_client) verdict"
where
  "scores_body tag title c message = (\<lambda>(p, n).
     if length message < 5 \<or> take 5 message \<noteq> tag then Continue (p, logged c message n)
     else case score_loop c message 5 Map.empty n of
       None \<Rightarrow> Finish Loops
     | Some (message, scores, n) \<Rightarrow>
         if \<not> is_auto_player c then
           Finish (Returns (0, p, print (title @ [LF] @ score_lines ''ENSW'' scores) n))
         else Finish (Returns (0, p, logged c message n)))"

definition receive_score_message ::
  "client \<Rightarrow> received list \<Rightarrow> at_client \<Rightarrow> ((int \<times> at_client) \<times> received list) run"
where
  "receive_score_message c =
     receive_loop (\<lambda>len s. Exits) (scores_body ''SCORE'' ''The scores are:'' c)"

definition receive_total_message ::
  "client \<Rightarrow> received list \<Rightarrow> at_client \<Rightarrow> ((int \<times> at_client) \<times> received list) run"
where
  "receive_total_message c =
     receive_loop (\<lambda>len s. Exits) (scores_body ''TOTAL'' ''The total scores are:'' c)"

section \<open>TAKEN or TRICK, at the start of a deal\<close>

text \<open>
  A client that joins a deal under way is told of the tricks so far and takes its own card of
  each from its hand: the one at its own index among the four.
\<close>

definition forget_card :: "client \<Rightarrow> string \<Rightarrow> player \<Rightarrow> player" where
  "forget_card c mine p =
     (if is_auto_player c then erase_from_cards_by_suit mine p else erase_from_available_cards mine p)"

definition taken_or_trick_done ::
  "client \<Rightarrow> nat \<Rightarrow> char \<Rightarrow> bool \<Rightarrow> char \<Rightarrow> string list \<Rightarrow> string \<Rightarrow> at_client \<Rightarrow> int \<times> at_client"
where
  "taken_or_trick_done c trick_number my_position is_taken position cards_vector message = (\<lambda>(p, n).
     if \<not> is_auto_player c then
       if is_taken then
         (0, if position = my_position then add_taken_trick cards_vector p else p,
          print (show_taken trick_number position cards_vector) n)
       else (1, p, print (show_trick trick_number cards_vector p) n)
     else (if is_taken then 0 else 1, p, logged c message n))"

definition taken_or_trick_body ::
  "client \<Rightarrow> nat \<Rightarrow> char \<Rightarrow> string \<Rightarrow> at_client \<Rightarrow> (at_client, int \<times> at_client) verdict"
where
  "taken_or_trick_body c trick_number my_position message0 = (\<lambda>(p, n).
     if length message0 < 5 \<or> take 5 message0 \<noteq> ''TAKEN'' \<and> take 5 message0 \<noteq> ''TRICK''
     then Continue (p, logged c message0 n)
     else
       let is_taken = (take 5 message0 = ''TAKEN'') in
       if is_taken \<and> check_position (last message0) < 0 then Continue (p, logged c message0 n)
       else
         let position = (if is_taken then last message0 else my_position);
             message = (if is_taken then butlast message0 else message0);
             restored = (if is_taken then message @ [position] else message);
             start_index_of_cards = 5 + number_length trick_number in
         if length message < start_index_of_cards then Continue (p, logged c restored n)
         else case safe_stoi (take (number_length trick_number) (drop 5 message)) of
           None \<Rightarrow> Continue (p, logged c restored n)
         | Some trick_from_msg \<Rightarrow>
             if trick_from_msg \<noteq> trick_number then Continue (p, logged c restored n)
             else if start_index_of_cards < length message then
               let table = drop start_index_of_cards message; cards_vector = split_cards table in
               if is_taken then
                 if length cards_vector \<noteq> 4 \<or> check_correctness cards_vector 4 < 0
                 then Continue (p, logged c restored n)
                 else
                   let pos = char_to_index my_position in
                   if pos < 0 then Finish Undefined
                   else Finish (Returns (taken_or_trick_done c trick_number my_position is_taken position
                          cards_vector restored (forget_card c (cards_vector ! nat pos) p, n)))
               else
                 if check_correctness cards_vector 3 < 0 then Continue (p, logged c restored n)
                 else Finish (Returns (taken_or_trick_done c trick_number my_position is_taken position
                        cards_vector restored
                        (p\<lparr>cards_from_trick := table, current_trick := cards_vector\<rparr>, n)))
             else Finish (Returns (taken_or_trick_done c trick_number my_position is_taken position
                    [] restored (p, n))))"

definition receive_taken_or_trick_message ::
  "client \<Rightarrow> nat \<Rightarrow> char \<Rightarrow> received list \<Rightarrow> at_client \<Rightarrow> ((int \<times> at_client) \<times> received list) run"
where
  "receive_taken_or_trick_message c trick_number my_position =
     receive_loop (\<lambda>len s. Exits) (taken_or_trick_body c trick_number my_position)"

section \<open>The commands of the user\<close>

definition display_trick_cards :: "player \<Rightarrow> string" where
  "display_trick_cards p = concat (map (\<lambda>t. commas t @ [LF]) (taken_tricks p))"

definition display_user_cards :: "player \<Rightarrow> string" where
  "display_user_cards p = commas (available_cards p) @ [LF]"

text \<open>
  One turn of the loop of \<open>user_input_thread\<close>: whether a card is still awaited, and the state;
  \<open>None\<close> is undefined behaviour.
\<close>

definition user_command :: "bool \<Rightarrow> string \<Rightarrow> player \<Rightarrow> net \<Rightarrow> (bool \<times> player \<times> net) option" where
  "user_command allowed command p n =
     (if command \<noteq> [] \<and> hd command = CHR ''!'' then
        if allowed then
          case check_if_correct_card (tl command) p of
            None \<Rightarrow> None
          | Some r \<Rightarrow>
              if r = -1 then Some (True, p, print (''Not the right suit.'' @ [LF]) n)
              else case set_played_card (tl command) p of (r, p) \<Rightarrow>
                if r = -1 then Some (True, p, print (''Not the right card.'' @ [LF]) n)
                else Some (False, p, n)
        else Some (allowed, p, print (''Not the right time to place a card.'' @ [LF]) n)
      else if command = ''tricks'' then Some (allowed, p, print (display_trick_cards p) n)
      else if command = ''cards'' then Some (allowed, p, print (display_user_cards p) n)
      else Some (allowed, p, print (''Unknown command.'' @ [LF]) n))"

text \<open>\<open>sem_server_ready.acquire()\<close>: without a card from the user it does not return.\<close>

fun await_card :: "string list \<Rightarrow> player \<Rightarrow> net \<Rightarrow> (string list \<times> player \<times> net) run" where
  "await_card [] p n = Loops"
| "await_card (command # us) p n =
     (case user_command True command p n of
        None \<Rightarrow> Undefined
      | Some (allowed, p, n) \<Rightarrow> if allowed then await_card us p n else Returns (us, p, n))"

section \<open>The course of a game\<close>

text \<open>
  \<open>mess_handler\<close>: the state is that of the client with the commands \<open>us\<close> of the user still to
  come and the bytes \<open>rs\<close> still to be read. The first trick number is the one the server
  says; then up to thirteen tricks, the scores, and the next deal.
\<close>

lemma taken_or_trick_shorter:
  "receive_taken_or_trick_message c k pos rs s = Returns (r, rs') \<Longrightarrow> length rs' < length rs"
  unfolding receive_taken_or_trick_message_def by (drule receive_loop_shorter) auto

function first_trick ::
  "client \<Rightarrow> char \<Rightarrow> nat \<Rightarrow> received list \<Rightarrow> at_client \<Rightarrow> (nat \<times> at_client \<times> received list) run"
where
  "first_trick c position i rs s =
     run_bind (receive_taken_or_trick_message c (i + 1) position rs s) (\<lambda>x.
       if fst (fst x) = 1 then Returns (i, snd (fst x), snd x)
       else first_trick c position (i + 1) (snd x) (snd (fst x)))"
  by pat_completeness auto
termination
  by (relation "measure (\<lambda>(c, position, i, rs, s). length rs)") (auto dest: taken_or_trick_shorter)

declare first_trick.simps [simp del]

lemma first_trick_later:
  "first_trick c position i rs s = Returns (j, s', rs') \<Longrightarrow> i \<le> j \<and> length rs' < length rs"
proof (induction c position i rs s rule: first_trick.induct)
  case (1 c position i rs s)
  from 1(2) obtain x where
    mx: "receive_taken_or_trick_message c (i + 1) position rs s = Returns x"
    and nx: "(if fst (fst x) = 1 then Returns (i, snd (fst x), snd x)
        else first_trick c position (i + 1) (snd x) (snd (fst x))) = Returns (j, s', rs')"
    unfolding first_trick.simps [of c position i rs s] run_bind_eq_Returns by blast
  obtain r s1 rs1 where x: "x = ((r, s1), rs1)" by (metis prod.exhaust)
  note m = mx [unfolded x] and next_ = nx [unfolded x fst_conv snd_conv]
  show ?case
  proof (cases "r = 1")
    case True
    with next_ taken_or_trick_shorter [OF m] show ?thesis by auto
  next
    case False
    with next_ 1(1) [OF mx] x taken_or_trick_shorter [OF m] show ?thesis by auto
  qed
qed

text \<open>A trick whose table has been received: the player's card, then who took it.\<close>

definition answer_trick ::
  "client \<Rightarrow> char \<Rightarrow> nat \<Rightarrow> string list \<Rightarrow> received list \<Rightarrow> at_client \<Rightarrow>
   (string list \<times> at_client \<times> received list) run"
where
  "answer_trick c position i us rs s =
     run_bind (if is_auto_player c then Returns (us, s) else await_card us (fst s) (snd s)) (\<lambda>(us, s).
     run_bind (send_trick_message c (i + 1) s) (\<lambda>(r, s).
     run_bind (receive_taken_message c (i + 1) position rs s) (\<lambda>((r, s), rs).
     Returns (us, s, rs))))"

function play_tricks ::
  "client \<Rightarrow> char \<Rightarrow> nat \<Rightarrow> string list \<Rightarrow> received list \<Rightarrow> at_client \<Rightarrow>
   (string list \<times> at_client \<times> received list) run"
where
  "play_tricks c position i us rs s =
     (if i < 13 then
        run_bind
          (if i = 0 then first_trick c position i rs s
           else run_bind (receive_trick_message c (i + 1) rs s) (\<lambda>((r, s), rs). Returns (i, s, rs)))
          (\<lambda>x. run_bind (answer_trick c position (fst x) us (snd (snd x)) (fst (snd x)))
             (\<lambda>y. play_tricks c position (fst x + 1) (fst y) (snd (snd y)) (fst (snd y))))
      else Returns (us, s, rs))"
  by pat_completeness auto
termination
  by (relation "measure (\<lambda>(c, position, i, us, rs, s). 13 - i)")
    (auto simp: run_bind_eq_Returns dest: first_trick_later split: if_splits)

declare play_tricks.simps [simp del]

lemma answer_trick_not_longer:
  "answer_trick c position i us rs s = Returns (us', s', rs') \<Longrightarrow> length rs' \<le> length rs"
  unfolding answer_trick_def receive_taken_message_def
  by (auto simp: run_bind_eq_Returns split: prod.splits dest: receive_loop_not_longer)

lemma next_table_not_longer:
  assumes "(if i = 0 then first_trick c position i rs s
     else run_bind (receive_trick_message c (i + 1) rs s) (\<lambda>((r, s), rs). Returns (i, s, rs))) =
     Returns (j, s', rs')"
  shows "i \<le> j \<and> length rs' \<le> length rs"
proof (cases "i = 0")
  case True
  with assms first_trick_later [of c position i rs s j s' rs'] show ?thesis by simp
next
  case False
  with assms show ?thesis
    unfolding receive_trick_message_def
    by (auto simp: run_bind_eq_Returns dest: receive_loop_not_longer)
qed

lemma play_tricks_not_longer:
  "play_tricks c position i us rs s = Returns (us', s', rs') \<Longrightarrow> length rs' \<le> length rs"
proof (induction c position i us rs s rule: play_tricks.induct)
  case (1 c position i us rs s)
  show ?case
  proof (cases "i < 13")
    case True
    let ?table = "if i = 0 then first_trick c position i rs s
      else run_bind (receive_trick_message c (i + 1) rs s) (\<lambda>((r, s), rs). Returns (i, s, rs))"
    from 1(2) True obtain x y where x: "?table = Returns x"
      and y: "answer_trick c position (fst x) us (snd (snd x)) (fst (snd x)) = Returns y"
      and z: "play_tricks c position (fst x + 1) (fst y) (snd (snd y)) (fst (snd y)) =
        Returns (us', s', rs')"
      unfolding play_tricks.simps [of c position i us rs s] run_bind_eq_Returns if_P [OF True]
      by blast
    have "length (snd (snd x)) \<le> length rs"
      using next_table_not_longer x by (metis prod.collapse)
    moreover have "length (snd (snd y)) \<le> length (snd (snd x))"
      using answer_trick_not_longer y by (metis prod.collapse)
    ultimately show ?thesis using 1(1) [OF True x y z] by simp
  next
    case False
    with 1(2) show ?thesis by (simp add: play_tricks.simps [of c position i us rs s])
  qed
qed

text \<open>The flags say whether the scores and the totals of the last deal have been received.\<close>

function mess_loop ::
  "client \<Rightarrow> char \<Rightarrow> bool \<Rightarrow> bool \<Rightarrow> string list \<Rightarrow> received list \<Rightarrow> at_client \<Rightarrow>
   (bool \<times> bool \<times> string list \<times> at_client \<times> received list) run"
where
  "mess_loop c position received_score received_total us rs s =
     run_bind (receive_deal_message c rs s) (\<lambda>x.
       if fst (fst x) < 0 then Returns (received_score, received_total, us, snd (fst x), snd x)
       else
         run_bind (play_tricks c position 0 us (snd x) (snd (fst x))) (\<lambda>y.
         run_bind (receive_score_message c (snd (snd y)) (fst (snd y))) (\<lambda>z.
         run_bind (receive_total_message c (snd z) (snd (fst z))) (\<lambda>w.
           mess_loop c position True True (fst y) (snd w)
             (if is_auto_player c then snd (fst w)
              else (erase_taken_tricks (fst (snd (fst w))), snd (snd (fst w))))))))"
  by pat_completeness auto
termination
proof (relation "measure (\<lambda>(c, position, a, b, us, rs, s). length rs)", goal_cases)
  case (2 c position a b us rs s x y z w)
  obtain r s1 rs1 where x: "x = ((r, s1), rs1)" by (metis prod.exhaust)
  with 2 have "length rs1 < length rs"
    unfolding receive_deal_message_def by (auto dest!: receive_loop_shorter split: if_splits)
  moreover have "length (snd (snd y)) \<le> length rs1"
    using play_tricks_not_longer 2(3) x by (metis prod.collapse snd_conv)
  moreover have "length (snd z) \<le> length (snd (snd y))"
    using 2(4) receive_loop_not_longer unfolding receive_score_message_def by (metis prod.collapse)
  moreover have "length (snd w) \<le> length (snd z)"
    using 2(5) receive_loop_not_longer unfolding receive_total_message_def by (metis prod.collapse)
  ultimately show ?case by simp
qed simp

declare mess_loop.simps [simp del]

definition mess_handler ::
  "client \<Rightarrow> char \<Rightarrow> string list \<Rightarrow> received list \<Rightarrow> at_client \<Rightarrow>
   (int \<times> string list \<times> at_client \<times> received list) run"
where
  "mess_handler c position us rs s =
     run_bind (mess_loop c position False False us rs s)
       (\<lambda>(received_score, received_total, us, s, rs).
          Returns (if \<not> received_score \<or> \<not> received_total then -1 else 0, us, s, rs))"

definition start_communication ::
  "client \<Rightarrow> char \<Rightarrow> string list \<Rightarrow> received list \<Rightarrow> net \<Rightarrow> (int \<times> at_client) run"
where
  "start_communication c position us rs n =
     run_bind (send_iam_message c position n) (\<lambda>n.
     run_bind (mess_handler c position us rs (new_player, n)) (\<lambda>(r, us, s, rs).
     Returns (if r < 0 then -1 else 0, s)))"

end
