(* ===== verification/Kierki_Deal.thy ===== *)
theory Kierki_Deal
  imports Kierki_Player
begin

text \<open>
  What the server keeps of a game: tricks, deals with their points, the file the deals are read
  from and the state of a seat (\<open>server/trick.cpp\<close>, \<open>deal.cpp\<close>, \<open>game.cpp\<close>, \<open>game_state.cpp\<close>).
  \<open>None\<close> is undefined behaviour: the value of a card that is not in \<open>card_values\<close>, a score
  of a player that does not exist.
\<close>

section \<open>Tricks\<close>

record trick_card =
  value_string :: string
  suit :: char
  value_int :: int

record trick =
  winning_player :: int
  current_trick_player :: int
  cards_string :: string
  trick_cards :: "trick_card list"

definition new_trick :: "int \<Rightarrow> trick" where
  "new_trick start_player =
     \<lparr>winning_player = -1, current_trick_player = start_player, cards_string = [], trick_cards = []\<rparr>"

definition add_card_to_cards :: "string \<Rightarrow> trick \<Rightarrow> trick option" where
  "add_card_to_cards c t =
     (if c = [] then None
      else case card_values (butlast c) of
        None \<Rightarrow> None
      | Some v \<Rightarrow> Some (t\<lparr>cards_string := cards_string t @ c,
          trick_cards := trick_cards t @ [\<lparr>value_string = butlast c, suit = last c, value_int = v\<rparr>]\<rparr>))"

section \<open>Deals\<close>

record deal =
  deal_type :: int
  lead_player :: char
  players :: "player list"
  tricks :: "trick list"
  deal_scores :: "int list"

definition new_deal :: "int \<Rightarrow> char \<Rightarrow> deal" where
  "new_deal ty lead =
     \<lparr>deal_type = ty, lead_player = lead, players = replicate 4 new_player,
      tricks = replicate 13 (new_trick (char_to_index lead)), deal_scores = replicate 4 0\<rparr>"

text \<open>The hand is kept as it is in the file, whether or not it is one of thirteen cards.\<close>

definition add_player_cards :: "nat \<Rightarrow> string \<Rightarrow> deal \<Rightarrow> deal run" where
  "add_player_cards player_index hand d =
     (if length (players d) \<le> player_index then Exits
      else
        let p = (players d ! player_index)\<lparr>cards := hand\<rparr>;
            (r, p) = add_cards hand p
        in Returns (d\<lparr>players := (players d)[player_index := p]\<rparr>))"

text \<open>The numbers that are added, one after the other, to the score of who took trick \<open>i\<close>.\<close>

definition increments :: "int \<Rightarrow> nat \<Rightarrow> trick \<Rightarrow> int list" where
  "increments ty i t =
     (let per_card = (\<lambda>P v. concat (map (\<lambda>c. if P c then [v] else []) (trick_cards t)));
          heart = (\<lambda>c. suit c = CHR ''H'');
          queen = (\<lambda>c. value_string c = ''Q'');
          lord = (\<lambda>c. value_string c = ''J'' \<or> value_string c = ''K'');
          king_of_hearts = (\<lambda>c. value_string c = ''K'' \<and> suit c = CHR ''H'')
      in if ty = 1 then [1]
         else if ty = 2 then per_card heart 1
         else if ty = 3 then per_card queen 5
         else if ty = 4 then per_card lord 2
         else if ty = 5 then per_card king_of_hearts 18
         else if ty = 6 then (if i = 6 \<or> i = 12 then [10] else [])
         else if ty = 7 then
           [1] @ concat (map (\<lambda>c.
               (if heart c then [1] else []) @ (if queen c then [5] else []) @
               (if lord c then [2] else []) @ (if king_of_hearts c then [18] else [])) (trick_cards t))
           @ (if i = 6 \<or> i = 12 then [10] else [])
         else [])"

fun add_scores :: "int \<Rightarrow> int list \<Rightarrow> int list \<Rightarrow> int list option" where
  "add_scores winner [] scores = Some scores"
| "add_scores winner (v # vs) scores =
     (if 0 \<le> winner \<and> winner < int (length scores)
      then add_scores winner vs (scores[nat winner := scores ! nat winner + v])
      else None)"

fun points_loop :: "int \<Rightarrow> nat \<Rightarrow> trick list \<Rightarrow> int list \<Rightarrow> int list option" where
  "points_loop ty i [] scores = Some scores"
| "points_loop ty i (t # ts) scores =
     Option.bind (add_scores (winning_player t) (increments ty i t) scores) (points_loop ty (Suc i) ts)"

definition calculate_points :: "deal \<Rightarrow> deal option" where
  "calculate_points d =
     map_option (\<lambda>scores. d\<lparr>deal_scores := scores\<rparr>)
       (points_loop (deal_type d) 0 (tricks d) (deal_scores d))"

section \<open>The file of a game\<close>

text \<open>The file is the list of its lines; a number that \<open>stoi\<close> rejects ends the process.\<close>

fun load_hands :: "nat \<Rightarrow> nat \<Rightarrow> string list \<Rightarrow> deal \<Rightarrow> (string list \<times> deal) run" where
  "load_hands 0 i ls d = Returns (ls, d)"
| "load_hands (Suc k) i [] d = Exits"
| "load_hands (Suc k) i (l # ls) d =
     (if l = [] then load_hands k (Suc i) ls d
      else run_bind (add_player_cards i l d) (load_hands k (Suc i) ls))"

lemma load_hands_shorter: "load_hands k i ls d = Returns (ls', d') \<Longrightarrow> length ls' \<le> length ls"
  by (induction k i ls d rule: load_hands.induct)
    (fastforce simp: run_bind_eq_Returns split: if_splits)+

function load_from_file :: "string list \<Rightarrow> deal list run" where
  "load_from_file [] = Returns []"
| "load_from_file (l # ls) =
     (if l = [] then load_from_file ls
      else if length l < 2 then Exits
      else case stoi (take 1 l) of
        Inl e \<Rightarrow> Exits
      | Inr ty \<Rightarrow>
          run_bind (load_hands 4 0 ls (new_deal ty (l ! 1))) (\<lambda>x.
          run_bind (load_from_file (fst x)) (\<lambda>ds. Returns (snd x # ds))))"
  by pat_completeness auto
termination
  by (relation "measure length") (auto dest: load_hands_shorter simp: less_Suc_eq_le)

section \<open>The state of a seat\<close>

record game_state =
  seat_occupied :: bool
  at_deal :: nat
  at_trick :: nat
  disconnect_on_deal_handler :: bool
  disconnect_on_trick_handler :: bool
  disconnect_on_send_taken_msg :: bool
  disconnect_on_score_total_handler :: bool

definition new_game_state :: game_state where
  "new_game_state = \<lparr>seat_occupied = False, at_deal = 0, at_trick = 0,
     disconnect_on_deal_handler = False, disconnect_on_trick_handler = False,
     disconnect_on_send_taken_msg = False, disconnect_on_score_total_handler = False\<rparr>"

definition reset_trick :: "game_state \<Rightarrow> game_state" where
  "reset_trick g = g\<lparr>at_trick := 0\<rparr>"

end
