(* ===== verification/Kierki_Server.thy ===== *)
theory Kierki_Server
  imports Kierki_Deal
begin

text \<open>
  The messages of the server of the card game and what it does with one client
  (\<open>server/client_handler.cpp\<close>). A function of the source that reports -2 (the connection is
  gone) returns it here; every other failed write ends the process. The locks around the log
  and the accept loop serialise their blocks and are not part of the state.
\<close>

record connection =
  client_of :: string
  server_of :: string

definition log_sent :: "connection \<Rightarrow> string \<Rightarrow> net \<Rightarrow> net" where
  "log_sent c m n = snd (write_log m False (server_of c) (client_of c) n)"

definition log_received :: "connection \<Rightarrow> string \<Rightarrow> net \<Rightarrow> net" where
  "log_received c m n = snd (write_log m True (server_of c) (client_of c) n)"

text \<open>The end of every sending function: write, report a lost connection, log.\<close>

definition send_or_lost :: "connection \<Rightarrow> string \<Rightarrow> net \<Rightarrow> (int \<times> net) run" where
  "send_or_lost c msg n =
     (case write_message msg n of (len, n) \<Rightarrow>
        if len < 0 then (if len = -2 then Returns (-2, n) else Exits)
        else Returns (0, log_sent c msg n))"

definition send_or_exit :: "connection \<Rightarrow> string \<Rightarrow> net \<Rightarrow> (int \<times> net) run" where
  "send_or_exit c msg n =
     (case write_message msg n of (len, n) \<Rightarrow>
        if len < 0 then Exits else Returns (0, log_sent c msg n))"

section \<open>Seats\<close>

fun occupied_from :: "int \<Rightarrow> game_state list \<Rightarrow> string run" where
  "occupied_from i [] = Returns []"
| "occupied_from i (g # gs) =
     run_bind (if seat_occupied g then (case index_to_char i of Inl e \<Rightarrow> Exits | Inr x \<Rightarrow> Returns [x])
               else Returns []) (\<lambda>x.
     run_bind (occupied_from (i + 1) gs) (\<lambda>xs. Returns (x @ xs)))"

definition send_busy_message :: "connection \<Rightarrow> game_state list \<Rightarrow> net \<Rightarrow> (int \<times> net) run" where
  "send_busy_message c gs n =
     run_bind (occupied_from 0 gs) (\<lambda>taken. send_or_exit c (''BUSY'' @ taken @ delimiter) n)"

definition receive_iam_message ::
  "connection \<Rightarrow> received list \<Rightarrow> game_state list \<Rightarrow> net \<Rightarrow>
   (int \<times> game_state list \<times> received list \<times> net) run"
where
  "receive_iam_message c rs gs n =
     (case readn [] rs of (len, message, rs) \<Rightarrow>
        if len < 0 then Exits
        else if length message \<noteq> 4 \<or> take 3 message \<noteq> ''IAM'' then Returns (-1, gs, rs, n)
        else
          let seat = char_to_index (message ! 3) in
          if seat < 0 \<or> seat_occupied (gs ! nat seat) then
            run_bind (send_busy_message c gs n) (\<lambda>(r, n). Returns (-1, gs, rs, n))
          else Returns (seat, gs[nat seat := (gs ! nat seat)\<lparr>seat_occupied := True\<rparr>], rs,
                 log_received c message n))"

section \<open>Messages\<close>

definition deal_message :: "nat \<Rightarrow> deal \<Rightarrow> string" where
  "deal_message seat d =
     ''DEAL'' @ printf_d (deal_type d) @ [lead_player d] @ cards (players d ! seat) @ delimiter"

definition send_deal_message :: "connection \<Rightarrow> nat \<Rightarrow> deal \<Rightarrow> net \<Rightarrow> (int \<times> net) run" where
  "send_deal_message c seat d n = send_or_lost c (deal_message seat d) n"

definition send_wrong_message :: "connection \<Rightarrow> nat \<Rightarrow> net \<Rightarrow> (int \<times> net) run" where
  "send_wrong_message c trick_number n =
     send_or_exit c (''WRONG'' @ dec trick_number @ delimiter) n"

definition trick_message :: "nat \<Rightarrow> trick \<Rightarrow> string" where
  "trick_message index t = ''TRICK'' @ dec index @ cards_string t @ delimiter"

definition send_trick_message :: "connection \<Rightarrow> nat \<Rightarrow> trick \<Rightarrow> net \<Rightarrow> (int \<times> net) run" where
  "send_trick_message c index t n = send_or_lost c (trick_message index t) n"

definition taken_message :: "nat \<Rightarrow> trick \<Rightarrow> string throws" where
  "taken_message index t =
     try_bind (index_to_char (winning_player t)) (\<lambda>w.
       Inr (''TAKEN'' @ dec index @ cards_string t @ [w] @ delimiter))"

text \<open>No handler catches the exception of \<open>index_to_char\<close>.\<close>

definition send_taken_message :: "connection \<Rightarrow> nat \<Rightarrow> trick \<Rightarrow> net \<Rightarrow> (int \<times> net) run" where
  "send_taken_message c index t n =
     (case taken_message index t of Inl e \<Rightarrow> Exits | Inr msg \<Rightarrow> send_or_lost c msg n)"

fun score_text :: "int \<Rightarrow> int list \<Rightarrow> string throws" where
  "score_text i [] = Inr []"
| "score_text i (v # vs) =
     try_bind (index_to_char i) (\<lambda>x. try_bind (score_text (i + 1) vs) (\<lambda>rest. Inr ([x] @ printf_d v @ rest)))"

definition send_score_message :: "connection \<Rightarrow> deal \<Rightarrow> net \<Rightarrow> (int \<times> net) run" where
  "send_score_message c d n =
     (case score_text 0 (deal_scores d) of
        Inl e \<Rightarrow> Exits
      | Inr s \<Rightarrow> send_or_lost c (''SCORE'' @ s @ delimiter) n)"

definition send_total_message :: "connection \<Rightarrow> int list \<Rightarrow> net \<Rightarrow> (int \<times> net) run" where
  "send_total_message c totals n =
     (case score_text 0 totals of
        Inl e \<Rightarrow> Exits
      | Inr s \<Rightarrow> send_or_lost c (''TOTAL'' @ s @ delimiter) n)"

definition score_total_handler :: "connection \<Rightarrow> deal \<Rightarrow> int list \<Rightarrow> net \<Rightarrow> (int \<times> net) run" where
  "score_total_handler c d totals n =
     run_bind (send_score_message c d n) (\<lambda>(r, n).
       if r = -2 then Returns (-2, n)
       else run_bind (send_total_message c totals n) (\<lambda>(r, n).
         if r = -2 then Returns (-2, n) else Returns (0, n)))"

section \<open>The card of a player\<close>

type_synonym at_table = "trick \<times> net"

definition reject_card :: "connection \<Rightarrow> nat \<Rightarrow> at_table \<Rightarrow> (at_table, int \<times> at_table) verdict" where
  "reject_card c index = (\<lambda>(t, n).
     case send_wrong_message c index n of
       Returns (r, n) \<Rightarrow> Continue (t, n)
     | Exits \<Rightarrow> Finish Exits | Undefined \<Rightarrow> Finish Undefined | Loops \<Rightarrow> Finish Loops)"

definition card_body ::
  "connection \<Rightarrow> nat \<Rightarrow> string \<Rightarrow> at_table \<Rightarrow> (at_table, int \<times> at_table) verdict"
where
  "card_body c index message = (\<lambda>(t, n).
     if length message < 5 \<and> take 5 message \<noteq> ''TRICK'' then
       Finish (Returns (-1, t, close_socket (log_received c message n)))
     else
       let number_length = (if index < 10 then 1 else 2);
           start_index_of_cards = 5 + number_length in
       if length message < start_index_of_cards then
         Finish (Returns (-1, t, close_socket (log_received c message n)))
       else
         let played = drop start_index_of_cards message in
         if check_correctness (split_cards played) 1 < 0 then reject_card c index (t, n)
         else case safe_stoi (take number_length (drop 5 message)) of
           None \<Rightarrow> reject_card c index (t, n)
         | Some trick_number \<Rightarrow>
             if trick_number \<noteq> index then reject_card c index (t, n)
             else case add_card_to_cards played t of
               None \<Rightarrow> Finish Undefined
             | Some t \<Rightarrow> Finish (Returns (0, t, log_received c message n)))"

definition receive_trick_message ::
  "connection \<Rightarrow> nat \<Rightarrow> received list \<Rightarrow> at_table \<Rightarrow> ((int \<times> at_table) \<times> received list) run"
where
  "receive_trick_message c index =
     receive_loop (\<lambda>len s. if len = -3 then Returns (-3, s) else if len = -2 then Returns (-2, s) else Exits)
       (card_body c index)"

text \<open>
  The loop of \<open>trick_handler\<close>: the trick is sent again whenever the time to answer is over.
  Every round takes something from \<open>rs\<close>, whose end is the end of the stream.
\<close>

lemma receive_trick_shorter:
  "receive_trick_message c index rs s = Returns ((r, s'), rs') \<Longrightarrow> r \<noteq> -2 \<Longrightarrow>
   length rs' < length rs"
  unfolding receive_trick_message_def by (drule receive_loop_shorter) auto

function trick_loop ::
  "connection \<Rightarrow> nat \<Rightarrow> received list \<Rightarrow> at_table \<Rightarrow> ((int \<times> at_table) \<times> received list) run"
where
  "trick_loop c index rs s =
     run_bind (send_trick_message c (index + 1) (fst s) (snd s)) (\<lambda>x.
       if fst x < 0 then
         if fst x = -2 then Returns ((-2, fst s, snd x), rs) else Exits
       else
         run_bind (receive_trick_message c (index + 1) rs (fst s, snd x)) (\<lambda>y.
           if fst (fst y) = -3 then trick_loop c index (snd y) (snd (fst y))
           else if fst (fst y) = -2 then Returns y
           else Returns ((0, snd (fst y)), snd y)))"
  by pat_completeness auto
termination
  by (relation "measure (\<lambda>(c, index, rs, s). length rs)")
    (simp_all, metis prod.collapse receive_trick_shorter numeral_eq_iff neg_equal_iff_equal
      num.distinct(5) semiring_norm(89))

declare trick_loop.simps [simp del]

text \<open>Who takes the trick: the highest card of the suit of the first, seats counted from the lead.\<close>

fun highest_from :: "nat \<Rightarrow> char \<Rightarrow> nat \<Rightarrow> int \<Rightarrow> trick_card list \<Rightarrow> nat" where
  "highest_from i lead index highest_value [] = index"
| "highest_from i lead index highest_value (c # cs) =
     (if suit c = lead \<and> highest_value < value_int c
      then highest_from (Suc i) lead i (value_int c) cs
      else highest_from (Suc i) lead index highest_value cs)"

definition choose_winner :: "char \<Rightarrow> trick \<Rightarrow> trick option" where
  "choose_winner lead t =
     (case trick_cards t of
        [] \<Rightarrow> None
      | c # cs \<Rightarrow>
          let index = highest_from 1 (suit c) 0 (value_int c) cs in
          Some (t\<lparr>winning_player := (char_to_index lead + int index) mod 4\<rparr>))"

text \<open>
  \<open>trick_handler\<close> between its two waits: the card of the player whose turn it is, and after the
  last card the winner; -2 is a lost connection, before the turn is passed on.
\<close>

definition trick_turn ::
  "connection \<Rightarrow> nat \<Rightarrow> char \<Rightarrow> int \<Rightarrow> received list \<Rightarrow> at_table \<Rightarrow>
   ((int \<times> at_table) \<times> received list) run"
where
  "trick_turn c index lead current_turn rs s =
     run_bind (trick_loop c index rs s) (\<lambda>((r, t, n), rs).
       if r = -2 then Returns ((-2, t, n), rs)
       else if current_turn = (char_to_index lead + 3) mod 4 then
         case choose_winner lead t of
           None \<Rightarrow> Undefined
         | Some t \<Rightarrow> Returns ((0, t, n), rs)
       else Returns ((0, t, n), rs))"

end
