(* ===== verification/Kierki_Wire.thy ===== *)
theory Kierki_Wire
  imports Kierki_Client Kierki_Server
begin

text \<open>
  What is written is read: a message that goes through \<open>writen\<close> comes out of \<open>readn\<close> without its
  delimiter, a number printed with \<open>to_string\<close> is the number \<open>stoull\<close> reads.
\<close>

section \<open>Messages\<close>

definition plain :: "string \<Rightarrow> bool" where
  "plain m \<longleftrightarrow> CR \<notin> set m"

abbreviation bytes :: "string \<Rightarrow> received list" where
  "bytes \<equiv> map Byte"

lemma plain_simps [simp]:
  "plain []" "plain (c # m) \<longleftrightarrow> c \<noteq> CR \<and> plain m" "plain (m @ m') \<longleftrightarrow> plain m \<and> plain m'"
  "plain (concat ms) \<longleftrightarrow> (\<forall>m\<in>set ms. plain m)"
  by (auto simp: plain_def)

lemma CR_neq_LF [simp]: "CR \<noteq> LF" "LF \<noteq> CR"
  by (simp_all add: CR_def LF_def)

lemma readn_loop_plain:
  "plain m \<Longrightarrow> plain buf \<Longrightarrow>
   readn_loop k buf (bytes m @ Byte CR # Byte LF # rs) = (int (k + length m), buf @ m, rs)"
proof (induction m arbitrary: k buf)
  case Nil
  then show ?case by (cases buf rule: rev_cases) (simp_all add: Let_def)
next
  case (Cons c m)
  have "drop (length buf - Suc 0) buf \<noteq> [CR]"
    using Cons.prems(2) by (cases buf rule: rev_cases) auto
  with Cons show ?case by (simp add: Let_def)
qed

lemma readn_plain:
  "plain m \<Longrightarrow> readn [] (bytes (m @ delimiter) @ rs) = (int (length m), m, rs)"
  using readn_loop_plain [of m "[]" 0 rs] by (simp add: readn_def)

lemma receive_plain:
  "plain m \<Longrightarrow> receive_loop failed body (bytes (m @ delimiter) @ rs) s =
     (case body m s of
        Continue s' \<Rightarrow> receive_loop failed body rs s'
      | Finish r \<Rightarrow> run_bind r (\<lambda>x. Returns (x, rs)))"
  unfolding receive_loop.simps [of failed body "bytes (m @ delimiter) @ rs"] readn_plain
  by simp

text \<open>Partial writes: whatever the pieces are, a successful \<open>writen\<close> has sent everything.\<close>

lemma writen_all: "writen ws buf = (r, out, ws') \<Longrightarrow> 0 \<le> r \<Longrightarrow> out = buf \<and> r = int (length buf)"
proof (induction ws buf arbitrary: r out ws' rule: writen.induct)
  case (5 k ws c buf)
  obtain r1 out1 ws1 where w: "writen ws (drop (min k (length (c # buf))) (c # buf)) = (r1, out1, ws1)"
    by (metis prod_cases3)
  with 5(2,3) have "0 \<le> r1" by (auto simp: Let_def split: if_splits)
  with 5(1) [OF refl w] have "out1 = drop (min k (length (c # buf))) (c # buf)" by blast
  with 5(2,3) w show ?case by (auto simp: Let_def min_def split: if_splits)
qed auto

lemma write_message_all:
  assumes "write_message m n = (r, n')" and "0 \<le> r"
  shows "is_open n \<or> m = []" and "is_open n \<Longrightarrow> sent n' = sent n @ m"
    and "is_open n' = is_open n" and "console n' = console n"
proof -
  obtain r1 out ws where w: "writen (if is_open n then writes n else [Write_error]) m = (r1, out, ws)"
    by (metis prod_cases3)
  with assms have r: "r1 = r" and n': "n' = (if is_open n then n\<lparr>writes := ws, sent := sent n @ out\<rparr> else n)"
    by (auto simp: write_message_def)
  from writen_all [OF w] r assms(2) have "out = m" by simp
  with n' w r assms(2) show "is_open n \<or> m = []" "is_open n \<Longrightarrow> sent n' = sent n @ m"
    "is_open n' = is_open n" "console n' = console n"
    by (cases m; auto split: if_splits)+
qed

section \<open>Numbers\<close>

lemma stoull_digits:
  assumes "ds \<noteq> []" and "\<forall>c\<in>set ds. is_digit c" and "digits_val ds < 2 ^ 64" and "0 \<le> digits_val ds"
  shows "stoull ds = Inr (nat (digits_val ds))"
proof -
  obtain d ds' where ds: "ds = d # ds'" using assms(1) by (cases ds) auto
  have d: "is_digit d" "\<not> is_space d" "d \<noteq> CHR ''-''" "d \<noteq> CHR ''+''"
    using assms(2) digit_not_space [of d] digit_not_sign [of d] by (simp_all add: ds)
  have t: "takeWhile is_digit ds' = ds'"
    using assms(2) while_digits [of ds' "[]"] by (simp add: ds)
  show ?thesis
    using assms(3,4) d t unfolding stoull_def Let_def ds by (simp del: takeWhile_eq_all_conv)
qed

lemma safe_stoi_dec: "k < 2 ^ 64 \<Longrightarrow> safe_stoi (dec k) = Some k"
  using stoull_digits [of "dec k"] dec_digits [of k]
  by (simp add: safe_stoi_def digits_val_dec)

lemma dec_plain [simp]: "plain (dec k)"
  using dec_digits [of k] by (auto simp: plain_def is_digit_def CR_def)

lemma dec_length: "k < 100 \<Longrightarrow> length (dec k) = number_length k"
  by (simp add: dec.simps [of k] dec.simps [of "k div 10"] number_length_def less_mult_imp_div_less)

lemma trick_number_read:
  "k < 100 \<Longrightarrow> take (number_length k) (dec k @ s) = dec k \<and> drop (number_length k) (dec k @ s) = s"
  by (simp flip: dec_length)

section \<open>Cards\<close>

lemma card_plain: "is_card c \<Longrightarrow> plain c"
  by (cases rule: is_card_cases) (auto simp: face_class_def suit_class_def CR_def)

end
