(* ===== verification/Kierki_Turn.thy ===== *)
theory Kierki_Turn
  imports Kierki_Wire
begin

text \<open>
  The hand of the automatic player as a multiset of cards, what \<open>add_cards\<close> and \<open>select_card\<close> do
  to it, and what each message of a well-behaved server does to the client that receives it.
\<close>

section \<open>The hand\<close>

definition cards_of :: "char list \<Rightarrow> (char \<Rightarrow> string list) \<Rightarrow> string list" where
  "cards_of ss f = concat (map (\<lambda>s. map (\<lambda>v. v @ [s]) (f s)) ss)"

abbreviation hand :: "player \<Rightarrow> string multiset" where
  "hand p \<equiv> mset (cards_of suit_class (cards_by_suit p))"

definition hand_ok :: "player \<Rightarrow> bool" where
  "hand_ok p \<longleftrightarrow> (\<forall>s. \<forall>v\<in>set (cards_by_suit p s). is_card (v @ [s]))"

lemma suit_class_distinct [simp]: "distinct suit_class"
  by (simp add: suit_class_def)

lemma cards_of_other: "s \<notin> set ss \<Longrightarrow> cards_of ss (f(s := xs)) = cards_of ss f"
  by (induction ss) (auto simp: cards_of_def)

lemma cards_of_upd:
  assumes "distinct ss" and "s \<in> set ss"
  shows "mset (cards_of ss (f(s := xs))) + mset (map (\<lambda>v. v @ [s]) (f s)) =
    mset (cards_of ss f) + mset (map (\<lambda>v. v @ [s]) xs)"
  using assms
proof (induction ss)
  case (Cons a ss)
  have c: "cards_of (a # ss) g = map (\<lambda>v. v @ [a]) (g a) @ cards_of ss g" for g
    by (simp add: cards_of_def)
  show ?case
  proof (cases "a = s")
    case True
    with Cons.prems(1) cards_of_other [of s ss f xs] have "cards_of ss (f(s := xs)) = cards_of ss f"
      by simp
    with True show ?thesis unfolding c by simp
  next
    case False
    with Cons show ?thesis by (simp add: c)
  qed
qed simp

lemma cards_of_iff: "x \<in> set (cards_of ss f) \<longleftrightarrow> (\<exists>s\<in>set ss. \<exists>v\<in>set (f s). x = v @ [s])"
  by (auto simp: cards_of_def)

lemma hand_of_suit:
  "s \<in> set suit_class \<Longrightarrow> v \<in> set (cards_by_suit p s) \<Longrightarrow> v @ [s] \<in># hand p"
  by (auto simp: cards_of_iff)

text \<open>A card follows the table when it has the suit of the first card or the hand has none of it.\<close>

definition follows :: "string list \<Rightarrow> string multiset \<Rightarrow> string \<Rightarrow> bool" where
  "follows table h c \<longleftrightarrow>
     table = [] \<or> last c = last (hd table) \<or> (\<forall>d\<in>#h. last d \<noteq> last (hd table))"

lemma play_front:
  assumes "s \<in> set suit_class" and "cards_by_suit p s \<noteq> []" and "hand_ok p"
    and "play_front s p = (c, p')"
  shows "c \<in># hand p \<and> hand p' = hand p - {#c#} \<and> is_card c \<and> hand_ok p' \<and> last c = s \<and>
    p' = p\<lparr>cards_by_suit := cards_by_suit p'\<rparr>"
proof -
  obtain v vs where v: "cards_by_suit p s = v # vs" using assms(2) by (cases "cards_by_suit p s") auto
  with assms(4) have c: "c = v @ [s]" and p': "p' = p\<lparr>cards_by_suit := (cards_by_suit p)(s := vs)\<rparr>"
    by (auto simp: play_front_def)
  have "hand p' + mset (map (\<lambda>v. v @ [s]) (v # vs)) = hand p + mset (map (\<lambda>v. v @ [s]) vs)"
    using cards_of_upd [OF suit_class_distinct assms(1), of "cards_by_suit p" vs] p' v by simp
  then have h: "hand p = add_mset c (hand p')" by (simp add: c)
  then have "c \<in># hand p" "hand p' = hand p - {#c#}" by simp_all
  moreover have "is_card c" using assms(3) v c by (simp add: hand_ok_def)
  moreover have "hand_ok p'" using assms(3) v p' by (auto simp: hand_ok_def)
  ultimately show ?thesis using c p' by simp
qed

lemma play_any:
  assumes "\<exists>s\<in>set ss. cards_by_suit p s \<noteq> []" and "set ss \<subseteq> set suit_class" and "hand_ok p"
    and "play_any ss p = (c, p')"
  shows "c \<in># hand p \<and> hand p' = hand p - {#c#} \<and> is_card c \<and> hand_ok p' \<and>
    p' = p\<lparr>cards_by_suit := cards_by_suit p'\<rparr>"
  using assms
proof (induction ss)
  case (Cons s ss)
  then show ?case using play_front [of s p c p'] by (auto split: if_splits)
qed simp

lemma first_of_table:
  assumes "\<forall>x\<in>set table. is_card x"
  shows "extract_first_card (concat table) = (if table = [] then [] else hd table)"
proof (cases table)
  case (Cons x xs)
  with assms search_app [of x "concat xs"] show ?thesis
    by (simp add: extract_first_card_def is_card_def)
qed (simp add: extract_first_card_def)

lemma select_card_plays:
  assumes "hand_ok p" and "hand p \<noteq> {#}" and "select_card p = (c, p')"
  shows "c \<in># hand p" and "hand p' = hand p - {#c#}" and "is_card c" and "hand_ok p'"
    and "p' = p\<lparr>cards_by_suit := cards_by_suit p'\<rparr>"
proof -
  have some: "\<exists>s\<in>set suit_class. cards_by_suit p s \<noteq> []"
    using assms(2) by (fastforce simp: cards_of_def)
  let ?f = "extract_first_card (cards_from_trick p)"
  have "c \<in># hand p \<and> hand p' = hand p - {#c#} \<and> is_card c \<and> hand_ok p' \<and>
      p' = p\<lparr>cards_by_suit := cards_by_suit p'\<rparr>"
  proof (cases "?f \<noteq> [] \<and> cards_by_suit p (last ?f) \<noteq> []")
    case True
    then obtain v x r where "regex_search (cards_from_trick p) = Some (v, x, r)"
      by (auto simp: extract_first_card_def split: option.splits)
    with search_Some [OF this] have "last ?f \<in> set suit_class"
      by (auto simp: extract_first_card_def is_card_def check_suit_iff split: if_splits)
    from play_front [OF this _ assms(1), of c p'] True assms(3) show ?thesis
      by (simp add: select_card_def Let_def)
  next
    case False
    with assms(3) have "play_any suit_class p = (c, p')" by (auto simp: select_card_def Let_def split: if_splits)
    with play_any [OF some _ assms(1)] show ?thesis by simp
  qed
  then show "c \<in># hand p" "hand p' = hand p - {#c#}" "is_card c" "hand_ok p'"
    "p' = p\<lparr>cards_by_suit := cards_by_suit p'\<rparr>" by simp_all
qed

lemma select_card_follows:
  assumes "hand_ok p" and "\<forall>x\<in>set table. is_card x" and "cards_from_trick p = concat table"
    and "select_card p = (c, p')"
  shows "follows table (hand p) c"
proof (cases "table \<noteq> [] \<and> cards_by_suit p (last (hd table)) \<noteq> []")
  case True
  then have t: "is_card (hd table)" using assms(2) by (cases table) auto
  then have s: "last (hd table) \<in> set suit_class" and "hd table \<noteq> []"
    by (auto simp: is_card_def check_suit_iff split: if_splits)
  with True assms(4) have "play_front (last (hd table)) p = (c, p')"
    by (simp add: select_card_def first_of_table [OF assms(2)] assms(3) Let_def)
  with play_front [OF s _ assms(1)] True show ?thesis by (auto simp: follows_def)
qed (auto simp: follows_def cards_of_iff)

section \<open>Taking a hand\<close>

lemma add_cards_loop_result:
  assumes "add_cards_loop k s p = (r, p')"
  shows "r = (if k + length (split_cards s) \<noteq> 13 then -1 else 0) \<and>
    hand p' = hand p + mset (split_cards s) \<and>
    available_cards p' = available_cards p @ split_cards s \<and>
    (hand_ok p \<longrightarrow> hand_ok p') \<and>
    (\<exists>f a. p' = p\<lparr>cards_by_suit := f, available_cards := a\<rparr>)"
  using assms
proof (induction k s p rule: add_cards_loop.induct)
  case (1 k s p)
  show ?case
  proof (cases "regex_search s")
    case None
    with 1(2) show ?thesis
      by (auto simp: add_cards_loop.simps [of k s p] split_cards.simps [of s]
          intro!: exI [of _ "cards_by_suit p"] exI [of _ "available_cards p"])
  next
    case (Some m)
    obtain v x suffix where m: "m = (v, x, suffix)" by (cases m) auto
    with Some search_Some [of s v x suffix] have card: "is_card (v @ [x])" by simp
    then have v: "card_values v \<noteq> None" and cs: "check_suit x = 0" and x: "x \<in> set suit_class"
      by (auto simp: is_card_def check_suit_iff split: if_splits)
    let ?p = "p\<lparr>cards_by_suit := (cards_by_suit p)(x := cards_by_suit p x @ [v]),
      available_cards := available_cards p @ [v @ [x]]\<rparr>"
    have "add_cards_loop (Suc k) suffix ?p = (r, p')"
      using 1(2) Some m v cs by (simp add: add_cards_loop.simps [of k s p])
    from 1(1) [OF Some m [symmetric] refl _ _ this] v cs
    have IH: "r = (if Suc k + length (split_cards suffix) \<noteq> 13 then -1 else 0) \<and>
      hand p' = hand ?p + mset (split_cards suffix) \<and>
      available_cards p' = available_cards ?p @ split_cards suffix \<and> (hand_ok ?p \<longrightarrow> hand_ok p') \<and>
      (\<exists>f a. p' = ?p\<lparr>cards_by_suit := f, available_cards := a\<rparr>)"
      by (simp del: fun_upd_apply)
    have "hand ?p = add_mset (v @ [x]) (hand p)"
      using cards_of_upd [OF suit_class_distinct x, of "cards_by_suit p" "cards_by_suit p x @ [v]"]
      by simp
    moreover have "hand_ok p \<longrightarrow> hand_ok ?p" using card by (auto simp: hand_ok_def)
    moreover have "split_cards s = (v @ [x]) # split_cards suffix"
      using Some m by (simp add: split_cards.simps [of s])
    ultimately show ?thesis using IH by (auto simp del: fun_upd_apply)
  qed
qed

lemma add_cards_result:
  assumes "add_cards s p = (r, p')"
  shows "r = (if length (split_cards s) \<noteq> 13 then -1 else 0)"
    and "hand p' = hand p + mset (split_cards s)"
    and "available_cards p' = available_cards p @ split_cards s"
    and "hand_ok p \<Longrightarrow> hand_ok p'"
    and "\<exists>f a. p' = p\<lparr>cards_by_suit := f, available_cards := a\<rparr>"
  using add_cards_loop_result [of 0 s p r p'] assms by (auto simp: add_cards_def)

section \<open>Sockets that stay open\<close>

definition writable :: "net \<Rightarrow> bool" where
  "writable n \<longleftrightarrow> is_open n \<and> (\<forall>w\<in>set (writes n). \<exists>k. w = Wrote k)"

lemma writen_writable:
  "\<forall>w\<in>set ws. \<exists>k. w = Wrote k \<Longrightarrow>
   \<exists>ws'. writen ws buf = (int (length buf), buf, ws') \<and> set ws' \<subseteq> set ws"
proof (induction ws buf rule: writen.induct)
  case (5 k ws c buf)
  then obtain ws' where "writen ws (drop (min k (length (c # buf))) (c # buf)) =
      (int (length (drop (min k (length (c # buf))) (c # buf))),
       drop (min k (length (c # buf))) (c # buf), ws')" "set ws' \<subseteq> set ws"
    by auto
  then show ?case by (auto simp: Let_def)
qed auto

lemma write_writable:
  assumes "writable n"
  obtains n' where "write_message m n = (int (length m), n')" and "sent n' = sent n @ m" and "writable n'"
proof -
  from assms writen_writable [of "writes n" m] obtain ws' where
    "writen (writes n) m = (int (length m), m, ws')" "set ws' \<subseteq> set (writes n)"
    by (auto simp: writable_def)
  with assms that [of "n\<lparr>writes := ws', sent := sent n @ m\<rparr>"] show thesis
    by (auto simp: write_message_def writable_def)
qed

text \<open>What only the console tells apart.\<close>

definition quiet :: "net \<Rightarrow> net \<Rightarrow> bool" where
  "quiet n n' \<longleftrightarrow> n' = n\<lparr>console := console n'\<rparr>"

lemma quietD: "quiet n n' \<Longrightarrow> sent n' = sent n \<and> writable n' = writable n"
  unfolding quiet_def writable_def by (metis net.select_convs(1-3) net.surjective net.update_convs(4))

lemma quiet_log [simp]: "quiet n (logged c m n)" "quiet n (print s n)"
  by (simp_all add: quiet_def log_in_def write_log_def print_def Let_def)

lemma log_out_quiet [simp]: "quiet n (log_out c m n)"
  by (simp add: quiet_def log_out_def write_log_def Let_def)

section \<open>One message at the client\<close>

lemma dec_single: "k < 10 \<Longrightarrow> \<exists>x. dec k = [x]"
  by (simp add: dec.simps [of k])

lemma after_number:
  "k < 100 \<Longrightarrow> drop (5 + number_length k) (a # b # c # d # e # dec k @ s) = s"
  by (simp add: numeral_eq_Suc flip: dec_length)

lemma split_table: "\<forall>x\<in>set table. is_card x \<Longrightarrow> split_cards (concat table) = table"
  using split_cards_concat [of table "[]"] by simp

lemma check_table:
  "\<forall>x\<in>set table. is_card x \<Longrightarrow> check_correctness table m = (if m < length table then -1 else 0)"
  by (auto simp: check_correctness_def check_card_iff)

lemma deal_accepted:
  assumes "1 \<le> ty" and "ty \<le> 7" and "check_position lead = 0" and "length (split_cards h) = 13"
    and "is_auto_player c" and "add_cards h p = (r, p')"
  shows "deal_body c (''DEAL'' @ dec ty @ [lead] @ h) (p, n) =
    Finish (Returns (0, p'\<lparr>cards := h\<rparr>, logged c (''DEAL'' @ dec ty @ [lead] @ h) n))"
proof -
  obtain x where x: "dec ty = [x]" using dec_single [of ty] assms(2) by auto
  have "safe_stoi [x] = Some ty" using safe_stoi_dec [of ty] assms(2) x by simp
  moreover have "r = 0" using add_cards_result(1) [OF assms(6)] assms(4) by simp
  ultimately show ?thesis
    using assms x by (simp add: deal_body_def Let_def)
qed

lemma trick_accepted:
  assumes "k < 100" and "\<forall>x\<in>set table. is_card x" and "length table \<le> 3" and "is_auto_player c"
  shows "trick_body c k (''TRICK'' @ dec k @ concat table) (p, n) =
    Finish (Returns (0, p\<lparr>cards_from_trick := concat table, current_trick := table\<rparr>,
      logged c (''TRICK'' @ dec k @ concat table) n))"
  using assms trick_number_read [of k "concat table"] safe_stoi_dec [of k] dec_length [of k]
  by (simp add: trick_body_def Let_def split_table after_number check_table)

lemma taken_accepted:
  assumes "k < 100" and "\<forall>x\<in>set table. is_card x" and "length table = 4" and "check_position w = 0"
    and "is_auto_player c"
  shows "taken_body c k my (''TAKEN'' @ dec k @ concat table @ [w]) (p, n) =
    Finish (Returns (0, p, logged c (''TAKEN'' @ dec k @ concat table @ [w]) n))"
proof -
  have b: "butlast (''TAKEN'' @ dec k @ concat table @ [w]) = ''TAKEN'' @ dec k @ concat table"
    by (simp add: butlast_append)
  have l: "last (''TAKEN'' @ dec k @ concat table @ [w]) = w" by simp
  show ?thesis
    using assms trick_number_read [of k "concat table"] safe_stoi_dec [of k] dec_length [of k]
    unfolding taken_body_def Let_def prod.case b l
    by (simp add: split_table after_number check_table)
qed

text \<open>The first trick of a deal: an empty table leaves the one of the deal before.\<close>

lemma first_trick_accepted:
  assumes "k < 100" and "\<forall>x\<in>set table. is_card x" and "length table \<le> 3" and "is_auto_player c"
  shows "taken_or_trick_body c k my (''TRICK'' @ dec k @ concat table) (p, n) =
    Finish (Returns (1, if concat table = [] then p
       else p\<lparr>cards_from_trick := concat table, current_trick := table\<rparr>,
      logged c (''TRICK'' @ dec k @ concat table) n))"
  using assms trick_number_read [of k "concat table"] safe_stoi_dec [of k] dec_length [of k]
  by (simp add: taken_or_trick_body_def Let_def split_table after_number check_table
      taken_or_trick_done_def)

end
