(* ===== verification/Kierki_Score.thy ===== *)
theory Kierki_Score
  imports Kierki_Wire
begin

text \<open>
  The loop over a SCORE or TOTAL message: what it reads from a text the server writes, that it
  ends on every text for a user's client, and on which texts it ends for an automatic player.
\<close>

section \<open>Texts of scores\<close>

definition entry :: "char \<times> string \<Rightarrow> string" where
  "entry e = fst e # snd e"

text \<open>A seat with the digits of a number that \<open>stoull\<close> takes.\<close>

definition entry_ok :: "char \<times> string \<Rightarrow> bool" where
  "entry_ok e \<longleftrightarrow> check_position (fst e) = 0 \<and> (\<forall>d\<in>set (snd e). is_digit d) \<and> safe_stoi (snd e) \<noteq> None"

definition entry_val :: "char \<times> string \<Rightarrow> char \<times> nat" where
  "entry_val e = (fst e, the (safe_stoi (snd e)))"

definition scores_text :: "string \<Rightarrow> (char \<times> string) list \<Rightarrow> bool" where
  "scores_text s es \<longleftrightarrow> s = concat (map entry es) \<and> (\<forall>e\<in>set es. entry_ok e) \<and> distinct (map fst es)"

lemma check_position_iff: "check_position x = (if x \<in> set ''NESW'' then 0 else -1)"
  by (simp add: check_position_def)

lemma position_not_digit: "check_position x = 0 \<Longrightarrow> \<not> is_digit x"
  by (auto simp: check_position_iff is_digit_def split: if_splits)

lemma entries_stop: "\<forall>e\<in>set es. entry_ok e \<Longrightarrow> stops (concat (map entry es))"
  by (cases es) (auto simp: entry_def entry_ok_def position_not_digit)

lemma score_loop_end: "length message \<le> index \<Longrightarrow> score_loop c message index m n = Some (message, m, n)"
  by (simp add: score_loop.simps)

lemma score_loop_entry:
  assumes "drop index message = entry e @ rest" and "entry_ok e" and "stops rest" and "m (fst e) = None"
  shows "score_loop c message index m n =
    score_loop c message (index + length (entry e)) (m(fst e \<mapsto> snd (entry_val e))) n"
proof -
  obtain x ds where e: "e = (x, ds)" by (cases e)
  have l: "index < length message" using assms(1) by (auto simp: entry_def intro: ccontr)
  have x: "message ! index = x" and d: "drop (Suc index) message = ds @ rest"
    using assms(1) e by (simp_all add: entry_def flip: Cons_nth_drop_Suc [OF l])
  have "takeWhile is_digit (drop (Suc index) message) = ds"
    using assms(2,3) e d while_digits [of ds rest] by (simp add: entry_ok_def)
  with l x assms e show ?thesis
    by (subst score_loop.simps) (auto simp: entry_ok_def entry_def entry_val_def Let_def)
qed

text \<open>A well-formed text is read to its end, and nothing is logged.\<close>

lemma score_loop_entries:
  assumes "drop index message = concat (map entry es)" and "\<forall>e\<in>set es. entry_ok e"
    and "distinct (map fst es)" and "\<forall>x\<in>set (map fst es). m x = None"
  shows "score_loop c message index m n = Some (message, m ++ map_of (map entry_val es), n)"
  using assms
proof (induction es arbitrary: index m)
  case Nil
  then show ?case by (simp add: score_loop_end)
next
  case (Cons e es)
  have "score_loop c message index m n =
      score_loop c message (index + length (entry e)) (m(fst e \<mapsto> snd (entry_val e))) n"
    using Cons.prems entries_stop [of es]
    by (intro score_loop_entry [where rest = "concat (map entry es)"]) simp_all
  also have "\<dots> = Some (message, m(fst e \<mapsto> snd (entry_val e)) ++ map_of (map entry_val es), n)"
  proof (rule Cons.IH)
    show "drop (index + length (entry e)) message = concat (map entry es)"
      using Cons.prems(1) by (metis add.commute append_eq_conv_conj concat.simps(2) drop_drop list.simps(9))
  next
    show "\<forall>x\<in>set (map fst es). (m(fst e \<mapsto> snd (entry_val e))) x = None"
      using Cons.prems(3,4) by (auto simp: image_iff)
  qed (use Cons.prems in simp_all)
  also have "m(fst e \<mapsto> snd (entry_val e)) ++ map_of (map entry_val es) =
      m ++ map_of (map entry_val (e # es))"
  proof -
    have "fst e \<notin> dom (map_of (map entry_val es))"
      using Cons.prems(3) by (simp add: dom_map_of_conv_image_fst image_image entry_val_def)
    then show ?thesis
      by (simp add: entry_val_def map_add_upd_left)
  qed
  finally show ?case .
qed

section \<open>When the loop ends\<close>

text \<open>An automatic player stays in the loop once a character that no entry can hold is ahead.\<close>

definition hopeless :: "string \<Rightarrow> nat \<Rightarrow> bool" where
  "hopeless message index \<longleftrightarrow>
     (\<exists>i. index \<le> i \<and> i < length message \<and> check_position (message ! i) \<noteq> 0 \<and> \<not> is_digit (message ! i))"

lemma CR_bad [simp]: "check_position CR \<noteq> 0" "\<not> is_digit CR"
  by (simp_all add: check_position_def CR_def is_digit_def)

lemma hopeless_logged:
  "is_auto_player c \<Longrightarrow> index \<le> length message \<Longrightarrow> hopeless (fst (log_in c message n)) index"
  unfolding hopeless_def
  by (rule exI [of _ "length message"]) (simp add: log_in_def write_log_def Let_def nth_append)

lemma entries_not_hopeless:
  assumes "drop index message = concat (map entry es)" and "\<forall>e\<in>set es. entry_ok e"
  shows "\<not> hopeless message index"
proof -
  have "\<forall>x\<in>set (concat (map entry es)). check_position x = 0 \<or> is_digit x"
    using assms(2) by (auto simp: entry_def entry_ok_def)
  moreover have "message ! i \<in> set (drop index message)" if "index \<le> i" "i < length message" for i
    using that nth_mem [of "i - index" "drop index message"] by simp
  ultimately have "check_position (message ! i) = 0 \<or> is_digit (message ! i)"
    if "index \<le> i" "i < length message" for i
    using that assms(1) by metis
  then show ?thesis by (auto simp: hopeless_def)
qed

lemma digits_inside:
  "index < length message \<Longrightarrow>
   Suc index + length (takeWhile is_digit (drop (Suc index) message)) \<le> length message"
  using length_takeWhile_le [of is_digit "drop (Suc index) message"] by simp

text \<open>For a user the message stays as it is, and the loop ends whatever it is.\<close>

lemma score_loop_user:
  "\<not> is_auto_player c \<Longrightarrow> score_loop c message index m n \<noteq> None"
proof (induction "length message - index" arbitrary: index m rule: less_induct)
  case less
  show ?case
  proof (cases "index < length message")
    case True
    then have "length message - (Suc index + k) < length message - index" for k by simp
    with less(1) [OF _ less(2)] less(2) True show ?thesis
      by (subst score_loop.simps) (simp add: log_in_def Let_def split: option.split)
  qed (simp add: score_loop_end)
qed

text \<open>For an automatic player it ends on the well-formed texts and on no other.\<close>

definition readable :: "string \<Rightarrow> nat \<Rightarrow> (char \<Rightarrow> nat option) \<Rightarrow> bool" where
  "readable message index m \<longleftrightarrow>
     (\<exists>es. drop index message = concat (map entry es) \<and> (\<forall>e\<in>set es. entry_ok e) \<and>
        distinct (map fst es) \<and> (\<forall>x\<in>set (map fst es). m x = None))"

lemma readable_step:
  assumes l: "index < length message" and x: "check_position (message ! index) = 0"
    and ds: "ds = takeWhile is_digit (drop (Suc index) message)"
    and v: "safe_stoi ds = Some v" and m: "m (message ! index) = None"
    and r: "readable message (Suc index + length ds) (m(message ! index \<mapsto> v))"
  shows "readable message index m"
proof -
  let ?x = "message ! index"
  from r obtain es where es: "drop (Suc index + length ds) message = concat (map entry es)"
      "\<forall>e\<in>set es. entry_ok e" "distinct (map fst es)"
      "\<forall>y\<in>set (map fst es). (m(?x \<mapsto> v)) y = None"
    by (auto simp: readable_def)
  have "drop (Suc index) message = ds @ drop (length ds) (drop (Suc index) message)"
    using ds by (metis append_eq_conv_conj takeWhile_dropWhile_id)
  then have "drop index message = ?x # ds @ drop (Suc index + length ds) message"
    using l by (simp add: Cons_nth_drop_Suc [symmetric] add.commute)
  moreover have "?x \<notin> set (map fst es)" using es(4) by (metis fun_upd_same option.distinct(1))
  moreover have "entry_ok (?x, ds)" using x v ds by (auto simp: entry_ok_def dest: set_takeWhileD)
  ultimately show ?thesis
    unfolding readable_def using es m
    by (intro exI [of _ "(?x, ds) # es"]) (auto simp: entry_def split: if_splits)
qed

lemma score_loop_ends:
  "score_loop c message index m n = Some r \<Longrightarrow> is_auto_player c \<longrightarrow> readable message index m"
proof (rule score_loop.raw_induct [where P = "\<lambda>c message index m n r.
      is_auto_player c \<longrightarrow> readable message index m"])
  fix loop c message index m n r
  assume IH: "\<And>c message index m n r. loop c message index m n = Some r \<Longrightarrow>
      is_auto_player c \<longrightarrow> readable message index m"
    and step: "(if index < length message
      then let position = message ! index
        in if check_position position < 0 \<or> m position \<noteq> None
           then loop c (fst (log_in c message n)) (index + 1) m (logged c message n)
           else let score_str = takeWhile is_digit (drop (index + 1) message);
                    index' = index + 1 + length score_str
                in case safe_stoi score_str of
                     None \<Rightarrow> loop c (fst (log_in c message n)) index' m (logged c message n)
                   | Some score \<Rightarrow> loop c message index' (m(position \<mapsto> score)) n
      else Some (message, m, n)) = Some r"
  show "is_auto_player c \<longrightarrow> readable message index m"
  proof (rule impI, cases "index < length message")
    case False
    then show "readable message index m" unfolding readable_def by (intro exI [of _ "[]"]) simp
  next
    case True
    assume auto: "is_auto_player c"
    let ?x = "message ! index"
    let ?ds = "takeWhile is_digit (drop (Suc index) message)"
    let ?j = "Suc index + length ?ds"
    have no_log: "loop c (fst (log_in c message n)) j m (logged c message n) \<noteq> Some r"
      if j: "j \<le> length message" for j
    proof
      assume "loop c (fst (log_in c message n)) j m (logged c message n) = Some r"
      with IH auto have "readable (fst (log_in c message n)) j m" by blast
      with entries_not_hopeless hopeless_logged [OF auto j] show False
        unfolding readable_def by blast
    qed
    have x: "check_position ?x = 0" "m ?x = None"
      using step True no_log [of "Suc index"] by (auto simp: Let_def check_position_def split: if_splits)
    with step True no_log [of ?j] digits_inside [OF True] obtain v where
      "safe_stoi ?ds = Some v" "loop c message ?j (m(?x \<mapsto> v)) n = Some r"
      by (auto simp: Let_def split: option.splits)
    with IH auto x True show "readable message index m" by (blast intro: readable_step)
  qed
qed

theorem score_loop_auto:
  assumes "is_auto_player c"
  shows "score_loop c message index m n \<noteq> None \<longleftrightarrow> readable message index m"
  using score_loop_ends assms score_loop_entries unfolding readable_def
  by (metis not_Some_eq option.distinct(1))

end
