(* ===== verification/Kierki_Game.thy ===== *)
theory Kierki_Game
  imports Kierki_Turn Kierki_Score
begin

text \<open>
  The server's messages, as the server builds them, sent to the automatic player: the course of a
  deal and of a game. A trick as a client sees it is a pair: the trick when the client is asked
  for its card, and the trick when it is complete.
\<close>

section \<open>Tricks\<close>

definition table_of :: "trick \<Rightarrow> string list" where
  "table_of t = map (\<lambda>c. value_string c @ [suit c]) (trick_cards t)"

definition trick_ok :: "trick \<Rightarrow> bool" where
  "trick_ok t \<longleftrightarrow> cards_string t = concat (table_of t) \<and> (\<forall>x\<in>set (table_of t). is_card x) \<and>
     (\<forall>c\<in>set (trick_cards t). card_values (value_string c) = Some (value_int c))"

lemma new_trick_ok [simp]: "trick_ok (new_trick s)" "table_of (new_trick s) = []"
  by (simp_all add: trick_ok_def table_of_def new_trick_def)

lemma add_card_ok:
  assumes "trick_ok t" and "is_card x"
  obtains t' where "add_card_to_cards x t = Some t'" and "trick_ok t'" and "table_of t' = table_of t @ [x]"
    and "winning_player t' = winning_player t"
proof -
  obtain v where "card_values (butlast x) = Some v" using assms(2) by (auto simp: is_card_def)
  with assms that show thesis
    by (fastforce simp: add_card_to_cards_def trick_ok_def table_of_def is_card_def)
qed

definition served_trick :: "trick \<times> trick \<Rightarrow> bool" where
  "served_trick = (\<lambda>(t, t'). trick_ok t \<and> length (table_of t) \<le> 3 \<and>
     trick_ok t' \<and> length (table_of t') = 4 \<and> winning_player t' \<in> {0, 1, 2, 3})"

definition taken_text :: "nat \<Rightarrow> trick \<Rightarrow> string" where
  "taken_text k t = (case taken_message k t of Inl e \<Rightarrow> [] | Inr m \<Rightarrow> m)"

fun tricks_text :: "nat \<Rightarrow> (trick \<times> trick) list \<Rightarrow> string" where
  "tricks_text k [] = []"
| "tricks_text k ((t, t') # ts) = trick_message k t @ taken_text k t' @ tricks_text (Suc k) ts"

fun answers :: "nat \<Rightarrow> string list \<Rightarrow> string" where
  "answers k [] = []"
| "answers k (c # cs) = ''TRICK'' @ dec k @ c @ delimiter @ answers (Suc k) cs"

fun legal_play :: "string list list \<Rightarrow> string multiset \<Rightarrow> string list \<Rightarrow> bool" where
  "legal_play [] h cs \<longleftrightarrow> h = {#} \<and> cs = []"
| "legal_play (table # tables) h [] \<longleftrightarrow> False"
| "legal_play (table # tables) h (c # cs) \<longleftrightarrow>
     c \<in># h \<and> follows table h c \<and> legal_play tables (h - {#c#}) cs"

lemma tag_plain [simp]:
  "CR \<noteq> CHR ''T''" "CR \<noteq> CHR ''R''" "CR \<noteq> CHR ''I''" "CR \<noteq> CHR ''C''" "CR \<noteq> CHR ''K''"
  "CR \<noteq> CHR ''A''" "CR \<noteq> CHR ''E''" "CR \<noteq> CHR ''N''" "CR \<noteq> CHR ''D''" "CR \<noteq> CHR ''L''"
  "CR \<noteq> CHR ''S''" "CR \<noteq> CHR ''O''" "CR \<noteq> CHR ''W''"
  by (simp_all add: CR_def)

lemma tag_plain' [simp]:
  "CHR ''T'' \<noteq> CR" "CHR ''R'' \<noteq> CR" "CHR ''I'' \<noteq> CR" "CHR ''C'' \<noteq> CR" "CHR ''K'' \<noteq> CR"
  "CHR ''A'' \<noteq> CR" "CHR ''E'' \<noteq> CR" "CHR ''N'' \<noteq> CR" "CHR ''D'' \<noteq> CR" "CHR ''L'' \<noteq> CR"
  "CHR ''S'' \<noteq> CR" "CHR ''O'' \<noteq> CR" "CHR ''W'' \<noteq> CR"
  using tag_plain by metis+

lemma position_of_winner:
  assumes "w \<in> {0, 1, 2, 3}"
  obtains x where "index_to_char w = Inr x" and "check_position x = 0" and "x \<noteq> CR"
  using assms that by (auto simp: index_to_char_def check_position_def)

section \<open>The client in one trick\<close>

lemma answer_trick_served:
  assumes "served_trick (t, t')" and "i < 99" and "is_auto_player c" and "writable n"
    and "hand_ok p" and "hand p \<noteq> {#}" and "select_card p = (x, p')"
  obtains n' where
    "answer_trick c pos i us (bytes (taken_text (Suc i) t') @ rs) (p, n) = Returns (us, (p', n'), rs)"
    and "sent n' = sent n @ ''TRICK'' @ dec (Suc i) @ x @ delimiter" and "writable n'"
proof -
  let ?m = "''TRICK'' @ dec (Suc i) @ x @ delimiter"
  obtain n1 where n1: "write_message ?m n = (int (length ?m), n1)" "sent n1 = sent n @ ?m" "writable n1"
    using write_writable [OF assms(4)] by blast
  let ?n2 = "log_out c ?m n1"
  have send: "Kierki_Client.send_trick_message c (Suc i) (p, n) = Returns (0, p', ?n2)"
    using n1(1) assms(3,7) by (simp add: Kierki_Client.send_trick_message_def Let_def)
  have "winning_player t' \<in> {0, 1, 2, 3}" using assms(1) by (simp add: served_trick_def)
  then obtain w where w: "index_to_char (winning_player t') = Inr w" "check_position w = 0" "w \<noteq> CR"
    by (rule position_of_winner)
  have t': "cards_string t' = concat (table_of t')" "\<forall>y\<in>set (table_of t'). is_card y"
      "length (table_of t') = 4"
    using assms(1) by (simp_all add: served_trick_def trick_ok_def)
  let ?t = "''TAKEN'' @ dec (Suc i) @ concat (table_of t') @ [w]"
  have tx: "taken_text (Suc i) t' = ?t @ delimiter"
    by (simp add: taken_text_def taken_message_def w t'(1))
  have "plain ?t" using t'(2) w(3) by (auto simp: card_plain)
  then have "receive_taken_message c (Suc i) pos (bytes (taken_text (Suc i) t') @ rs) (p', ?n2) =
      Returns ((0, p', logged c ?t ?n2), rs)"
    unfolding receive_taken_message_def tx
    using taken_accepted [of "Suc i" "table_of t'" w c pos p' ?n2] assms(2,3) t' w(2)
    by (simp only: receive_plain) simp
  moreover have "sent (logged c ?t ?n2) = sent n @ ?m" "writable (logged c ?t ?n2)"
    using quietD [OF quiet_log(1) [of ?n2 c ?t]] quietD [OF log_out_quiet [of n1 c ?m]] n1 by simp_all
  ultimately show thesis
    using that send assms(3) by (simp add: answer_trick_def)
qed

lemma trick_received:
  assumes "served_trick (t, t')" and "i < 99" and "is_auto_player c"
  shows "Kierki_Client.receive_trick_message c (Suc i) (bytes (trick_message (Suc i) t) @ rs) (p, n) =
    Returns ((0, p\<lparr>cards_from_trick := concat (table_of t), current_trick := table_of t\<rparr>,
      logged c (''TRICK'' @ dec (Suc i) @ concat (table_of t)) n), rs)"
proof -
  have t: "cards_string t = concat (table_of t)" "\<forall>y\<in>set (table_of t). is_card y"
      "length (table_of t) \<le> 3"
    using assms(1) by (simp_all add: served_trick_def trick_ok_def)
  let ?m = "''TRICK'' @ dec (Suc i) @ concat (table_of t)"
  have tx: "trick_message (Suc i) t = ?m @ delimiter" by (simp add: trick_message_def t)
  have "plain ?m" using t by (auto simp: card_plain)
  then show ?thesis
    unfolding Kierki_Client.receive_trick_message_def tx
    using trick_accepted [of "Suc i" "table_of t" c p n] assms(2,3) t
    by (simp only: receive_plain) simp
qed

lemma first_trick_received:
  assumes "served_trick (t, t')" and "is_auto_player c"
  shows "first_trick c pos 0 (bytes (trick_message 1 t) @ rs) (p, n) =
    Returns (0, (if table_of t = [] then p
        else p\<lparr>cards_from_trick := concat (table_of t), current_trick := table_of t\<rparr>,
      logged c (''TRICK'' @ dec 1 @ concat (table_of t)) n), rs)"
proof -
  have t: "cards_string t = concat (table_of t)" "\<forall>y\<in>set (table_of t). is_card y"
      "length (table_of t) \<le> 3"
    using assms(1) by (simp_all add: served_trick_def trick_ok_def)
  then have e: "concat (table_of t) = [] \<longleftrightarrow> table_of t = []"
    by (cases "table_of t") (auto simp: is_card_def)
  let ?m = "''TRICK'' @ dec 1 @ concat (table_of t)"
  have tx: "trick_message 1 t = ?m @ delimiter" by (simp add: trick_message_def t)
  have "plain ?m" using t by (auto simp: card_plain)
  then have "receive_taken_or_trick_message c 1 pos (bytes (trick_message 1 t) @ rs) (p, n) =
      Returns ((1, if table_of t = [] then p
        else p\<lparr>cards_from_trick := concat (table_of t), current_trick := table_of t\<rparr>,
        logged c ?m n), rs)"
    unfolding receive_taken_or_trick_message_def tx
    using first_trick_accepted [of 1 "table_of t" c pos p n] assms(2) t e
    by (simp only: receive_plain) simp
  then show ?thesis by (simp add: first_trick.simps [of c pos 0])
qed

text \<open>A trick once its table is known, whatever is still on the table of the player's record.\<close>

lemma trick_step:
  assumes "served_trick (t, t')" and "i < 99" and "is_auto_player c" and "writable n"
    and "hand_ok q" and "hand q \<noteq> {#}"
    and "table_of t = [] \<or> cards_from_trick q = concat (table_of t)"
  obtains x q' n' where
    "answer_trick c pos i us (bytes (taken_text (Suc i) t') @ rs) (q, n) = Returns (us, (q', n'), rs)"
    and "sent n' = sent n @ ''TRICK'' @ dec (Suc i) @ x @ delimiter" and "writable n'"
    and "x \<in># hand q" and "hand q' = hand q - {#x#}" and "hand_ok q'" and "follows (table_of t) (hand q) x"
proof -
  obtain x q' where sel: "select_card q = (x, q')" by (cases "select_card q") auto
  have "\<forall>y\<in>set (table_of t). is_card y" using assms(1) by (simp add: served_trick_def trick_ok_def)
  then have "follows (table_of t) (hand q) x"
    using assms(7) select_card_follows [OF assms(5) _ _ sel] by (auto simp: follows_def)
  with answer_trick_served [OF assms(1-6) sel] select_card_plays [OF assms(5,6) sel] that
  show thesis by metis
qed

lemma set_table [simp]:
  "cards_by_suit (p\<lparr>cards_from_trick := a, current_trick := b\<rparr>) = cards_by_suit p"
  "hand_ok (p\<lparr>cards_from_trick := a, current_trick := b\<rparr>) = hand_ok p"
  by (simp_all add: hand_ok_def)

lemma bytes_app: "bytes (s @ t) @ rs = bytes s @ bytes t @ rs"
  by simp

lemma tricks_served:
  assumes "\<forall>x\<in>set ts. served_trick x" and "i + length ts = 13" and "1 \<le> i" and "is_auto_player c"
    and "writable n" and "hand_ok p" and "size (hand p) = length ts"
  shows "\<exists>cs p' n'. play_tricks c pos i us (bytes (tricks_text (Suc i) ts) @ rs) (p, n) =
      Returns (us, (p', n'), rs) \<and>
    sent n' = sent n @ answers (Suc i) cs \<and> legal_play (map (table_of \<circ> fst) ts) (hand p) cs \<and>
    hand_ok p' \<and> hand p' = {#} \<and> writable n'"
  using assms
proof (induction ts arbitrary: i p n)
  case Nil
  then show ?case by (intro exI [of _ "[]"]) (simp add: play_tricks.simps [of c pos 13])
next
  case (Cons x ts)
  obtain t t' where x: "x = (t, t')" by (cases x)
  let ?q = "p\<lparr>cards_from_trick := concat (table_of t), current_trick := table_of t\<rparr>"
  let ?n = "logged c (''TRICK'' @ dec (Suc i) @ concat (table_of t)) n"
  let ?rs = "bytes (tricks_text (Suc (Suc i)) ts) @ rs"
  have st: "served_trick (t, t')" and i: "i < 99" "i < 13" "i \<noteq> 0"
    using Cons.prems x by simp_all
  have n: "writable ?n" "sent ?n = sent n"
    using quietD [OF quiet_log(1) [of n c "''TRICK'' @ dec (Suc i) @ concat (table_of t)"]] Cons.prems(5)
    by simp_all
  have q: "hand ?q = hand p" "hand_ok ?q" "hand ?q \<noteq> {#}" using Cons.prems(6,7) by auto
  have table: "table_of t = [] \<or> cards_from_trick ?q = concat (table_of t)" by simp
  from trick_step [OF st i(1) Cons.prems(4) n(1) q(2,3) table, of pos us ?rs] obtain y q n' where
    a: "answer_trick c pos i us (bytes (taken_text (Suc i) t') @ ?rs) (?q, ?n) = Returns (us, (q, n'), ?rs)"
    and n': "sent n' = sent ?n @ ''TRICK'' @ dec (Suc i) @ y @ delimiter" "writable n'"
    and y: "y \<in># hand p" "hand q = hand p - {#y#}" "hand_ok q" "follows (table_of t) (hand p) y"
    unfolding q(1) by blast
  have pre: "\<forall>x\<in>set ts. served_trick x" "Suc i + length ts = 13" "1 \<le> Suc i" "size (hand q) = length ts"
    using Cons.prems y by (simp_all add: size_Diff_singleton)
  from Cons.IH [OF pre(1-3) Cons.prems(4) n'(2) y(3) pre(4)] obtain cs p' n'' where
    r: "play_tricks c pos (Suc i) us ?rs (q, n') = Returns (us, (p', n''), rs)"
    and s: "sent n'' = sent n' @ answers (Suc (Suc i)) cs"
      "legal_play (map (table_of \<circ> fst) ts) (hand q) cs" "hand_ok p'" "hand p' = {#}" "writable n''"
    by blast
  have "play_tricks c pos i us (bytes (tricks_text (Suc i) (x # ts)) @ rs) (p, n) =
      Returns (us, (p', n''), rs)"
    unfolding play_tricks.simps [of c pos i] x tricks_text.simps bytes_app
    using i trick_received [OF st i(1) Cons.prems(4), of _ p n] a r by simp
  with n(2) n' s y show ?case
    by (intro exI [of _ "y # cs"] exI [of _ p'] exI [of _ n'']) (simp add: x comp_def)
qed

lemma deal_tricks_served:
  assumes "\<forall>x\<in>set ts. served_trick x" and "length ts = 13" and "is_auto_player c"
    and "writable n" and "hand_ok p" and "size (hand p) = 13"
  shows "\<exists>cs p' n'. play_tricks c pos 0 us (bytes (tricks_text 1 ts) @ rs) (p, n) =
      Returns (us, (p', n'), rs) \<and>
    sent n' = sent n @ answers 1 cs \<and> legal_play (map (table_of \<circ> fst) ts) (hand p) cs \<and>
    hand_ok p' \<and> hand p' = {#} \<and> writable n'"
proof -
  obtain t t' ts' where ts: "ts = (t, t') # ts'" using assms(2) by (cases ts) auto
  let ?q = "if table_of t = [] then p
    else p\<lparr>cards_from_trick := concat (table_of t), current_trick := table_of t\<rparr>"
  let ?n = "logged c (''TRICK'' @ dec 1 @ concat (table_of t)) n"
  let ?rs = "bytes (tricks_text (Suc 1) ts') @ rs"
  have st: "served_trick (t, t')" using assms(1) ts by simp
  have n: "writable ?n" "sent ?n = sent n"
    using quietD [OF quiet_log(1) [of n c "''TRICK'' @ dec 1 @ concat (table_of t)"]] assms(4)
    by simp_all
  have q: "hand ?q = hand p" "hand_ok ?q" "hand ?q \<noteq> {#}" using assms(5,6) by auto
  have table: "table_of t = [] \<or> cards_from_trick ?q = concat (table_of t)" by simp
  have "(0::nat) < 99" by simp
  from trick_step [OF st this assms(3) n(1) q(2,3) table, of pos us ?rs] obtain y q' n' where
    a: "answer_trick c pos 0 us (bytes (taken_text (Suc 0) t') @ ?rs) (?q, ?n) = Returns (us, (q', n'), ?rs)"
    and n': "sent n' = sent ?n @ ''TRICK'' @ dec (Suc 0) @ y @ delimiter" "writable n'"
    and y: "y \<in># hand ?q" "hand q' = hand ?q - {#y#}" "hand_ok q'" "follows (table_of t) (hand ?q) y"
    by blast
  have pre: "\<forall>x\<in>set ts'. served_trick x" "1 + length ts' = 13" "size (hand q') = length ts'"
    using assms(1,2,6) y q(1) ts by (simp_all add: size_Diff_singleton)
  from tricks_served [OF pre(1,2) order_refl assms(3) n'(2) y(3) pre(3)] obtain cs p' n'' where
    r: "play_tricks c pos 1 us ?rs (q', n') = Returns (us, (p', n''), rs)"
    and s: "sent n'' = sent n' @ answers (Suc 1) cs"
      "legal_play (map (table_of \<circ> fst) ts') (hand q') cs" "hand_ok p'" "hand p' = {#}" "writable n''"
    by blast
  have "play_tricks c pos 0 us (bytes (tricks_text 1 ts) @ rs) (p, n) = Returns (us, (p', n''), rs)"
    unfolding play_tricks.simps [of c pos 0] ts tricks_text.simps bytes_app
    using first_trick_received [OF st assms(3), of pos _ p n] a r by simp
  with n n' s y q(1) show ?thesis
    by (intro exI [of _ "y # cs"] exI [of _ p'] exI [of _ n'']) (simp add: ts comp_def)
qed

section \<open>The server in one turn\<close>

definition sent_since :: "net \<Rightarrow> net \<Rightarrow> string" where
  "sent_since n n' = drop (length (sent n)) (sent n')"

lemma server_log_quiet [simp]: "quiet n (log_sent c m n)" "quiet n (log_received c m n)"
  by (simp_all add: quiet_def log_sent_def log_received_def write_log_def Let_def)

lemma server_sends_trick:
  assumes "writable n"
  shows "\<exists>n'. Kierki_Server.send_trick_message sc k t n = Returns (0, n') \<and>
    sent_since n n' = trick_message k t \<and> writable n'"
proof -
  let ?m = "trick_message k t"
  obtain n0 where n0: "write_message ?m n = (int (length ?m), n0)" "sent n0 = sent n @ ?m" "writable n0"
    using write_writable [OF assms] by blast
  with quietD [OF server_log_quiet(1) [of n0 sc ?m]] show ?thesis
    by (intro exI [of _ "log_sent sc ?m n0"])
      (simp add: Kierki_Server.send_trick_message_def send_or_lost_def sent_since_def)
qed

lemma card_body_accepts:
  assumes "k < 100" and "is_card x" and "add_card_to_cards x t = Some t'"
  shows "card_body sc k (''TRICK'' @ dec k @ x) (t, n) =
    Finish (Returns (0, t', log_received sc (''TRICK'' @ dec k @ x) n))"
proof -
  have "split_cards x = [x]" using split_cards_app [OF assms(2), of "[]"] by simp
  moreover have "(if k < 10 then 1 else 2) = number_length k" by (simp add: number_length_def)
  ultimately show ?thesis
    using assms trick_number_read [of k x] safe_stoi_dec [of k] dec_length [of k]
    by (simp add: card_body_def Let_def after_number check_correctness_def check_card_iff del: One_nat_def)
qed

end
