(* ===== verification/Kierki_Rules.thy ===== *)
theory Kierki_Rules
  imports Kierki_Game
begin

text \<open>
  The rules the server keeps: the card that takes a trick, the points of a deal. The points of a
  card are a function of the card, so that the sum over a deal is a sum over the cards played.
\<close>

section \<open>Who takes a trick\<close>

text \<open>\<open>i\<close> is the first index at which the highest value among the cards of a suit stands.\<close>

definition highest_at :: "char \<Rightarrow> trick_card list \<Rightarrow> nat \<Rightarrow> bool" where
  "highest_at s cs i \<longleftrightarrow> i < length cs \<and> suit (cs ! i) = s \<and>
     (\<forall>j<length cs. suit (cs ! j) = s \<longrightarrow>
        value_int (cs ! j) \<le> value_int (cs ! i) \<and> (value_int (cs ! j) = value_int (cs ! i) \<longrightarrow> i \<le> j))"

lemma highest_from_highest:
  assumes "highest_at s pre i" and "v = value_int (pre ! i)"
  shows "highest_at s (pre @ cs) (highest_from (length pre) s i v cs)"
  using assms
proof (induction cs arbitrary: pre i v)
  case (Cons c cs)
  have i: "i < length pre" using Cons.prems by (simp add: highest_at_def)
  have app: "(pre @ [c]) ! j = (if j < length pre then pre ! j else c)" if "j < Suc (length pre)" for j
    using that by (auto simp: nth_append less_Suc_eq)
  show ?case
  proof (cases "suit c = s \<and> v < value_int c")
    case True
    then have "highest_at s (pre @ [c]) (length pre)"
      using Cons.prems by (fastforce simp: highest_at_def app less_Suc_eq nth_append)
    from Cons.IH [OF this, of "value_int c"] True show ?thesis by simp
  next
    case False
    then have "highest_at s (pre @ [c]) i"
      using Cons.prems i by (fastforce simp: highest_at_def less_Suc_eq nth_append)
    from Cons.IH [OF this, of v] False Cons.prems(2) i show ?thesis by (auto simp: nth_append)
  qed
qed simp

lemma choose_winner_highest:
  assumes "trick_cards t \<noteq> []"
  shows "\<exists>i. highest_at (suit (hd (trick_cards t))) (trick_cards t) i \<and>
    choose_winner lead t = Some (t\<lparr>winning_player := (char_to_index lead + int i) mod 4\<rparr>)"
proof -
  obtain c cs where t: "trick_cards t = c # cs" using assms by (cases "trick_cards t") auto
  have "highest_at (suit c) [c] 0" by (simp add: highest_at_def)
  from highest_from_highest [OF this refl, of cs] show ?thesis
    by (intro exI [of _ "highest_from 1 (suit c) 0 (value_int c) cs"]) (simp add: choose_winner_def t Let_def)
qed

section \<open>The points of a deal\<close>

lemma add_scores_result:
  assumes "length scores = 4" and "0 \<le> w" and "w < 4"
  shows "add_scores w vs scores = Some (scores[nat w := scores ! nat w + sum_list vs])"
  using assms by (induction vs arbitrary: scores) (auto simp: add.assoc)

text \<open>The points that one card brings, by the type of the deal.\<close>

definition card_points :: "int \<Rightarrow> string \<Rightarrow> int" where
  "card_points ty x =
     (let heart = (if last x = CHR ''H'' then 1 else 0);
          queen = (if butlast x = ''Q'' then 5 else 0);
          lord = (if butlast x = ''J'' \<or> butlast x = ''K'' then 2 else 0);
          king_of_hearts = (if butlast x = ''K'' \<and> last x = CHR ''H'' then 18 else 0)
      in if ty = 2 then heart else if ty = 3 then queen else if ty = 4 then lord
         else if ty = 5 then king_of_hearts else if ty = 7 then heart + queen + lord + king_of_hearts
         else 0)"

text \<open>What a trick brings for itself: one for being taken, ten for the seventh and the last.\<close>

definition trick_points :: "int \<Rightarrow> nat \<Rightarrow> int" where
  "trick_points ty i =
     (if ty = 1 \<or> ty = 7 then 1 else 0) + (if (ty = 6 \<or> ty = 7) \<and> (i = 6 \<or> i = 12) then 10 else 0)"

lemma sum_concat: "sum_list (concat (map f xs)) = (\<Sum>x\<leftarrow>xs. sum_list (f x :: int list))"
  by (induction xs) simp_all

lemma sum_increments:
  "sum_list (increments ty i t) = trick_points ty i + sum_list (map (card_points ty) (table_of t))"
proof -
  have m: "sum_list (map (card_points ty) (table_of t)) =
      (\<Sum>c\<leftarrow>trick_cards t. card_points ty (value_string c @ [suit c]))"
    by (simp add: table_of_def comp_def)
  have one: "sum_list (if P then [v] else []) = (if P then v else 0)" for P and v :: int by simp
  note defs = increments_def trick_points_def card_points_def Let_def sum_concat one
  consider "ty = 1" | "ty = 2" | "ty = 3" | "ty = 4" | "ty = 5" | "ty = 6" | "ty = 7" |
    "ty \<notin> {1, 2, 3, 4, 5, 6, 7}" by blast
  then show ?thesis
    unfolding m by cases (simp_all add: defs add.assoc)
qed

text \<open>The score of a player: what its tricks bring.\<close>

definition trick_value :: "int \<Rightarrow> nat \<Rightarrow> trick \<Rightarrow> int" where
  "trick_value ty i t = trick_points ty i + sum_list (map (card_points ty) (table_of t))"

lemma points_loop_result:
  assumes "length scores = 4" and "\<forall>t\<in>set ts. winning_player t \<in> {0, 1, 2, 3}"
  shows "\<exists>scores'. points_loop ty i ts scores = Some scores' \<and> length scores' = 4 \<and>
    (\<forall>w<4. scores' ! w = scores ! w +
       (\<Sum>k<length ts. if winning_player (ts ! k) = int w then trick_value ty (i + k) (ts ! k) else 0))"
  using assms
proof (induction ts arbitrary: i scores)
  case (Cons t ts)
  let ?w = "winning_player t"
  let ?s = "scores[nat ?w := scores ! nat ?w + trick_value ty i t]"
  have w: "0 \<le> ?w" "?w < 4" using Cons.prems(2) by auto
  have "add_scores ?w (increments ty i t) scores = Some ?s"
    using add_scores_result [OF Cons.prems(1) w] by (simp add: sum_increments trick_value_def)
  moreover obtain scores' where s: "points_loop ty (Suc i) ts ?s = Some scores'" "length scores' = 4"
    "\<forall>w<4. scores' ! w = ?s ! w +
       (\<Sum>k<length ts. if winning_player (ts ! k) = int w then trick_value ty (Suc i + k) (ts ! k) else 0)"
    using Cons.IH [of ?s "Suc i"] Cons.prems by auto
  moreover have "?s ! v = scores ! v + (if ?w = int v then trick_value ty i t else 0)" if "v < 4" for v
    using that Cons.prems(1) w by (cases "nat ?w = v") auto
  ultimately show ?case
    by (intro exI [of _ scores']) (simp add: sum.lessThan_Suc_shift del: sum.lessThan_Suc cong: if_cong)
qed simp

lemma sum_by_winner:
  fixes f :: "nat \<Rightarrow> int"
  assumes "\<forall>k<m. w k \<in> {0, 1, 2, 3 :: int}"
  shows "(\<Sum>v<4::nat. \<Sum>k<m. if w k = int v then f k else 0) = (\<Sum>k<m. f k)"
proof -
  have "(\<Sum>v<4::nat. if w k = int v then f k else 0) = f k" if "k < m" for k
    using assms that by (auto simp: numeral_eq_Suc)
  then show ?thesis by (subst sum.swap) simp
qed

text \<open>All the cards there are.\<close>

definition deck :: "string list" where
  "deck = concat (map (\<lambda>s. map (\<lambda>v. v @ [s]) (''10'' # map (\<lambda>c. [c]) face_class)) suit_class)"

lemma card_value_of: "is_card x \<Longrightarrow> x \<in> set deck"
  by (cases rule: is_card_cases) (auto simp: deck_def)

definition deal_total :: "int \<Rightarrow> int" where
  "deal_total ty = (if ty = 1 \<or> ty = 2 then 13 else if ty = 3 \<or> ty = 6 then 20 else if ty = 4 then 16
     else if ty = 5 then 18 else if ty = 7 then 100 else 0)"

lemma deck_points:
  "sum_list (map (card_points ty) deck) =
   (if ty = 2 then 13 else if ty = 3 then 20 else if ty = 4 then 16 else if ty = 5 then 18
    else if ty = 7 then 67 else 0)"
  by (simp add: deck_def suit_class_def face_class_def card_points_def)

lemma sum_tables:
  fixes f :: "string \<Rightarrow> int"
  shows "(\<Sum>k<length ts. sum_list (map f (table_of (ts ! k)))) =
    sum_mset (image_mset f (\<Sum>t\<leftarrow>ts. mset (table_of t)))"
proof (induction ts rule: rev_induct)
  case (snoc t ts)
  then show ?case by (simp add: nth_append sum_mset_sum_list flip: mset_map)
qed simp

end
