(* ===== verification/Kierki_Props.thy ===== *)
theory Kierki_Props
  imports Kierki_Rules
begin

text \<open>
  The properties of the card game: the automatic player plays every game a server deals to it, by
  the rules of following suit; a turn between server and client; who takes a trick and what a
  deal is worth; what a malformed message does to either side.
\<close>

section \<open>A deal and a game at the client\<close>

definition valid_scores :: "int list \<Rightarrow> bool" where
  "valid_scores vs \<longleftrightarrow> length vs = 4 \<and> (\<forall>v\<in>set vs. 0 \<le> v \<and> v < 2 ^ 64)"

definition score_entries :: "int list \<Rightarrow> (char \<times> string) list" where
  "score_entries vs = zip ''NESW'' (map printf_d vs)"

definition scores_message :: "string \<Rightarrow> int list \<Rightarrow> string" where
  "scores_message tag vs = (case score_text 0 vs of Inl e \<Rightarrow> [] | Inr s \<Rightarrow> tag @ s @ delimiter)"

type_synonym served_deal = "deal \<times> (trick \<times> trick) list \<times> int list"

definition hand_text :: "nat \<Rightarrow> served_deal \<Rightarrow> string" where
  "hand_text seat = (\<lambda>(d, ts, totals). cards (players d ! seat))"

text \<open>
  A deal as a server deals it to the client at a seat: thirteen cards, thirteen tricks, the
  points of the deal and the totals.
\<close>

definition served_deal :: "nat \<Rightarrow> served_deal \<Rightarrow> bool" where
  "served_deal seat = (\<lambda>(d, ts, totals).
     1 \<le> deal_type d \<and> deal_type d \<le> 7 \<and> check_position (lead_player d) = 0 \<and>
     plain (hand_text seat (d, ts, totals)) \<and> length (split_cards (hand_text seat (d, ts, totals))) = 13 \<and>
     length ts = 13 \<and> (\<forall>x\<in>set ts. served_trick x) \<and>
     valid_scores (deal_scores d) \<and> valid_scores totals)"

definition deal_text :: "nat \<Rightarrow> served_deal \<Rightarrow> string" where
  "deal_text seat = (\<lambda>(d, ts, totals).
     deal_message seat d @ tricks_text 1 ts @
     scores_message ''SCORE'' (deal_scores d) @ scores_message ''TOTAL'' totals)"

lemma score_text_entries:
  assumes "length vs = 4"
  shows "score_text 0 vs = Inr (concat (map entry (score_entries vs)))"
proof -
  obtain a b c d where vs: "vs = [a, b, c, d]"
    using assms by (auto simp: numeral_eq_Suc length_Suc_conv)
  show ?thesis by (simp add: vs score_entries_def entry_def index_to_char_def)
qed

lemma score_entries_ok:
  assumes "valid_scores vs"
  shows "\<forall>e\<in>set (score_entries vs). entry_ok e" and "distinct (map fst (score_entries vs))"
    and "plain (concat (map entry (score_entries vs)))"
proof -
  have v: "safe_stoi (printf_d v) = Some (nat v)" "plain (printf_d v)" "\<forall>d\<in>set (printf_d v). is_digit d"
    if "v \<in> set vs" for v
    using assms that safe_stoi_dec [of "nat v"] dec_digits [of "nat v"]
    by (auto simp: valid_scores_def printf_d_def)
  obtain a b c d where vs: "vs = [a, b, c, d]"
    using assms by (auto simp: valid_scores_def numeral_eq_Suc length_Suc_conv)
  show "\<forall>e\<in>set (score_entries vs). entry_ok e"
    using v by (auto simp: vs score_entries_def entry_ok_def check_position_def)
  show "distinct (map fst (score_entries vs))" by (simp add: vs score_entries_def)
  show "plain (concat (map entry (score_entries vs)))"
    using v by (auto simp: vs score_entries_def entry_def)
qed

lemma scores_received:
  assumes "valid_scores vs" and "is_auto_player c" and "tag \<in> {''SCORE'', ''TOTAL''}"
  shows "\<exists>n'. receive_loop (\<lambda>len s. Exits) (scores_body tag title c) (bytes (scores_message tag vs) @ rs) (p, n) =
    Returns ((0, p, n'), rs) \<and> quiet n n'"
proof -
  let ?s = "concat (map entry (score_entries vs))"
  have t: "length tag = 5" "plain tag" using assms(3) by auto
  have "score_loop c (tag @ ?s) 5 Map.empty n =
      Some (tag @ ?s, Map.empty ++ map_of (map entry_val (score_entries vs)), n)"
    using score_entries_ok [OF assms(1)] t by (intro score_loop_entries) simp_all
  then have b: "scores_body tag title c (tag @ ?s) (p, n) = Finish (Returns (0, p, logged c (tag @ ?s) n))"
    using assms(2) t by (simp add: scores_body_def)
  have "scores_message tag vs = (tag @ ?s) @ delimiter"
    using assms(1) by (simp add: scores_message_def score_text_entries valid_scores_def)
  moreover have "plain (tag @ ?s)" using score_entries_ok(3) [OF assms(1)] t by simp
  ultimately have "receive_loop (\<lambda>len s. Exits) (scores_body tag title c) (bytes (scores_message tag vs) @ rs) (p, n) =
      Returns ((0, p, logged c (tag @ ?s) n), rs)"
    by (simp only: receive_plain b) simp
  then show ?thesis by (intro exI [of _ "logged c (tag @ ?s) n"]) simp
qed

lemma deal_received:
  assumes "served_deal seat (d, ts, totals)" and "is_auto_player c" and "hand_ok p"
  shows "\<exists>p' n'. receive_deal_message c (bytes (deal_message seat d) @ rs) (p, n) = Returns ((0, p', n'), rs) \<and>
    hand p' = hand p + mset (split_cards (hand_text seat (d, ts, totals))) \<and> hand_ok p' \<and> quiet n n'"
proof -
  let ?h = "hand_text seat (d, ts, totals)"
  let ?m = "''DEAL'' @ dec (nat (deal_type d)) @ [lead_player d] @ ?h"
  obtain r p' where a: "add_cards ?h p = (r, p')" by (cases "add_cards ?h p")
  have d: "1 \<le> nat (deal_type d)" "nat (deal_type d) \<le> 7" "check_position (lead_player d) = 0"
      "length (split_cards ?h) = 13" "plain ?h" "0 \<le> deal_type d"
    using assms(1) by (auto simp: served_deal_def)
  have "lead_player d \<noteq> CR" using d(3) by (auto simp: check_position_def CR_def split: if_splits)
  with d(5) have "plain ?m" by simp
  moreover have "deal_message seat d = ?m @ delimiter"
    using d(6) by (simp add: deal_message_def hand_text_def printf_d_def)
  ultimately have "receive_deal_message c (bytes (deal_message seat d) @ rs) (p, n) =
      Returns ((0, p'\<lparr>cards := ?h\<rparr>, logged c ?m n), rs)"
    unfolding receive_deal_message_def
    using deal_accepted [OF d(1-4) assms(2) a, of n] by (simp only: receive_plain) simp
  moreover have "hand (p'\<lparr>cards := ?h\<rparr>) = hand p + mset (split_cards ?h)" "hand_ok (p'\<lparr>cards := ?h\<rparr>)"
    using add_cards_result(2,4) [OF a] assms(3) by (simp_all add: hand_ok_def)
  ultimately show ?thesis by (metis quiet_log(1))
qed

definition tables :: "served_deal \<Rightarrow> string list list" where
  "tables = (\<lambda>(d, ts, totals). map (table_of \<circ> fst) ts)"

definition plays_deal :: "nat \<Rightarrow> served_deal \<Rightarrow> string list \<Rightarrow> bool" where
  "plays_deal seat x cs \<longleftrightarrow> legal_play (tables x) (mset (split_cards (hand_text seat x))) cs"

lemma quiet_trans: "quiet n n' \<Longrightarrow> sent n = s \<Longrightarrow> writable n \<Longrightarrow> sent n' = s \<and> writable n'"
  using quietD by simp

lemma deal_served:
  assumes "served_deal seat x" and "is_auto_player c" and "writable n" and "hand_ok p" and "hand p = {#}"
  shows "\<exists>cs p' n'. mess_loop c pos a b us (bytes (deal_text seat x) @ rs) (p, n) =
      mess_loop c pos True True us rs (p', n') \<and>
    sent n' = sent n @ answers 1 cs \<and> plays_deal seat x cs \<and>
    hand_ok p' \<and> hand p' = {#} \<and> writable n'"
proof -
  obtain d ts totals where x: "x = (d, ts, totals)" by (metis prod_cases3)
  note sd = assms(1) [unfolded x]
  have ts: "\<forall>x\<in>set ts. served_trick x" "length ts = 13" "valid_scores (deal_scores d)" "valid_scores totals"
    and h13: "length (split_cards (hand_text seat (d, ts, totals))) = 13"
    using sd by (simp_all add: served_deal_def)
  let ?st = "scores_message ''SCORE'' (deal_scores d)" and ?tt = "scores_message ''TOTAL'' totals"
  let ?r1 = "bytes (tricks_text 1 ts) @ bytes ?st @ bytes ?tt @ rs"
  from deal_received [OF sd assms(2,4), of ?r1 n] assms(5) obtain p1 n1 where
    1: "receive_deal_message c (bytes (deal_message seat d) @ ?r1) (p, n) = Returns ((0, p1, n1), ?r1)"
    and h1: "hand p1 = mset (split_cards (hand_text seat (d, ts, totals)))" "hand_ok p1" and q1: "quiet n n1"
    by auto
  from quiet_trans [OF q1 refl assms(3)] have w1: "sent n1 = sent n" "writable n1" by auto
  have "size (hand p1) = 13" using h1(1) h13 by simp
  from deal_tricks_served [OF ts(1,2) assms(2) w1(2) h1(2) this, of pos us "bytes ?st @ bytes ?tt @ rs"]
  obtain cs p2 n2 where
    2: "play_tricks c pos 0 us ?r1 (p1, n1) = Returns (us, (p2, n2), bytes ?st @ bytes ?tt @ rs)"
    and s2: "sent n2 = sent n1 @ answers 1 cs" "legal_play (map (table_of \<circ> fst) ts) (hand p1) cs"
      "hand_ok p2" "hand p2 = {#}" "writable n2" by blast
  from scores_received [OF ts(3) assms(2), of "''SCORE''" "''The scores are:''" "bytes ?tt @ rs" p2 n2]
  obtain n3 where
    3: "receive_score_message c (bytes ?st @ bytes ?tt @ rs) (p2, n2) = Returns ((0, p2, n3), bytes ?tt @ rs)"
    and q3: "quiet n2 n3" unfolding receive_score_message_def by auto
  from scores_received [OF ts(4) assms(2), of "''TOTAL''" "''The total scores are:''" rs p2 n3]
  obtain n4 where
    4: "receive_total_message c (bytes ?tt @ rs) (p2, n3) = Returns ((0, p2, n4), rs)" and q4: "quiet n3 n4"
    unfolding receive_total_message_def by auto
  from quiet_trans [OF q3 s2(1) s2(5)] quiet_trans [OF q4] have w4: "sent n4 = sent n1 @ answers 1 cs" "writable n4"
    by auto
  have tx: "bytes (deal_text seat x) @ rs = bytes (deal_message seat d) @ ?r1"
    by (simp add: x deal_text_def)
  have "mess_loop c pos a b us (bytes (deal_text seat x) @ rs) (p, n) = mess_loop c pos True True us rs (p2, n4)"
    unfolding tx using 1 2 3 4 assms(2) by (subst mess_loop.simps) simp
  with w1 w4 s2 h1(1) show ?thesis
    by (intro exI [of _ cs] exI [of _ p2] exI [of _ n4]) (simp add: plays_deal_def tables_def x)
qed

lemma game_served:
  assumes "\<forall>x\<in>set ds. served_deal seat x" and "is_auto_player c" and "writable n" and "hand_ok p"
    and "hand p = {#}"
  shows "\<exists>plays s n'. mess_loop c pos a b us (bytes (concat (map (deal_text seat) ds))) (p, n) =
      Returns (a \<or> ds \<noteq> [], b \<or> ds \<noteq> [], us, (s, n'), []) \<and>
    sent n' = sent n @ concat (map (answers 1) plays) \<and> list_all2 (plays_deal seat) ds plays"
  using assms
proof (induction ds arbitrary: a b p n)
  case Nil
  have "readn [] [] = (-2, [], [])" by (simp add: readn_def)
  then show ?case
    by (intro exI [of _ "[]"] exI [of _ p] exI [of _ n])
      (simp add: mess_loop.simps [of c pos a b us "[]"] receive_deal_message_def receive_loop.simps [of _ _ "[]"])
next
  case (Cons x ds)
  let ?rs = "bytes (concat (map (deal_text seat) ds))"
  from deal_served [of seat x c n p pos a b us ?rs] Cons.prems obtain cs p1 n1 where
    1: "mess_loop c pos a b us (bytes (deal_text seat x) @ ?rs) (p, n) = mess_loop c pos True True us ?rs (p1, n1)"
    and s: "sent n1 = sent n @ answers 1 cs" "plays_deal seat x cs" "hand_ok p1" "hand p1 = {#}" "writable n1"
    by auto
  from Cons.IH [OF _ Cons.prems(2) s(5,3,4), of True True] Cons.prems(1) obtain plays s2 n2 where
    "mess_loop c pos True True us ?rs (p1, n1) = Returns (True, True, us, (s2, n2), [])"
    "sent n2 = sent n1 @ concat (map (answers 1) plays)" "list_all2 (plays_deal seat) ds plays" by auto
  with 1 s show ?case
    by (intro exI [of _ "cs # plays"] exI [of _ s2] exI [of _ n2]) simp
qed

lemma new_player_hand [simp]: "hand new_player = {#}" "hand_ok new_player"
  by (simp_all add: new_player_def hand_ok_def cards_of_def)

text \<open>C: The automatic player plays a whole game. Whatever deals a server sends to its seat -
  for each the DEAL message with thirteen cards, then thirteen times a TRICK message with at most
  three cards and the TAKEN message of the complete trick, then the points and the totals, all as
  the functions of the server build them - and however the writes are cut in pieces, the client
  reads the messages to the end of the stream, answers every TRICK with a card of its hand that it
  has not played yet and that follows the suit of the first card on the table where it can,
  plays all thirteen cards of every deal, and ends with success.\<close>

theorem automatic_player_plays:
  assumes "is_auto_player c" and "ds \<noteq> []" and "\<forall>x\<in>set ds. served_deal seat x" and "writable n"
  shows "\<exists>plays p' n'. mess_handler c position us (bytes (concat (map (deal_text seat) ds))) (new_player, n) =
      Returns (0, us, (p', n'), []) \<and>
    sent n' = sent n @ concat (map (answers 1) plays) \<and> list_all2 (plays_deal seat) ds plays"
proof -
  from game_served [OF assms(3,1,4) new_player_hand(2,1), of position False False us] assms(2)
  obtain plays s n' where
    "mess_loop c position False False us (bytes (concat (map (deal_text seat) ds))) (new_player, n) =
      Returns (True, True, us, (s, n'), [])"
    "sent n' = sent n @ concat (map (answers 1) plays)" "list_all2 (plays_deal seat) ds plays" by auto
  then show ?thesis
    by (intro exI [of _ plays] exI [of _ s] exI [of _ n']) (simp add: mess_handler_def)
qed

section \<open>A turn between the server and the automatic player\<close>

text \<open>C: A turn. The server sends the trick to an automatic player whose hand is not empty; the
  client reads the trick from the bytes that arrive, whatever follows them, and answers; the
  server reads a card from the bytes of the answer and adds exactly this card to the trick, the
  card was in the hand and leaves it, and it follows the suit of the first card of the trick if
  the hand can. The writes of both sides may be cut into any pieces.\<close>

theorem turn_is_understood:
  assumes "trick_ok t" and "length (table_of t) \<le> 3" and "k < 99" and "is_auto_player c"
    and "writable ns" and "writable nc" and "hand_ok p" and "hand p \<noteq> {#}"
  shows "\<exists>ns1 p1 nc1 p2 nc2 x t2 ns2.
    Kierki_Server.send_trick_message sc (k + 1) t ns = Returns (0, ns1) \<and>
    Kierki_Client.receive_trick_message c (k + 1) (bytes (sent_since ns ns1) @ rs) (p, nc) =
      Returns ((0, p1, nc1), rs) \<and>
    Kierki_Client.send_trick_message c (k + 1) (p1, nc1) = Returns (0, p2, nc2) \<and>
    Kierki_Server.receive_trick_message sc (k + 1) (bytes (sent_since nc nc2) @ rs') (t, ns1) =
      Returns ((0, t2, ns2), rs') \<and>
    trick_ok t2 \<and> table_of t2 = table_of t @ [x] \<and> x \<in># hand p \<and> hand p2 = hand p - {#x#} \<and>
    follows (table_of t) (hand p) x"
proof -
  let ?m = "trick_message (k + 1) t"
  obtain ns1 where 1: "Kierki_Server.send_trick_message sc (k + 1) t ns = Returns (0, ns1)"
    and s1: "sent_since ns ns1 = ?m"
    using server_sends_trick [OF assms(5)] by blast
  let ?p1 = "p\<lparr>cards_from_trick := concat (table_of t), current_trick := table_of t\<rparr>"
  let ?t = "''TRICK'' @ dec (Suc k) @ concat (table_of t)"
  let ?nc1 = "logged c ?t nc"
  have table: "cards_string t = concat (table_of t)" "\<forall>y\<in>set (table_of t). is_card y"
    using assms(1) by (simp_all add: trick_ok_def)
  have "plain ?t" using table by (auto simp: card_plain)
  moreover have "?m = ?t @ delimiter" by (simp add: trick_message_def table)
  ultimately have 2: "Kierki_Client.receive_trick_message c (k + 1) (bytes ?m @ rs) (p, nc) =
      Returns ((0, ?p1, ?nc1), rs)"
    unfolding Kierki_Client.receive_trick_message_def
    using trick_accepted [of "Suc k" "table_of t" c p nc] assms(2-4) table
    by (simp only: receive_plain Suc_eq_plus1) simp
  obtain x p2 where sel: "select_card ?p1 = (x, p2)" by (cases "select_card ?p1") auto
  have h: "hand_ok ?p1" "hand ?p1 \<noteq> {#}" using assms(7,8) by simp_all
  note x = select_card_plays [OF h sel]
  have f: "follows (table_of t) (hand p) x" using select_card_follows [OF h(1) table(2) _ sel] by simp
  let ?a = "''TRICK'' @ dec (Suc k) @ x"
  have "writable ?nc1" "sent ?nc1 = sent nc" using quietD [OF quiet_log(1) [of nc c ?t]] assms(6) by simp_all
  then obtain nc0 where nc0: "write_message (?a @ delimiter) ?nc1 = (int (length (?a @ delimiter)), nc0)"
      "sent nc0 = sent nc @ ?a @ delimiter"
    using write_writable by (metis append.assoc)
  let ?nc2 = "log_out c (?a @ delimiter) nc0"
  have 3: "Kierki_Client.send_trick_message c (k + 1) (?p1, ?nc1) = Returns (0, p2, ?nc2)"
    using nc0(1) sel assms(4) by (simp add: Kierki_Client.send_trick_message_def Let_def)
  have s3: "sent_since nc ?nc2 = ?a @ delimiter"
    using quietD [OF log_out_quiet [of nc0 c "?a @ delimiter"]] nc0 by (simp add: sent_since_def)
  obtain t2 where t2: "add_card_to_cards x t = Some t2" "trick_ok t2" "table_of t2 = table_of t @ [x]"
    using add_card_ok [OF assms(1) x(3)] by blast
  have "plain ?a" using card_plain [OF x(3)] by simp
  then have 4: "Kierki_Server.receive_trick_message sc (k + 1) (bytes (?a @ delimiter) @ rs') (t, ns1) =
      Returns ((0, t2, log_received sc ?a ns1), rs')"
    unfolding Kierki_Server.receive_trick_message_def
    using card_body_accepts [of "Suc k" x t t2 sc ns1] x(3) t2(1) assms(3)
    by (simp only: receive_plain Suc_eq_plus1) simp
  from 1 2 3 4 s1 s3 x f t2 show ?thesis by (intro exI conjI) (assumption | simp)+
qed

section \<open>Who takes a trick and what a deal is worth\<close>

text \<open>C: The trick goes to the highest card of the suit led. On a trick with cards \<open>choose_winner\<close>
  finds the index of the first card that is highest among those of the first card's suit, and the
  winner is the seat at that distance from the lead; without a card its behaviour is undefined.\<close>

theorem winner_has_highest_card:
  "(trick_cards t = [] \<longleftrightarrow> choose_winner lead t = None) \<and>
   (trick_cards t \<noteq> [] \<longrightarrow> (\<exists>i. highest_at (suit (hd (trick_cards t))) (trick_cards t) i \<and>
      choose_winner lead t = Some (t\<lparr>winning_player := (char_to_index lead + int i) mod 4\<rparr>)))"
proof (cases "trick_cards t = []")
  case True
  then show ?thesis by (simp add: choose_winner_def)
next
  case False
  with choose_winner_highest [of t lead] show ?thesis by auto
qed

text \<open>C: The points of a deal. When the thirteen tricks of a deal hold the whole deck between them
  and each has been taken by someone, \<open>calculate_points\<close> succeeds, every player has the sum of the
  values of the tricks taken, and the four scores add up to what the type of the deal is worth:
  13 for the tricks, 13 for the hearts, 20 for the queens, 16 for jacks and kings, 18 for the king
  of hearts, 20 for the seventh and the last trick, and all of this together for the robber.\<close>

theorem deal_is_worth:
  assumes "length (tricks d) = 13" and "\<forall>t\<in>set (tricks d). trick_ok t \<and> winning_player t \<in> {0, 1, 2, 3}"
    and "(\<Sum>t\<leftarrow>tricks d. mset (table_of t)) = mset deck"
    and "deal_scores d = [0, 0, 0, 0]" and "1 \<le> deal_type d" and "deal_type d \<le> 7"
  shows "\<exists>scores. calculate_points d = Some (d\<lparr>deal_scores := scores\<rparr>) \<and> length scores = 4 \<and>
    (\<forall>w<4. scores ! w = (\<Sum>k<13. if winning_player (tricks d ! k) = int w
       then trick_value (deal_type d) k (tricks d ! k) else 0)) \<and>
    sum_list scores = deal_total (deal_type d)"
proof -
  let ?ty = "deal_type d" and ?ts = "tricks d"
  obtain scores where s: "points_loop ?ty 0 ?ts (deal_scores d) = Some scores" "length scores = 4"
    "\<forall>w<4. scores ! w = deal_scores d ! w + (\<Sum>k<13. if winning_player (?ts ! k) = int w
       then trick_value ?ty k (?ts ! k) else 0)"
    using points_loop_result [of "deal_scores d" ?ts ?ty 0] assms(1,2,4) by (auto cong: if_cong)
  have z: "deal_scores d ! w = 0" if "w < 4" for w using that assms(4) by (auto simp: numeral_eq_Suc less_Suc_eq)
  have "sum_list scores = (\<Sum>w<4. scores ! w)" using s(2) by (simp add: sum_list_sum_nth atLeast0LessThan)
  also have "\<dots> = (\<Sum>w<4::nat. \<Sum>k<13. if winning_player (?ts ! k) = int w then trick_value ?ty k (?ts ! k) else 0)"
    using s(3) z by simp
  also have "\<dots> = (\<Sum>k<13. trick_value ?ty k (?ts ! k))"
    using assms(1,2) by (intro sum_by_winner) simp
  also have "\<dots> = (\<Sum>k<13. trick_points ?ty k) + (\<Sum>k<13. sum_list (map (card_points ?ty) (table_of (?ts ! k))))"
    by (simp add: trick_value_def sum.distrib)
  also have "(\<Sum>k<13. sum_list (map (card_points ?ty) (table_of (?ts ! k)))) = sum_list (map (card_points ?ty) deck)"
    using sum_tables [of "card_points ?ty" ?ts] assms(1,3) by (simp add: sum_mset_sum_list flip: mset_map)
  also have "(\<Sum>k<13::nat. trick_points ?ty k) =
      (if ?ty = 1 \<or> ?ty = 7 then 13 else 0) + (if ?ty = 6 \<or> ?ty = 7 then 20 else 0)"
    by (simp add: trick_points_def numeral_eq_Suc)
  also have "\<dots> + sum_list (map (card_points ?ty) deck) = deal_total ?ty"
    unfolding deck_points deal_total_def by simp
  finally have "sum_list scores = deal_total ?ty" .
  with s z show ?thesis by (intro exI [of _ scores]) (simp add: calculate_points_def)
qed

section \<open>Malformed scores\<close>

text \<open>C: Malformed scores. A client that receives the scores of a deal in a text that is a
  sequence of different seats, each with a number, returns; a user's client returns on every other
  text as well, but an automatic player never does: the loop over the text continues with the
  message that the log has just made longer.\<close>

theorem malformed_scores_hang:
  assumes "plain s"
  shows "if is_auto_player c \<and> (\<nexists>es. scores_text s es)
    then receive_score_message c (bytes (''SCORE'' @ s @ delimiter) @ rs) (p, n) = Loops
    else \<exists>n'. receive_score_message c (bytes (''SCORE'' @ s @ delimiter) @ rs) (p, n) = Returns ((0, p, n'), rs)"
proof -
  have rec: "receive_score_message c (bytes (''SCORE'' @ s @ delimiter) @ rs) (p, n) =
     (case scores_body ''SCORE'' ''The scores are:'' c (''SCORE'' @ s) (p, n) of
        Continue s' \<Rightarrow> receive_loop (\<lambda>len s. Exits) (scores_body ''SCORE'' ''The scores are:'' c) rs s'
      | Finish r \<Rightarrow> run_bind r (\<lambda>x. Returns (x, rs)))"
    unfolding receive_score_message_def
    using receive_plain [of "''SCORE'' @ s" "\<lambda>len s. Exits" "scores_body ''SCORE'' ''The scores are:'' c" rs "(p, n)"]
      assms by (simp del: receive_loop.simps)
  have "readable (''SCORE'' @ s) 5 Map.empty \<longleftrightarrow> (\<exists>es. scores_text s es)"
    by (auto simp: readable_def scores_text_def)
  with score_loop_auto [of c "''SCORE'' @ s" 5 Map.empty n] score_loop_user [of c "''SCORE'' @ s" 5 Map.empty n]
  have loop: "score_loop c (''SCORE'' @ s) 5 Map.empty n = None \<longleftrightarrow>
      is_auto_player c \<and> (\<nexists>es. scores_text s es)" by blast
  show ?thesis
  proof (cases "score_loop c (''SCORE'' @ s) 5 Map.empty n")
    case None
    with loop show ?thesis unfolding rec by (simp add: scores_body_def)
  next
    case (Some r)
    obtain m sc n1 where "r = (m, sc, n1)" by (metis prod_cases3)
    with Some loop show ?thesis unfolding rec by (auto simp: scores_body_def)
  qed
qed

section \<open>The cards of a user, the seats of the clients\<close>

lemma correct_card_iff:
  assumes "\<forall>x\<in>set (current_trick p). is_card x" and "x \<noteq> []"
  shows "check_if_correct_card x p =
    Some (if follows (current_trick p) (mset (available_cards p)) x then 0 else -1)"
proof (cases "current_trick p")
  case (Cons y ys)
  with assms have "y \<noteq> []" by (auto simp: is_card_def)
  with Cons assms(2) show ?thesis
    by (auto simp: check_if_correct_card_def check_if_exists_suit_def follows_def)
qed (simp add: check_if_correct_card_def follows_def)

text \<open>A card that the user gives with an exclamation mark is played exactly when it is in the hand
  and follows the suit of the table as far as the hand can; then it leaves the hand and the wait
  ends. A card that does not follow suit and a card that is not in the hand are refused with
  their messages, and nothing else changes.\<close>

theorem user_plays_by_the_rules:
  assumes "\<forall>x\<in>set (current_trick p). is_card x" and "x \<noteq> []"
  shows "user_command True (CHR ''!'' # x) p n =
    (if \<not> follows (current_trick p) (mset (available_cards p)) x
     then Some (True, p, print (''Not the right suit.'' @ [LF]) n)
     else if x \<notin> set (available_cards p)
     then Some (True, p, print (''Not the right card.'' @ [LF]) n)
     else Some (False, p\<lparr>played_card := x, available_cards := remove1 x (available_cards p)\<rparr>, n))"
  using correct_card_iff [OF assms] by (simp add: user_command_def set_played_card_def)

text \<open>Seats. Whatever a client sends first, it gets a seat only if it asked for one of the four and
  the seat was free; then this seat is taken and no other changes. In every other case in which the
  server goes on no seat changes.\<close>

theorem seat_is_given_once:
  assumes "length gs = 4" and "receive_iam_message c rs gs n = Returns (seat, gs', rs', n')"
  shows "seat = -1 \<and> gs' = gs \<or>
    0 \<le> seat \<and> seat < 4 \<and> \<not> seat_occupied (gs ! nat seat) \<and>
    gs' = gs[nat seat := (gs ! nat seat)\<lparr>seat_occupied := True\<rparr>]"
proof -
  obtain len m rs1 where r: "readn [] rs = (len, m, rs1)" by (metis prod_cases3)
  have four: "char_to_index x < 4" for x by (simp add: char_to_index_def)
  from assms(2) r show ?thesis
    using four by (auto simp: receive_iam_message_def Let_def run_bind_eq_Returns split: if_splits)
qed

section \<open>What goes wrong\<close>

text \<open>A silent client: the read of its first message times out, and the whole server ends.\<close>

lemma silent_client_ends_server: "receive_iam_message c (Would_block # rs) gs n = Exits"
  by (simp add: receive_iam_message_def readn_def)

lemma number_one: "safe_stoi ''1'' = Some 1"
  by code_simp

lemma card_texts:
  "split_cards [] = []" "split_cards ''QC'' = [''QC'']" "split_cards ''QCx'' = [''QC'']"
  "split_cards ''2C3C4CAC'' = [''2C'', ''3C'', ''4C'', ''AC'']"
  by code_simp+

lemma texts_correct:
  "check_correctness [''QC''] (Suc 0) = 0" "check_correctness [''2C'', ''3C'', ''4C'', ''AC''] 4 = 0"
  by code_simp+

text \<open>A TRICK message without a card, and one whose card is followed by other characters.\<close>

lemma trick_without_card:
  "Kierki_Server.receive_trick_message c 1 (bytes (''TRICK1'' @ delimiter) @ rs) (t, n) = Undefined"
proof -
  have "card_body c 1 ''TRICK1'' (t, n) = Finish Undefined"
    by (simp add: card_body_def number_one check_correctness_def add_card_to_cards_def)
  then show ?thesis
    unfolding Kierki_Server.receive_trick_message_def by (subst receive_plain) (simp_all add: CR_def)
qed

lemma trick_with_more:
  "Kierki_Server.receive_trick_message c 1 (bytes (''TRICK1QCx'' @ delimiter) @ rs) (t, n) = Undefined"
proof -
  have "add_card_to_cards ''QCx'' t = None" by (simp add: add_card_to_cards_def card_values_def)
  then have "card_body c 1 ''TRICK1QCx'' (t, n) = Finish Undefined"
    by (simp add: card_body_def number_one Let_def card_texts texts_correct)
  then show ?thesis
    unfolding Kierki_Server.receive_trick_message_def
    by (subst receive_plain) (simp_all add: CR_def)
qed

text \<open>The tag of a message of five characters or more is not looked at.\<close>

lemma tag_is_ignored:
  "\<exists>t' n'. Kierki_Server.receive_trick_message c 1 (bytes (''HELLO1QC'' @ delimiter) @ rs) (new_trick 0, n) =
    Returns ((0, t', n'), rs) \<and> table_of t' = [''QC'']"
proof -
  have "is_card ''QC''" by (simp add: is_card_def card_values_def check_suit_def)
  then obtain t' where t': "add_card_to_cards ''QC'' (new_trick 0) = Some t'" "table_of t' = [''QC'']"
    using add_card_ok [of "new_trick 0" "''QC''"] by auto
  have "card_body c 1 ''HELLO1QC'' (new_trick 0, n) = Finish (Returns (0, t', log_received c ''HELLO1QC'' n))"
    by (simp add: card_body_def number_one Let_def card_texts texts_correct t'(1))
  then have "Kierki_Server.receive_trick_message c 1 (bytes (''HELLO1QC'' @ delimiter) @ rs) (new_trick 0, n) =
      Returns ((0, t', log_received c ''HELLO1QC'' n), rs)"
    unfolding Kierki_Server.receive_trick_message_def
    by (subst receive_plain) (simp_all add: CR_def)
  with t'(2) show ?thesis by blast
qed

text \<open>A message shorter than that closes the socket, and the next message to it ends the server.\<close>

lemma short_message_ends_server:
  "\<exists>n'. Kierki_Server.receive_trick_message c 1 (bytes (''OK'' @ delimiter) @ rs) (t, n) =
      Returns ((-1, t, n'), rs) \<and>
    send_taken_message c 1 t' n' = Exits"
proof -
  let ?n = "close_socket (log_received c ''OK'' n)"
  have "card_body c 1 ''OK'' (t, n) = Finish (Returns (-1, t, ?n))" by (simp add: card_body_def)
  then have "Kierki_Server.receive_trick_message c 1 (bytes (''OK'' @ delimiter) @ rs) (t, n) =
      Returns ((-1, t, ?n), rs)"
    unfolding Kierki_Server.receive_trick_message_def by (subst receive_plain) simp_all
  moreover have "write_message (x # m) ?n = (-1, ?n)" for x m
    by (simp add: write_message_def close_socket_def)
  then have "send_or_lost c (x # m) ?n = Exits" for x m by (simp add: send_or_lost_def)
  then have "send_taken_message c 1 t' ?n = Exits"
    by (cases "index_to_char (winning_player t')") (simp_all add: send_taken_message_def taken_message_def)
  ultimately show ?thesis by blast
qed

text \<open>When the time to answer is over in the middle of a message, its first part is lost.\<close>

lemma timeout_loses_bytes:
  "Kierki_Server.receive_trick_message c k (bytes ''TRI'' @ Would_block # rs) s = Returns ((-3, s), rs)"
  by (simp add: Kierki_Server.receive_trick_message_def receive_loop.simps [of _ _ "Byte _ # _"]
      readn_def Let_def CR_def LF_def)

text \<open>A hand of twelve cards is refused and kept.\<close>

lemma refused_hand_is_kept:
  assumes "length (split_cards s) \<noteq> 13"
  shows "\<exists>p'. add_cards s p = (-1, p') \<and> hand p' = hand p + mset (split_cards s)"
proof -
  obtain r p' where a: "add_cards s p = (r, p')" by (cases "add_cards s p")
  from add_cards_result(1,2) [OF a] assms a show ?thesis by simp
qed

text \<open>
  A client that joins again while the lead is not north's takes the wrong card of a trick for its
  own: at seat N with lead E, its card is the last of the four.
\<close>

lemma rejoin_keeps_card:
  assumes "is_auto_player c" and "cards_by_suit p = (\<lambda>s. [])(CHR ''C'' := [''A''])"
  shows "\<exists>n'. receive_taken_or_trick_message c 1 (CHR ''N'') (bytes (''TAKEN12C3C4CACN'' @ delimiter) @ rs) (p, n) =
    Returns ((0, p, n'), rs)"
proof -
  have "erase_from_cards_by_suit ''2C'' p = p"
    using assms(2) by (simp add: erase_from_cards_by_suit_def fun_upd_idem)
  then have "taken_or_trick_body c 1 (CHR ''N'') ''TAKEN12C3C4CACN'' (p, n) =
      Finish (Returns (0, p, logged c ''TAKEN12C3C4CACN'' n))"
    using assms(1) by (simp add: taken_or_trick_body_def number_one Let_def card_texts texts_correct number_length_def
        check_position_def char_to_index_def taken_or_trick_done_def forget_card_def)
  then show ?thesis
    unfolding receive_taken_or_trick_message_def
    by (subst receive_plain) (auto simp: CR_def intro: exI [of _ "logged c ''TAKEN12C3C4CACN'' n"])
qed

text \<open>
  The first TRICK of a deal with an empty table leaves the table of the last deal, and a user who
  leads is refused a card that does not follow it.
\<close>

lemma lead_refused:
  assumes "\<not> is_auto_player c" and "current_trick p = [''AH'']" and "available_cards p = [''2C'', ''3H'']"
  shows "\<exists>n'. receive_taken_or_trick_message c 1 pos (bytes (''TRICK1'' @ delimiter) @ rs) (p, n) =
      Returns ((1, p, n'), rs) \<and>
    user_command True ''!2C'' p n' = Some (True, p, print (''Not the right suit.'' @ [LF]) n')"
proof -
  have "\<exists>n'. taken_or_trick_body c 1 pos ''TRICK1'' (p, n) = Finish (Returns (1, p, n'))"
    using assms(1)
    by (simp add: taken_or_trick_body_def number_one number_length_def taken_or_trick_done_def)
  then obtain n' where b: "taken_or_trick_body c 1 pos ''TRICK1'' (p, n) = Finish (Returns (1, p, n'))" ..
  have "receive_taken_or_trick_message c 1 pos (bytes (''TRICK1'' @ delimiter) @ rs) (p, n) =
      Returns ((1, p, n'), rs)"
    unfolding receive_taken_or_trick_message_def by (subst receive_plain) (simp_all add: b [simplified] CR_def)
  moreover have "user_command True ''!2C'' p n' = Some (True, p, print (''Not the right suit.'' @ [LF]) n')"
    using assms(2,3) by (simp add: user_command_def check_if_correct_card_def check_if_exists_suit_def)
  ultimately show ?thesis by blast
qed

lemma lone_exclamation_mark:
  "current_trick p \<noteq> [] \<Longrightarrow> user_command True ''!'' p n = None"
  by (simp add: user_command_def check_if_correct_card_def Let_def)

section \<open>Examples\<close>

text \<open>
  A deal in which the seat N leads every trick, the players follow rank by rank, and N, who holds
  the clubs, takes everything.
\<close>

definition ranks :: "string list" where
  "ranks = ''10'' # map (\<lambda>c. [c]) face_class"

definition sample_trick :: "string \<Rightarrow> trick" where
  "sample_trick v = \<lparr>winning_player = 0, current_trick_player = 0,
     cards_string = concat (map (\<lambda>s. v @ [s]) suit_class),
     trick_cards = map (\<lambda>s. \<lparr>value_string = v, suit = s, value_int = the (card_values v)\<rparr>) suit_class\<rparr>"

definition sample_deal :: deal where
  "sample_deal = \<lparr>deal_type = 7, lead_player = CHR ''N'',
     players = [new_player\<lparr>cards := concat (map (\<lambda>v. v @ ''C'') ranks)\<rparr>],
     tricks = map sample_trick ranks, deal_scores = [0, 0, 0, 0]\<rparr>"

definition sample_served :: served_deal where
  "sample_served = (sample_deal, map (\<lambda>v. (new_trick 0, sample_trick v)) ranks, [100, 0, 0, 0])"

definition sample_net :: net where
  "sample_net = \<lparr>is_open = True, writes = [Wrote 2, Wrote 1], sent = [], console = []\<rparr>"

definition robot :: client where
  "robot = \<lparr>is_auto_player = True, client_addr = ''a'', server_addr = ''b''\<rparr>"

lemma rank_card: "v \<in> set ranks \<Longrightarrow> s \<in> set suit_class \<Longrightarrow> is_card (v @ [s])"
  by (auto simp: ranks_def intro: is_card_intros)

lemma sample_trick_ok:
  assumes "v \<in> set ranks"
  shows "trick_ok (sample_trick v)" and "table_of (sample_trick v) = map (\<lambda>s. v @ [s]) suit_class"
    and "winning_player (sample_trick v) = 0"
proof -
  have "is_card (v @ ''C'')" using rank_card [OF assms, of "CHR ''C''"] by (simp add: suit_class_def)
  then obtain x where "card_values v = Some x" by (auto simp: is_card_def)
  then show "trick_ok (sample_trick v)"
    using rank_card [OF assms] by (auto simp: trick_ok_def sample_trick_def table_of_def comp_def)
  show "table_of (sample_trick v) = map (\<lambda>s. v @ [s]) suit_class" "winning_player (sample_trick v) = 0"
    by (simp_all add: sample_trick_def table_of_def comp_def)
qed

lemma sample_is_served: "served_deal 0 sample_served"
proof -
  have c: "\<forall>x\<in>set (map (\<lambda>v. v @ ''C'') ranks). is_card x"
    using rank_card [of _ "CHR ''C''"] by (auto simp: suit_class_def)
  have l: "length ranks = 13" "length suit_class = 4" by (simp_all add: ranks_def face_class_def suit_class_def)
  have "\<forall>x\<in>set (map (\<lambda>v. (new_trick 0, sample_trick v)) ranks). served_trick x"
    using sample_trick_ok l by (auto simp: served_trick_def)
  moreover have "split_cards (concat (map (\<lambda>v. v @ ''C'') ranks)) = map (\<lambda>v. v @ ''C'') ranks"
    by (rule split_table [OF c])
  moreover have "plain (concat (map (\<lambda>v. v @ ''C'') ranks))" using c card_plain by fastforce
  ultimately show ?thesis
    using l unfolding served_deal_def sample_served_def sample_deal_def hand_text_def prod.case
    by (simp add: valid_scores_def check_position_def)
qed

theorem automatic_player_plays_witness:
  "\<exists>plays p' n'. mess_handler robot (CHR ''N'') [] (bytes (deal_text 0 sample_served @ deal_text 0 sample_served))
      (new_player, sample_net) = Returns (0, [], (p', n'), []) \<and>
    sent n' = sent sample_net @ concat (map (answers 1) plays) \<and>
    list_all2 (plays_deal 0) [sample_served, sample_served] plays"
  using automatic_player_plays [of robot "[sample_served, sample_served]" 0 sample_net "CHR ''N''" "[]"]
    sample_is_served by (simp add: robot_def sample_net_def writable_def)

definition one_card :: player where
  "one_card = new_player\<lparr>cards_by_suit := (\<lambda>s. [])(CHR ''C'' := [''A'']), available_cards := [''AC''],
     current_trick := [''2C'']\<rparr>"

definition wire :: connection where
  "wire = \<lparr>client_of = ''a'', server_of = ''b''\<rparr>"

lemma one_card_hand [simp]: "hand_ok one_card" "hand one_card = {#''AC''#}"
  by (simp_all add: one_card_def hand_ok_def is_card_def card_values_def check_suit_def cards_of_def
      suit_class_def new_player_def)

lemma ready_sample [simp]: "writable sample_net" "is_auto_player robot"
  by (simp_all add: sample_net_def writable_def robot_def)

theorem turn_is_understood_witness:
  "\<exists>ns1 p1 nc1 p2 nc2 x t2 ns2.
    Kierki_Server.send_trick_message wire (12 + 1) (new_trick 0) sample_net = Returns (0, ns1) \<and>
    Kierki_Client.receive_trick_message robot (12 + 1) (bytes (sent_since sample_net ns1) @ [Read_error])
      (one_card, sample_net) = Returns ((0, p1, nc1), [Read_error]) \<and>
    Kierki_Client.send_trick_message robot (12 + 1) (p1, nc1) = Returns (0, p2, nc2) \<and>
    Kierki_Server.receive_trick_message wire (12 + 1) (bytes (sent_since sample_net nc2) @ [])
      (new_trick 0, ns1) = Returns ((0, t2, ns2), []) \<and>
    trick_ok t2 \<and> table_of t2 = table_of (new_trick 0) @ [x] \<and> x \<in># hand one_card \<and>
    hand p2 = hand one_card - {#x#} \<and> follows (table_of (new_trick 0)) (hand one_card) x"
  by (rule turn_is_understood) simp_all

theorem winner_has_highest_card_witness:
  "\<exists>i. highest_at (CHR ''C'') (trick_cards (sample_trick ''J'')) i \<and>
    choose_winner (CHR ''W'') (sample_trick ''J'') =
      Some (sample_trick ''J''\<lparr>winning_player := (char_to_index (CHR ''W'') + int i) mod 4\<rparr>)"
  using winner_has_highest_card [of "sample_trick ''J''" "CHR ''W''"]
  by (simp add: sample_trick_def suit_class_def)

lemma sample_tables: "(\<Sum>t\<leftarrow>map sample_trick ranks. mset (table_of t)) = mset deck"
proof -
  have "(\<Sum>t\<leftarrow>map sample_trick ranks. mset (table_of t)) = (\<Sum>v\<leftarrow>ranks. mset (map (\<lambda>s. v @ [s]) suit_class))"
    using sample_trick_ok(2) by (simp add: comp_def cong: map_cong)
  also have "\<dots> = mset deck" by code_simp
  finally show ?thesis .
qed

theorem deal_is_worth_witness:
  "\<exists>scores. calculate_points sample_deal = Some (sample_deal\<lparr>deal_scores := scores\<rparr>) \<and>
    length scores = 4 \<and> sum_list scores = 100"
proof -
  have t: "length (tricks sample_deal) = 13"
      "\<forall>t\<in>set (tricks sample_deal). trick_ok t \<and> winning_player t \<in> {0, 1, 2, 3}"
      "(\<Sum>t\<leftarrow>tricks sample_deal. mset (table_of t)) = mset deck"
    using sample_trick_ok sample_tables by (auto simp: sample_deal_def ranks_def face_class_def)
  have r: "deal_scores sample_deal = [0, 0, 0, 0]" "1 \<le> deal_type sample_deal" "deal_type sample_deal \<le> 7"
    by (simp_all add: sample_deal_def)
  from deal_is_worth [OF t r] show ?thesis by (auto simp: deal_total_def sample_deal_def)
qed

theorem malformed_scores_hang_witness:
  "receive_score_message robot (bytes (''SCORE'' @ ''x'' @ delimiter) @ []) (new_player, sample_net) = Loops"
proof -
  have no: "\<not> scores_text ''x'' es" for es
    by (cases es) (auto simp: scores_text_def entry_def entry_ok_def check_position_def)
  from malformed_scores_hang [of "''x''" robot "[]" new_player sample_net] no show ?thesis
    by (simp add: CR_def robot_def)
qed

theorem user_plays_by_the_rules_witness:
  "user_command True ''!AC'' one_card sample_net =
    Some (False, one_card\<lparr>played_card := ''AC'', available_cards := []\<rparr>, sample_net)"
  using user_plays_by_the_rules [of one_card "''AC''" sample_net]
  by (simp add: one_card_def is_card_def card_values_def check_suit_def follows_def)

theorem seat_is_given_once_witness:
  "\<exists>seat gs' rs' n'. receive_iam_message wire (bytes (''IAMW'' @ delimiter)) (replicate 4 new_game_state) sample_net =
      Returns (seat, gs', rs', n') \<and> \<not> (seat = -1 \<and> gs' = replicate 4 new_game_state) \<and>
    (0 \<le> seat \<and> seat < 4 \<and> \<not> seat_occupied (replicate 4 new_game_state ! nat seat) \<and>
     gs' = (replicate 4 new_game_state)[nat seat :=
       (replicate 4 new_game_state ! nat seat)\<lparr>seat_occupied := True\<rparr>])"
proof -
  have "readn [] (bytes (''IAMW'' @ delimiter) @ []) = (4, ''IAMW'', [])"
    by (subst readn_plain) (simp_all add: CR_def)
  then have r: "receive_iam_message wire (bytes (''IAMW'' @ delimiter)) (replicate 4 new_game_state) sample_net =
      Returns (3, (replicate 4 new_game_state)[3 := new_game_state\<lparr>seat_occupied := True\<rparr>], [],
        log_received wire ''IAMW'' sample_net)"
    by (simp add: receive_iam_message_def char_to_index_def new_game_state_def numeral_eq_Suc)
  from seat_is_given_once [OF _ r] r show ?thesis by auto
qed

end
