(* ===== verification/Kierki_Threads.thy ===== *)
theory Kierki_Threads
  imports Kierki_Game
begin

text \<open>
  The threads of the server of the card game (\<open>client_handler\<close>, \<open>trick_handler\<close>,
  \<open>deal_handler\<close> and \<open>accept_clients\<close> of \<open>server/client_handler.cpp\<close>). One step of one thread at
  a time: a step ends where the thread uses a variable, a semaphore or a barrier that the threads
  share. \<open>handler_step\<close> gives \<open>None\<close> while a thread waits; otherwise the result of the step,
  which may end the process or be undefined. At the last arrival at a barrier the threads that
  wait there go on; that each of them wakes up in a step of its own would change no shared state.
\<close>

section \<open>The state\<close>

datatype barrier = Deal_start | Deal_end | Trick_start | Trick_end

text \<open>Where a thread is in \<open>client_handler\<close>, with its loop variables \<open>j\<close> and \<open>i\<close>.\<close>

datatype pc =
    Deal_head nat
  | Deal_hand nat
  | Set_turn nat
  | Check_lead nat
  | Trick_head nat nat
  | Trick_resend nat nat
  | Await_turn nat nat
  | Play nat nat
  | Judge nat nat
  | Pass nat nat
  | Wake nat nat
  | Taken nat nat
  | Points nat
  | Own_turn nat
  | Own_acquire nat
  | Deal_reset nat
  | Scores nat
  | Stop
  | Gone
  | Arrive barrier pc
  | Wait barrier pc

record handler =
  pc :: pc
  peer :: connection
  sock :: net
  input :: "received list"

record server =
  states :: "game_state list"
  client_sockets :: "int list"
  turn :: int
  totals :: "int list"
  semaphores :: "nat \<Rightarrow> nat"
  arrived :: "barrier \<Rightarrow> nat"
  deals :: "deal list"
  handlers :: "nat \<Rightarrow> handler"
  stopped :: bool

definition on_handler :: "nat \<Rightarrow> (handler \<Rightarrow> handler) \<Rightarrow> server \<Rightarrow> server" where
  "on_handler p f s = s\<lparr>handlers := (handlers s)(p := f (handlers s p))\<rparr>"

definition goto :: "nat \<Rightarrow> pc \<Rightarrow> server \<Rightarrow> server" where
  "goto p k s = on_handler p (\<lambda>h. h\<lparr>pc := k\<rparr>) s"

definition on_state :: "nat \<Rightarrow> (game_state \<Rightarrow> game_state) \<Rightarrow> server \<Rightarrow> server" where
  "on_state p f s = s\<lparr>states := (states s)[p := f (states s ! p)]\<rparr>"

definition release :: "nat \<Rightarrow> server \<Rightarrow> server" where
  "release p s = s\<lparr>semaphores := (semaphores s)(p := Suc (semaphores s p))\<rparr>"

text \<open>\<open>wait_for_turn\<close>, and the last line of a deal: \<open>acquire\<close>.\<close>

definition acquire :: "nat \<Rightarrow> server \<Rightarrow> server option" where
  "acquire p s =
     (if semaphores s p = 0 then None
      else Some (s\<lparr>semaphores := (semaphores s)(p := semaphores s p - 1)\<rparr>))"

definition resume :: "barrier \<Rightarrow> handler \<Rightarrow> handler" where
  "resume b h = (case pc h of Wait b' k \<Rightarrow> if b' = b then h\<lparr>pc := k\<rparr> else h | _ \<Rightarrow> h)"

definition arrive_and_wait :: "nat \<Rightarrow> barrier \<Rightarrow> pc \<Rightarrow> server \<Rightarrow> server" where
  "arrive_and_wait p b k s =
     (if Suc (arrived s b) = 4
      then (goto p k s)\<lparr>arrived := (arrived s)(b := 0), handlers := resume b \<circ> handlers (goto p k s)\<rparr>
      else (goto p (Wait b k) s)\<lparr>arrived := (arrived s)(b := Suc (arrived s b))\<rparr>)"

section \<open>Talking to the client\<close>

definition talk ::
  "nat \<Rightarrow> (connection \<Rightarrow> net \<Rightarrow> (int \<times> net) run) \<Rightarrow> server \<Rightarrow> (int \<times> server) run"
where
  "talk p f s = run_bind (f (peer (handlers s p)) (sock (handlers s p)))
     (\<lambda>(r, n). Returns (r, on_handler p (\<lambda>h. h\<lparr>sock := n\<rparr>) s))"

text \<open>\<open>send_deal_and_taken_msg\<close> ignores what its messages return.\<close>

fun send_takens :: "nat \<Rightarrow> nat \<Rightarrow> trick list \<Rightarrow> server \<Rightarrow> server run" where
  "send_takens p k [] s = Returns s"
| "send_takens p k (t # ts) s =
     run_bind (talk p (\<lambda>c. send_taken_message c k t) s) (\<lambda>(r, s). send_takens p (Suc k) ts s)"

definition send_deal_and_taken_msg :: "nat \<Rightarrow> nat \<Rightarrow> server \<Rightarrow> server run" where
  "send_deal_and_taken_msg p j s =
     run_bind (talk p (\<lambda>c. send_deal_message c p (deals s ! j)) s) (\<lambda>(r, s).
       send_takens p 1 (take (at_trick (states s ! p)) (tricks (deals s ! j))) s)"

text \<open>A handler that has lost its client: the state to take up again, a free seat and a free slot.\<close>

definition leave :: "nat \<Rightarrow> (game_state \<Rightarrow> game_state) \<Rightarrow> server \<Rightarrow> server" where
  "leave p f s = goto p Gone ((on_state p (\<lambda>g. (f g)\<lparr>seat_occupied := False\<rparr>) s)
     \<lparr>client_sockets := (client_sockets s)[p := -1]\<rparr>)"

definition lead_index :: "nat \<Rightarrow> server \<Rightarrow> int" where
  "lead_index j s = char_to_index (lead_player (deals s ! j))"

definition trick_at :: "nat \<Rightarrow> nat \<Rightarrow> server \<Rightarrow> trick" where
  "trick_at j i s = tricks (deals s ! j) ! i"

definition set_trick :: "nat \<Rightarrow> nat \<Rightarrow> trick \<Rightarrow> server \<Rightarrow> server" where
  "set_trick j i t s = s\<lparr>deals := (deals s)[j := (deals s ! j)\<lparr>tricks := (tricks (deals s ! j))[i := t]\<rparr>]\<rparr>"

section \<open>A step of a handler\<close>

definition deal_step :: "nat \<Rightarrow> nat \<Rightarrow> server \<Rightarrow> server run" where
  "deal_step p j s =
     (if j < length (deals s) then
        run_bind
          (if disconnect_on_score_total_handler (states s ! p)
           then run_bind (send_deal_and_taken_msg p j s) (\<lambda>s.
             Returns (on_state p (\<lambda>g. g\<lparr>disconnect_on_score_total_handler := False\<rparr>) s))
           else Returns s) (\<lambda>s.
          let g = states s ! p in
          Returns (goto p
            (if \<not> disconnect_on_send_taken_msg g then
               if \<not> disconnect_on_deal_handler g \<and> \<not> disconnect_on_trick_handler g
               then Arrive Deal_start (Deal_hand j)
               else Deal_hand j
             else Trick_head j (at_trick g)) s))
      else Returns (goto p (Arrive Deal_end Stop) s))"

definition hand_step :: "nat \<Rightarrow> nat \<Rightarrow> server \<Rightarrow> server run" where
  "hand_step p j s =
     (if \<not> disconnect_on_trick_handler (states s ! p) then
        run_bind (talk p (\<lambda>c. send_deal_message c p (deals s ! j)) s) (\<lambda>(r, s).
          if r < 0 then
            if r = -2 then Returns (leave p (\<lambda>g. g\<lparr>at_deal := j, disconnect_on_deal_handler := True\<rparr>) s)
            else Exits
          else Returns (goto p (Set_turn j) s))
      else Returns (goto p (Trick_head j (at_trick (states s ! p))) s))"

definition check_lead_step :: "nat \<Rightarrow> nat \<Rightarrow> server \<Rightarrow> server" where
  "check_lead_step p j s =
     (let s = (if int p = turn s then release p s else s);
          s = on_state p (\<lambda>g. g\<lparr>disconnect_on_deal_handler := False\<rparr>) s
      in goto p (Trick_head j (at_trick (states s ! p))) s)"

definition trick_head_step :: "nat \<Rightarrow> nat \<Rightarrow> nat \<Rightarrow> server \<Rightarrow> server run" where
  "trick_head_step p j i s =
     (if i < 13 then
        if \<not> disconnect_on_trick_handler (states s ! p)
        then Returns (goto p (Arrive Trick_start (Trick_resend j i)) s)
        else run_bind (send_deal_and_taken_msg p j s) (\<lambda>s.
          Returns (goto p (Trick_resend j i)
            (on_state p (\<lambda>g. g\<lparr>disconnect_on_trick_handler := False\<rparr>) s)))
      else Returns (goto p (Points j) s))"

definition resend_step :: "nat \<Rightarrow> nat \<Rightarrow> nat \<Rightarrow> server \<Rightarrow> server run" where
  "resend_step p j i s =
     (if disconnect_on_send_taken_msg (states s ! p)
      then run_bind (send_deal_and_taken_msg p j s) (\<lambda>s.
        Returns (goto p (Await_turn j i) (on_state p (\<lambda>g. g\<lparr>disconnect_on_send_taken_msg := False\<rparr>) s)))
      else Returns (goto p (Await_turn j i) s))"

definition play_step :: "nat \<Rightarrow> nat \<Rightarrow> nat \<Rightarrow> server \<Rightarrow> server run" where
  "play_step p j i s =
     run_bind (trick_loop (peer (handlers s p)) i (input (handlers s p)) (trick_at j i s, sock (handlers s p)))
       (\<lambda>((r, t, n), rs).
          let s = set_trick j i t (on_handler p (\<lambda>h. h\<lparr>sock := n, input := rs\<rparr>) s) in
          if r = -2 then Returns (release p (leave p
            (\<lambda>g. g\<lparr>at_deal := j, at_trick := i, disconnect_on_trick_handler := True\<rparr>) s))
          else Returns (goto p (Judge j i) s))"

definition judge_step :: "nat \<Rightarrow> nat \<Rightarrow> nat \<Rightarrow> server \<Rightarrow> server run" where
  "judge_step p j i s =
     (if turn s = (lead_index j s + 3) mod 4 then
        case choose_winner (lead_player (deals s ! j)) (trick_at j i s) of
          None \<Rightarrow> Undefined
        | Some t \<Rightarrow> Returns (goto p (Pass j i) (set_trick j i t s))
      else Returns (goto p (Pass j i) s))"

definition taken_step :: "nat \<Rightarrow> nat \<Rightarrow> nat \<Rightarrow> server \<Rightarrow> server run" where
  "taken_step p j i s =
     run_bind (talk p (\<lambda>c. send_taken_message c (i + 1) (trick_at j i s)) s) (\<lambda>(r, s).
       if r = -2 \<and> i \<noteq> 12 then Returns (release p (leave p
         (\<lambda>g. g\<lparr>at_deal := j, at_trick := i + 1, disconnect_on_send_taken_msg := True\<rparr>) s))
       else Returns (goto p (Trick_head j (i + 1)) s))"

definition points_step :: "nat \<Rightarrow> nat \<Rightarrow> server \<Rightarrow> server run" where
  "points_step p j s =
     (if int p = (lead_index j s + 3) mod 4 then
        case calculate_points (deals s ! j) of
          None \<Rightarrow> Undefined
        | Some d \<Rightarrow> Returns (goto p (Own_turn j)
            (s\<lparr>deals := (deals s)[j := d], totals := map2 (+) (totals s) (deal_scores d)\<rparr>))
      else Returns (goto p (Own_turn j) s))"

definition scores_step :: "nat \<Rightarrow> nat \<Rightarrow> server \<Rightarrow> server run" where
  "scores_step p j s =
     run_bind (talk p (\<lambda>c. score_total_handler c (deals s ! j) (totals s)) s) (\<lambda>(r, s).
       if r = -2 \<and> int j \<noteq> int (length (deals s)) - 1 then
         Returns (leave p (\<lambda>g. g\<lparr>at_deal := j + 1, disconnect_on_score_total_handler := True\<rparr>) s)
       else Returns (goto p (Deal_head (j + 1)) s))"

definition handler_step :: "nat \<Rightarrow> server \<Rightarrow> server run option" where
  "handler_step p s =
     (case pc (handlers s p) of
        Deal_head j \<Rightarrow> Some (deal_step p j s)
      | Deal_hand j \<Rightarrow> Some (hand_step p j s)
      | Set_turn j \<Rightarrow> Some (Returns (goto p (Check_lead j) (s\<lparr>turn := lead_index j s\<rparr>)))
      | Check_lead j \<Rightarrow> Some (Returns (check_lead_step p j s))
      | Trick_head j i \<Rightarrow> Some (trick_head_step p j i s)
      | Trick_resend j i \<Rightarrow> Some (resend_step p j i s)
      | Await_turn j i \<Rightarrow> map_option (\<lambda>s. Returns (goto p (Play j i) s)) (acquire p s)
      | Play j i \<Rightarrow> Some (play_step p j i s)
      | Judge j i \<Rightarrow> Some (judge_step p j i s)
      | Pass j i \<Rightarrow> Some (Returns (goto p (Wake j i) (s\<lparr>turn := (turn s + 1) mod 4\<rparr>)))
      | Wake j i \<Rightarrow> Some (Returns (goto p (Arrive Trick_end (Taken j i)) (release (nat (turn s)) s)))
      | Taken j i \<Rightarrow> Some (taken_step p j i s)
      | Points j \<Rightarrow> Some (points_step p j s)
      | Own_turn j \<Rightarrow> Some (Returns (goto p (if int p = turn s then Own_acquire j else Deal_reset j) s))
      | Own_acquire j \<Rightarrow> map_option (\<lambda>s. Returns (goto p (Deal_reset j) s)) (acquire (nat (turn s)) s)
      | Deal_reset j \<Rightarrow> Some (Returns (goto p (Arrive Deal_end (Scores j)) (on_state p reset_trick s)))
      | Scores j \<Rightarrow> Some (scores_step p j s)
      | Stop \<Rightarrow> Some (Returns (goto p Gone (s\<lparr>stopped := stopped s \<or> int p = turn s\<rparr>)))
      | Gone \<Rightarrow> None
      | Arrive b k \<Rightarrow> Some (Returns (arrive_and_wait p b k s))
      | Wait b k \<Rightarrow> None)"

section \<open>Accepting a client\<close>

fun first_free :: "nat \<Rightarrow> int list \<Rightarrow> nat" where
  "first_free k [] = k"
| "first_free k (fd # fds) = (if fd = -1 then k else first_free (Suc k) fds)"

text \<open>
  A client that has connected: without a free slot for its socket no thread is started for the
  seat it has been given.
\<close>

definition accept_client :: "int \<Rightarrow> connection \<Rightarrow> received list \<Rightarrow> net \<Rightarrow> server \<Rightarrow> server run" where
  "accept_client fd c rs n s =
     run_bind (receive_iam_message c rs (states s) n) (\<lambda>(seat, gs, rs, n).
       let s = s\<lparr>states := gs\<rparr>; k = first_free 0 (client_sockets s) in
       if seat < 0 \<or> length (client_sockets s) \<le> k then Returns s
       else Returns (s\<lparr>client_sockets := (client_sockets s)[k := fd],
         handlers := (handlers s)(nat seat :=
           \<lparr>pc = Deal_head (at_deal (gs ! nat seat)), peer = c, sock = n, input = rs\<rparr>)\<rparr>))"

inductive server_step :: "server \<Rightarrow> server \<Rightarrow> bool" where
  handler: "p < 4 \<Longrightarrow> handler_step p s = Some (Returns s') \<Longrightarrow> server_step s s'"
| client: "accept_client fd c rs n s = Returns s' \<Longrightarrow> server_step s s'"

end
