(* ===== verification/Kierki_Threads_Inv.thy ===== *)
theory Kierki_Threads_Inv
  imports Kierki_Threads Kierki_Rules
begin

text \<open>
  Four clients that stay connected and send the cards they mean to play: what the tricks, points and
  totals of every deal must then be, computed deal by deal and seat by seat, and the invariant
  of the threads that says how far they are with it.
\<close>

section \<open>The game as it must go\<close>

text \<open>A deal as it is read from the file, and the cards that a client sends, thirteen in every deal.\<close>

definition fresh_deal :: "deal \<Rightarrow> bool" where
  "fresh_deal d \<longleftrightarrow> check_position (lead_player d) = 0 \<and> length (players d) = 4 \<and>
     tricks d = replicate 13 (new_trick (char_to_index (lead_player d))) \<and> deal_scores d = [0, 0, 0, 0]"

definition good_plays :: "deal list \<Rightarrow> (nat \<Rightarrow> string list list) \<Rightarrow> bool" where
  "good_plays ds plays \<longleftrightarrow> (\<forall>p<4. length (plays p) = length ds \<and>
     (\<forall>cs\<in>set (plays p). length cs = 13 \<and> (\<forall>c\<in>set cs. is_card c)))"

definition lead :: "deal \<Rightarrow> nat" where
  "lead d = nat (char_to_index (lead_player d))"

text \<open>The seat whose turn is the \<open>r\<close>-th in a trick, and the turn of a seat.\<close>

definition seat_of :: "deal \<Rightarrow> nat \<Rightarrow> nat" where
  "seat_of d r = (lead d + r) mod 4"

definition rank :: "deal \<Rightarrow> nat \<Rightarrow> nat" where
  "rank d p = (p + 4 - lead d) mod 4"

definition card_text :: "(nat \<Rightarrow> string list list) \<Rightarrow> nat \<Rightarrow> nat \<Rightarrow> nat \<Rightarrow> string" where
  "card_text plays p j i = plays p ! j ! i"

fun partial_trick :: "deal \<Rightarrow> (nat \<Rightarrow> string list list) \<Rightarrow> nat \<Rightarrow> nat \<Rightarrow> nat \<Rightarrow> trick" where
  "partial_trick d plays j i 0 = new_trick (char_to_index (lead_player d))"
| "partial_trick d plays j i (Suc k) =
     the (add_card_to_cards (card_text plays (seat_of d k) j i) (partial_trick d plays j i k))"

definition full_trick :: "deal \<Rightarrow> (nat \<Rightarrow> string list list) \<Rightarrow> nat \<Rightarrow> nat \<Rightarrow> trick" where
  "full_trick d plays j i = the (choose_winner (lead_player d) (partial_trick d plays j i 4))"

definition full_tricks :: "deal \<Rightarrow> (nat \<Rightarrow> string list list) \<Rightarrow> nat \<Rightarrow> nat \<Rightarrow> trick list" where
  "full_tricks d plays j i = map (full_trick d plays j) [0..<i]"

definition played_deal :: "deal list \<Rightarrow> (nat \<Rightarrow> string list list) \<Rightarrow> nat \<Rightarrow> deal" where
  "played_deal ds plays j = (ds ! j)\<lparr>tricks := full_tricks (ds ! j) plays j 13\<rparr>"

definition scored_deal :: "deal list \<Rightarrow> (nat \<Rightarrow> string list list) \<Rightarrow> nat \<Rightarrow> deal" where
  "scored_deal ds plays j = the (calculate_points (played_deal ds plays j))"

fun totals_before :: "deal list \<Rightarrow> (nat \<Rightarrow> string list list) \<Rightarrow> nat \<Rightarrow> int list" where
  "totals_before ds plays 0 = [0, 0, 0, 0]"
| "totals_before ds plays (Suc j) = map2 (+) (totals_before ds plays j) (deal_scores (scored_deal ds plays j))"

text \<open>The deals when those before \<open>j\<close> are over and the \<open>j\<close>-th is \<open>d\<close>.\<close>

definition deals_at :: "deal list \<Rightarrow> (nat \<Rightarrow> string list list) \<Rightarrow> nat \<Rightarrow> deal \<Rightarrow> deal list" where
  "deals_at ds plays j d = map (scored_deal ds plays) [0..<j] @ d # drop (Suc j) ds"

definition deals_before :: "deal list \<Rightarrow> (nat \<Rightarrow> string list list) \<Rightarrow> nat \<Rightarrow> deal list" where
  "deals_before ds plays j = map (scored_deal ds plays) [0..<j] @ drop j ds"

text \<open>The deal when the tricks before \<open>i\<close> are over and the \<open>i\<close>-th is \<open>t\<close>.\<close>

definition deal_with :: "deal \<Rightarrow> (nat \<Rightarrow> string list list) \<Rightarrow> nat \<Rightarrow> nat \<Rightarrow> trick \<Rightarrow> deal" where
  "deal_with d plays j i t =
     d\<lparr>tricks := full_tricks d plays j i @ t # replicate (12 - i) (new_trick (char_to_index (lead_player d)))\<rparr>"

text \<open>What a client has still to send before trick \<open>i\<close> of deal \<open>j\<close>.\<close>

definition rest :: "(nat \<Rightarrow> string list list) \<Rightarrow> nat \<Rightarrow> nat \<Rightarrow> nat \<Rightarrow> string" where
  "rest plays p j i =
     (if j < length (plays p) then answers (i + 1) (drop i (plays p ! j)) @ concat (map (answers 1) (drop (j + 1) (plays p)))
      else [])"

section \<open>Facts on seats and cards\<close>

lemma lead_bound:
  assumes "fresh_deal d"
  shows "lead d < 4" and "char_to_index (lead_player d) = int (lead d)"
  using assms by (auto simp: fresh_deal_def lead_def check_position_def char_to_index_def split: if_splits)

lemma seat_rank: "p < 4 \<Longrightarrow> lead d < 4 \<Longrightarrow> seat_of d (rank d p) = p"
  by (simp add: seat_of_def rank_def mod_add_right_eq)

lemma rank_seat: "r < 4 \<Longrightarrow> lead d < 4 \<Longrightarrow> rank d (seat_of d r) = r"
proof -
  assume "r < 4" "lead d < 4"
  then have "r \<in> {0, 1, 2, 3}" "lead d \<in> {0, 1, 2, 3}" by auto
  then show ?thesis by (auto simp: seat_of_def rank_def)
qed

lemma seat_bound [simp]: "seat_of d r < 4" "rank d p < 4"
  by (simp_all add: seat_of_def rank_def)

lemma card_text_card:
  assumes "good_plays ds plays" and "p < 4" and "j < length ds" and "i < 13"
  shows "is_card (card_text plays p j i)"
proof -
  have "plays p ! j \<in> set (plays p)" using assms by (simp add: good_plays_def)
  moreover have "\<forall>cs\<in>set (plays p). length cs = 13 \<and> (\<forall>c\<in>set cs. is_card c)"
    using assms(1,2) by (simp add: good_plays_def)
  ultimately have "length (plays p ! j) = 13" "\<forall>c\<in>set (plays p ! j). is_card c" by blast+
  with assms(4) show ?thesis by (simp add: card_text_def)
qed

lemma add_card_the:
  assumes "trick_ok t" and "is_card x"
  shows "add_card_to_cards x t = Some (the (add_card_to_cards x t))"
    and "trick_ok (the (add_card_to_cards x t))"
    and "table_of (the (add_card_to_cards x t)) = table_of t @ [x]"
  using add_card_ok [OF assms] by (metis option.sel)+

lemma partial_trick_ok:
  assumes "good_plays ds plays" and "j < length ds" and "i < 13"
  shows "trick_ok (partial_trick d plays j i k) \<and>
    table_of (partial_trick d plays j i k) = map (\<lambda>r. card_text plays (seat_of d r) j i) [0..<k] \<and>
    add_card_to_cards (card_text plays (seat_of d k) j i) (partial_trick d plays j i k) =
      Some (partial_trick d plays j i (Suc k))"
proof (induction k)
  case 0
  have "is_card (card_text plays (seat_of d 0) j i)" by (rule card_text_card [OF assms(1) _ assms(2,3)]) simp
  from add_card_the(1) [OF new_trick_ok(1) this] show ?case by simp
next
  case (Suc k)
  have c: "is_card (card_text plays (seat_of d r) j i)" for r
    by (rule card_text_card [OF assms(1) _ assms(2,3)]) simp
  have t: "trick_ok (partial_trick d plays j i k)"
    "table_of (partial_trick d plays j i k) = map (\<lambda>r. card_text plays (seat_of d r) j i) [0..<k]"
    using Suc by blast+
  have t': "trick_ok (partial_trick d plays j i (Suc k))"
    "table_of (partial_trick d plays j i (Suc k)) = map (\<lambda>r. card_text plays (seat_of d r) j i) [0..<Suc k]"
    using add_card_the(2,3) [OF t(1) c] t(2) by simp_all
  with add_card_the(1) [OF t'(1) c] show ?case by simp
qed

lemma full_trick_ok:
  assumes "good_plays ds plays" and "j < length ds" and "i < 13" and "fresh_deal d"
  shows "choose_winner (lead_player d) (partial_trick d plays j i 4) = Some (full_trick d plays j i)"
    and "trick_ok (full_trick d plays j i)"
    and "table_of (full_trick d plays j i) = map (\<lambda>r. card_text plays (seat_of d r) j i) [0..<4]"
    and "winning_player (full_trick d plays j i) \<in> {0, 1, 2, 3}"
proof -
  let ?t = "partial_trick d plays j i 4"
  note t = partial_trick_ok [OF assms(1-3), of d 4]
  then have "trick_cards ?t \<noteq> []" by (auto simp: table_of_def)
  with choose_winner_highest [of ?t "lead_player d"] obtain m where
    m: "choose_winner (lead_player d) ?t = Some (?t\<lparr>winning_player := (char_to_index (lead_player d) + int m) mod 4\<rparr>)"
    by blast
  then show "choose_winner (lead_player d) ?t = Some (full_trick d plays j i)" by (simp add: full_trick_def)
  have f: "full_trick d plays j i = ?t\<lparr>winning_player := (char_to_index (lead_player d) + int m) mod 4\<rparr>"
    using m by (simp add: full_trick_def)
  show "trick_ok (full_trick d plays j i)"
    using conjunct1 [OF t] unfolding f trick_ok_def table_of_def by simp
  show "table_of (full_trick d plays j i) = map (\<lambda>r. card_text plays (seat_of d r) j i) [0..<4]"
    using conjunct1 [OF conjunct2 [OF t]] unfolding f table_of_def by simp
  have "(char_to_index (lead_player d) + int m) mod 4 \<in> {0, 1, 2, 3}" by auto
  then show "winning_player (full_trick d plays j i) \<in> {0, 1, 2, 3}" unfolding f by simp
qed

lemma scored_deal_ok:
  assumes "good_plays ds plays" and "j < length ds" and "fresh_deal (ds ! j)"
  shows "calculate_points (played_deal ds plays j) = Some (scored_deal ds plays j)"
    and "length (deal_scores (scored_deal ds plays j)) = 4"
    and "tricks (scored_deal ds plays j) = full_tricks (ds ! j) plays j 13"
    and "lead_player (scored_deal ds plays j) = lead_player (ds ! j)"
proof -
  let ?d = "played_deal ds plays j"
  have "\<forall>t\<in>set (tricks ?d). winning_player t \<in> {0, 1, 2, 3}"
    using full_trick_ok(4) [OF assms(1,2) _ assms(3)] by (auto simp: played_deal_def full_tricks_def)
  then obtain sc where "points_loop (deal_type ?d) 0 (tricks ?d) (deal_scores ?d) = Some sc" "length sc = 4"
    using points_loop_result [of "deal_scores ?d" "tricks ?d" "deal_type ?d" 0] assms(3)
    by (auto simp: played_deal_def fresh_deal_def)
  then show "calculate_points ?d = Some (scored_deal ds plays j)"
    "length (deal_scores (scored_deal ds plays j)) = 4"
    "tricks (scored_deal ds plays j) = full_tricks (ds ! j) plays j 13"
    "lead_player (scored_deal ds plays j) = lead_player (ds ! j)"
    by (simp_all add: scored_deal_def calculate_points_def) (simp_all add: played_deal_def)
qed

section \<open>What a step leaves alone\<close>

lemma goto_simps [simp]:
  "states (goto p k s) = states s" "client_sockets (goto p k s) = client_sockets s"
  "turn (goto p k s) = turn s" "totals (goto p k s) = totals s" "semaphores (goto p k s) = semaphores s"
  "arrived (goto p k s) = arrived s" "deals (goto p k s) = deals s" "stopped (goto p k s) = stopped s"
  "handlers (goto p k s) = (handlers s)(p := (handlers s p)\<lparr>pc := k\<rparr>)"
  by (simp_all add: goto_def on_handler_def)

lemma on_handler_simps [simp]:
  "states (on_handler p f s) = states s" "client_sockets (on_handler p f s) = client_sockets s"
  "turn (on_handler p f s) = turn s" "totals (on_handler p f s) = totals s"
  "semaphores (on_handler p f s) = semaphores s" "arrived (on_handler p f s) = arrived s"
  "deals (on_handler p f s) = deals s" "stopped (on_handler p f s) = stopped s"
  "handlers (on_handler p f s) = (handlers s)(p := f (handlers s p))"
  by (simp_all add: on_handler_def)

lemma set_trick_simps [simp]:
  "states (set_trick j i t s) = states s" "turn (set_trick j i t s) = turn s"
  "totals (set_trick j i t s) = totals s" "semaphores (set_trick j i t s) = semaphores s"
  "arrived (set_trick j i t s) = arrived s" "handlers (set_trick j i t s) = handlers s"
  "deals (set_trick j i t s) = (deals s)[j := (deals s ! j)\<lparr>tricks := (tricks (deals s ! j))[i := t]\<rparr>]"
  by (simp_all add: set_trick_def)

definition seated :: game_state where
  "seated = new_game_state\<lparr>seat_occupied := True\<rparr>"

lemma seated_simps [simp]:
  "seat_occupied seated" "at_deal seated = 0" "at_trick seated = 0"
  "\<not> disconnect_on_deal_handler seated" "\<not> disconnect_on_trick_handler seated"
  "\<not> disconnect_on_send_taken_msg seated" "\<not> disconnect_on_score_total_handler seated"
  by (simp_all add: seated_def new_game_state_def)

text \<open>All four connected, able to write, and every barrier counts the threads that wait at it.\<close>

definition waits_at :: "barrier \<Rightarrow> pc \<Rightarrow> bool" where
  "waits_at b k \<longleftrightarrow> (\<exists>k'. k = Wait b k')"

definition connected :: "server \<Rightarrow> bool" where
  "connected s \<longleftrightarrow> states s = replicate 4 seated \<and> (\<forall>p<4. writable (sock (handlers s p))) \<and>
     (\<forall>b. arrived s b = card {p. p < 4 \<and> waits_at b (pc (handlers s p))}) \<and> (\<forall>b. arrived s b < 4)"

lemma connected_seated: "connected s \<Longrightarrow> p < 4 \<Longrightarrow> states s ! p = seated"
  by (simp add: connected_def)

lemma connected_state: "connected s \<Longrightarrow> p < 4 \<Longrightarrow> f seated = seated \<Longrightarrow> on_state p f s = s"
  by (simp add: connected_def on_state_def list_update_same_conv flip: replicate_Suc)

lemma not_all_wait:
  assumes "connected s"
  shows "\<exists>p<4. \<not> waits_at b (pc (handlers s p))"
proof (rule ccontr)
  assume "\<not> ?thesis"
  then have "{p. p < 4 \<and> waits_at b (pc (handlers s p))} = {..<4}" by auto
  with assms have "arrived s b = 4" by (simp add: connected_def)
  moreover have "arrived s b < 4" using assms unfolding connected_def by blast
  ultimately show False by simp
qed

text \<open>A thread that was not waiting moves to where it does not wait.\<close>

lemma connected_moves:
  assumes "connected s" and "p < 4" and "\<And>b. \<not> waits_at b (pc (handlers s p))"
    and "\<And>b. \<not> waits_at b (pc h)" and "writable (sock h)"
    and "handlers s' = (handlers s)(p := h)" and "states s' = states s" and "arrived s' = arrived s"
  shows "connected s'"
proof -
  have "{q. q < 4 \<and> waits_at b (pc (handlers s' q))} = {q. q < 4 \<and> waits_at b (pc (handlers s q))}" for b
    using assms(3,4,6) by auto
  with assms show ?thesis by (auto simp: connected_def)
qed

lemma arrived_three:
  assumes "connected s" and "p < 4" and "Suc (arrived s b) = 4" and "\<not> waits_at b (pc (handlers s p))"
  shows "\<forall>q<4. q \<noteq> p \<longrightarrow> waits_at b (pc (handlers s q))"
proof (rule ccontr)
  let ?W = "{q. q < 4 \<and> waits_at b (pc (handlers s q))}"
  assume "\<not> ?thesis"
  then obtain q where q: "q < 4" "q \<noteq> p" "q \<notin> ?W" by auto
  then have "?W \<subseteq> {..<4} - {p, q}" using assms(4) by auto
  then have "card ?W \<le> card ({..<4} - {p, q})" by (intro card_mono) auto
  also have "\<dots> = 2" using q assms(2) by (simp add: card_Diff_subset)
  finally show False using assms(1,3) by (simp add: connected_def)
qed

text \<open>An arrival: the thread waits, or it is the last and all go on.\<close>

lemma arrival:
  assumes "connected s" and "p < 4" and "pc (handlers s p) = Arrive b k"
    and "\<forall>q<4. \<forall>k'. pc (handlers s q) = Wait b k' \<longrightarrow> k' = k"
    and "\<And>b. \<not> waits_at b k"
  shows "connected (arrive_and_wait p b k s)"
    and "deals (arrive_and_wait p b k s) = deals s" and "totals (arrive_and_wait p b k s) = totals s"
    and "turn (arrive_and_wait p b k s) = turn s" and "semaphores (arrive_and_wait p b k s) = semaphores s"
    and "handlers (arrive_and_wait p b k s) = (handlers s)(p := (handlers s p)\<lparr>pc := Wait b k\<rparr>) \<or>
      (\<forall>q<4. handlers (arrive_and_wait p b k s) q = (handlers s q)\<lparr>pc := k\<rparr>) \<and>
      (\<forall>q<4. q \<noteq> p \<longrightarrow> pc (handlers s q) = Wait b k)"
proof -
  let ?s = "arrive_and_wait p b k s"
  show "deals ?s = deals s" "totals ?s = totals s" "turn ?s = turn s" "semaphores ?s = semaphores s"
    by (simp_all add: arrive_and_wait_def)
  have "connected ?s \<and> (handlers ?s = (handlers s)(p := (handlers s p)\<lparr>pc := Wait b k\<rparr>) \<or>
      (\<forall>q<4. handlers ?s q = (handlers s q)\<lparr>pc := k\<rparr>) \<and>
      (\<forall>q<4. q \<noteq> p \<longrightarrow> pc (handlers s q) = Wait b k))"
  proof (cases "Suc (arrived s b) = 4")
  case True
  have np: "\<not> waits_at b (pc (handlers s p))" using assms(3) by (simp add: waits_at_def)
  from arrived_three [OF assms(1,2) True np] assms(4)
  have w: "\<forall>q<4. q \<noteq> p \<longrightarrow> pc (handlers s q) = Wait b k" unfolding waits_at_def by blast
  let ?s = "arrive_and_wait p b k s"
  have h: "\<forall>q<4. handlers ?s q = (handlers s q)\<lparr>pc := k\<rparr>"
    using True w assms(5) by (auto simp: arrive_and_wait_def resume_def waits_at_def split: pc.splits)
  have "arrived s b' = 0" if "b' \<noteq> b" for b'
  proof -
    have none: "{q. q < 4 \<and> waits_at b' (pc (handlers s q))} = {}"
    proof -
      have "\<not> waits_at b' (pc (handlers s q))" if "q < 4" for q
        using w assms(3) that \<open>b' \<noteq> b\<close> by (cases "q = p") (simp_all add: waits_at_def)
      then show ?thesis by blast
    qed
    with assms(1) show ?thesis by (simp add: connected_def)
  qed
  then have a: "arrived ?s = (\<lambda>b. 0)" using True by (auto simp: arrive_and_wait_def)
  have none: "{q. q < 4 \<and> waits_at b' (pc (handlers ?s q))} = {}" for b' using h assms(5) by auto
  have "connected ?s"
    using assms(1) h a none unfolding connected_def by (simp add: arrive_and_wait_def True)
  with h w show ?thesis by blast
next
  case False
  let ?s = "arrive_and_wait p b k s"
  have h: "handlers ?s = (handlers s)(p := (handlers s p)\<lparr>pc := Wait b k\<rparr>)"
    using False by (simp add: arrive_and_wait_def)
  have np: "\<not> waits_at b' (pc (handlers s p))" for b' using assms(3) by (simp add: waits_at_def)
  have "{q. q < 4 \<and> waits_at b' (pc (handlers ?s q))} =
      (if b' = b then insert p {q. q < 4 \<and> waits_at b' (pc (handlers s q))}
       else {q. q < 4 \<and> waits_at b' (pc (handlers s q))})" for b'
    using np [of b'] assms(2) unfolding h by (auto simp: waits_at_def)
  moreover have "card (insert p {q. q < 4 \<and> waits_at b (pc (handlers s q))}) = Suc (arrived s b)"
    using np [of b] assms(1) by (simp add: connected_def)
  moreover have "arrived s b < 4" using assms(1) unfolding connected_def by blast
  then have "Suc (arrived s b) < 4" using False by simp
  ultimately have "connected ?s"
    using assms(1) False h by (auto simp: connected_def arrive_and_wait_def)
  with h show ?thesis by blast
qed
  then show "connected ?s" "handlers ?s = (handlers s)(p := (handlers s p)\<lparr>pc := Wait b k\<rparr>) \<or>
      (\<forall>q<4. handlers ?s q = (handlers s q)\<lparr>pc := k\<rparr>) \<and>
      (\<forall>q<4. q \<noteq> p \<longrightarrow> pc (handlers s q) = Wait b k)" by blast+
qed

end
