(* ===== verification/Kierki_Threads_Steps.thy ===== *)
theory Kierki_Threads_Steps
  imports Kierki_Threads_Inv
begin

text \<open>
  The invariant of the four threads. Between two barriers all of them are in the same part of the
  program: before a deal, at its start, in a trick, after a trick, at the end. In a trick the seats
  of rank below \<open>k\<close> have played, the seat of rank \<open>k\<close> is at the stage \<open>st\<close> of its turn, and the
  others wait. Every step of a thread keeps the invariant and returns.
\<close>

section \<open>The invariant\<close>

definition deal_pc :: "nat \<Rightarrow> nat \<Rightarrow> pc \<Rightarrow> bool" where
  "deal_pc n j k \<longleftrightarrow> 0 < j \<and> k = Scores (j - 1) \<or> k = Deal_head j \<or>
     j < n \<and> (k = Arrive Deal_start (Deal_hand j) \<or> k = Wait Deal_start (Deal_hand j)) \<or>
     j = n \<and> (k = Arrive Deal_end Stop \<or> k = Wait Deal_end Stop)"

definition inv_deal :: "deal list \<Rightarrow> (nat \<Rightarrow> string list list) \<Rightarrow> nat \<Rightarrow> server \<Rightarrow> bool" where
  "inv_deal ds pl j s \<longleftrightarrow> connected s \<and> j \<le> length ds \<and>
     deals s = deals_before ds pl j \<and> totals s = totals_before ds pl j \<and> semaphores s = (\<lambda>q. 0) \<and>
     (0 < j \<longrightarrow> turn s = int (lead (ds ! (j - 1)))) \<and>
     (\<forall>p<4. input (handlers s p) = bytes (rest pl p j 0) \<and> deal_pc (length ds) j (pc (handlers s p)))"

definition past_lead :: "nat \<Rightarrow> pc \<Rightarrow> bool" where
  "past_lead j k \<longleftrightarrow> k = Trick_head j 0 \<or> k = Arrive Trick_start (Trick_resend j 0) \<or>
     k = Wait Trick_start (Trick_resend j 0)"

definition hand_pc :: "nat \<Rightarrow> pc \<Rightarrow> bool" where
  "hand_pc j k \<longleftrightarrow> k = Deal_hand j \<or> k = Set_turn j \<or> k = Check_lead j \<or> past_lead j k"

definition inv_hand :: "deal list \<Rightarrow> (nat \<Rightarrow> string list list) \<Rightarrow> nat \<Rightarrow> server \<Rightarrow> bool" where
  "inv_hand ds pl j s \<longleftrightarrow> connected s \<and> j < length ds \<and>
     deals s = deals_before ds pl j \<and> totals s = totals_before ds pl j \<and>
     semaphores s = (\<lambda>q. if q = lead (ds ! j) \<and> past_lead j (pc (handlers s q)) then 1 else 0) \<and>
     (\<forall>p<4. input (handlers s p) = bytes (rest pl p j 0) \<and> hand_pc j (pc (handlers s p)) \<and>
        (pc (handlers s p) = Check_lead j \<or> past_lead j (pc (handlers s p)) \<longrightarrow> turn s = int (lead (ds ! j))))"

definition table_trick :: "deal \<Rightarrow> (nat \<Rightarrow> string list list) \<Rightarrow> nat \<Rightarrow> nat \<Rightarrow> nat \<Rightarrow> nat \<Rightarrow> trick" where
  "table_trick d pl j i k st =
     (if k = 4 \<or> k = 3 \<and> 3 \<le> st then full_trick d pl j i
      else partial_trick d pl j i (if 2 \<le> st then Suc k else k))"

definition before_turn :: "nat \<Rightarrow> nat \<Rightarrow> pc \<Rightarrow> bool" where
  "before_turn j i k \<longleftrightarrow> k = Trick_resend j i \<or> k = Await_turn j i"

definition after_turn :: "nat \<Rightarrow> nat \<Rightarrow> pc \<Rightarrow> bool" where
  "after_turn j i k \<longleftrightarrow> k = Arrive Trick_end (Taken j i) \<or> k = Wait Trick_end (Taken j i)"

definition stage_pc :: "nat \<Rightarrow> nat \<Rightarrow> nat \<Rightarrow> pc \<Rightarrow> bool" where
  "stage_pc j i st k \<longleftrightarrow> st = 0 \<and> before_turn j i k \<or> st = 1 \<and> k = Play j i \<or> st = 2 \<and> k = Judge j i \<or>
     st = 3 \<and> k = Pass j i \<or> st = 4 \<and> k = Wake j i"

definition turn_pc :: "nat \<Rightarrow> nat \<Rightarrow> nat \<Rightarrow> nat \<Rightarrow> nat \<Rightarrow> pc \<Rightarrow> bool" where
  "turn_pc j i k st r c \<longleftrightarrow>
     (if r < k then after_turn j i c else if r = k then stage_pc j i st c else before_turn j i c)"

definition inv_turn ::
  "deal list \<Rightarrow> (nat \<Rightarrow> string list list) \<Rightarrow> nat \<Rightarrow> nat \<Rightarrow> nat \<Rightarrow> nat \<Rightarrow> server \<Rightarrow> bool"
where
  "inv_turn ds pl j i k st s \<longleftrightarrow> connected s \<and> j < length ds \<and> i < 13 \<and> k \<le> 4 \<and> (k = 4 \<longrightarrow> st = 0) \<and>
     deals s = deals_at ds pl j (deal_with (ds ! j) pl j i (table_trick (ds ! j) pl j i k st)) \<and>
     totals s = totals_before ds pl j \<and>
     turn s = int (seat_of (ds ! j) (if st = 4 then Suc k else k)) \<and>
     semaphores s = (\<lambda>q. if st = 0 \<and> q = seat_of (ds ! j) k then 1 else 0) \<and>
     (\<forall>p<4. turn_pc j i k st (rank (ds ! j) p) (pc (handlers s p)) \<and>
        input (handlers s p) = bytes (rest pl p j
          (if rank (ds ! j) p < k \<or> rank (ds ! j) p = k \<and> 2 \<le> st then Suc i else i)))"

definition acquired :: "nat \<Rightarrow> pc \<Rightarrow> bool" where
  "acquired j k \<longleftrightarrow> k = Deal_reset j \<or> k = Arrive Deal_end (Scores j) \<or> k = Wait Deal_end (Scores j)"

definition past_points :: "nat \<Rightarrow> pc \<Rightarrow> bool" where
  "past_points j k \<longleftrightarrow> k = Own_turn j \<or> k = Own_acquire j \<or> acquired j k"

definition taken_pc :: "nat \<Rightarrow> nat \<Rightarrow> bool \<Rightarrow> pc \<Rightarrow> bool" where
  "taken_pc j i is_lead k \<longleftrightarrow> k = Taken j i \<or> k = Trick_head j (Suc i) \<or>
     i < 12 \<and> (k = Arrive Trick_start (Trick_resend j (Suc i)) \<or> k = Wait Trick_start (Trick_resend j (Suc i))) \<or>
     i = 12 \<and> (k = Points j \<or> past_points j k \<and> (k = Own_acquire j \<longrightarrow> is_lead))"

definition inv_taken :: "deal list \<Rightarrow> (nat \<Rightarrow> string list list) \<Rightarrow> nat \<Rightarrow> nat \<Rightarrow> server \<Rightarrow> bool" where
  "inv_taken ds pl j i s \<longleftrightarrow> connected s \<and> j < length ds \<and> i < 13 \<and>
     (let d = ds ! j; scored = past_points j (pc (handlers s (seat_of d 3))) in
        deals s = deals_at ds pl j (if scored then scored_deal ds pl j else deal_with d pl j i (full_trick d pl j i)) \<and>
        totals s = totals_before ds pl (if scored then Suc j else j) \<and>
        turn s = int (lead d) \<and>
        semaphores s = (\<lambda>q. if q = lead d \<and> \<not> acquired j (pc (handlers s q)) then 1 else 0) \<and>
        (\<forall>p<4. taken_pc j i (p = lead d) (pc (handlers s p)) \<and>
           input (handlers s p) = bytes (rest pl p j (Suc i))))"

definition inv_end :: "deal list \<Rightarrow> (nat \<Rightarrow> string list list) \<Rightarrow> server \<Rightarrow> bool" where
  "inv_end ds pl s \<longleftrightarrow> connected s \<and> deals s = deals_before ds pl (length ds) \<and>
     totals s = totals_before ds pl (length ds) \<and>
     (\<forall>p<4. pc (handlers s p) = Stop \<or> pc (handlers s p) = Gone) \<and>
     (ds \<noteq> [] \<longrightarrow> turn s = int (lead (last ds)) \<and>
       (pc (handlers s (lead (last ds))) = Gone \<longrightarrow> stopped s))"

definition game_inv :: "deal list \<Rightarrow> (nat \<Rightarrow> string list list) \<Rightarrow> server \<Rightarrow> bool" where
  "game_inv ds pl s \<longleftrightarrow> (\<exists>j. inv_deal ds pl j s) \<or> (\<exists>j. inv_hand ds pl j s) \<or>
     (\<exists>j i k st. inv_turn ds pl j i k st s) \<or> (\<exists>j i. inv_taken ds pl j i s) \<or> inv_end ds pl s"

definition fresh_game :: "deal list \<Rightarrow> (nat \<Rightarrow> string list list) \<Rightarrow> bool" where
  "fresh_game ds pl \<longleftrightarrow> (\<forall>d\<in>set ds. fresh_deal d) \<and> good_plays ds pl"

lemma fresh_gameD:
  assumes "fresh_game ds pl" and "j < length ds"
  shows "fresh_deal (ds ! j)" and "good_plays ds pl"
  using assms by (simp_all add: fresh_game_def)

section \<open>Data\<close>

lemma deals_before_length [simp]: "j \<le> length ds \<Longrightarrow> length (deals_before ds pl j) = length ds"
  by (simp add: deals_before_def)

lemma deals_at_simps [simp]:
  assumes "j < length ds"
  shows "length (deals_at ds pl j d) = length ds" and "deals_at ds pl j d ! j = d"
    and "(deals_at ds pl j d)[j := d'] = deals_at ds pl j d'"
  using assms by (simp_all add: deals_at_def nth_append list_update_append)

lemma deals_before_at: "j < length ds \<Longrightarrow> deals_before ds pl j = deals_at ds pl j (ds ! j)"
  by (simp add: deals_before_def deals_at_def Cons_nth_drop_Suc)

lemma deals_at_before:
  "j < length ds \<Longrightarrow> deals_at ds pl j (scored_deal ds pl j) = deals_before ds pl (Suc j)"
  by (simp add: deals_before_def deals_at_def)

lemma deal_with_simps [simp]:
  "lead_player (deal_with d pl j i t) = lead_player d" "players (deal_with d pl j i t) = players d"
  "tricks (deal_with d pl j i t) ! i = t"
  "deal_with d pl j i t\<lparr>tricks := (tricks (deal_with d pl j i t))[i := t']\<rparr> = deal_with d pl j i t'"
  by (simp_all add: deal_with_def full_tricks_def nth_append list_update_append)

lemma deal_with_first:
  "fresh_deal d \<Longrightarrow> deal_with d pl j 0 (partial_trick d pl j 0 0) = d"
  by (simp add: deal_with_def full_tricks_def fresh_deal_def numeral_eq_Suc)

lemma deal_with_next:
  assumes "i < 12"
  shows "deal_with d pl j i (full_trick d pl j i) = deal_with d pl j (Suc i) (partial_trick d pl j (Suc i) 0)"
proof -
  obtain m where "12 - i = Suc m" "12 - Suc i = m" using assms by (cases "12 - i") auto
  then show ?thesis by (simp add: deal_with_def full_tricks_def)
qed

lemma deal_with_last: "deal_with (ds ! j) pl j 12 (full_trick (ds ! j) pl j 12) = played_deal ds pl j"
  by (simp add: deal_with_def played_deal_def full_tricks_def numeral_eq_Suc)

lemma rest_next_deal:
  assumes "good_plays ds pl" and "p < 4" and "j < length ds"
  shows "rest pl p j 13 = rest pl p (Suc j) 0"
proof -
  have "length (pl p ! j) = 13" "length (pl p) = length ds" using assms by (auto simp: good_plays_def)
  then show ?thesis
    using assms(3) by (cases "Suc j < length ds") (auto simp: rest_def Cons_nth_drop_Suc [symmetric])
qed

lemma rest_next_trick:
  assumes "good_plays ds pl" and "p < 4" and "j < length ds" and "i < 13"
  shows "rest pl p j i = ''TRICK'' @ dec (Suc i) @ card_text pl p j i @ delimiter @ rest pl p j (Suc i)"
proof -
  have "length (pl p ! j) = 13" "length (pl p) = length ds" using assms by (auto simp: good_plays_def)
  then show ?thesis
    using assms(3,4) by (simp add: rest_def card_text_def flip: Cons_nth_drop_Suc)
qed

section \<open>Talking\<close>

lemma talks:
  assumes "writable (sock (handlers s p))"
    and "\<And>n. writable n \<Longrightarrow> \<exists>n'. f (peer (handlers s p)) n = Returns (0, n') \<and> writable n'"
  obtains n where "talk p f s = Returns (0, on_handler p (\<lambda>h. h\<lparr>sock := n\<rparr>) s)" and "writable n"
  using assms(2) [OF assms(1)] that by (auto simp: talk_def)

lemma send_or_lost_writable:
  assumes "writable n"
  shows "\<exists>n'. send_or_lost c m n = Returns (0, n') \<and> writable n'"
proof -
  obtain n0 where n0: "write_message m n = (int (length m), n0)" "writable n0"
    using write_writable [OF assms] by blast
  with quietD [OF server_log_quiet(1) [of n0 c m]] show ?thesis by (auto simp: send_or_lost_def)
qed

lemma send_deal_writable: "writable n \<Longrightarrow> \<exists>n'. send_deal_message c q d n = Returns (0, n') \<and> writable n'"
  unfolding send_deal_message_def by (rule send_or_lost_writable)

lemma send_taken_writable:
  assumes "writable n" and "winning_player t \<in> {0, 1, 2, 3}"
  shows "\<exists>n'. send_taken_message c k t n = Returns (0, n') \<and> writable n'"
proof -
  obtain w where "index_to_char (winning_player t) = Inr w" using position_of_winner [OF assms(2)] by blast
  with send_or_lost_writable [OF assms(1)] show ?thesis
    by (simp add: send_taken_message_def taken_message_def)
qed

lemma score_total_writable:
  assumes "writable n" and "length (deal_scores d) = 4" and "length tot = 4"
  shows "\<exists>n'. score_total_handler c d tot n = Returns (0, n') \<and> writable n'"
proof -
  have sc: "\<exists>t. score_text 0 vs = Inr t" if "length vs = 4" for vs
    using that by (auto simp: numeral_eq_Suc length_Suc_conv index_to_char_def)
  obtain a b where a: "score_text 0 (deal_scores d) = Inr a" and b: "score_text 0 tot = Inr b"
    using sc assms(2,3) by blast
  obtain n1 where n1: "send_score_message c d n = Returns (0, n1)" "writable n1"
    using send_or_lost_writable [OF assms(1)] a by (fastforce simp: send_score_message_def)
  obtain n2 where "send_total_message c tot n1 = Returns (0, n2)" "writable n2"
    using send_or_lost_writable [OF n1(2)] b by (fastforce simp: send_total_message_def)
  with n1 show ?thesis by (simp add: score_total_handler_def)
qed

lemma trick_loop_takes:
  assumes "i < 99" and "is_card x" and "add_card_to_cards x t = Some t'" and "writable n"
  shows "\<exists>n'. trick_loop c i (bytes (''TRICK'' @ dec (Suc i) @ x @ delimiter @ r)) (t, n) =
    Returns ((0, t', n'), bytes r) \<and> writable n'"
proof -
  obtain n1 where n1: "Kierki_Server.send_trick_message c (Suc i) t n = Returns (0, n1)" "writable n1"
    using server_sends_trick [OF assms(4)] by blast
  let ?a = "''TRICK'' @ dec (Suc i) @ x"
  have "plain ?a" using card_plain [OF assms(2)] by simp
  then have "Kierki_Server.receive_trick_message c (Suc i) (bytes (?a @ delimiter) @ bytes r) (t, n1) =
      Returns ((0, t', log_received c ?a n1), bytes r)"
    unfolding Kierki_Server.receive_trick_message_def
    using card_body_accepts [of "Suc i" x t t' c n1] assms by (simp only: receive_plain) simp
  moreover have "bytes (''TRICK'' @ dec (Suc i) @ x @ delimiter @ r) = bytes (?a @ delimiter) @ bytes r" by simp
  ultimately have "trick_loop c i (bytes (''TRICK'' @ dec (Suc i) @ x @ delimiter @ r)) (t, n) =
      Returns ((0, t', log_received c ?a n1), bytes r)"
    using n1 by (subst trick_loop.simps) simp
  with quietD [OF server_log_quiet(2) [of n1 c ?a]] n1(2) show ?thesis by auto
qed

section \<open>Steps before a deal\<close>

lemma totals_length:
  "fresh_game ds pl \<Longrightarrow> j \<le> length ds \<Longrightarrow> length (totals_before ds pl j) = 4"
proof (induction j)
  case (Suc j)
  with scored_deal_ok(2) [of ds pl j] fresh_gameD [of ds pl j] show ?case by simp
qed simp

lemma not_waiting [simp]:
  "\<not> waits_at b (Scores j)" "\<not> waits_at b (Deal_head j)" "\<not> waits_at b (Arrive b' k)"
  "\<not> waits_at b (Deal_hand j)" "\<not> waits_at b (Set_turn j)" "\<not> waits_at b (Check_lead j)"
  "\<not> waits_at b (Trick_head j i)" "\<not> waits_at b (Trick_resend j i)" "\<not> waits_at b (Await_turn j i)"
  "\<not> waits_at b (Play j i)" "\<not> waits_at b (Judge j i)" "\<not> waits_at b (Pass j i)" "\<not> waits_at b (Wake j i)"
  "\<not> waits_at b (Taken j i)" "\<not> waits_at b (Points j)" "\<not> waits_at b (Own_turn j)"
  "\<not> waits_at b (Own_acquire j)" "\<not> waits_at b (Deal_reset j)" "\<not> waits_at b Stop" "\<not> waits_at b Gone"
  by (simp_all add: waits_at_def)

lemma connected_sock: "connected s \<Longrightarrow> p < 4 \<Longrightarrow> writable (sock (handlers s p))"
  by (simp add: connected_def)

lemma inv_dealI: "inv_deal ds pl j s \<Longrightarrow> game_inv ds pl s" by (auto simp: game_inv_def)
lemma inv_handI: "inv_hand ds pl j s \<Longrightarrow> game_inv ds pl s" by (auto simp: game_inv_def)
lemma inv_turnI: "inv_turn ds pl j i k st s \<Longrightarrow> game_inv ds pl s" by (auto simp: game_inv_def)
lemma inv_takenI: "inv_taken ds pl j i s \<Longrightarrow> game_inv ds pl s" by (auto simp: game_inv_def)
lemma inv_endI: "inv_end ds pl s \<Longrightarrow> game_inv ds pl s" by (simp add: game_inv_def)

lemma inv_deal_moves:
  assumes "inv_deal ds pl j s" and "connected s'" and "deal_pc (length ds) j k"
    and "handlers s' = (handlers s)(p := h)" and "pc h = k" and "input h = input (handlers s p)"
    and "deals s' = deals s" and "totals s' = totals s" and "semaphores s' = semaphores s"
    and "turn s' = turn s"
  shows "inv_deal ds pl j s'"
  using assms unfolding inv_deal_def by simp

lemma inv_deal_arrives:
  assumes "inv_deal ds pl j s" and "p < 4" and "pc (handlers s p) = Arrive b k" and "fresh_game ds pl"
  shows "let s' = arrive_and_wait p b k s in
    inv_deal ds pl j s' \<or> j < length ds \<and> inv_hand ds pl j s' \<or> j = length ds \<and> inv_end ds pl s'"
proof -
  have c: "connected s" using assms(1) by (simp add: inv_deal_def)
  have dp: "\<forall>q<4. deal_pc (length ds) j (pc (handlers s q))" using assms(1) by (simp add: inv_deal_def)
  with assms(2,3) have bk: "j < length ds \<and> b = Deal_start \<and> k = Deal_hand j \<or> j = length ds \<and> b = Deal_end \<and> k = Stop"
    by (force simp: deal_pc_def)
  have same: "\<forall>q<4. \<forall>k'. pc (handlers s q) = Wait b k' \<longrightarrow> k' = k"
    using dp bk by (force simp: deal_pc_def)
  have nk: "\<not> waits_at b' k" for b' using bk by auto
  note a = arrival [OF c assms(2,3) same nk]
  let ?s = "arrive_and_wait p b k s"
  from a(6) show ?thesis
  proof
    assume "handlers ?s = (handlers s)(p := (handlers s p)\<lparr>pc := Wait b k\<rparr>)"
    moreover have "deal_pc (length ds) j (Wait b k)" using bk by (auto simp: deal_pc_def)
    ultimately have "inv_deal ds pl j ?s" using inv_deal_moves [OF assms(1) a(1)] a(2-5) by simp
    then show ?thesis by (simp add: Let_def)
  next
    assume h: "(\<forall>q<4. handlers ?s q = (handlers s q)\<lparr>pc := k\<rparr>) \<and>
      (\<forall>q<4. q \<noteq> p \<longrightarrow> pc (handlers s q) = Wait b k)"
    show ?thesis
    proof (cases "j < length ds")
      case True
      with bk have "k = Deal_hand j" by simp
      with True h a(1-5) assms(1) have "inv_hand ds pl j ?s"
        unfolding inv_hand_def inv_deal_def hand_pc_def past_lead_def
        using lead_bound(1) [OF fresh_gameD(1) [OF assms(4) True]] by (auto simp: fun_eq_iff)
      with True show ?thesis by (simp add: Let_def)
    next
      case False
      with bk have "j = length ds" "k = Stop" by auto
      moreover have "lead (last ds) < 4" if "ds \<noteq> []"
        using that lead_bound(1) [of "last ds"] assms(4) by (simp add: fresh_game_def)
      ultimately have "inv_end ds pl ?s"
        using h a(1-5) assms(1) by (auto simp: inv_end_def inv_deal_def last_conv_nth)
      with \<open>j = length ds\<close> show ?thesis by (simp add: Let_def)
    qed
  qed
qed

lemma inv_deal_step:
  assumes "fresh_game ds pl" and "inv_deal ds pl j s" and "p < 4" and "handler_step p s = Some r"
  shows "\<exists>s'. r = Returns s' \<and>
    (inv_deal ds pl j s' \<or> j < length ds \<and> inv_hand ds pl j s' \<or> j = length ds \<and> inv_end ds pl s')"
proof -
  have c: "connected s" and d: "deals s = deals_before ds pl j" "totals s = totals_before ds pl j"
    and jn: "j \<le> length ds" and dp: "deal_pc (length ds) j (pc (handlers s p))"
    using assms(2,3) by (simp_all add: inv_deal_def)
  note w = connected_sock [OF c assms(3)]
  from dp consider (scores) "0 < j" "pc (handlers s p) = Scores (j - 1)" | (head) "pc (handlers s p) = Deal_head j"
    | (arrive) b k where "pc (handlers s p) = Arrive b k" | (wait) b k where "pc (handlers s p) = Wait b k"
    by (auto simp: deal_pc_def)
  then show ?thesis
  proof cases
    case scores
    have "deals s ! (j - 1) = scored_deal ds pl (j - 1)"
      using scores(1) jn by (simp add: d deals_before_def nth_append)
    then have l: "length (deal_scores (deals s ! (j - 1))) = 4" "length (totals s) = 4"
      using scored_deal_ok(2) [of ds pl "j - 1"] fresh_gameD [OF assms(1), of "j - 1"] scores(1) jn
        totals_length [OF assms(1) jn] d(2) by simp_all
    obtain n where t: "talk p (\<lambda>c. score_total_handler c (deals s ! (j - 1)) (totals s)) s =
        Returns (0, on_handler p (\<lambda>h. h\<lparr>sock := n\<rparr>) s)" and n: "writable n"
      using talks [where f = "\<lambda>c. score_total_handler c (deals s ! (j - 1)) (totals s)", OF w]
        score_total_writable [OF _ l] by blast
    let ?s = "goto p (Deal_head j) (on_handler p (\<lambda>h. h\<lparr>sock := n\<rparr>) s)"
    have r: "r = Returns ?s" using assms(4) scores t by (simp add: handler_step_def scores_step_def)
    have "connected ?s"
      by (rule connected_moves [OF c assms(3), where h = "(handlers s p)\<lparr>sock := n, pc := Deal_head j\<rparr>"])
        (simp_all add: scores n)
    from inv_deal_moves [OF assms(2) this, of "Deal_head j" p "(handlers s p)\<lparr>sock := n, pc := Deal_head j\<rparr>"] r
    show ?thesis
      by (auto simp: deal_pc_def)
  next
    case head
    let ?k = "if j < length ds then Arrive Deal_start (Deal_hand j) else Arrive Deal_end Stop"
    have r: "r = Returns (goto p ?k s)"
      using assms(3,4) head d jn connected_seated [OF c assms(3)]
      by (auto simp: handler_step_def deal_step_def Let_def)
    have "connected (goto p ?k s)"
      by (rule connected_moves [OF c assms(3), where h = "(handlers s p)\<lparr>pc := ?k\<rparr>"]) (simp_all add: head w)
    from inv_deal_moves [OF assms(2) this, of ?k p "(handlers s p)\<lparr>pc := ?k\<rparr>"] r jn show ?thesis
      by (auto simp: deal_pc_def)
  next
    case arrive
    with assms(4) inv_deal_arrives [OF assms(2,3) arrive assms(1)] show ?thesis
      by (auto simp: handler_step_def Let_def)
  next
    case wait
    with assms(4) show ?thesis by (simp add: handler_step_def)
  qed
qed

section \<open>Steps at the start of a deal\<close>

lemma inv_hand_moves:
  assumes "inv_hand ds pl j s" and "connected s'" and "hand_pc j k" and "p < 4"
    and "handlers s' = (handlers s)(p := h)" and "pc h = k" and "input h = input (handlers s p)"
    and "deals s' = deals s" and "totals s' = totals s"
    and "semaphores s' = (semaphores s)(p := if p = lead (ds ! j) \<and> past_lead j k then 1 else 0)"
    and "turn s' = turn s \<or> turn s' = int (lead (ds ! j))"
    and "k = Check_lead j \<or> past_lead j k \<Longrightarrow> turn s' = int (lead (ds ! j))"
  shows "inv_hand ds pl j s'"
  unfolding inv_hand_def
proof (intro conjI allI impI)
  show "semaphores s' = (\<lambda>q. if q = lead (ds ! j) \<and> past_lead j (pc (handlers s' q)) then 1 else 0)"
    using assms(1,5,6,10) by (auto simp: inv_hand_def fun_eq_iff)
  fix q :: nat assume "q < 4"
  show "turn s' = int (lead (ds ! j))"
    if "pc (handlers s' q) = Check_lead j \<or> past_lead j (pc (handlers s' q))"
    using that \<open>q < 4\<close> assms(1,5,6,11,12) by (cases "q = p") (auto simp: inv_hand_def)
qed (use assms in \<open>auto simp: inv_hand_def\<close>)

lemma inv_hand_sem:
  assumes "inv_hand ds pl j s" and "p < 4" and "\<not> past_lead j (pc (handlers s p))" and "\<not> past_lead j k"
  shows "semaphores s = (semaphores s)(p := if p = lead (ds ! j) \<and> past_lead j k then 1 else 0)"
  using assms by (auto simp: inv_hand_def fun_eq_iff)

lemma inv_hand_sem':
  assumes "inv_hand ds pl j s" and "p < 4" and "past_lead j (pc (handlers s p))" and "past_lead j k"
  shows "semaphores s = (semaphores s)(p := if p = lead (ds ! j) \<and> past_lead j k then 1 else 0)"
  using assms by (auto simp: inv_hand_def fun_eq_iff)

lemma past_lead_pcs [simp]:
  "\<not> past_lead j (Deal_hand j)" "\<not> past_lead j (Set_turn j)" "\<not> past_lead j (Check_lead j)"
  "past_lead j (Trick_head j 0)" "past_lead j (Arrive Trick_start (Trick_resend j 0))"
  "past_lead j (Wait Trick_start (Trick_resend j 0))"
  by (simp_all add: past_lead_def)

lemma inv_hand_arrives:
  assumes "inv_hand ds pl j s" and "p < 4" and "pc (handlers s p) = Arrive b k" and "fresh_game ds pl"
  shows "let s' = arrive_and_wait p b k s in inv_hand ds pl j s' \<or> inv_turn ds pl j 0 0 0 s'"
proof -
  have c: "connected s" and j: "j < length ds" and hp: "\<forall>q<4. hand_pc j (pc (handlers s q))"
    using assms(1) by (simp_all add: inv_hand_def)
  with assms(2,3) have bk: "b = Trick_start" "k = Trick_resend j 0"
    by (auto simp: hand_pc_def past_lead_def)
  have same: "\<forall>q<4. \<forall>k'. pc (handlers s q) = Wait b k' \<longrightarrow> k' = k"
    using hp bk by (auto simp: hand_pc_def past_lead_def)
  have nk: "\<not> waits_at b' k" for b' using bk by simp
  note a = arrival [OF c assms(2,3) same nk]
  let ?s = "arrive_and_wait p b k s" and ?d = "ds ! j"
  have past: "past_lead j (pc (handlers s p))" using assms(3) bk by simp
  then have turn: "turn s = int (lead ?d)" using assms(1,2) by (simp add: inv_hand_def)
  from a(6) show ?thesis
  proof
    assume h: "handlers ?s = (handlers s)(p := (handlers s p)\<lparr>pc := Wait b k\<rparr>)"
    have "inv_hand ds pl j ?s"
      by (rule inv_hand_moves [OF assms(1) a(1) _ assms(2) h, where k = "Wait b k"])
        (use a bk turn inv_hand_sem' [OF assms(1,2) past, of "Wait b k"] in \<open>simp_all add: hand_pc_def\<close>)
    then show ?thesis by (simp add: Let_def)
  next
    assume h: "(\<forall>q<4. handlers ?s q = (handlers s q)\<lparr>pc := k\<rparr>) \<and>
      (\<forall>q<4. q \<noteq> p \<longrightarrow> pc (handlers s q) = Wait b k)"
    note fd = fresh_gameD(1) [OF assms(4) j]
    have L: "lead ?d < 4" by (rule lead_bound(1) [OF fd])
    then have s0: "seat_of ?d 0 = lead ?d" by (simp add: seat_of_def)
    have pl: "past_lead j (pc (handlers s (lead ?d)))"
      using h L past bk by (cases "lead ?d = p") simp_all
    have "deals s = deals_at ds pl j (deal_with ?d pl j 0 (table_trick ?d pl j 0 0 0))"
      using assms(1) j deals_before_at [OF j] deal_with_first [OF fd] by (simp add: inv_hand_def table_trick_def)
    moreover have "semaphores s = (\<lambda>q. if q = seat_of ?d 0 then 1 else 0)"
      using assms(1) pl s0 by (auto simp: inv_hand_def fun_eq_iff)
    moreover have "turn_pc j 0 0 0 r k" for r
      using bk by (simp add: turn_pc_def stage_pc_def before_turn_def)
    ultimately have "inv_turn ds pl j 0 0 0 ?s"
      using h a(1-5) j turn s0 assms(1) unfolding inv_turn_def by (simp add: inv_hand_def)
    then show ?thesis by (simp add: Let_def)
  qed
qed

lemma inv_hand_step:
  assumes "fresh_game ds pl" and "inv_hand ds pl j s" and "p < 4" and "handler_step p s = Some r"
  shows "\<exists>s'. r = Returns s' \<and> (inv_hand ds pl j s' \<or> inv_turn ds pl j 0 0 0 s')"
proof -
  have c: "connected s" and j: "j < length ds" and hp: "hand_pc j (pc (handlers s p))"
    using assms(2,3) by (simp_all add: inv_hand_def)
  note w = connected_sock [OF c assms(3)] and g = connected_seated [OF c assms(3)]
  note fd = fresh_gameD(1) [OF assms(1) j]
  let ?L = "lead (ds ! j)"
  have dj: "deals s ! j = ds ! j" using assms(2) j by (simp add: inv_hand_def deals_before_at)
  then have li: "lead_index j s = int ?L" by (simp add: lead_index_def lead_bound(2) [OF fd])
  have one: "\<exists>s'. r = Returns s' \<and> (inv_hand ds pl j s' \<or> inv_turn ds pl j 0 0 0 s')"
    if "r = Returns s'" and "handlers s' = (handlers s)(p := h)" and "pc h = k" and "hand_pc j k"
      and "\<And>b. \<not> waits_at b k" and "\<And>b. \<not> waits_at b (pc (handlers s p))"
      and "input h = input (handlers s p)" and "writable (sock h)"
      and "states s' = states s" and "arrived s' = arrived s" and "deals s' = deals s" and "totals s' = totals s"
      and "semaphores s' = (semaphores s)(p := if p = ?L \<and> past_lead j k then 1 else 0)"
      and "turn s' = turn s \<or> turn s' = int ?L" and "k = Check_lead j \<or> past_lead j k \<Longrightarrow> turn s' = int ?L"
    for s' h k
  proof -
    have "connected s'" by (rule connected_moves [OF c assms(3) that(6) _ that(8,2)]) (use that in simp_all)
    from inv_hand_moves [OF assms(2) this that(4) assms(3) that(2,3,7,11-15)] that(1) show ?thesis
      by blast
  qed
  from hp consider "pc (handlers s p) = Deal_hand j" | "pc (handlers s p) = Set_turn j"
    | "pc (handlers s p) = Check_lead j" | "pc (handlers s p) = Trick_head j 0"
    | b k where "pc (handlers s p) = Arrive b k" | b k where "pc (handlers s p) = Wait b k"
    by (auto simp: hand_pc_def past_lead_def)
  then show ?thesis
  proof cases
    case 1
    obtain n where t: "talk p (\<lambda>c. send_deal_message c p (deals s ! j)) s =
        Returns (0, on_handler p (\<lambda>h. h\<lparr>sock := n\<rparr>) s)" and n: "writable n"
      using talks [where f = "\<lambda>c. send_deal_message c p (deals s ! j)", OF w] send_deal_writable by blast
    have "r = Returns (goto p (Set_turn j) (on_handler p (\<lambda>h. h\<lparr>sock := n\<rparr>) s))"
      using assms(4) 1 t g by (simp add: handler_step_def hand_step_def)
    then show ?thesis
      by (rule one [where k = "Set_turn j" and h = "(handlers s p)\<lparr>sock := n, pc := Set_turn j\<rparr>"])
        (use 1 n inv_hand_sem [OF assms(2,3), of "Set_turn j"] in \<open>simp_all add: hand_pc_def\<close>)
  next
    case 2
    have "r = Returns (goto p (Check_lead j) (s\<lparr>turn := int ?L\<rparr>))"
      using assms(4) 2 li by (simp add: handler_step_def)
    then show ?thesis
      by (rule one [where k = "Check_lead j" and h = "(handlers s p)\<lparr>pc := Check_lead j\<rparr>"])
        (use 2 w inv_hand_sem [OF assms(2,3), of "Check_lead j"] in \<open>simp_all add: hand_pc_def\<close>)
  next
    case 3
    have turn: "turn s = int ?L" using assms(2,3) 3 by (simp add: inv_hand_def)
    have flag: "on_state p (\<lambda>g. g\<lparr>disconnect_on_deal_handler := False\<rparr>) s' = s'" if "states s' = states s" for s'
      using c that assms(3) g by (simp add: on_state_def list_update_same_conv connected_def seated_def new_game_state_def)
    let ?s = "goto p (Trick_head j 0) (if p = ?L then release p s else s)"
    have "int p = turn s \<longleftrightarrow> p = ?L" using turn by simp
    moreover have "states (if p = ?L then release p s else s) = states s" by (simp add: release_def)
    moreover from flag [OF this] have "on_state p (\<lambda>g. g\<lparr>disconnect_on_deal_handler := False\<rparr>)
        (if p = ?L then release p s else s) = (if p = ?L then release p s else s)" .
    ultimately have "check_lead_step p j s = ?s" using g by (simp only: check_lead_step_def Let_def) simp
    then have "r = Returns ?s" using assms(4) 3 by (simp add: handler_step_def)
    moreover have "semaphores s p = 0" using assms(2,3) 3 by (simp add: inv_hand_def)
    ultimately show ?thesis
      by (intro one [where s' = ?s and k = "Trick_head j 0" and h = "(handlers s p)\<lparr>pc := Trick_head j 0\<rparr>"])
        (use 3 w turn in \<open>auto simp: hand_pc_def release_def fun_eq_iff\<close>)
  next
    case 4
    have turn: "turn s = int ?L" using assms(2,3) 4 by (simp add: inv_hand_def)
    have "r = Returns (goto p (Arrive Trick_start (Trick_resend j 0)) s)"
      using assms(4) 4 g by (simp add: handler_step_def trick_head_step_def)
    then show ?thesis
      by (rule one [where k = "Arrive Trick_start (Trick_resend j 0)" and
          h = "(handlers s p)\<lparr>pc := Arrive Trick_start (Trick_resend j 0)\<rparr>"])
        (use 4 w turn inv_hand_sem' [OF assms(2,3), of "Arrive Trick_start (Trick_resend j 0)"] in
          \<open>simp_all add: hand_pc_def\<close>)
  next
    case 5
    with assms(4) inv_hand_arrives [OF assms(2,3) 5 assms(1)] show ?thesis
      by (auto simp: handler_step_def Let_def)
  next
    case 6
    with assms(4) show ?thesis by (simp add: handler_step_def)
  qed
qed

end
