(* ===== verification/Kierki_Threads_Turn.thy ===== *)
theory Kierki_Threads_Turn
  imports Kierki_Threads_Steps
begin

text \<open>
  The steps of a trick: the seat whose turn it is goes from stage to stage, the others wait for
  their turn or at the barrier, and the last to arrive there takes all of them out of the trick.
\<close>

lemma rank_inj: "p < 4 \<Longrightarrow> q < 4 \<Longrightarrow> lead d < 4 \<Longrightarrow> rank d p = rank d q \<Longrightarrow> p = q"
  by (metis seat_rank)

lemma inv_turn_moves:
  assumes "inv_turn ds pl j i k st s" and "lead (ds ! j) < 4" and "p < 4" and "connected s'"
    and "handlers s' = (handlers s)(p := h)" and "k' \<le> 4" and "k' = 4 \<longrightarrow> st' = 0"
    and "deals s' = deals_at ds pl j (deal_with (ds ! j) pl j i (table_trick (ds ! j) pl j i k' st'))"
    and "totals s' = totals s"
    and "turn s' = int (seat_of (ds ! j) (if st' = 4 then Suc k' else k'))"
    and "semaphores s' = (\<lambda>q. if st' = 0 \<and> q = seat_of (ds ! j) k' then 1 else 0)"
    and "turn_pc j i k' st' (rank (ds ! j) p) (pc h)"
    and "input h = bytes (rest pl p j
      (if rank (ds ! j) p < k' \<or> rank (ds ! j) p = k' \<and> 2 \<le> st' then Suc i else i))"
    and "\<And>r c. r \<noteq> rank (ds ! j) p \<Longrightarrow> turn_pc j i k st r c \<Longrightarrow> turn_pc j i k' st' r c"
    and "\<And>r. r \<noteq> rank (ds ! j) p \<Longrightarrow> (r < k' \<or> r = k' \<and> 2 \<le> st') = (r < k \<or> r = k \<and> 2 \<le> st)"
  shows "inv_turn ds pl j i k' st' s'"
proof -
  have "turn_pc j i k' st' (rank (ds ! j) q) (pc (handlers s' q)) \<and>
      input (handlers s' q) = bytes (rest pl q j
        (if rank (ds ! j) q < k' \<or> rank (ds ! j) q = k' \<and> 2 \<le> st' then Suc i else i))" if "q < 4" for q
  proof (cases "q = p")
    case True
    with assms(5,12,13) show ?thesis by simp
  next
    case False
    with rank_inj [OF that assms(3,2)] have r: "rank (ds ! j) q \<noteq> rank (ds ! j) p" by blast
    have "turn_pc j i k st (rank (ds ! j) q) (pc (handlers s q))"
      "input (handlers s q) = bytes (rest pl q j
        (if rank (ds ! j) q < k \<or> rank (ds ! j) q = k \<and> 2 \<le> st then Suc i else i))"
      using assms(1) that by (simp_all add: inv_turn_def)
    with assms(14) [OF r] show ?thesis
      using False unfolding assms(15) [OF r] by (simp add: assms(5))
  qed
  with assms(1,4,6-11) show ?thesis by (simp add: inv_turn_def)
qed

text \<open>The arrivals at the end of a trick.\<close>

lemma turn_pc_arrive:
  assumes "turn_pc j i k st r (Arrive b c)"
  shows "r < k" and "b = Trick_end" and "c = Taken j i"
  using assms by (auto simp: turn_pc_def stage_pc_def before_turn_def after_turn_def split: if_splits)

lemma turn_pc_wait:
  assumes "turn_pc j i k st r (Wait b c)"
  shows "r < k" and "b = Trick_end" and "c = Taken j i"
  using assms by (auto simp: turn_pc_def stage_pc_def before_turn_def after_turn_def split: if_splits)

lemma inv_turn_arrives:
  assumes "inv_turn ds pl j i k st s" and "p < 4" and "pc (handlers s p) = Arrive b c" and "fresh_game ds pl"
  shows "game_inv ds pl (arrive_and_wait p b c s)"
proof -
  have cn: "connected s" and j: "j < length ds" and i: "i < 13"
    and tp: "\<forall>q<4. turn_pc j i k st (rank (ds ! j) q) (pc (handlers s q))"
    using assms(1) by (simp_all add: inv_turn_def)
  let ?d = "ds ! j" and ?s = "arrive_and_wait p b c s"
  have L: "lead ?d < 4" by (rule lead_bound(1) [OF fresh_gameD(1) [OF assms(4) j]])
  have "turn_pc j i k st (rank ?d p) (Arrive b c)" using tp assms(2,3) by metis
  note pp = turn_pc_arrive [OF this]
  have same: "\<forall>q<4. \<forall>k'. pc (handlers s q) = Wait b k' \<longrightarrow> k' = c"
    using tp turn_pc_wait(3) [of j i k st] pp(3) by metis
  have nk: "\<not> waits_at b' c" for b' using pp by simp
  note a = arrival [OF cn assms(2,3) same nk]
  from a(6) show ?thesis
  proof
    assume h: "handlers ?s = (handlers s)(p := (handlers s p)\<lparr>pc := Wait b c\<rparr>)"
    have "inv_turn ds pl j i k st ?s"
      by (rule inv_turn_moves [OF assms(1) L assms(2) a(1) h])
        (use a assms(1,2) pp in \<open>simp_all add: inv_turn_def turn_pc_def after_turn_def\<close>)
    then show ?thesis by (rule inv_turnI)
  next
    assume h: "(\<forall>q<4. handlers ?s q = (handlers s q)\<lparr>pc := c\<rparr>) \<and>
      (\<forall>q<4. q \<noteq> p \<longrightarrow> pc (handlers s q) = Wait b c)"
    have all: "rank ?d q < k" if "q < 4" for q
      using h tp that pp(1) turn_pc_wait(1) [of j i k st "rank ?d q" b c] by (cases "q = p") auto
    have "rank ?d (seat_of ?d 3) = 3" using rank_seat [of 3] L by simp
    with all [of "seat_of ?d 3"] assms(1) have k: "k = 4" "st = 0" by (auto simp: inv_turn_def)
    have s4: "seat_of ?d 4 = lead ?d" using L by (simp add: seat_of_def)
    have "\<forall>q<4. input (handlers s q) = bytes (rest pl q j (Suc i))"
      using assms(1) all by (simp add: inv_turn_def)
    then have "inv_taken ds pl j i ?s"
      using a(1-5) h j i assms(1) pp(3) L unfolding inv_taken_def Let_def
      by (simp add: inv_turn_def k s4 table_trick_def past_points_def acquired_def taken_pc_def fun_eq_iff)
    then show ?thesis by (rule inv_takenI)
  qed
qed

text \<open>The steps of the seat whose turn it is, and of those that come after it.\<close>

lemma inv_turn_data:
  assumes "inv_turn ds pl j i k st s" and "fresh_game ds pl"
  shows "trick_at j i s = table_trick (ds ! j) pl j i k st" and "lead_index j s = int (lead (ds ! j))"
    and "lead_player (deals s ! j) = lead_player (ds ! j)"
    and "deals (set_trick j i t s) = deals_at ds pl j (deal_with (ds ! j) pl j i t)"
  using assms lead_bound(2) [OF fresh_gameD(1) [OF assms(2), of j]]
  by (simp_all add: inv_turn_def trick_at_def lead_index_def)

lemma full_mod: "turn s = int (seat_of d k) \<Longrightarrow> lead d < 4 \<Longrightarrow> k < 4 \<Longrightarrow>
    turn s = (int (lead d) + 3) mod 4 \<longleftrightarrow> k = 3"
proof -
  assume a: "turn s = int (seat_of d k)" "lead d < 4" "k < 4"
  then have "k \<in> {0, 1, 2, 3}" "lead d \<in> {0, 1, 2, 3}" by auto
  with a(1) show ?thesis by (auto simp: seat_of_def)
qed

lemma next_seat: "(int (seat_of d k) + 1) mod 4 = int (seat_of d (Suc k))"
  by (simp add: seat_of_def zmod_int) presburger

lemma inv_turn_step:
  assumes "fresh_game ds pl" and "inv_turn ds pl j i k st s" and "p < 4" and "handler_step p s = Some r"
  shows "\<exists>s'. r = Returns s' \<and> game_inv ds pl s'"
proof -
  let ?d = "ds ! j"
  let ?r = "rank ?d p"
  have c: "connected s" and j: "j < length ds" and i: "i < 13"
    and k4: "k \<le> 4" "k = 4 \<longrightarrow> st = 0" and tp: "turn_pc j i k st ?r (pc (handlers s p))"
    and sem: "semaphores s = (\<lambda>q. if st = 0 \<and> q = seat_of ?d k then 1 else 0)"
    and turn: "turn s = int (seat_of ?d (if st = 4 then Suc k else k))"
    and inp: "input (handlers s p) = bytes (rest pl p j (if ?r < k \<or> ?r = k \<and> 2 \<le> st then Suc i else i))"
    and dl: "deals s = deals_at ds pl j (deal_with ?d pl j i (table_trick ?d pl j i k st))"
    using assms(2,3) by (simp_all add: inv_turn_def)
  note w = connected_sock [OF c assms(3)] and g = connected_seated [OF c assms(3)]
  note fd = fresh_gameD(1) [OF assms(1) j] and gp = fresh_gameD(2) [OF assms(1) j]
  note data = inv_turn_data [OF assms(2,1)]
  have L: "lead ?d < 4" by (rule lead_bound(1) [OF fd])
  have sp: "seat_of ?d ?r = p" by (rule seat_rank [OF assms(3) L])
  have one: "\<exists>s'. r = Returns s' \<and> game_inv ds pl s'"
    if "r = Returns s'" and "handlers s' = (handlers s)(p := h)" and "writable (sock h)"
      and "\<And>b. \<not> waits_at b (pc h)" and "\<And>b. \<not> waits_at b (pc (handlers s p))"
      and "states s' = states s" and "arrived s' = arrived s"
      and "k' \<le> 4" and "k' = 4 \<longrightarrow> st' = 0"
      and "deals s' = deals_at ds pl j (deal_with ?d pl j i (table_trick ?d pl j i k' st'))"
      and "totals s' = totals s"
      and "turn s' = int (seat_of ?d (if st' = 4 then Suc k' else k'))"
      and "semaphores s' = (\<lambda>q. if st' = 0 \<and> q = seat_of ?d k' then 1 else 0)"
      and "turn_pc j i k' st' ?r (pc h)"
      and "input h = bytes (rest pl p j (if ?r < k' \<or> ?r = k' \<and> 2 \<le> st' then Suc i else i))"
      and "\<And>r c. r \<noteq> ?r \<Longrightarrow> turn_pc j i k st r c \<Longrightarrow> turn_pc j i k' st' r c"
      and "\<And>r. r \<noteq> ?r \<Longrightarrow> (r < k' \<or> r = k' \<and> 2 \<le> st') = (r < k \<or> r = k \<and> 2 \<le> st)"
    for s' h k' st'
  proof -
    have "connected s'" by (rule connected_moves [OF c assms(3) that(5,4,3,2,6,7)])
    from inv_turn_moves [OF assms(2) L assms(3) this that(2,8-17)] that(1) show ?thesis
      by (auto intro: inv_turnI)
  qed
  from tp consider (resend) "k \<le> ?r" "?r = k \<longrightarrow> st = 0" "pc (handlers s p) = Trick_resend j i"
    | (await) "k \<le> ?r" "?r = k \<longrightarrow> st = 0" "pc (handlers s p) = Await_turn j i"
    | (play) "?r = k" "st = 1" "pc (handlers s p) = Play j i" | (judge) "?r = k" "st = 2" "pc (handlers s p) = Judge j i"
    | (pass) "?r = k" "st = 3" "pc (handlers s p) = Pass j i" | (wake) "?r = k" "st = 4" "pc (handlers s p) = Wake j i"
    | (arrive) b k' where "pc (handlers s p) = Arrive b k'" | (wait) b k' where "pc (handlers s p) = Wait b k'"
    by (auto simp: turn_pc_def stage_pc_def before_turn_def after_turn_def split: if_splits)
  then show ?thesis
  proof cases
    case resend
    have "r = Returns (goto p (Await_turn j i) s)"
      using assms(4) resend g by (simp add: handler_step_def resend_step_def)
    then show ?thesis
      by (rule one [where k' = k and st' = st and h = "(handlers s p)\<lparr>pc := Await_turn j i\<rparr>"])
        (use resend w k4 dl turn sem inp in \<open>simp_all add: turn_pc_def stage_pc_def before_turn_def\<close>)
  next
    case await
    show ?thesis
    proof (cases "?r = k")
      case True
      let ?s = "goto p (Play j i) (s\<lparr>semaphores := (semaphores s)(p := semaphores s p - 1)\<rparr>)"
      have st: "st = 0" and sk: "seat_of ?d k = p" using True await sp by auto
      have "r = Returns ?s" using assms(4) await sem sk st by (simp add: handler_step_def acquire_def)
      then show ?thesis
        by (rule one [where k' = k and st' = 1 and h = "(handlers s p)\<lparr>pc := Play j i\<rparr>"])
          (use True st await w k4 dl turn sem sk inp seat_bound(2) [of ?d p] in
            \<open>auto simp: turn_pc_def stage_pc_def before_turn_def table_trick_def fun_eq_iff\<close>)
    next
      case False
      have "seat_of ?d k \<noteq> p" using False rank_seat [of k ?d] L await(1) seat_bound(2) [of ?d p] by auto
      then have "semaphores s p = 0" using sem by auto
      with assms(4) await show ?thesis by (simp add: handler_step_def acquire_def)
    qed
  next
    case play
    have sk: "seat_of ?d k = p" and k: "k < 4" using play sp seat_bound(2) [of ?d p] by auto
    let ?x = "card_text pl p j i" and ?t = "partial_trick ?d pl j i"
    have "is_card ?x" by (rule card_text_card [OF gp assms(3) j i])
    moreover have "add_card_to_cards ?x (?t k) = Some (?t (Suc k))"
      using partial_trick_ok [OF gp j i, of ?d k] sk by simp
    ultimately obtain n where n: "trick_loop (peer (handlers s p)) i (input (handlers s p))
        (?t k, sock (handlers s p)) = Returns ((0, ?t (Suc k), n), bytes (rest pl p j (Suc i)))" "writable n"
      using trick_loop_takes [of i ?x "?t k" "?t (Suc k)" "sock (handlers s p)"] w i
        inp rest_next_trick [OF gp assms(3) j i] play by fastforce
    have t: "trick_at j i s = ?t k" using data(1) play k by (simp add: table_trick_def)
    let ?h = "(handlers s p)\<lparr>sock := n, input := bytes (rest pl p j (Suc i)), pc := Judge j i\<rparr>"
    let ?s = "goto p (Judge j i) (set_trick j i (?t (Suc k))
      (on_handler p (\<lambda>h. h\<lparr>sock := n, input := bytes (rest pl p j (Suc i))\<rparr>) s))"
    have "r = Returns ?s" using assms(4) play n(1) t by (simp add: handler_step_def play_step_def Let_def)
    then show ?thesis
      by (rule one [where k' = k and st' = 2 and h = ?h])
        (use play n(2) k j dl turn sem in
          \<open>auto simp: turn_pc_def stage_pc_def table_trick_def\<close>)
  next
    case judge
    have k: "k < 4" using judge seat_bound(2) [of ?d p] by auto
    let ?t = "table_trick ?d pl j i k 3"
    have r: "r = Returns (goto p (Pass j i) (if k = 3 then set_trick j i ?t s else s))"
    proof (cases "k = 3")
      case True
      have "choose_winner (lead_player ?d) (trick_at j i s) = Some ?t"
        using full_trick_ok(1) [OF gp j i fd] True judge data(1) by (simp add: table_trick_def)
      moreover have "turn s = (lead_index j s + 3) mod 4"
        using full_mod [of s ?d k] turn judge L True data(2) by simp
      ultimately show ?thesis
        using assms(4) judge True data(3) by (simp add: handler_step_def judge_step_def)
    next
      case False
      have "turn s \<noteq> (lead_index j s + 3) mod 4"
        using full_mod [of s ?d k] turn judge L k False data(2) by simp
      then show ?thesis
        using assms(4) judge False by (simp add: handler_step_def judge_step_def)
    qed
    have "deals (if k = 3 then set_trick j i ?t s else s) = deals_at ds pl j (deal_with ?d pl j i ?t)"
      using data(4) dl judge k by (auto simp: table_trick_def simp del: set_trick_simps)
    with r show ?thesis
      by (intro one [where s' = "goto p (Pass j i) (if k = 3 then set_trick j i ?t s else s)"
            and k' = k and st' = 3 and h = "(handlers s p)\<lparr>pc := Pass j i\<rparr>"])
        (use judge w k turn sem inp in \<open>auto simp: turn_pc_def stage_pc_def\<close>)
  next
    case pass
    have k: "k < 4" using pass seat_bound(2) [of ?d p] by auto
    have "r = Returns (goto p (Wake j i) (s\<lparr>turn := int (seat_of ?d (Suc k))\<rparr>))"
      using assms(4) pass turn next_seat [of ?d k] by (simp add: handler_step_def)
    then show ?thesis
      by (rule one [where k' = k and st' = 4 and h = "(handlers s p)\<lparr>pc := Wake j i\<rparr>"])
        (use pass w k dl sem inp in \<open>auto simp: turn_pc_def stage_pc_def table_trick_def\<close>)
  next
    case wake
    have k: "k < 4" using wake seat_bound(2) [of ?d p] by auto
    have "r = Returns (goto p (Arrive Trick_end (Taken j i)) (release (seat_of ?d (Suc k)) s))"
      using assms(4) wake turn by (simp add: handler_step_def)
    then show ?thesis
      by (rule one [where k' = "Suc k" and st' = 0
            and h = "(handlers s p)\<lparr>pc := Arrive Trick_end (Taken j i)\<rparr>"])
        (use wake w k dl turn sem inp in
          \<open>auto simp: turn_pc_def stage_pc_def after_turn_def table_trick_def release_def fun_eq_iff\<close>)
  next
    case arrive
    with assms(4) inv_turn_arrives [OF assms(2,3) arrive assms(1)] show ?thesis by (auto simp: handler_step_def)
  next
    case wait
    with assms(4) show ?thesis by (simp add: handler_step_def)
  qed
qed

end
