(* ===== verification/Kierki_Threads_Taken.thy ===== *)
theory Kierki_Threads_Taken
  imports Kierki_Threads_Turn
begin

text \<open>
  The steps after a trick: every thread tells its client who has taken it and goes to the next one,
  or, after the last, to the end of the deal, where the last player of a trick counts the points and
  the leader takes back the permit that the last trick has left.
\<close>

lemma taken_unchanged:
  assumes "inv_taken ds pl j i s" and "p < 4" and "connected s'" and "handlers s' = (handlers s)(p := h)"
    and "taken_pc j i (p = lead (ds ! j)) (pc h)" and "input h = input (handlers s p)"
    and "past_points j (pc h) = past_points j (pc (handlers s p))"
    and "acquired j (pc h) = acquired j (pc (handlers s p))"
    and "deals s' = deals s" and "totals s' = totals s" and "turn s' = turn s" and "semaphores s' = semaphores s"
  shows "inv_taken ds pl j i s'"
proof -
  have a: "past_points j (pc (handlers s' q)) = past_points j (pc (handlers s q))"
    "acquired j (pc (handlers s' q)) = acquired j (pc (handlers s q))" for q
    using assms(4,7,8) by simp_all
  have h: "taken_pc j i (q = lead (ds ! j)) (pc (handlers s' q)) \<and>
      input (handlers s' q) = bytes (rest pl q j (Suc i))" if "q < 4" for q
    using assms(1,4-6) that by (simp add: inv_taken_def Let_def)
  show ?thesis
    using assms(1,3,9-12) h by (simp add: inv_taken_def Let_def a)
qed

lemma taken_pc_arrive:
  assumes "taken_pc j i l (Arrive b c)"
  shows "i < 12 \<and> b = Trick_start \<and> c = Trick_resend j (Suc i) \<or> i = 12 \<and> b = Deal_end \<and> c = Scores j"
  using assms by (auto simp: taken_pc_def past_points_def acquired_def)

lemma taken_pc_wait:
  assumes "taken_pc j i l (Wait b c)"
  shows "i < 12 \<and> b = Trick_start \<and> c = Trick_resend j (Suc i) \<or> i = 12 \<and> b = Deal_end \<and> c = Scores j"
  using assms by (auto simp: taken_pc_def past_points_def acquired_def)

lemma points_pcs [simp]:
  "\<not> past_points j (Taken j' i)" "\<not> past_points j (Trick_head j' i)" "\<not> past_points j (Points j')"
  "\<not> past_points j (Arrive Trick_start k)" "\<not> past_points j (Wait Trick_start k)"
  "past_points j (Own_turn j)" "past_points j (Own_acquire j)" "past_points j (Deal_reset j)"
  "past_points j (Arrive Deal_end (Scores j))" "past_points j (Wait Deal_end (Scores j))"
  by (simp_all add: past_points_def acquired_def)

lemma acquired_pcs [simp]:
  "\<not> acquired j (Taken j' i)" "\<not> acquired j (Trick_head j' i)" "\<not> acquired j (Points j')"
  "\<not> acquired j (Arrive Trick_start k)" "\<not> acquired j (Wait Trick_start k)"
  "\<not> acquired j (Own_turn j')" "\<not> acquired j (Own_acquire j')" "acquired j (Deal_reset j)"
  "acquired j (Arrive Deal_end (Scores j))" "acquired j (Wait Deal_end (Scores j))"
  by (simp_all add: acquired_def)

lemma taken_past: "taken_pc j i l k \<Longrightarrow> past_points j k \<Longrightarrow> i = 12"
  by (auto simp: taken_pc_def)

lemma inv_taken_arrives:
  assumes "inv_taken ds pl j i s" and "p < 4" and "pc (handlers s p) = Arrive b c" and "fresh_game ds pl"
  shows "game_inv ds pl (arrive_and_wait p b c s)"
proof -
  let ?d = "ds ! j" and ?s = "arrive_and_wait p b c s"
  have cn: "connected s" and j: "j < length ds" and i: "i < 13"
    and tp: "\<forall>q<4. taken_pc j i (q = lead ?d) (pc (handlers s q))"
    and turn: "turn s = int (lead ?d)" and inp: "\<forall>q<4. input (handlers s q) = bytes (rest pl q j (Suc i))"
    using assms(1) by (simp_all add: inv_taken_def Let_def)
  note fd = fresh_gameD(1) [OF assms(4) j] and gp = fresh_gameD(2) [OF assms(4) j]
  have L: "lead ?d < 4" by (rule lead_bound(1) [OF fd])
  have "taken_pc j i (p = lead ?d) (Arrive b c)" using tp assms(2,3) by metis
  note bc = taken_pc_arrive [OF this]
  have same: "\<forall>q<4. \<forall>k'. pc (handlers s q) = Wait b k' \<longrightarrow> k' = c"
    using tp bc taken_pc_wait [of j i] by (metis barrier.distinct(7))
  have nk: "\<not> waits_at b' c" for b' using bc by auto
  note a = arrival [OF cn assms(2,3) same nk]
  from a(6) show ?thesis
  proof
    assume h: "handlers ?s = (handlers s)(p := (handlers s p)\<lparr>pc := Wait b c\<rparr>)"
    have "inv_taken ds pl j i ?s"
      by (rule taken_unchanged [OF assms(1,2) a(1) h]) (use a(2-5) bc assms(3) in \<open>auto simp: taken_pc_def\<close>)
    then show ?thesis by (rule inv_takenI)
  next
    assume h: "(\<forall>q<4. handlers ?s q = (handlers s q)\<lparr>pc := c\<rparr>) \<and>
      (\<forall>q<4. q \<noteq> p \<longrightarrow> pc (handlers s q) = Wait b c)"
    then have all: "pc (handlers s q) = Arrive b c \<or> pc (handlers s q) = Wait b c" if "q < 4" for q
      using that assms(3) by (cases "q = p") simp_all
    from bc show ?thesis
    proof
      assume b: "i < 12 \<and> b = Trick_start \<and> c = Trick_resend j (Suc i)"
      have np: "\<not> past_points j (pc (handlers s q)) \<and> \<not> acquired j (pc (handlers s q))" if "q < 4" for q
        using all [OF that] b by auto
      have s0: "seat_of ?d 0 = lead ?d" using L by (simp add: seat_of_def)
      have "deals s = deals_at ds pl j (deal_with ?d pl j (Suc i) (table_trick ?d pl j (Suc i) 0 0))"
        using assms(1) np [of "seat_of ?d 3"] deal_with_next [of i ?d pl j] b
        by (simp add: inv_taken_def Let_def table_trick_def)
      moreover have "totals s = totals_before ds pl j"
        using assms(1) np [of "seat_of ?d 3"] by (simp add: inv_taken_def Let_def)
      moreover have "semaphores s = (\<lambda>q. if q = seat_of ?d 0 then 1 else 0)"
        using assms(1) np [of "lead ?d"] L s0 by (auto simp: inv_taken_def Let_def fun_eq_iff)
      moreover have "turn_pc j (Suc i) 0 0 r c" for r
        using b by (simp add: turn_pc_def stage_pc_def before_turn_def)
      ultimately have "inv_turn ds pl j (Suc i) 0 0 ?s"
        using h a(1-5) j turn s0 b inp unfolding inv_turn_def by simp
      then show ?thesis by (rule inv_turnI)
    next
      assume b: "i = 12 \<and> b = Deal_end \<and> c = Scores j"
      have np: "past_points j (pc (handlers s q)) \<and> acquired j (pc (handlers s q))" if "q < 4" for q
        using all [OF that] b by auto
      have "deals s = deals_before ds pl (Suc j)"
        using assms(1) np [of "seat_of ?d 3"] deals_at_before [OF j] by (simp add: inv_taken_def Let_def)
      moreover have "totals s = totals_before ds pl (Suc j)"
        using assms(1) np [of "seat_of ?d 3"] by (simp add: inv_taken_def Let_def)
      moreover have "semaphores s = (\<lambda>q. 0)"
        using assms(1) np [of "lead ?d"] L by (auto simp: inv_taken_def Let_def fun_eq_iff)
      moreover have "deal_pc (length ds) (Suc j) c" using b by (simp add: deal_pc_def)
      moreover have "input (handlers s q) = bytes (rest pl q (Suc j) 0)" if "q < 4" for q
        using inp that b rest_next_deal [OF gp that j] by simp
      ultimately have "inv_deal ds pl (Suc j) ?s"
        using h a(1-5) j turn unfolding inv_deal_def by simp
      then show ?thesis by (rule inv_dealI)
    qed
  qed
qed

lemma seat_three: "lead d < 4 \<Longrightarrow> int p = (int (lead d) + 3) mod 4 \<longleftrightarrow> p = seat_of d 3"
proof -
  assume "lead d < 4"
  then have "lead d \<in> {0, 1, 2, 3}" by auto
  then show ?thesis by (auto simp: seat_of_def)
qed

lemma inv_taken_step:
  assumes "fresh_game ds pl" and "inv_taken ds pl j i s" and "p < 4" and "handler_step p s = Some r"
  shows "\<exists>s'. r = Returns s' \<and> game_inv ds pl s'"
proof -
  let ?d = "ds ! j"
  let ?scored = "past_points j (pc (handlers s (seat_of ?d 3)))"
  have c: "connected s" and j: "j < length ds" and i: "i < 13"
    and tp: "taken_pc j i (p = lead ?d) (pc (handlers s p))" and turn: "turn s = int (lead ?d)"
    and sem: "semaphores s = (\<lambda>q. if q = lead ?d \<and> \<not> acquired j (pc (handlers s q)) then 1 else 0)"
    and dl: "deals s = deals_at ds pl j
      (if ?scored then scored_deal ds pl j else deal_with ?d pl j i (full_trick ?d pl j i))"
    using assms(2,3) by (simp_all add: inv_taken_def Let_def)
  note w = connected_sock [OF c assms(3)] and g = connected_seated [OF c assms(3)]
  note fd = fresh_gameD(1) [OF assms(1) j] and gp = fresh_gameD(2) [OF assms(1) j]
  note sc = scored_deal_ok [OF gp j fd]
  have L: "lead ?d < 4" by (rule lead_bound(1) [OF fd])
  have li: "lead_index j s = int (lead ?d)"
    using dl j sc(4) lead_bound(2) [OF fd] by (simp add: lead_index_def)
  have one: "\<exists>s'. r = Returns s' \<and> game_inv ds pl s'"
    if "r = Returns s'" and "handlers s' = (handlers s)(p := h)" and "writable (sock h)"
      and "\<And>b. \<not> waits_at b (pc h)" and "\<And>b. \<not> waits_at b (pc (handlers s p))"
      and "states s' = states s" and "arrived s' = arrived s"
      and "taken_pc j i (p = lead ?d) (pc h)" and "input h = input (handlers s p)"
      and "past_points j (pc h) = past_points j (pc (handlers s p))"
      and "acquired j (pc h) = acquired j (pc (handlers s p))"
      and "deals s' = deals s" and "totals s' = totals s" and "turn s' = turn s" and "semaphores s' = semaphores s"
    for s' h
  proof -
    have "connected s'" by (rule connected_moves [OF c assms(3) that(5,4,3,2,6,7)])
    from taken_unchanged [OF assms(2,3) this that(2,8-15)] that(1) show ?thesis by (auto intro: inv_takenI)
  qed
  from tp consider (taken) "pc (handlers s p) = Taken j i" | (head) "pc (handlers s p) = Trick_head j (Suc i)"
    | (points) "i = 12" "pc (handlers s p) = Points j" | (own) "i = 12" "pc (handlers s p) = Own_turn j"
    | (acquire) "i = 12" "p = lead ?d" "pc (handlers s p) = Own_acquire j"
    | (reset) "i = 12" "pc (handlers s p) = Deal_reset j"
    | (arrive) b k' where "pc (handlers s p) = Arrive b k'" | (wait) b k' where "pc (handlers s p) = Wait b k'"
    by (auto simp: taken_pc_def past_points_def acquired_def)
  then show ?thesis
  proof cases
    case taken
    have "taken_pc j i (seat_of ?d 3 = lead ?d) (pc (handlers s (seat_of ?d 3)))"
      using assms(2) by (simp add: inv_taken_def Let_def)
    then have i12: "?scored \<longrightarrow> i = 12" by (blast intro: taken_past)
    have "trick_at j i s = full_trick ?d pl j i"
      using dl j i12 sc(3) by (auto simp: trick_at_def full_tricks_def)
    then obtain n where t: "talk p (\<lambda>c. send_taken_message c (i + 1) (trick_at j i s)) s =
        Returns (0, on_handler p (\<lambda>h. h\<lparr>sock := n\<rparr>) s)" and n: "writable n"
      using talks [where f = "\<lambda>c. send_taken_message c (i + 1) (trick_at j i s)", OF w]
        send_taken_writable full_trick_ok(4) [OF gp j i fd] by metis
    have "r = Returns (goto p (Trick_head j (Suc i)) (on_handler p (\<lambda>h. h\<lparr>sock := n\<rparr>) s))"
      using assms(4) taken t by (simp add: handler_step_def taken_step_def)
    then show ?thesis
      by (rule one [where h = "(handlers s p)\<lparr>sock := n, pc := Trick_head j (Suc i)\<rparr>"])
        (use taken n in \<open>simp_all add: taken_pc_def\<close>)
  next
    case head
    let ?k = "if i < 12 then Arrive Trick_start (Trick_resend j (Suc i)) else Points j"
    have "r = Returns (goto p ?k s)"
      using assms(4) head g i by (auto simp: handler_step_def trick_head_step_def)
    then show ?thesis
      by (rule one [where h = "(handlers s p)\<lparr>pc := ?k\<rparr>"]) (use head w i in \<open>auto simp: taken_pc_def\<close>)
  next
    case own
    let ?k = "if p = lead ?d then Own_acquire j else Deal_reset j"
    have r: "r = Returns (goto p ?k s)" using assms(4) own turn by (simp add: handler_step_def)
    have "connected (goto p ?k s)"
      by (rule connected_moves [OF c assms(3), where h = "(handlers s p)\<lparr>pc := ?k\<rparr>"]) (use own w in simp_all)
    then have "inv_taken ds pl j i (goto p ?k s)"
      using assms(2) own by (auto simp: inv_taken_def Let_def taken_pc_def fun_eq_iff)
    with r show ?thesis by (blast intro: inv_takenI)
  next
    case points
    show ?thesis
    proof (cases "p = seat_of ?d 3")
      case True
      let ?D = "scored_deal ds pl j"
      let ?s = "goto p (Own_turn j) (s\<lparr>deals := deals_at ds pl j ?D, totals := totals_before ds pl (Suc j)\<rparr>)"
      have ns: "\<not> ?scored" using points True by simp
      have "deals s ! j = played_deal ds pl j"
        using dl j ns deal_with_last [of ds j pl] points by simp
      moreover have "totals s = totals_before ds pl j" using assms(2) ns by (simp add: inv_taken_def Let_def)
      ultimately have r: "r = Returns ?s"
        using assms(4) points True sc(1) dl j li seat_three [OF L, of p]
        by (simp add: handler_step_def points_step_def)
      have "connected ?s"
        by (rule connected_moves [OF c assms(3), where h = "(handlers s p)\<lparr>pc := Own_turn j\<rparr>"])
          (use points w in simp_all)
      then have "inv_taken ds pl j i ?s"
        using assms(2) points True by (auto simp: inv_taken_def Let_def taken_pc_def fun_eq_iff)
      with r show ?thesis by (blast intro: inv_takenI)
    next
      case False
      have r: "r = Returns (goto p (Own_turn j) s)"
        using assms(4) points False li seat_three [OF L, of p] by (simp add: handler_step_def points_step_def)
      have "connected (goto p (Own_turn j) s)"
        by (rule connected_moves [OF c assms(3), where h = "(handlers s p)\<lparr>pc := Own_turn j\<rparr>"])
          (use points w in simp_all)
      then have "inv_taken ds pl j i (goto p (Own_turn j) s)"
        using assms(2) points False by (auto simp: inv_taken_def Let_def taken_pc_def fun_eq_iff)
      with r show ?thesis by (blast intro: inv_takenI)
    qed
  next
    case acquire
    let ?s = "goto p (Deal_reset j) (s\<lparr>semaphores := (semaphores s)(p := semaphores s p - 1)\<rparr>)"
    have r: "r = Returns ?s" using assms(4) acquire turn sem by (simp add: handler_step_def acquire_def)
    have "connected ?s"
      by (rule connected_moves [OF c assms(3), where h = "(handlers s p)\<lparr>pc := Deal_reset j\<rparr>"])
        (use acquire w in simp_all)
    then have "inv_taken ds pl j i ?s"
      using assms(2) acquire by (auto simp: inv_taken_def Let_def taken_pc_def fun_eq_iff)
    with r show ?thesis by (blast intro: inv_takenI)
  next
    case reset
    have "reset_trick seated = seated" by (simp add: reset_trick_def seated_def new_game_state_def)
    from connected_state [where f = reset_trick, OF c assms(3) this]
    have "r = Returns (goto p (Arrive Deal_end (Scores j)) s)" using assms(4) reset by (simp add: handler_step_def)
    then show ?thesis
      by (rule one [where h = "(handlers s p)\<lparr>pc := Arrive Deal_end (Scores j)\<rparr>"])
        (use reset w in \<open>simp_all add: taken_pc_def\<close>)
  next
    case arrive
    with assms(4) inv_taken_arrives [OF assms(2,3) arrive assms(1)] show ?thesis by (auto simp: handler_step_def)
  next
    case wait
    with assms(4) show ?thesis by (simp add: handler_step_def)
  qed
qed

end
