(* ===== verification/Kierki_Threads_Play.thy ===== *)
theory Kierki_Threads_Play
  imports Kierki_Threads_Taken
begin

text \<open>
  All the steps together: in every order in which the threads can run, the invariant is kept and no
  step ends the process; a thread can go on until all are gone; and every step brings the threads
  nearer to the end, so that every run comes there.
\<close>

section \<open>Every step keeps the invariant\<close>

lemma inv_end_step:
  assumes "fresh_game ds pl" and "inv_end ds pl s" and "p < 4" and "handler_step p s = Some r"
  shows "\<exists>s'. r = Returns s' \<and> game_inv ds pl s'"
proof -
  have c: "connected s" and k: "pc (handlers s p) = Stop"
    using assms(2-4) by (auto simp: inv_end_def handler_step_def)
  let ?s = "goto p Gone (s\<lparr>stopped := stopped s \<or> int p = turn s\<rparr>)"
  have "r = Returns ?s" using assms(4) k by (simp add: handler_step_def)
  moreover have "connected ?s"
    by (rule connected_moves [OF c assms(3), where h = "(handlers s p)\<lparr>pc := Gone\<rparr>"])
      (use k connected_sock [OF c assms(3)] in simp_all)
  then have "inv_end ds pl ?s" using assms(2) by (auto simp: inv_end_def)
  ultimately show ?thesis by (blast intro: inv_endI)
qed

lemma inv_step:
  assumes "fresh_game ds pl" and "game_inv ds pl s" and "p < 4" and "handler_step p s = Some r"
  shows "\<exists>s'. r = Returns s' \<and> game_inv ds pl s'"
proof -
  from assms(2) consider j where "inv_deal ds pl j s" | j where "inv_hand ds pl j s"
    | j i k st where "inv_turn ds pl j i k st s" | j i where "inv_taken ds pl j i s" | "inv_end ds pl s"
    unfolding game_inv_def by blast
  then show ?thesis
  proof cases
    case 1
    from inv_deal_step [OF assms(1) 1 assms(3,4)] show ?thesis by (blast intro: inv_dealI inv_handI inv_endI)
  next
    case 2
    from inv_hand_step [OF assms(1) 2 assms(3,4)] show ?thesis by (blast intro: inv_handI inv_turnI)
  next
    case 3 then show ?thesis by (rule inv_turn_step [OF assms(1) _ assms(3,4)])
  next
    case 4 then show ?thesis by (rule inv_taken_step [OF assms(1) _ assms(3,4)])
  next
    case 5 then show ?thesis by (rule inv_end_step [OF assms(1) _ assms(3,4)])
  qed
qed

section \<open>Somebody can go on\<close>

lemma ready_pcs:
  "pc (handlers s p) \<notin> {Gone} \<Longrightarrow> (\<forall>b. \<not> waits_at b (pc (handlers s p))) \<Longrightarrow>
    (\<forall>j i. pc (handlers s p) = Await_turn j i \<longrightarrow> 0 < semaphores s p) \<Longrightarrow>
    (\<forall>j. pc (handlers s p) = Own_acquire j \<longrightarrow> 0 < semaphores s (nat (turn s))) \<Longrightarrow> handler_step p s \<noteq> None"
  by (auto simp: handler_step_def acquire_def waits_at_def split: pc.splits)

lemma someone_ready:
  assumes "fresh_game ds pl" and "game_inv ds pl s"
  shows "(\<exists>p<4. handler_step p s \<noteq> None) \<or> (\<forall>p<4. pc (handlers s p) = Gone)"
proof -
  from assms(2) consider j where "inv_deal ds pl j s" | j where "inv_hand ds pl j s"
    | j i k st where "inv_turn ds pl j i k st s" | j i where "inv_taken ds pl j i s" | "inv_end ds pl s"
    unfolding game_inv_def by blast
  then show ?thesis
  proof cases
    case 1
    let ?b = "if j < length ds then Deal_start else Deal_end"
    obtain p where p: "p < 4" "\<not> waits_at ?b (pc (handlers s p))"
      using not_all_wait [of s ?b] 1 by (auto simp: inv_deal_def)
    then have "handler_step p s \<noteq> None"
      using 1 by (intro ready_pcs) (auto simp: inv_deal_def deal_pc_def waits_at_def)
    with p(1) show ?thesis by blast
  next
    case 2
    obtain p where p: "p < 4" "\<not> waits_at Trick_start (pc (handlers s p))"
      using not_all_wait [of s] 2 by (auto simp: inv_hand_def)
    then have "handler_step p s \<noteq> None"
      using 2 by (intro ready_pcs) (auto simp: inv_hand_def hand_pc_def past_lead_def waits_at_def)
    with p(1) show ?thesis by blast
  next
    case 3
    have j: "j < length ds" using 3 by (simp add: inv_turn_def)
    have L: "lead (ds ! j) < 4" by (rule lead_bound(1) [OF fresh_gameD(1) [OF assms(1) j]])
    show ?thesis
    proof (cases "k = 4")
      case True
      obtain p where p: "p < 4" "\<not> waits_at Trick_end (pc (handlers s p))"
        using not_all_wait [of s] 3 by (auto simp: inv_turn_def)
      moreover have "after_turn j i (pc (handlers s p))"
        using 3 True p(1) by (simp add: inv_turn_def turn_pc_def)
      ultimately have "handler_step p s \<noteq> None"
        by (intro ready_pcs) (auto simp: after_turn_def waits_at_def)
      with p(1) show ?thesis by blast
    next
      case False
      let ?p = "seat_of (ds ! j) k"
      have "rank (ds ! j) ?p = k" using 3 False rank_seat [of k] L by (simp add: inv_turn_def)
      then have "stage_pc j i st (pc (handlers s ?p))" "st = 0 \<longrightarrow> semaphores s ?p = 1"
        using 3 seat_bound(1) [of "ds ! j" k] by (auto simp: inv_turn_def turn_pc_def dest!: spec [of _ ?p])
      then have "handler_step ?p s \<noteq> None"
        by (intro ready_pcs) (auto simp: stage_pc_def before_turn_def waits_at_def)
      then show ?thesis using seat_bound(1) [of "ds ! j" k] by blast
    qed
  next
    case 4
    let ?b = "if i < 12 then Trick_start else Deal_end"
    obtain p where p: "p < 4" "\<not> waits_at ?b (pc (handlers s p))"
      using not_all_wait [of s ?b] 4 by (auto simp: inv_taken_def)
    have t: "taken_pc j i (p = lead (ds ! j)) (pc (handlers s p))" "turn s = int (lead (ds ! j))" "i < 13"
      "semaphores s p = (if p = lead (ds ! j) \<and> \<not> acquired j (pc (handlers s p)) then 1 else 0)"
      using 4 p(1) by (simp_all add: inv_taken_def Let_def)
    then have "handler_step p s \<noteq> None"
      using p(2) by (intro ready_pcs) (auto simp: taken_pc_def past_points_def acquired_def waits_at_def)
    with p(1) show ?thesis by blast
  next
    case 5
    show ?thesis
    proof (cases "\<exists>p<4. pc (handlers s p) = Stop")
      case True
      then show ?thesis by (auto simp: handler_step_def)
    next
      case False
      with 5 show ?thesis by (auto simp: inv_end_def)
    qed
  qed
qed

section \<open>Every step is one towards the end\<close>

fun position :: "nat \<Rightarrow> pc \<Rightarrow> nat" where
  "position n (Deal_head j) = 200 * j"
| "position n (Deal_hand j) = 200 * j + 3"
| "position n (Set_turn j) = 200 * j + 4"
| "position n (Check_lead j) = 200 * j + 5"
| "position n (Trick_head j i) = 200 * j + 14 * i + 6"
| "position n (Trick_resend j i) = 200 * j + 14 * i + 9"
| "position n (Await_turn j i) = 200 * j + 14 * i + 10"
| "position n (Play j i) = 200 * j + 14 * i + 11"
| "position n (Judge j i) = 200 * j + 14 * i + 12"
| "position n (Pass j i) = 200 * j + 14 * i + 13"
| "position n (Wake j i) = 200 * j + 14 * i + 14"
| "position n (Taken j i) = 200 * j + 14 * i + 17"
| "position n (Points j) = 200 * j + 189"
| "position n (Own_turn j) = 200 * j + 190"
| "position n (Own_acquire j) = 200 * j + 191"
| "position n (Deal_reset j) = 200 * j + 192"
| "position n (Scores j) = 200 * j + 195"
| "position n Stop = 200 * n + 3"
| "position n Gone = 200 * n + 4"
| "position n (Arrive b k) = position n k - 2"
| "position n (Wait b k) = position n k - 1"

text \<open>Where the invariant lets a thread be.\<close>

fun pc_ok :: "nat \<Rightarrow> pc \<Rightarrow> bool" where
  "pc_ok n (Deal_head j) \<longleftrightarrow> j \<le> n"
| "pc_ok n (Trick_head j i) \<longleftrightarrow> j < n \<and> i \<le> 13"
| "pc_ok n (Trick_resend j i) \<longleftrightarrow> j < n \<and> i < 13"
| "pc_ok n (Await_turn j i) \<longleftrightarrow> j < n \<and> i < 13"
| "pc_ok n (Play j i) \<longleftrightarrow> j < n \<and> i < 13"
| "pc_ok n (Judge j i) \<longleftrightarrow> j < n \<and> i < 13"
| "pc_ok n (Pass j i) \<longleftrightarrow> j < n \<and> i < 13"
| "pc_ok n (Wake j i) \<longleftrightarrow> j < n \<and> i < 13"
| "pc_ok n (Taken j i) \<longleftrightarrow> j < n \<and> i < 13"
| "pc_ok n (Arrive b k) \<longleftrightarrow> pc_ok n k \<and> 2 \<le> position n k"
| "pc_ok n (Wait b k) \<longleftrightarrow> pc_ok n k \<and> 2 \<le> position n k"
| "pc_ok n (Deal_hand j) \<longleftrightarrow> j < n"
| "pc_ok n (Set_turn j) \<longleftrightarrow> j < n"
| "pc_ok n (Check_lead j) \<longleftrightarrow> j < n"
| "pc_ok n (Points j) \<longleftrightarrow> j < n"
| "pc_ok n (Own_turn j) \<longleftrightarrow> j < n"
| "pc_ok n (Own_acquire j) \<longleftrightarrow> j < n"
| "pc_ok n (Deal_reset j) \<longleftrightarrow> j < n"
| "pc_ok n (Scores j) \<longleftrightarrow> j < n"
| "pc_ok n Stop \<longleftrightarrow> True"
| "pc_ok n Gone \<longleftrightarrow> True"

lemma position_bound: "pc_ok n k \<Longrightarrow> position n k \<le> 200 * n + 4"
  by (induction k) auto

lemma inv_pc_ok:
  assumes "game_inv ds pl s" and "p < 4"
  shows "pc_ok (length ds) (pc (handlers s p))" and "length (deals s) = length ds"
proof -
  have "pc_ok (length ds) (pc (handlers s p)) \<and> length (deals s) = length ds"
  proof -
    from assms(1) consider j where "inv_deal ds pl j s" | j where "inv_hand ds pl j s"
      | j i k st where "inv_turn ds pl j i k st s" | j i where "inv_taken ds pl j i s" | "inv_end ds pl s"
      unfolding game_inv_def by blast
    then show ?thesis
    proof cases
      case 1
      then have "deal_pc (length ds) j (pc (handlers s p))" "j \<le> length ds" "length (deals s) = length ds"
        using assms(2) by (auto simp: inv_deal_def)
      then show ?thesis by (auto simp: deal_pc_def)
    next
      case 2
      then have "hand_pc j (pc (handlers s p))" "j < length ds" "length (deals s) = length ds"
        using assms(2) by (auto simp: inv_hand_def)
      then show ?thesis by (auto simp: hand_pc_def past_lead_def)
    next
      case 3
      then have "turn_pc j i k st (rank (ds ! j) p) (pc (handlers s p))" "j < length ds" "i < 13"
        "length (deals s) = length ds"
        using assms(2) by (auto simp: inv_turn_def)
      then show ?thesis by (auto simp: turn_pc_def stage_pc_def before_turn_def after_turn_def split: if_splits)
    next
      case 4
      then have "taken_pc j i (p = lead (ds ! j)) (pc (handlers s p))" "j < length ds" "i < 13"
        "length (deals s) = length ds"
        using assms(2) by (auto simp: inv_taken_def Let_def)
      then show ?thesis by (auto simp: taken_pc_def past_points_def acquired_def)
    next
      case 5
      then show ?thesis using assms(2) by (auto simp: inv_end_def)
    qed
  qed
  then show "pc_ok (length ds) (pc (handlers s p))" "length (deals s) = length ds" by simp_all
qed

definition pcs :: "server \<Rightarrow> nat \<Rightarrow> pc" where
  "pcs s = (\<lambda>q. pc (handlers s q))"

lemma pcs_simps [simp]:
  "pcs (goto p k s) = (pcs s)(p := k)" "pcs (set_trick j i t s) = pcs s" "pcs (on_state p f s) = pcs s"
  "pcs (release p s) = pcs s" "pcs (leave p f s) = (pcs s)(p := Gone)"
  by (auto simp: pcs_def on_state_def release_def leave_def fun_eq_iff)

lemma pcs_fields [simp]:
  "pcs (s\<lparr>turn := x\<rparr>) = pcs s" "pcs (s\<lparr>stopped := b\<rparr>) = pcs s" "pcs (s\<lparr>semaphores := f\<rparr>) = pcs s"
  "pcs (s\<lparr>deals := ds, totals := t\<rparr>) = pcs s"
  by (simp_all add: pcs_def)

lemma talk_pcs:
  assumes "talk p f s = Returns (r, s')"
  shows "pcs s' = pcs s"
  using assms by (auto simp: talk_def run_bind_eq_Returns pcs_def fun_eq_iff)

lemma send_takens_pcs: "send_takens p k ts s = Returns s' \<Longrightarrow> pcs s' = pcs s"
proof (induction ts arbitrary: k s)
  case (Cons t ts)
  then show ?case by (auto simp: run_bind_eq_Returns dest!: talk_pcs)
qed simp

lemma resend_pcs: "send_deal_and_taken_msg p j s = Returns s' \<Longrightarrow> pcs s' = pcs s"
  by (auto simp: send_deal_and_taken_msg_def run_bind_eq_Returns dest!: talk_pcs send_takens_pcs)

definition forward :: "nat \<Rightarrow> server \<Rightarrow> server \<Rightarrow> nat \<Rightarrow> bool" where
  "forward n s s' p \<longleftrightarrow> (\<forall>q. position n (pcs s q) \<le> position n (pcs s' q)) \<and>
     position n (pcs s p) < position n (pcs s' p)"

lemma forwardI:
  "pcs s' = (pcs s)(p := k) \<Longrightarrow> position n (pcs s p) < position n k \<Longrightarrow> forward n s s' p"
  by (simp add: forward_def)

lemma arrive_forward:
  assumes "pcs s p = Arrive b k" and "2 \<le> position n k"
  shows "forward n s (arrive_and_wait p b k s) p"
proof (cases "Suc (arrived s b) = 4")
  case True
  have le: "position n (pc h) \<le> position n (pc (resume b h))" for h
    by (simp add: resume_def split: pc.splits)
  have "position n k \<le> position n (pc (resume b ((handlers s p)\<lparr>pc := k\<rparr>)))"
    using le [of "(handlers s p)\<lparr>pc := k\<rparr>"] by simp
  then show ?thesis
    using True le assms by (auto simp: forward_def pcs_def arrive_and_wait_def)
next
  case False
  then have "pcs (arrive_and_wait p b k s) = (pcs s)(p := Wait b k)"
    by (auto simp: arrive_and_wait_def pcs_def fun_eq_iff)
  then show ?thesis by (rule forwardI) (use assms in simp)
qed

lemma step_forward:
  assumes "handler_step p s = Some (Returns s')" and "pc_ok n (pcs s p)" and "length (deals s) = n"
  shows "forward n s s' p"
proof -
  have k: "pc (handlers s p) = pcs s p" by (simp add: pcs_def)
  show ?thesis
  proof (cases "pcs s p")
    case (Deal_head j)
    with assms show ?thesis
      by (auto simp: forward_def handler_step_def k deal_step_def Let_def run_bind_eq_Returns split: if_splits
          dest!: resend_pcs)
  next
    case (Deal_hand j)
    with assms show ?thesis
      by (auto simp: forward_def handler_step_def k hand_step_def run_bind_eq_Returns split: if_splits
          dest!: talk_pcs)
  next
    case (Set_turn j)
    with assms show ?thesis by (auto simp: forward_def handler_step_def k)
  next
    case (Check_lead j)
    with assms show ?thesis by (auto simp: forward_def handler_step_def k check_lead_step_def Let_def)
  next
    case (Trick_head j i)
    with assms show ?thesis
      by (auto simp: forward_def handler_step_def k trick_head_step_def run_bind_eq_Returns split: if_splits
          dest!: resend_pcs)
  next
    case (Trick_resend j i)
    with assms show ?thesis
      by (auto simp: forward_def handler_step_def k resend_step_def run_bind_eq_Returns split: if_splits
          dest!: resend_pcs)
  next
    case (Await_turn j i)
    with assms show ?thesis by (auto simp: forward_def handler_step_def k acquire_def split: if_splits)
  next
    case (Play j i)
    have on: "pcs (on_handler p (\<lambda>h. h\<lparr>sock := n, input := rs\<rparr>) s) = pcs s" for n rs
      by (auto simp: pcs_def fun_eq_iff)
    from Play assms show ?thesis
      by (auto simp: forward_def handler_step_def k play_step_def Let_def run_bind_eq_Returns on split: if_splits)
  next
    case (Judge j i)
    with assms show ?thesis
      by (auto simp: forward_def handler_step_def k judge_step_def split: if_splits option.splits)
  next
    case (Pass j i)
    with assms show ?thesis by (auto simp: forward_def handler_step_def k)
  next
    case (Wake j i)
    with assms show ?thesis by (auto simp: forward_def handler_step_def k)
  next
    case (Taken j i)
    with assms show ?thesis
      by (auto simp: forward_def handler_step_def k taken_step_def run_bind_eq_Returns split: if_splits
          dest!: talk_pcs)
  next
    case (Points j)
    with assms show ?thesis
      by (auto simp: forward_def handler_step_def k points_step_def split: if_splits option.splits)
  next
    case (Own_turn j)
    with assms show ?thesis by (auto simp: forward_def handler_step_def k)
  next
    case (Own_acquire j)
    with assms show ?thesis by (auto simp: forward_def handler_step_def k acquire_def split: if_splits)
  next
    case (Deal_reset j)
    with assms show ?thesis by (auto simp: forward_def handler_step_def k)
  next
    case (Scores j)
    with assms show ?thesis
      by (auto simp: forward_def handler_step_def k scores_step_def run_bind_eq_Returns split: if_splits
          dest!: talk_pcs)
  next
    case Stop
    with assms show ?thesis by (auto simp: forward_def handler_step_def k)
  next
    case (Arrive b k')
    with assms k have "s' = arrive_and_wait p b k' s" "2 \<le> position n k'" by (auto simp: handler_step_def)
    with arrive_forward [OF Arrive] show ?thesis by simp
  qed (use assms k in \<open>auto simp: handler_step_def\<close>)
qed

end
