(* ===== verification/Kierki_Threads_Props.thy ===== *)
theory Kierki_Threads_Props
  imports Kierki_Threads_Play
begin

text \<open>
  The properties of the server's threads: whatever the order in which they run, they play the game that
  the cards of the clients make, one at a time, and come to its end.
\<close>

section \<open>Runs\<close>

text \<open>
  A schedule says which thread makes each step. It gives \<open>None\<close> when it picks a thread that waits;
  a step that ends the process or is undefined ends the run.
\<close>

fun scheduled :: "nat list \<Rightarrow> server \<Rightarrow> server run option" where
  "scheduled [] s = Some (Returns s)"
| "scheduled (p # ps) s =
     (case handler_step p s of None \<Rightarrow> None | Some m \<Rightarrow>
        (case m of Returns s' \<Rightarrow> scheduled ps s' | _ \<Rightarrow> Some m))"

lemma scheduled_append:
  "scheduled ps s = Some (Returns s') \<Longrightarrow> scheduled (ps @ qs) s = scheduled qs s'"
  by (induction ps arbitrary: s) (auto split: option.splits run.splits)

text \<open>The four clients are seated and have still to send all their cards; no thread has moved.\<close>

definition at_start :: "deal list \<Rightarrow> (nat \<Rightarrow> string list list) \<Rightarrow> server \<Rightarrow> bool" where
  "at_start ds pl s \<longleftrightarrow> states s = replicate 4 seated \<and> deals s = ds \<and> totals s = [0, 0, 0, 0] \<and>
     semaphores s = (\<lambda>q. 0) \<and> arrived s = (\<lambda>b. 0) \<and>
     (\<forall>p<4. pc (handlers s p) = Deal_head 0 \<and> writable (sock (handlers s p)) \<and>
        input (handlers s p) = bytes (concat (map (answers 1) (pl p))))"

definition all_gone :: "server \<Rightarrow> bool" where
  "all_gone s \<longleftrightarrow> (\<forall>p<4. pc (handlers s p) = Gone)"

lemma at_start_deal:
  assumes "fresh_game ds pl" and "at_start ds pl s"
  shows "inv_deal ds pl 0 s"
proof -
  have none: "{p. p < 4 \<and> waits_at b (pc (handlers s p))} = {}" for b
    using assms(2) by (auto simp: at_start_def)
  have "connected s" using assms(2) by (simp add: connected_def at_start_def none)
  moreover have "rest pl p 0 0 = concat (map (answers 1) (pl p))" if "p < 4" for p
    by (cases "pl p") (simp_all add: rest_def)
  ultimately show ?thesis
    using assms(2) by (simp add: inv_deal_def at_start_def deals_before_def deal_pc_def)
qed

lemmas at_start_inv = at_start_deal [THEN inv_dealI]

definition progress :: "nat \<Rightarrow> server \<Rightarrow> nat" where
  "progress n s = (\<Sum>q<4. position n (pcs s q))"

lemma progress_bound: "game_inv ds pl s \<Longrightarrow> progress (length ds) s \<le> 4 * (200 * length ds + 4)"
proof -
  assume "game_inv ds pl s"
  then have "\<forall>q\<in>{..<4}. position (length ds) (pcs s q) \<le> 200 * length ds + 4"
    using inv_pc_ok(1) position_bound by (fastforce simp: pcs_def)
  then have "(\<Sum>q<4. position (length ds) (pcs s q)) \<le> (\<Sum>q<4::nat. 200 * length ds + 4)"
    by (intro sum_mono) blast
  then show ?thesis by (simp add: progress_def)
qed

lemma step_progress:
  assumes "game_inv ds pl s" and "p < 4" and "handler_step p s = Some (Returns s')"
  shows "progress (length ds) s < progress (length ds) s'"
proof -
  have "forward (length ds) s s' p"
    using step_forward [OF assms(3)] inv_pc_ok [OF assms(1,2)] by (simp add: pcs_def)
  then show ?thesis
    using assms(2) unfolding forward_def progress_def by (intro sum_strict_mono_ex1) auto
qed

lemma scheduled_inv:
  assumes "fresh_game ds pl" and "game_inv ds pl s" and "set ps \<subseteq> {..<4}" and "scheduled ps s = Some r"
  shows "\<exists>s'. r = Returns s' \<and> game_inv ds pl s' \<and> progress (length ds) s + length ps \<le> progress (length ds) s'"
  using assms(2-4)
proof (induction ps arbitrary: s)
  case (Cons p ps)
  then have p: "p < 4" "set ps \<subseteq> {..<4}" by auto
  from Cons.prems(3) obtain m where m: "handler_step p s = Some m" by (auto split: option.splits)
  with inv_step [OF assms(1) Cons.prems(1) p(1)] obtain s1 where s1: "m = Returns s1" "game_inv ds pl s1" by blast
  have "scheduled ps s1 = Some r" using Cons.prems(3) m s1(1) by simp
  from Cons.IH [OF s1(2) p(2) this] step_progress [OF Cons.prems(1) p(1)] m s1(1) show ?case by fastforce
qed auto

lemma run_finishes:
  assumes "fresh_game ds pl" and "game_inv ds pl s"
  shows "\<exists>ps s'. set ps \<subseteq> {..<4} \<and> scheduled ps s = Some (Returns s') \<and> all_gone s'"
  using assms(2)
proof (induction "4 * (200 * length ds + 4) - progress (length ds) s" arbitrary: s rule: less_induct)
  case less
  show ?case
  proof (cases "all_gone s")
    case True
    then show ?thesis by (intro exI [of _ "[]"] exI [of _ s]) simp
  next
    case False
    with someone_ready [OF assms(1) less.prems] obtain p m where p: "p < 4" "handler_step p s = Some m"
      unfolding all_gone_def by blast
    with inv_step [OF assms(1) less.prems] obtain s1 where s1: "m = Returns s1" "game_inv ds pl s1" by blast
    have "progress (length ds) s < progress (length ds) s1"
      using step_progress [OF less.prems p(1)] p(2) s1(1) by simp
    with progress_bound [OF s1(2)] have "4 * (200 * length ds + 4) - progress (length ds) s1 <
        4 * (200 * length ds + 4) - progress (length ds) s" by simp
    from less.hyps [OF this s1(2)] obtain ps s' where
      "set ps \<subseteq> {..<4}" "scheduled ps s1 = Some (Returns s')" "all_gone s'" by blast
    with p s1(1) show ?thesis by (intro exI [of _ "p # ps"] exI [of _ s']) simp
  qed
qed

lemma gone_end:
  assumes "game_inv ds pl s" and "all_gone s"
  shows "inv_end ds pl s"
proof -
  have g: "pc (handlers s 0) = Gone" "\<And>q. q < 4 \<Longrightarrow> pc (handlers s q) = Gone"
    using assms(2) by (simp_all add: all_gone_def)
  from assms(1) consider j where "inv_deal ds pl j s" | j where "inv_hand ds pl j s"
    | j i k st where "inv_turn ds pl j i k st s" | j i where "inv_taken ds pl j i s" | "inv_end ds pl s"
    unfolding game_inv_def by blast
  then show ?thesis
  proof cases
    case 1
    then have "deal_pc (length ds) j (pc (handlers s 0))" by (simp add: inv_deal_def)
    with g show ?thesis by (simp add: deal_pc_def)
  next
    case 2
    then have "hand_pc j (pc (handlers s 0))" by (simp add: inv_hand_def)
    with g show ?thesis by (simp add: hand_pc_def past_lead_def)
  next
    case 3
    then have "turn_pc j i k st (rank (ds ! j) 0) (pc (handlers s 0))" by (simp add: inv_turn_def)
    with g show ?thesis
      by (simp add: turn_pc_def stage_pc_def before_turn_def after_turn_def split: if_splits)
  next
    case 4
    then have "taken_pc j i (p = lead (ds ! j)) (pc (handlers s p))" if "p < 4" for p
      using that by (simp add: inv_taken_def Let_def)
    from this [of 0] g show ?thesis by (simp add: taken_pc_def past_points_def acquired_def)
  qed
qed

text \<open>A thread at the table: between the permit it has taken and the one it gives.\<close>

definition at_table :: "pc \<Rightarrow> bool" where
  "at_table k \<longleftrightarrow> (case k of Play j i \<Rightarrow> True | Judge j i \<Rightarrow> True | Pass j i \<Rightarrow> True | Wake j i \<Rightarrow> True
     | _ \<Rightarrow> False)"

lemma at_table_turn:
  assumes "game_inv ds pl s" and "p < 4" and "at_table (pc (handlers s p))"
  obtains j i k st where "inv_turn ds pl j i k st s" and "rank (ds ! j) p = k"
    and "stage_pc j i st (pc (handlers s p))"
proof -
  from assms(1) consider j where "inv_deal ds pl j s" | j where "inv_hand ds pl j s"
    | j i k st where "inv_turn ds pl j i k st s" | j i where "inv_taken ds pl j i s" | "inv_end ds pl s"
    unfolding game_inv_def by blast
  then show thesis
  proof cases
    case 1
    then have "deal_pc (length ds) j (pc (handlers s p))" using assms(2) by (simp add: inv_deal_def)
    with assms(3) show thesis by (auto simp: deal_pc_def at_table_def)
  next
    case 2
    then have "hand_pc j (pc (handlers s p))" using assms(2) by (simp add: inv_hand_def)
    with assms(3) show thesis by (auto simp: hand_pc_def past_lead_def at_table_def)
  next
    case 3
    then have "turn_pc j i k st (rank (ds ! j) p) (pc (handlers s p))" using assms(2) by (simp add: inv_turn_def)
    with assms(3) that [OF 3] show thesis
      by (auto simp: turn_pc_def before_turn_def after_turn_def at_table_def split: if_splits)
  next
    case 4
    then have "taken_pc j i (p = lead (ds ! j)) (pc (handlers s p))"
      using assms(2) by (simp add: inv_taken_def Let_def)
    with assms(3) show thesis by (auto simp: taken_pc_def past_points_def acquired_def at_table_def)
  next
    case 5
    then have "pc (handlers s p) = Stop \<or> pc (handlers s p) = Gone" using assms(2) by (simp add: inv_end_def)
    with assms(3) show thesis by (auto simp: at_table_def)
  qed
qed

text \<open>In a game with a deal the turn comes to a player.\<close>

lemma turn_is_taken:
  assumes "inv_turn ds pl j i 0 0 s"
  shows "\<exists>ps s'. set ps \<subseteq> {..<4} \<and> scheduled ps s = Some (Returns s') \<and> (\<exists>p<4. at_table (pc (handlers s' p)))"
proof -
  let ?p = "seat_of (ds ! j) 0"
  let ?go = "\<lambda>k s. goto ?p k s"
  have p: "?p < 4" by simp
  have c: "connected s" and sem: "semaphores s ?p = 1"
    and tp: "turn_pc j i 0 0 (rank (ds ! j) ?p) (pc (handlers s ?p))"
    using assms p by (simp_all add: inv_turn_def)
  have table: "at_table (Play j i)" by (simp add: at_table_def)
  have play: "\<exists>s''. handler_step ?p s' = Some (Returns s'') \<and> pc (handlers s'' ?p) = Play j i"
    if "pc (handlers s' ?p) = Await_turn j i" "semaphores s' ?p = 1" for s'
    using that by (simp add: handler_step_def acquire_def)
  from tp consider "pc (handlers s ?p) = Await_turn j i" | "pc (handlers s ?p) = Trick_resend j i"
    by (auto simp: turn_pc_def stage_pc_def before_turn_def split: if_splits)
  then show ?thesis
  proof cases
    case 1
    from play [OF 1 sem] obtain s'' where "handler_step ?p s = Some (Returns s'')" "pc (handlers s'' ?p) = Play j i"
      by blast
    with p show ?thesis by (intro exI [of _ "[?p]"] exI [of _ s'']) (auto simp: table intro!: exI [of _ ?p])
  next
    case 2
    let ?s = "goto ?p (Await_turn j i) s"
    have "handler_step ?p s = Some (Returns ?s)"
      using 2 connected_seated [OF c p] by (simp add: handler_step_def resend_step_def)
    moreover from play [of ?s] sem obtain s'' where
      "handler_step ?p ?s = Some (Returns s'')" "pc (handlers s'' ?p) = Play j i" by auto
    ultimately show ?thesis using p
      by (intro exI [of _ "[?p, ?p]"] exI [of _ s'']) (auto simp: table intro!: exI [of _ ?p])
  qed
qed

lemma turn_comes:
  assumes "fresh_game ds pl" and "ds \<noteq> []" and "inv_deal ds pl 0 s \<or> inv_hand ds pl 0 s \<or> inv_turn ds pl 0 0 0 0 s"
  shows "\<exists>ps s'. set ps \<subseteq> {..<4} \<and> scheduled ps s = Some (Returns s') \<and> (\<exists>p<4. at_table (pc (handlers s' p)))"
  using assms(3)
proof (induction "4 * (200 * length ds + 4) - progress (length ds) s" arbitrary: s rule: less_induct)
  case less
  show ?case
  proof (cases "inv_turn ds pl 0 0 0 0 s")
    case True
    then show ?thesis by (rule turn_is_taken)
  next
    case False
    then have start: "inv_deal ds pl 0 s \<or> inv_hand ds pl 0 s" using less.prems by blast
    then have i: "game_inv ds pl s" by (blast intro: inv_dealI inv_handI)
    have "deal_pc (length ds) 0 (pc (handlers s 0)) \<or> hand_pc 0 (pc (handlers s 0))"
      using start by (auto simp: inv_deal_def inv_hand_def)
    then have "pc (handlers s 0) \<noteq> Gone" by (auto simp: deal_pc_def hand_pc_def past_lead_def)
    then have "\<not> all_gone s" unfolding all_gone_def by (metis zero_less_numeral)
    with someone_ready [OF assms(1) i] obtain p m where p: "p < 4" "handler_step p s = Some m"
      unfolding all_gone_def by blast
    obtain s1 where s1: "m = Returns s1" "inv_deal ds pl 0 s1 \<or> inv_hand ds pl 0 s1 \<or> inv_turn ds pl 0 0 0 0 s1"
      using start inv_deal_step [OF assms(1) _ p] inv_hand_step [OF assms(1) _ p] assms(2) by fastforce
    then have i1: "game_inv ds pl s1" by (blast intro: inv_dealI inv_handI inv_turnI)
    have "progress (length ds) s < progress (length ds) s1"
      using step_progress [OF i p(1)] p(2) s1(1) by simp
    with progress_bound [OF i1] have "4 * (200 * length ds + 4) - progress (length ds) s1 <
        4 * (200 * length ds + 4) - progress (length ds) s" by simp
    from less.hyps [OF this s1(2)] obtain ps s' where
      "set ps \<subseteq> {..<4}" "scheduled ps s1 = Some (Returns s')" "\<exists>p<4. at_table (pc (handlers s' p))" by blast
    with p s1(1) show ?thesis by (intro exI [of _ "p # ps"] exI [of _ s']) simp
  qed
qed

section \<open>Clients that come\<close>

text \<open>A client that asks for its seat and then sends its cards.\<close>

definition join :: "connection \<Rightarrow> net \<Rightarrow> (nat \<Rightarrow> string list list) \<Rightarrow> nat \<Rightarrow> server \<Rightarrow> server run" where
  "join c n pl p s = accept_client (int p + 5) c
     (bytes (''IAM'' @ [''NESW'' ! p] @ delimiter) @ bytes (concat (map (answers 1) (pl p)))) n s"

definition initial_server :: "deal list \<Rightarrow> server" where
  "initial_server ds = \<lparr>states = replicate 4 new_game_state, client_sockets = replicate 4 (-1), turn = 0,
     totals = [0, 0, 0, 0], semaphores = (\<lambda>q. 0), arrived = (\<lambda>b. 0), deals = ds,
     handlers = (\<lambda>q. \<lparr>pc = Gone, peer = \<lparr>client_of = [], server_of = []\<rparr>,
       sock = \<lparr>is_open = False, writes = [], sent = [], console = []\<rparr>, input = []\<rparr>), stopped = False\<rparr>"

lemma join_seats:
  assumes "p < 4" and "\<not> seat_occupied (states s ! p)" and "first_free 0 (client_sockets s) < length (client_sockets s)"
  shows "join c n pl p s = Returns (s\<lparr>states := (states s)[p := (states s ! p)\<lparr>seat_occupied := True\<rparr>],
    client_sockets := (client_sockets s)[first_free 0 (client_sockets s) := int p + 5],
    handlers := (handlers s)(p := \<lparr>pc = Deal_head (at_deal ((states s)[p := (states s ! p)\<lparr>seat_occupied := True\<rparr>] ! p)),
      peer = c, sock = log_received c (''IAM'' @ [''NESW'' ! p]) n,
      input = bytes (concat (map (answers 1) (pl p)))\<rparr>)\<rparr>)"
proof -
  let ?m = "''IAM'' @ [''NESW'' ! p]"
  have p: "p = 0 \<or> p = 1 \<or> p = 2 \<or> p = 3" using assms(1) by auto
  then have "plain ?m" by (auto simp: CR_def)
  then have r: "readn [] (bytes (?m @ delimiter) @ bytes x) = (4, ?m, bytes x)" for x
    by (subst readn_plain) simp_all
  have i: "char_to_index (''NESW'' ! p) = int p" using p by (auto simp: char_to_index_def)
  show ?thesis
    using assms r [of "concat (map (answers 1) (pl p))"] i
    by (simp add: join_def accept_client_def receive_iam_message_def Let_def)
qed

lemma clients_come:
  assumes "writable n"
  shows "\<exists>s. run_bind (join c n pl 0 (initial_server ds)) (\<lambda>s. run_bind (join c n pl 1 s)
    (\<lambda>s. run_bind (join c n pl 2 s) (join c n pl 3))) = Returns s \<and> at_start ds pl s"
proof -
  have w: "writable (log_received c m n)" for m using quietD [OF server_log_quiet(2) [of n c m]] assms by simp
  show ?thesis
    by (simp add: join_seats initial_server_def new_game_state_def numeral_eq_Suc nth_Cons' at_start_def
        seated_def w All_less_Suc)
qed

text \<open>C: The threads of the server play the game. With four seated clients that send thirteen cards in
  every deal, no step of any thread ends the process, whatever the order of the steps; and when all
  threads are gone, every trick of every deal holds the cards of the four clients in the order of play, with the
  winner that the code chooses, the deals have the points and the totals the sums that a game without
  threads has, and the server has been told to stop.\<close>

theorem threads_play_the_game:
  assumes "fresh_game ds pl" and "at_start ds pl s" and "set ps \<subseteq> {..<4}" and "scheduled ps s = Some r"
  shows "\<exists>s'. r = Returns s' \<and> (all_gone s' \<longrightarrow>
    deals s' = map (scored_deal ds pl) [0..<length ds] \<and> totals s' = totals_before ds pl (length ds) \<and>
    (\<forall>j<length ds. \<forall>i<13. table_of (trick_at j i s') = map (\<lambda>r. pl (seat_of (ds ! j) r) ! j ! i) [0..<4]) \<and>
    (ds \<noteq> [] \<longrightarrow> stopped s'))"
proof -
  obtain s' where s': "r = Returns s'" "game_inv ds pl s'"
    using scheduled_inv [OF assms(1) at_start_inv [OF assms(1,2)] assms(3,4)] by blast
  have "deals s' = map (scored_deal ds pl) [0..<length ds] \<and> totals s' = totals_before ds pl (length ds) \<and>
    (\<forall>j<length ds. \<forall>i<13. table_of (trick_at j i s') = map (\<lambda>r. pl (seat_of (ds ! j) r) ! j ! i) [0..<4]) \<and>
    (ds \<noteq> [] \<longrightarrow> stopped s')" if g: "all_gone s'"
  proof (intro conjI allI impI)
    note e = gone_end [OF s'(2) g]
    show d: "deals s' = map (scored_deal ds pl) [0..<length ds]"
      using e by (simp add: inv_end_def deals_before_def)
    show "totals s' = totals_before ds pl (length ds)" using e by (simp add: inv_end_def)
    show "stopped s'" if "ds \<noteq> []"
      using that e g lead_bound(1) [of "last ds"] assms(1) by (simp add: inv_end_def all_gone_def fresh_game_def)
    fix j i :: nat assume j: "j < length ds" and i: "i < 13"
    note fd = fresh_gameD(1) [OF assms(1) j] and gp = fresh_gameD(2) [OF assms(1) j]
    have "trick_at j i s' = full_trick (ds ! j) pl j i"
      using j i scored_deal_ok(3) [OF gp j fd] by (simp add: trick_at_def d full_tricks_def)
    then show "table_of (trick_at j i s') = map (\<lambda>r. pl (seat_of (ds ! j) r) ! j ! i) [0..<4]"
      using full_trick_ok(3) [OF gp j i fd] by (simp add: card_text_def)
  qed
  with s'(1) show ?thesis by blast
qed

text \<open>C: The game comes to its end, when nobody leaves. Four clients have joined before the first step,
  their sockets stay open and writable, and all the cards that they send are there to be read, so that no thread
  waits for a client, times out or meets the end of a stream. Then, however the threads have run so far, they have
  made at most 4 * (200 * number of deals + 4) steps, one of them can go on unless all are gone, and there is a
  way to go on until all are gone: no deadlock among the threads, and no run that goes on forever. With a client
  that is lost the others wait until somebody takes its seat.\<close>

theorem threads_reach_the_end:
  assumes "fresh_game ds pl" and "at_start ds pl s" and "set ps \<subseteq> {..<4}" and "scheduled ps s = Some (Returns s')"
  shows "length ps \<le> 4 * (200 * length ds + 4) \<and> ((\<exists>p<4. handler_step p s' \<noteq> None) \<or> all_gone s') \<and>
    (\<exists>qs s''. set qs \<subseteq> {..<4} \<and> scheduled (ps @ qs) s = Some (Returns s'') \<and> all_gone s'')"
proof -
  have i: "game_inv ds pl s'" and l: "length ps \<le> progress (length ds) s'"
    using scheduled_inv [OF assms(1) at_start_inv [OF assms(1,2)] assms(3,4)] by auto
  from run_finishes [OF assms(1) i] scheduled_append [OF assms(4)] have
    "\<exists>qs s''. set qs \<subseteq> {..<4} \<and> scheduled (ps @ qs) s = Some (Returns s'') \<and> all_gone s''" by metis
  moreover have "length ps \<le> 4 * (200 * length ds + 4)" using l progress_bound [OF i] by linarith
  ultimately show ?thesis using someone_ready [OF assms(1) i] unfolding all_gone_def by blast
qed

text \<open>C: One player at the table, when nobody leaves. Four clients have joined before the first step and
  none is lost, as their sockets stay writable and hold all their cards. In every state that the threads then
  reach at most one of them is between taking the permit of its turn and giving the next one, and until it passes
  the turn on the shared variable holds its seat: no two threads use the trick at the same time. After a client
  was lost there can be two (lemma \<open>two_at_the_table\<close>).\<close>

theorem one_player_at_a_time:
  assumes "fresh_game ds pl" and "at_start ds pl s" and "set ps \<subseteq> {..<4}" and "scheduled ps s = Some (Returns s')"
    and "p < 4" and "at_table (pc (handlers s' p))"
  shows "(\<forall>q<4. at_table (pc (handlers s' q)) \<longrightarrow> q = p) \<and>
    ((\<forall>j i. pc (handlers s' p) \<noteq> Wake j i) \<longrightarrow> turn s' = int p)"
proof -
  have i: "game_inv ds pl s'"
    using scheduled_inv [OF assms(1) at_start_inv [OF assms(1,2)] assms(3,4)] by blast
  from at_table_turn [OF i assms(5,6)] obtain j i' k st where
    t: "inv_turn ds pl j i' k st s'" "rank (ds ! j) p = k" "stage_pc j i' st (pc (handlers s' p))" .
  have j: "j < length ds" using t(1) by (simp add: inv_turn_def)
  have L: "lead (ds ! j) < 4" by (rule lead_bound(1) [OF fresh_gameD(1) [OF assms(1) j]])
  have "q = p" if q: "q < 4" "at_table (pc (handlers s' q))" for q
  proof -
    have "turn_pc j i' k st (rank (ds ! j) q) (pc (handlers s' q))" using t(1) q(1) by (simp add: inv_turn_def)
    then have "rank (ds ! j) q = k"
      using q(2) by (auto simp: turn_pc_def after_turn_def before_turn_def at_table_def split: if_splits)
    with t(2) show ?thesis using rank_inj [OF q(1) assms(5) L] by simp
  qed
  moreover have "turn s' = int p" if "\<forall>j i. pc (handlers s' p) \<noteq> Wake j i"
  proof -
    have "st \<noteq> 4" using that t(3) by (auto simp: stage_pc_def)
    then show ?thesis using t(1,2) seat_rank [OF assms(5) L] by (simp add: inv_turn_def)
  qed
  ultimately show ?thesis by blast
qed

section \<open>What goes wrong\<close>

text \<open>
  A client that is lost when it should hear who has taken a trick: its handler gives its seat a permit
  that it has not taken. When the client is back, two threads have permits, and both go to the table.
\<close>

lemma lost_client_gets_a_permit:
  assumes "pc (handlers s p) = Taken j i" and "i \<noteq> 12"
    and "talk p (\<lambda>c. send_taken_message c (i + 1) (trick_at j i s)) s = Returns (-2, s1)"
  shows "\<exists>s'. handler_step p s = Some (Returns s') \<and> semaphores s' p = Suc (semaphores s p) \<and>
    pc (handlers s' p) = Gone"
proof -
  have "semaphores s1 = semaphores s" using assms(3) by (auto simp: talk_def run_bind_eq_Returns)
  with assms show ?thesis by (simp add: handler_step_def taken_step_def release_def leave_def on_state_def)
qed

lemma two_at_the_table:
  assumes "p \<noteq> q" and "pc (handlers s p) = Await_turn j i" and "pc (handlers s q) = Await_turn j i"
    and "semaphores s p = 1" and "semaphores s q = 1"
  shows "\<exists>s'. scheduled [p, q] s = Some (Returns s') \<and> at_table (pc (handlers s' p)) \<and> at_table (pc (handlers s' q))"
  using assms by (simp add: handler_step_def acquire_def at_table_def)

section \<open>The properties on an example\<close>

text \<open>One deal of tricks to avoid, in which every player holds a suit and plays it from the bottom.\<close>

definition suit_cards :: "char \<Rightarrow> string list" where
  "suit_cards u = map (\<lambda>v. v @ [u]) (map (\<lambda>c. [c]) ''23456789'' @ ''10'' # map (\<lambda>c. [c]) ''JQKA'')"

definition four_suits :: "nat \<Rightarrow> string list list" where
  "four_suits p = [suit_cards (''CDHS'' ! p)]"

definition suit_deal :: deal where
  "suit_deal = (new_deal 1 (CHR ''S''))
     \<lparr>players := map (\<lambda>p. new_player\<lparr>cards := concat (four_suits p ! 0)\<rparr>) [0..<4]\<rparr>"

definition some_peer :: connection where
  "some_peer = \<lparr>client_of = ''a'', server_of = ''b''\<rparr>"

definition open_sock :: net where
  "open_sock = \<lparr>is_open = True, writes = [Wrote 2, Wrote 1], sent = [], console = []\<rparr>"

lemma suit_deal_fresh: "fresh_deal suit_deal"
  by (simp add: suit_deal_def fresh_deal_def new_deal_def check_position_def numeral_eq_Suc)

lemma four_suits_good: "good_plays [suit_deal] four_suits"
proof -
  have "\<forall>c\<in>set (suit_cards u). is_card c" if "u \<in> set ''CDHS''" for u
    using that by (auto simp: suit_cards_def is_card_def card_values_def check_suit_def)
  moreover have "length (suit_cards u) = 13" for u by (simp add: suit_cards_def)
  moreover have "''CDHS'' ! p \<in> set ''CDHS''" if "p < 4" for p using that by (intro nth_mem) simp
  ultimately have "\<forall>cs\<in>set (four_suits p). length cs = 13 \<and> (\<forall>c\<in>set cs. is_card c)" if "p < 4" for p
    using that unfolding four_suits_def by (metis empty_iff list.set(1) set_ConsD)
  then show ?thesis by (simp add: good_plays_def four_suits_def)
qed

lemma suit_game: "fresh_game [suit_deal] four_suits"
  using suit_deal_fresh four_suits_good by (simp add: fresh_game_def)

text \<open>The server when the four have come.\<close>

definition suit_start :: "server run" where
  "suit_start = run_bind (join some_peer open_sock four_suits 0 (initial_server [suit_deal]))
    (\<lambda>s. run_bind (join some_peer open_sock four_suits 1 s)
    (\<lambda>s. run_bind (join some_peer open_sock four_suits 2 s) (join some_peer open_sock four_suits 3)))"

lemma suit_starts: "\<exists>s. suit_start = Returns s \<and> at_start [suit_deal] four_suits s"
  unfolding suit_start_def by (rule clients_come) (simp add: writable_def open_sock_def)

lemma suit_totals: "totals_before [suit_deal] four_suits 1 = [0, 0, 13, 0]"
  by code_simp

theorem threads_play_the_game_witness:
  "\<exists>s ps s'. suit_start = Returns s \<and> set ps \<subseteq> {..<4} \<and> scheduled ps s = Some (Returns s') \<and> all_gone s' \<and>
    totals s' = [0, 0, 13, 0] \<and> table_of (trick_at 0 12 s') = [''AH'', ''AS'', ''AC'', ''AD''] \<and> stopped s'"
proof -
  obtain s where s: "suit_start = Returns s" "at_start [suit_deal] four_suits s" using suit_starts by blast
  from run_finishes [OF suit_game at_start_inv [OF suit_game s(2)]] obtain ps s' where
    ps: "set ps \<subseteq> {..<4}" "scheduled ps s = Some (Returns s')" "all_gone s'" by blast
  have t: "map (\<lambda>r. four_suits (seat_of suit_deal r) ! 0 ! 12) [0..<4] = [''AH'', ''AS'', ''AC'', ''AD'']"
    by code_simp
  from threads_play_the_game [OF suit_game s(2) ps(1,2)] ps(3) have
    "totals s' = totals_before [suit_deal] four_suits (length [suit_deal])" "stopped s'"
    "table_of (trick_at 0 12 s') = map (\<lambda>r. four_suits (seat_of suit_deal r) ! 0 ! 12) [0..<4]"
    by simp_all
  with s(1) ps suit_totals t show ?thesis by (simp del: totals_before.simps) blast
qed

theorem threads_reach_the_end_witness:
  "\<exists>s s'. suit_start = Returns s \<and> scheduled [3, 3] s = Some (Returns s') \<and>
    (\<exists>qs s''. set qs \<subseteq> {..<4} \<and> scheduled ([3, 3] @ qs) s = Some (Returns s'') \<and> all_gone s'')"
proof -
  obtain s where s: "suit_start = Returns s" "at_start [suit_deal] four_suits s" using suit_starts by blast
  have "\<exists>s'. scheduled [3, 3] s = Some (Returns s')"
    using s(2) by (simp add: at_start_def handler_step_def deal_step_def Let_def)
  then obtain s' where s': "scheduled [3, 3] s = Some (Returns s')" by blast
  from threads_reach_the_end [OF suit_game s(2) _ s'] s(1) s' show ?thesis by fastforce
qed

theorem one_player_at_a_time_witness:
  "\<exists>s ps s' p. suit_start = Returns s \<and> set ps \<subseteq> {..<4} \<and> scheduled ps s = Some (Returns s') \<and> p < 4 \<and>
    at_table (pc (handlers s' p)) \<and> (\<forall>q<4. at_table (pc (handlers s' q)) \<longrightarrow> q = p)"
proof -
  obtain s where s: "suit_start = Returns s" "at_start [suit_deal] four_suits s" using suit_starts by blast
  have "inv_deal [suit_deal] four_suits 0 s" by (rule at_start_deal [OF suit_game s(2)])
  then obtain ps s' p where r: "set ps \<subseteq> {..<4}" "scheduled ps s = Some (Returns s')" "p < 4"
      "at_table (pc (handlers s' p))"
    using turn_comes [OF suit_game, of s] by blast
  from one_player_at_a_time [OF suit_game s(2) r] s(1) r show ?thesis by blast
qed

end
