(* ===== verification/Ppcb_Common.thy ===== *)
theory Ppcb_Common
  imports "HOL-Library.Word" "HOL-Library.Sublist"
begin

text \<open>
  The file transfer (\<open>computer-networks/project1\<close>): the packets of \<open>common.h\<close> as lists of bytes, and
  sockets. Numbers are unsigned integers of the width they have in the packet; fields that are stored
  without \<open>htobe64\<close> or \<open>htonl\<close> are in the order of the host, which is little-endian. A socket
  with a timeout gives, at every \<open>recvfrom\<close>, the next element of a list: a packet with the address
  of its sender, a timeout or an error; after the last element nothing comes any more, so that every later
  call times out. What is written to stderr is left out.
\<close>

section \<open>Bytes\<close>

type_synonym byte = "8 word"

fun be_bytes :: "nat \<Rightarrow> nat \<Rightarrow> byte list" where
  "be_bytes 0 x = []"
| "be_bytes (Suc n) x = be_bytes n (x div 256) @ [of_nat x]"

definition be_value :: "byte list \<Rightarrow> nat" where
  "be_value bs = foldl (\<lambda>v b. 256 * v + unat b) 0 bs"

definition le_bytes :: "nat \<Rightarrow> nat \<Rightarrow> byte list" where
  "le_bytes n x = rev (be_bytes n x)"

definition le_value :: "byte list \<Rightarrow> nat" where
  "le_value bs = be_value (rev bs)"

lemma be_bytes_length [simp]: "length (be_bytes n x) = n"
  by (induction n arbitrary: x) simp_all

lemma le_bytes_length [simp]: "length (le_bytes n x) = n"
  by (simp add: le_bytes_def)

lemma be_value_bytes: "be_value (be_bytes n x) = x mod 256 ^ n"
proof (induction n arbitrary: x)
  case (Suc n)
  have "unat (of_nat x :: byte) = x mod 256" by (simp add: unat_of_nat)
  with Suc [of "x div 256"] have "be_value (be_bytes (Suc n) x) = 256 * (x div 256 mod 256 ^ n) + x mod 256"
    by (simp add: be_value_def)
  also have "\<dots> = x mod (256 * 256 ^ n)" by (simp add: mod_mult2_eq)
  finally show ?case by simp
qed (simp add: be_value_def)

lemma be_roundtrip [simp]: "x < 256 ^ n \<Longrightarrow> be_value (be_bytes n x) = x"
  by (simp add: be_value_bytes)

lemma le_roundtrip [simp]: "x < 256 ^ n \<Longrightarrow> le_value (le_bytes n x) = x"
  by (simp add: le_value_def le_bytes_def)

section \<open>Packets\<close>

text \<open>The fields of the packets, by their places.\<close>

definition packet_type :: "byte list \<Rightarrow> nat" where
  "packet_type b = unat (hd b)"

definition session_id :: "byte list \<Rightarrow> nat" where
  "session_id b = le_value (take 8 (drop 1 b))"

definition packet_number :: "byte list \<Rightarrow> nat" where
  "packet_number b = be_value (take 8 (drop 9 b))"

definition data_bytes_len :: "byte list \<Rightarrow> nat" where
  "data_bytes_len b = be_value (take 4 (drop 17 b))"

definition protocol_id :: "byte list \<Rightarrow> nat" where
  "protocol_id b = unat (b ! 9)"

definition data_len :: "byte list \<Rightarrow> nat" where
  "data_len b = be_value (take 8 (drop 10 b))"

definition tcp_protocol_id :: nat where "tcp_protocol_id = 1"
definition udp_protocol_id :: nat where "udp_protocol_id = 2"
definition udpr_protocol_id :: nat where "udpr_protocol_id = 3"

definition CONN_packet :: "nat \<Rightarrow> nat \<Rightarrow> nat \<Rightarrow> byte list" where
  "CONN_packet sid proto len = 1 # le_bytes 8 sid @ [of_nat proto] @ be_bytes 8 len"

definition CONACC_packet :: "nat \<Rightarrow> byte list" where
  "CONACC_packet sid = 2 # le_bytes 8 sid"

definition CONRJT_packet :: "nat \<Rightarrow> byte list" where
  "CONRJT_packet sid = 3 # le_bytes 8 sid"

definition DATA_header :: "nat \<Rightarrow> nat \<Rightarrow> nat \<Rightarrow> byte list" where
  "DATA_header sid num len = 4 # le_bytes 8 sid @ be_bytes 8 num @ be_bytes 4 len"

definition ACC_packet :: "nat \<Rightarrow> nat \<Rightarrow> byte list" where
  "ACC_packet sid num = 5 # le_bytes 8 sid @ be_bytes 8 num"

definition RJT_packet :: "nat \<Rightarrow> nat \<Rightarrow> byte list" where
  "RJT_packet sid num = 6 # le_bytes 8 sid @ be_bytes 8 num"

definition RCVD_packet :: "nat \<Rightarrow> byte list" where
  "RCVD_packet sid = 7 # le_bytes 8 sid"

lemmas packet_defs = CONN_packet_def CONACC_packet_def CONRJT_packet_def DATA_header_def ACC_packet_def
  RJT_packet_def RCVD_packet_def

lemma packet_types [simp]:
  "packet_type (CONN_packet sid proto len) = 1" "packet_type (CONACC_packet sid) = 2"
  "packet_type (CONRJT_packet sid) = 3" "packet_type (DATA_header sid num n @ d) = 4"
  "packet_type (ACC_packet sid num) = 5" "packet_type (RJT_packet sid num) = 6"
  "packet_type (RCVD_packet sid) = 7"
  by (simp_all add: packet_type_def packet_defs)

lemma packet_lengths [simp]:
  "length (CONN_packet sid proto len) = 18" "length (CONACC_packet sid) = 9" "length (CONRJT_packet sid) = 9"
  "length (DATA_header sid num n) = 21" "length (ACC_packet sid num) = 17" "length (RJT_packet sid num) = 17"
  "length (RCVD_packet sid) = 9"
  by (simp_all add: packet_defs)

lemma packet_sessions [simp]:
  assumes "sid < 2 ^ 64"
  shows "session_id (CONN_packet sid proto len) = sid" and "session_id (CONACC_packet sid) = sid"
    and "session_id (CONRJT_packet sid) = sid" and "session_id (DATA_header sid num n @ d) = sid"
    and "session_id (ACC_packet sid num) = sid" and "session_id (RJT_packet sid num) = sid"
    and "session_id (RCVD_packet sid) = sid"
  using assms by (simp_all add: session_id_def packet_defs)

lemma packet_numbers [simp]:
  "num < 2 ^ 64 \<Longrightarrow> packet_number (DATA_header sid num n @ d) = num"
  "num < 2 ^ 64 \<Longrightarrow> packet_number (ACC_packet sid num) = num"
  "num < 2 ^ 64 \<Longrightarrow> packet_number (RJT_packet sid num) = num"
  by (simp_all add: packet_number_def packet_defs)

lemma data_header_fields [simp]:
  "n < 2 ^ 32 \<Longrightarrow> data_bytes_len (DATA_header sid num n @ d) = n"
  by (simp add: data_bytes_len_def packet_defs)

lemma conn_fields [simp]:
  "proto < 256 \<Longrightarrow> protocol_id (CONN_packet sid proto len) = proto"
  "len < 2 ^ 64 \<Longrightarrow> data_len (CONN_packet sid proto len) = len"
  by (simp_all add: protocol_id_def data_len_def packet_defs nth_append unat_of_nat)

section \<open>Sockets\<close>

datatype event = Timeout | Failure | Packet nat "byte list"

text \<open>What a program has sent, to which address, and printed; \<open>sendto\<close> fails where the list says so.\<close>

record traffic =
  sends :: "bool list"
  sent :: "(nat \<times> byte list) list"
  printed :: "byte list"

definition OK_COMMUNICATION :: int where "OK_COMMUNICATION = 0"
definition EXIT_COMMUNICATION :: int where "EXIT_COMMUNICATION = -1"
definition TIMEOUT_COMMUNICATION :: int where "TIMEOUT_COMMUNICATION = -2"

lemmas comm_defs = OK_COMMUNICATION_def EXIT_COMMUNICATION_def TIMEOUT_COMMUNICATION_def

definition sendto :: "nat \<Rightarrow> byte list \<Rightarrow> traffic \<Rightarrow> bool \<times> traffic" where
  "sendto a b out = (case sends out of
      [] \<Rightarrow> (True, out\<lparr>sent := sent out @ [(a, b)]\<rparr>)
    | ok # oks \<Rightarrow> (ok, out\<lparr>sends := oks, sent := (if ok then sent out @ [(a, b)] else sent out)\<rparr>))"

text \<open>\<open>printf\<close> with \<open>%s\<close> stops at the first zero byte.\<close>

definition print_data :: "byte list \<Rightarrow> traffic \<Rightarrow> traffic" where
  "print_data d out = out\<lparr>printed := printed out @ takeWhile (\<lambda>b. b \<noteq> 0) d\<rparr>"

definition MAX_RETRANSMITS :: nat where "MAX_RETRANSMITS = 5"
definition BUFFER_SIZE :: nat where "BUFFER_SIZE = 64000"
definition MIN_DATA_LEN :: nat where "MIN_DATA_LEN = 1"
definition MAX_DATA_LEN :: nat where "MAX_DATA_LEN = 64000"
definition MAX_LEN :: nat where "MAX_LEN = 64100"

lemmas const_defs = MAX_RETRANSMITS_def BUFFER_SIZE_def MIN_DATA_LEN_def MAX_DATA_LEN_def MAX_LEN_def

lemma sendto_cases:
  obtains (sent) out' where "sendto a b out = (True, out')" and "sent out' = sent out @ [(a, b)]"
      and "printed out' = printed out"
  | (lost) out' where "sendto a b out = (False, out')" and "sent out' = sent out" and "printed out' = printed out"
  by (cases "sends out") (auto simp: sendto_def split: if_splits)

lemma sendto_quiet: "sendto a b out = (ok, out') \<Longrightarrow> printed out' = printed out"
  by (auto simp: sendto_def split: list.splits)

lemma sendto_sent: "sendto a b out = (ok, out') \<Longrightarrow> set (sent out') \<subseteq> insert (a, b) (set (sent out))"
  by (auto simp: sendto_def split: list.splits if_splits)

end
