(* ===== verification/Ppcb_Udp.thy ===== *)
theory Ppcb_Udp
  imports Ppcb_Common
begin

text \<open>
  The transfer over UDP (\<open>server_udp.c\<close>, \<open>client_udp.c\<close>) and with retransmission (\<open>server_udpr.c\<close>,
  \<open>client_udpr.c\<close>), and the loop of the server (\<open>server_udp_udpr.c\<close>). The events that are still to come
  are the argument over which the loops go; a buffer cuts a packet that is longer than it.
\<close>

section \<open>The server\<close>

text \<open>A server without a timeout waits when nothing comes any more: \<open>None\<close>.\<close>

fun recv_conn_packet :: "event list \<Rightarrow> (int \<times> nat \<times> byte list \<times> event list) option" where
  "recv_conn_packet [] = None"
| "recv_conn_packet (Packet a b # es) =
     (let b = take 18 b in
      if length b \<noteq> 18 then Some (EXIT_COMMUNICATION, a, b, es)
      else if packet_type b \<noteq> 1 then Some (EXIT_COMMUNICATION, a, b, es)
      else if protocol_id b \<noteq> udp_protocol_id \<and> protocol_id b \<noteq> udpr_protocol_id
      then Some (EXIT_COMMUNICATION, a, b, es)
      else Some (OK_COMMUNICATION, a, b, es))"
| "recv_conn_packet (e # es) = Some (EXIT_COMMUNICATION, 0, [], es)"

definition send_conrjt_packet :: "nat \<Rightarrow> nat \<Rightarrow> traffic \<Rightarrow> int \<times> traffic" where
  "send_conrjt_packet a sid out = (case sendto a (CONRJT_packet sid) out of (ok, out) \<Rightarrow>
     (if ok then OK_COMMUNICATION else EXIT_COMMUNICATION, out))"

definition send_conacc_packet :: "nat \<Rightarrow> nat \<Rightarrow> traffic \<Rightarrow> int \<times> traffic" where
  "send_conacc_packet a sid out = (case sendto a (CONACC_packet sid) out of (ok, out) \<Rightarrow>
     (if ok then OK_COMMUNICATION else EXIT_COMMUNICATION, out))"

definition send_rjt_packet :: "nat \<Rightarrow> nat \<Rightarrow> nat \<Rightarrow> traffic \<Rightarrow> traffic" where
  "send_rjt_packet a sid num out = snd (sendto a (RJT_packet sid num) out)"

definition send_rcvd_packet :: "nat \<Rightarrow> nat \<Rightarrow> traffic \<Rightarrow> traffic" where
  "send_rcvd_packet a sid out = snd (sendto a (RCVD_packet sid) out)"

text \<open>What a packet from another address gets.\<close>

definition answer_stranger :: "nat \<Rightarrow> byte list \<Rightarrow> nat \<Rightarrow> traffic \<Rightarrow> traffic" where
  "answer_stranger a b num out =
     (if length b = 18 \<and> packet_type b = 1 then snd (send_conrjt_packet a (session_id b) out)
      else if length b = 21 \<and> packet_type b = 4 then send_rjt_packet a (session_id b) num out
      else out)"

fun recv_data_packets ::
  "nat \<Rightarrow> nat \<Rightarrow> nat \<Rightarrow> nat \<Rightarrow> nat \<Rightarrow> event list \<Rightarrow> traffic \<Rightarrow> int \<times> event list \<times> traffic"
where
  "recv_data_packets client sid len num read [] out =
     (if read < len then (EXIT_COMMUNICATION, [], out) else (OK_COMMUNICATION, [], out))"
| "recv_data_packets client sid len num read (e # es) out =
     (if \<not> read < len then (OK_COMMUNICATION, e # es, out)
      else case e of
        Packet a b \<Rightarrow>
          let b = take MAX_LEN b; n = data_bytes_len b;
              reject = (EXIT_COMMUNICATION, es, send_rjt_packet client sid num out) in
          if a \<noteq> client then recv_data_packets client sid len num read es (answer_stranger a b num out)
          else if length b < 21 then reject
          else if length b \<noteq> 21 + n then reject
          else if (read + n) mod 2 ^ 64 > len then reject
          else if session_id b \<noteq> sid then reject
          else if packet_type b \<noteq> 4 then reject
          else if packet_number b \<noteq> num then reject
          else if n < MIN_DATA_LEN \<or> n > MAX_DATA_LEN then reject
          else recv_data_packets client sid len ((num + 1) mod 2 ^ 64) ((read + n) mod 2 ^ 64) es
            (print_data (drop 21 b) out)
      | _ \<Rightarrow> (EXIT_COMMUNICATION, es, out))"

section \<open>The server with retransmission\<close>

definition answer_stranger_retr :: "nat \<Rightarrow> byte list \<Rightarrow> nat \<Rightarrow> traffic \<Rightarrow> traffic" where
  "answer_stranger_retr a b num out =
     (if length b = 18 \<and> packet_type b = 1 then snd (send_conrjt_packet a (session_id b) out)
      else if length b = 21 then send_rjt_packet a (session_id b) num out
      else out)"

fun recv_data_packet_retr ::
  "nat \<Rightarrow> nat \<Rightarrow> nat \<Rightarrow> nat \<Rightarrow> nat \<Rightarrow> event list \<Rightarrow> traffic \<Rightarrow> int \<times> nat \<times> event list \<times> traffic"
where
  "recv_data_packet_retr client sid expected read len [] out = (TIMEOUT_COMMUNICATION, read, [], out)"
| "recv_data_packet_retr client sid expected read len (e # es) out =
     (case e of
        Timeout \<Rightarrow> (TIMEOUT_COMMUNICATION, read, es, out)
      | Failure \<Rightarrow> (EXIT_COMMUNICATION, read, es, out)
      | Packet a b \<Rightarrow>
          let b = take MAX_LEN b; n = data_bytes_len b;
              reject = (EXIT_COMMUNICATION, read, es, send_rjt_packet client sid expected out) in
          if a \<noteq> client
          then recv_data_packet_retr client sid expected read len es (answer_stranger_retr a b expected out)
          else if expected = 0 \<and> length b = 18 \<and> packet_type b = 1
          then recv_data_packet_retr client sid expected read len es out
          else if length b < 21 then reject
          else if length b \<noteq> 21 + n then reject
          else if session_id b \<noteq> sid then reject
          else if packet_type b \<noteq> 4 then reject
          else if (n + read) mod 2 ^ 64 > len then reject
          else if n < MIN_DATA_LEN \<or> n > MAX_DATA_LEN then reject
          else if packet_number b < expected then recv_data_packet_retr client sid expected read len es out
          else if packet_number b \<noteq> expected then reject
          else (OK_COMMUNICATION, (read + n) mod 2 ^ 64, es, print_data (drop 21 b) out))"

lemma recv_data_retr_not_longer:
  "recv_data_packet_retr client sid expected read len es out = (r, read', es', out') \<Longrightarrow>
    length es' \<le> length es \<and> (r = OK_COMMUNICATION \<longrightarrow> length es' < length es)"
proof (induction es arbitrary: out)
  case (Cons e es)
  then show ?case
    by (cases e) (fastforce simp: Let_def comm_defs split: if_splits)+
qed (simp add: comm_defs)

text \<open>\<open>attempts\<close> counts down: what is left after the one that is made.\<close>

fun conacc_loop ::
  "nat \<Rightarrow> nat \<Rightarrow> nat \<Rightarrow> nat \<Rightarrow> event list \<Rightarrow> traffic \<Rightarrow> int \<times> nat \<times> event list \<times> traffic"
where
  "conacc_loop 0 client sid len es out = (EXIT_COMMUNICATION, 0, es, out)"
| "conacc_loop (Suc attempts) client sid len es out =
     (case sendto client (CONACC_packet sid) out of (ok, out) \<Rightarrow>
        if \<not> ok then (EXIT_COMMUNICATION, 0, es, out)
        else case recv_data_packet_retr client sid 0 0 len es out of (r, read, es, out) \<Rightarrow>
          if r = OK_COMMUNICATION then (OK_COMMUNICATION, read, es, out)
          else if r = TIMEOUT_COMMUNICATION then conacc_loop attempts client sid len es out
          else (EXIT_COMMUNICATION, read, es, out))"

definition send_conacc_packet_and_recv_data_packet ::
  "nat \<Rightarrow> nat \<Rightarrow> nat \<Rightarrow> event list \<Rightarrow> traffic \<Rightarrow> int \<times> nat \<times> event list \<times> traffic"
where
  "send_conacc_packet_and_recv_data_packet client sid len es out =
     conacc_loop (Suc MAX_RETRANSMITS) client sid len es out"

function acc_loop ::
  "nat \<Rightarrow> nat \<Rightarrow> nat \<Rightarrow> nat \<Rightarrow> nat \<Rightarrow> nat \<Rightarrow> event list \<Rightarrow> traffic \<Rightarrow> int \<times> event list \<times> traffic"
where
  "acc_loop 0 client sid len num read es out = (EXIT_COMMUNICATION, es, out)"
| "acc_loop (Suc attempts) client sid len num read es out =
     (case sendto client (ACC_packet sid num) out of (ok, out) \<Rightarrow>
        if \<not> ok then (EXIT_COMMUNICATION, es, out)
        else if read = len then (OK_COMMUNICATION, es, out)
        else case recv_data_packet_retr client sid ((num + 1) mod 2 ^ 64) read len es out of (r, read, es, out) \<Rightarrow>
          if r = OK_COMMUNICATION
          then acc_loop (Suc MAX_RETRANSMITS) client sid len ((num + 1) mod 2 ^ 64) read es out
          else if r = TIMEOUT_COMMUNICATION then acc_loop attempts client sid len num read es out
          else (EXIT_COMMUNICATION, es, out))"
  by pat_completeness auto

termination
  by (relation "measures [\<lambda>(attempts, c, sid, len, num, read, es, out). length es,
      \<lambda>(attempts, c, sid, len, num, read, es, out). attempts]")
    (auto simp: comm_defs dest!: recv_data_retr_not_longer [OF sym])

definition send_acc_packet_and_recv_data_packet ::
  "nat \<Rightarrow> nat \<Rightarrow> nat \<Rightarrow> event list \<Rightarrow> traffic \<Rightarrow> int \<times> event list \<times> traffic"
where
  "send_acc_packet_and_recv_data_packet client sid len es out =
     acc_loop (Suc MAX_RETRANSMITS) client sid len 0 0 es out"

section \<open>The loop of the server\<close>

definition udp_session :: "nat \<Rightarrow> nat \<Rightarrow> nat \<Rightarrow> event list \<Rightarrow> traffic \<Rightarrow> event list \<times> traffic" where
  "udp_session client sid len es out =
     (case send_conacc_packet client sid out of (r, out) \<Rightarrow>
        if r = EXIT_COMMUNICATION then (es, out)
        else case recv_data_packets client sid len 0 0 es out of (r, es, out) \<Rightarrow>
          if r = EXIT_COMMUNICATION then (es, out)
          else (es, send_rcvd_packet client sid out))"

definition udpr_session :: "nat \<Rightarrow> nat \<Rightarrow> nat \<Rightarrow> event list \<Rightarrow> traffic \<Rightarrow> event list \<times> traffic" where
  "udpr_session client sid len es out =
     (case send_conacc_packet_and_recv_data_packet client sid len es out of (r, first, es, out) \<Rightarrow>
        if r = EXIT_COMMUNICATION then (es, out)
        else case send_acc_packet_and_recv_data_packet client sid (len - first) es out of (r, es, out) \<Rightarrow>
          if r = EXIT_COMMUNICATION then (es, out)
          else (es, send_rcvd_packet client sid out))"

lemma recv_conn_packet_shorter:
  "recv_conn_packet es = Some (r, a, b, es') \<Longrightarrow> length es' < length es"
  by (cases es rule: recv_conn_packet.cases) (auto simp: Let_def split: if_splits)

lemma recv_data_packets_not_longer:
  "recv_data_packets client sid len num read es out = (r, es', out') \<Longrightarrow> length es' \<le> length es"
proof (induction es arbitrary: sid num read out)
  case (Cons e es)
  show ?case
    using Cons.prems by (cases e) (auto simp: Let_def split: if_splits dest!: Cons.IH)
qed (auto split: if_splits)

lemma conacc_loop_not_longer:
  "conacc_loop k client sid len es out = (r, read, es', out') \<Longrightarrow> length es' \<le> length es"
proof (induction k arbitrary: es out)
  case (Suc k)
  obtain ok out1 where o: "sendto client (CONACC_packet sid) out = (ok, out1)" by fastforce
  obtain r2 read2 es2 out2 where d: "recv_data_packet_retr client sid 0 0 len es out1 = (r2, read2, es2, out2)"
    using prod_cases4 by blast
  have "length es2 \<le> length es" using recv_data_retr_not_longer [OF d] by blast
  with Suc.prems Suc.IH [of es2 out2] o d show ?case by (auto split: if_splits)
qed simp

lemma acc_loop_not_longer:
  "acc_loop k client sid len num read es out = (r, es', out') \<Longrightarrow> length es' \<le> length es"
proof (induction k client sid len num read es out rule: acc_loop.induct)
  case (2 k client sid len num read es out)
  obtain ok out1 where o: "sendto client (ACC_packet sid num) out = (ok, out1)" by fastforce
  obtain r2 read2 es2 out2 where
    d: "recv_data_packet_retr client sid ((num + 1) mod 2 ^ 64) read len es out1 = (r2, read2, es2, out2)"
    using prod_cases4 by blast
  have le: "length es2 \<le> length es" using recv_data_retr_not_longer [OF d] by blast
  show ?case
  proof (cases "ok \<and> read \<noteq> len")
    case True
    then have c: "\<not> \<not> ok" "\<not> read = len" by auto
    note IH = "2.IH" [OF o [symmetric] c d [symmetric] refl refl]
    from "2.prems" have "acc_loop (Suc k) client sid len num read es out = (r, es', out')" .
    with o d True consider
      "r2 = OK_COMMUNICATION" "acc_loop (Suc MAX_RETRANSMITS) client sid len ((num + 1) mod 2 ^ 64) read2 es2 out2 = (r, es', out')"
      | "r2 \<noteq> OK_COMMUNICATION" "r2 = TIMEOUT_COMMUNICATION" "acc_loop k client sid len num read2 es2 out2 = (r, es', out')"
      | "es' = es2"
      by (auto simp del: acc_loop.simps(1) split: if_splits)
    then show ?thesis using IH le by cases force+
  next
    case False
    with "2.prems" o show ?thesis by (cases ok) auto
  qed
qed simp

declare acc_loop.simps [simp del]

lemma udp_session_not_longer: "length (fst (udp_session client sid len es out)) \<le> length es"
  by (auto simp: udp_session_def split: prod.splits if_splits dest: recv_data_packets_not_longer)

lemma udpr_session_not_longer: "length (fst (udpr_session client sid len es out)) \<le> length es"
proof -
  obtain r first es1 out1 where
    1: "send_conacc_packet_and_recv_data_packet client sid len es out = (r, first, es1, out1)"
    using prod_cases4 by blast
  obtain r2 es2 out2 where
    2: "send_acc_packet_and_recv_data_packet client sid (len - first) es1 out1 = (r2, es2, out2)"
    using prod_cases3 by blast
  have "length es1 \<le> length es" "length es2 \<le> length es1"
    using 1 2 by (simp_all only: send_conacc_packet_and_recv_data_packet_def
        send_acc_packet_and_recv_data_packet_def conacc_loop_not_longer acc_loop_not_longer)
  with 1 2 show ?thesis by (simp add: udpr_session_def)
qed

text \<open>The server never ends; when nothing comes any more, what it has sent and printed is the result.\<close>

function handle_udp_connection :: "event list \<Rightarrow> traffic \<Rightarrow> traffic" where
  "handle_udp_connection es out =
     (case recv_conn_packet es of
        None \<Rightarrow> out
      | Some (r, client, b, es) \<Rightarrow>
          if r = EXIT_COMMUNICATION then handle_udp_connection es out
          else if protocol_id b = udp_protocol_id
          then case udp_session client (session_id b) (data_len b) es out of (es, out) \<Rightarrow> handle_udp_connection es out
          else case udpr_session client (session_id b) (data_len b) es out of (es, out) \<Rightarrow> handle_udp_connection es out)"
  by pat_completeness auto

termination
  by (relation "measure (\<lambda>(es, out). length es)")
    (auto dest!: recv_conn_packet_shorter simp: case_prod_beta
      intro: le_less_trans [OF udp_session_not_longer] le_less_trans [OF udpr_session_not_longer])

declare handle_udp_connection.simps [simp del]

end
