(* ===== verification/Ppcb_Client.thy ===== *)
theory Ppcb_Client
  imports Ppcb_Common
begin

text \<open>
  The clients over UDP (\<open>client_udp.c\<close>, \<open>client_udpr.c\<close>) and the reading of the file (\<open>common.c\<close>). A client
  returns nothing; the result here is \<open>OK_COMMUNICATION\<close> when it has come to its end and
  \<open>EXIT_COMMUNICATION\<close> when it has returned early.
\<close>

section \<open>The file\<close>

definition READ_SIZE :: nat where "READ_SIZE = 4096"
definition INITIAL_BUFFER_SIZE :: nat where "INITIAL_BUFFER_SIZE = 4096"

text \<open>
  \<open>fread\<close> gives what is there, up to the cap asked for, and meets the end of the file when it gives less.
  \<open>None\<close>: a write behind the end of the buffer.
\<close>

function read_loop :: "nat \<Rightarrow> byte list \<Rightarrow> byte list \<Rightarrow> (nat \<times> byte list) option" where
  "read_loop cap data content =
     (let cap = (if length data \<ge> cap then cap * 2 else cap); d = take READ_SIZE content in
      if length data + READ_SIZE > cap then None
      else if length d < READ_SIZE then Some (cap, data @ d)
      else read_loop cap (data @ d) (drop READ_SIZE content))"
  by pat_completeness auto

termination
  by (relation "measure (\<lambda>(cap, data, content). length content)") (auto simp: READ_SIZE_def)

declare read_loop.simps [simp del]

definition read_data_from_stdin :: "byte list \<Rightarrow> byte list option" where
  "read_data_from_stdin content = (case read_loop INITIAL_BUFFER_SIZE [] content of
      None \<Rightarrow> None
    | Some (cap, data) \<Rightarrow> if length data < cap then Some data else None)"

lemma read_loop_all:
  assumes "cap = INITIAL_BUFFER_SIZE * 2 ^ k" and "length data = READ_SIZE * m" and "length data \<le> cap"
  shows "\<exists>cap'. read_loop cap data content = Some (cap', data @ content) \<and> length (data @ content) < cap'"
  using assms
proof (induction "length content" arbitrary: cap data content k m rule: less_induct)
  case less
  let ?cap = "if length data \<ge> cap then cap * 2 else cap"
  have m: "m \<le> 2 ^ k" using less.prems by (simp add: READ_SIZE_def INITIAL_BUFFER_SIZE_def)
  have fits: "length data + READ_SIZE \<le> ?cap"
  proof (cases "m = 2 ^ k")
    case True
    then show ?thesis using less.prems by (simp add: READ_SIZE_def INITIAL_BUFFER_SIZE_def)
  next
    case False
    with m have "Suc m \<le> 2 ^ k" by simp
    then show ?thesis using less.prems False by (simp add: READ_SIZE_def INITIAL_BUFFER_SIZE_def)
  qed
  show ?case
  proof (cases "length content < READ_SIZE")
    case True
    then show ?thesis using fits by (subst read_loop.simps) (simp add: Let_def)
  next
    case False
    let ?data = "data @ take READ_SIZE content" and ?content = "drop READ_SIZE content"
    have "\<exists>k'. ?cap = INITIAL_BUFFER_SIZE * 2 ^ k'"
      using less.prems(1) by (auto intro: exI [of _ k] exI [of _ "Suc k"])
    then obtain k' where k': "?cap = INITIAL_BUFFER_SIZE * 2 ^ k'" by blast
    have "length ?content < length content" using False by (simp add: READ_SIZE_def)
    from less.hyps [OF this k', of ?data "Suc m"] False fits less.prems(2) obtain cap' where
      "read_loop ?cap ?data ?content = Some (cap', ?data @ ?content)" "length (?data @ ?content) < cap'" by auto
    then show ?thesis using fits False by (subst read_loop.simps) (simp add: Let_def)
  qed
qed

text \<open>The whole file is read and no byte is written behind the buffer, the zero at the end included.\<close>

lemma read_data_all: "read_data_from_stdin content = Some content"
proof -
  obtain cap' where "read_loop INITIAL_BUFFER_SIZE [] content = Some (cap', content)" "length content < cap'"
    using read_loop_all [of INITIAL_BUFFER_SIZE 0 "[]" 0 content] by auto
  then show ?thesis by (simp add: read_data_from_stdin_def)
qed

section \<open>The client over UDP\<close>

function send_data_packets :: "nat \<Rightarrow> nat \<Rightarrow> nat \<Rightarrow> byte list \<Rightarrow> traffic \<Rightarrow> int \<times> traffic" where
  "send_data_packets server sid num data out =
     (if data = [] then (OK_COMMUNICATION, out)
      else let chunk = take BUFFER_SIZE data in
        case sendto server (DATA_header sid num (length chunk) @ chunk) out of (ok, out) \<Rightarrow>
          if ok then send_data_packets server sid ((num + 1) mod 2 ^ 64) (drop BUFFER_SIZE data) out
          else (EXIT_COMMUNICATION, out))"
  by pat_completeness auto

termination
  by (relation "measure (\<lambda>(server, sid, num, data, out). length data)") (auto simp: BUFFER_SIZE_def)

declare send_data_packets.simps [simp del]

definition send_conn_packet :: "nat \<Rightarrow> nat \<Rightarrow> nat \<Rightarrow> nat \<Rightarrow> traffic \<Rightarrow> int \<times> traffic" where
  "send_conn_packet server sid proto len out = (case sendto server (CONN_packet sid proto len) out of (ok, out) \<Rightarrow>
     (if ok then OK_COMMUNICATION else EXIT_COMMUNICATION, out))"

fun recv_conacc_packet :: "nat \<Rightarrow> nat \<Rightarrow> event list \<Rightarrow> int \<times> event list" where
  "recv_conacc_packet server sid [] = (EXIT_COMMUNICATION, [])"
| "recv_conacc_packet server sid (Packet a b # es) =
     (let b = take 9 b in
      if a \<noteq> server then recv_conacc_packet server sid es
      else if length b \<noteq> 9 then (EXIT_COMMUNICATION, es)
      else if packet_type b = 3 then (EXIT_COMMUNICATION, es)
      else if packet_type b \<noteq> 2 then (EXIT_COMMUNICATION, es)
      else if session_id b \<noteq> sid then (EXIT_COMMUNICATION, es)
      else (OK_COMMUNICATION, es))"
| "recv_conacc_packet server sid (e # es) = (EXIT_COMMUNICATION, es)"

fun recv_rcvd_packet :: "nat \<Rightarrow> nat \<Rightarrow> event list \<Rightarrow> int \<times> event list" where
  "recv_rcvd_packet server sid [] = (EXIT_COMMUNICATION, [])"
| "recv_rcvd_packet server sid (Packet a b # es) =
     (let b = take 9 b in
      if a \<noteq> server then recv_rcvd_packet server sid es
      else if length b \<noteq> 9 then (EXIT_COMMUNICATION, es)
      else if packet_type b \<noteq> 7 then (EXIT_COMMUNICATION, es)
      else if session_id b \<noteq> sid then (EXIT_COMMUNICATION, es)
      else (OK_COMMUNICATION, es))"
| "recv_rcvd_packet server sid (e # es) = (EXIT_COMMUNICATION, es)"

definition handle_udp_client ::
  "nat \<Rightarrow> nat \<Rightarrow> byte list \<Rightarrow> event list \<Rightarrow> traffic \<Rightarrow> int \<times> event list \<times> traffic"
where
  "handle_udp_client server sid data es out =
     (case send_conn_packet server sid udp_protocol_id (length data) out of (r, out) \<Rightarrow>
        if r = EXIT_COMMUNICATION then (r, es, out)
        else case recv_conacc_packet server sid es of (r, es) \<Rightarrow>
          if r = EXIT_COMMUNICATION then (r, es, out)
          else case send_data_packets server sid 0 data out of (r, out) \<Rightarrow>
            if r = EXIT_COMMUNICATION then (r, es, out)
            else case recv_rcvd_packet server sid es of (r, es) \<Rightarrow> (r, es, out))"

section \<open>The client with retransmission\<close>

fun recv_conacc_packet_retr :: "nat \<Rightarrow> nat \<Rightarrow> event list \<Rightarrow> int \<times> event list" where
  "recv_conacc_packet_retr server sid [] = (TIMEOUT_COMMUNICATION, [])"
| "recv_conacc_packet_retr server sid (Timeout # es) = (TIMEOUT_COMMUNICATION, es)"
| "recv_conacc_packet_retr server sid (Failure # es) = (EXIT_COMMUNICATION, es)"
| "recv_conacc_packet_retr server sid (Packet a b # es) =
     (let b = take 9 b in
      if a \<noteq> server then recv_conacc_packet_retr server sid es
      else if length b \<noteq> 9 then (EXIT_COMMUNICATION, es)
      else if packet_type b = 3 then (EXIT_COMMUNICATION, es)
      else if packet_type b \<noteq> 2 then (EXIT_COMMUNICATION, es)
      else if session_id b \<noteq> sid then (EXIT_COMMUNICATION, es)
      else (OK_COMMUNICATION, es))"

text \<open>The first argument is the number of attempts that are left.\<close>

fun conn_loop :: "nat \<Rightarrow> nat \<Rightarrow> nat \<Rightarrow> nat \<Rightarrow> event list \<Rightarrow> traffic \<Rightarrow> int \<times> event list \<times> traffic" where
  "conn_loop 0 server sid len es out = (EXIT_COMMUNICATION, es, out)"
| "conn_loop (Suc attempts) server sid len es out =
     (case sendto server (CONN_packet sid udpr_protocol_id len) out of (ok, out) \<Rightarrow>
        if \<not> ok then (EXIT_COMMUNICATION, es, out)
        else case recv_conacc_packet_retr server sid es of (r, es) \<Rightarrow>
          if r = OK_COMMUNICATION then (OK_COMMUNICATION, es, out)
          else if r = TIMEOUT_COMMUNICATION then conn_loop attempts server sid len es out
          else (EXIT_COMMUNICATION, es, out))"

definition send_conn_packet_and_recv_conacc_retr ::
  "nat \<Rightarrow> nat \<Rightarrow> nat \<Rightarrow> event list \<Rightarrow> traffic \<Rightarrow> int \<times> event list \<times> traffic"
where
  "send_conn_packet_and_recv_conacc_retr server sid len es out =
     conn_loop (Suc MAX_RETRANSMITS) server sid len es out"

fun recv_acc_packet_retr :: "nat \<Rightarrow> nat \<Rightarrow> nat \<Rightarrow> event list \<Rightarrow> int \<times> event list" where
  "recv_acc_packet_retr server sid num [] = (TIMEOUT_COMMUNICATION, [])"
| "recv_acc_packet_retr server sid num (Timeout # es) = (TIMEOUT_COMMUNICATION, es)"
| "recv_acc_packet_retr server sid num (Failure # es) = (EXIT_COMMUNICATION, es)"
| "recv_acc_packet_retr server sid num (Packet a b # es) =
     (let b = take 17 b in
      if a \<noteq> server then recv_acc_packet_retr server sid num es
      else if num = 0 \<and> length b = 9 \<and> packet_type b = 2 then recv_acc_packet_retr server sid num es
      else if length b \<noteq> 17 then (EXIT_COMMUNICATION, es)
      else if packet_type b \<noteq> 5 then (EXIT_COMMUNICATION, es)
      else if session_id b \<noteq> sid then (EXIT_COMMUNICATION, es)
      else if packet_number b < num then recv_acc_packet_retr server sid num es
      else if packet_number b \<noteq> num then (EXIT_COMMUNICATION, es)
      else (OK_COMMUNICATION, es))"

fun data_attempts ::
  "nat \<Rightarrow> nat \<Rightarrow> nat \<Rightarrow> nat \<Rightarrow> byte list \<Rightarrow> event list \<Rightarrow> traffic \<Rightarrow> int \<times> event list \<times> traffic"
where
  "data_attempts 0 server sid num packet es out = (EXIT_COMMUNICATION, es, out)"
| "data_attempts (Suc attempts) server sid num packet es out =
     (case sendto server packet out of (ok, out) \<Rightarrow>
        if \<not> ok then (EXIT_COMMUNICATION, es, out)
        else case recv_acc_packet_retr server sid num es of (r, es) \<Rightarrow>
          if r = OK_COMMUNICATION then (OK_COMMUNICATION, es, out)
          else if r = TIMEOUT_COMMUNICATION then data_attempts attempts server sid num packet es out
          else (EXIT_COMMUNICATION, es, out))"

function data_loop :: "nat \<Rightarrow> nat \<Rightarrow> nat \<Rightarrow> byte list \<Rightarrow> event list \<Rightarrow> traffic \<Rightarrow> int \<times> event list \<times> traffic" where
  "data_loop server sid num data es out =
     (if data = [] then (OK_COMMUNICATION, es, out)
      else let chunk = take BUFFER_SIZE data in
        case data_attempts (Suc MAX_RETRANSMITS) server sid num (DATA_header sid num (length chunk) @ chunk) es out of
          (r, es, out) \<Rightarrow>
            if r = OK_COMMUNICATION
            then data_loop server sid ((num + 1) mod 2 ^ 64) (drop BUFFER_SIZE data) es out
            else (EXIT_COMMUNICATION, es, out))"
  by pat_completeness auto

termination
  by (relation "measure (\<lambda>(server, sid, num, data, es, out). length data)") (auto simp: BUFFER_SIZE_def)

declare data_loop.simps [simp del]

definition send_data_packets_and_recv_acc_retr ::
  "nat \<Rightarrow> nat \<Rightarrow> byte list \<Rightarrow> event list \<Rightarrow> traffic \<Rightarrow> int \<times> event list \<times> traffic"
where
  "send_data_packets_and_recv_acc_retr server sid data es out = data_loop server sid 0 data es out"

fun recv_rcvd_packet_with_retr :: "nat \<Rightarrow> nat \<Rightarrow> event list \<Rightarrow> int \<times> event list" where
  "recv_rcvd_packet_with_retr server sid [] = (EXIT_COMMUNICATION, [])"
| "recv_rcvd_packet_with_retr server sid (Packet a b # es) =
     (let b = take 17 b in
      if a \<noteq> server then recv_rcvd_packet_with_retr server sid es
      else if length b = 17 \<and> packet_type b = 5 then recv_rcvd_packet_with_retr server sid es
      else if length b \<noteq> 9 then (EXIT_COMMUNICATION, es)
      else if packet_type b \<noteq> 7 then (EXIT_COMMUNICATION, es)
      else if session_id b \<noteq> sid then (EXIT_COMMUNICATION, es)
      else (OK_COMMUNICATION, es))"
| "recv_rcvd_packet_with_retr server sid (e # es) = (EXIT_COMMUNICATION, es)"

definition handle_udpr_client ::
  "nat \<Rightarrow> nat \<Rightarrow> byte list \<Rightarrow> event list \<Rightarrow> traffic \<Rightarrow> int \<times> event list \<times> traffic"
where
  "handle_udpr_client server sid data es out =
     (case send_conn_packet_and_recv_conacc_retr server sid (length data) es out of (r, es, out) \<Rightarrow>
        if r = EXIT_COMMUNICATION then (r, es, out)
        else case send_data_packets_and_recv_acc_retr server sid data es out of (r, es, out) \<Rightarrow>
          if r = EXIT_COMMUNICATION then (r, es, out)
          else case recv_rcvd_packet_with_retr server sid es of (r, es) \<Rightarrow> (r, es, out))"

end
