(* ===== verification/Ppcb_Transfer.thy ===== *)
theory Ppcb_Transfer
  imports Ppcb_Udp Ppcb_Client
begin

text \<open>
  The transfer as a whole: what a client sends, what a server prints of it, and which packets of the
  server a client can see. The network may lose packets, repeat them and change their order.
\<close>

section \<open>The packets of a client\<close>

definition chunk :: "byte list \<Rightarrow> nat \<Rightarrow> byte list" where
  "chunk data k = take BUFFER_SIZE (drop (BUFFER_SIZE * k) data)"

definition data_packet :: "nat \<Rightarrow> byte list \<Rightarrow> nat \<Rightarrow> byte list" where
  "data_packet sid data k = DATA_header sid k (length (chunk data k)) @ chunk data k"

definition client_packet :: "nat \<Rightarrow> byte list \<Rightarrow> byte list \<Rightarrow> bool" where
  "client_packet sid data p \<longleftrightarrow> (\<exists>proto<256. p = CONN_packet sid proto (length data)) \<or>
     (\<exists>k. BUFFER_SIZE * k < length data \<and> p = data_packet sid data k)"

definition sends_only :: "(nat \<Rightarrow> byte list \<Rightarrow> bool) \<Rightarrow> traffic \<Rightarrow> traffic \<Rightarrow> bool" where
  "sends_only P out out' \<longleftrightarrow> (\<forall>(a, p)\<in>set (sent out'). (a, p) \<in> set (sent out) \<or> P a p)"

lemma sends_only_refl [simp]: "sends_only P out out"
  by (auto simp: sends_only_def)

lemma sends_only_trans: "sends_only P out out1 \<Longrightarrow> sends_only P out1 out2 \<Longrightarrow> sends_only P out out2"
  by (fastforce simp: sends_only_def)

lemma sends_only_sendto: "sendto a b out = (ok, out') \<Longrightarrow> P a b \<Longrightarrow> sends_only P out out'"
  using sendto_sent by (fastforce simp: sends_only_def)

lemma conn_loop_sends:
  assumes "conn_loop n server sid (length data) es out = (r, es', out')"
  shows "sends_only (\<lambda>a p. a = server \<and> client_packet sid data p) out out'"
  using assms
proof (induction n arbitrary: es out)
  case (Suc n)
  obtain ok out1 where o: "sendto server (CONN_packet sid udpr_protocol_id (length data)) out = (ok, out1)"
    by fastforce
  have s: "sends_only (\<lambda>a p. a = server \<and> client_packet sid data p) out out1"
    by (rule sends_only_sendto [OF o])
      (auto simp: client_packet_def udpr_protocol_id_def intro!: exI [of _ "3 :: nat"])
  obtain r1 es1 where c: "recv_conacc_packet_retr server sid es = (r1, es1)" by fastforce
  from Suc.prems o c consider "out' = out1" | "conn_loop n server sid (length data) es1 out1 = (r, es', out')"
    by (auto split: if_splits)
  then show ?case using s Suc.IH sends_only_trans by cases blast+
qed simp

lemma data_attempts_sends:
  assumes "data_attempts n server sid num p es out = (r, es', out')" and "P server p"
  shows "sends_only P out out'"
  using assms(1)
proof (induction n arbitrary: es out)
  case (Suc n)
  obtain ok out1 where o: "sendto server p out = (ok, out1)" by fastforce
  have s: "sends_only P out out1" by (rule sends_only_sendto [where P = P, OF o assms(2)])
  obtain r1 es1 where c: "recv_acc_packet_retr server sid num es = (r1, es1)" by fastforce
  from Suc.prems o c consider "out' = out1" | "data_attempts n server sid num p es1 out1 = (r, es', out')"
    by (auto split: if_splits)
  then show ?case using s Suc.IH sends_only_trans by cases blast+
qed simp

lemma data_loop_sends:
  assumes "data_loop server sid k (drop (BUFFER_SIZE * k) data) es out = (r, es', out')"
    and "length data < 2 ^ 64"
  shows "sends_only (\<lambda>a p. a = server \<and> client_packet sid data p) out out'"
  using assms(1)
proof (induction "length data - BUFFER_SIZE * k" arbitrary: k es out rule: less_induct)
  case less
  show ?case
  proof (cases "BUFFER_SIZE * k < length data")
    case False
    with less.prems show ?thesis by (subst (asm) data_loop.simps) simp
  next
    case True
    then have k: "(k + 1) mod 2 ^ 64 = Suc k" using assms(2) by (simp add: BUFFER_SIZE_def)
    obtain r1 es1 out1 where a: "data_attempts (Suc MAX_RETRANSMITS) server sid k (data_packet sid data k) es out =
        (r1, es1, out1)"
      using prod_cases3 by blast
    have s: "sends_only (\<lambda>a p. a = server \<and> client_packet sid data p) out out1"
      by (rule data_attempts_sends [OF a]) (use True in \<open>auto simp: client_packet_def\<close>)
    have d: "drop BUFFER_SIZE (drop (BUFFER_SIZE * k) data) = drop (BUFFER_SIZE * Suc k) data" by simp
    have ne: "drop (BUFFER_SIZE * k) data \<noteq> []" using True by simp
    have "(if r1 = OK_COMMUNICATION
        then data_loop server sid (Suc k) (drop (BUFFER_SIZE * Suc k) data) es1 out1
        else (EXIT_COMMUNICATION, es1, out1)) = (r, es', out')"
      using less.prems ne a unfolding data_packet_def chunk_def
      by (subst (asm) data_loop.simps) (simp only: Let_def if_False k d prod.case)
    moreover have "length data - BUFFER_SIZE * Suc k < length data - BUFFER_SIZE * k"
      using True by (simp add: BUFFER_SIZE_def)
    ultimately show ?thesis
      using s less.hyps [of "Suc k" es1 out1] sends_only_trans by (auto split: if_splits)
  qed
qed

lemma udpr_client_sends:
  assumes "handle_udpr_client server sid data es out = (r, es', out')" and "length data < 2 ^ 64"
  shows "sends_only (\<lambda>a p. a = server \<and> client_packet sid data p) out out'"
proof -
  obtain r1 es1 out1 where 1: "conn_loop (Suc MAX_RETRANSMITS) server sid (length data) es out = (r1, es1, out1)"
    using prod_cases3 by blast
  obtain r2 es2 out2 where 2: "data_loop server sid 0 data es1 out1 = (r2, es2, out2)"
    using prod_cases3 by blast
  have "sends_only (\<lambda>a p. a = server \<and> client_packet sid data p) out1 out2"
    using data_loop_sends [of server sid 0 data es1 out1] 2 assms(2) by simp
  with conn_loop_sends [OF 1] sends_only_trans have
    "sends_only (\<lambda>a p. a = server \<and> client_packet sid data p) out out1"
    "sends_only (\<lambda>a p. a = server \<and> client_packet sid data p) out out2" by blast+
  with assms(1) 1 2 show ?thesis
    by (auto simp: handle_udpr_client_def send_conn_packet_and_recv_conacc_retr_def
        send_data_packets_and_recv_acc_retr_def split: if_splits prod.splits simp del: conn_loop.simps)
qed

section \<open>What the server prints\<close>

definition genuine :: "nat \<Rightarrow> nat \<Rightarrow> byte list \<Rightarrow> event list \<Rightarrow> bool" where
  "genuine client sid data es \<longleftrightarrow> (\<forall>b. Packet client b \<in> set es \<longrightarrow> client_packet sid data b)"

lemma genuine_tl: "genuine client sid data (e # es) \<Longrightarrow> genuine client sid data es"
  by (simp add: genuine_def)

lemma chunk_length: "length (chunk data k) \<le> BUFFER_SIZE"
  by (simp add: chunk_def)

lemma data_packet_fields:
  assumes "sid < 2 ^ 64" and "k < 2 ^ 64"
  shows "take MAX_LEN (data_packet sid data k) = data_packet sid data k"
    and "length (data_packet sid data k) = 21 + length (chunk data k)"
    and "data_bytes_len (data_packet sid data k) = length (chunk data k)"
    and "session_id (data_packet sid data k) = sid" and "packet_type (data_packet sid data k) = 4"
    and "packet_number (data_packet sid data k) = k" and "drop 21 (data_packet sid data k) = chunk data k"
proof -
  have c: "length (chunk data k) \<le> 64000" using chunk_length [of data k] by (simp add: BUFFER_SIZE_def)
  then show "take MAX_LEN (data_packet sid data k) = data_packet sid data k"
    by (simp add: data_packet_def MAX_LEN_def)
  show "data_bytes_len (data_packet sid data k) = length (chunk data k)"
    using c by (simp add: data_packet_def)
qed (use assms in \<open>simp_all add: data_packet_def\<close>)

text \<open>A genuine packet that is accepted is the chunk that is expected.\<close>

lemma accepted_is_expected:
  assumes "client_packet sid data p" and "sid < 2 ^ 64" and "length data < 2 ^ 64"
    and "packet_type (take MAX_LEN p) = 4"
  obtains k where "BUFFER_SIZE * k < length data" and "p = data_packet sid data k" and "k < 2 ^ 64"
proof -
  from assms(1) consider proto where "p = CONN_packet sid proto (length data)"
    | k where "BUFFER_SIZE * k < length data" "p = data_packet sid data k"
    unfolding client_packet_def by blast
  then show thesis
  proof cases
    case 1
    then have "take MAX_LEN p = p" by (simp add: MAX_LEN_def)
    with 1 assms(4) show thesis by simp
  next
    case 2
    then have "k < 2 ^ 64" using assms(3) by (simp add: BUFFER_SIZE_def)
    with 2 that show thesis by blast
  qed
qed

lemma recv_data_retr_prints:
  assumes "genuine client sid data es" and "sid < 2 ^ 64" and "length data < 2 ^ 64"
    and "recv_data_packet_retr client sid k read len es out = (r, read', es', out')"
    and "BUFFER_SIZE * k < length data \<Longrightarrow> read + length (chunk data k) \<le> len" and "len \<le> length data"
  shows "genuine client sid data es' \<and>
    (if r = OK_COMMUNICATION
     then BUFFER_SIZE * k < length data \<and> read' = read + length (chunk data k) \<and>
       printed out' = printed (print_data (chunk data k) out)
     else read' = read \<and> printed out' = printed out)"
  using assms(1,4)
proof (induction es arbitrary: out)
  case Nil
  then show ?case by (auto simp: comm_defs)
next
  case (Cons e es)
  note g = genuine_tl [OF Cons.prems(1)]
  have rjt: "printed (send_rjt_packet a s num out) = printed out" for a s num
    using sendto_quiet by (metis prod.collapse send_rjt_packet_def)
  have str: "printed (answer_stranger_retr a b num out) = printed out" for a b num
    using sendto_quiet rjt
    by (auto simp: answer_stranger_retr_def send_conrjt_packet_def split: prod.splits)
  show ?case
  proof (cases e)
    case (Packet a b)
    let ?b = "take MAX_LEN b"
    let ?n = "data_bytes_len ?b"
    show ?thesis
    proof (cases "a = client")
      case False
      with Cons.prems(2) Packet have
        "recv_data_packet_retr client sid k read len es (answer_stranger_retr a ?b k out) = (r, read', es', out')"
        by (simp add: Let_def)
      from Cons.IH [OF g this] show ?thesis by (simp add: print_data_def str split: if_splits)
    next
      case True
      from Cons.prems(2) Packet True consider
        "recv_data_packet_retr client sid k read len es out = (r, read', es', out')"
        | "r = EXIT_COMMUNICATION" "read' = read" "es' = es" "out' = send_rjt_packet client sid k out"
        | "r = OK_COMMUNICATION" "read' = (read + ?n) mod 2 ^ 64" "es' = es" "out' = print_data (drop 21 ?b) out"
          "packet_type ?b = 4" "packet_number ?b = k" "(?n + read) mod 2 ^ 64 \<le> len"
        by (fastforce simp: Let_def not_less split: if_splits)
      then show ?thesis
      proof cases
        case 1
        from Cons.IH [OF g 1] show ?thesis .
      next
        case 2
        with g rjt show ?thesis by (simp add: comm_defs)
      next
        case 3
        have "client_packet sid data b" using Cons.prems(1) Packet True by (simp add: genuine_def)
        from accepted_is_expected [OF this assms(2,3) 3(5)] obtain k' where
          k': "BUFFER_SIZE * k' < length data" "b = data_packet sid data k'" "k' < 2 ^ 64" .
        note f = data_packet_fields [OF assms(2) k'(3), of data]
        have kk: "k' = k" using 3(6) k'(2) f by simp
        have n: "?n = length (chunk data k)" using k'(2) f kk by simp
        have "read + ?n < 2 ^ 64" using assms(5,6) k'(1) kk n assms(3) by simp
        with 3 n k' f kk g show ?thesis by simp
      qed
    qed
  qed (use Cons.prems(2) g in \<open>auto simp: comm_defs\<close>)
qed

end
