(* ===== verification/Ppcb_Safe.thy ===== *)
theory Ppcb_Safe
  imports Ppcb_Transfer
begin

text \<open>
  A session of the server with retransmission prints the data of its client from the start and
  nothing else, and sends the last packet only when everything is printed; a client that comes to its
  end has received that packet.
\<close>

section \<open>A session prints a prefix\<close>

lemma take_chunk: "take (BUFFER_SIZE * k) data @ chunk data k = take (BUFFER_SIZE * Suc k) data"
  by (simp add: chunk_def flip: take_add add.commute)

lemma print_chunk:
  "0 \<notin> set data \<Longrightarrow> printed (print_data (chunk data k) out) = printed out @ chunk data k"
proof -
  assume "0 \<notin> set data"
  then have "\<forall>b\<in>set (chunk data k). b \<noteq> 0" using in_set_takeD in_set_dropD unfolding chunk_def by metis
  then show ?thesis by (simp add: print_data_def takeWhile_eq_all_conv)
qed

lemma acc_loop_step:
  assumes "acc_loop (Suc n) client sid len num read es out = (r, es', out')"
    and "sendto client (ACC_packet sid num) out = (ok, out1)"
    and "recv_data_packet_retr client sid ((num + 1) mod 2 ^ 64) read len es out1 = (r2, read2, es2, out2)"
  shows "\<not> ok \<and> r = EXIT_COMMUNICATION \<and> out' = out1 \<or>
    ok \<and> read = len \<and> r = OK_COMMUNICATION \<and> out' = out1 \<or>
    ok \<and> read \<noteq> len \<and> r2 = OK_COMMUNICATION \<and>
      acc_loop (Suc MAX_RETRANSMITS) client sid len ((num + 1) mod 2 ^ 64) read2 es2 out2 = (r, es', out') \<or>
    ok \<and> read \<noteq> len \<and> r2 = TIMEOUT_COMMUNICATION \<and>
      acc_loop n client sid len num read2 es2 out2 = (r, es', out') \<or>
    ok \<and> read \<noteq> len \<and> r2 \<noteq> OK_COMMUNICATION \<and> r = EXIT_COMMUNICATION \<and> out' = out2"
  using assms by (subst (asm) acc_loop.simps) (auto split: if_splits)

text \<open>What holds of a state and is kept by every packet that is taken holds at the end.\<close>

lemma acc_loop_rule:
  assumes "acc_loop n client sid len num read es out = (r, es', out')" and "I num read es out"
    and "\<And>num read es out ok out1. I num read es out \<Longrightarrow> sendto client (ACC_packet sid num) out = (ok, out1) \<Longrightarrow>
      I num read es out1"
    and "\<And>num read es out r2 read2 es2 out2. I num read es out \<Longrightarrow> read \<noteq> len \<Longrightarrow>
      recv_data_packet_retr client sid ((num + 1) mod 2 ^ 64) read len es out = (r2, read2, es2, out2) \<Longrightarrow>
      I (if r2 = OK_COMMUNICATION then (num + 1) mod 2 ^ 64 else num) read2 es2 out2"
  shows "\<exists>num' read' es''. I num' read' es'' out' \<and> (r = OK_COMMUNICATION \<longrightarrow> read' = len)"
  using assms(1,2)
proof (induction n client\<equiv>client sid\<equiv>sid len\<equiv>len num read es out rule: acc_loop.induct)
  case (1 num read es out)
  then show ?case by (auto simp: acc_loop.simps comm_defs)
next
  case (2 n num read es out)
  obtain ok out1 where o: "sendto client (ACC_packet sid num) out = (ok, out1)" by fastforce
  obtain r2 read2 es2 out2 where
    d: "recv_data_packet_retr client sid ((num + 1) mod 2 ^ 64) read len es out1 = (r2, read2, es2, out2)"
    using prod_cases4 by blast
  have i1: "I num read es out1" by (rule assms(3) [OF "2.prems"(2) o])
  from acc_loop_step [OF "2.prems"(1) o d] consider
    "\<not> ok" "r = EXIT_COMMUNICATION" "out' = out1" | "ok" "read = len" "r = OK_COMMUNICATION" "out' = out1"
    | "ok" "read \<noteq> len" "r2 = OK_COMMUNICATION"
      "acc_loop (Suc MAX_RETRANSMITS) client sid len ((num + 1) mod 2 ^ 64) read2 es2 out2 = (r, es', out')"
    | "ok" "read \<noteq> len" "r2 = TIMEOUT_COMMUNICATION" "acc_loop n client sid len num read2 es2 out2 = (r, es', out')"
    | "ok" "read \<noteq> len" "r2 \<noteq> OK_COMMUNICATION" "r = EXIT_COMMUNICATION" "out' = out2" by blast
  then show ?case
  proof cases
    case 1
    with i1 show ?thesis by (auto simp: comm_defs)
  next
    case 2
    with i1 show ?thesis by blast
  next
    case 3
    have "I ((num + 1) mod 2 ^ 64) read2 es2 out2" using assms(4) [OF i1 3(2) d] 3(3) by simp
    from "2.hyps"(1) [OF o [symmetric] _ 3(2) d [symmetric] refl refl 3(3,4) this] 3(1) show ?thesis by simp
  next
    case 4
    have "I num read2 es2 out2" using assms(4) [OF i1 4(2) d] 4(3) by (simp add: comm_defs)
    from "2.hyps"(2) [OF o [symmetric] _ 4(2) d [symmetric] refl refl _ 4(3,4) this] 4(1,3) show ?thesis
      by (simp add: comm_defs)
  next
    case 5
    have "I num read2 es2 out2" using assms(4) [OF i1 5(2) d] 5(3) by simp
    with 5 show ?thesis by (auto simp: comm_defs)
  qed
qed

lemma acc_loop_result: "acc_loop n client sid len num read es out = (r, es', out') \<Longrightarrow>
    r = OK_COMMUNICATION \<or> r = EXIT_COMMUNICATION"
proof (induction n client sid len num read es out rule: acc_loop.induct)
  case (2 n client sid len num read es out)
  obtain ok out1 where o: "sendto client (ACC_packet sid num) out = (ok, out1)" by fastforce
  obtain r2 read2 es2 out2 where
    d: "recv_data_packet_retr client sid ((num + 1) mod 2 ^ 64) read len es out1 = (r2, read2, es2, out2)"
    using prod_cases4 by blast
  from acc_loop_step [OF "2.prems" o d] "2.IH" o d show ?case by (auto simp: comm_defs)
qed (auto simp: acc_loop.simps)

lemma conacc_loop_result: "conacc_loop n client sid len es out = (r, read, es', out') \<Longrightarrow>
    r = OK_COMMUNICATION \<or> r = EXIT_COMMUNICATION"
  by (induction n arbitrary: es out) (auto split: prod.splits if_splits)

lemma acc_loop_prints:
  assumes "acc_loop n client sid len num read es out = (r, es', out')"
    and "genuine client sid data es" and "sid < 2 ^ 64" and "length data < 2 ^ 64" and "0 \<notin> set data"
    and "first + len = length data" and "first + read = min (BUFFER_SIZE * Suc num) (length data)"
    and "BUFFER_SIZE * num < length data" and "printed out = take (BUFFER_SIZE * Suc num) data"
  shows "(\<exists>m. printed out' = take m data) \<and> (r = OK_COMMUNICATION \<longrightarrow> printed out' = data)"
proof -
  let ?I = "\<lambda>num read es out. genuine client sid data es \<and> BUFFER_SIZE * num < length data \<and>
    first + read = min (BUFFER_SIZE * Suc num) (length data) \<and> printed out = take (BUFFER_SIZE * Suc num) data"
  have "\<exists>num' read' es''. ?I num' read' es'' out' \<and> (r = OK_COMMUNICATION \<longrightarrow> read' = len)"
  proof (rule acc_loop_rule [OF assms(1), where I = ?I])
    show "?I num read es out" using assms by blast
  next
    fix num read es out ok out1
    assume "?I num read es out" "sendto client (ACC_packet sid num) out = (ok, out1)"
    then show "?I num read es out1" using sendto_quiet by metis
  next
    fix num read es out r2 read2 es2 out2
    assume i: "?I num read es out" and "read \<noteq> len"
      and d: "recv_data_packet_retr client sid ((num + 1) mod 2 ^ 64) read len es out = (r2, read2, es2, out2)"
    have num: "(num + 1) mod 2 ^ 64 = Suc num" using i assms(4) by (simp add: BUFFER_SIZE_def)
    have room: "read + length (chunk data (Suc num)) \<le> len" if "BUFFER_SIZE * Suc num < length data"
      using that i assms(6) by (auto simp: chunk_def min_def)
    have len: "len \<le> length data" using assms(6) by simp
    have g: "genuine client sid data es" using i by blast
    from recv_data_retr_prints [OF g assms(3,4) d [unfolded num] room len]
    have "genuine client sid data es2 \<and>
      (if r2 = OK_COMMUNICATION
       then BUFFER_SIZE * Suc num < length data \<and> read2 = read + length (chunk data (Suc num)) \<and>
         printed out2 = printed out @ chunk data (Suc num)
       else read2 = read \<and> printed out2 = printed out)"
      by (simp add: print_chunk [OF assms(5)] del: mult_Suc_right)
    moreover have "length (chunk data (Suc num)) = min BUFFER_SIZE (length data - BUFFER_SIZE * Suc num)"
      by (simp add: chunk_def min.commute)
    ultimately show "?I (if r2 = OK_COMMUNICATION then (num + 1) mod 2 ^ 64 else num) read2 es2 out2"
      using i num take_chunk [of "Suc num" data] by (auto simp: min_def)
  qed
  then obtain num' read' where i: "first + read' = min (BUFFER_SIZE * Suc num') (length data)"
    "printed out' = take (BUFFER_SIZE * Suc num') data" "r = OK_COMMUNICATION \<longrightarrow> read' = len" by blast
  have "printed out' = data" if "r = OK_COMMUNICATION"
    using i that assms(6) by (simp add: min_def split: if_splits)
  with i(2) show ?thesis by blast
qed

lemma conacc_loop_prints:
  assumes "conacc_loop n client sid (length data) es out = (r, read, es', out')"
    and "genuine client sid data es" and "sid < 2 ^ 64" and "length data < 2 ^ 64" and "0 \<notin> set data"
    and "printed out = []"
  shows "if r = OK_COMMUNICATION
    then data \<noteq> [] \<and> read = min BUFFER_SIZE (length data) \<and> genuine client sid data es' \<and>
      printed out' = take BUFFER_SIZE data
    else printed out' = []"
  using assms(1,2,6)
proof (induction n arbitrary: es out)
  case 0
  then show ?case by (auto simp: comm_defs)
next
  case (Suc n)
  obtain ok out1 where o: "sendto client (CONACC_packet sid) out = (ok, out1)" by fastforce
  have p: "printed out1 = []" using sendto_quiet [OF o] Suc.prems(3) by simp
  obtain r2 read2 es2 out2 where d: "recv_data_packet_retr client sid 0 0 (length data) es out1 = (r2, read2, es2, out2)"
    using prod_cases4 by blast
  have c: "chunk data 0 = take BUFFER_SIZE data" by (simp add: chunk_def)
  from recv_data_retr_prints [OF Suc.prems(2) assms(3,4) d] have
    i: "genuine client sid data es2 \<and> (if r2 = OK_COMMUNICATION
       then data \<noteq> [] \<and> read2 = min BUFFER_SIZE (length data) \<and> printed out2 = take BUFFER_SIZE data
       else printed out2 = [])"
    using print_chunk [OF assms(5), of 0 out1] p c by (simp add: chunk_length min.commute split: if_splits)
  show ?case
    using Suc.prems(1) o d i p Suc.IH [of es2 out2] by (auto simp: comm_defs split: if_splits)
qed

section \<open>The last packet\<close>

lemma recv_data_retr_sends:
  assumes "recv_data_packet_retr client sid k read len es out = (r, read', es', out')"
  shows "sends_only (\<lambda>a p. packet_type p \<noteq> 7) out out'"
  using assms
proof (induction es arbitrary: out)
  case (Cons e es)
  have rjt: "sends_only (\<lambda>a p. packet_type p \<noteq> 7) out (send_rjt_packet a s num out)" for a s num out
    using sends_only_sendto [where P = "\<lambda>a p. packet_type p \<noteq> 7"]
    by (metis prod.collapse send_rjt_packet_def packet_types(6) numeral_eq_iff num.distinct(5) num.inject(2))
  have str: "sends_only (\<lambda>a p. packet_type p \<noteq> 7) out (answer_stranger_retr a b num out)" for a b num out
    using rjt sends_only_sendto [where P = "\<lambda>a p. packet_type p \<noteq> 7" and b = "CONRJT_packet s" for s]
    by (auto simp: answer_stranger_retr_def send_conrjt_packet_def split: prod.splits)
  show ?case
  proof (cases e)
    case (Packet a b)
    from Cons.prems Packet consider
      "recv_data_packet_retr client sid k read len es (answer_stranger_retr a (take MAX_LEN b) k out) = (r, read', es', out')"
      | "recv_data_packet_retr client sid k read len es out = (r, read', es', out')"
      | "out' = send_rjt_packet client sid k out" | "sent out' = sent out"
      by (fastforce simp: Let_def print_data_def split: if_splits)
    then show ?thesis
    proof cases
      case 1
      from Cons.IH [OF 1] str sends_only_trans show ?thesis by blast
    next
      case 2
      from Cons.IH [OF 2] show ?thesis .
    next
      case 3
      with rjt show ?thesis by simp
    next
      case 4
      then show ?thesis by (auto simp: sends_only_def)
    qed
  qed (use Cons.prems in auto)
qed auto

definition no_receipt :: "traffic \<Rightarrow> bool" where
  "no_receipt out \<longleftrightarrow> (\<forall>(a, p)\<in>set (sent out). packet_type p \<noteq> 7)"

lemma no_receipt_sends: "no_receipt out \<Longrightarrow> sends_only (\<lambda>a p. packet_type p \<noteq> 7) out out' \<Longrightarrow> no_receipt out'"
  by (fastforce simp: no_receipt_def sends_only_def)

lemma no_receipt_sendto: "no_receipt out \<Longrightarrow> sendto a p out = (ok, out') \<Longrightarrow> packet_type p \<noteq> 7 \<Longrightarrow> no_receipt out'"
  using sendto_sent by (fastforce simp: no_receipt_def)

lemma conacc_loop_receipt:
  "conacc_loop n client sid len es out = (r, read, es', out') \<Longrightarrow> no_receipt out \<Longrightarrow> no_receipt out'"
proof (induction n arbitrary: es out)
  case (Suc n)
  obtain ok out1 where o: "sendto client (CONACC_packet sid) out = (ok, out1)" by fastforce
  obtain r2 read2 es2 out2 where d: "recv_data_packet_retr client sid 0 0 len es out1 = (r2, read2, es2, out2)"
    using prod_cases4 by blast
  have "no_receipt out1" by (rule no_receipt_sendto [OF Suc.prems(2) o]) simp
  moreover from this have "no_receipt out2" by (rule no_receipt_sends [OF _ recv_data_retr_sends [OF d]])
  ultimately show ?case using Suc.prems(1) o d Suc.IH by (auto split: if_splits)
qed simp

lemma acc_loop_receipt:
  assumes "acc_loop n client sid len num read es out = (r, es', out')" and "no_receipt out"
  shows "no_receipt out'"
proof -
  have "\<exists>(num' :: nat) read' (es'' :: event list). no_receipt out' \<and> (r = OK_COMMUNICATION \<longrightarrow> read' = len)"
    by (rule acc_loop_rule [OF assms(1), where I = "\<lambda>num read es out. no_receipt out"])
      (use assms(2) in \<open>auto intro: no_receipt_sendto no_receipt_sends recv_data_retr_sends\<close>)
  then show ?thesis by blast
qed

text \<open>What a client that has come to its end has seen.\<close>

lemma rcvd_retr_packet:
  "recv_rcvd_packet_with_retr server sid es = (OK_COMMUNICATION, es') \<Longrightarrow>
    \<exists>b. Packet server b \<in> set es \<and> packet_type b = 7"
proof (induction server sid es rule: recv_rcvd_packet_with_retr.induct)
  case (2 server sid a b es)
  have "packet_type (take 17 b) = packet_type b" by (cases b) (auto simp: packet_type_def)
  with 2 show ?case by (fastforce simp: Let_def comm_defs split: if_splits)
qed (auto simp: comm_defs)

lemma conacc_retr_rest: "recv_conacc_packet_retr server sid es = (r, es') \<Longrightarrow> set es' \<subseteq> set es"
  by (induction server sid es rule: recv_conacc_packet_retr.induct) (auto simp: Let_def split: if_splits)

lemma acc_retr_rest: "recv_acc_packet_retr server sid num es = (r, es') \<Longrightarrow> set es' \<subseteq> set es"
  by (induction server sid num es rule: recv_acc_packet_retr.induct) (auto simp: Let_def split: if_splits)

lemma conn_loop_rest: "conn_loop n server sid len es out = (r, es', out') \<Longrightarrow> set es' \<subseteq> set es"
proof (induction n arbitrary: es out)
  case (Suc n)
  obtain ok out1 where o: "sendto server (CONN_packet sid udpr_protocol_id len) out = (ok, out1)" by fastforce
  obtain r1 es1 where c: "recv_conacc_packet_retr server sid es = (r1, es1)" by fastforce
  from Suc.prems Suc.IH [of es1 out1] conacc_retr_rest [OF c] o c show ?case by (auto split: if_splits)
qed simp

lemma data_attempts_rest: "data_attempts n server sid num p es out = (r, es', out') \<Longrightarrow> set es' \<subseteq> set es"
proof (induction n arbitrary: es out)
  case (Suc n)
  obtain ok out1 where o: "sendto server p out = (ok, out1)" by fastforce
  obtain r1 es1 where c: "recv_acc_packet_retr server sid num es = (r1, es1)" by fastforce
  from Suc.prems Suc.IH [of es1 out1] acc_retr_rest [OF c] o c show ?case by (auto split: if_splits)
qed simp

lemma data_loop_rest: "data_loop server sid num data es out = (r, es', out') \<Longrightarrow> set es' \<subseteq> set es"
proof (induction server sid num data es out rule: data_loop.induct)
  case (1 server sid num data es out)
  obtain r1 es1 out1 where a: "data_attempts (Suc MAX_RETRANSMITS) server sid num
      (DATA_header sid num (length (take BUFFER_SIZE data)) @ take BUFFER_SIZE data) es out = (r1, es1, out1)"
    using prod_cases3 by blast
  note rest = data_attempts_rest [OF a]
  show ?case
  proof (cases "data = []")
    case True
    with "1.prems" show ?thesis by (subst (asm) data_loop.simps) simp
  next
    case False
    note IH = "1.IH" [OF False refl a [symmetric] refl]
    from "1.prems" False a have "(if r1 = OK_COMMUNICATION
        then data_loop server sid ((num + 1) mod 2 ^ 64) (drop BUFFER_SIZE data) es1 out1
        else (EXIT_COMMUNICATION, es1, out1)) = (r, es', out')"
      by (subst (asm) data_loop.simps) (simp only: Let_def if_False prod.case)
    with IH rest show ?thesis by (auto split: if_splits)
  qed
qed

lemma udpr_client_receipt:
  assumes "handle_udpr_client server sid data es out = (OK_COMMUNICATION, es', out')"
  shows "\<exists>b. Packet server b \<in> set es \<and> packet_type b = 7"
proof -
  obtain r1 es1 out1 where 1: "conn_loop (Suc MAX_RETRANSMITS) server sid (length data) es out = (r1, es1, out1)"
    using prod_cases3 by blast
  obtain r2 es2 out2 where 2: "data_loop server sid 0 data es1 out1 = (r2, es2, out2)"
    using prod_cases3 by blast
  have "recv_rcvd_packet_with_retr server sid es2 = (OK_COMMUNICATION, es')"
    using assms 1 2 by (auto simp: handle_udpr_client_def send_conn_packet_and_recv_conacc_retr_def comm_defs
        send_data_packets_and_recv_acc_retr_def split: if_splits prod.splits simp del: conn_loop.simps)
  from rcvd_retr_packet [OF this] conn_loop_rest [OF 1] data_loop_rest [OF 2] show ?thesis by blast
qed

text \<open>A whole session.\<close>

lemma udpr_session_prints:
  assumes "udpr_session client sid (length data) es out = (es', out')"
    and "genuine client sid data es" and "sid < 2 ^ 64" and "length data < 2 ^ 64" and "0 \<notin> set data"
    and "printed out = []" and "no_receipt out"
  shows "(\<exists>m. printed out' = take m data) \<and> (\<not> no_receipt out' \<longrightarrow> data \<noteq> [] \<and> printed out' = data)"
proof -
  obtain r1 first es1 out1 where
    1: "conacc_loop (Suc MAX_RETRANSMITS) client sid (length data) es out = (r1, first, es1, out1)"
    using prod_cases4 by blast
  obtain r2 es2 out2 where
    2: "acc_loop (Suc MAX_RETRANSMITS) client sid (length data - first) 0 0 es1 out1 = (r2, es2, out2)"
    using prod_cases3 by blast
  note p1 = conacc_loop_prints [OF 1 assms(2-6)]
  note n1 = conacc_loop_receipt [OF 1 assms(7)]
  have s: "(if r1 = EXIT_COMMUNICATION then (es1, out1)
      else if r2 = EXIT_COMMUNICATION then (es2, out2) else (es2, send_rcvd_packet client sid out2)) = (es', out')"
    using assms(1) 1 2 by (cases "r1 = EXIT_COMMUNICATION") (simp_all add: udpr_session_def
        send_conacc_packet_and_recv_data_packet_def send_acc_packet_and_recv_data_packet_def del: conacc_loop.simps)
  have r: "r1 = OK_COMMUNICATION \<or> r1 = EXIT_COMMUNICATION" using conacc_loop_result [OF 1] .
  have r': "r2 = OK_COMMUNICATION \<or> r2 = EXIT_COMMUNICATION" using acc_loop_result [OF 2] .
  show ?thesis
  proof (cases "r1 = OK_COMMUNICATION")
    case False
    with s r p1 n1 show ?thesis by (auto intro: exI [of _ 0])
  next
    case True
    with p1 have p: "data \<noteq> []" "first = min BUFFER_SIZE (length data)" "genuine client sid data es1"
      "printed out1 = take BUFFER_SIZE data" by simp_all
    from acc_loop_prints [OF 2 p(3) assms(3-5), of first] p have
      a: "(\<exists>m. printed out2 = take m data) \<and> (r2 = OK_COMMUNICATION \<longrightarrow> printed out2 = data)" by simp
    have q: "printed (send_rcvd_packet client sid out2) = printed out2"
      using sendto_quiet by (metis prod.collapse send_rcvd_packet_def)
    have "printed out' = printed out2"
      using s q True by (auto simp: comm_defs split: if_splits)
    moreover have "r2 = OK_COMMUNICATION" if "\<not> no_receipt out'"
      using s that True r' acc_loop_receipt [OF 2 n1] by (auto simp: comm_defs split: if_splits)
    ultimately show ?thesis using a p(1) by metis
  qed
qed

end
