(* ===== verification/Ppcb_Live.thy ===== *)
theory Ppcb_Live
  imports Ppcb_Safe
begin

text \<open>
  Retransmission: as long as no packet is lost more often in a row than the programs send it again, the
  transfer comes to its end. A loss is seen as a timeout of the side that waits; the packets that are sent
  again after it may all arrive, before or after the one that is awaited, where the other side passes over them.
\<close>

definition chunks :: "byte list \<Rightarrow> nat" where
  "chunks data = (length data + BUFFER_SIZE - 1) div BUFFER_SIZE"

lemma chunks_iff: "k < chunks data \<longleftrightarrow> BUFFER_SIZE * k < length data"
  by (simp add: chunks_def BUFFER_SIZE_def less_eq_div_iff_mult_less_eq Suc_le_eq [symmetric] del: Suc_le_eq) linarith

text \<open>What comes before the packet that is awaited: at most \<open>n\<close> timeouts, and packets to be passed over.\<close>

definition waits :: "nat \<Rightarrow> (event \<Rightarrow> bool) \<Rightarrow> event list \<Rightarrow> bool" where
  "waits n skip ws \<longleftrightarrow> length (filter (\<lambda>e. e = Timeout) ws) \<le> n \<and> (\<forall>e\<in>set ws. e = Timeout \<or> skip e)"

lemma waits_simps [simp]:
  "waits n skip []"
  "waits n skip (Timeout # ws) \<longleftrightarrow> (\<exists>m. n = Suc m \<and> waits m skip ws)"
  "e \<noteq> Timeout \<Longrightarrow> waits n skip (e # ws) \<longleftrightarrow> skip e \<and> waits n skip ws"
  by (cases n; auto simp: waits_def)+

lemma waits_cases [consumes 1, case_names none timeout skip]:
  assumes "waits n skip ws"
  obtains "ws = []" | m ws' where "ws = Timeout # ws'" and "n = Suc m" and "waits m skip ws'"
  | e ws' where "ws = e # ws'" and "skip e" and "e \<noteq> Timeout" and "waits n skip ws'"
proof (cases ws)
  case (Cons e ws')
  with assms that show thesis by (cases "e = Timeout") auto
qed (use that in blast)

lemma waits_packet: "waits n skip ws \<Longrightarrow> Packet a p \<in> set ws \<Longrightarrow> skip (Packet a p)"
  by (auto simp: waits_def)

definition late :: "event list \<Rightarrow> nat \<Rightarrow> byte list \<Rightarrow> event list" where
  "late ws a p = ws @ [Packet a p]"

lemma late_simps [simp]: "late [] a p = [Packet a p]" "late (e # ws) a p = e # late ws a p"
  by (simp_all add: late_def)

text \<open>A client that waits for an acknowledgement passes over older ones that are repeated, and over a
  repeated CONACC while it waits for the first one; at the end it passes over all acknowledgements.\<close>

fun old_ack :: "nat \<Rightarrow> nat \<Rightarrow> nat \<Rightarrow> event \<Rightarrow> bool" where
  "old_ack server sid k (Packet a p) \<longleftrightarrow> a = server \<and>
     (p \<in> ACC_packet sid ` {..<k} \<or> k = 0 \<and> p = CONACC_packet sid)"
| "old_ack server sid k e \<longleftrightarrow> False"

fun any_ack :: "nat \<Rightarrow> nat \<Rightarrow> nat \<Rightarrow> event \<Rightarrow> bool" where
  "any_ack server sid n (Packet a p) \<longleftrightarrow> a = server \<and> p \<in> ACC_packet sid ` {..<n}"
| "any_ack server sid n e \<longleftrightarrow> False"

text \<open>A server that waits for the first chunk passes over a repeated CONN; one that waits for a later
  chunk passes over older ones that are repeated, but only when the chunk it waits for is a full one.\<close>

fun old_data :: "nat \<Rightarrow> nat \<Rightarrow> byte list \<Rightarrow> nat \<Rightarrow> event \<Rightarrow> bool" where
  "old_data client sid data k (Packet a p) \<longleftrightarrow> a = client \<and>
     (p \<in> data_packet sid data ` {..<k} \<and> BUFFER_SIZE * Suc k \<le> length data \<or>
      k = 0 \<and> p = CONN_packet sid udpr_protocol_id (length data))"
| "old_data client sid data k e \<longleftrightarrow> False"

text \<open>The packets from \<open>k\<close> on, each after what comes before it.\<close>

definition acks_from :: "nat \<Rightarrow> nat \<Rightarrow> byte list \<Rightarrow> (nat \<Rightarrow> event list) \<Rightarrow> nat \<Rightarrow> event list" where
  "acks_from server sid data u k = concat (map (\<lambda>j. late (u j) server (ACC_packet sid j)) [k..<chunks data])"

definition datas_from :: "nat \<Rightarrow> nat \<Rightarrow> byte list \<Rightarrow> (nat \<Rightarrow> event list) \<Rightarrow> nat \<Rightarrow> event list" where
  "datas_from client sid data v k = concat (map (\<lambda>j. late (v j) client (data_packet sid data j)) [k..<chunks data])"

definition all_sent :: "traffic \<Rightarrow> traffic \<Rightarrow> nat \<Rightarrow> byte list set \<Rightarrow> bool" where
  "all_sent out out' a ps \<longleftrightarrow> sends out' = [] \<and> set (sent out) \<subseteq> set (sent out') \<and> (\<forall>p\<in>ps. (a, p) \<in> set (sent out'))"

lemma sendto_all: "sends out = [] \<Longrightarrow> \<exists>out1. sendto a p out = (True, out1) \<and> all_sent out out1 a {p}"
  by (auto simp: sendto_def all_sent_def)

lemma all_sent_trans: "all_sent out out1 a ps \<Longrightarrow> all_sent out1 out2 a qs \<Longrightarrow> all_sent out out2 a (ps \<union> qs)"
  by (auto simp: all_sent_def)

lemma all_sent_again: "all_sent out out1 a ps \<Longrightarrow> all_sent out1 out2 a ps \<Longrightarrow> all_sent out out2 a ps"
  by (auto simp: all_sent_def)

lemma all_sent_sends: "all_sent out out' a ps \<Longrightarrow> sends out' = []"
  by (simp add: all_sent_def)

section \<open>The client\<close>

lemma conacc_accepted: "sid < 2 ^ 64 \<Longrightarrow>
  recv_conacc_packet_retr server sid (Packet server (CONACC_packet sid) # es) = (OK_COMMUNICATION, es)"
  by (simp add: Let_def)

lemma acc_accepted: "sid < 2 ^ 64 \<Longrightarrow> k < 2 ^ 64 \<Longrightarrow>
  recv_acc_packet_retr server sid k (Packet server (ACC_packet sid k) # es) = (OK_COMMUNICATION, es)"
  by (simp add: Let_def)

lemma conn_loop_returns:
  assumes "waits n (\<lambda>_. False) ws" and "sends out = []" and "sid < 2 ^ 64"
  shows "\<exists>out'. conn_loop (Suc n) server sid len (late ws server (CONACC_packet sid) @ es) out = (OK_COMMUNICATION, es, out') \<and>
    all_sent out out' server {CONN_packet sid udpr_protocol_id len}"
  using assms(1,2)
proof (induction ws arbitrary: n out)
  case Nil
  from sendto_all [OF Nil(2)] obtain out1 where
    "sendto server (CONN_packet sid udpr_protocol_id len) out = (True, out1)"
    "all_sent out out1 server {CONN_packet sid udpr_protocol_id len}" by blast
  with conacc_accepted [OF assms(3)] show ?case by (simp del: recv_conacc_packet_retr.simps)
next
  case (Cons e ws)
  from Cons.prems(1) obtain m where m: "e = Timeout" "n = Suc m" "waits m (\<lambda>_. False) ws"
    by (cases rule: waits_cases) auto
  from sendto_all [OF Cons.prems(2)] obtain out1 where
    o: "sendto server (CONN_packet sid udpr_protocol_id len) out = (True, out1)"
    "all_sent out out1 server {CONN_packet sid udpr_protocol_id len}" by blast
  from Cons.IH [OF m(3) all_sent_sends [OF o(2)]] obtain out' where
    "conn_loop (Suc m) server sid len (late ws server (CONACC_packet sid) @ es) out1 = (OK_COMMUNICATION, es, out')"
    "all_sent out1 out' server {CONN_packet sid udpr_protocol_id len}" by blast
  with o m(1,2) all_sent_again [OF o(2)] show ?case
    by (subst conn_loop.simps) (simp add: comm_defs del: conn_loop.simps)
qed

lemma old_ack_skipped:
  assumes "old_ack server sid k e" and "sid < 2 ^ 64" and "k < 2 ^ 64"
  shows "recv_acc_packet_retr server sid k (e # es) = recv_acc_packet_retr server sid k es"
proof -
  from assms(1) obtain p where e: "e = Packet server p"
    and "p \<in> ACC_packet sid ` {..<k} \<or> k = 0 \<and> p = CONACC_packet sid" by (cases e) auto
  then consider i where "i < k" "p = ACC_packet sid i" | "k = 0" "p = CONACC_packet sid" by blast
  then show ?thesis
  proof cases
    case (1 i)
    then have "packet_number p = i" using assms(3) by simp
    with 1 e assms(2) show ?thesis by (simp add: Let_def)
  qed (simp add: e Let_def)
qed

lemma any_ack_skipped:
  "any_ack server sid n e \<Longrightarrow> recv_rcvd_packet_with_retr server sid (e # es) = recv_rcvd_packet_with_retr server sid es"
  by (cases e) (auto simp: Let_def)

lemma rcvd_accepted:
  assumes "waits 0 (any_ack server sid n) ws" and "sid < 2 ^ 64"
  shows "recv_rcvd_packet_with_retr server sid (late ws server (RCVD_packet sid)) = (OK_COMMUNICATION, [])"
  using assms(1)
proof (induction ws)
  case Nil
  with assms(2) show ?case by (simp add: Let_def)
next
  case (Cons e ws)
  from Cons.prems show ?case
  proof (cases rule: waits_cases)
    case (skip e' ws')
    with Cons.IH any_ack_skipped show ?thesis by (simp only: late_simps list.inject)
  qed simp_all
qed

lemma data_attempts_returns:
  assumes "waits n (old_ack server sid k) ws" and "sends out = []" and "sid < 2 ^ 64" and "k < 2 ^ 64"
  shows "\<exists>out'. data_attempts (Suc n) server sid k p (late ws server (ACC_packet sid k) @ es) out = (OK_COMMUNICATION, es, out') \<and>
    all_sent out out' server {p}"
  using assms(1,2)
proof (induction ws arbitrary: n out)
  case Nil
  from sendto_all [OF Nil(2)] obtain out1 where "sendto server p out = (True, out1)" "all_sent out out1 server {p}"
    by blast
  with acc_accepted [OF assms(3,4)] show ?case by (simp del: recv_acc_packet_retr.simps)
next
  case (Cons e ws)
  from sendto_all [OF Cons.prems(2)] obtain out1 where
    o: "sendto server p out = (True, out1)" "all_sent out out1 server {p}" by blast
  from Cons.prems(1) show ?case
  proof (cases rule: waits_cases)
    case (timeout m ws')
    with Cons.IH [OF _ all_sent_sends [OF o(2)], of m] obtain out' where
      "data_attempts (Suc m) server sid k p (late ws server (ACC_packet sid k) @ es) out1 = (OK_COMMUNICATION, es, out')"
      "all_sent out1 out' server {p}" by auto
    with o timeout all_sent_again [OF o(2)] show ?thesis
      by (subst data_attempts.simps) (simp add: comm_defs del: data_attempts.simps)
  next
    case (skip e' ws')
    then have "data_attempts (Suc n) server sid k p (late (e # ws) server (ACC_packet sid k) @ es) out =
        data_attempts (Suc n) server sid k p (late ws server (ACC_packet sid k) @ es) out"
      using old_ack_skipped [OF _ assms(3,4), of server e] o(1)
      by (simp only: data_attempts.simps late_simps append_Cons list.inject prod.case simp_thms if_False)
    with Cons.IH [OF _ Cons.prems(2), of n] skip show ?thesis by auto
  qed simp
qed

lemma acks_from_step:
  "k < chunks data \<Longrightarrow> acks_from server sid data u k =
    late (u k) server (ACC_packet sid k) @ acks_from server sid data u (Suc k)"
  by (simp add: acks_from_def upt_conv_Cons)

lemma datas_from_step:
  "k < chunks data \<Longrightarrow> datas_from client sid data v k =
    late (v k) client (data_packet sid data k) @ datas_from client sid data v (Suc k)"
  by (simp add: datas_from_def upt_conv_Cons)

lemma froms_end [simp]:
  "\<not> k < chunks data \<Longrightarrow> acks_from server sid data u k = []" "\<not> k < chunks data \<Longrightarrow> datas_from client sid data v k = []"
  by (simp_all add: acks_from_def datas_from_def)

lemma from_insert: "k < (n :: nat) \<Longrightarrow> {k..<n} = insert k {Suc k..<n}"
  by auto

lemma data_loop_returns:
  assumes "\<forall>j. waits MAX_RETRANSMITS (old_ack server sid j) (u j)" and "sends out = []" and "sid < 2 ^ 64" and "length data < 2 ^ 64"
  shows "\<exists>out'. data_loop server sid k (drop (BUFFER_SIZE * k) data) (acks_from server sid data u k @ es) out =
      (OK_COMMUNICATION, es, out') \<and>
    all_sent out out' server (data_packet sid data ` {k..<chunks data})"
  using assms(2)
proof (induction "chunks data - k" arbitrary: k out rule: less_induct)
  case less
  show ?case
  proof (cases "k < chunks data")
    case False
    then have "data_packet sid data ` {k..<chunks data} = {}" "length data \<le> BUFFER_SIZE * k" by (auto simp: chunks_iff)
    with False less.prems show ?thesis by (subst data_loop.simps) (simp add: all_sent_def)
  next
    case True
    then have b: "BUFFER_SIZE * k < length data" by (simp add: chunks_iff)
    then have k: "k < 2 ^ 64" "(k + 1) mod 2 ^ 64 = Suc k" using assms(4) by (simp_all add: BUFFER_SIZE_def)
    obtain out1 where a: "data_attempts (Suc MAX_RETRANSMITS) server sid k (data_packet sid data k)
        (late (u k) server (ACC_packet sid k) @ acks_from server sid data u (Suc k) @ es) out =
        (OK_COMMUNICATION, acks_from server sid data u (Suc k) @ es, out1)" "all_sent out out1 server {data_packet sid data k}"
      using data_attempts_returns [OF _ less.prems assms(3) k(1)] assms(1) by blast
    have "chunks data - Suc k < chunks data - k" using True by simp
    from less.hyps [OF this all_sent_sends [OF a(2)]] obtain out' where
      l: "data_loop server sid (Suc k) (drop (BUFFER_SIZE * Suc k) data)
        (acks_from server sid data u (Suc k) @ es) out1 = (OK_COMMUNICATION, es, out')"
        "all_sent out1 out' server (data_packet sid data ` {Suc k..<chunks data})"
      by blast
    have d: "drop BUFFER_SIZE (drop (BUFFER_SIZE * k) data) = drop (BUFFER_SIZE * Suc k) data" by simp
    have ne: "drop (BUFFER_SIZE * k) data \<noteq> []" using b by simp
    have "data_loop server sid k (drop (BUFFER_SIZE * k) data) (acks_from server sid data u k @ es) out =
        (OK_COMMUNICATION, es, out')"
      using ne a(1) l(1) unfolding data_packet_def chunk_def acks_from_step [OF True]
      by (subst data_loop.simps) (simp only: Let_def if_False if_True simp_thms k d prod.case append_assoc)
    moreover have eq: "{data_packet sid data k} \<union> data_packet sid data ` {Suc k..<chunks data} =
        data_packet sid data ` {k..<chunks data}"
      unfolding from_insert [OF True] image_insert by (rule insert_is_Un [symmetric])
    moreover have "all_sent out out' server (data_packet sid data ` {k..<chunks data})"
      using all_sent_trans [OF a(2) l(2)] by (simp only: eq)
    ultimately show ?thesis by blast
  qed
qed

section \<open>The server\<close>

lemma data_accepted:
  assumes "sid < 2 ^ 64" and "length data < 2 ^ 64" and "BUFFER_SIZE * k < length data"
    and "read + length (chunk data k) \<le> len" and "len \<le> length data"
  shows "recv_data_packet_retr client sid k read len (Packet client (data_packet sid data k) # es) out =
    (OK_COMMUNICATION, read + length (chunk data k), es, print_data (chunk data k) out)"
proof -
  have k: "k < 2 ^ 64" using assms(2,3) by (simp add: BUFFER_SIZE_def)
  have c: "0 < length (chunk data k)" "length (chunk data k) \<le> 64000"
    using assms(3) by (auto simp: chunk_def BUFFER_SIZE_def)
  have n: "(length (chunk data k) + read) mod 2 ^ 64 = read + length (chunk data k)" using assms(2,4,5) by simp
  show ?thesis
    using data_packet_fields [OF assms(1) k, of data] c n assms(4)
    by (simp add: Let_def MIN_DATA_LEN_def MAX_DATA_LEN_def add.commute)
qed

lemma old_data_skipped:
  assumes "old_data client sid data k e" and "sid < 2 ^ 64" and "length data < 2 ^ 64"
    and "BUFFER_SIZE * k < length data" and "read + length (chunk data k) \<le> len" and "len \<le> length data"
  shows "recv_data_packet_retr client sid k read len (e # es) out = recv_data_packet_retr client sid k read len es out"
proof -
  from assms(1) obtain p where e: "e = Packet client p"
    and p: "p \<in> data_packet sid data ` {..<k} \<and> BUFFER_SIZE * Suc k \<le> length data \<or>
      k = 0 \<and> p = CONN_packet sid udpr_protocol_id (length data)"
    by (cases e) auto
  show ?thesis
  proof (cases "k = 0")
    case True
    with p e show ?thesis by (simp add: Let_def MAX_LEN_def)
  next
    case False
    with p obtain i where i: "i < k" "p = data_packet sid data i" and full: "BUFFER_SIZE * Suc k \<le> length data" by auto
    have lt: "i < 2 ^ 64" using i(1) assms(3,4) by (simp add: BUFFER_SIZE_def)
    have "BUFFER_SIZE * Suc i \<le> BUFFER_SIZE * Suc k" using i(1) by simp
    then have l: "length (chunk data i) = 64000" "length (chunk data k) = 64000"
      using full by (simp_all add: chunk_def BUFFER_SIZE_def)
    have room: "\<not> len < (64000 + read) mod 2 ^ 64" using assms(3,5,6) l(2) by simp
    show ?thesis
      using data_packet_fields [OF assms(2) lt, of data] l(1) e i room False
      by (simp add: Let_def MIN_DATA_LEN_def MAX_DATA_LEN_def)
  qed
qed

lemma conacc_loop_returns:
  assumes "waits n (old_data client sid data 0) ws" and "sends out = []" and "sid < 2 ^ 64" and "length data < 2 ^ 64"
    and "data \<noteq> []" and "0 \<notin> set data" and "printed out = []"
  shows "\<exists>out'. conacc_loop (Suc n) client sid (length data) (late ws client (data_packet sid data 0) @ es) out =
      (OK_COMMUNICATION, length (chunk data 0), es, out') \<and>
    all_sent out out' client {CONACC_packet sid} \<and> printed out' = take BUFFER_SIZE data"
  using assms(1,2,7)
proof (induction ws arbitrary: n out)
  case (Nil n out)
  from sendto_all [OF Nil(2)] obtain out1 where o: "sendto client (CONACC_packet sid) out = (True, out1)"
    "all_sent out out1 client {CONACC_packet sid}" by blast
  have a: "recv_data_packet_retr client sid 0 0 (length data) (Packet client (data_packet sid data 0) # es) out1 =
      (OK_COMMUNICATION, length (chunk data 0), es, print_data (chunk data 0) out1)"
    using data_accepted [OF assms(3,4), of 0 0 "length data"] assms(5) by (simp add: chunk_def)
  with Nil o sendto_quiet [OF o(1)] print_chunk [OF assms(6), of 0 out1] show ?case
    by (simp add: all_sent_def print_data_def chunk_def del: recv_data_packet_retr.simps)
next
  case (Cons e ws n out)
  from sendto_all [OF Cons.prems(2)] obtain out1 where o: "sendto client (CONACC_packet sid) out = (True, out1)"
    "all_sent out out1 client {CONACC_packet sid}" by blast
  from Cons.prems(1) show ?case
  proof (cases rule: waits_cases)
    case (timeout m ws')
    with Cons.prems Cons.IH [of m out1] all_sent_sends [OF o(2)] sendto_quiet [OF o(1)] obtain out' where
      "conacc_loop (Suc m) client sid (length data) (late ws client (data_packet sid data 0) @ es) out1 =
        (OK_COMMUNICATION, length (chunk data 0), es, out')"
      "all_sent out1 out' client {CONACC_packet sid}" "printed out' = take BUFFER_SIZE data" by auto
    with o timeout all_sent_again [OF o(2)] show ?thesis
      by (subst conacc_loop.simps) (simp add: comm_defs del: conacc_loop.simps)
  next
    case (skip e' ws')
    have r: "recv_data_packet_retr client sid 0 0 (length data) (e # es') out'' =
        recv_data_packet_retr client sid 0 0 (length data) es' out''" for es' out''
      by (rule old_data_skipped [of client sid data]) (use skip assms(3-5) in \<open>simp_all add: chunk_def\<close>)
    have "conacc_loop (Suc n) client sid (length data) (late (e # ws) client (data_packet sid data 0) @ es) out =
        conacc_loop (Suc n) client sid (length data) (late ws client (data_packet sid data 0) @ es) out"
      by (simp only: conacc_loop.simps late_simps append_Cons r o(1) prod.case simp_thms if_False)
    with Cons.IH [OF _ Cons.prems(2,3), of n] skip show ?thesis by auto
  qed simp
qed

lemma acc_loop_takes:
  assumes "waits n (old_data client sid data (Suc num)) ws" and "sends out = []" and "sid < 2 ^ 64"
    and "length data < 2 ^ 64" and "0 \<notin> set data"
    and "BUFFER_SIZE * Suc num < length data" and "read + length (chunk data (Suc num)) \<le> len" and "len \<le> length data"
  shows "\<exists>out'. acc_loop (Suc n) client sid len num read (late ws client (data_packet sid data (Suc num)) @ es) out =
      acc_loop (Suc MAX_RETRANSMITS) client sid len (Suc num) (read + length (chunk data (Suc num))) es out' \<and>
    all_sent out out' client {ACC_packet sid num} \<and> printed out' = printed out @ chunk data (Suc num)"
  using assms(1,2)
proof (induction ws arbitrary: n out)
  let ?c = "chunk data (Suc num)"
  have num: "(num + 1) mod 2 ^ 64 = Suc num" using assms(4,6) by (simp add: BUFFER_SIZE_def)
  have c: "0 < length ?c" using assms(6) by (simp add: chunk_def BUFFER_SIZE_def)
  with assms(7) have neq: "read \<noteq> len" by linarith
  {
    case (Nil n out)
    from sendto_all [OF Nil(2)] obtain out1 where o: "sendto client (ACC_packet sid num) out = (True, out1)"
      "all_sent out out1 client {ACC_packet sid num}" by blast
    have a: "recv_data_packet_retr client sid (Suc num) read len
        (Packet client (data_packet sid data (Suc num)) # es) out1 =
        (OK_COMMUNICATION, read + length ?c, es, print_data ?c out1)"
      by (rule data_accepted [OF assms(3,4,6,7,8)])
    have p: "printed (print_data ?c out1) = printed out @ ?c"
      using print_chunk [OF assms(5)] sendto_quiet [OF o(1)] by simp
    have "acc_loop (Suc n) client sid len num read (Packet client (data_packet sid data (Suc num)) # es) out =
        acc_loop (Suc MAX_RETRANSMITS) client sid len (Suc num) (read + length ?c) es (print_data ?c out1)"
      by (subst acc_loop.simps) (simp only: o(1) a prod.case neq num simp_thms if_False if_True)
    with o(2) p show ?case by (intro exI [of _ "print_data ?c out1"]) (simp add: all_sent_def print_data_def)
  next
    case (Cons e ws n out)
    from sendto_all [OF Cons.prems(2)] obtain out1 where o: "sendto client (ACC_packet sid num) out = (True, out1)"
      "all_sent out out1 client {ACC_packet sid num}" by blast
    let ?es = "late ws client (data_packet sid data (Suc num)) @ es"
    from Cons.prems(1) show ?case
    proof (cases rule: waits_cases)
      case (timeout m ws')
      then have "acc_loop (Suc n) client sid len num read (e # ?es) out = acc_loop (Suc m) client sid len num read ?es out1"
        using o(1) neq by (subst acc_loop.simps) (simp add: comm_defs)
      moreover from Cons.IH [OF _ all_sent_sends [OF o(2)], of m] timeout obtain out' where
        "acc_loop (Suc m) client sid len num read ?es out1 =
          acc_loop (Suc MAX_RETRANSMITS) client sid len (Suc num) (read + length ?c) es out'"
        "all_sent out1 out' client {ACC_packet sid num}" "printed out' = printed out1 @ ?c" by auto
      ultimately show ?thesis using all_sent_again [OF o(2)] sendto_quiet [OF o(1)] by auto
    next
      case (skip e' ws')
      have r: "recv_data_packet_retr client sid (Suc num) read len (e # es') out'' =
          recv_data_packet_retr client sid (Suc num) read len es' out''" for es' out''
        by (rule old_data_skipped [of client sid data]) (use skip assms(3,4,6-8) in simp_all)
      have "acc_loop (Suc n) client sid len num read (e # ?es) out = acc_loop (Suc n) client sid len num read ?es out"
        by (subst (1 2) acc_loop.simps) (simp only: num r o(1) prod.case neq simp_thms if_False)
      with Cons.IH [OF _ Cons.prems(2), of n] skip show ?thesis by auto
    qed simp
  }
qed

lemma acc_loop_returns:
  assumes "\<forall>j. waits MAX_RETRANSMITS (old_data client sid data j) (v j)" and "sid < 2 ^ 64" and "length data < 2 ^ 64" and "0 \<notin> set data"
    and "first + len = length data" and "sends out = []" and "num < chunks data"
    and "first + read = min (BUFFER_SIZE * Suc num) (length data)" and "printed out = take (BUFFER_SIZE * Suc num) data"
  shows "\<exists>out'. acc_loop (Suc MAX_RETRANSMITS) client sid len num read (datas_from client sid data v (Suc num) @ es) out =
      (OK_COMMUNICATION, es, out') \<and>
    all_sent out out' client (ACC_packet sid ` {num..<chunks data}) \<and> printed out' = data"
  using assms(6-)
proof (induction "chunks data - num" arbitrary: num read out rule: less_induct)
  case less
  show ?case
  proof (cases "Suc num < chunks data")
    case False
    then have "{num..<chunks data} = {num}" using less.prems by auto
    moreover have l: "length data \<le> BUFFER_SIZE * Suc num" using False by (simp add: chunks_iff del: mult_Suc_right)
    then have "read = len" "printed out = data" using less.prems assms(5) by (simp_all del: mult_Suc_right)
    moreover from sendto_all [OF less.prems(1)] obtain out1 where
      "sendto client (ACC_packet sid num) out = (True, out1)" "all_sent out out1 client {ACC_packet sid num}" by blast
    ultimately show ?thesis using False sendto_quiet [of client "ACC_packet sid num" out True out1]
      by (subst acc_loop.simps) simp
  next
    case True
    then have b: "BUFFER_SIZE * Suc num < length data" by (simp only: chunks_iff)
    have room: "read + length (chunk data (Suc num)) \<le> len"
      using less.prems(3) b assms(5) by (auto simp: chunk_def min_def)
    have len: "len \<le> length data" using assms(5) by simp
    from acc_loop_takes [OF _ less.prems(1) assms(2-4) b room len, where ws = "v (Suc num)" and n = MAX_RETRANSMITS] assms(1)
    obtain out1 where a: "acc_loop (Suc MAX_RETRANSMITS) client sid len num read
        (late (v (Suc num)) client (data_packet sid data (Suc num)) @ datas_from client sid data v (Suc (Suc num)) @ es) out =
        acc_loop (Suc MAX_RETRANSMITS) client sid len (Suc num) (read + length (chunk data (Suc num)))
          (datas_from client sid data v (Suc (Suc num)) @ es) out1"
      "all_sent out out1 client {ACC_packet sid num}" "printed out1 = printed out @ chunk data (Suc num)" by metis
    have lt: "chunks data - Suc num < chunks data - num" using True by simp
    have r: "first + (read + length (chunk data (Suc num))) = min (BUFFER_SIZE * Suc (Suc num)) (length data)"
      using less.prems(3) b by (auto simp: chunk_def min_def)
    have p: "printed out1 = take (BUFFER_SIZE * Suc (Suc num)) data"
      using a(3) less.prems(4) take_chunk [of "Suc num" data] by simp
    from less.hyps [OF lt all_sent_sends [OF a(2)] True r p] obtain out' where
      l: "acc_loop (Suc MAX_RETRANSMITS) client sid len (Suc num) (read + length (chunk data (Suc num)))
          (datas_from client sid data v (Suc (Suc num)) @ es) out1 = (OK_COMMUNICATION, es, out')"
        "all_sent out1 out' client (ACC_packet sid ` {Suc num..<chunks data})" "printed out' = data" by blast
    have eq: "{ACC_packet sid num} \<union> ACC_packet sid ` {Suc num..<chunks data} = ACC_packet sid ` {num..<chunks data}"
      unfolding from_insert [OF less.prems(2)] image_insert by (rule insert_is_Un [symmetric])
    have "all_sent out out' client (ACC_packet sid ` {num..<chunks data})"
      using all_sent_trans [OF a(2) l(2)] by (simp only: eq)
    moreover have "acc_loop (Suc MAX_RETRANSMITS) client sid len num read (datas_from client sid data v (Suc num) @ es) out =
        (OK_COMMUNICATION, es, out')"
      unfolding datas_from_step [OF True] append_assoc a(1) by (rule l(1))
    ultimately show ?thesis using l(3) by blast
  qed
qed

end
