(* ===== verification/Ppcb_Plain.thy ===== *)
theory Ppcb_Plain
  imports Ppcb_Safe
begin

text \<open>The session of the server without retransmission, and what its client sends and has seen at the end.\<close>

lemma take_self [simp]: "\<exists>m. xs = take m xs"
  by (rule exI [of _ "length xs"]) simp

lemma recv_data_packets_prints:
  assumes "recv_data_packets client sid (length data) num (min (BUFFER_SIZE * num) (length data)) es out = (r, es', out')"
    and "genuine client sid data es" and "sid < 2 ^ 64" and "length data < 2 ^ 64" and "0 \<notin> set data"
    and "printed out = take (BUFFER_SIZE * num) data"
  shows "(\<exists>m. printed out' = take m data) \<and> (r = OK_COMMUNICATION \<longrightarrow> printed out' = data) \<and>
    (r = OK_COMMUNICATION \<or> r = EXIT_COMMUNICATION) \<and> sends_only (\<lambda>a p. packet_type p \<noteq> 7) out out'"
  using assms(1,2,6)
proof (induction es arbitrary: num out)
  case (Nil num out)
  then show ?case by (auto simp: comm_defs split: if_splits)
next
  case (Cons e es num out)
  let ?read = "min (BUFFER_SIZE * num) (length data)"
  note g = genuine_tl [OF Cons.prems(2)]
  have rjt: "printed (send_rjt_packet a s k out) = printed out \<and>
      sends_only (\<lambda>a p. packet_type p \<noteq> 7) out (send_rjt_packet a s k out)" for a s k out
    using sendto_quiet [of a "RJT_packet s k" out] sends_only_sendto [where P = "\<lambda>a p. packet_type p \<noteq> 7", of a "RJT_packet s k" out]
    by (cases "sendto a (RJT_packet s k) out") (simp add: send_rjt_packet_def)
  have str: "printed (answer_stranger a b k out) = printed out \<and>
      sends_only (\<lambda>a p. packet_type p \<noteq> 7) out (answer_stranger a b k out)" for a b k out
    using sendto_quiet [of a "CONRJT_packet (session_id b)" out] rjt [of a "session_id b" k out]
      sends_only_sendto [where P = "\<lambda>a p. packet_type p \<noteq> 7", of a "CONRJT_packet (session_id b)" out]
    by (cases "sendto a (CONRJT_packet (session_id b)) out") (simp add: answer_stranger_def send_conrjt_packet_def)
  show ?case
  proof (cases "?read < length data")
    case False
    with Cons.prems show ?thesis by (auto simp: comm_defs)
  next
    case True
    then have b: "BUFFER_SIZE * num < length data" by simp
    then have read: "?read = BUFFER_SIZE * num" by simp
    show ?thesis
    proof (cases e)
      case (Packet a b)
      let ?b = "take MAX_LEN b"
      let ?n = "data_bytes_len ?b"
      show ?thesis
      proof (cases "a = client")
        case False
        with Cons.prems(1) Packet b have again: "recv_data_packets client sid (length data) num ?read es
            (answer_stranger a ?b num out) = (r, es', out')" by (simp add: Let_def)
        have p: "printed (answer_stranger a ?b num out) = take (BUFFER_SIZE * num) data"
          using str [of a ?b num out] Cons.prems(3) by simp
        have s: "sends_only (\<lambda>a p. packet_type p \<noteq> 7) out (answer_stranger a ?b num out)"
          using str [of a ?b num out] by blast
        from Cons.IH [OF again g p] sends_only_trans [OF s] show ?thesis by blast
      next
        case same: True
        from Cons.prems(1) Packet b same consider
          "r = EXIT_COMMUNICATION" "out' = send_rjt_packet client sid num out"
          | "packet_type ?b = 4" "packet_number ?b = num"
            "recv_data_packets client sid (length data) ((num + 1) mod 2 ^ 64) ((?read + ?n) mod 2 ^ 64) es
              (print_data (drop 21 ?b) out) = (r, es', out')"
          by (simp add: Let_def split: if_splits)
        then show ?thesis
        proof cases
          case 1
          with rjt Cons.prems(3) show ?thesis by (auto simp: comm_defs)
        next
          case 2
          have "client_packet sid data b" using Cons.prems(2) Packet same by (simp add: genuine_def)
          from accepted_is_expected [OF this assms(3,4) 2(1)] obtain k where
            k: "BUFFER_SIZE * k < length data" "b = data_packet sid data k" "k < 2 ^ 64" .
          note f = data_packet_fields [OF assms(3) k(3), of data]
          have kn: "k = num" using 2(2) k(2) f by simp
          have n: "(num + 1) mod 2 ^ 64 = Suc num" using b assms(4) by (simp add: BUFFER_SIZE_def)
          have "?read + ?n = min (BUFFER_SIZE * Suc num) (length data)"
            using k(2) f kn b by (auto simp: chunk_def min_def)
          then have m: "(?read + ?n) mod 2 ^ 64 = min (BUFFER_SIZE * Suc num) (length data)"
            using assms(4) by simp
          have d: "drop 21 ?b = chunk data num" using k(2) f kn by simp
          have p: "printed (print_data (chunk data num) out) = take (BUFFER_SIZE * Suc num) data"
            using print_chunk [OF assms(5)] Cons.prems(3) take_chunk by simp
          have s: "sends_only P (print_data x out) out' = sends_only P out out'" for P x
            by (simp add: sends_only_def print_data_def)
          from Cons.IH [OF 2(3) [unfolded n m d] g p] show ?thesis by (simp add: s)
        qed
      qed
    qed (use Cons.prems b in \<open>auto simp: comm_defs\<close>)
  qed
qed

lemma udp_session_prints:
  assumes "udp_session client sid (length data) es out = (es', out')"
    and "genuine client sid data es" and "sid < 2 ^ 64" and "length data < 2 ^ 64" and "0 \<notin> set data"
    and "printed out = []" and "no_receipt out"
  shows "(\<exists>m. printed out' = take m data) \<and> (\<not> no_receipt out' \<longrightarrow> printed out' = data)"
proof -
  obtain ok out1 where o: "sendto client (CONACC_packet sid) out = (ok, out1)" by fastforce
  obtain r es2 out2 where d: "recv_data_packets client sid (length data) 0 0 es out1 = (r, es2, out2)"
    using prod_cases3 by blast
  have p: "printed out1 = []" using sendto_quiet [OF o] assms(6) by simp
  have n: "no_receipt out1" by (rule no_receipt_sendto [OF assms(7) o]) simp
  have a: "(\<exists>m. printed out2 = take m data) \<and> (r = OK_COMMUNICATION \<longrightarrow> printed out2 = data) \<and>
      (r = OK_COMMUNICATION \<or> r = EXIT_COMMUNICATION) \<and> sends_only (\<lambda>a p. packet_type p \<noteq> 7) out1 out2"
    using recv_data_packets_prints [of client sid data 0 es out1 r es2 out2] d assms(2-5) p by simp
  have n2: "no_receipt out2" using no_receipt_sends [OF n] a by blast
  have q: "printed (send_rcvd_packet client sid out2) = printed out2"
    using sendto_quiet by (metis prod.collapse send_rcvd_packet_def)
  show ?thesis
  proof (cases "ok \<and> r = OK_COMMUNICATION")
    case True
    then have "out' = send_rcvd_packet client sid out2"
      using assms(1) o d by (simp add: udp_session_def send_conacc_packet_def comm_defs)
    with a q True show ?thesis by metis
  next
    case False
    then have "out' = out1 \<or> out' = out2 \<and> r \<noteq> OK_COMMUNICATION"
      using assms(1) o d a by (auto simp: udp_session_def send_conacc_packet_def comm_defs split: if_splits)
    with a p n n2 show ?thesis by (metis take_0)
  qed
qed

section \<open>The client\<close>

lemma send_data_sends:
  assumes "send_data_packets server sid k (drop (BUFFER_SIZE * k) data) out = (r, out')" and "length data < 2 ^ 64"
  shows "sends_only (\<lambda>a p. a = server \<and> client_packet sid data p) out out'"
  using assms(1)
proof (induction "length data - BUFFER_SIZE * k" arbitrary: k out rule: less_induct)
  case less
  show ?case
  proof (cases "BUFFER_SIZE * k < length data")
    case False
    with less.prems show ?thesis by (subst (asm) send_data_packets.simps) simp
  next
    case True
    then have k: "(k + 1) mod 2 ^ 64 = Suc k" using assms(2) by (simp add: BUFFER_SIZE_def)
    have ne: "drop (BUFFER_SIZE * k) data \<noteq> []" using True by simp
    have d: "drop BUFFER_SIZE (drop (BUFFER_SIZE * k) data) = drop (BUFFER_SIZE * Suc k) data" by simp
    obtain ok out1 where o: "sendto server (data_packet sid data k) out = (ok, out1)" by fastforce
    have s: "sends_only (\<lambda>a p. a = server \<and> client_packet sid data p) out out1"
      by (rule sends_only_sendto [OF o]) (use True in \<open>auto simp: client_packet_def\<close>)
    have "(if ok then send_data_packets server sid (Suc k) (drop (BUFFER_SIZE * Suc k) data) out1
        else (EXIT_COMMUNICATION, out1)) = (r, out')"
      using less.prems ne o unfolding data_packet_def chunk_def
      by (subst (asm) send_data_packets.simps) (simp only: Let_def if_False k d prod.case)
    moreover have "length data - BUFFER_SIZE * Suc k < length data - BUFFER_SIZE * k"
      using True by (simp add: BUFFER_SIZE_def)
    ultimately show ?thesis using s less.hyps [of "Suc k" out1] sends_only_trans by (auto split: if_splits)
  qed
qed

lemma udp_client_sends:
  assumes "handle_udp_client server sid data es out = (r, es', out')" and "length data < 2 ^ 64"
  shows "sends_only (\<lambda>a p. a = server \<and> client_packet sid data p) out out'"
proof -
  let ?P = "\<lambda>a p. a = server \<and> client_packet sid data p"
  obtain ok out1 where o: "sendto server (CONN_packet sid udp_protocol_id (length data)) out = (ok, out1)" by fastforce
  have s: "sends_only ?P out out1"
    by (rule sends_only_sendto [OF o]) (auto simp: client_packet_def udp_protocol_id_def intro!: exI [of _ "2 :: nat"])
  obtain r2 out2 where d: "send_data_packets server sid 0 data out1 = (r2, out2)" by fastforce
  have s2: "sends_only ?P out1 out2" using send_data_sends [of server sid 0 data out1 r2 out2] d assms(2) by simp
  have "out' = out1 \<or> out' = out2"
    using assms(1) o d by (auto simp: handle_udp_client_def send_conn_packet_def split: prod.splits if_splits)
  with s sends_only_trans [OF s s2] show ?thesis by blast
qed

lemma rcvd_packet_seen:
  "recv_rcvd_packet server sid es = (OK_COMMUNICATION, es') \<Longrightarrow> \<exists>b. Packet server b \<in> set es \<and> packet_type b = 7"
proof (induction server sid es rule: recv_rcvd_packet.induct)
  case (2 server sid a b es)
  have "packet_type (take 9 b) = packet_type b" by (cases b) (auto simp: packet_type_def)
  with 2 show ?case by (fastforce simp: Let_def comm_defs split: if_splits)
qed (auto simp: comm_defs)

lemma conacc_packet_rest: "recv_conacc_packet server sid es = (r, es') \<Longrightarrow> set es' \<subseteq> set es"
  by (induction server sid es rule: recv_conacc_packet.induct) (auto simp: Let_def split: if_splits)

lemma udp_client_receipt:
  assumes "handle_udp_client server sid data es out = (OK_COMMUNICATION, es', out')"
  shows "\<exists>b. Packet server b \<in> set es \<and> packet_type b = 7"
proof -
  obtain r1 es1 where c: "recv_conacc_packet server sid es = (r1, es1)" by fastforce
  have "\<exists>es2. recv_rcvd_packet server sid es1 = (OK_COMMUNICATION, es2)"
    using assms c by (auto simp: handle_udp_client_def comm_defs split: prod.splits if_splits)
  with rcvd_packet_seen conacc_packet_rest [OF c] show ?thesis by blast
qed

end
