(* ===== verification/Ppcb_Tcp.thy ===== *)
theory Ppcb_Tcp
  imports Ppcb_Live
begin

text \<open>
  The transfer over TCP (\<open>client_tcp.c\<close>, \<open>server_tcp.c\<close>, \<open>readn\<close> and \<open>writen\<close> of \<open>common.c\<close>). A connection
  has the bytes that come in, a list that says how many of them each \<open>read\<close> gives at most (0 is an
  error, a timeout among them), whether the other side closes the connection after the last byte, and a
  list that says how many bytes each \<open>write\<close> takes at most (0 is an error). When a list is used up, a call
  reads or writes as much as it can. \<open>malloc\<close> does not fail here.
\<close>

record tcp =
  incoming :: "byte list"
  reads :: "nat list"
  closes :: bool
  writes :: "nat list"
  outgoing :: "byte list"
  screen :: "byte list"

section \<open>Reading and writing\<close>

definition read_some :: "nat \<Rightarrow> tcp \<Rightarrow> int \<times> byte list \<times> tcp" where
  "read_some n s =
     (let c = (case reads s of [] \<Rightarrow> n | c # cs \<Rightarrow> min n c); s' = s\<lparr>reads := tl (reads s)\<rparr>;
          d = take c (incoming s) in
      if c = 0 then (-1, [], s')
      else if incoming s = [] then (if closes s then 0 else -1, [], s')
      else (int (length d), d, s'\<lparr>incoming := drop c (incoming s)\<rparr>))"

lemma read_some_bound: "read_some n s = (k, d, s') \<Longrightarrow> 0 < k \<longrightarrow> int (length d) = k \<and> length d \<le> n"
  by (auto simp: read_some_def Let_def split: if_splits list.splits)

text \<open>The result is negative after an error; otherwise it is the number of bytes read.\<close>

function readn :: "nat \<Rightarrow> tcp \<Rightarrow> int \<times> byte list \<times> tcp" where
  "readn n s =
     (if n = 0 then (0, [], s)
      else case read_some n s of (k, d, s) \<Rightarrow>
        if k < 0 then (k, [], s)
        else if k = 0 then (0, [], s)
        else case readn (n - length d) s of (m, d', s) \<Rightarrow>
          if m < 0 then (m, [], s) else (int (length d) + m, d @ d', s))"
  by pat_completeness auto

termination
  by (relation "measure fst") (auto dest!: read_some_bound [OF sym] intro!: diff_less)

declare readn.simps [simp del]

function writen :: "byte list \<Rightarrow> tcp \<Rightarrow> int \<times> tcp" where
  "writen b s =
     (if b = [] then (0, s)
      else let c = (case writes s of [] \<Rightarrow> length b | c # cs \<Rightarrow> min (length b) c); s = s\<lparr>writes := tl (writes s)\<rparr> in
        if c = 0 then (-1, s)
        else case writen (drop c b) (s\<lparr>outgoing := outgoing s @ take c b\<rparr>) of (m, s) \<Rightarrow>
          if m < 0 then (m, s) else (int c + m, s))"
  by pat_completeness auto

termination
  by (relation "measure (\<lambda>(b, s). length b)") auto

declare writen.simps [simp del]

section \<open>The server\<close>

definition read_conn_packet :: "nat \<Rightarrow> tcp \<Rightarrow> int \<times> byte list \<times> tcp" where
  "read_conn_packet proto s = (case readn 18 s of (k, b, s) \<Rightarrow>
     (if k \<noteq> 18 then EXIT_COMMUNICATION
      else if packet_type b \<noteq> 1 then EXIT_COMMUNICATION
      else if protocol_id b \<noteq> proto then EXIT_COMMUNICATION
      else OK_COMMUNICATION, b, s))"

definition write_conacc_packet :: "nat \<Rightarrow> tcp \<Rightarrow> int \<times> tcp" where
  "write_conacc_packet sid s = (case writen (CONACC_packet sid) s of (k, s) \<Rightarrow>
     (if k \<noteq> 9 then EXIT_COMMUNICATION else OK_COMMUNICATION, s))"

definition write_rjt_packet :: "nat \<Rightarrow> nat \<Rightarrow> tcp \<Rightarrow> tcp" where
  "write_rjt_packet sid num s = snd (writen (RJT_packet sid num) s)"

definition write_rcvd_packet :: "nat \<Rightarrow> tcp \<Rightarrow> tcp" where
  "write_rcvd_packet sid s = snd (writen (RCVD_packet sid) s)"

text \<open>Every packet takes bytes of the connection.\<close>

lemma readn_takes:
  "readn n s = (k, d, s') \<Longrightarrow> length (incoming s') \<le> length (incoming s) \<and>
    (0 < k \<longrightarrow> length (incoming s') < length (incoming s))"
proof (induction n s arbitrary: k d s' rule: readn.induct)
  case (1 n s)
  obtain k1 d1 s1 where r: "read_some n s = (k1, d1, s1)" using prod_cases3 by blast
  have t: "length (incoming s1) \<le> length (incoming s)" "0 < k1 \<Longrightarrow> length (incoming s1) < length (incoming s)"
    using r by (auto simp: read_some_def Let_def split: if_splits list.splits)
  show ?case
  proof (cases "0 < n \<and> 0 < k1")
    case True
    obtain m d2 s2 where r2: "readn (n - length d1) s1 = (m, d2, s2)" using prod_cases3 by blast
    with "1.IH" [OF _ r [symmetric] refl _ _ r2] True have "length (incoming s2) \<le> length (incoming s1)" by simp
    with "1.prems" True r r2 t show ?thesis by (subst (asm) readn.simps) (auto split: if_splits)
  next
    case False
    with "1.prems" r t show ?thesis by (subst (asm) readn.simps) (auto split: if_splits)
  qed
qed

function read_data_packets :: "nat \<Rightarrow> nat \<Rightarrow> nat \<Rightarrow> nat \<Rightarrow> tcp \<Rightarrow> int \<times> tcp" where
  "read_data_packets len sid num read s =
     (if \<not> read < len then (OK_COMMUNICATION, s)
      else case readn 21 s of (k, h, s) \<Rightarrow>
        if k \<noteq> 21 then (EXIT_COMMUNICATION, s)
        else let n = data_bytes_len h; reject = (EXIT_COMMUNICATION, write_rjt_packet (session_id h) num s) in
          if session_id h \<noteq> sid then reject
          else if packet_number h \<noteq> num then reject
          else if packet_type h \<noteq> 4 then reject
          else if (n + read) mod 2 ^ 64 > len then reject
          else if n < MIN_DATA_LEN \<or> n > MAX_DATA_LEN then reject
          else case readn n s of (k, d, s) \<Rightarrow>
            if k \<noteq> int n then (EXIT_COMMUNICATION, s)
            else read_data_packets len sid ((num + 1) mod 2 ^ 64) ((read + n) mod 2 ^ 64)
              (s\<lparr>screen := screen s @ takeWhile (\<lambda>b. b \<noteq> 0) d\<rparr>))"
  by pat_completeness auto

termination
  by (relation "measure (\<lambda>(len, sid, num, read, s). length (incoming s))")
    (auto dest!: readn_takes [OF sym])

declare read_data_packets.simps [simp del]

definition tcp_session :: "nat \<Rightarrow> tcp \<Rightarrow> tcp" where
  "tcp_session proto s =
     (case read_conn_packet proto s of (r, b, s) \<Rightarrow>
        if r = EXIT_COMMUNICATION then s
        else case write_conacc_packet (session_id b) s of (r, s) \<Rightarrow>
          if r = EXIT_COMMUNICATION then s
          else case read_data_packets (data_len b) (session_id b) 0 0 s of (r, s) \<Rightarrow>
            if r = EXIT_COMMUNICATION then s else write_rcvd_packet (session_id b) s)"

text \<open>The server takes one connection after the other: \<open>None\<close> is an \<open>accept\<close> that fails.\<close>

definition handle_tcp_connection :: "nat \<Rightarrow> tcp option list \<Rightarrow> tcp option list" where
  "handle_tcp_connection proto cs = map (map_option (tcp_session proto)) cs"

section \<open>The client\<close>

definition write_conn_packet :: "nat \<Rightarrow> nat \<Rightarrow> nat \<Rightarrow> tcp \<Rightarrow> int \<times> tcp" where
  "write_conn_packet proto len sid s = (case writen (CONN_packet sid proto len) s of (k, s) \<Rightarrow>
     (if k \<noteq> 18 then EXIT_COMMUNICATION else OK_COMMUNICATION, s))"

definition read_conacc_packet :: "nat \<Rightarrow> tcp \<Rightarrow> int \<times> tcp" where
  "read_conacc_packet sid s = (case readn 9 s of (k, b, s) \<Rightarrow>
     (if k \<noteq> 9 then EXIT_COMMUNICATION
      else if session_id b \<noteq> sid then EXIT_COMMUNICATION
      else if packet_type b \<noteq> 2 then EXIT_COMMUNICATION
      else OK_COMMUNICATION, s))"

function write_data_packets :: "nat \<Rightarrow> nat \<Rightarrow> byte list \<Rightarrow> tcp \<Rightarrow> int \<times> tcp" where
  "write_data_packets sid num data s =
     (if data = [] then (OK_COMMUNICATION, s)
      else let chunk = take BUFFER_SIZE data in
        case writen (DATA_header sid num (length chunk)) s of (k, s) \<Rightarrow>
          if k \<noteq> 21 then (EXIT_COMMUNICATION, s)
          else case writen chunk s of (k, s) \<Rightarrow>
            if k \<noteq> int (length chunk) then (EXIT_COMMUNICATION, s)
            else write_data_packets sid ((num + 1) mod 2 ^ 64) (drop BUFFER_SIZE data) s)"
  by pat_completeness auto

termination
  by (relation "measure (\<lambda>(sid, num, data, s). length data)") (auto simp: BUFFER_SIZE_def)

declare write_data_packets.simps [simp del]

text \<open>Whether the last packet is the right one; otherwise the client reports an error.\<close>

definition read_rcvd_packet :: "nat \<Rightarrow> tcp \<Rightarrow> bool \<times> tcp" where
  "read_rcvd_packet sid s = (case readn 9 s of (k, b, s) \<Rightarrow>
     (k = 9 \<and> packet_type b = 7 \<and> session_id b = sid, s))"

definition handle_tcp_client :: "nat \<Rightarrow> nat \<Rightarrow> byte list \<Rightarrow> tcp \<Rightarrow> bool \<times> tcp" where
  "handle_tcp_client proto sid data s =
     (case write_conn_packet proto (length data) sid s of (r, s) \<Rightarrow>
        if r = EXIT_COMMUNICATION then (False, s)
        else case read_conacc_packet sid s of (r, s) \<Rightarrow>
          if r = EXIT_COMMUNICATION then (False, s)
          else case write_data_packets sid 0 data s of (r, s) \<Rightarrow>
            if r = EXIT_COMMUNICATION then (False, s)
            else read_rcvd_packet sid s)"

section \<open>Connections without errors\<close>

text \<open>No error in either direction; how the bytes are cut is left open.\<close>

definition smooth :: "tcp \<Rightarrow> bool" where
  "smooth s \<longleftrightarrow> 0 \<notin> set (reads s) \<and> 0 \<notin> set (writes s)"

lemma readn_smooth:
  assumes "smooth s" and "incoming s = d @ rest"
  shows "\<exists>rs. readn (length d) s = (int (length d), d, s\<lparr>incoming := rest, reads := rs\<rparr>) \<and> 0 \<notin> set rs"
  using assms
proof (induction "length d" arbitrary: d s rule: less_induct)
  case less
  show ?case
  proof (cases "d = []")
    case True
    with less.prems show ?thesis
      by (intro exI [of _ "reads s"]) (simp add: readn.simps [of 0] smooth_def)
  next
    case False
    let ?c = "case reads s of [] \<Rightarrow> length d | c # cs \<Rightarrow> min (length d) c"
    have c: "0 < ?c" "?c \<le> length d"
      using less.prems(1) False by (auto simp: smooth_def split: list.splits)
    let ?s = "s\<lparr>reads := tl (reads s), incoming := drop ?c d @ rest\<rparr>"
    have r: "read_some (length d) s = (int ?c, take ?c d, ?s)"
      using less.prems(2) c False by (auto simp: read_some_def Let_def min_def)
    have "smooth ?s" using less.prems(1) by (cases "reads s") (auto simp: smooth_def)
    moreover have "length (drop ?c d) < length d" using c by simp
    ultimately obtain rs where "readn (length (drop ?c d)) ?s =
        (int (length (drop ?c d)), drop ?c d, ?s\<lparr>incoming := rest, reads := rs\<rparr>)" "0 \<notin> set rs"
      using less.hyps [of "drop ?c d" ?s] by auto
    moreover have "length d - length (take ?c d) = length (drop ?c d)" using c by simp
    ultimately show ?thesis
      using c False r by (subst readn.simps) (auto simp del: length_drop)
  qed
qed

lemma writen_smooth:
  assumes "smooth s"
  shows "\<exists>ws. writen b s = (int (length b), s\<lparr>outgoing := outgoing s @ b, writes := ws\<rparr>) \<and> 0 \<notin> set ws"
  using assms
proof (induction "length b" arbitrary: b s rule: less_induct)
  case less
  show ?case
  proof (cases "b = []")
    case True
    with less.prems show ?thesis
      by (intro exI [of _ "writes s"]) (simp add: writen.simps [of "[]"] smooth_def)
  next
    case False
    let ?c = "case writes s of [] \<Rightarrow> length b | c # cs \<Rightarrow> min (length b) c"
    have c: "0 < ?c" "?c \<le> length b"
      using less.prems False by (auto simp: smooth_def split: list.splits)
    let ?s = "s\<lparr>writes := tl (writes s), outgoing := outgoing s @ take ?c b\<rparr>"
    have "smooth ?s" using less.prems by (cases "writes s") (auto simp: smooth_def)
    moreover have "length (drop ?c b) < length b" using c by simp
    ultimately obtain ws where w: "writen (drop ?c b) ?s =
        (int (length (drop ?c b)), ?s\<lparr>outgoing := outgoing ?s @ drop ?c b, writes := ws\<rparr>)" "0 \<notin> set ws"
      using less.hyps [of "drop ?c b" ?s] by blast
    have "writen b s = (int (length b), ?s\<lparr>outgoing := outgoing ?s @ drop ?c b, writes := ws\<rparr>)"
      using c False w(1) by (subst writen.simps) (simp add: Let_def)
    with w(2) show ?thesis by (intro exI [of _ ws]) simp
  qed
qed

text \<open>All the packets of the data from the \<open>k\<close>-th on, as bytes of a stream.\<close>

definition data_stream :: "nat \<Rightarrow> byte list \<Rightarrow> nat \<Rightarrow> byte list" where
  "data_stream sid data k = concat (map (data_packet sid data) [k..<chunks data])"

lemma data_stream_step:
  "BUFFER_SIZE * k < length data \<Longrightarrow> data_stream sid data k = data_packet sid data k @ data_stream sid data (Suc k)"
  by (simp add: data_stream_def upt_conv_Cons flip: chunks_iff)

lemma data_stream_end: "length data \<le> BUFFER_SIZE * k \<Longrightarrow> data_stream sid data k = []"
  using chunks_iff [of k data] by (simp add: data_stream_def)

lemma write_data_smooth:
  assumes "smooth s" and "length data < 2 ^ 64"
  shows "\<exists>ws. write_data_packets sid k (drop (BUFFER_SIZE * k) data) s =
      (OK_COMMUNICATION, s\<lparr>outgoing := outgoing s @ data_stream sid data k, writes := ws\<rparr>) \<and> 0 \<notin> set ws"
  using assms(1)
proof (induction "length data - BUFFER_SIZE * k" arbitrary: k s rule: less_induct)
  case less
  show ?case
  proof (cases "BUFFER_SIZE * k < length data")
    case False
    with less.prems show ?thesis
      by (intro exI [of _ "writes s"]) (simp add: write_data_packets.simps data_stream_end smooth_def)
  next
    case True
    let ?rest = "drop (BUFFER_SIZE * k) data"
    have k: "(k + 1) mod 2 ^ 64 = Suc k" using True assms(2) by (simp add: BUFFER_SIZE_def)
    let ?h = "DATA_header sid k (length (chunk data k))"
    obtain w1 where 1: "writen ?h s = (int (length ?h), s\<lparr>outgoing := outgoing s @ ?h, writes := w1\<rparr>)" "0 \<notin> set w1"
      using writen_smooth [OF less.prems, of ?h] by blast
    let ?s1 = "s\<lparr>outgoing := outgoing s @ ?h, writes := w1\<rparr>"
    have "smooth ?s1" using less.prems 1(2) by (simp add: smooth_def)
    then obtain w2 where 2: "writen (chunk data k) ?s1 = (int (length (chunk data k)),
        ?s1\<lparr>outgoing := outgoing ?s1 @ chunk data k, writes := w2\<rparr>)" "0 \<notin> set w2"
      using writen_smooth [of ?s1 "chunk data k"] by blast
    let ?s2 = "?s1\<lparr>outgoing := outgoing ?s1 @ chunk data k, writes := w2\<rparr>"
    have "smooth ?s2" using less.prems 2(2) by (simp add: smooth_def)
    moreover have "length data - BUFFER_SIZE * Suc k < length data - BUFFER_SIZE * k"
      using True by (simp add: BUFFER_SIZE_def)
    ultimately obtain ws where 3: "write_data_packets sid (Suc k) (drop (BUFFER_SIZE * Suc k) data) ?s2 =
        (OK_COMMUNICATION, ?s2\<lparr>outgoing := outgoing ?s2 @ data_stream sid data (Suc k), writes := ws\<rparr>)" "0 \<notin> set ws"
      using less.hyps [of "Suc k" ?s2] by blast
    have d: "drop BUFFER_SIZE ?rest = drop (BUFFER_SIZE * Suc k) data" by simp
    have h21: "int (length ?h) = 21" by simp
    have ne: "(?rest = []) = False" using True by simp
    have "write_data_packets sid k ?rest s =
        (OK_COMMUNICATION, ?s2\<lparr>outgoing := outgoing ?s2 @ data_stream sid data (Suc k), writes := ws\<rparr>)"
      using 1(1) 2(1) 3(1) unfolding chunk_def
      by (subst write_data_packets.simps)
        (simp only: ne if_False Let_def prod.case k d h21 [unfolded chunk_def] simp_thms)
    with 3(2) show ?thesis
      by (intro exI [of _ ws]) (simp add: data_stream_step [OF True] data_packet_def)
  qed
qed

lemma read_data_smooth:
  assumes "smooth s" and "incoming s = data_stream sid data k @ rest" and "sid < 2 ^ 64" and "length data < 2 ^ 64"
    and "0 \<notin> set data" and "screen s = take (BUFFER_SIZE * k) data"
  shows "\<exists>rs. read_data_packets (length data) sid k (min (BUFFER_SIZE * k) (length data)) s =
      (OK_COMMUNICATION, s\<lparr>incoming := rest, reads := rs, screen := data\<rparr>) \<and> 0 \<notin> set rs"
  using assms(1,2,6)
proof (induction "length data - BUFFER_SIZE * k" arbitrary: k s rule: less_induct)
  case less
  show ?case
  proof (cases "BUFFER_SIZE * k < length data")
    case False
    then have "s\<lparr>incoming := rest, reads := reads s, screen := data\<rparr> = s"
      using less.prems(2,3) data_stream_end [of data k sid] by simp
    with False less.prems(1) show ?thesis
      by (intro exI [of _ "reads s"]) (simp add: read_data_packets.simps smooth_def)
  next
    case True
    let ?c = "chunk data k"
    let ?h = "DATA_header sid k (length ?c)"
    have k: "(k + 1) mod 2 ^ 64 = Suc k" "k < 2 ^ 64" using True assms(4) by (simp_all add: BUFFER_SIZE_def)
    have c: "0 < length ?c" "length ?c \<le> 64000" using True by (auto simp: chunk_def BUFFER_SIZE_def)
    have sum: "BUFFER_SIZE * k + length ?c = min (BUFFER_SIZE * Suc k) (length data)"
      using True by (auto simp: chunk_def min_def)
    have "incoming s = ?h @ ?c @ data_stream sid data (Suc k) @ rest"
      using less.prems(2) by (simp add: data_stream_step [OF True] data_packet_def)
    from readn_smooth [OF less.prems(1) this] obtain r1 where
      1: "readn (length ?h) s = (int (length ?h), ?h, s\<lparr>incoming := ?c @ data_stream sid data (Suc k) @ rest, reads := r1\<rparr>)"
        "0 \<notin> set r1" by blast
    let ?s1 = "s\<lparr>incoming := ?c @ data_stream sid data (Suc k) @ rest, reads := r1\<rparr>"
    have "smooth ?s1" using less.prems(1) 1(2) by (simp add: smooth_def)
    from readn_smooth [OF this, of ?c "data_stream sid data (Suc k) @ rest"] obtain r2 where
      2: "readn (length ?c) ?s1 = (int (length ?c), ?c, ?s1\<lparr>incoming := data_stream sid data (Suc k) @ rest, reads := r2\<rparr>)"
        "0 \<notin> set r2" by auto
    have nz: "takeWhile (\<lambda>b. b \<noteq> 0) ?c = ?c"
      using print_chunk [OF assms(5), of k "\<lparr>sends = [], sent = [], printed = []\<rparr>"] by (simp add: print_data_def)
    let ?s2 = "?s1\<lparr>incoming := data_stream sid data (Suc k) @ rest, reads := r2, screen := screen s @ ?c\<rparr>"
    have "smooth ?s2" using less.prems(1) 2(2) by (simp add: smooth_def)
    moreover have "length data - BUFFER_SIZE * Suc k < length data - BUFFER_SIZE * k"
      using True by (simp add: BUFFER_SIZE_def)
    moreover have "screen ?s2 = take (BUFFER_SIZE * Suc k) data" using less.prems(3) take_chunk [of k data] by simp
    moreover have "incoming ?s2 = data_stream sid data (Suc k) @ rest" by simp
    ultimately obtain rs where 3: "read_data_packets (length data) sid (Suc k) (min (BUFFER_SIZE * Suc k) (length data)) ?s2 =
        (OK_COMMUNICATION, ?s2\<lparr>incoming := rest, reads := rs, screen := data\<rparr>)" "0 \<notin> set rs"
      using less.hyps by blast
    have read: "min (BUFFER_SIZE * k) (length data) = BUFFER_SIZE * k" using True by simp
    have mod1: "(length ?c + BUFFER_SIZE * k) mod 2 ^ 64 = BUFFER_SIZE * k + length ?c"
      "(BUFFER_SIZE * k + length ?c) mod 2 ^ 64 = min (BUFFER_SIZE * Suc k) (length data)"
      using sum assms(4) by (simp_all add: add.commute)
    have le: "BUFFER_SIZE * k + length ?c \<le> length data" using sum by simp
    have f: "data_bytes_len ?h = length ?c" "session_id ?h = sid" "packet_number ?h = k" "packet_type ?h = 4"
      using c k(2) assms(3) data_header_fields [of "length ?c" sid k "[]"] packet_sessions(4) [of sid k "length ?c" "[]"]
        packet_numbers(1) [of k sid "length ?c" "[]"] packet_types(4) [of sid k "length ?c" "[]"] by simp_all
    have r21: "readn 21 s = (21, ?h, ?s1)" using 1(1) by simp
    have conds: "(\<not> BUFFER_SIZE * k < length data) = False"
      "(length data < (length ?c + BUFFER_SIZE * k) mod 2 ^ 64) = False"
      "(length ?c < MIN_DATA_LEN \<or> MAX_DATA_LEN < length ?c) = False"
    proof -
      show "(\<not> BUFFER_SIZE * k < length data) = False" using True by simp
      show "(length data < (length ?c + BUFFER_SIZE * k) mod 2 ^ 64) = False" unfolding mod1(1) using le by simp
      show "(length ?c < MIN_DATA_LEN \<or> MAX_DATA_LEN < length ?c) = False"
        using c by (simp add: MIN_DATA_LEN_def MAX_DATA_LEN_def Suc_le_eq)
    qed
    have "read_data_packets (length data) sid k (BUFFER_SIZE * k) s =
        read_data_packets (length data) sid (Suc k) (min (BUFFER_SIZE * Suc k) (length data)) ?s2"
      by (subst read_data_packets.simps)
        (simp only: r21 prod.case Let_def f conds mod1(2) k(1) 2(1) nz simp_thms if_False if_True, simp)
    with 3 read show ?thesis by (intro exI [of _ rs]) simp
  qed
qed

end
