(* ===== verification/Ppcb_Props.thy ===== *)
theory Ppcb_Props
  imports Ppcb_Live Ppcb_Plain Ppcb_Tcp
begin

text \<open>
  The properties of the file transfer: what comes over UDP with retransmission whatever the network does,
  that it comes when losses are not too many, and that everything comes over TCP; then what goes wrong.
\<close>

section \<open>UDP with retransmission\<close>

definition fresh :: "bool list \<Rightarrow> traffic" where
  "fresh oks = \<lparr>sends = oks, sent = [], printed = []\<rparr>"

lemma fresh_sends: "sends (fresh []) = []" and fresh_printed: "printed (fresh oks) = []"
  by (simp_all add: fresh_def)

text \<open>Every packet that a side gets from the other has been sent by the other.\<close>

definition network :: "nat \<Rightarrow> nat \<Rightarrow> event list \<Rightarrow> traffic \<Rightarrow> bool" where
  "network from to es out \<longleftrightarrow> (\<forall>b. Packet from b \<in> set es \<longrightarrow> (to, b) \<in> set (sent out))"

text \<open>C: UDP with retransmission never mixes up a file without a zero byte (from a zero byte on a chunk
  is not printed, lemma \<open>zero_byte_cuts\<close>). Whatever the network loses, repeats, delays or lets
  pass in another order, whatever strangers send, and whichever calls of sendto fail: what the server
  prints in a session is the start of the client's file, and when the client comes to its end the server has
  printed the whole file.\<close>

theorem udpr_is_safe:
  assumes "sid < 2 ^ 64" and "length data < 2 ^ 64" and "0 \<notin> set data"
    and "handle_udpr_client server sid data es_c (fresh oks_c) = (r, es_c', out_c)"
    and "udpr_session client sid (length data) es_s (fresh oks_s) = (es_s', out_s)"
    and "network client server es_s out_c" and "network server client es_c out_s"
  shows "prefix (printed out_s) data \<and> (r = OK_COMMUNICATION \<longrightarrow> printed out_s = data)"
proof -
  have "genuine client sid data es_s"
    using udpr_client_sends [OF assms(4,2)] assms(6)
    by (fastforce simp: genuine_def network_def sends_only_def fresh_def)
  from udpr_session_prints [OF assms(5) this assms(1-3)] have
    p: "(\<exists>m. printed out_s = take m data) \<and> (\<not> no_receipt out_s \<longrightarrow> data \<noteq> [] \<and> printed out_s = data)"
    by (simp add: fresh_def no_receipt_def)
  moreover have "\<not> no_receipt out_s" if "r = OK_COMMUNICATION"
    using udpr_client_receipt [of server sid data es_c "fresh oks_c" es_c' out_c] assms(4,7) that
    by (fastforce simp: network_def no_receipt_def)
  ultimately show ?thesis using take_is_prefix by metis
qed

text \<open>
  What comes to the client: the acceptance, the acknowledgements and the receipt, each after timeouts and
  repeated packets. At most five timeouts come before a packet, none before the receipt, for which the client
  does not wait again.
\<close>

definition client_events ::
  "nat \<Rightarrow> nat \<Rightarrow> byte list \<Rightarrow> event list \<Rightarrow> (nat \<Rightarrow> event list) \<Rightarrow> event list \<Rightarrow> event list"
where
  "client_events server sid data t u w =
     late t server (CONACC_packet sid) @ acks_from server sid data u 0 @ late w server (RCVD_packet sid)"

definition bearable ::
  "nat \<Rightarrow> nat \<Rightarrow> nat \<Rightarrow> byte list \<Rightarrow> event list \<Rightarrow> (nat \<Rightarrow> event list) \<Rightarrow> event list \<Rightarrow> (nat \<Rightarrow> event list) \<Rightarrow> bool"
where
  "bearable client server sid data t u w v \<longleftrightarrow>
     waits MAX_RETRANSMITS (\<lambda>_. False) t \<and> (\<forall>j. waits MAX_RETRANSMITS (old_ack server sid j) (u j)) \<and>
     waits 0 (any_ack server sid (chunks data)) w \<and> (\<forall>j. waits MAX_RETRANSMITS (old_data client sid data j) (v j))"

lemma client_returns:
  assumes "sid < 2 ^ 64" and "length data < 2 ^ 64" and b: "bearable client server sid data t u w v"
  shows "\<exists>out. handle_udpr_client server sid data (client_events server sid data t u w) (fresh []) =
      (OK_COMMUNICATION, [], out) \<and>
    all_sent (fresh []) out server
      (insert (CONN_packet sid udpr_protocol_id (length data)) (data_packet sid data ` {0..<chunks data}))"
proof -
  let ?receipt = "late w server (RCVD_packet sid)"
  let ?rest = "acks_from server sid data u 0 @ ?receipt" and ?conn = "CONN_packet sid udpr_protocol_id (length data)"
  obtain out1 where 1: "conn_loop (Suc MAX_RETRANSMITS) server sid (length data)
      (late t server (CONACC_packet sid) @ ?rest) (fresh []) = (OK_COMMUNICATION, ?rest, out1)"
      "all_sent (fresh []) out1 server {?conn}"
    using conn_loop_returns [OF _ fresh_sends assms(1)] b unfolding bearable_def by blast
  obtain out2 where 2: "data_loop server sid 0 data ?rest out1 = (OK_COMMUNICATION, ?receipt, out2)"
      "all_sent out1 out2 server (data_packet sid data ` {0..<chunks data})"
    using data_loop_returns [OF _ all_sent_sends [OF 1(2)] assms(1,2), where server = server and u = u and k = 0 and es = ?receipt] b
    unfolding bearable_def by auto
  have "all_sent (fresh []) out2 server (insert ?conn (data_packet sid data ` {0..<chunks data}))"
    using all_sent_trans [OF 1(2) 2(2)] by (simp only: insert_is_Un [symmetric])
  moreover have "recv_rcvd_packet_with_retr server sid ?receipt = (OK_COMMUNICATION, [])"
    using rcvd_accepted [OF _ assms(1)] b unfolding bearable_def by blast
  then have "handle_udpr_client server sid data (client_events server sid data t u w) (fresh []) =
      (OK_COMMUNICATION, [], out2)"
    using 1(1) 2(1)
    by (simp add: handle_udpr_client_def client_events_def send_conn_packet_and_recv_conacc_retr_def
        send_data_packets_and_recv_acc_retr_def comm_defs del: conn_loop.simps recv_rcvd_packet_with_retr.simps)
  ultimately show ?thesis by blast
qed

lemma server_returns:
  assumes "sid < 2 ^ 64" and "length data < 2 ^ 64" and "0 \<notin> set data" and "data \<noteq> []"
    and "\<forall>j. waits MAX_RETRANSMITS (old_data client sid data j) (v j)"
  shows "\<exists>out. udpr_session client sid (length data) (datas_from client sid data v 0) (fresh []) = ([], out) \<and>
    printed out = data \<and>
    all_sent (fresh []) out client ({CONACC_packet sid, RCVD_packet sid} \<union> ACC_packet sid ` {0..<chunks data})"
proof -
  have z: "0 < chunks data" using assms(4) by (simp add: chunks_iff)
  let ?rest = "datas_from client sid data v (Suc 0)" and ?first = "length (chunk data 0)"
  obtain out1 where 1: "conacc_loop (Suc MAX_RETRANSMITS) client sid (length data)
      (late (v 0) client (data_packet sid data 0) @ ?rest) (fresh []) = (OK_COMMUNICATION, ?first, ?rest, out1)"
      "all_sent (fresh []) out1 client {CONACC_packet sid}" "printed out1 = take BUFFER_SIZE data"
    using conacc_loop_returns [OF _ fresh_sends assms(1,2,4,3) fresh_printed] assms(5) by blast
  have f: "?first + (length data - ?first) = length data" "?first + 0 = min (BUFFER_SIZE * Suc 0) (length data)"
    by (simp_all add: chunk_def min.commute)
  obtain out2 where 2: "acc_loop (Suc MAX_RETRANSMITS) client sid (length data - ?first) 0 0 (?rest @ []) out1 =
      (OK_COMMUNICATION, [], out2)"
      "all_sent out1 out2 client (ACC_packet sid ` {0..<chunks data})" "printed out2 = data"
    using acc_loop_returns [OF assms(5,1-3) f(1) all_sent_sends [OF 1(2)] z f(2), where es = "[]"] 1(3) by auto
  obtain out3 where 3: "sendto client (RCVD_packet sid) out2 = (True, out3)" "all_sent out2 out3 client {RCVD_packet sid}"
    using sendto_all [OF all_sent_sends [OF 2(2)]] by blast
  have "udpr_session client sid (length data) (datas_from client sid data v 0) (fresh []) = ([], out3)"
    using 1(1) 2(1) 3(1) by (simp add: datas_from_step [OF z] udpr_session_def send_conacc_packet_and_recv_data_packet_def
        send_acc_packet_and_recv_data_packet_def send_rcvd_packet_def comm_defs del: conacc_loop.simps)
  moreover have "printed out3 = data" using sendto_quiet [OF 3(1)] 2(3) by simp
  moreover have "all_sent (fresh []) out3 client ({CONACC_packet sid, RCVD_packet sid} \<union> ACC_packet sid ` {0..<chunks data})"
    using 1(2) 2(2) 3(2) by (auto simp: all_sent_def)
  ultimately show ?thesis by blast
qed

lemma losses_network:
  assumes b: "bearable client server sid data t u w v"
    and c: "all_sent (fresh []) out_c server
      (insert (CONN_packet sid udpr_protocol_id (length data)) (data_packet sid data ` {0..<chunks data}))"
    and s: "all_sent (fresh []) out_s client ({CONACC_packet sid, RCVD_packet sid} \<union> ACC_packet sid ` {0..<chunks data})"
  shows "network client server (datas_from client sid data v 0) out_c"
    and "network server client (client_events server sid data t u w) out_s"
proof -
  note w = b [unfolded bearable_def]
  show "network client server (datas_from client sid data v 0) out_c"
    unfolding network_def
  proof (intro allI impI)
    fix p assume "Packet client p \<in> set (datas_from client sid data v 0)"
    then obtain j where j: "j < chunks data" "p = data_packet sid data j \<or> Packet client p \<in> set (v j)"
      by (auto simp: datas_from_def late_def)
    moreover have "old_data client sid data j (Packet client p)" if "Packet client p \<in> set (v j)"
      using waits_packet that w by blast
    ultimately show "(server, p) \<in> set (sent out_c)" using c by (auto simp: all_sent_def)
  qed
  show "network server client (client_events server sid data t u w) out_s"
    unfolding network_def
  proof (intro allI impI)
    fix p assume "Packet server p \<in> set (client_events server sid data t u w)"
    then consider "p = CONACC_packet sid" | "p = RCVD_packet sid" | "Packet server p \<in> set t" | "Packet server p \<in> set w"
      | j where "j < chunks data" "p = ACC_packet sid j \<or> Packet server p \<in> set (u j)"
      by (auto simp: client_events_def acks_from_def late_def)
    then show "(client, p) \<in> set (sent out_s)"
    proof cases
      case 3
      with w waits_packet show ?thesis by blast
    next
      case 4
      with w waits_packet have "any_ack server sid (chunks data) (Packet server p)" by blast
      with s show ?thesis by (auto simp: all_sent_def)
    next
      case (5 j)
      moreover have "old_ack server sid j (Packet server p)" if "Packet server p \<in> set (u j)"
        using waits_packet that w by blast
      ultimately show ?thesis using s by (auto simp: all_sent_def)
    qed (use s in \<open>auto simp: all_sent_def\<close>)
  qed
qed


section \<open>TCP\<close>

definition tcp_client_stream :: "nat \<Rightarrow> byte list \<Rightarrow> byte list" where
  "tcp_client_stream sid data = CONN_packet sid tcp_protocol_id (length data) @ data_stream sid data 0"

text \<open>C: A file without a zero byte over TCP. However the two streams are cut into pieces, when no call fails
  the client sends one stream, the server prints the file from this stream and answers with the acceptance and the receipt, and on
  this answer the client comes to its end without an error.\<close>

theorem tcp_roundtrip:
  assumes "sid < 2 ^ 64" and "length data < 2 ^ 64" and "0 \<notin> set data" and "smooth c" and "smooth s"
    and "incoming c = CONACC_packet sid @ RCVD_packet sid" and "outgoing c = []"
    and "incoming s = tcp_client_stream sid data" and "outgoing s = []" and "screen s = []"
  shows "(\<exists>c'. handle_tcp_client tcp_protocol_id sid data c = (True, c') \<and> outgoing c' = incoming s) \<and>
    screen (tcp_session tcp_protocol_id s) = data \<and> outgoing (tcp_session tcp_protocol_id s) = incoming c"
proof (rule conjI)
  let ?conn = "CONN_packet sid tcp_protocol_id (length data)"
  obtain w1 where 1: "writen ?conn c = (int (length ?conn), c\<lparr>outgoing := outgoing c @ ?conn, writes := w1\<rparr>)" "0 \<notin> set w1"
    using writen_smooth [OF assms(4), of ?conn] by blast
  let ?c1 = "c\<lparr>outgoing := ?conn, writes := w1\<rparr>"
  have c1: "smooth ?c1" using assms(4) 1(2) by (simp add: smooth_def)
  obtain r2 where 2: "readn 9 ?c1 = (9, CONACC_packet sid, ?c1\<lparr>incoming := RCVD_packet sid, reads := r2\<rparr>)" "0 \<notin> set r2"
    using readn_smooth [OF c1, of "CONACC_packet sid" "RCVD_packet sid"] assms(6) by auto
  let ?c2 = "?c1\<lparr>incoming := RCVD_packet sid, reads := r2\<rparr>"
  have c2: "smooth ?c2" using c1 2(2) by (simp add: smooth_def)
  obtain w3 where 3: "write_data_packets sid 0 data ?c2 =
      (OK_COMMUNICATION, ?c2\<lparr>outgoing := ?conn @ data_stream sid data 0, writes := w3\<rparr>)" "0 \<notin> set w3"
    using write_data_smooth [OF c2 assms(2), of sid 0] by auto
  let ?c3 = "?c2\<lparr>outgoing := ?conn @ data_stream sid data 0, writes := w3\<rparr>"
  have c3: "smooth ?c3" using c2 3(2) by (simp add: smooth_def)
  obtain r4 where "readn 9 ?c3 = (9, RCVD_packet sid, ?c3\<lparr>incoming := [], reads := r4\<rparr>)"
    using readn_smooth [OF c3, of "RCVD_packet sid" "[]"] by auto
  then show "\<exists>c'. handle_tcp_client tcp_protocol_id sid data c = (True, c') \<and> outgoing c' = incoming s"
    using 1(1) 2(1) 3(1) assms(1,6-8)
    by (simp add: handle_tcp_client_def write_conn_packet_def read_conacc_packet_def read_rcvd_packet_def
        comm_defs tcp_client_stream_def)
next
  let ?conn = "CONN_packet sid tcp_protocol_id (length data)"
  obtain r1 where 1: "readn 18 s = (18, ?conn, s\<lparr>incoming := data_stream sid data 0, reads := r1\<rparr>)" "0 \<notin> set r1"
    using readn_smooth [OF assms(5), of ?conn "data_stream sid data 0"] assms(8) by (auto simp: tcp_client_stream_def)
  let ?s1 = "s\<lparr>incoming := data_stream sid data 0, reads := r1\<rparr>"
  have s1: "smooth ?s1" using assms(5) 1(2) by (simp add: smooth_def)
  obtain w2 where 2: "writen (CONACC_packet sid) ?s1 = (9, ?s1\<lparr>outgoing := CONACC_packet sid, writes := w2\<rparr>)" "0 \<notin> set w2"
    using writen_smooth [OF s1, of "CONACC_packet sid"] assms(9) by auto
  let ?s2 = "?s1\<lparr>outgoing := CONACC_packet sid, writes := w2\<rparr>"
  have s2: "smooth ?s2" using s1 2(2) by (simp add: smooth_def)
  obtain r3 where 3: "read_data_packets (length data) sid 0 0 ?s2 =
      (OK_COMMUNICATION, ?s2\<lparr>incoming := [], reads := r3, screen := data\<rparr>)" "0 \<notin> set r3"
    using read_data_smooth [OF s2 _ assms(1-3), of 0 "[]"] assms(10) by auto
  let ?s3 = "?s2\<lparr>incoming := [], reads := r3, screen := data\<rparr>"
  have s3: "smooth ?s3" using s2 3(2) by (simp add: smooth_def)
  obtain w4 where "writen (RCVD_packet sid) ?s3 =
      (9, ?s3\<lparr>outgoing := CONACC_packet sid @ RCVD_packet sid, writes := w4\<rparr>)"
    using writen_smooth [OF s3, of "RCVD_packet sid"] by auto
  then show "screen (tcp_session tcp_protocol_id s) = data \<and> outgoing (tcp_session tcp_protocol_id s) = incoming c"
    using 1(1) 2(1) 3(1) assms(1,2,6)
    by (simp add: tcp_session_def read_conn_packet_def write_conacc_packet_def write_rcvd_packet_def comm_defs
        tcp_protocol_id_def)
qed

section \<open>UDP\<close>

text \<open>C: UDP without retransmission does not mix up a file without a zero byte either: the server prints the start of the file,
  and when the client comes to its end the server has printed the whole file.\<close>

theorem udp_is_safe:
  assumes "sid < 2 ^ 64" and "length data < 2 ^ 64" and "0 \<notin> set data"
    and "handle_udp_client server sid data es_c (fresh oks_c) = (r, es_c', out_c)"
    and "udp_session client sid (length data) es_s (fresh oks_s) = (es_s', out_s)"
    and "network client server es_s out_c" and "network server client es_c out_s"
  shows "prefix (printed out_s) data \<and> (r = OK_COMMUNICATION \<longrightarrow> printed out_s = data)"
proof -
  have "genuine client sid data es_s"
    using udp_client_sends [OF assms(4,2)] assms(6)
    by (fastforce simp: genuine_def network_def sends_only_def fresh_def)
  from udp_session_prints [OF assms(5) this assms(1-3)] have
    p: "(\<exists>m. printed out_s = take m data) \<and> (\<not> no_receipt out_s \<longrightarrow> printed out_s = data)"
    by (simp add: fresh_def no_receipt_def)
  moreover have "\<not> no_receipt out_s" if "r = OK_COMMUNICATION"
    using udp_client_receipt [of server sid data es_c "fresh oks_c" es_c' out_c] assms(4,7) that
    by (fastforce simp: network_def no_receipt_def)
  ultimately show ?thesis using take_is_prefix by metis
qed

text \<open>A CONN packet starts a session of the protocol that it asks for.\<close>

lemma conn_starts_session:
  assumes "sid < 2 ^ 64" and "len < 2 ^ 64"
  shows "handle_udp_connection (Packet a (CONN_packet sid udp_protocol_id len) # es) out =
      (case udp_session a sid len es out of (es, out) \<Rightarrow> handle_udp_connection es out)"
    and "handle_udp_connection (Packet a (CONN_packet sid udpr_protocol_id len) # es) out =
      (case udpr_session a sid len es out of (es, out) \<Rightarrow> handle_udp_connection es out)"
  using assms by (subst handle_udp_connection.simps, simp add: Let_def comm_defs udp_protocol_id_def udpr_protocol_id_def)+

section \<open>What goes wrong\<close>

text \<open>
  A chunk that comes again although less than its size is left to come ends the transfer: the
  server compares the size with what is left before it sees that the packet is an old one. So when the
  acknowledgement of the first chunk is lost, the retransmission makes the server give up.
\<close>

lemma old_chunk_ends_transfer:
  assumes "sid < 2 ^ 64" and "BUFFER_SIZE < length data" and "length data < 2 * BUFFER_SIZE" and "0 \<notin> set data"
  shows "\<exists>out. udpr_session client sid (length data)
      (Packet client (data_packet sid data 0) # Packet client (data_packet sid data 0) # es) (fresh []) = (es, out) \<and>
    printed out = take BUFFER_SIZE data"
proof -
  let ?p = "data_packet sid data 0"
  have len: "length data < 2 ^ 64" using assms(3) by (simp add: BUFFER_SIZE_def)
  have ne: "data \<noteq> []" using assms(2) by auto
  have l: "length (chunk data 0) = BUFFER_SIZE" using assms(2) by (simp add: chunk_def)
  obtain out1 where 1: "conacc_loop (Suc MAX_RETRANSMITS) client sid (length data) (Packet client ?p # Packet client ?p # es) (fresh []) =
      (OK_COMMUNICATION, BUFFER_SIZE, Packet client ?p # es, out1)" "all_sent (fresh []) out1 client {CONACC_packet sid}"
      "printed out1 = take BUFFER_SIZE data"
    using conacc_loop_returns [OF _ fresh_sends assms(1) len ne assms(4) fresh_printed, of MAX_RETRANSMITS client "[]" "Packet client ?p # es"] l
    by (auto simp del: conacc_loop.simps)
  obtain out2 where 2: "sendto client (ACC_packet sid 0) out1 = (True, out2)"
    using sendto_all [OF all_sent_sends [OF 1(2)]] by blast
  have lt: "length data - BUFFER_SIZE < BUFFER_SIZE" using assms(3) by simp
  have f: "take MAX_LEN ?p = ?p" "length ?p = 21 + BUFFER_SIZE" "data_bytes_len ?p = BUFFER_SIZE" "session_id ?p = sid"
    "packet_type ?p = 4"
    using data_packet_fields [OF assms(1), of 0 data] l by simp_all
  have "recv_data_packet_retr client sid 1 0 (length data - BUFFER_SIZE) (Packet client ?p # es) out2 =
      (EXIT_COMMUNICATION, 0, es, send_rjt_packet client sid 1 out2)"
    using f lt by (simp add: Let_def BUFFER_SIZE_def)
  then have "acc_loop (Suc MAX_RETRANSMITS) client sid (length data - BUFFER_SIZE) 0 0 (Packet client ?p # es) out1 =
      (EXIT_COMMUNICATION, es, send_rjt_packet client sid 1 out2)"
    using 2 assms(2) by (subst acc_loop.simps) (simp add: comm_defs)
  then have "udpr_session client sid (length data) (Packet client ?p # Packet client ?p # es) (fresh []) =
      (es, send_rjt_packet client sid 1 out2)"
    using 1(1) by (simp add: udpr_session_def send_conacc_packet_and_recv_data_packet_def
        send_acc_packet_and_recv_data_packet_def comm_defs del: conacc_loop.simps)
  moreover have "printed (send_rjt_packet client sid 1 out2) = take BUFFER_SIZE data"
    using sendto_quiet [OF 2] 1(3) sendto_quiet by (metis prod.collapse send_rjt_packet_def)
  ultimately show ?thesis by blast
qed

text \<open>An empty file cannot be sent with retransmission: the server waits for a chunk.\<close>

lemma empty_file_fails:
  assumes "sid < 2 ^ 64" and "handle_udpr_client server sid [] es_c (fresh oks_c) = (r, es_c', out_c)"
    and "udpr_session client sid 0 es_s (fresh oks_s) = (es_s', out_s)"
    and "network client server es_s out_c" and "network server client es_c out_s"
  shows "r \<noteq> OK_COMMUNICATION"
proof
  assume r: "r = OK_COMMUNICATION"
  have "genuine client sid [] es_s"
    using udpr_client_sends [OF assms(2)] assms(4)
    by (fastforce simp: genuine_def network_def sends_only_def fresh_def)
  from udpr_session_prints [of client sid "[]", OF _ this assms(1)] assms(3) have "no_receipt out_s"
    by (auto simp: fresh_def no_receipt_def)
  with udpr_client_receipt [of server sid "[]" es_c "fresh oks_c" es_c' out_c] assms(2,5) r show False
    by (fastforce simp: network_def no_receipt_def)
qed

text \<open>The server prints a chunk as a string: from the first zero byte on it is lost, and nobody notices.\<close>

lemma zero_byte_cuts:
  assumes "sid < 2 ^ 64" and "length d < BUFFER_SIZE"
  shows "\<exists>out. udp_session client sid (Suc (length d)) [Packet client (data_packet sid (0 # d) 0)] (fresh []) = ([], out) \<and>
    printed out = [] \<and> (client, RCVD_packet sid) \<in> set (sent out)"
proof -
  have c: "chunk (0 # d) 0 = 0 # d" using assms(2) by (simp add: chunk_def)
  note f = data_packet_fields [OF assms(1), of 0 "0 # d", unfolded c]
  have "recv_data_packets client sid (Suc (length d)) 0 0 [Packet client (data_packet sid (0 # d) 0)] out =
      (OK_COMMUNICATION, [], out)" for out
    using f assms(2) by (simp add: Let_def BUFFER_SIZE_def MIN_DATA_LEN_def MAX_DATA_LEN_def print_data_def)
  then show ?thesis
    by (simp add: udp_session_def send_conacc_packet_def sendto_def fresh_def send_rcvd_packet_def comm_defs
        del: recv_data_packets.simps)
qed

section \<open>The properties on examples\<close>

text \<open>The acceptance is lost twice; the acknowledgement comes after a repeated acceptance and is lost once, and
  the receipt comes after a repeated acknowledgement. The chunk is lost three times, and the first packet comes
  twice.\<close>

definition some_losses :: "nat \<Rightarrow> nat \<Rightarrow> event list \<Rightarrow> (nat \<Rightarrow> event list) \<Rightarrow> event list \<Rightarrow> (nat \<Rightarrow> event list) \<Rightarrow> bool" where
  "some_losses client server t u w v \<longleftrightarrow> t = [Timeout, Timeout] \<and>
     u = (\<lambda>j. if j = 0 then [Packet server (CONACC_packet 9), Timeout] else []) \<and>
     w = [Packet server (ACC_packet 9 0)] \<and>
     v = (\<lambda>j. if j = 0 then [Timeout, Packet client (CONN_packet 9 udpr_protocol_id 2), Timeout, Timeout] else [])"

lemma some_losses_bearable:
  assumes "some_losses client server t u w v"
  shows "bearable client server 9 [72, 105] t u w v"
proof -
  have "0 < chunks [72, 105]" by (simp add: chunks_iff)
  then show ?thesis using assms
    by (auto simp: bearable_def some_losses_def MAX_RETRANSMITS_def numeral_eq_Suc)
qed


theorem udpr_is_safe_witness:
  "\<exists>t u w v es_c' out_c es_s' out_s. some_losses 2 1 t u w v \<and>
    handle_udpr_client 1 9 [72, 105] (client_events 1 9 [72, 105] t u w) (fresh []) = (OK_COMMUNICATION, es_c', out_c) \<and>
    udpr_session 2 9 (length [72, 105 :: byte]) (datas_from 2 9 [72, 105] v 0) (fresh []) = (es_s', out_s) \<and>
    printed out_s = [72, 105]"
proof -
  let ?d = "[72, 105] :: byte list"
  obtain t u w v where l: "some_losses 2 1 t u w v" unfolding some_losses_def by blast
  have h: "(9 :: nat) < 2 ^ 64" "length ?d < 2 ^ 64" "0 \<notin> set ?d" "?d \<noteq> []" by simp_all
  note b = some_losses_bearable [OF l, unfolded bearable_def]
  obtain out_c where c: "handle_udpr_client 1 9 ?d (client_events 1 9 ?d t u w) (fresh []) = (OK_COMMUNICATION, [], out_c)"
      "all_sent (fresh []) out_c 1 (insert (CONN_packet 9 udpr_protocol_id (length ?d)) (data_packet 9 ?d ` {0..<chunks ?d}))"
    using client_returns [OF h(1,2) some_losses_bearable [OF l]] by blast
  obtain out_s where s: "udpr_session 2 9 (length ?d) (datas_from 2 9 ?d v 0) (fresh []) = ([], out_s)"
      "all_sent (fresh []) out_s 2 ({CONACC_packet 9, RCVD_packet 9} \<union> ACC_packet 9 ` {0..<chunks ?d})"
    using server_returns [OF h] b by blast
  have n1: "network 2 1 (datas_from 2 9 ?d v 0) out_c" and n2: "network 1 2 (client_events 1 9 ?d t u w) out_s"
    using losses_network [OF some_losses_bearable [OF l] c(2) s(2)] by blast+
  from udpr_is_safe [OF h(1-3) c(1) s(1) n1 n2] c(1) s(1) l show ?thesis by blast
qed

theorem udp_is_safe_witness:
  "\<exists>es_c' out_c es_s' out_s. handle_udp_client 1 9 [72, 105] [Packet 1 (CONACC_packet 9), Packet 1 (RCVD_packet 9)] (fresh []) =
      (OK_COMMUNICATION, es_c', out_c) \<and>
    udp_session 2 9 2 [Packet 2 (data_packet 9 [72, 105] 0)] (fresh []) = (es_s', out_s) \<and> printed out_s = [72, 105]"
proof -
  let ?d = "[72, 105] :: byte list"
  have ch: "chunk ?d 0 = ?d" by (simp add: chunk_def BUFFER_SIZE_def)
  obtain out_c where c: "handle_udp_client 1 9 ?d [Packet 1 (CONACC_packet 9), Packet 1 (RCVD_packet 9)] (fresh []) =
      (OK_COMMUNICATION, [], out_c)" "(1, data_packet 9 ?d 0) \<in> set (sent out_c)"
    by (simp add: handle_udp_client_def send_conn_packet_def sendto_def fresh_def comm_defs send_data_packets.simps
        Let_def BUFFER_SIZE_def data_packet_def chunk_def)
  note f = data_packet_fields [of 9 0 ?d, unfolded ch, simplified]
  obtain out_s where s: "udp_session 2 9 (length ?d) [Packet 2 (data_packet 9 ?d 0)] (fresh []) = ([], out_s)"
      "(2, CONACC_packet 9) \<in> set (sent out_s)" "(2, RCVD_packet 9) \<in> set (sent out_s)"
    using f by (simp add: udp_session_def send_conacc_packet_def sendto_def fresh_def comm_defs send_rcvd_packet_def
        Let_def MIN_DATA_LEN_def MAX_DATA_LEN_def print_data_def)
  have n: "network 2 1 [Packet 2 (data_packet 9 ?d 0)] out_c" "network 1 2 [Packet 1 (CONACC_packet 9), Packet 1 (RCVD_packet 9)] out_s"
    using c(2) s(2,3) by (auto simp: network_def)
  from udp_is_safe [OF _ _ _ c(1) s(1) n] c(1) s(1) show ?thesis by (simp add: numeral_2_eq_2 [symmetric])
qed

definition cut_client :: tcp where
  "cut_client = \<lparr>incoming = CONACC_packet 9 @ RCVD_packet 9, reads = [1, 3, 100, 2], closes = True, writes = [2, 7],
     outgoing = [], screen = []\<rparr>"

definition cut_server :: tcp where
  "cut_server = \<lparr>incoming = tcp_client_stream 9 [72, 105], reads = [5, 1, 1], closes = False, writes = [1, 1, 1],
     outgoing = [], screen = []\<rparr>"

theorem tcp_roundtrip_witness:
  "(\<exists>c'. handle_tcp_client tcp_protocol_id 9 [72, 105] cut_client = (True, c') \<and> outgoing c' = incoming cut_server) \<and>
    screen (tcp_session tcp_protocol_id cut_server) = [72, 105] \<and>
    outgoing (tcp_session tcp_protocol_id cut_server) = incoming cut_client"
  by (rule tcp_roundtrip) (simp_all add: cut_client_def cut_server_def smooth_def)

end
