(* ===== verification/Spec2Isabelle.thy ===== *)
theory Spec2Isabelle
  imports Seq_Props Life_Props SameGame_Props Poset_Props Parking_Props College_Props CowStack_Props Crosswords_Props SimpleQueue_Props RingsQueue_Props Kierki_Props Kierki_Threads_Props Ppcb_Props
begin

text \<open>
  The programs of the repository's courses, verified: the C and C++ projects of the first two
  years. The projects are independent of each other, so the development has one group of
  theories per project and a few shared ones. Every group has a theory (or two) that translates
  the code, statement by statement and under the code's names, theories with the invariant and
  the lemmas, and a theory \<open>..._Props\<close> that ends in the properties. A property is a theorem after
  a text block that starts with its number.

  \<^bold>\<open>Shared theories.\<close> \<open>Prelude\<close>: addresses, \<open>errno\<close>, \<open>malloc\<close> with a list of outcomes as an
  argument, lemma collections. \<open>Refine\<close>: the locales \<open>simulation\<close> and \<open>guarded_simulation\<close>, which carry
  the simulation of one call over to all sequences of calls, and to all that the specification permits. \<open>Stdio\<close>: \<open>getchar\<close>, \<open>scanf\<close> and \<open>printf\<close> with \<open>%d\<close> on strings,
  and the round trip of decimal numbers. \<open>Cpp_Std\<close>: exceptions as a sum type, \<open>substr\<close>, \<open>stoi\<close>,
  \<open>getline\<close>. \<open>Regex\<close>: the part of \<open>std::regex\<close> that is used, as an executable matcher by
  derivatives that is proved to decide the language. \<open>Ordered\<close>: \<open>std::set\<close> and \<open>std::map\<close> with a
  comparator, under the laws of the locale \<open>strict_weak\<close>. \<open>Concurrent\<close>: machines whose threads make
  one atomic step at a time, their histories of calls and returns, the atomic object, and the
  locales \<open>safe_machine\<close>, \<open>progress\<close>, \<open>atomic_object\<close>, \<open>possible_states\<close> and \<open>allocating\<close>.

  \<^bold>\<open>seq.c\<close> (I year, computer architecture): sets of words over three letters with named
  equivalence classes, on a trie of heap nodes. \<open>Seq_Trie\<close> and \<open>Seq_Names\<close> translate all functions of
  the interface; the heap of classes and strings is explicit, so that double frees, dangling reads
  and leaks can be stated. \<open>Seq_Tree\<close> and \<open>Seq_Store\<close> hold the invariant (the locale \<open>tree_sum\<close> counts
  references in the tree), \<open>Seq_Correct\<close> and \<open>Seq_Equiv\<close> the effect of each operation on every
  branch, \<open>Seq_Props\<close> the contracts, memory safety of all call sequences under all allocation
  failures, and the one case that leaks.

  \<^bold>\<open>GameOfLife.c\<close> and \<^bold>\<open>SameGame.c\<close> (I year, introduction). \<open>Life\<close> and \<open>Life_Play\<close> translate the list
  of cells, one generation, reading, dumping, drawing and the loop of commands; \<open>Life_Gen\<close> relates the
  two loops of a generation to the rule of the game, \<open>Life_Text\<close> the text formats, \<open>Life_Props\<close> states
  the properties, among them that a single cell does not die out. \<open>SameGame\<close>, \<open>SameGame_Group\<close> (the
  recursive removal ends and empties the connected group) and \<open>SameGame_Props\<close> do the same for one
  move of the block game.

  \<^bold>\<open>poset.cc\<close> (C++ project 2): posets behind identifiers. \<open>Poset\<close> translates the global state, the
  square array of relations and all functions with their diagnostics; \<open>Poset_Spec\<close> is the abstract
  specification (a partial order on a set of strings); \<open>Poset_Order\<close> describes the loops on the array;
  \<open>Poset_Props\<close> proves the refinement and what follows.

  \<^bold>\<open>parking.cc\<close> (project 1): \<open>Parking\<close> translates the program, \<open>Parking_Text\<close> says what its lines mean,
  \<open>Parking_Props\<close> proves that every run prints what a ledger with an absolute clock says.
  \<^bold>\<open>crosswords.h\<close> (project 3): \<open>Crosswords\<close> has the rectangles, words and crosswords on 64-bit
  coordinates with their wrap-around, \<open>Crosswords_Props\<close> the invariant of the map of letters and the
  picture. \<^bold>\<open>stack.h\<close> (project 4): \<open>CowStack\<close> has values in cells, shared inner stacks behind addresses
  and a supply of failing allocations; \<open>CowStack_Inner\<close> is a calculus of weakest preconditions for
  statements that may throw, \<open>CowStack_Vars\<close> the copy on write, \<open>CowStack_Props\<close> the refinement of
  independent lists and the strong guarantee, for uses that make no push on a stack from below whose top \<open>pop(key)\<close>
  took an element, which the code may lose (a ghost mark per variable follows where that happened), and that
  write nothing through references. \<^bold>\<open>college.h\<close> (project 5): \<open>College\<close>, the invariant in
  \<open>College_Inv\<close>, the properties in \<open>College_Props\<close>.

  \<^bold>\<open>SimpleQueue.c\<close> and \<^bold>\<open>RingsQueue.c\<close> (concurrent programming): \<open>SimpleQueue\<close> and \<open>RingsQueue\<close> have one
  constructor of the program counter per statement that touches shared memory; the operations are
  step functions on the state of all threads. \<open>SimpleQueue_Props\<close> is a forward simulation by the
  atomic queue; in \<open>RingsQueue_Inv\<close> and \<open>RingsQueue_Props\<close> a state stands for a set of atomic states,
  since whether a pop has found the queue empty is known only after three reads. Both queues are
  shown linearizable, free of undefined behaviour, and all their calls return, as long as no allocation of a
  push fails (the outcomes of \<open>malloc\<close> are part of the state; the locale \<open>allocating\<close> carries the results
  for a memory that never ends over to runs in which no allocation has failed yet); what happens after a failed
  one is shown as well.

  \<^bold>\<open>kierki\<close> (computer networks, project 2), a card game of four clients at a server. \<open>Kierki_Common\<close>
  has the results of a run (\<open>Returns\<close>, \<open>Exits\<close>, \<open>Undefined\<close>, \<open>Loops\<close>), sockets as lists of the outcomes
  of their reads and writes, and the functions on cards; \<open>Kierki_Player\<close> the player and its choice of a
  card; \<open>Kierki_Client\<close> the messages and the course of a game at a client; \<open>Kierki_Deal\<close> the tricks, deals
  and points at the server; \<open>Kierki_Server\<close> its messages and the turn of a player; \<open>Kierki_Wire\<close> how a
  text is read from a socket, \<open>Kierki_Score\<close> when the SCORE messages are read, \<open>Kierki_Turn\<close> one
  turn, \<open>Kierki_Game\<close> a whole game, \<open>Kierki_Rules\<close> the winner and the points; the properties are in
  \<open>Kierki_Props\<close>. \<open>Kierki_Threads\<close> is the machine of the server's four threads with their barriers and
  semaphores; \<open>Kierki_Threads_Inv\<close> says how the game must go, \<open>Kierki_Threads_Steps\<close>, \<open>_Turn\<close> and
  \<open>_Taken\<close> have the invariant and its preservation by every step, \<open>Kierki_Threads_Play\<close> that somebody
  can always go on and that every step is one towards the end, \<open>Kierki_Threads_Props\<close> the properties.
  Time stamps of the log are left out; what a user types is carried out while a card is awaited.

  \<^bold>\<open>PPCB\<close> (computer networks, project 1), a transfer of files over TCP, UDP and UDP with retransmission.
  \<open>Ppcb_Common\<close> has the packets byte by byte and sockets as lists of events (a packet with its sender, a
  timeout, an error); \<open>Ppcb_Udp\<close> the functions of \<open>server_udp.c\<close>, \<open>server_udpr.c\<close> and the loop of the
  server, \<open>Ppcb_Client\<close> the clients and the reading of the file, \<open>Ppcb_Tcp\<close> both sides over TCP with short
  reads and writes. \<open>Ppcb_Transfer\<close> says which packets a client sends, \<open>Ppcb_Safe\<close> and \<open>Ppcb_Plain\<close> what
  a server prints when everything it gets from the client's address was sent by the client, \<open>Ppcb_Live\<close>
  that the loops of retransmission end well when losses are few; \<open>Ppcb_Props\<close> has the properties and what
  goes wrong: a repeated chunk near the end of the file, an empty file, a zero byte in the file.
  The session id is an argument, messages to stderr are left out, and \<open>malloc\<close> does not fail.

  \<^bold>\<open>Conventions and bounds.\<close> \<open>None\<close> as the result of an operation is undefined behaviour of the code
  (or, where a text block says so, a loop that does not end or a failed assertion), never an error
  the code reports; reported errors are values. Recursion that is not structural has a termination
  proof; the functions with fuel (\<open>free_nodes\<close>, which frees at most as many nodes as were ever
  allocated, and the removal of a group, with one unit per field) have theorems that the fuel given
  is enough. Machine integers are words where their wrap-around can be observed (coordinates of a
  crossword, 16-bit minutes); counters that would need \<open>2^63\<close> calls to overflow are unbounded, as each
  component's note says. Memory shared by threads is sequentially consistent.

  \<^bold>\<open>Not modelled.\<close> \<open>surfaces.h\<close> composes floating-point functions and includes a header that is not
  in the repository. MIMPI is processes, pipes and helper threads of the operating system around a tree of
  messages; \<open>LLQueue.c\<close>, \<open>BLQueue.c\<close> and \<open>HazardPointer.c\<close> reclaim memory that other threads may still
  read, for which no model of memory is given here. Command lines, \<open>getaddrinfo\<close>, the opening of sockets and
  signals are calls of the operating system with no state of the programs. The
  assembly, Java, Haskell, OCaml and Python projects are not C and are left out.
\<close>

end
